(* ===== verification/Prelude.thy ===== *)
theory Prelude
  imports Main "HOL-Library.Word" "HOL-Library.Monad_Syntax" "HOL-Library.Multiset"
begin

text \<open>
  What the components share: the results a Go function can have besides returning
  (a recoverable panic, a fatal throw of the runtime), the machine words of a 64-bit
  target, the collections of simplification rules, and generic facts on lists, maps and
  words.  Nothing here models a particular function of the repository.
\<close>

unbundle bit_operations_syntax

section \<open>Results\<close>

text \<open>
  A Go function returns, panics with a value a deferred call can recover, or, in the
  runtime only, throws: the process ends.  \<open>Spin\<close> is a call that waits in a loop for a
  change only another thread can make.
\<close>

datatype 'a outcome = Ret 'a | Panic string | Throw string | Spin

fun is_ret :: "'a outcome \<Rightarrow> bool" where
  "is_ret (Ret x) = True"
| "is_ret (Panic m) = False"
| "is_ret (Throw m) = False"
| "is_ret Spin = False"

primrec obind :: "'a outcome \<Rightarrow> ('a \<Rightarrow> 'b outcome) \<Rightarrow> 'b outcome" where
  "obind (Ret x) f = f x"
| "obind (Panic m) f = Panic m"
| "obind (Throw m) f = Throw m"
| "obind Spin f = Spin"

lemma obind_eq_Ret: "obind x f = Ret y \<longleftrightarrow> (\<exists>z. x = Ret z \<and> f z = Ret y)"
  by (cases x) auto

lemma obind_cong [fundef_cong]: "x = y \<Longrightarrow> (\<And>z. y = Ret z \<Longrightarrow> f z = g z) \<Longrightarrow> obind x f = obind y g"
  by (cases y) auto

lemma is_ret_obind: "is_ret (obind x f) \<longleftrightarrow> (\<exists>z. x = Ret z \<and> is_ret (f z))"
  by (cases x) auto

section \<open>Machine words\<close>

type_synonym u8 = "8 word"
type_synonym u16 = "16 word"
type_synonym u32 = "32 word"
type_synonym u64 = "64 word"

lemma unat_minus_one_u64: "unat (- 1 :: u64) = 2 ^ 64 - 1"
  by transfer (simp add: mask_eq_exp_minus_1)

section \<open>Collections of facts\<close>

named_theorems frame_simps \<open>what an operation leaves unchanged\<close>

section \<open>Lists\<close>

lemma dropWhile_append_all: "\<forall>x\<in>set xs. P x \<Longrightarrow> dropWhile P (xs @ ys) = dropWhile P ys"
  by (induction xs) auto

lemma filter_dropWhile_not: "filter (\<lambda>x. \<not> P x) (dropWhile P xs) = filter (\<lambda>x. \<not> P x) xs"
  by (induction xs) auto

lemma dropWhile_filter_Cons:
  "dropWhile P xs = y # ys \<Longrightarrow> filter (\<lambda>x. \<not> P x) xs = y # filter (\<lambda>x. \<not> P x) ys"
proof -
  assume a: "dropWhile P xs = y # ys"
  then have "\<not> P y" by (metis dropWhile_eq_Cons_conv)
  moreover have "filter (\<lambda>x. \<not> P x) xs = filter (\<lambda>x. \<not> P x) (y # ys)"
    using a filter_dropWhile_not [of P xs] by simp
  ultimately show ?thesis by simp
qed

lemma dropWhile_Nil_filter: "dropWhile P xs = [] \<longleftrightarrow> filter (\<lambda>x. \<not> P x) xs = []"
  by (induction xs) auto

lemma set_dropWhile_subset: "set (dropWhile P xs) \<subseteq> set xs"
  by (auto dest: set_dropWhileD)

lemma distinct_dropWhile_Cons:
  "distinct xs \<Longrightarrow> dropWhile P xs = y # ys \<Longrightarrow> y \<in> set xs \<and> set ys \<subseteq> set xs \<and> distinct (y # ys)"
  by (metis distinct_dropWhile list.set_intros(1) set_dropWhile_subset set_subset_Cons subset_iff)

lemma dropWhile_ConsD:
  "dropWhile P xs = y # ys \<Longrightarrow> y \<in> set xs \<and> set ys \<subseteq> set xs \<and> \<not> P y"
  by (induction xs) (auto split: if_splits)

lemma set_tl_dropWhile: "set (tl (dropWhile P xs)) \<subseteq> set xs"
  by (metis list.sel(2) list.set_sel(2) set_dropWhileD subsetI)

lemma in_set_tl: "x \<in> set (tl xs) \<Longrightarrow> x \<in> set xs"
  by (cases xs) auto

section \<open>Counting elements of a list\<close>

lemma nth_upd: "xs[i := x] ! j = (if i = j \<and> i < length xs then x else xs ! j)"
  by (cases "i < length xs") (auto simp: list_update_beyond)

definition num :: "('a \<Rightarrow> bool) \<Rightarrow> 'a list \<Rightarrow> nat" where
  "num P xs = length (filter P xs)"

lemma num_update:
  "i < length xs \<Longrightarrow> num P (xs[i := y]) + of_bool (P (xs ! i)) = num P xs + of_bool (P y)"
proof -
  assume i: "i < length xs"
  have "xs = take i xs @ xs ! i # drop (Suc i) xs" using i by (rule id_take_nth_drop)
  then have "num P xs = num P (take i xs @ xs ! i # drop (Suc i) xs)" by simp
  moreover have "num P (xs[i := y]) = num P (take i xs @ y # drop (Suc i) xs)"
    using i by (simp add: upd_conv_take_nth_drop)
  ultimately show ?thesis by (simp add: num_def)
qed

lemma num_pos: "0 < num P xs \<longleftrightarrow> (\<exists>i<length xs. P (xs ! i))"
  unfolding num_def length_greater_0_conv filter_empty_conv by (metis in_set_conv_nth)

lemma num_mono: "(\<And>x. P x \<Longrightarrow> Q x) \<Longrightarrow> num P xs \<le> num Q xs"
  by (induction xs) (auto simp: num_def)

lemma num_zip_fst: "length xs = length ys \<Longrightarrow> num (\<lambda>x. P (fst x)) (zip xs ys) = num P xs"
  by (induction xs ys rule: list_induct2) (auto simp: num_def)

lemma num_replicate: "num P (replicate n x) = (if P x then n else 0)"
  by (simp add: num_def)

lemma num_le_length: "num P xs \<le> length xs"
  by (simp add: num_def)

section \<open>Swapping two elements of a list\<close>

definition swap :: "'a list \<Rightarrow> nat \<Rightarrow> nat \<Rightarrow> 'a list" where
  "swap xs i j = xs[i := xs ! j, j := xs ! i]"

lemma length_swap [simp]: "length (swap xs i j) = length xs"
  by (simp add: swap_def)

lemma nth_swap: "i < length xs \<Longrightarrow> j < length xs \<Longrightarrow> k < length xs \<Longrightarrow>
    swap xs i j ! k = (if k = i then xs ! j else if k = j then xs ! i else xs ! k)"
  by (auto simp: swap_def nth_list_update)

lemma mset_swap_eq [simp]: "i < length xs \<Longrightarrow> j < length xs \<Longrightarrow> mset (swap xs i j) = mset xs"
  unfolding swap_def by (cases "i = j") (auto simp: mset_swap)

lemma set_swap_eq: "i < length xs \<Longrightarrow> j < length xs \<Longrightarrow> set (swap xs i j) = set xs"
  using mset_swap_eq by (metis set_mset_mset)

text \<open>Deleting from an array by moving the last element into the gap.\<close>

lemma mset_move_last:
  assumes l: "length xs = Suc n" and i: "i < n"
  shows "mset (take n (xs[i := xs ! n])) = mset xs - {#xs ! i#}"
proof -
  have il: "i < length xs" "n < length xs" using l i by auto
  have "take n (xs[i := xs ! n]) = take n (swap xs i n)"
    using l i by (intro nth_equalityI) (auto simp: swap_def nth_list_update)
  moreover have "swap xs i n = take n (swap xs i n) @ [xs ! i]"
    using take_Suc_conv_app_nth [of n "swap xs i n"] l i by (simp add: nth_swap)
  then have "mset (swap xs i n) = add_mset (xs ! i) (mset (take n (swap xs i n)))"
    by (metis mset_append mset.simps union_mset_add_mset_right add_0_right)
  then have "mset (take n (swap xs i n)) = mset xs - {#xs ! i#}"
    using il by simp
  ultimately show ?thesis by simp
qed

lemma mset_butlast_take: "length xs = Suc n \<Longrightarrow> mset (take n xs) = mset xs - {#xs ! n#}"
  using take_Suc_conv_app_nth [of n xs] by (metis add_diff_cancel_right' lessI mset_append mset_single_iff take_all_iff order_refl mset.simps)

lemma mset_remove_one:
  assumes "mset ys = mset xs - {#t#}" "distinct xs"
  shows "distinct ys \<and> set ys = set xs - {t}"
proof -
  have e: "mset ys = mset (remove1 t xs)" using assms(1) by simp
  have "set ys = set (remove1 t xs)" using e by (rule mset_eq_setD)
  moreover have "distinct ys" using mset_eq_imp_distinct_iff [OF e] assms(2) by simp
  ultimately show ?thesis using assms(2) by simp
qed

lemma mset_add_one:
  assumes "mset ys = add_mset t (mset xs)" "distinct xs" "t \<notin> set xs"
  shows "distinct ys \<and> set ys = insert t (set xs)"
proof -
  have e: "mset ys = mset (t # xs)" using assms(1) by simp
  from mset_eq_imp_distinct_iff [OF e] mset_eq_setD [OF e] assms(2,3) show ?thesis by simp
qed

end
