(* ===== verification/Waitq.thy ===== *)
theory Waitq
  imports Prelude
begin

text \<open>
  The wait queue of a channel (\<open>runtime/chan.go\<close>: \<open>waitq\<close>, \<open>enqueue\<close>, \<open>dequeue\<close>;
  \<open>runtime/select.go\<close>: \<open>dequeueSudoG\<close>): a doubly linked list of sudogs threaded through
  their own \<open>next\<close> and \<open>prev\<close> pointers.  Sudogs live in a store indexed by \<open>sgid\<close>, and a
  queue is the pair of its end pointers, as in the code.  \<open>wq_repr\<close> relates a queue to the
  list of sudogs it stands for; the lemmas show that each operation, pointer by pointer,
  is the list operation one expects, and that \<open>dequeue\<close> returns.

  A sudog enqueued by a select statement may lose the race for its goroutine before it is
  unlinked: it is then stale (\<open>sg_stale\<close>), and \<open>dequeue\<close> drops it and goes on.

  Not modelled: the fields of \<open>sudog\<close> used for profiling (\<open>acquiretime\<close>, \<open>releasetime\<close>),
  and those that only the tree of the semaphores uses (\<open>parent\<close>, \<open>waitlink\<close>, \<open>waittail\<close>, \<open>ticket\<close>).
\<close>

type_synonym sgid = nat
type_synonym gid = nat
type_synonym addr = nat
type_synonym chid = nat

section \<open>Sudogs and queues\<close>

record sudog =
  sg_g :: gid
  sg_next :: "sgid option"
  sg_prev :: "sgid option"
  sg_elem :: "addr option"
  sg_isSelect :: bool
  sg_waitlink :: "sgid option"
  sg_c :: "chid option"

type_synonym sgstore = "sgid \<Rightarrow> sudog"

record waitq =
  wq_first :: "sgid option"
  wq_last :: "sgid option"

definition empty_waitq :: waitq where
  "empty_waitq = \<lparr>wq_first = None, wq_last = None\<rparr>"

text \<open>\<open>g.selectDone\<close> of every goroutine, the word the wake-up race is decided on.\<close>

type_synonym seldone = "gid \<Rightarrow> u32"

section \<open>Operations\<close>

definition waitq_enqueue :: "sgstore \<Rightarrow> waitq \<Rightarrow> sgid \<Rightarrow> sgstore \<times> waitq" where
  "waitq_enqueue s q sgp =
     (let s1 = s(sgp := (s sgp)\<lparr>sg_next := None\<rparr>) in
      case wq_last q of
        None \<Rightarrow>
          (s1(sgp := (s1 sgp)\<lparr>sg_prev := None\<rparr>),
           q\<lparr>wq_first := Some sgp, wq_last := Some sgp\<rparr>)
      | Some x \<Rightarrow>
          (let s2 = s1(sgp := (s1 sgp)\<lparr>sg_prev := Some x\<rparr>);
               s3 = s2(x := (s2 x)\<lparr>sg_next := Some sgp\<rparr>)
           in (s3, q\<lparr>wq_last := Some sgp\<rparr>)))"

text \<open>
  \<open>atomic.Cas(&sgp.g.selectDone, 0, 1)\<close>: whether the swap happened, and the words after.
\<close>

definition cas_seldone :: "seldone \<Rightarrow> gid \<Rightarrow> u32 \<Rightarrow> u32 \<Rightarrow> bool \<times> seldone" where
  "cas_seldone d g old new = (if d g = old then (True, d(g := new)) else (False, d))"

text \<open>
  The loop of \<open>dequeue\<close>.  Nothing bounds it on an arbitrary store, so its result is an
  option whose \<open>None\<close> is a loop that does not end; \<open>waitq_dequeue_spec\<close> below shows that
  it ends on every well-formed queue.
\<close>

partial_function (option) waitq_dequeue ::
    "sgstore \<Rightarrow> seldone \<Rightarrow> waitq \<Rightarrow> (sgid option \<times> sgstore \<times> seldone \<times> waitq) option" where
  "waitq_dequeue s d q =
     (case wq_first q of
        None \<Rightarrow> Some (None, s, d, q)
      | Some sgp \<Rightarrow>
          (let (s1, q1) =
             (case sg_next (s sgp) of
                None \<Rightarrow> (s, q\<lparr>wq_first := None, wq_last := None\<rparr>)
              | Some y \<Rightarrow>
                  (let s' = s(y := (s y)\<lparr>sg_prev := None\<rparr>);
                       s'' = s'(sgp := (s' sgp)\<lparr>sg_next := None\<rparr>)
                   in (s'', q\<lparr>wq_first := Some y\<rparr>)))
           in if sg_isSelect (s1 sgp)
              then (let (won, d1) = cas_seldone d (sg_g (s1 sgp)) 0 1
                    in if won then Some (Some sgp, s1, d1, q1)
                       else waitq_dequeue s1 d1 q1)
              else Some (Some sgp, s1, d, q1)))"

definition waitq_dequeueSudoG :: "sgstore \<Rightarrow> waitq \<Rightarrow> sgid \<Rightarrow> sgstore \<times> waitq" where
  "waitq_dequeueSudoG s q sgp =
     (case (sg_prev (s sgp), sg_next (s sgp)) of
        (Some x, Some y) \<Rightarrow>
          (let s1 = s(x := (s x)\<lparr>sg_next := Some y\<rparr>);
               s2 = s1(y := (s1 y)\<lparr>sg_prev := Some x\<rparr>);
               s3 = s2(sgp := (s2 sgp)\<lparr>sg_next := None\<rparr>);
               s4 = s3(sgp := (s3 sgp)\<lparr>sg_prev := None\<rparr>)
           in (s4, q))
      | (Some x, None) \<Rightarrow>
          (let s1 = s(x := (s x)\<lparr>sg_next := None\<rparr>);
               s2 = s1(sgp := (s1 sgp)\<lparr>sg_prev := None\<rparr>)
           in (s2, q\<lparr>wq_last := Some x\<rparr>))
      | (None, Some y) \<Rightarrow>
          (let s1 = s(y := (s y)\<lparr>sg_prev := None\<rparr>);
               s2 = s1(sgp := (s1 sgp)\<lparr>sg_next := None\<rparr>)
           in (s2, q\<lparr>wq_first := Some y\<rparr>))
      | (None, None) \<Rightarrow>
          (if wq_first q = Some sgp then (s, q\<lparr>wq_first := None, wq_last := None\<rparr>)
           else (s, q)))"

section \<open>The list a queue stands for\<close>

text \<open>
  \<open>linked s p xs n\<close>: the sudogs \<open>xs\<close> form a segment of a doubly linked list, entered from
  \<open>p\<close> and left to \<open>n\<close>.
\<close>

fun linked :: "sgstore \<Rightarrow> sgid option \<Rightarrow> sgid list \<Rightarrow> sgid option \<Rightarrow> bool" where
  "linked s p [] n = True"
| "linked s p [x] n = (sg_prev (s x) = p \<and> sg_next (s x) = n)"
| "linked s p (x # y # xs) n =
     (sg_prev (s x) = p \<and> sg_next (s x) = Some y \<and> linked s (Some x) (y # xs) n)"

definition wq_repr :: "sgstore \<Rightarrow> waitq \<Rightarrow> sgid list \<Rightarrow> bool" where
  "wq_repr s q xs \<longleftrightarrow>
     distinct xs \<and> linked s None xs None \<and>
     wq_first q = (if xs = [] then None else Some (hd xs)) \<and>
     wq_last q = (if xs = [] then None else Some (last xs))"

text \<open>A sudog that lost the race for its goroutine.\<close>

definition sg_stale :: "sgstore \<Rightarrow> seldone \<Rightarrow> sgid \<Rightarrow> bool" where
  "sg_stale s d x \<longleftrightarrow> sg_isSelect (s x) \<and> d (sg_g (s x)) \<noteq> 0"

text \<open>Two stores that differ in the links only.\<close>

definition same_payload :: "sgstore \<Rightarrow> sgstore \<Rightarrow> bool" where
  "same_payload s t \<longleftrightarrow>
     (\<forall>x. sg_g (t x) = sg_g (s x) \<and> sg_elem (t x) = sg_elem (s x) \<and>
          sg_isSelect (t x) = sg_isSelect (s x) \<and> sg_waitlink (t x) = sg_waitlink (s x) \<and>
          sg_c (t x) = sg_c (s x))"

lemma same_payload_refl [simp, intro]: "same_payload s s"
  by (simp add: same_payload_def)

lemma same_payload_trans [trans]: "same_payload s t \<Longrightarrow> same_payload t u \<Longrightarrow> same_payload s u"
  by (simp add: same_payload_def)

lemma same_payloadD:
  assumes "same_payload s t"
  shows "sg_g (t x) = sg_g (s x)" "sg_elem (t x) = sg_elem (s x)"
    "sg_isSelect (t x) = sg_isSelect (s x)" "sg_waitlink (t x) = sg_waitlink (s x)"
    "sg_c (t x) = sg_c (s x)"
  using assms by (simp_all add: same_payload_def)

lemma same_payload_stale: "same_payload s t \<Longrightarrow> sg_stale t d = sg_stale s d"
  by (auto simp: fun_eq_iff sg_stale_def same_payload_def)

text \<open>\<open>linked\<close> looks at the links of its own sudogs only.\<close>

lemma linked_cong:
  "(\<And>x. x \<in> set xs \<Longrightarrow> sg_prev (t x) = sg_prev (s x) \<and> sg_next (t x) = sg_next (s x)) \<Longrightarrow>
   linked t p xs n = linked s p xs n"
  by (induction s p xs n rule: linked.induct) auto

lemma linked_append:
  "xs \<noteq> [] \<Longrightarrow> ys \<noteq> [] \<Longrightarrow>
   linked s p (xs @ ys) n \<longleftrightarrow>
     linked s p xs (Some (hd ys)) \<and> linked s (Some (last xs)) ys n"
proof (induction xs arbitrary: p)
  case Nil
  then show ?case by simp
next
  case (Cons x xs)
  then show ?case by (cases xs; cases ys) auto
qed

lemma linked_upd [simp]:
  "x \<notin> set xs \<Longrightarrow> linked (s(x := v)) p xs n = linked s p xs n"
  by (rule linked_cong) auto

lemma linked_Cons:
  "linked s p (x # xs) n \<longleftrightarrow>
     sg_prev (s x) = p \<and> sg_next (s x) = (if xs = [] then n else Some (hd xs)) \<and>
     linked s (Some x) xs n"
  by (cases xs) auto

lemma linked_snoc:
  "linked s p (xs @ [x]) n \<longleftrightarrow>
     linked s p xs (Some x) \<and> sg_prev (s x) = (if xs = [] then p else Some (last xs)) \<and>
     sg_next (s x) = n"
  by (cases "xs = []") (auto simp: linked_append)

text \<open>Redirecting the ends of a segment.\<close>

lemma linked_set_prev:
  "linked s p (x # xs) n \<Longrightarrow> x \<notin> set xs \<Longrightarrow>
   linked (s(x := (s x)\<lparr>sg_prev := p'\<rparr>)) p' (x # xs) n"
  by (simp add: linked_Cons)

lemma linked_set_next:
  assumes "linked s p (xs @ [x]) n" and "x \<notin> set xs"
  shows "linked (s(x := (s x)\<lparr>sg_next := n'\<rparr>)) p (xs @ [x]) n'"
  using assms by (simp add: linked_snoc)

lemma wq_repr_empty [simp]: "wq_repr s empty_waitq []"
  by (simp add: wq_repr_def empty_waitq_def)

lemma wq_repr_first: "wq_repr s q xs \<Longrightarrow> wq_first q = None \<longleftrightarrow> xs = []"
  by (simp add: wq_repr_def)

lemma wq_repr_Nil: "wq_repr s q [] \<longleftrightarrow> q = empty_waitq"
  by (cases q) (simp add: wq_repr_def empty_waitq_def)

lemma wq_repr_distinct: "wq_repr s q xs \<Longrightarrow> distinct xs"
  by (simp add: wq_repr_def)

lemma wq_repr_cong:
  "(\<And>x. x \<in> set xs \<Longrightarrow> sg_prev (t x) = sg_prev (s x) \<and> sg_next (t x) = sg_next (s x)) \<Longrightarrow>
   wq_repr t q xs = wq_repr s q xs"
  using linked_cong [of xs t s] by (simp add: wq_repr_def)

lemma wq_repr_upd [simp]: "x \<notin> set xs \<Longrightarrow> wq_repr (s(x := v)) q xs = wq_repr s q xs"
  by (simp add: wq_repr_def)

text \<open>The list is determined by the queue.\<close>

lemma linked_unique:
  "linked s p xs None \<Longrightarrow> linked s p ys None \<Longrightarrow> xs \<noteq> [] \<Longrightarrow> ys \<noteq> [] \<Longrightarrow> hd xs = hd ys \<Longrightarrow>
   xs = ys"
proof (induction xs arbitrary: p ys)
  case Nil
  then show ?case by simp
next
  case (Cons x xs)
  from Cons.prems obtain zs where ys: "ys = x # zs" by (cases ys) auto
  show ?case
  proof (cases "xs = [] \<or> zs = []")
    case True
    with Cons.prems ys show ?thesis by (auto simp: linked_Cons split: if_splits)
  next
    case False
    with Cons.prems ys have "linked s (Some x) xs None" "linked s (Some x) zs None" "hd xs = hd zs"
      by (auto simp: linked_Cons)
    with False ys show ?thesis by (auto dest: Cons.IH)
  qed
qed

lemma wq_repr_unique: "wq_repr s q xs \<Longrightarrow> wq_repr s q ys \<Longrightarrow> xs = ys"
  by (cases "xs = []"; cases "ys = []")
    (auto simp: wq_repr_def dest: linked_unique)

section \<open>The operations on the list\<close>

lemma waitq_enqueue_repr:
  assumes r: "wq_repr s q xs" and x: "x \<notin> set xs"
  shows "wq_repr (fst (waitq_enqueue s q x)) (snd (waitq_enqueue s q x)) (xs @ [x])"
proof (cases xs rule: rev_cases)
  case Nil
  with r show ?thesis
    by (auto simp: waitq_enqueue_def wq_repr_def Let_def)
next
  case (snoc ys z)
  with r x have z: "wq_last q = Some z" "z \<noteq> x" "z \<notin> set ys" "x \<notin> set ys" "distinct ys"
    and l: "linked s None (ys @ [z]) None" and f: "wq_first q = Some (hd xs)"
    by (auto simp: wq_repr_def)
  from l z have "linked (fst (waitq_enqueue s q x)) None ((ys @ [z]) @ [x]) None"
    unfolding linked_snoc by (auto simp: waitq_enqueue_def Let_def)
  with z f snoc show ?thesis
    by (auto simp: waitq_enqueue_def wq_repr_def Let_def hd_append)
qed

lemma waitq_enqueue_payload:
  "same_payload s (fst (waitq_enqueue s q x))"
  by (auto simp: waitq_enqueue_def same_payload_def Let_def split: option.split)

text \<open>What a queue operation leaves alone: the sudogs outside the queue.\<close>

lemma waitq_enqueue_frame:
  "wq_repr s q xs \<Longrightarrow> y \<notin> set xs \<Longrightarrow> y \<noteq> x \<Longrightarrow> fst (waitq_enqueue s q x) y = s y"
  by (cases xs rule: rev_cases) (auto simp: waitq_enqueue_def wq_repr_def Let_def)

text \<open>One turn of the \<open>dequeue\<close> loop takes the head off.\<close>

definition wq_unlink_head :: "sgstore \<Rightarrow> waitq \<Rightarrow> sgid \<Rightarrow> sgstore \<times> waitq" where
  "wq_unlink_head s q sgp =
     (case sg_next (s sgp) of
        None \<Rightarrow> (s, q\<lparr>wq_first := None, wq_last := None\<rparr>)
      | Some y \<Rightarrow>
          (let s' = s(y := (s y)\<lparr>sg_prev := None\<rparr>);
               s'' = s'(sgp := (s' sgp)\<lparr>sg_next := None\<rparr>)
           in (s'', q\<lparr>wq_first := Some y\<rparr>)))"

lemma wq_unlink_head_repr:
  assumes "wq_repr s q (x # xs)"
  shows "wq_repr (fst (wq_unlink_head s q x)) (snd (wq_unlink_head s q x)) xs"
proof (cases xs)
  case Nil
  with assms show ?thesis
    by (auto simp: wq_unlink_head_def wq_repr_def)
next
  case (Cons y ys)
  with assms have "sg_next (s x) = Some y" "x \<noteq> y" "x \<notin> set ys" "y \<notin> set ys"
    "linked s (Some x) (y # ys) None"
    by (auto simp: wq_repr_def)
  then show ?thesis
    using assms Cons by (auto simp: wq_unlink_head_def wq_repr_def Let_def linked_Cons)
qed

lemma wq_unlink_head_links:
  "wq_repr s q (x # xs) \<Longrightarrow>
   sg_next (fst (wq_unlink_head s q x) x) = None \<and> sg_prev (fst (wq_unlink_head s q x) x) = None"
  by (cases xs) (auto simp: wq_unlink_head_def wq_repr_def Let_def)

lemma wq_unlink_head_payload: "same_payload s (fst (wq_unlink_head s q x))"
  by (auto simp: wq_unlink_head_def same_payload_def Let_def split: option.split)

lemma wq_unlink_head_frame:
  "wq_repr s q (x # xs) \<Longrightarrow> y \<notin> set (x # xs) \<Longrightarrow> fst (wq_unlink_head s q x) y = s y"
  by (cases xs) (auto simp: wq_unlink_head_def wq_repr_def Let_def)

lemma waitq_dequeue_unfold:
  "waitq_dequeue s d q =
     (case wq_first q of
        None \<Rightarrow> Some (None, s, d, q)
      | Some x \<Rightarrow>
          (let (s1, q1) = wq_unlink_head s q x in
           if sg_stale s1 d x then waitq_dequeue s1 d q1
           else Some (Some x, s1, (if sg_isSelect (s1 x) then d(sg_g (s1 x) := 1) else d), q1)))"
  by (subst waitq_dequeue.simps)
    (auto simp: wq_unlink_head_def sg_stale_def cas_seldone_def Let_def split: option.split)

text \<open>
  The functional behaviour of \<open>dequeue\<close>: it returns, it hands out the first sudog that is
  not stale and wins that sudog's race, the stale ones before it are dropped, and if there
  is none the queue is left empty.  What leaves the queue has no links any more.
\<close>

definition dequeue_post ::
    "sgstore \<Rightarrow> seldone \<Rightarrow> sgid list \<Rightarrow> sgid option \<Rightarrow> sgstore \<Rightarrow> seldone \<Rightarrow> waitq \<Rightarrow> bool" where
  "dequeue_post s d xs r s' d' q' \<longleftrightarrow>
     same_payload s s' \<and> (\<forall>y. y \<notin> set xs \<longrightarrow> s' y = s y) \<and>
     (\<forall>y \<in> set (takeWhile (sg_stale s d) xs) \<union> set_option r.
        sg_next (s' y) = None \<and> sg_prev (s' y) = None) \<and>
     (case dropWhile (sg_stale s d) xs of
        [] \<Rightarrow> r = None \<and> q' = empty_waitq \<and> d' = d
      | x # ys \<Rightarrow> r = Some x \<and> wq_repr s' q' ys \<and>
          d' = (if sg_isSelect (s x) then d(sg_g (s x) := 1) else d))"

lemma waitq_dequeue_spec:
  assumes "wq_repr s q xs"
  shows "\<exists>r s' d' q'. waitq_dequeue s d q = Some (r, s', d', q') \<and> dequeue_post s d xs r s' d' q'"
  using assms
proof (induction xs arbitrary: s q)
  case Nil
  then show ?case
    by (auto simp: waitq_dequeue_unfold [of s] wq_repr_Nil dequeue_post_def empty_waitq_def)
next
  case (Cons x xs)
  define s1 q1 where "s1 = fst (wq_unlink_head s q x)" and "q1 = snd (wq_unlink_head s q x)"
  have pay: "same_payload s s1" and r1: "wq_repr s1 q1 xs"
    and fr: "\<And>y. y \<notin> set (x # xs) \<Longrightarrow> s1 y = s y"
    and lk: "sg_next (s1 x) = None" "sg_prev (s1 x) = None"
    using Cons.prems wq_unlink_head_payload wq_unlink_head_repr wq_unlink_head_frame
      wq_unlink_head_links
    by (auto simp: s1_def q1_def)
  have x: "x \<notin> set xs" using Cons.prems by (simp add: wq_repr_def)
  have st: "sg_stale s1 d = sg_stale s d" by (rule same_payload_stale [OF pay])
  have unf: "waitq_dequeue s d q =
      (if sg_stale s d x then waitq_dequeue s1 d q1
       else Some (Some x, s1, (if sg_isSelect (s1 x) then d(sg_g (s1 x) := 1) else d), q1))"
    using Cons.prems st
    by (subst waitq_dequeue_unfold) (simp add: wq_repr_def s1_def q1_def split_beta Let_def)
  show ?case
  proof (cases "sg_stale s d x")
    case True
    obtain r s' d' q' where "waitq_dequeue s1 d q1 = Some (r, s', d', q')"
      and "dequeue_post s1 d xs r s' d' q'"
      using Cons.IH [OF r1] by blast
    with True unf pay fr st lk x show ?thesis
      by (cases "dropWhile (sg_stale s d) xs")
        (auto simp: dequeue_post_def same_payloadD [OF pay] simp del: dropWhile_eq_Nil_conv
          intro: same_payload_trans)
  next
    case False
    with unf pay r1 fr lk show ?thesis
      by (auto simp: dequeue_post_def same_payloadD [OF pay])
  qed
qed

text \<open>Removing a sudog anywhere in the queue, or one already removed.\<close>

lemma waitq_dequeueSudoG_repr:
  assumes r: "wq_repr s q (xs @ x # ys)"
  shows "wq_repr (fst (waitq_dequeueSudoG s q x)) (snd (waitq_dequeueSudoG s q x)) (xs @ ys)"
proof -
  have d: "distinct (xs @ x # ys)" and l: "linked s None (xs @ x # ys) None"
    and q: "wq_first q = Some (hd (xs @ x # ys))" "wq_last q = Some (last (xs @ x # ys))"
    using r by (auto simp: wq_repr_def)
  show ?thesis
  proof (cases xs rule: rev_cases)
    case Nil
    show ?thesis
    proof (cases ys)
      case Nil
      with \<open>xs = []\<close> d l q show ?thesis
        by (auto simp: waitq_dequeueSudoG_def wq_repr_def)
    next
      case (Cons y zs)
      with \<open>xs = []\<close> d l q show ?thesis
        by (auto simp: waitq_dequeueSudoG_def wq_repr_def Let_def linked_Cons)
    qed
  next
    case (snoc us u)
    have l1: "linked s None (us @ [u]) (Some x)" and l2: "linked s (Some u) (x # ys) None"
      using l snoc linked_append [of "us @ [u]" "x # ys" s None None] by auto
    show ?thesis
    proof (cases ys)
      case Nil
      with snoc d l1 l2 q show ?thesis
        by (auto simp: waitq_dequeueSudoG_def wq_repr_def Let_def linked_snoc hd_append)
    next
      case (Cons y zs)
      have "linked (fst (waitq_dequeueSudoG s q x)) None (us @ [u]) (Some y)"
        "linked (fst (waitq_dequeueSudoG s q x)) (Some u) (y # zs) None"
        using snoc Cons d l1 l2
        by (auto simp: waitq_dequeueSudoG_def Let_def linked_snoc linked_Cons)
      then have "linked (fst (waitq_dequeueSudoG s q x)) None (xs @ ys) None"
        using snoc Cons linked_append [of "us @ [u]" "y # zs"] by auto
      with snoc Cons d l1 l2 q show ?thesis
        by (auto simp: waitq_dequeueSudoG_def wq_repr_def Let_def linked_Cons hd_append)
    qed
  qed
qed

lemma waitq_dequeueSudoG_absent:
  "sg_prev (s x) = None \<Longrightarrow> sg_next (s x) = None \<Longrightarrow> wq_repr s q xs \<Longrightarrow> x \<notin> set xs \<Longrightarrow>
   waitq_dequeueSudoG s q x = (s, q)"
  by (cases xs) (auto simp: waitq_dequeueSudoG_def wq_repr_def)

lemma waitq_dequeueSudoG_payload: "same_payload s (fst (waitq_dequeueSudoG s q x))"
  by (auto simp: waitq_dequeueSudoG_def same_payload_def Let_def split: option.split)

end
