(* ===== verification/Chan.thy ===== *)
theory Chan
  imports Waitq
begin

text \<open>
  Channels (\<open>runtime/chan.go\<close>) and the overflow-checked multiplication their allocation
  rests on (\<open>runtime/internal/math/math.go\<close>).  The state of the runtime that the channel
  code touches is one record \<open>rt\<close>: the store of sudogs, the fields of every goroutine the
  code writes (\<open>selectDone\<close>, \<open>param\<close>, \<open>waiting\<close>, \<open>activeStackChans\<close>), the memory cells
  \<open>elem\<close> pointers point to, the channels themselves, and the goroutines made ready, in
  the order of the calls of \<open>goready\<close>.

  A call runs under the channel's lock, so an operation is one step of the model; a call
  that parks its goroutine ends with \<open>Blocked\<close>, and what it does once woken is a function
  of its own (\<open>chansend_wake\<close>, \<open>chanrecv_wake\<close>).  The sudog that \<open>acquireSudog\<close> hands out
  and the running goroutine of \<open>getg\<close> are arguments.

  Constants are those of linux/amd64.  Race detector, block profiling and debug output are
  not modelled.
\<close>

section \<open>Multiplication with an overflow check\<close>

definition MaxUintptr :: u64 where
  "MaxUintptr = NOT 0"

definition MulUintptr :: "u64 \<Rightarrow> u64 \<Rightarrow> u64 \<times> bool" where
  "MulUintptr a b =
     (if a OR b < push_bit (4 * 8) 1 \<or> a = 0 then (a * b, False)
      else (let overflow = b > MaxUintptr div a in (a * b, overflow)))"

section \<open>The state\<close>

definition maxAlign :: u64 where "maxAlign = 8"
definition hchanSize :: u64 where "hchanSize = 96"
definition maxAlloc :: u64 where "maxAlloc = push_bit 48 1"

record 'v elemtype =
  et_size :: u64
  et_align :: u64
  et_zero :: 'v

record 'v hchan =
  qcount :: nat
  dataqsiz :: nat
  buf :: "'v list"
  closed :: u32
  elemtype :: "'v elemtype"
  sendx :: nat
  recvx :: nat
  recvq :: waitq
  sendq :: waitq

record 'v rt =
  rt_sg :: sgstore
  rt_done :: seldone
  rt_param :: "gid \<Rightarrow> sgid option"
  rt_waiting :: "gid \<Rightarrow> sgid option"
  rt_stackChans :: "gid \<Rightarrow> bool"
  rt_mem :: "addr \<Rightarrow> 'v"
  rt_chan :: "chid \<Rightarrow> 'v hchan"
  rt_ready :: "gid list"

text \<open>
  What a call comes to: it returns, it panics, the runtime throws, or its goroutine is
  parked with a sudog on a wait queue, or parked for ever.
\<close>

datatype 'r chan_result = Done 'r | Panicked string | Thrown string | Blocked sgid | BlockedForever

section \<open>Making a channel\<close>

definition makechan :: "'v elemtype \<Rightarrow> u64 \<Rightarrow> 'v hchan outcome" where
  "makechan elem sz =
     (if et_size elem \<ge> push_bit 16 1 then Throw ''makechan: invalid channel element type''
      else if hchanSize mod maxAlign \<noteq> 0 \<or> et_align elem > maxAlign
      then Throw ''makechan: bad alignment''
      else (let (mem, overflow) = MulUintptr (et_size elem) sz in
        if overflow \<or> mem > maxAlloc - hchanSize \<or> sint sz < 0
        then Panic ''makechan: size out of range''
        else Ret \<lparr>qcount = 0, dataqsiz = unat sz, buf = replicate (unat sz) (et_zero elem),
                  closed = 0, elemtype = elem, sendx = 0, recvx = 0,
                  recvq = empty_waitq, sendq = empty_waitq\<rparr>))"

section \<open>Primitives\<close>

definition upd_chan :: "chid \<Rightarrow> ('v hchan \<Rightarrow> 'v hchan) \<Rightarrow> 'v rt \<Rightarrow> 'v rt" where
  "upd_chan c f r = r\<lparr>rt_chan := (rt_chan r)(c := f (rt_chan r c))\<rparr>"

definition upd_sg :: "sgid \<Rightarrow> (sudog \<Rightarrow> sudog) \<Rightarrow> 'v rt \<Rightarrow> 'v rt" where
  "upd_sg x f r = r\<lparr>rt_sg := (rt_sg r)(x := f (rt_sg r x))\<rparr>"

definition set_param :: "gid \<Rightarrow> sgid option \<Rightarrow> 'v rt \<Rightarrow> 'v rt" where
  "set_param g p r = r\<lparr>rt_param := (rt_param r)(g := p)\<rparr>"

definition set_waiting :: "gid \<Rightarrow> sgid option \<Rightarrow> 'v rt \<Rightarrow> 'v rt" where
  "set_waiting g p r = r\<lparr>rt_waiting := (rt_waiting r)(g := p)\<rparr>"

text \<open>\<open>typedmemmove\<close>, \<open>typedmemclr\<close> to a pointer that may be nil: nothing is written.\<close>

definition store_elem :: "addr option \<Rightarrow> 'v \<Rightarrow> 'v rt \<Rightarrow> 'v rt" where
  "store_elem p v r =
     (case p of None \<Rightarrow> r | Some a \<Rightarrow> r\<lparr>rt_mem := (rt_mem r)(a := v)\<rparr>)"

text \<open>\<open>goready\<close>: the goroutine goes to the scheduler.\<close>

definition goready :: "gid \<Rightarrow> 'v rt \<Rightarrow> 'v rt" where
  "goready g r = r\<lparr>rt_ready := rt_ready r @ [g]\<rparr>"

definition recvq_dequeue :: "'v rt \<Rightarrow> chid \<Rightarrow> (sgid option \<times> 'v rt) option" where
  "recvq_dequeue r c =
     do { (x, s, d, q) \<leftarrow> waitq_dequeue (rt_sg r) (rt_done r) (recvq (rt_chan r c));
          Some (x, upd_chan c (\<lambda>h. h\<lparr>recvq := q\<rparr>) (r\<lparr>rt_sg := s, rt_done := d\<rparr>)) }"

definition sendq_dequeue :: "'v rt \<Rightarrow> chid \<Rightarrow> (sgid option \<times> 'v rt) option" where
  "sendq_dequeue r c =
     do { (x, s, d, q) \<leftarrow> waitq_dequeue (rt_sg r) (rt_done r) (sendq (rt_chan r c));
          Some (x, upd_chan c (\<lambda>h. h\<lparr>sendq := q\<rparr>) (r\<lparr>rt_sg := s, rt_done := d\<rparr>)) }"

definition recvq_enqueue :: "'v rt \<Rightarrow> chid \<Rightarrow> sgid \<Rightarrow> 'v rt" where
  "recvq_enqueue r c x =
     (let (s, q) = waitq_enqueue (rt_sg r) (recvq (rt_chan r c)) x
      in upd_chan c (\<lambda>h. h\<lparr>recvq := q\<rparr>) (r\<lparr>rt_sg := s\<rparr>))"

definition sendq_enqueue :: "'v rt \<Rightarrow> chid \<Rightarrow> sgid \<Rightarrow> 'v rt" where
  "sendq_enqueue r c x =
     (let (s, q) = waitq_enqueue (rt_sg r) (sendq (rt_chan r c)) x
      in upd_chan c (\<lambda>h. h\<lparr>sendq := q\<rparr>) (r\<lparr>rt_sg := s\<rparr>))"

text \<open>\<open>chanbuf\<close> is the slot \<open>i\<close> of the circular buffer.\<close>

definition chanbuf :: "'v hchan \<Rightarrow> nat \<Rightarrow> 'v" where
  "chanbuf h i = buf h ! i"

definition full :: "'v rt \<Rightarrow> chid \<Rightarrow> bool" where
  "full r c =
     (let h = rt_chan r c in
      if dataqsiz h = 0 then wq_first (recvq h) = None else qcount h = dataqsiz h)"

definition empty :: "'v rt \<Rightarrow> chid \<Rightarrow> bool" where
  "empty r c =
     (let h = rt_chan r c in
      if dataqsiz h = 0 then wq_first (sendq h) = None else qcount h = 0)"

text \<open>\<open>c.recvx++; if c.recvx == c.dataqsiz { c.recvx = 0 }\<close>, and the same for \<open>sendx\<close>.\<close>

definition advance :: "nat \<Rightarrow> nat \<Rightarrow> nat" where
  "advance n i = (if i + 1 = n then 0 else i + 1)"

text \<open>The branch of a send, and of a select, that puts an element into the buffer.\<close>

definition buf_put :: "'v \<Rightarrow> 'v hchan \<Rightarrow> 'v hchan" where
  "buf_put v h =
     h\<lparr>buf := (buf h)[sendx h := v], sendx := advance (dataqsiz h) (sendx h),
       qcount := qcount h + 1\<rparr>"

text \<open>The branch of a receive that takes the head of the buffer and clears its slot.\<close>

definition buf_take :: "'v hchan \<Rightarrow> 'v hchan" where
  "buf_take h =
     h\<lparr>buf := (buf h)[recvx h := et_zero (elemtype h)], recvx := advance (dataqsiz h) (recvx h),
       qcount := qcount h - 1\<rparr>"

section \<open>Sending\<close>

text \<open>\<open>send\<close>: hand the value at \<open>ep\<close> to the waiting receiver \<open>x\<close>, and wake it.\<close>

definition send :: "'v rt \<Rightarrow> sgid \<Rightarrow> addr \<Rightarrow> 'v rt" where
  "send r x ep =
     (let r1 = (case sg_elem (rt_sg r x) of
                  None \<Rightarrow> r
                | Some dst \<Rightarrow>
                    upd_sg x (\<lambda>s. s\<lparr>sg_elem := None\<rparr>) (store_elem (Some dst) (rt_mem r ep) r));
          gp = sg_g (rt_sg r1 x)
      in goready gp (set_param gp (Some x) r1))"

text \<open>Fill in the sudog and enqueue it: what a blocking send does before \<open>gopark\<close>.\<close>

definition park_send :: "'v rt \<Rightarrow> chid \<Rightarrow> gid \<Rightarrow> sgid \<Rightarrow> addr \<Rightarrow> 'v rt" where
  "park_send r c gp mysg ep =
     (let r1 = upd_sg mysg (\<lambda>s. s\<lparr>sg_elem := Some ep, sg_waitlink := None, sg_g := gp,
                                  sg_isSelect := False, sg_c := Some c\<rparr>) r;
          r2 = set_param gp None (set_waiting gp (Some mysg) r1);
          r3 = sendq_enqueue r2 c mysg
      in r3\<lparr>rt_stackChans := (rt_stackChans r3)(gp := True)\<rparr>)"

definition chansend ::
    "'v rt \<Rightarrow> chid option \<Rightarrow> gid \<Rightarrow> sgid \<Rightarrow> addr \<Rightarrow> bool \<Rightarrow> ('v rt \<times> bool chan_result) option" where
  "chansend r co gp mysg ep block =
     (case co of
        None \<Rightarrow> Some (r, if \<not> block then Done False else BlockedForever)
      | Some c \<Rightarrow>
          if \<not> block \<and> closed (rt_chan r c) = 0 \<and> full r c then Some (r, Done False)
          else if closed (rt_chan r c) \<noteq> 0 then Some (r, Panicked ''send on closed channel'')
          else do {
            (sg, r1) \<leftarrow> recvq_dequeue r c;
            (case sg of
               Some x \<Rightarrow> Some (send r1 x ep, Done True)
             | None \<Rightarrow>
                 if qcount (rt_chan r1 c) < dataqsiz (rt_chan r1 c)
                 then Some (upd_chan c (buf_put (rt_mem r1 ep)) r1, Done True)
                 else if \<not> block then Some (r1, Done False)
                 else Some (park_send r1 c gp mysg ep, Blocked mysg)) })"

text \<open>The checks of \<open>releaseSudog\<close>, which throws on a sudog still in use.\<close>

definition releaseSudog_check :: "'v rt \<Rightarrow> gid \<Rightarrow> sgid \<Rightarrow> string option" where
  "releaseSudog_check r gp x =
     (let s = rt_sg r x in
      if sg_elem s \<noteq> None then Some ''runtime: sudog with non-nil elem''
      else if sg_isSelect s then Some ''runtime: sudog with non-false isSelect''
      else if sg_next s \<noteq> None then Some ''runtime: sudog with non-nil next''
      else if sg_prev s \<noteq> None then Some ''runtime: sudog with non-nil prev''
      else if sg_waitlink s \<noteq> None then Some ''runtime: sudog with non-nil waitlink''
      else if sg_c s \<noteq> None then Some ''runtime: sudog with non-nil c''
      else if rt_param r gp \<noteq> None then Some ''runtime: releaseSudog with non-nil gp.param''
      else None)"

text \<open>What a blocked sender does when it runs again.\<close>

definition chansend_wake :: "'v rt \<Rightarrow> chid \<Rightarrow> gid \<Rightarrow> sgid \<Rightarrow> 'v rt \<times> bool chan_result" where
  "chansend_wake r c gp mysg =
     (if Some mysg \<noteq> rt_waiting r gp then (r, Thrown ''G waiting list is corrupted'')
      else
        let r1 = set_waiting gp None r;
            r2 = r1\<lparr>rt_stackChans := (rt_stackChans r1)(gp := False)\<rparr>
        in if rt_param r2 gp = None
           then if closed (rt_chan r2 c) = 0 then (r2, Thrown ''chansend: spurious wakeup'')
                else (r2, Panicked ''send on closed channel'')
           else
             let r3 = set_param gp None r2;
                 r4 = upd_sg mysg (\<lambda>s. s\<lparr>sg_c := None\<rparr>) r3
             in (case releaseSudog_check r4 gp mysg of
                   Some m \<Rightarrow> (r4, Thrown m)
                 | None \<Rightarrow> (r4, Done True)))"

section \<open>Receiving\<close>

text \<open>
  \<open>recv\<close>: the sender \<open>x\<close> was taken from the queue.  On an unbuffered channel its value is
  the one received; on a buffered one the buffer is full, its head is received and the
  sender's value takes the freed slot.  A sender's \<open>elem\<close> is never nil.
\<close>

definition recv :: "'v rt \<Rightarrow> chid \<Rightarrow> sgid \<Rightarrow> addr option \<Rightarrow> 'v rt" where
  "recv r c x ep =
     (let h = rt_chan r c;
          r1 = (if dataqsiz h = 0
                then store_elem ep (rt_mem r (the (sg_elem (rt_sg r x)))) r
                else let r' = store_elem ep (chanbuf h (recvx h)) r;
                         n = advance (dataqsiz h) (recvx h)
                     in upd_chan c (\<lambda>h. h\<lparr>buf := (buf h)[recvx h := rt_mem r' (the (sg_elem (rt_sg r x)))],
                                          recvx := n, sendx := n\<rparr>) r');
          r2 = upd_sg x (\<lambda>s. s\<lparr>sg_elem := None\<rparr>) r1;
          gp = sg_g (rt_sg r2 x)
      in goready gp (set_param gp (Some x) r2))"

definition park_recv :: "'v rt \<Rightarrow> chid \<Rightarrow> gid \<Rightarrow> sgid \<Rightarrow> addr option \<Rightarrow> 'v rt" where
  "park_recv r c gp mysg ep =
     (let r1 = upd_sg mysg (\<lambda>s. s\<lparr>sg_elem := ep, sg_waitlink := None, sg_g := gp,
                                  sg_isSelect := False, sg_c := Some c\<rparr>) r;
          r2 = set_param gp None (set_waiting gp (Some mysg) r1);
          r3 = recvq_enqueue r2 c mysg
      in r3\<lparr>rt_stackChans := (rt_stackChans r3)(gp := True)\<rparr>)"

text \<open>The result is the pair \<open>(selected, received)\<close>.\<close>

definition chanrecv ::
    "'v rt \<Rightarrow> chid option \<Rightarrow> gid \<Rightarrow> sgid \<Rightarrow> addr option \<Rightarrow> bool \<Rightarrow>
     ('v rt \<times> (bool \<times> bool) chan_result) option" where
  "chanrecv r co gp mysg ep block =
     (case co of
        None \<Rightarrow> Some (r, if \<not> block then Done (False, False) else BlockedForever)
      | Some c \<Rightarrow>
          if \<not> block \<and> empty r c \<and> closed (rt_chan r c) = 0 then Some (r, Done (False, False))
          else if \<not> block \<and> empty r c
          then Some (store_elem ep (et_zero (elemtype (rt_chan r c))) r, Done (True, False))
          else if closed (rt_chan r c) \<noteq> 0 \<and> qcount (rt_chan r c) = 0
          then Some (store_elem ep (et_zero (elemtype (rt_chan r c))) r, Done (True, False))
          else do {
            (sg, r1) \<leftarrow> sendq_dequeue r c;
            (case sg of
               Some x \<Rightarrow> Some (recv r1 c x ep, Done (True, True))
             | None \<Rightarrow>
                 if qcount (rt_chan r1 c) > 0
                 then let h = rt_chan r1 c;
                          r2 = store_elem ep (chanbuf h (recvx h)) r1
                      in Some (upd_chan c buf_take r2, Done (True, True))
                 else if \<not> block then Some (r1, Done (False, False))
                 else Some (park_recv r1 c gp mysg ep, Blocked mysg)) })"

definition chanrecv_wake :: "'v rt \<Rightarrow> gid \<Rightarrow> sgid \<Rightarrow> 'v rt \<times> (bool \<times> bool) chan_result" where
  "chanrecv_wake r gp mysg =
     (if Some mysg \<noteq> rt_waiting r gp then (r, Thrown ''G waiting list is corrupted'')
      else
        let r1 = set_waiting gp None r;
            r2 = r1\<lparr>rt_stackChans := (rt_stackChans r1)(gp := False)\<rparr>;
            was_closed = (rt_param r2 gp = None);
            r3 = set_param gp None r2;
            r4 = upd_sg mysg (\<lambda>s. s\<lparr>sg_c := None\<rparr>) r3
        in (case releaseSudog_check r4 gp mysg of
              Some m \<Rightarrow> (r4, Thrown m)
            | None \<Rightarrow> (r4, Done (True, \<not> was_closed))))"

section \<open>Closing\<close>

text \<open>The loop that releases the receivers; \<open>glist\<close> is a stack of goroutines.\<close>

partial_function (option) close_receivers ::
    "'v rt \<Rightarrow> chid \<Rightarrow> gid list \<Rightarrow> ('v rt \<times> gid list) option" where
  "close_receivers r c glist =
     do { (sg, r1) \<leftarrow> recvq_dequeue r c;
          (case sg of
             None \<Rightarrow> Some (r1, glist)
           | Some x \<Rightarrow>
               let r2 = (case sg_elem (rt_sg r1 x) of
                           None \<Rightarrow> r1
                         | Some a \<Rightarrow>
                             upd_sg x (\<lambda>s. s\<lparr>sg_elem := None\<rparr>)
                               (store_elem (Some a) (et_zero (elemtype (rt_chan r1 c))) r1));
                   gp = sg_g (rt_sg r2 x)
               in close_receivers (set_param gp None r2) c (gp # glist)) }"

partial_function (option) close_senders ::
    "'v rt \<Rightarrow> chid \<Rightarrow> gid list \<Rightarrow> ('v rt \<times> gid list) option" where
  "close_senders r c glist =
     do { (sg, r1) \<leftarrow> sendq_dequeue r c;
          (case sg of
             None \<Rightarrow> Some (r1, glist)
           | Some x \<Rightarrow>
               let r2 = upd_sg x (\<lambda>s. s\<lparr>sg_elem := None\<rparr>) r1;
                   gp = sg_g (rt_sg r2 x)
               in close_senders (set_param gp None r2) c (gp # glist)) }"

definition closechan :: "'v rt \<Rightarrow> chid option \<Rightarrow> ('v rt \<times> unit chan_result) option" where
  "closechan r co =
     (case co of
        None \<Rightarrow> Some (r, Panicked ''close of nil channel'')
      | Some c \<Rightarrow>
          if closed (rt_chan r c) \<noteq> 0 then Some (r, Panicked ''close of closed channel'')
          else do {
            (r1, gl1) \<leftarrow> close_receivers (upd_chan c (\<lambda>h. h\<lparr>closed := 1\<rparr>) r) c [];
            (r2, gl2) \<leftarrow> close_senders r1 c gl1;
            Some (fold goready gl2 r2, Done ()) })"

section \<open>Entry points of compiled code and of reflection\<close>

definition makechan64 :: "'v elemtype \<Rightarrow> u64 \<Rightarrow> 'v hchan outcome" where
  "makechan64 elem sz = makechan elem sz"

definition chansend1 :: "'v rt \<Rightarrow> chid option \<Rightarrow> gid \<Rightarrow> sgid \<Rightarrow> addr \<Rightarrow> ('v rt \<times> bool chan_result) option" where
  "chansend1 r co gp mysg elem = chansend r co gp mysg elem True"

definition chanrecv2 ::
    "'v rt \<Rightarrow> chid option \<Rightarrow> gid \<Rightarrow> sgid \<Rightarrow> addr option \<Rightarrow> ('v rt \<times> (bool \<times> bool) chan_result) option" where
  "chanrecv2 r co gp mysg elem = chanrecv r co gp mysg elem True"

definition selectnbsend :: "'v rt \<Rightarrow> chid option \<Rightarrow> gid \<Rightarrow> sgid \<Rightarrow> addr \<Rightarrow> ('v rt \<times> bool chan_result) option" where
  "selectnbsend r co gp mysg elem = chansend r co gp mysg elem False"

definition selectnbrecv2 ::
    "'v rt \<Rightarrow> addr option \<Rightarrow> chid option \<Rightarrow> gid \<Rightarrow> sgid \<Rightarrow> ('v rt \<times> (bool \<times> bool) chan_result) option" where
  "selectnbrecv2 r elem co gp mysg = chanrecv r co gp mysg elem False"

definition chanlen :: "'v rt \<Rightarrow> chid option \<Rightarrow> nat" where
  "chanlen r co = (case co of None \<Rightarrow> 0 | Some c \<Rightarrow> qcount (rt_chan r c))"

definition chancap :: "'v rt \<Rightarrow> chid option \<Rightarrow> nat" where
  "chancap r co = (case co of None \<Rightarrow> 0 | Some c \<Rightarrow> dataqsiz (rt_chan r c))"

section \<open>Overflow of the product\<close>

lemma MulUintptr_overflow_iff: "snd (MulUintptr a b) \<longleftrightarrow> 2 ^ 64 \<le> unat a * unat b"
proof (cases "a OR b < push_bit (4 * 8) 1 \<or> a = 0")
  case True
  have small: "unat a * unat b < 2 ^ 64" if lt: "a OR b < push_bit (4 * 8) 1"
  proof -
    have "a \<le> a OR b" "b \<le> a OR b" by (simp_all add: le_word_or1 le_word_or2)
    with lt have "a < 4294967296" "b < 4294967296" by (auto intro: le_less_trans simp: push_bit_eq_mult)
    then have "unat a < 4294967296" "unat b < 4294967296" by (simp_all add: word_less_nat_alt)
    then have "unat a * unat b < 4294967296 * 4294967296" by (rule mult_strict_mono') auto
    then show ?thesis by simp
  qed
  show ?thesis
  proof (cases "a = 0")
    case False
    with True small have "unat a * unat b < 2 ^ 64" by blast
    with True show ?thesis by (simp add: MulUintptr_def)
  qed (simp add: MulUintptr_def)
next
  case False
  then have a: "0 < unat a" by (simp add: unat_gt_0)
  have m: "unat MaxUintptr = 2 ^ 64 - 1" by (simp add: MaxUintptr_def unat_minus_one_u64)
  have "MaxUintptr div a < b \<longleftrightarrow> unat MaxUintptr div unat a < unat b"
    by (simp add: word_less_nat_alt unat_div)
  also have "\<dots> \<longleftrightarrow> 2 ^ 64 - 1 < unat b * unat a"
    unfolding m using a by (rule div_less_iff_less_mult)
  also have "\<dots> \<longleftrightarrow> 2 ^ 64 \<le> unat a * unat b" by (simp add: mult.commute) linarith
  finally show ?thesis using False by (simp add: MulUintptr_def Let_def)
qed

lemma MulUintptr_product: "fst (MulUintptr a b) = a * b"
  by (simp add: MulUintptr_def Let_def)

end
