(* ===== verification/Chan_Spec.thy ===== *)
theory Chan_Spec
  imports Chan
begin

text \<open>
  What channels promise.  The circular buffer stands for a list (\<open>chan_vals\<close>) and each
  wait queue for a list of sudogs (\<open>chan_repr\<close>); \<open>chan_inv\<close> is the invariant the comment at
  the head of \<open>chan.go\<close> states, and every operation is characterised, branch by branch, on
  those lists.
\<close>

section \<open>The circular buffer as a list\<close>

definition chan_vals :: "'v hchan \<Rightarrow> 'v list" where
  "chan_vals h = map (\<lambda>i. buf h ! ((recvx h + i) mod dataqsiz h)) [0..<qcount h]"

definition buf_wf :: "'v hchan \<Rightarrow> bool" where
  "buf_wf h \<longleftrightarrow>
     length (buf h) = dataqsiz h \<and> qcount h \<le> dataqsiz h \<and>
     (if dataqsiz h = 0 then recvx h = 0 \<and> sendx h = 0
      else recvx h < dataqsiz h \<and> sendx h = (recvx h + qcount h) mod dataqsiz h)"

lemma advance_mod: "i < n \<Longrightarrow> advance n i = (i + 1) mod n"
  by (simp add: advance_def)

lemma length_chan_vals [simp]: "length (chan_vals h) = qcount h"
  by (simp add: chan_vals_def)

lemma chan_vals_Nil: "chan_vals h = [] \<longleftrightarrow> qcount h = 0"
  by (simp add: chan_vals_def)

lemma add_mod_wrap:
  "k < n \<Longrightarrow> i \<le> n \<Longrightarrow> (k + i) mod n = (if k + i < n then k + i else k + i - n)" for n :: nat
  by (auto simp: le_mod_geq)

lemma chan_vals_nth: "i < qcount h \<Longrightarrow> chan_vals h ! i = buf h ! ((recvx h + i) mod dataqsiz h)"
  by (simp add: chan_vals_def)

lemma buf_put_wf: "buf_wf h \<Longrightarrow> qcount h < dataqsiz h \<Longrightarrow> buf_wf (buf_put v h)"
  by (auto simp: buf_wf_def buf_put_def advance_mod mod_Suc_eq add.assoc)

lemma buf_put_vals:
  assumes "buf_wf h" and "qcount h < dataqsiz h"
  shows "chan_vals (buf_put v h) = chan_vals h @ [v]"
proof (rule nth_equalityI)
  fix i assume "i < length (chan_vals (buf_put v h))"
  then have i: "i < Suc (qcount h)" by (simp add: buf_put_def)
  show "chan_vals (buf_put v h) ! i = (chan_vals h @ [v]) ! i"
  proof (cases "i = qcount h")
    case True
    with assms i show ?thesis
      by (simp add: chan_vals_nth nth_append buf_put_def buf_wf_def split: if_splits)
  next
    case False
    with i have lt: "i < qcount h" by simp
    with assms have "(recvx h + i) mod dataqsiz h \<noteq> sendx h"
      by (auto simp: buf_wf_def add_mod_wrap split: if_splits)
    with lt assms show ?thesis
      by (simp add: chan_vals_nth nth_append buf_put_def buf_wf_def)
  qed
qed (simp add: buf_put_def)

lemma buf_take_wf: "buf_wf h \<Longrightarrow> 0 < qcount h \<Longrightarrow> buf_wf (buf_take h)"
  by (cases "qcount h") (auto simp: buf_wf_def buf_take_def advance_mod mod_simps)

lemma buf_take_vals:
  assumes "buf_wf h" and "0 < qcount h"
  shows "chan_vals h = chanbuf h (recvx h) # chan_vals (buf_take h)"
proof (rule nth_equalityI)
  fix i assume "i < length (chan_vals h)"
  then have i: "i < qcount h" by simp
  have n: "0 < dataqsiz h" "recvx h < dataqsiz h" "qcount h \<le> dataqsiz h"
    using assms by (auto simp: buf_wf_def split: if_splits)
  show "chan_vals h ! i = (chanbuf h (recvx h) # chan_vals (buf_take h)) ! i"
  proof (cases i)
    case 0
    with i n show ?thesis by (simp add: chan_vals_nth chanbuf_def)
  next
    case (Suc j)
    with i n have "(recvx h + Suc j) mod dataqsiz h \<noteq> recvx h"
      using add_mod_wrap [of "recvx h" "dataqsiz h" "Suc j"] by (simp split: if_splits)
    moreover have "(advance (dataqsiz h) (recvx h) + j) mod dataqsiz h = (recvx h + Suc j) mod dataqsiz h"
      using n by (simp add: advance_mod mod_add_left_eq)
    ultimately show ?thesis
      using Suc i n by (simp add: chan_vals_nth buf_take_def)
  qed
qed (use assms in \<open>simp add: buf_take_def\<close>)

text \<open>
  A receive from a full buffer with a sender waiting: the head leaves, the sender's value
  goes in at the tail, and both are the same slot.
\<close>

definition buf_rotate :: "'v \<Rightarrow> 'v hchan \<Rightarrow> 'v hchan" where
  "buf_rotate v h =
     h\<lparr>buf := (buf h)[recvx h := v], recvx := advance (dataqsiz h) (recvx h),
       sendx := advance (dataqsiz h) (recvx h)\<rparr>"

lemma buf_rotate_eq:
  assumes "buf_wf h" and "qcount h = dataqsiz h" and "0 < dataqsiz h"
  shows "buf_rotate v h = buf_put v (buf_take h)"
  using assms by (auto simp: buf_rotate_def buf_put_def buf_take_def buf_wf_def)

lemma buf_rotate_wf:
  "buf_wf h \<Longrightarrow> qcount h = dataqsiz h \<Longrightarrow> 0 < dataqsiz h \<Longrightarrow> buf_wf (buf_rotate v h)"
  by (simp add: buf_rotate_eq buf_put_wf buf_take_wf buf_take_def [THEN arg_cong [of _ _ qcount]]
      buf_take_def [THEN arg_cong [of _ _ dataqsiz]])

lemma buf_rotate_vals:
  assumes "buf_wf h" and "qcount h = dataqsiz h" and "0 < dataqsiz h"
  shows "chanbuf h (recvx h) # chan_vals (buf_rotate v h) = chan_vals h @ [v]"
proof -
  have "buf_wf (buf_take h)" and "qcount (buf_take h) < dataqsiz (buf_take h)"
    using assms buf_take_wf [of h] by (auto simp: buf_take_def)
  then show ?thesis
    using assms buf_take_vals [of h] by (simp add: buf_rotate_eq buf_put_vals)
qed

section \<open>The channel as lists\<close>

text \<open>
  The abstract channel: the buffered values, the capacity, whether it is closed, and the
  waiting senders and receivers in order.
\<close>

record 'v achan =
  a_vals :: "'v list"
  a_cap :: nat
  a_closed :: bool
  a_ss :: "sgid list"
  a_rs :: "sgid list"

text \<open>
  The invariant of the comment at the head of \<open>chan.go\<close>, without its exception for a
  goroutine that selects on both ends of one unbuffered channel: one of the queues is
  empty; a buffered value excludes waiting receivers, a free slot waiting senders.  And a
  closed channel has no waiters.
\<close>

definition a_excl :: "'v achan \<Rightarrow> bool" where
  "a_excl a \<longleftrightarrow>
     (a_ss a = [] \<or> a_rs a = []) \<and> (a_vals a \<noteq> [] \<longrightarrow> a_rs a = []) \<and>
     (length (a_vals a) < a_cap a \<longrightarrow> a_ss a = []) \<and>
     (a_closed a \<longrightarrow> a_ss a = [] \<and> a_rs a = [])"

definition chan_abs :: "'v rt \<Rightarrow> chid \<Rightarrow> 'v achan \<Rightarrow> bool" where
  "chan_abs r c a \<longleftrightarrow>
     buf_wf (rt_chan r c) \<and> a_vals a = chan_vals (rt_chan r c) \<and> a_cap a = dataqsiz (rt_chan r c) \<and>
     a_closed a = (closed (rt_chan r c) \<noteq> 0) \<and>
     wq_repr (rt_sg r) (sendq (rt_chan r c)) (a_ss a) \<and>
     wq_repr (rt_sg r) (recvq (rt_chan r c)) (a_rs a) \<and>
     set (a_ss a) \<inter> set (a_rs a) = {} \<and>
     (\<forall>x\<in>set (a_ss a). sg_elem (rt_sg r x) \<noteq> None) \<and> a_excl a"

definition chan_inv :: "'v rt \<Rightarrow> chid \<Rightarrow> bool" where
  "chan_inv r c \<longleftrightarrow> (\<exists>a. chan_abs r c a)"

section \<open>The operations on the abstract channel\<close>

datatype send_out = SClosed | SHandoff sgid | SBuffered | SFull | SWait

definition a_send :: "(sgid \<Rightarrow> bool) \<Rightarrow> 'v achan \<Rightarrow> sgid \<Rightarrow> 'v \<Rightarrow> bool \<Rightarrow> 'v achan \<times> send_out" where
  "a_send stale a x v block =
     (if a_closed a then (a, SClosed)
      else case dropWhile stale (a_rs a) of
          y # ys \<Rightarrow> (a\<lparr>a_rs := ys\<rparr>, SHandoff y)
        | [] \<Rightarrow>
            if length (a_vals a) < a_cap a then (a\<lparr>a_rs := [], a_vals := a_vals a @ [v]\<rparr>, SBuffered)
            else if block then (a\<lparr>a_rs := [], a_ss := a_ss a @ [x]\<rparr>, SWait)
            else (a\<lparr>a_rs := []\<rparr>, SFull))"

datatype 'v recv_out = RClosed | RGot 'v "sgid option" | REmpty | RWait

definition a_recv ::
    "(sgid \<Rightarrow> bool) \<Rightarrow> (sgid \<Rightarrow> 'v) \<Rightarrow> 'v achan \<Rightarrow> sgid \<Rightarrow> bool \<Rightarrow> 'v achan \<times> 'v recv_out" where
  "a_recv stale pend a x block =
     (if a_closed a \<and> a_vals a = [] then (a, RClosed)
      else case dropWhile stale (a_ss a) of
          y # ys \<Rightarrow>
            (case a_vals a of
               [] \<Rightarrow> (a\<lparr>a_ss := ys\<rparr>, RGot (pend y) (Some y))
             | v # vs \<Rightarrow> (a\<lparr>a_ss := ys, a_vals := vs @ [pend y]\<rparr>, RGot v (Some y)))
        | [] \<Rightarrow>
            (case a_vals a of
               v # vs \<Rightarrow> (a\<lparr>a_ss := [], a_vals := vs\<rparr>, RGot v None)
             | [] \<Rightarrow>
                 if block then (a\<lparr>a_ss := [], a_rs := a_rs a @ [x]\<rparr>, RWait)
                 else (a\<lparr>a_ss := []\<rparr>, REmpty)))"

text \<open>What the abstract outcomes mean for the caller, for the memory, for the scheduler.\<close>

fun send_result :: "sgid \<Rightarrow> send_out \<Rightarrow> bool chan_result" where
  "send_result x SClosed = Panicked ''send on closed channel''"
| "send_result x (SHandoff y) = Done True"
| "send_result x SBuffered = Done True"
| "send_result x SFull = Done False"
| "send_result x SWait = Blocked x"

fun recv_result :: "sgid \<Rightarrow> 'v recv_out \<Rightarrow> (bool \<times> bool) chan_result" where
  "recv_result x RClosed = Done (True, False)"
| "recv_result x (RGot v y) = Done (True, True)"
| "recv_result x REmpty = Done (False, False)"
| "recv_result x RWait = Blocked x"

fun send_woken :: "send_out \<Rightarrow> sgid list" where
  "send_woken (SHandoff y) = [y]"
| "send_woken _ = []"

fun recv_woken :: "'v recv_out \<Rightarrow> sgid list" where
  "recv_woken (RGot v (Some y)) = [y]"
| "recv_woken _ = []"

definition mem_store :: "addr option \<Rightarrow> 'v \<Rightarrow> (addr \<Rightarrow> 'v) \<Rightarrow> addr \<Rightarrow> 'v" where
  "mem_store p v m = (case p of None \<Rightarrow> m | Some a \<Rightarrow> m(a := v))"

fun recv_stored :: "'v \<Rightarrow> 'v recv_out \<Rightarrow> 'v option" where
  "recv_stored z RClosed = Some z"
| "recv_stored z (RGot v y) = Some v"
| "recv_stored z _ = None"

definition stale_of :: "'v rt \<Rightarrow> sgid \<Rightarrow> bool" where
  "stale_of r = sg_stale (rt_sg r) (rt_done r)"

definition pend_of :: "'v rt \<Rightarrow> sgid \<Rightarrow> 'v" where
  "pend_of r x = rt_mem r (the (sg_elem (rt_sg r x)))"

section \<open>The invariant on the abstract side\<close>

lemma a_send_excl: "a_excl a \<Longrightarrow> a_excl (fst (a_send stale a x v block))"
  by (auto simp: a_send_def a_excl_def split: list.splits)

lemma a_recv_excl: "a_excl a \<Longrightarrow> a_excl (fst (a_recv stale pend a x block))"
  by (auto simp: a_recv_def a_excl_def split: list.splits)

section \<open>The queues inside the runtime state\<close>

text \<open>What taking a sudog off a queue leaves alone.\<close>

definition rt_same :: "'v rt \<Rightarrow> 'v rt \<Rightarrow> bool" where
  "rt_same r r1 \<longleftrightarrow>
     same_payload (rt_sg r) (rt_sg r1) \<and> rt_mem r1 = rt_mem r \<and> rt_param r1 = rt_param r \<and>
     rt_waiting r1 = rt_waiting r \<and> rt_ready r1 = rt_ready r \<and> rt_stackChans r1 = rt_stackChans r"

definition hchan_same :: "'v hchan \<Rightarrow> 'v hchan \<Rightarrow> bool" where
  "hchan_same h h1 \<longleftrightarrow>
     qcount h1 = qcount h \<and> dataqsiz h1 = dataqsiz h \<and> buf h1 = buf h \<and> closed h1 = closed h \<and>
     elemtype h1 = elemtype h \<and> sendx h1 = sendx h \<and> recvx h1 = recvx h"

lemma hchan_same_vals: "hchan_same h h1 \<Longrightarrow> chan_vals h1 = chan_vals h"
  by (simp add: hchan_same_def chan_vals_def)

lemma hchan_same_wf: "hchan_same h h1 \<Longrightarrow> buf_wf h1 = buf_wf h"
  by (simp add: hchan_same_def buf_wf_def)

lemmas hchan_same_simps = hchan_same_vals hchan_same_wf

text \<open>
  A dequeue from one queue of a well-formed pair: the head that is not stale comes out, the
  rest stays, the other queue is as it was.
\<close>

definition taken :: "'v rt \<Rightarrow> sgid list \<Rightarrow> sgid option \<Rightarrow> 'v rt \<Rightarrow> bool" where
  "taken r xs x r1 \<longleftrightarrow>
     rt_same r r1 \<and>
     x = (case dropWhile (stale_of r) xs of [] \<Rightarrow> None | y # ys \<Rightarrow> Some y) \<and>
     (\<forall>y\<in>set_option x. sg_next (rt_sg r1 y) = None \<and> sg_prev (rt_sg r1 y) = None) \<and>
     (\<forall>y. y \<notin> set xs \<longrightarrow> rt_sg r1 y = rt_sg r y) \<and>
     rt_done r1 = (case x of None \<Rightarrow> rt_done r
        | Some y \<Rightarrow> if sg_isSelect (rt_sg r y) then (rt_done r)(sg_g (rt_sg r y) := 1) else rt_done r)"

lemma recvq_dequeue_spec:
  assumes "wq_repr (rt_sg r) (sendq (rt_chan r c)) ss" "wq_repr (rt_sg r) (recvq (rt_chan r c)) rs"
    and "set ss \<inter> set rs = {}"
  shows "\<exists>x r1. recvq_dequeue r c = Some (x, r1) \<and> taken r rs x r1 \<and>
    hchan_same (rt_chan r c) (rt_chan r1 c) \<and> (\<forall>c'. c' \<noteq> c \<longrightarrow> rt_chan r1 c' = rt_chan r c') \<and>
    wq_repr (rt_sg r1) (sendq (rt_chan r1 c)) ss \<and>
    wq_repr (rt_sg r1) (recvq (rt_chan r1 c)) (tl (dropWhile (stale_of r) rs))"
proof -
  obtain x s d q where
    eq: "waitq_dequeue (rt_sg r) (rt_done r) (recvq (rt_chan r c)) = Some (x, s, d, q)"
    and post: "dequeue_post (rt_sg r) (rt_done r) rs x s d q"
    using waitq_dequeue_spec [OF assms(2)] by blast
  have "wq_repr s (sendq (rt_chan r c)) ss = wq_repr (rt_sg r) (sendq (rt_chan r c)) ss"
    using post assms(3) by (intro wq_repr_cong) (auto simp: dequeue_post_def disjoint_iff)
  then show ?thesis
    using eq post assms(1)
    by (cases "dropWhile (sg_stale (rt_sg r) (rt_done r)) rs")
      (auto simp: recvq_dequeue_def upd_chan_def taken_def rt_same_def hchan_same_def
        dequeue_post_def stale_of_def wq_repr_Nil simp del: dropWhile_eq_Nil_conv)
qed

lemma sendq_dequeue_spec:
  assumes "wq_repr (rt_sg r) (sendq (rt_chan r c)) ss" "wq_repr (rt_sg r) (recvq (rt_chan r c)) rs"
    and "set ss \<inter> set rs = {}"
  shows "\<exists>x r1. sendq_dequeue r c = Some (x, r1) \<and> taken r ss x r1 \<and>
    hchan_same (rt_chan r c) (rt_chan r1 c) \<and> (\<forall>c'. c' \<noteq> c \<longrightarrow> rt_chan r1 c' = rt_chan r c') \<and>
    wq_repr (rt_sg r1) (sendq (rt_chan r1 c)) (tl (dropWhile (stale_of r) ss)) \<and>
    wq_repr (rt_sg r1) (recvq (rt_chan r1 c)) rs"
proof -
  obtain x s d q where
    eq: "waitq_dequeue (rt_sg r) (rt_done r) (sendq (rt_chan r c)) = Some (x, s, d, q)"
    and post: "dequeue_post (rt_sg r) (rt_done r) ss x s d q"
    using waitq_dequeue_spec [OF assms(1)] by blast
  have "wq_repr s (recvq (rt_chan r c)) rs = wq_repr (rt_sg r) (recvq (rt_chan r c)) rs"
    using post assms(3) by (intro wq_repr_cong) (auto simp: dequeue_post_def disjoint_iff)
  then show ?thesis
    using eq post assms(2)
    by (cases "dropWhile (sg_stale (rt_sg r) (rt_done r)) ss")
      (auto simp: sendq_dequeue_def upd_chan_def taken_def rt_same_def hchan_same_def
        dequeue_post_def stale_of_def wq_repr_Nil simp del: dropWhile_eq_Nil_conv)
qed

section \<open>Refinement of sending and receiving\<close>

definition payload :: "sudog \<Rightarrow> gid \<times> addr option \<times> bool \<times> sgid option \<times> chid option" where
  "payload s = (sg_g s, sg_elem s, sg_isSelect s, sg_waitlink s, sg_c s)"

lemma same_payload_payload: "same_payload s t \<longleftrightarrow> (\<forall>x. payload (t x) = payload (s x))"
  by (auto simp: same_payload_def payload_def)

text \<open>
  What an operation does besides its channel: to memory, to the goroutines, to the
  sudogs.  \<open>x\<close> is the sudog the caller brought, \<open>w\<close> the list of sudogs woken, \<open>p\<close> the payload
  of \<open>x\<close> if it was enqueued.
\<close>

definition op_effect ::
    "'v rt \<Rightarrow> sgid set \<Rightarrow> gid \<Rightarrow> sgid \<Rightarrow> (gid \<times> addr option \<times> bool \<times> sgid option \<times> chid option) option \<Rightarrow>
     sgid list \<Rightarrow> (addr \<Rightarrow> 'v) \<Rightarrow> 'v rt \<Rightarrow> bool" where
  "op_effect r Q g x p w m r' \<longleftrightarrow>
     rt_mem r' = m \<and>
     rt_ready r' = rt_ready r @ map (\<lambda>y. sg_g (rt_sg r y)) w \<and>
     rt_param r' = fold (\<lambda>y f. f(sg_g (rt_sg r y) := Some y)) w
        (if p = None then rt_param r else (rt_param r)(g := None)) \<and>
     rt_waiting r' = (if p = None then rt_waiting r else (rt_waiting r)(g := Some x)) \<and>
     (\<forall>y. payload (rt_sg r' y) =
        (case p of
           Some pl \<Rightarrow> if y = x then pl else payload (rt_sg r y)
         | None \<Rightarrow> payload (if y \<in> set w then (rt_sg r y)\<lparr>sg_elem := None\<rparr> else rt_sg r y))) \<and>
     (\<forall>y. y \<notin> Q \<and> (p = None \<or> y \<noteq> x) \<longrightarrow> rt_sg r' y = rt_sg r y) \<and>
     (\<forall>y\<in>set w. sg_next (rt_sg r' y) = None \<and> sg_prev (rt_sg r' y) = None)"

lemma op_effect_none:
  "taken r xs None r1 \<Longrightarrow> set xs \<subseteq> Q \<Longrightarrow> op_effect r Q g x None [] (rt_mem r) r1"
  by (auto simp: op_effect_def taken_def rt_same_def same_payload_payload)

lemma op_effect_refl: "op_effect r Q g x None [] (rt_mem r) r"
  by (simp add: op_effect_def)

lemma op_effect_chan:
  "op_effect r Q g x p w m r' \<Longrightarrow> op_effect r Q g x p w m (upd_chan c f r')"
  by (simp add: op_effect_def upd_chan_def)

lemma op_effect_mem:
  "op_effect r Q g x p w m r' \<Longrightarrow> op_effect r Q g x p w (mem_store q v m) (store_elem q v r')"
  by (auto simp: op_effect_def store_elem_def mem_store_def split: option.split)

lemma op_effect_wake:
  assumes t: "taken r xs (Some y) r1" and "set xs \<subseteq> Q"
    and sg: "rt_sg r2 = (rt_sg r1)(y := (rt_sg r1 y)\<lparr>sg_elem := None\<rparr>)"
    and g: "rt_mem r2 = m" "rt_ready r2 = rt_ready r1 @ [sg_g (rt_sg r1 y)]"
      "rt_param r2 = (rt_param r1)(sg_g (rt_sg r1 y) := Some y)" "rt_waiting r2 = rt_waiting r1"
  shows "op_effect r Q g x None [y] m r2"
proof -
  have "y \<in> set xs"
    using t by (auto simp: taken_def split: list.splits dest: dropWhile_ConsD)
  then show ?thesis
    using assms
    by (auto simp: op_effect_def taken_def rt_same_def same_payload_def payload_def)
qed

lemma send_expand:
  "send r x ep =
     r\<lparr>rt_mem := mem_store (sg_elem (rt_sg r x)) (rt_mem r ep) (rt_mem r),
       rt_sg := (rt_sg r)(x := (rt_sg r x)\<lparr>sg_elem := None\<rparr>),
       rt_param := (rt_param r)(sg_g (rt_sg r x) := Some x),
       rt_ready := rt_ready r @ [sg_g (rt_sg r x)]\<rparr>"
proof (cases "sg_elem (rt_sg r x)")
  case None
  then have "(rt_sg r)(x := (rt_sg r x)\<lparr>sg_elem := None\<rparr>) = rt_sg r"
    by (simp add: fun_upd_idem)
  with None show ?thesis
    by (simp add: send_def mem_store_def goready_def set_param_def Let_def)
next
  case (Some a)
  then show ?thesis
    by (simp add: send_def mem_store_def goready_def set_param_def upd_sg_def store_elem_def Let_def)
qed

lemma chan_abs_not_stale_closed:
  "chan_abs r c a \<Longrightarrow> a_closed a \<Longrightarrow> a_ss a = [] \<and> a_rs a = []"
  by (simp add: chan_abs_def a_excl_def)

lemma chan_abs_taken_recv:
  assumes abs: "chan_abs r c a" and "hchan_same (rt_chan r c) (rt_chan r1 c)"
    and "wq_repr (rt_sg r1) (sendq (rt_chan r1 c)) (a_ss a)"
    and "wq_repr (rt_sg r1) (recvq (rt_chan r1 c)) ys" and "set ys \<subseteq> set (a_rs a)"
    and "rt_same r r1" and "a_rs a = [] \<Longrightarrow> ys = []"
  shows "chan_abs r1 c (a\<lparr>a_rs := ys\<rparr>)"
  using abs assms(3-7) hchan_same_vals [OF assms(2)] hchan_same_wf [OF assms(2)] assms(2)
  unfolding chan_abs_def a_excl_def rt_same_def same_payload_def hchan_same_def by auto

lemma chan_abs_taken_send:
  assumes abs: "chan_abs r c a" and "hchan_same (rt_chan r c) (rt_chan r1 c)"
    and "wq_repr (rt_sg r1) (sendq (rt_chan r1 c)) ys"
    and "wq_repr (rt_sg r1) (recvq (rt_chan r1 c)) (a_rs a)" and "set ys \<subseteq> set (a_ss a)"
    and "rt_same r r1" and "a_ss a = [] \<Longrightarrow> ys = []"
  shows "chan_abs r1 c (a\<lparr>a_ss := ys\<rparr>)"
  using abs assms(3-7) hchan_same_vals [OF assms(2)] hchan_same_wf [OF assms(2)] assms(2)
  unfolding chan_abs_def a_excl_def rt_same_def same_payload_def hchan_same_def by auto

text \<open>Enqueuing a fresh sudog at the tail of one of the queues.\<close>

lemma park_send_abs:
  assumes abs: "chan_abs r c a" and x: "x \<notin> set (a_ss a) \<union> set (a_rs a)"
    and e: "a_excl (a\<lparr>a_ss := a_ss a @ [x]\<rparr>)"
  shows "chan_abs (park_send r c g x ep) c (a\<lparr>a_ss := a_ss a @ [x]\<rparr>)"
proof -
  define s where "s = (rt_sg r)(x := (rt_sg r x)\<lparr>sg_elem := Some ep, sg_waitlink := None, sg_g := g,
      sg_isSelect := False, sg_c := Some c\<rparr>)"
  have ss: "wq_repr s (sendq (rt_chan r c)) (a_ss a)" and rs: "wq_repr s (recvq (rt_chan r c)) (a_rs a)"
    using abs x by (auto simp: chan_abs_def s_def)
  let ?e = "waitq_enqueue s (sendq (rt_chan r c)) x"
  have 1: "wq_repr (fst ?e) (snd ?e) (a_ss a @ [x])"
    using waitq_enqueue_repr [OF ss] x by simp
  have 2: "wq_repr (fst ?e) (recvq (rt_chan r c)) (a_rs a)"
  proof (subst wq_repr_cong [where s = s])
    fix y assume "y \<in> set (a_rs a)"
    with abs x have "y \<notin> set (a_ss a)" "y \<noteq> x"
      by (auto simp: chan_abs_def)
    with waitq_enqueue_frame [OF ss]
    show "sg_prev (fst ?e y) = sg_prev (s y) \<and> sg_next (fst ?e y) = sg_next (s y)"
      by simp
  qed (rule rs)
  have 3: "sg_elem (fst ?e y) = sg_elem (s y)" for y
    using same_payloadD(2) [OF waitq_enqueue_payload] by simp
  have "rt_sg (park_send r c g x ep) = fst ?e"
    and "rt_chan (park_send r c g x ep) c = (rt_chan r c)\<lparr>sendq := snd ?e\<rparr>"
    by (simp_all add: park_send_def sendq_enqueue_def upd_sg_def upd_chan_def set_param_def
        set_waiting_def split_beta Let_def s_def)
  with abs x e 1 2 3 show ?thesis
    by (auto simp: chan_abs_def buf_wf_def chan_vals_def s_def)
qed

lemma park_recv_abs:
  assumes abs: "chan_abs r c a" and x: "x \<notin> set (a_ss a) \<union> set (a_rs a)"
    and e: "a_excl (a\<lparr>a_rs := a_rs a @ [x]\<rparr>)"
  shows "chan_abs (park_recv r c g x ep) c (a\<lparr>a_rs := a_rs a @ [x]\<rparr>)"
proof -
  define s where "s = (rt_sg r)(x := (rt_sg r x)\<lparr>sg_elem := ep, sg_waitlink := None, sg_g := g,
      sg_isSelect := False, sg_c := Some c\<rparr>)"
  have ss: "wq_repr s (sendq (rt_chan r c)) (a_ss a)" and rs: "wq_repr s (recvq (rt_chan r c)) (a_rs a)"
    using abs x by (auto simp: chan_abs_def s_def)
  let ?e = "waitq_enqueue s (recvq (rt_chan r c)) x"
  have 1: "wq_repr (fst ?e) (snd ?e) (a_rs a @ [x])"
    using waitq_enqueue_repr [OF rs] x by simp
  have 2: "wq_repr (fst ?e) (sendq (rt_chan r c)) (a_ss a)"
  proof (subst wq_repr_cong [where s = s])
    fix y assume "y \<in> set (a_ss a)"
    with abs x have "y \<notin> set (a_rs a)" "y \<noteq> x"
      by (auto simp: chan_abs_def)
    with waitq_enqueue_frame [OF rs]
    show "sg_prev (fst ?e y) = sg_prev (s y) \<and> sg_next (fst ?e y) = sg_next (s y)"
      by simp
  qed (rule ss)
  have 3: "sg_elem (fst ?e y) = sg_elem (s y)" for y
    using same_payloadD(2) [OF waitq_enqueue_payload] by simp
  have "rt_sg (park_recv r c g x ep) = fst ?e"
    and "rt_chan (park_recv r c g x ep) c = (rt_chan r c)\<lparr>recvq := snd ?e\<rparr>"
    by (simp_all add: park_recv_def recvq_enqueue_def upd_sg_def upd_chan_def set_param_def
        set_waiting_def split_beta Let_def s_def)
  with abs x e 1 2 3 show ?thesis
    by (auto simp: chan_abs_def buf_wf_def chan_vals_def s_def)
qed

lemma chan_abs_cong:
  assumes "rt_chan r2 c = rt_chan r1 c"
    and "\<And>y. sg_next (rt_sg r2 y) = sg_next (rt_sg r1 y) \<and> sg_prev (rt_sg r2 y) = sg_prev (rt_sg r1 y)"
    and "\<And>y. y \<in> set (a_ss a) \<Longrightarrow> sg_elem (rt_sg r2 y) = sg_elem (rt_sg r1 y)"
  shows "chan_abs r2 c a = chan_abs r1 c a"
  using assms wq_repr_cong [of _ "rt_sg r2" "rt_sg r1"]
  by (simp add: chan_abs_def)

lemma chan_abs_wake:
  assumes "chan_abs r1 c a" and "rt_chan r2 c = rt_chan r1 c"
    and "rt_sg r2 = (rt_sg r1)(y := (rt_sg r1 y)\<lparr>sg_elem := None\<rparr>)" and "y \<notin> set (a_ss a)"
  shows "chan_abs r2 c a"
  using assms(1) by (subst chan_abs_cong [where ?r1.0 = r1]) (auto simp: assms(2-4))

lemma op_effect_park:
  assumes t: "taken r xs None r1" and "set xs \<subseteq> Q" and x: "x \<notin> Q"
    and q: "wq_repr s1 q ys" "set ys \<subseteq> Q" "s1 = (rt_sg r1)(x := (rt_sg r1 x)\<lparr>sg_elem := ep,
      sg_waitlink := None, sg_g := g, sg_isSelect := False, sg_c := Some c\<rparr>)"
    and r2: "rt_sg r2 = fst (waitq_enqueue s1 q x)" "rt_mem r2 = rt_mem r1" "rt_ready r2 = rt_ready r1"
      "rt_param r2 = (rt_param r1)(g := None)" "rt_waiting r2 = (rt_waiting r1)(g := Some x)"
  shows "op_effect r Q g x (Some (g, ep, False, None, Some c)) [] (rt_mem r) r2"
proof -
  have pay: "payload (rt_sg r2 y) = payload (s1 y)" for y
    using waitq_enqueue_payload [of s1 q x] r2(1) by (simp add: same_payload_payload)
  have fr: "rt_sg r2 y = rt_sg r1 y" if "y \<notin> Q" "y \<noteq> x" for y
    using that waitq_enqueue_frame [OF q(1), of y x] q(2,3) r2(1) by auto
  show ?thesis
    using assms pay fr
    by (auto simp: op_effect_def taken_def rt_same_def same_payload_payload payload_def)
qed

definition send_payload :: "gid \<Rightarrow> addr \<Rightarrow> chid \<Rightarrow> send_out \<Rightarrow> _ option" where
  "send_payload g ep c out = (if out = SWait then Some (g, Some ep, False, None :: sgid option, Some c) else None)"

definition send_mem :: "'v rt \<Rightarrow> addr \<Rightarrow> send_out \<Rightarrow> addr \<Rightarrow> 'v" where
  "send_mem r ep out =
     (case out of SHandoff y \<Rightarrow> mem_store (sg_elem (rt_sg r y)) (rt_mem r ep) (rt_mem r) | _ \<Rightarrow> rt_mem r)"

lemma full_abs: "chan_abs r c a \<Longrightarrow> full r c \<Longrightarrow> a_rs a = [] \<and> \<not> length (a_vals a) < a_cap a"
  by (auto simp: chan_abs_def full_def Let_def a_excl_def wq_repr_first chan_vals_Nil split: if_splits)

lemma chansend_refine:
  assumes abs: "chan_abs r c a" and x: "x \<notin> set (a_ss a) \<union> set (a_rs a)"
    and out: "a_send (stale_of r) a x (rt_mem r ep) block = (a', out)"
  shows "\<exists>r'. chansend r (Some c) g x ep block = Some (r', send_result x out) \<and> chan_abs r' c a' \<and>
    op_effect r (set (a_ss a) \<union> set (a_rs a)) g x (send_payload g ep c out) (send_woken out)
      (send_mem r ep out) r'"
proof -
  consider (closed) "a_closed a" | (fast) "\<not> a_closed a" "\<not> block" "full r c"
    | (slow) "\<not> a_closed a" "block \<or> \<not> full r c" by blast
  then show ?thesis
  proof cases
    case closed
    with abs out show ?thesis
      by (auto simp: chansend_def a_send_def chan_abs_def send_payload_def send_mem_def op_effect_refl)
  next
    case fast
    with full_abs [OF abs] have "a_rs a = []" "\<not> length (a_vals a) < a_cap a" by auto
    then have "out = SFull" "a' = a" using out fast by (auto simp: a_send_def)
    with fast abs show ?thesis
      by (auto simp: chansend_def chan_abs_def send_payload_def send_mem_def op_effect_refl)
  next
    case slow
    have rp: "wq_repr (rt_sg r) (sendq (rt_chan r c)) (a_ss a)"
      "wq_repr (rt_sg r) (recvq (rt_chan r c)) (a_rs a)" "set (a_ss a) \<inter> set (a_rs a) = {}"
      and op: "closed (rt_chan r c) = 0"
      using abs slow by (auto simp: chan_abs_def)
    obtain y r1 where dq: "recvq_dequeue r c = Some (y, r1)" and t: "taken r (a_rs a) y r1"
      and hs: "hchan_same (rt_chan r c) (rt_chan r1 c)"
      and r1: "wq_repr (rt_sg r1) (sendq (rt_chan r1 c)) (a_ss a)"
        "wq_repr (rt_sg r1) (recvq (rt_chan r1 c)) (tl (dropWhile (stale_of r) (a_rs a)))"
      using recvq_dequeue_spec [OF rp] by blast
    have rs: "rt_same r r1" using t by (simp add: taken_def)
    let ?ys = "tl (dropWhile (stale_of r) (a_rs a))"
    have abs1: "chan_abs r1 c (a\<lparr>a_rs := ?ys\<rparr>)"
      by (rule chan_abs_taken_recv [OF abs hs r1 set_tl_dropWhile rs]) simp
    show ?thesis
    proof (cases y)
      case (Some z)
      have dw: "dropWhile (stale_of r) (a_rs a) = z # ?ys"
        using t Some by (auto simp: taken_def split: list.splits)
      then have "z \<in> set (a_rs a)" by (auto dest: dropWhile_ConsD)
      then have z: "z \<notin> set (a_ss a)" using rp(3) by auto
      have o: "out = SHandoff z" "a' = a\<lparr>a_rs := ?ys\<rparr>"
        using out dw slow by (auto simp: a_send_def split: list.splits)
      have "chan_abs (send r1 z ep) c a'"
        using chan_abs_wake [OF abs1] z o by (simp add: send_expand)
      moreover have "op_effect r (set (a_ss a) \<union> set (a_rs a)) g x None [z] (send_mem r ep out) (send r1 z ep)"
        using t Some rs
        by (intro op_effect_wake [where ?r1.0 = r1 and xs = "a_rs a"])
          (auto simp: send_expand o send_mem_def rt_same_def same_payload_def)
      ultimately show ?thesis
        using slow dq Some op o by (auto simp: chansend_def send_payload_def)
    next
      case None
      then have dw: "dropWhile (stale_of r) (a_rs a) = []"
        using t by (auto simp: taken_def split: list.splits)
      have q: "qcount (rt_chan r1 c) = length (a_vals a)" "dataqsiz (rt_chan r1 c) = a_cap a"
        "buf_wf (rt_chan r1 c)" "chan_vals (rt_chan r1 c) = a_vals a"
        using abs1 by (auto simp: chan_abs_def)
      have mem: "rt_mem r1 = rt_mem r" using rs by (simp add: rt_same_def)
      have eff: "op_effect r (set (a_ss a) \<union> set (a_rs a)) g x None [] (rt_mem r) r1"
        using t None by (auto intro: op_effect_none)
      consider (put) "length (a_vals a) < a_cap a" | (fail) "\<not> length (a_vals a) < a_cap a" "\<not> block"
        | (wait) "\<not> length (a_vals a) < a_cap a" block by blast
      then show ?thesis
      proof cases
        case put
        then have o: "out = SBuffered" "a' = a\<lparr>a_rs := [], a_vals := a_vals a @ [rt_mem r ep]\<rparr>"
          using out dw slow by (auto simp: a_send_def)
        have "chan_abs (upd_chan c (buf_put (rt_mem r1 ep)) r1) c a'"
          using abs1 dw put q o mem buf_put_vals [OF q(3)] buf_put_wf [OF q(3)]
          by (auto simp: chan_abs_def upd_chan_def a_excl_def) (auto simp: buf_put_def)
        with slow dq None op o put q eff show ?thesis
          by (auto simp: chansend_def send_payload_def send_mem_def intro: op_effect_chan)
      next
        case fail
        then have "out = SFull" "a' = a\<lparr>a_rs := []\<rparr>"
          using out dw slow by (auto simp: a_send_def)
        with slow dq None op fail q eff abs1 dw show ?thesis
          by (auto simp: chansend_def send_payload_def send_mem_def)
      next
        case wait
        then have o: "out = SWait" "a' = a\<lparr>a_rs := [], a_ss := a_ss a @ [x]\<rparr>"
          using out dw slow by (auto simp: a_send_def)
        have "chan_abs (park_send r1 c g x ep) c ((a\<lparr>a_rs := []\<rparr>)\<lparr>a_ss := a_ss (a\<lparr>a_rs := []\<rparr>) @ [x]\<rparr>)"
          using abs1 dw x wait slow by (intro park_send_abs) (auto simp: a_excl_def)
        moreover have "op_effect r (set (a_ss a) \<union> set (a_rs a)) g x (Some (g, Some ep, False, None, Some c)) []
            (rt_mem r) (park_send r1 c g x ep)"
          using t None x r1(1)
          by (intro op_effect_park [where q = "sendq (rt_chan r1 c)" and ys = "a_ss a" and xs = "a_rs a"])
            (auto simp: park_send_def sendq_enqueue_def upd_sg_def upd_chan_def set_param_def
              set_waiting_def split_beta Let_def)
        ultimately show ?thesis
          using slow dq None op o wait q by (auto simp: chansend_def send_payload_def send_mem_def)
      qed
    qed
  qed
qed

definition recv_payload :: "gid \<Rightarrow> addr option \<Rightarrow> chid \<Rightarrow> 'v recv_out \<Rightarrow> _ option" where
  "recv_payload g ep c out =
     (case out of RWait \<Rightarrow> Some (g, ep, False, None :: sgid option, Some c) | _ \<Rightarrow> None)"

definition recv_mem :: "'v rt \<Rightarrow> chid \<Rightarrow> addr option \<Rightarrow> 'v recv_out \<Rightarrow> addr \<Rightarrow> 'v" where
  "recv_mem r c ep out =
     (case recv_stored (et_zero (elemtype (rt_chan r c))) out of
        Some v \<Rightarrow> mem_store ep v (rt_mem r)
      | None \<Rightarrow> rt_mem r)"

lemma empty_abs: "chan_abs r c a \<Longrightarrow> empty r c \<Longrightarrow> a_vals a = [] \<and> a_ss a = []"
  by (auto simp: chan_abs_def empty_def Let_def a_excl_def wq_repr_first buf_wf_def
      chan_vals_Nil [symmetric] split: if_splits)

lemma rt_chan_store_elem [simp]: "rt_chan (store_elem p v r) = rt_chan r"
  and rt_sg_store_elem [simp]: "rt_sg (store_elem p v r) = rt_sg r"
  and rt_mem_store_elem [simp]: "rt_mem (store_elem p v r) = mem_store p v (rt_mem r)"
  and rt_param_store_elem [simp]: "rt_param (store_elem p v r) = rt_param r"
  and rt_waiting_store_elem [simp]: "rt_waiting (store_elem p v r) = rt_waiting r"
  and rt_ready_store_elem [simp]: "rt_ready (store_elem p v r) = rt_ready r"
  by (auto simp: store_elem_def mem_store_def split: option.split)

lemma chan_abs_store_elem: "chan_abs (store_elem p v r) c a = chan_abs r c a"
  by (simp add: chan_abs_def)

lemma mem_store_other: "q \<noteq> None \<Longrightarrow> q \<noteq> p \<Longrightarrow> mem_store p v m (the q) = m (the q)"
  by (auto simp: mem_store_def split: option.split)

lemma recv_expand:
  assumes "sg_elem (rt_sg r x) \<noteq> None" and "sg_elem (rt_sg r x) \<noteq> ep"
  shows "recv r c x ep =
     r\<lparr>rt_mem := mem_store ep (if dataqsiz (rt_chan r c) = 0 then pend_of r x
                              else chanbuf (rt_chan r c) (recvx (rt_chan r c))) (rt_mem r),
       rt_sg := (rt_sg r)(x := (rt_sg r x)\<lparr>sg_elem := None\<rparr>),
       rt_chan := (if dataqsiz (rt_chan r c) = 0 then rt_chan r
                   else (rt_chan r)(c := buf_rotate (pend_of r x) (rt_chan r c))),
       rt_param := (rt_param r)(sg_g (rt_sg r x) := Some x),
       rt_ready := rt_ready r @ [sg_g (rt_sg r x)]\<rparr>"
  using mem_store_other [OF assms]
  by (cases ep) (auto simp: recv_def goready_def set_param_def upd_sg_def upd_chan_def
      store_elem_def mem_store_def pend_of_def buf_rotate_def Let_def)

lemma chan_abs_rotate:
  assumes abs: "chan_abs r c (a\<lparr>a_ss := ys\<rparr>)" and "a_vals a = v # vs" and "a_excl (a\<lparr>a_ss := ys, a_vals := vs @ [w]\<rparr>)"
    and full: "length (a_vals a) = a_cap a"
    and ch: "rt_chan r2 c = buf_rotate w (rt_chan r c)"
    and sg: "rt_sg r2 = (rt_sg r)(y := (rt_sg r y)\<lparr>sg_elem := None\<rparr>)" "y \<notin> set ys"
  shows "chan_abs r2 c (a\<lparr>a_ss := ys, a_vals := vs @ [w]\<rparr>) \<and> chanbuf (rt_chan r c) (recvx (rt_chan r c)) = v"
proof -
  have h: "buf_wf (rt_chan r c)" "qcount (rt_chan r c) = dataqsiz (rt_chan r c)"
    "0 < dataqsiz (rt_chan r c)" "chan_vals (rt_chan r c) = v # vs"
    using abs full assms(2) by (auto simp: chan_abs_def simp flip: length_chan_vals)
  have "chanbuf (rt_chan r c) (recvx (rt_chan r c)) = v"
    and "chan_vals (buf_rotate w (rt_chan r c)) = vs @ [w]"
    using buf_rotate_vals [OF h(1-3), of w] h(4) by auto
  moreover have "chan_abs r2 c (a\<lparr>a_ss := ys, a_vals := vs @ [w]\<rparr>)"
  proof -
    have l: "wq_repr (rt_sg r2) q xs = wq_repr (rt_sg r) q xs" for q xs
      by (rule wq_repr_cong) (simp add: sg)
    show ?thesis
      using abs assms(3) calculation buf_rotate_wf [OF h(1-3), of w] sg(2)
      unfolding chan_abs_def by (simp add: l ch) (auto simp: buf_rotate_def sg)
  qed
  ultimately show ?thesis by simp
qed

text \<open>The two outcomes of taking a sender out of the queue, for a receive that goes on.\<close>

lemma recv_from_sender:
  assumes abs: "chan_abs r c a" and al: "\<forall>y\<in>set (a_ss a). sg_elem (rt_sg r y) \<noteq> ep"
    and out: "a_recv (stale_of r) (pend_of r) a x block = (a', out)"
    and go: "\<not> (a_closed a \<and> a_vals a = [])"
    and t: "taken r (a_ss a) (Some z) r1"
    and abs1: "chan_abs r1 c (a\<lparr>a_ss := tl (dropWhile (stale_of r) (a_ss a))\<rparr>)"
  shows "chan_abs (recv r1 c z ep) c a' \<and> (\<exists>v. out = RGot v (Some z)) \<and>
    op_effect r (set (a_ss a) \<union> set (a_rs a)) g x None [z] (recv_mem r c ep out) (recv r1 c z ep)"
proof -
  have rp: "wq_repr (rt_sg r) (sendq (rt_chan r c)) (a_ss a)"
    and el: "\<forall>y\<in>set (a_ss a). sg_elem (rt_sg r y) \<noteq> None"
    and q1: "dataqsiz (rt_chan r1 c) = a_cap a" "qcount (rt_chan r1 c) = length (a_vals a)"
      "buf_wf (rt_chan r1 c)" "chan_vals (rt_chan r1 c) = a_vals a"
    using abs abs1 by (auto simp: chan_abs_def)
  have rs: "rt_same r r1" using t by (simp add: taken_def)
  then have mem: "rt_mem r1 = rt_mem r" by (simp add: rt_same_def)
  obtain ys where dw: "dropWhile (stale_of r) (a_ss a) = z # ys"
    using t by (cases "dropWhile (stale_of r) (a_ss a)") (auto simp: taken_def)
  have abs2: "chan_abs r1 c (a\<lparr>a_ss := ys\<rparr>)" using abs1 dw by simp
  from dw have z: "z \<in> set (a_ss a)" by (auto dest: dropWhile_ConsD)
  then have "sg_elem (rt_sg r1 z) \<noteq> None" "sg_elem (rt_sg r1 z) \<noteq> ep" and pz: "pend_of r1 z = pend_of r z"
    using rs el al mem by (auto simp: rt_same_def same_payload_def pend_of_def)
  note rx = recv_expand [OF this(1,2), of c]
  have zys: "z \<notin> set ys"
    using dw wq_repr_distinct [OF rp] distinct_dropWhile [of "a_ss a" "stale_of r"] by (metis distinct.simps(2))
  have full: "length (a_vals a) = a_cap a"
    using abs z by (auto simp: chan_abs_def a_excl_def buf_wf_def)
  have eff: "rt_mem (recv r1 c z ep) = m \<Longrightarrow> op_effect r (set (a_ss a) \<union> set (a_rs a)) g x None [z] m (recv r1 c z ep)" for m
    using t by (intro op_effect_wake [where ?r1.0 = r1 and xs = "a_ss a"]) (auto simp: rx)
  show ?thesis
  proof (cases "a_vals a")
    case Nil
    then have o: "out = RGot (pend_of r z) (Some z)" "a' = a\<lparr>a_ss := ys\<rparr>"
      using out dw go by (auto simp: a_recv_def)
    have "chan_abs (recv r1 c z ep) c a'"
      unfolding o using full Nil q1 zys by (intro chan_abs_wake [OF abs2]) (auto simp: rx)
    moreover have "rt_mem (recv r1 c z ep) = recv_mem r c ep out"
      using full Nil q1 by (auto simp: rx o recv_mem_def pz mem)
    ultimately show ?thesis using eff o by simp
  next
    case (Cons v vs)
    then have o: "out = RGot v (Some z)" "a' = a\<lparr>a_ss := ys, a_vals := vs @ [pend_of r z]\<rparr>"
      using out dw go by (auto simp: a_recv_def)
    have ex: "a_excl a'" using a_recv_excl [of a "stale_of r" "pend_of r" x block] out abs
      by (auto simp: chan_abs_def)
    have *: "chan_abs (recv r1 c z ep) c a' \<and> chanbuf (rt_chan r1 c) (recvx (rt_chan r1 c)) = v"
      unfolding o
    proof (rule chan_abs_rotate [OF abs2 Cons _ full])
      show "rt_sg (recv r1 c z ep) = (rt_sg r1)(z := (rt_sg r1 z)\<lparr>sg_elem := None\<rparr>)" by (simp add: rx)
    qed (use ex full Cons q1 zys in \<open>auto simp: rx o pz\<close>)
    then have "rt_mem (recv r1 c z ep) = recv_mem r c ep out"
      using full Cons q1 by (auto simp: rx o recv_mem_def pz mem)
    with * show ?thesis using eff o by simp
  qed
qed

lemma recv_no_sender:
  assumes abs: "chan_abs r c a" and x: "x \<notin> set (a_ss a) \<union> set (a_rs a)"
    and out: "a_recv (stale_of r) (pend_of r) a x block = (a', out)"
    and go: "\<not> (a_closed a \<and> a_vals a = [])"
    and t: "taken r (a_ss a) None r1" and abs1: "chan_abs r1 c (a\<lparr>a_ss := []\<rparr>)"
  shows "\<exists>r'. (if a_vals a \<noteq> []
          then Some (upd_chan c buf_take (store_elem ep (chanbuf (rt_chan r1 c) (recvx (rt_chan r1 c))) r1), Done (True, True))
          else if \<not> block then Some (r1, Done (False, False))
          else Some (park_recv r1 c g x ep, Blocked x)) = Some (r', recv_result x out) \<and> chan_abs r' c a' \<and>
    op_effect r (set (a_ss a) \<union> set (a_rs a)) g x (recv_payload g ep c out) (recv_woken out)
      (recv_mem r c ep out) r'"
proof -
  have q1: "buf_wf (rt_chan r1 c)" "chan_vals (rt_chan r1 c) = a_vals a" "qcount (rt_chan r1 c) = length (a_vals a)"
    and rq: "wq_repr (rt_sg r1) (recvq (rt_chan r1 c)) (a_rs a)"
    using abs1 by (auto simp: chan_abs_def)
  have dw: "dropWhile (stale_of r) (a_ss a) = []"
    using t by (auto simp: taken_def split: list.splits)
  have eff: "op_effect r (set (a_ss a) \<union> set (a_rs a)) g x None [] (rt_mem r) r1"
    using t by (auto intro: op_effect_none)
  consider (got) v vs where "a_vals a = v # vs" | (not_ready) "a_vals a = []" "\<not> block" | (park) "a_vals a = []" "block"
    by (cases "a_vals a") auto
  then show ?thesis
  proof cases
    case got
    then have o: "out = RGot v None" "a' = a\<lparr>a_ss := [], a_vals := vs\<rparr>" using out by (auto simp: a_recv_def dw)
    have hd: "chanbuf (rt_chan r1 c) (recvx (rt_chan r1 c)) = v" "chan_vals (buf_take (rt_chan r1 c)) = vs"
      "buf_wf (buf_take (rt_chan r1 c))"
      using buf_take_vals [OF q1(1)] buf_take_wf [OF q1(1)] q1 got by auto
    have ex: "a_excl a'" using a_recv_excl [of a "stale_of r" "pend_of r" x block] out abs
      by (auto simp: chan_abs_def)
    have "chan_abs (upd_chan c buf_take (store_elem ep v r1)) c a'"
      using abs1 hd ex unfolding o by (auto simp: chan_abs_def upd_chan_def) (auto simp: buf_take_def)
    moreover have "op_effect r (set (a_ss a) \<union> set (a_rs a)) g x None []
        (mem_store ep v (rt_mem r)) (upd_chan c buf_take (store_elem ep v r1))"
      by (intro op_effect_chan op_effect_mem eff)
    ultimately show ?thesis by (simp add: o hd got recv_payload_def recv_mem_def)
  next
    case not_ready
    then have "out = REmpty" "a' = a\<lparr>a_ss := []\<rparr>" using out go by (auto simp: a_recv_def dw)
    with not_ready eff abs1 show ?thesis by (simp add: recv_payload_def recv_mem_def)
  next
    case park
    then have o: "out = RWait" "a' = a\<lparr>a_ss := [], a_rs := a_rs a @ [x]\<rparr>" using out go by (auto simp: a_recv_def dw)
    have "chan_abs (park_recv r1 c g x ep) c ((a\<lparr>a_ss := []\<rparr>)\<lparr>a_rs := a_rs (a\<lparr>a_ss := []\<rparr>) @ [x]\<rparr>)"
      using abs1 x go park by (intro park_recv_abs) (auto simp: a_excl_def)
    moreover have "op_effect r (set (a_ss a) \<union> set (a_rs a)) g x (Some (g, ep, False, None, Some c)) []
        (rt_mem r) (park_recv r1 c g x ep)"
      using t x rq
      by (intro op_effect_park [where q = "recvq (rt_chan r1 c)" and ys = "a_rs a" and xs = "a_ss a"])
        (auto simp: park_recv_def recvq_enqueue_def upd_sg_def upd_chan_def set_param_def set_waiting_def split_beta Let_def)
    ultimately show ?thesis using park by (simp add: o recv_payload_def recv_mem_def)
  qed
qed

lemma chanrecv_refine:
  assumes abs: "chan_abs r c a" and x: "x \<notin> set (a_ss a) \<union> set (a_rs a)"
    and al: "\<forall>y\<in>set (a_ss a). sg_elem (rt_sg r y) \<noteq> ep"
    and out: "a_recv (stale_of r) (pend_of r) a x block = (a', out)"
  shows "\<exists>r'. chanrecv r (Some c) g x ep block = Some (r', recv_result x out) \<and> chan_abs r' c a' \<and>
    op_effect r (set (a_ss a) \<union> set (a_rs a)) g x (recv_payload g ep c out) (recv_woken out)
      (recv_mem r c ep out) r'"
proof -
  let ?z = "et_zero (elemtype (rt_chan r c))"
  have q0: "qcount (rt_chan r c) = length (a_vals a)" using abs by (simp add: chan_abs_def)
  have cl: "a_closed a \<longleftrightarrow> closed (rt_chan r c) \<noteq> 0" using abs by (simp add: chan_abs_def)
  consider (closed) "a_closed a" "a_vals a = []"
    | (fast) "\<not> a_closed a" "\<not> block" "empty r c"
    | (slow) "\<not> (a_closed a \<and> a_vals a = [])" "block \<or> \<not> empty r c" 
    using empty_abs [OF abs] by blast
  then show ?thesis
  proof cases
    case closed
    then have o: "out = RClosed" "a' = a" using out by (auto simp: a_recv_def)
    have "op_effect r (set (a_ss a) \<union> set (a_rs a)) g x None [] (mem_store ep ?z (rt_mem r)) (store_elem ep ?z r)"
      by (intro op_effect_mem op_effect_refl)
    with closed abs o q0 cl show ?thesis
      by (auto simp: chanrecv_def chan_abs_store_elem recv_payload_def recv_mem_def)
  next
    case fast
    with empty_abs [OF abs] have "a_vals a = []" "a_ss a = []" by auto
    then have "out = REmpty" "a' = a" using out fast by (auto simp: a_recv_def)
    with fast abs cl show ?thesis
      by (auto simp: chanrecv_def recv_payload_def recv_mem_def op_effect_refl)
  next
    case slow
    have rp: "wq_repr (rt_sg r) (sendq (rt_chan r c)) (a_ss a)"
      "wq_repr (rt_sg r) (recvq (rt_chan r c)) (a_rs a)" "set (a_ss a) \<inter> set (a_rs a) = {}"
      using abs by (auto simp: chan_abs_def)
    obtain y r1 where dq: "sendq_dequeue r c = Some (y, r1)" and t: "taken r (a_ss a) y r1"
      and hs: "hchan_same (rt_chan r c) (rt_chan r1 c)"
      and r1: "wq_repr (rt_sg r1) (sendq (rt_chan r1 c)) (tl (dropWhile (stale_of r) (a_ss a)))"
        "wq_repr (rt_sg r1) (recvq (rt_chan r1 c)) (a_rs a)"
      using sendq_dequeue_spec [OF rp] by blast
    have rs: "rt_same r r1" using t by (simp add: taken_def)
    let ?ys = "tl (dropWhile (stale_of r) (a_ss a))"
    have abs1: "chan_abs r1 c (a\<lparr>a_ss := ?ys\<rparr>)"
      by (rule chan_abs_taken_send [OF abs hs r1 set_tl_dropWhile rs]) simp
    then have q1: "qcount (rt_chan r1 c) = length (a_vals a)"
      by (auto simp: chan_abs_def)
    have unf: "chanrecv r (Some c) g x ep block = (case y of
        Some x \<Rightarrow> Some (recv r1 c x ep, Done (True, True))
      | None \<Rightarrow>
          if a_vals a \<noteq> []
          then Some (upd_chan c buf_take (store_elem ep (chanbuf (rt_chan r1 c) (recvx (rt_chan r1 c))) r1), Done (True, True))
          else if \<not> block then Some (r1, Done (False, False))
          else Some (park_recv r1 c g x ep, Blocked x))"
      using slow dq q0 q1 cl by (auto simp: chanrecv_def Let_def split: option.split)
    show ?thesis
    proof (cases y)
      case (Some z)
      obtain v where "out = RGot v (Some z)" "chan_abs (recv r1 c z ep) c a'"
        "op_effect r (set (a_ss a) \<union> set (a_rs a)) g x None [z] (recv_mem r c ep out) (recv r1 c z ep)"
        using recv_from_sender [OF abs al out slow(1) t [unfolded Some] abs1] by blast
      then show ?thesis by (simp add: unf Some recv_payload_def)
    next
      case None
      then have dw: "dropWhile (stale_of r) (a_ss a) = []" using t by (auto simp: taken_def split: list.splits)
      have "chan_abs r1 c (a\<lparr>a_ss := []\<rparr>)" using abs1 unfolding dw by simp
      from recv_no_sender [OF abs x out slow(1) t [unfolded None] this] show ?thesis unfolding unf None option.case .
    qed
  qed
qed

section \<open>Closing\<close>

text \<open>
  The sudogs repeated dequeues hand out: a live entry of a select takes its goroutine's
  other entries with it.
\<close>

fun live :: "sgstore \<Rightarrow> seldone \<Rightarrow> sgid list \<Rightarrow> sgid list" where
  "live s d [] = []"
| "live s d (x # xs) =
     (if sg_stale s d x then live s d xs
      else x # live s (if sg_isSelect (s x) then d(sg_g (s x) := 1) else d) xs)"

lemma set_live: "set (live s d xs) \<subseteq> set xs"
proof (induction xs arbitrary: d)
  case (Cons x xs)
  show ?case using Cons.IH [of d] Cons.IH [of "d(sg_g (s x) := 1)"]
    unfolding live.simps by (simp only: list.set split: if_split) blast
qed simp

lemma live_dropWhile: "live s d (dropWhile (sg_stale s d) xs) = live s d xs"
  by (induction xs) auto

lemma live_cong:
  "(\<And>x. x \<in> set xs \<Longrightarrow> sg_isSelect (t x) = sg_isSelect (s x) \<and> sg_g (t x) = sg_g (s x)) \<Longrightarrow>
   live t d xs = live s d xs"
  by (induction s d xs rule: live.induct) (auto simp: sg_stale_def)

lemma live_plain: "\<forall>x\<in>set xs. \<not> sg_isSelect (s x) \<Longrightarrow> live s d xs = xs"
  by (induction s d xs rule: live.induct) (auto simp: sg_stale_def)

text \<open>\<open>L\<close> is the list of sudogs woken, out of the queue \<open>xs\<close>.\<close>

definition close_effect :: "'v rt \<Rightarrow> chid \<Rightarrow> sgid list \<Rightarrow> sgid list \<Rightarrow> (addr \<Rightarrow> 'v) \<Rightarrow> 'v rt \<Rightarrow> bool" where
  "close_effect r c xs L m r' \<longleftrightarrow>
     rt_mem r' = m \<and> rt_ready r' = rt_ready r \<and> rt_waiting r' = rt_waiting r \<and>
     rt_param r' = fold (\<lambda>y f. f(sg_g (rt_sg r y) := None)) L (rt_param r) \<and>
     (\<forall>y. payload (rt_sg r' y) =
        payload (if y \<in> set L then (rt_sg r y)\<lparr>sg_elem := None\<rparr> else rt_sg r y)) \<and>
     (\<forall>y. y \<notin> set xs \<longrightarrow> rt_sg r' y = rt_sg r y) \<and>
     (\<forall>y\<in>set L. sg_next (rt_sg r' y) = None \<and> sg_prev (rt_sg r' y) = None) \<and>
     hchan_same (rt_chan r c) (rt_chan r' c)"

definition clear_elems :: "'v \<Rightarrow> sgstore \<Rightarrow> sgid list \<Rightarrow> (addr \<Rightarrow> 'v) \<Rightarrow> addr \<Rightarrow> 'v" where
  "clear_elems z s L m = fold (\<lambda>y. mem_store (sg_elem (s y)) z) L m"

lemma close_effect_step:
  assumes t: "taken r xs (Some y) r1" and hs: "hchan_same (rt_chan r c) (rt_chan r1 c)"
    and dw: "dropWhile (stale_of r) xs = y # ys" and dist: "distinct xs"
    and sg: "rt_sg r2 = (rt_sg r1)(y := (rt_sg r1 y)\<lparr>sg_elem := None\<rparr>)"
    and r2: "rt_ready r2 = rt_ready r1" "rt_waiting r2 = rt_waiting r1" "rt_chan r2 = rt_chan r1"
      "rt_param r2 = (rt_param r1)(sg_g (rt_sg r1 y) := None)"
    and e: "close_effect r2 c ys L m r3" and L: "set L \<subseteq> set ys"
  shows "close_effect r c xs (y # L) m r3"
proof -
  have y: "y \<in> set xs" "set ys \<subseteq> set xs" "y \<notin> set ys"
    using dropWhile_ConsD [OF dw] distinct_dropWhile_Cons [OF dist dw] by auto
  have g: "sg_g (rt_sg r2 u) = sg_g (rt_sg r u)" for u
    using t sg by (auto simp: taken_def rt_same_def same_payload_def)
  have p: "payload (rt_sg r2 u) = payload (if u = y then (rt_sg r y)\<lparr>sg_elem := None\<rparr> else rt_sg r u)" for u
    using t sg by (auto simp: taken_def rt_same_def same_payload_def payload_def)
  have elem: "payload (s\<lparr>sg_elem := None\<rparr>) = payload (t\<lparr>sg_elem := None\<rparr>)"
    if "payload s = payload t" for s t :: sudog
    using that by (simp add: payload_def)
  show ?thesis
    unfolding close_effect_def
  proof (intro conjI allI ballI impI)
    fix u
    show "payload (rt_sg r3 u) = payload (if u \<in> set (y # L) then (rt_sg r u)\<lparr>sg_elem := None\<rparr> else rt_sg r u)"
      using e p [of u] y(3) L elem [of "rt_sg r2 u" "rt_sg r u"]
      by (cases "u = y") (auto simp: close_effect_def)
  next
    fix u assume "u \<notin> set xs"
    with y t sg e show "rt_sg r3 u = rt_sg r u"
      by (auto simp: close_effect_def taken_def)
  next
    fix u assume "u \<in> set (y # L)"
    with y t sg e L have *: "u = y \<Longrightarrow> rt_sg r3 u = rt_sg r2 u" and "u \<noteq> y \<Longrightarrow> u \<in> set L"
      by (auto simp: close_effect_def)
    with t sg e show "sg_next (rt_sg r3 u) = None" and "sg_prev (rt_sg r3 u) = None"
      by (cases "u = y"; auto simp: close_effect_def taken_def)+
  next
    show "rt_param r3 = fold (\<lambda>y f. f(sg_g (rt_sg r y) := None)) (y # L) (rt_param r)"
      using e t r2 g by (auto simp: close_effect_def taken_def rt_same_def same_payload_def)
  qed (use e t r2 hs in \<open>auto simp: close_effect_def taken_def rt_same_def hchan_same_def\<close>)
qed

lemma close_effect_done:
  assumes "taken r xs None r1" and "hchan_same (rt_chan r c) (rt_chan r1 c)"
  shows "close_effect r c xs [] (rt_mem r) r1"
  using assms by (auto simp: close_effect_def taken_def rt_same_def same_payload_payload)

lemma taken_None: "taken r xs None r1 \<Longrightarrow> dropWhile (stale_of r) xs = [] \<and> live (rt_sg r) (rt_done r) xs = []"
  using live_dropWhile [of "rt_sg r" "rt_done r" xs]
  by (auto simp: taken_def stale_of_def split: list.splits)

text \<open>The live entries of a queue once its head is off.\<close>

lemma live_taken:
  assumes t: "taken r xs (Some y) r1" and dw: "dropWhile (stale_of r) xs = y # ys"
    and "\<And>u. sg_isSelect (rt_sg r2 u) = sg_isSelect (rt_sg r1 u) \<and> sg_g (rt_sg r2 u) = sg_g (rt_sg r1 u)"
    and "rt_done r2 = rt_done r1"
  shows "live (rt_sg r) (rt_done r) xs = y # live (rt_sg r2) (rt_done r2) ys"
proof -
  have "live (rt_sg r) (rt_done r) xs = live (rt_sg r) (rt_done r) (y # ys)"
    using live_dropWhile [of "rt_sg r" "rt_done r" xs] dw by (simp add: stale_of_def)
  also have "\<dots> = y # live (rt_sg r) (rt_done r1) ys"
    using t dropWhile_ConsD [OF dw] by (auto simp: taken_def stale_of_def)
  also have "live (rt_sg r) (rt_done r1) ys = live (rt_sg r2) (rt_done r2) ys"
    using assms(3,4) t by (subst live_cong [where s = "rt_sg r"]) (auto simp: taken_def rt_same_def same_payload_def)
  finally show ?thesis .
qed

lemma close_receivers_spec:
  assumes "wq_repr (rt_sg r) (sendq (rt_chan r c)) ss" "wq_repr (rt_sg r) (recvq (rt_chan r c)) rs"
    and "set ss \<inter> set rs = {}"
  shows "\<exists>r' L. L = live (rt_sg r) (rt_done r) rs \<and>
    close_receivers r c gl = Some (r', rev (map (\<lambda>y. sg_g (rt_sg r y)) L) @ gl) \<and>
    close_effect r c rs L (clear_elems (et_zero (elemtype (rt_chan r c))) (rt_sg r) L (rt_mem r)) r' \<and>
    wq_repr (rt_sg r') (sendq (rt_chan r' c)) ss \<and> wq_repr (rt_sg r') (recvq (rt_chan r' c)) []"
  using assms
proof (induction "length rs" arbitrary: r rs gl rule: less_induct)
  case less
  obtain x r1 where dq: "recvq_dequeue r c = Some (x, r1)" and t: "taken r rs x r1"
    and hs: "hchan_same (rt_chan r c) (rt_chan r1 c)"
    and w: "wq_repr (rt_sg r1) (sendq (rt_chan r1 c)) ss"
      "wq_repr (rt_sg r1) (recvq (rt_chan r1 c)) (tl (dropWhile (stale_of r) rs))"
    using recvq_dequeue_spec [OF less.prems] by blast
  show ?case
  proof (cases x)
    case None
    with t w dq hs taken_None [of r rs r1] close_effect_done [of r rs r1 c] show ?thesis
      by (auto simp: close_receivers.simps [of r] clear_elems_def simp del: dropWhile_eq_Nil_conv)
  next
    case (Some y)
    obtain ys where dw: "dropWhile (stale_of r) rs = y # ys"
      using t Some by (cases "dropWhile (stale_of r) rs") (auto simp: taken_def)
    have y: "y \<in> set rs" "set ys \<subseteq> set rs" using dropWhile_ConsD [OF dw] by auto
    let ?z = "et_zero (elemtype (rt_chan r c))"
    define r2 where "r2 = set_param (sg_g (rt_sg r1 y)) None (upd_sg y (\<lambda>s. s\<lparr>sg_elem := None\<rparr>)
        (store_elem (sg_elem (rt_sg r1 y)) ?z r1))"
    have sg2: "rt_sg r2 = (rt_sg r1)(y := (rt_sg r1 y)\<lparr>sg_elem := None\<rparr>)" and ch2: "rt_chan r2 = rt_chan r1"
      by (simp_all add: r2_def set_param_def upd_sg_def)
    have "length ys < length rs"
      using arg_cong [OF dw, of length] length_dropWhile_le [of "stale_of r" rs] by simp
    moreover have "wq_repr (rt_sg r2) (sendq (rt_chan r2 c)) ss" "wq_repr (rt_sg r2) (recvq (rt_chan r2 c)) ys"
      using w dw wq_repr_cong [of _ "rt_sg r2" "rt_sg r1"] by (auto simp: sg2 ch2)
    moreover have "set ss \<inter> set ys = {}" using y less.prems(3) by auto
    ultimately obtain r3 L where L: "L = live (rt_sg r2) (rt_done r2) ys"
      and c3: "close_receivers r2 c (sg_g (rt_sg r y) # gl) = Some (r3, rev (map (\<lambda>y. sg_g (rt_sg r2 y)) L) @ sg_g (rt_sg r y) # gl)"
      and e3: "close_effect r2 c ys L (clear_elems (et_zero (elemtype (rt_chan r2 c))) (rt_sg r2) L (rt_mem r2)) r3"
      and w3: "wq_repr (rt_sg r3) (sendq (rt_chan r3 c)) ss" "wq_repr (rt_sg r3) (recvq (rt_chan r3 c)) []"
      using less.hyps [of ys r2 "sg_g (rt_sg r y) # gl"] by blast
    have Lys: "set L \<subseteq> set ys" using L set_live by blast
    have yn: "y \<notin> set ys"
      using distinct_dropWhile_Cons [OF wq_repr_distinct [OF less.prems(2)] dw] by auto
    have lv: "live (rt_sg r) (rt_done r) rs = y # L"
      unfolding L by (rule live_taken [OF t [unfolded Some] dw]) (auto simp: r2_def set_param_def upd_sg_def store_elem_def split: option.split)
    have pl: "sg_g (rt_sg r1 u) = sg_g (rt_sg r u)" "sg_elem (rt_sg r1 u) = sg_elem (rt_sg r u)" for u
      using t by (auto simp: taken_def rt_same_def same_payload_def)
    have g: "sg_g (rt_sg r2 u) = sg_g (rt_sg r u)" for u using pl by (simp add: sg2)
    have "clear_elems ?z (rt_sg r2) L (rt_mem r2) = clear_elems ?z (rt_sg r) (y # L) (rt_mem r)"
    proof -
      have "rt_mem r2 = mem_store (sg_elem (rt_sg r y)) ?z (rt_mem r)"
        using t pl by (simp add: r2_def set_param_def upd_sg_def taken_def rt_same_def)
      moreover have "sg_elem (rt_sg r2 u) = sg_elem (rt_sg r u)" if "u \<in> set L" for u
        using that Lys yn pl by (auto simp: sg2)
      ultimately show ?thesis by (auto simp: clear_elems_def intro!: fold_cong)
    qed
    then have "close_effect r c rs (y # L) (clear_elems ?z (rt_sg r) (y # L) (rt_mem r)) r3"
      using e3 Lys hs
      by (intro close_effect_step [OF t [unfolded Some] hs dw wq_repr_distinct [OF less.prems(2)] sg2])
        (auto simp: r2_def set_param_def upd_sg_def hchan_same_def)
    moreover have "close_receivers r c gl = close_receivers r2 c (sg_g (rt_sg r y) # gl)"
    proof -
      have "elemtype (rt_chan r1 c) = elemtype (rt_chan r c)" using hs by (simp add: hchan_same_def)
      then show ?thesis
        using dq Some pl
        by (subst close_receivers.simps)
          (cases "sg_elem (rt_sg r y)", auto simp: r2_def set_param_def upd_sg_def store_elem_def fun_upd_idem Let_def)
    qed
    ultimately show ?thesis using lv c3 w3 g by simp
  qed
qed

lemma close_senders_spec:
  assumes "wq_repr (rt_sg r) (sendq (rt_chan r c)) ss" "wq_repr (rt_sg r) (recvq (rt_chan r c)) rs"
    and "set ss \<inter> set rs = {}"
  shows "\<exists>r' L. L = live (rt_sg r) (rt_done r) ss \<and>
    close_senders r c gl = Some (r', rev (map (\<lambda>y. sg_g (rt_sg r y)) L) @ gl) \<and>
    close_effect r c ss L (rt_mem r) r' \<and>
    wq_repr (rt_sg r') (sendq (rt_chan r' c)) [] \<and> wq_repr (rt_sg r') (recvq (rt_chan r' c)) rs"
  using assms
proof (induction "length ss" arbitrary: r ss gl rule: less_induct)
  case less
  obtain x r1 where dq: "sendq_dequeue r c = Some (x, r1)" and t: "taken r ss x r1"
    and hs: "hchan_same (rt_chan r c) (rt_chan r1 c)"
    and w: "wq_repr (rt_sg r1) (sendq (rt_chan r1 c)) (tl (dropWhile (stale_of r) ss))"
      "wq_repr (rt_sg r1) (recvq (rt_chan r1 c)) rs"
    using sendq_dequeue_spec [OF less.prems] by blast
  show ?case
  proof (cases x)
    case None
    with t w dq hs taken_None [of r ss r1] close_effect_done [of r ss r1 c] show ?thesis
      by (auto simp: close_senders.simps [of r] simp del: dropWhile_eq_Nil_conv)
  next
    case (Some y)
    obtain ys where dw: "dropWhile (stale_of r) ss = y # ys"
      using t Some by (cases "dropWhile (stale_of r) ss") (auto simp: taken_def)
    have y: "y \<in> set ss" "set ys \<subseteq> set ss" using dropWhile_ConsD [OF dw] by auto
    define r2 where "r2 = set_param (sg_g (rt_sg r1 y)) None (upd_sg y (\<lambda>s. s\<lparr>sg_elem := None\<rparr>) r1)"
    have sg2: "rt_sg r2 = (rt_sg r1)(y := (rt_sg r1 y)\<lparr>sg_elem := None\<rparr>)" and ch2: "rt_chan r2 = rt_chan r1"
      by (simp_all add: r2_def set_param_def upd_sg_def)
    have "length ys < length ss"
      using arg_cong [OF dw, of length] length_dropWhile_le [of "stale_of r" ss] by simp
    moreover have "wq_repr (rt_sg r2) (sendq (rt_chan r2 c)) ys" "wq_repr (rt_sg r2) (recvq (rt_chan r2 c)) rs"
      using w dw wq_repr_cong [of _ "rt_sg r2" "rt_sg r1"] by (auto simp: sg2 ch2)
    moreover have "set ys \<inter> set rs = {}" using y less.prems(3) by auto
    ultimately obtain r3 L where L: "L = live (rt_sg r2) (rt_done r2) ys"
      and c3: "close_senders r2 c (sg_g (rt_sg r y) # gl) = Some (r3, rev (map (\<lambda>y. sg_g (rt_sg r2 y)) L) @ sg_g (rt_sg r y) # gl)"
      and e3: "close_effect r2 c ys L (rt_mem r2) r3"
      and w3: "wq_repr (rt_sg r3) (sendq (rt_chan r3 c)) []" "wq_repr (rt_sg r3) (recvq (rt_chan r3 c)) rs"
      using less.hyps [of ys r2 "sg_g (rt_sg r y) # gl"] by blast
    have Lys: "set L \<subseteq> set ys" using L set_live by blast
    have lv: "live (rt_sg r) (rt_done r) ss = y # L"
      unfolding L by (rule live_taken [OF t [unfolded Some] dw]) (auto simp: r2_def set_param_def upd_sg_def)
    have pl: "sg_g (rt_sg r1 u) = sg_g (rt_sg r u)" for u
      using t by (auto simp: taken_def rt_same_def same_payload_def)
    have g: "sg_g (rt_sg r2 u) = sg_g (rt_sg r u)" for u using pl by (simp add: sg2)
    have "rt_mem r2 = rt_mem r"
      using t by (simp add: r2_def set_param_def upd_sg_def taken_def rt_same_def)
    then have "close_effect r c ss (y # L) (rt_mem r) r3"
      using e3 Lys hs
      by (intro close_effect_step [OF t [unfolded Some] hs dw wq_repr_distinct [OF less.prems(1)] sg2])
        (auto simp: r2_def set_param_def upd_sg_def hchan_same_def)
    moreover have "close_senders r c gl = close_senders r2 c (sg_g (rt_sg r y) # gl)"
      using dq Some pl by (subst close_senders.simps) (auto simp: r2_def set_param_def upd_sg_def Let_def)
    ultimately show ?thesis using lv c3 w3 g by simp
  qed
qed

text \<open>Whom a close wakes: the live receivers, then the live senders.\<close>

definition closing :: "'v rt \<Rightarrow> 'v achan \<Rightarrow> sgid list" where
  "closing r a = live (rt_sg r) (rt_done r) (a_rs a) @ live (rt_sg r) (rt_done r) (a_ss a)"

lemma fold_goready: "fold goready gs r = r\<lparr>rt_ready := rt_ready r @ gs\<rparr>"
  by (induction gs arbitrary: r) (simp_all add: goready_def)

lemma upd_recvq_same: "recvq (rt_chan r c) = q \<Longrightarrow> upd_chan c (\<lambda>h. h\<lparr>recvq := q\<rparr>) r = r"
  and upd_sendq_same: "sendq (rt_chan r c) = q \<Longrightarrow> upd_chan c (\<lambda>h. h\<lparr>sendq := q\<rparr>) r = r"
  by (auto simp: upd_chan_def)

lemma close_receivers_none: "wq_repr (rt_sg r) (recvq (rt_chan r c)) [] \<Longrightarrow> close_receivers r c gl = Some (r, gl)"
  by (subst close_receivers.simps)
    (simp add: recvq_dequeue_def waitq_dequeue.simps wq_repr_Nil empty_waitq_def upd_recvq_same)

lemma close_senders_none: "wq_repr (rt_sg r) (sendq (rt_chan r c)) [] \<Longrightarrow> close_senders r c gl = Some (r, gl)"
  by (subst close_senders.simps)
    (simp add: sendq_dequeue_def waitq_dequeue.simps wq_repr_Nil empty_waitq_def upd_sendq_same)

lemma close_effect_nil: "close_effect r c [] [] (rt_mem r) r"
  by (simp add: close_effect_def hchan_same_def)

lemma closechan_refine:
  assumes abs: "chan_abs r c a" and op: "\<not> a_closed a"
  shows "\<exists>r'. closechan r (Some c) = Some (r', Done ()) \<and>
    chan_abs r' c (a\<lparr>a_closed := True, a_ss := [], a_rs := []\<rparr>) \<and>
    rt_ready r' = rt_ready r @ rev (map (\<lambda>y. sg_g (rt_sg r y)) (closing r a)) \<and>
    close_effect (upd_chan c (\<lambda>h. h\<lparr>closed := 1\<rparr>) r) c (a_rs a @ a_ss a) (closing r a)
      (clear_elems (et_zero (elemtype (rt_chan r c))) (rt_sg r) (live (rt_sg r) (rt_done r) (a_rs a)) (rt_mem r))
      (r'\<lparr>rt_ready := rt_ready r\<rparr>)"
proof -
  define r0 where "r0 = upd_chan c (\<lambda>h. h\<lparr>closed := 1\<rparr>) r"
  have r0: "rt_sg r0 = rt_sg r" "rt_done r0 = rt_done r" "rt_mem r0 = rt_mem r" "rt_ready r0 = rt_ready r"
    "rt_chan r0 c = (rt_chan r c)\<lparr>closed := 1\<rparr>"
    by (simp_all add: r0_def upd_chan_def)
  have q: "wq_repr (rt_sg r0) (sendq (rt_chan r0 c)) (a_ss a)"
    "wq_repr (rt_sg r0) (recvq (rt_chan r0 c)) (a_rs a)" "set (a_ss a) \<inter> set (a_rs a) = {}"
    and ex: "a_ss a = [] \<or> a_rs a = []" and cl: "closed (rt_chan r c) = 0"
    using abs op r0 by (auto simp: chan_abs_def a_excl_def)
  let ?L = "live (rt_sg r0) (rt_done r0) (a_rs a @ a_ss a)"
  let ?m = "clear_elems (et_zero (elemtype (rt_chan r0 c))) (rt_sg r0) (live (rt_sg r0) (rt_done r0) (a_rs a)) (rt_mem r0)"
  have "\<exists>r1 r2. close_receivers r0 c [] = Some (r1, rev (map (\<lambda>y. sg_g (rt_sg r y)) (live (rt_sg r0) (rt_done r0) (a_rs a)))) \<and>
      close_senders r1 c (rev (map (\<lambda>y. sg_g (rt_sg r y)) (live (rt_sg r0) (rt_done r0) (a_rs a)))) =
        Some (r2, rev (map (\<lambda>y. sg_g (rt_sg r y)) ?L)) \<and>
      close_effect r0 c (a_rs a @ a_ss a) ?L ?m r2 \<and>
      wq_repr (rt_sg r2) (sendq (rt_chan r2 c)) [] \<and> wq_repr (rt_sg r2) (recvq (rt_chan r2 c)) []"
  proof (cases "a_ss a = []")
    case True
    obtain r1 where "close_receivers r0 c [] =
        Some (r1, rev (map (\<lambda>y. sg_g (rt_sg r0 y)) (live (rt_sg r0) (rt_done r0) (a_rs a))) @ [])"
      and "close_effect r0 c (a_rs a) (live (rt_sg r0) (rt_done r0) (a_rs a)) ?m r1"
      and "wq_repr (rt_sg r1) (sendq (rt_chan r1 c)) (a_ss a)" "wq_repr (rt_sg r1) (recvq (rt_chan r1 c)) []"
      using close_receivers_spec [OF q, of "[]"] by blast
    with True close_senders_none [of r1 c] show ?thesis by (auto simp: r0)
  next
    case False
    with ex have rs: "a_rs a = []" by simp
    obtain r2 where "close_senders r0 c [] =
        Some (r2, rev (map (\<lambda>y. sg_g (rt_sg r0 y)) (live (rt_sg r0) (rt_done r0) (a_ss a))) @ [])"
      and "close_effect r0 c (a_ss a) (live (rt_sg r0) (rt_done r0) (a_ss a)) (rt_mem r0) r2"
      and "wq_repr (rt_sg r2) (sendq (rt_chan r2 c)) []" "wq_repr (rt_sg r2) (recvq (rt_chan r2 c)) (a_rs a)"
      using close_senders_spec [OF q, of "[]"] by blast
    with rs q close_receivers_none [of r0 c "[]"] show ?thesis by (auto simp: r0 clear_elems_def)
  qed
  then obtain r1 r2 where cr: "close_receivers r0 c [] = Some (r1, rev (map (\<lambda>y. sg_g (rt_sg r y)) (live (rt_sg r0) (rt_done r0) (a_rs a))))"
    and cs: "close_senders r1 c (rev (map (\<lambda>y. sg_g (rt_sg r y)) (live (rt_sg r0) (rt_done r0) (a_rs a)))) =
        Some (r2, rev (map (\<lambda>y. sg_g (rt_sg r y)) ?L))"
    and e: "close_effect r0 c (a_rs a @ a_ss a) ?L ?m r2"
    and w: "wq_repr (rt_sg r2) (sendq (rt_chan r2 c)) []" "wq_repr (rt_sg r2) (recvq (rt_chan r2 c)) []"
    by blast
  have L: "?L = closing r a" using ex by (auto simp: closing_def r0)
  have hs: "hchan_same (rt_chan r0 c) (rt_chan r2 c)" and rd: "rt_ready r2 = rt_ready r"
    using e by (auto simp: close_effect_def r0)
  have "closechan r (Some c) = Some (r2\<lparr>rt_ready := rt_ready r @ rev (map (\<lambda>y. sg_g (rt_sg r y)) (closing r a))\<rparr>, Done ())"
    using cr cs cl L rd by (simp add: closechan_def r0_def [symmetric] fold_goready)
  moreover have "chan_abs (r2\<lparr>rt_ready := rd\<rparr>) c (a\<lparr>a_closed := True, a_ss := [], a_rs := []\<rparr>)" for rd
  proof -
    have "buf_wf (rt_chan r2 c)" and "a_vals a = chan_vals (rt_chan r2 c)"
      and "a_cap a = dataqsiz (rt_chan r2 c)" and "closed (rt_chan r2 c) \<noteq> 0"
      using abs hchan_same_vals [OF hs] hchan_same_wf [OF hs] hs
      by (auto simp: chan_abs_def r0 hchan_same_def buf_wf_def chan_vals_def)
    with w show ?thesis by (simp add: chan_abs_def a_excl_def)
  qed
  moreover have "r2\<lparr>rt_ready := rd\<rparr>\<lparr>rt_ready := rt_ready r\<rparr> = r2" for rd using rd by simp
  ultimately show ?thesis using e L by (auto simp: r0_def [symmetric] r0)
qed

section \<open>Overflow and allocation\<close>

text \<open>C34. The product of \<open>MulUintptr\<close> is right modulo \<open>2^64\<close>, and its flag says exactly
  whether the product of the two numbers fits in 64 bits.\<close>

theorem MulUintptr_exact:
  "fst (MulUintptr a b) = a * b \<and> (snd (MulUintptr a b) \<longleftrightarrow> 2 ^ 64 \<le> unat a * unat b)"
  by (simp only: MulUintptr_product MulUintptr_overflow_iff simp_thms)

text \<open>C35. \<open>makechan\<close> returns exactly when the element size is below 64KB, the alignment at
  most 8, the size not negative and the buffer fits below the allocation limit; and then it
  returns an open, empty channel of that capacity that satisfies the channel invariant.\<close>

theorem makechan_spec:
  "(is_ret (makechan e n) \<longleftrightarrow>
     unat (et_size e) < 65536 \<and> unat (et_align e) \<le> 8 \<and> 0 \<le> sint n \<and>
     unat (et_size e) * unat n \<le> 2 ^ 48 - 96) \<and>
   (makechan e n = Ret h \<longleftrightarrow>
     is_ret (makechan e n) \<and>
     h = \<lparr>qcount = 0, dataqsiz = unat n, buf = replicate (unat n) (et_zero e), closed = 0,
          elemtype = e, sendx = 0, recvx = 0, recvq = empty_waitq, sendq = empty_waitq\<rparr>)"
proof (rule conjI)
  have lim: "\<not> snd (MulUintptr (et_size e) n) \<and> \<not> maxAlloc - hchanSize < fst (MulUintptr (et_size e) n) \<longleftrightarrow>
      unat (et_size e) * unat n \<le> 2 ^ 48 - 96"
  proof (cases "2 ^ 64 \<le> unat (et_size e) * unat n")
    case False
    then have "unat (et_size e * n) = unat (et_size e) * unat n"
      by (simp add: unat_mult_lem [THEN iffD1])
    with False show ?thesis
      unfolding MulUintptr_overflow_iff MulUintptr_product word_less_nat_alt
      by (simp add: maxAlloc_def hchanSize_def push_bit_eq_mult not_less)
  qed (simp add: MulUintptr_overflow_iff)
  have al: "et_size e \<ge> push_bit 16 1 \<longleftrightarrow> \<not> unat (et_size e) < 65536"
    "et_align e > maxAlign \<longleftrightarrow> \<not> unat (et_align e) \<le> 8" "hchanSize mod maxAlign = 0"
    by (auto simp: word_le_nat_alt word_less_nat_alt push_bit_eq_mult maxAlign_def hchanSize_def)
  show "is_ret (makechan e n) \<longleftrightarrow>
     unat (et_size e) < 65536 \<and> unat (et_align e) \<le> 8 \<and> 0 \<le> sint n \<and>
     unat (et_size e) * unat n \<le> 2 ^ 48 - 96"
    unfolding makechan_def al using lim
    by (cases "MulUintptr (et_size e) n") (auto simp: not_le not_less)
  show "makechan e n = Ret h \<longleftrightarrow>
     is_ret (makechan e n) \<and>
     h = \<lparr>qcount = 0, dataqsiz = unat n, buf = replicate (unat n) (et_zero e), closed = 0,
          elemtype = e, sendx = 0, recvx = 0, recvq = empty_waitq, sendq = empty_waitq\<rparr>"
    by (cases "MulUintptr (et_size e) n") (auto simp: makechan_def)
qed

section \<open>A small runtime state\<close>

text \<open>Channel 0 has room for \<open>n\<close> integers and is empty; cell \<open>p\<close> of the memory holds \<open>p\<close>.\<close>

definition demo_elem :: "int elemtype" where
  "demo_elem = \<lparr>et_size = 8, et_align = 8, et_zero = 0\<rparr>"

definition demo_chan :: "nat \<Rightarrow> int hchan" where
  "demo_chan n = \<lparr>qcount = 0, dataqsiz = n, buf = replicate n 0, closed = 0, elemtype = demo_elem,
     sendx = 0, recvx = 0, recvq = empty_waitq, sendq = empty_waitq\<rparr>"

definition demo_rt :: "nat \<Rightarrow> int rt" where
  "demo_rt n = \<lparr>rt_sg = (\<lambda>_. \<lparr>sg_g = 0, sg_next = None, sg_prev = None, sg_elem = None, sg_isSelect = False,
       sg_waitlink = None, sg_c = None\<rparr>),
     rt_done = (\<lambda>_. 0), rt_param = (\<lambda>_. None), rt_waiting = (\<lambda>_. None), rt_stackChans = (\<lambda>_. False),
     rt_mem = int, rt_chan = (\<lambda>_. demo_chan n), rt_ready = []\<rparr>"

definition demo_achan :: "nat \<Rightarrow> int achan" where
  "demo_achan n = \<lparr>a_vals = [], a_cap = n, a_closed = False, a_ss = [], a_rs = []\<rparr>"

lemma demo_abs: "chan_abs (demo_rt n) c (demo_achan n)"
  by (simp add: chan_abs_def demo_rt_def demo_chan_def demo_achan_def buf_wf_def chan_vals_def a_excl_def)

section \<open>What the operations promise\<close>

text \<open>C4. A send refines the abstract send, on every branch: it returns, panics, or parks as
  the abstract outcome says, leaves a channel that again satisfies the invariant and stands
  for the abstract result, hands the value to the memory of the receiver it wakes, if any,
  and wakes no one else.\<close>

theorem chansend_functional:
  assumes "chan_abs r c a" and "x \<notin> set (a_ss a) \<union> set (a_rs a)"
  shows "\<exists>r' a' out. a_send (stale_of r) a x (rt_mem r ep) block = (a', out) \<and>
    chansend r (Some c) g x ep block = Some (r', send_result x out) \<and> chan_abs r' c a' \<and>
    rt_mem r' = send_mem r ep out \<and>
    rt_ready r' = rt_ready r @ map (\<lambda>y. sg_g (rt_sg r y)) (send_woken out)"
proof -
  obtain a' out where o: "a_send (stale_of r) a x (rt_mem r ep) block = (a', out)" by fastforce
  from chansend_refine [OF assms o, of g] o show ?thesis by (auto simp: op_effect_def)
qed

theorem chansend_functional_witness:
  "\<exists>r' a' out. a_send (stale_of (demo_rt 1)) (demo_achan 1) 5 9 True = (a', out) \<and>
    chansend (demo_rt 1) (Some 0) 3 5 9 True = Some (r', Done True) \<and> chan_abs r' 0 a' \<and> a_vals a' = [9]"
proof -
  have "(5::nat) \<notin> set (a_ss (demo_achan 1)) \<union> set (a_rs (demo_achan 1))" by (simp add: demo_achan_def)
  from chansend_functional [OF demo_abs this, of 9 True 0 3] show ?thesis
    by (auto simp: a_send_def demo_achan_def demo_rt_def)
qed

text \<open>C5. A receive refines the abstract receive, on every branch: in particular, with a sender
  waiting on a full buffer the head of the buffer is received and the sender's value goes in
  at the tail, and on a closed channel the buffer is drained before zero values are
  returned with \<open>received = false\<close>.  The cell received into is not one a blocked sender
  sends from.\<close>

theorem chanrecv_functional:
  assumes "chan_abs r c a" and "x \<notin> set (a_ss a) \<union> set (a_rs a)"
    and "\<forall>y\<in>set (a_ss a). sg_elem (rt_sg r y) \<noteq> ep"
  shows "\<exists>r' a' out. a_recv (stale_of r) (pend_of r) a x block = (a', out) \<and>
    chanrecv r (Some c) g x ep block = Some (r', recv_result x out) \<and> chan_abs r' c a' \<and>
    rt_mem r' = recv_mem r c ep out \<and>
    rt_ready r' = rt_ready r @ map (\<lambda>y. sg_g (rt_sg r y)) (recv_woken out)"
proof -
  obtain a' out where o: "a_recv (stale_of r) (pend_of r) a x block = (a', out)"
    by (metis surj_pair)
  from chanrecv_refine [OF assms o, of g] o show ?thesis by (auto simp: op_effect_def)
qed

theorem chanrecv_functional_witness:
  "\<exists>r' a' out. a_recv (stale_of (demo_rt 0)) (pend_of (demo_rt 0)) (demo_achan 0) 5 True = (a', out) \<and>
    chanrecv (demo_rt 0) (Some 0) 3 5 (Some 9) True = Some (r', Blocked 5) \<and> chan_abs r' 0 a' \<and> a_rs a' = [5]"
proof -
  have "(5::nat) \<notin> set (a_ss (demo_achan 0)) \<union> set (a_rs (demo_achan 0))"
    and "\<forall>y\<in>set (a_ss (demo_achan 0)). sg_elem (rt_sg (demo_rt 0) y) \<noteq> Some 9"
    by (simp_all add: demo_achan_def)
  from chanrecv_functional [OF demo_abs this, of True 0 3] show ?thesis
    by (auto simp: a_recv_def demo_achan_def)
qed

text \<open>C6. Closing an open channel returns, leaves the buffered values, and makes ready exactly
  the goroutines of the live waiters, each once per live sudog, the last one dequeued first;
  a waiting receiver finds the zero value in its memory.  Closing a closed channel panics.\<close>

theorem closechan_functional:
  assumes "chan_abs r c a"
  shows "\<exists>r' res. closechan r (Some c) = Some (r', res) \<and>
    chan_abs r' c (a\<lparr>a_closed := True, a_ss := [], a_rs := []\<rparr>) \<and>
    (if a_closed a then res = Panicked ''close of closed channel'' \<and> r' = r
     else res = Done () \<and>
       rt_ready r' = rt_ready r @ rev (map (\<lambda>y. sg_g (rt_sg r y)) (closing r a)) \<and>
       rt_mem r' = clear_elems (et_zero (elemtype (rt_chan r c))) (rt_sg r)
         (live (rt_sg r) (rt_done r) (a_rs a)) (rt_mem r))"
proof (cases "a_closed a")
  case True
  have "a\<lparr>a_closed := True, a_ss := [], a_rs := []\<rparr> = a"
    using True chan_abs_not_stale_closed [OF assms True] by simp
  with True assms show ?thesis by (auto simp: closechan_def chan_abs_def)
next
  case False
  from closechan_refine [OF assms False] False show ?thesis by (auto simp: close_effect_def)
qed

theorem closechan_functional_witness:
  "\<exists>r'. closechan (demo_rt 0) (Some 0) = Some (r', Done ()) \<and> rt_ready r' = []"
  using closechan_functional [OF demo_abs, of 0 0]
  by (auto simp: demo_achan_def closing_def demo_rt_def)

end
