(* ===== verification/Chan_System.thy ===== *)
theory Chan_System
  imports Chan_Spec "HOL-Library.Sublist"
begin

text \<open>
  Any number of goroutines sending on, receiving from and closing one channel, in any
  order, as a step relation: each step is one call of the channel code up to its return or
  to its \<open>gopark\<close>, or one woken goroutine running the code after its \<open>gopark\<close>.  The
  theorems hold in every reachable state: values come out in the order they went in and
  none is lost or duplicated, no runtime check throws, and no goroutine sleeps while it
  could proceed.
\<close>

section \<open>The system\<close>

datatype dir = Snd | Rcv

text \<open>
  \<open>cs_wait g\<close> says that \<open>g\<close> is inside a blocked call, and with which sudog; \<open>cs_sent\<close> and
  \<open>cs_got\<close> record the values whose send was accepted, and the values received, as the
  receivers find them in their memory.
\<close>

record 'v csys =
  cs_rt :: "'v rt"
  cs_wait :: "gid \<Rightarrow> (dir \<times> sgid) option"
  cs_sent :: "'v list"
  cs_got :: "'v list"

definition sg_unused :: "'v csys \<Rightarrow> sgid \<Rightarrow> bool" where
  "sg_unused s x \<longleftrightarrow> (\<forall>g d. cs_wait s g \<noteq> Some (d, x))"

definition cell_unused :: "'v csys \<Rightarrow> addr \<Rightarrow> bool" where
  "cell_unused s p \<longleftrightarrow> (\<forall>g d x. cs_wait s g = Some (d, x) \<longrightarrow> sg_elem (rt_sg (cs_rt s) x) \<noteq> Some p)"

text \<open>The value a waiting receiver is handed by a send, read from its memory afterwards.\<close>

definition handed :: "'v rt \<Rightarrow> chid \<Rightarrow> 'v rt \<Rightarrow> 'v list" where
  "handed r c r' =
     (case wq_first (recvq (rt_chan r c)) of
        None \<Rightarrow> []
      | Some x \<Rightarrow> (case sg_elem (rt_sg r x) of None \<Rightarrow> [] | Some p \<Rightarrow> [rt_mem r' p]))"

inductive csys_step :: "chid \<Rightarrow> 'v csys \<Rightarrow> 'v csys \<Rightarrow> bool" for c :: chid where
  send_done: "cs_wait s g = None \<Longrightarrow> sg_unused s x \<Longrightarrow> cell_unused s ep \<Longrightarrow>
    chansend (cs_rt s) (Some c) g x ep block = Some (r', Done True) \<Longrightarrow>
    csys_step c s (s\<lparr>cs_rt := r', cs_sent := cs_sent s @ [rt_mem (cs_rt s) ep],
                     cs_got := cs_got s @ handed (cs_rt s) c r'\<rparr>)"
| send_not: "cs_wait s g = None \<Longrightarrow> sg_unused s x \<Longrightarrow> cell_unused s ep \<Longrightarrow>
    chansend (cs_rt s) (Some c) g x ep block = Some (r', res) \<Longrightarrow>
    res = Done False \<or> res = Panicked m \<Longrightarrow>
    csys_step c s (s\<lparr>cs_rt := r'\<rparr>)"
| send_block: "cs_wait s g = None \<Longrightarrow> sg_unused s x \<Longrightarrow> cell_unused s ep \<Longrightarrow>
    chansend (cs_rt s) (Some c) g x ep block = Some (r', Blocked y) \<Longrightarrow>
    csys_step c s (s\<lparr>cs_rt := r', cs_wait := (cs_wait s)(g := Some (Snd, y)),
                     cs_sent := cs_sent s @ [rt_mem (cs_rt s) ep]\<rparr>)"
| recv_done: "cs_wait s g = None \<Longrightarrow> sg_unused s x \<Longrightarrow> cell_unused s p \<Longrightarrow>
    chanrecv (cs_rt s) (Some c) g x (Some p) block = Some (r', Done (True, True)) \<Longrightarrow>
    csys_step c s (s\<lparr>cs_rt := r', cs_got := cs_got s @ [rt_mem r' p]\<rparr>)"
| recv_not: "cs_wait s g = None \<Longrightarrow> sg_unused s x \<Longrightarrow> cell_unused s p \<Longrightarrow>
    chanrecv (cs_rt s) (Some c) g x (Some p) block = Some (r', Done (b, False)) \<Longrightarrow>
    csys_step c s (s\<lparr>cs_rt := r'\<rparr>)"
| recv_block: "cs_wait s g = None \<Longrightarrow> sg_unused s x \<Longrightarrow> cell_unused s p \<Longrightarrow>
    chanrecv (cs_rt s) (Some c) g x (Some p) block = Some (r', Blocked y) \<Longrightarrow>
    csys_step c s (s\<lparr>cs_rt := r', cs_wait := (cs_wait s)(g := Some (Rcv, y))\<rparr>)"
| close: "closechan (cs_rt s) (Some c) = Some (r', res) \<Longrightarrow>
    csys_step c s (s\<lparr>cs_rt := r'\<rparr>)"
| send_wake: "cs_wait s g = Some (Snd, x) \<Longrightarrow> g \<in> set (rt_ready (cs_rt s)) \<Longrightarrow>
    chansend_wake (cs_rt s) c g x = (r', res) \<Longrightarrow>
    csys_step c s (s\<lparr>cs_rt := r'\<lparr>rt_ready := remove1 g (rt_ready r')\<rparr>,
                     cs_wait := (cs_wait s)(g := None)\<rparr>)"
| recv_wake: "cs_wait s g = Some (Rcv, x) \<Longrightarrow> g \<in> set (rt_ready (cs_rt s)) \<Longrightarrow>
    chanrecv_wake (cs_rt s) g x = (r', res) \<Longrightarrow>
    csys_step c s (s\<lparr>cs_rt := r'\<lparr>rt_ready := remove1 g (rt_ready r')\<rparr>,
                     cs_wait := (cs_wait s)(g := None)\<rparr>)"

text \<open>Execution starts with a channel just made and nobody waiting.\<close>

definition csys_init :: "chid \<Rightarrow> 'v csys \<Rightarrow> bool" where
  "csys_init c s \<longleftrightarrow>
     (\<exists>e n. makechan e n = Ret (rt_chan (cs_rt s) c)) \<and> cs_wait s = (\<lambda>_. None) \<and>
     rt_ready (cs_rt s) = [] \<and> cs_sent s = [] \<and> cs_got s = []"

inductive csys_reach :: "chid \<Rightarrow> 'v csys \<Rightarrow> bool" for c :: chid where
  start: "csys_init c s \<Longrightarrow> csys_reach c s"
| step: "csys_reach c s \<Longrightarrow> csys_step c s t \<Longrightarrow> csys_reach c t"

section \<open>The invariant\<close>

definition dirq :: "'v achan \<Rightarrow> dir \<Rightarrow> sgid list" where
  "dirq a d = (case d of Snd \<Rightarrow> a_ss a | Rcv \<Rightarrow> a_rs a)"

definition queued :: "'v achan \<Rightarrow> sgid set" where
  "queued a = set (a_ss a) \<union> set (a_rs a)"

text \<open>
  A goroutine inside a blocked call: its sudog is in the queue of its direction and nobody
  woke it, or it has been woken and its sudog is clean.
\<close>

definition waiter :: "'v rt \<Rightarrow> 'v achan \<Rightarrow> gid \<Rightarrow> dir \<Rightarrow> sgid \<Rightarrow> bool" where
  "waiter r a g d x \<longleftrightarrow>
     sg_g (rt_sg r x) = g \<and> \<not> sg_isSelect (rt_sg r x) \<and> sg_waitlink (rt_sg r x) = None \<and>
     rt_waiting r g = Some x \<and>
     (if x \<in> queued a
      then x \<in> set (dirq a d) \<and> rt_param r g = None \<and> g \<notin> set (rt_ready r) \<and> sg_elem (rt_sg r x) \<noteq> None
      else sg_elem (rt_sg r x) = None \<and> sg_next (rt_sg r x) = None \<and> sg_prev (rt_sg r x) = None \<and>
           g \<in> set (rt_ready r) \<and> (rt_param r g = Some x \<or> rt_param r g = None \<and> a_closed a))"

definition waiters_ok :: "'v rt \<Rightarrow> 'v achan \<Rightarrow> (gid \<Rightarrow> (dir \<times> sgid) option) \<Rightarrow> bool" where
  "waiters_ok r a w \<longleftrightarrow>
     (\<forall>g d x. w g = Some (d, x) \<longrightarrow> waiter r a g d x) \<and>
     (\<forall>x\<in>queued a. \<exists>d. w (sg_g (rt_sg r x)) = Some (d, x)) \<and>
     distinct (rt_ready r) \<and> (\<forall>g\<in>set (rt_ready r). w g \<noteq> None)"

definition stream_ok :: "'v rt \<Rightarrow> 'v achan \<Rightarrow> 'v list \<Rightarrow> 'v list \<Rightarrow> bool" where
  "stream_ok r a sent got \<longleftrightarrow>
     (\<exists>rest. sent = got @ a_vals a @ rest \<and> (\<not> a_closed a \<longrightarrow> rest = map (pend_of r) (a_ss a)))"

definition csys_inv :: "chid \<Rightarrow> 'v csys \<Rightarrow> bool" where
  "csys_inv c s \<longleftrightarrow>
     (\<exists>a. chan_abs (cs_rt s) c a \<and> waiters_ok (cs_rt s) a (cs_wait s) \<and>
          stream_ok (cs_rt s) a (cs_sent s) (cs_got s))"

lemma waiters_queued:
  assumes "waiters_ok r a w" and "x \<in> queued a"
  obtains d where "w (sg_g (rt_sg r x)) = Some (d, x)" and "waiter r a (sg_g (rt_sg r x)) d x"
  using assms by (auto simp: waiters_ok_def)

lemma waiters_plain: "waiters_ok r a w \<Longrightarrow> x \<in> queued a \<Longrightarrow> \<not> sg_isSelect (rt_sg r x) \<and> \<not> stale_of r x"
  by (erule (1) waiters_queued) (simp add: waiter_def stale_of_def sg_stale_def)

lemma dropWhile_none: "(\<And>x. x \<in> set xs \<Longrightarrow> \<not> P x) \<Longrightarrow> dropWhile P xs = xs"
  by (cases xs) auto

lemma waiters_dropWhile:
  "waiters_ok r a w \<Longrightarrow> dropWhile (stale_of r) (a_ss a) = a_ss a"
  "waiters_ok r a w \<Longrightarrow> dropWhile (stale_of r) (a_rs a) = a_rs a"
  by (intro dropWhile_none; auto dest!: waiters_plain simp: queued_def)+

text \<open>Sending and receiving when no entry is stale.\<close>

lemma a_send_plain:
  "waiters_ok r a w \<Longrightarrow> a_send (stale_of r) a x v block =
     (if a_closed a then (a, SClosed) else case a_rs a of
        y # ys \<Rightarrow> (a\<lparr>a_rs := ys\<rparr>, SHandoff y)
      | [] \<Rightarrow> if length (a_vals a) < a_cap a then (a\<lparr>a_rs := [], a_vals := a_vals a @ [v]\<rparr>, SBuffered)
              else if block then (a\<lparr>a_rs := [], a_ss := a_ss a @ [x]\<rparr>, SWait)
              else (a\<lparr>a_rs := []\<rparr>, SFull))"
  by (simp only: a_send_def waiters_dropWhile)

lemma a_recv_plain:
  "waiters_ok r a w \<Longrightarrow> a_recv (stale_of r) pend a x block =
     (if a_closed a \<and> a_vals a = [] then (a, RClosed)
      else case a_ss a of
          y # ys \<Rightarrow>
            (case a_vals a of
               [] \<Rightarrow> (a\<lparr>a_ss := ys\<rparr>, RGot (pend y) (Some y))
             | v # vs \<Rightarrow> (a\<lparr>a_ss := ys, a_vals := vs @ [pend y]\<rparr>, RGot v (Some y)))
        | [] \<Rightarrow>
            (case a_vals a of
               v # vs \<Rightarrow> (a\<lparr>a_ss := [], a_vals := vs\<rparr>, RGot v None)
             | [] \<Rightarrow>
                 if block then (a\<lparr>a_ss := [], a_rs := a_rs a @ [x]\<rparr>, RWait)
                 else (a\<lparr>a_ss := []\<rparr>, REmpty)))"
  by (simp only: a_recv_def waiters_dropWhile)

lemma unused_not_queued: "waiters_ok r a w \<Longrightarrow> (\<forall>g d. w g \<noteq> Some (d, x)) \<Longrightarrow> x \<notin> queued a"
  by (auto simp: waiters_ok_def)

section \<open>The start\<close>

lemma makechan_abs:
  assumes "makechan e n = Ret (rt_chan r c)"
  shows "chan_abs r c \<lparr>a_vals = [], a_cap = unat n, a_closed = False, a_ss = [], a_rs = []\<rparr>"
proof -
  have "rt_chan r c = \<lparr>qcount = 0, dataqsiz = unat n, buf = replicate (unat n) (et_zero e), closed = 0,
      elemtype = e, sendx = 0, recvx = 0, recvq = empty_waitq, sendq = empty_waitq\<rparr>"
    using assms by (auto simp: makechan_def split: if_splits prod.splits)
  then show ?thesis
    by (simp add: chan_abs_def buf_wf_def chan_vals_def a_excl_def)
qed

lemma csys_init_inv:
  assumes "csys_init c s"
  shows "csys_inv c s"
proof -
  obtain e n where "makechan e n = Ret (rt_chan (cs_rt s) c)"
    using assms by (auto simp: csys_init_def)
  note makechan_abs [OF this]
  moreover have "waiters_ok (cs_rt s) \<lparr>a_vals = [], a_cap = unat n, a_closed = False, a_ss = [], a_rs = []\<rparr> (cs_wait s)"
    and "stream_ok (cs_rt s) \<lparr>a_vals = [], a_cap = unat n, a_closed = False, a_ss = [], a_rs = []\<rparr> (cs_sent s) (cs_got s)"
    using assms by (simp_all add: csys_init_def waiters_ok_def stream_ok_def queued_def)
  ultimately show ?thesis unfolding csys_inv_def by blast
qed

section \<open>What the kinds of steps do to the waiters\<close>

lemma queued_dirq: "x \<in> queued a \<longleftrightarrow> (\<exists>d. x \<in> set (dirq a d))"
proof
  assume "x \<in> queued a"
  then have "x \<in> set (dirq a Snd) \<or> x \<in> set (dirq a Rcv)" by (simp add: queued_def dirq_def)
  then show "\<exists>d. x \<in> set (dirq a d)" by blast
next
  assume "\<exists>d. x \<in> set (dirq a d)"
  then obtain d where "x \<in> set (dirq a d)" ..
  then show "x \<in> queued a" by (cases d) (auto simp: queued_def dirq_def)
qed

lemma dirq_cong: "a_ss a' = a_ss a \<Longrightarrow> a_rs a' = a_rs a \<Longrightarrow> dirq a' = dirq a"
  by (simp add: dirq_def fun_eq_iff split: dir.split)

lemma waiter_mono:
  assumes "waiter r a g d x" and "payload (rt_sg r' x) = payload (rt_sg r x)"
    and "rt_param r' g = rt_param r g" and "rt_waiting r' g = rt_waiting r g"
    and "g \<in> set (rt_ready r') \<longleftrightarrow> g \<in> set (rt_ready r)"
    and "x \<in> queued a' \<longleftrightarrow> x \<in> queued a" and "x \<in> set (dirq a d) \<Longrightarrow> x \<in> set (dirq a' d)"
    and "a_closed a \<Longrightarrow> a_closed a'" and "x \<notin> queued a \<Longrightarrow> rt_sg r' x = rt_sg r x"
  shows "waiter r' a' g d x"
  using assms by (auto simp: waiter_def payload_def)

lemma waiters_okI:
  assumes "\<And>g d x. w g = Some (d, x) \<Longrightarrow> waiter r a g d x"
    and "\<And>x. x \<in> queued a \<Longrightarrow> \<exists>d. w (sg_g (rt_sg r x)) = Some (d, x)"
    and "distinct (rt_ready r)" and "\<And>g. g \<in> set (rt_ready r) \<Longrightarrow> w g \<noteq> None"
  shows "waiters_ok r a w"
  using assms by (simp add: waiters_ok_def)

lemma waiters_okD: "waiters_ok r a w \<Longrightarrow> w g = Some (d, x) \<Longrightarrow> waiter r a g d x"
  by (simp add: waiters_ok_def)

lemma waiters_ready: "waiters_ok r a w \<Longrightarrow> distinct (rt_ready r) \<and> (\<forall>g\<in>set (rt_ready r). w g \<noteq> None)"
  by (simp add: waiters_ok_def)

lemma payload_g: "payload s = payload t \<Longrightarrow> sg_g s = sg_g t"
  by (simp add: payload_def)

lemma waiters_quiet:
  assumes ok: "waiters_ok r a w" and e: "op_effect r Q g x None [] m r'" and Q: "Q = queued a"
    and a': "dirq a' = dirq a" "a_closed a \<Longrightarrow> a_closed a'"
  shows "waiters_ok r' a' w"
proof (rule waiters_okI)
  have q: "queued a' = queued a" using a'(1) by (auto simp: queued_dirq)
  have pay: "payload (rt_sg r' y) = payload (rt_sg r y)" for y using e by (simp add: op_effect_def)
  { fix h d y assume "w h = Some (d, y)"
    with ok have "waiter r a h d y" by (rule waiters_okD)
    then show "waiter r' a' h d y"
      by (rule waiter_mono) (use e a' Q q pay in \<open>auto simp: op_effect_def\<close>) }
  { fix y assume "y \<in> queued a'"
    with q ok obtain d where "w (sg_g (rt_sg r y)) = Some (d, y)" by (auto elim: waiters_queued)
    then show "\<exists>d. w (sg_g (rt_sg r' y)) = Some (d, y)" using payload_g [OF pay] by auto }
qed (use waiters_ready [OF ok] e in \<open>auto simp: op_effect_def\<close>)

lemma waiters_wake:
  assumes ok: "waiters_ok r a w" and e: "op_effect r Q g x None [y] m r'" and Q: "Q = queued a"
    and y: "y \<in> queued a" and q: "queued a' = queued a - {y}"
    and a': "\<And>d z. z \<in> set (dirq a d) \<Longrightarrow> z \<noteq> y \<Longrightarrow> z \<in> set (dirq a' d)" "a_closed a' = a_closed a"
  shows "waiters_ok r' a' w"
proof (rule waiters_okI)
  obtain d0 where d0: "w (sg_g (rt_sg r y)) = Some (d0, y)" and wy: "waiter r a (sg_g (rt_sg r y)) d0 y"
    using ok y by (rule waiters_queued)
  define gy where "gy = sg_g (rt_sg r y)"
  have nr: "gy \<notin> set (rt_ready r)" using wy y by (simp add: waiter_def gy_def)
  have pay: "payload (rt_sg r' z) = payload (rt_sg r z)" if "z \<noteq> y" for z
    using e that by (simp add: op_effect_def)
  have "payload (rt_sg r' y) = payload ((rt_sg r y)\<lparr>sg_elem := None\<rparr>)" using e by (simp add: op_effect_def)
  note py = this [unfolded payload_def, simplified]
  have g: "sg_g (rt_sg r' z) = sg_g (rt_sg r z)" for z
    using py payload_g [OF pay] by (cases "z = y") auto
  { fix h d z assume hz: "w h = Some (d, z)"
    with ok have wz: "waiter r a h d z" by (rule waiters_okD)
    show "waiter r' a' h d z"
    proof (cases "z = y")
      case True
      then have "h = gy" using wz by (simp add: waiter_def gy_def)
      with True wz e q py show ?thesis by (auto simp: waiter_def op_effect_def gy_def)
    next
      case False
      then have hg: "h \<noteq> gy" using hz d0 by (auto simp: gy_def)
      from wz show ?thesis
        by (rule waiter_mono)
          (use e a' q Q False hg pay [OF False] in \<open>auto simp: op_effect_def gy_def\<close>)
    qed }
  { fix z assume "z \<in> queued a'"
    with q ok obtain d where "w (sg_g (rt_sg r z)) = Some (d, z)" by (auto elim: waiters_queued)
    then show "\<exists>d. w (sg_g (rt_sg r' z)) = Some (d, z)" using g by auto }
  show "distinct (rt_ready r')"
    using waiters_ready [OF ok] e nr by (auto simp: op_effect_def gy_def)
  show "w h \<noteq> None" if "h \<in> set (rt_ready r')" for h
    using that waiters_ready [OF ok] e d0 by (auto simp: op_effect_def)
qed

lemma waiters_park:
  assumes ok: "waiters_ok r a w" and e: "op_effect r Q g x (Some (g, Some p, False, None, cc)) [] m r'"
    and Q: "Q = queued a" and w: "w g = None" and x: "\<forall>g d. w g \<noteq> Some (d, x)"
    and q: "queued a' = insert x (queued a)"
    and a': "x \<in> set (dirq a' d0)" "\<And>d z. z \<in> set (dirq a d) \<Longrightarrow> z \<in> set (dirq a' d)" "a_closed a' = a_closed a"
  shows "waiters_ok r' a' (w(g := Some (d0, x)))"
proof (rule waiters_okI)
  have nr: "g \<notin> set (rt_ready r)" using waiters_ready [OF ok] w by auto
  have "payload (rt_sg r' x) = (g, Some p, False, None, cc)" using e by (simp add: op_effect_def)
  note px = this [unfolded payload_def, simplified]
  have pay: "payload (rt_sg r' z) = payload (rt_sg r z)" if "z \<noteq> x" for z
    using e that by (simp add: op_effect_def)
  { fix h d z assume hz: "(w(g := Some (d0, x))) h = Some (d, z)"
    show "waiter r' a' h d z"
    proof (cases "h = g")
      case True
      with hz have "z = x" "d = d0" by auto
      with True e q nr a' px show ?thesis by (auto simp: waiter_def op_effect_def)
    next
      case False
      with hz have hz': "w h = Some (d, z)" by simp
      with x have zx: "z \<noteq> x" by auto
      from ok hz' have "waiter r a h d z" by (rule waiters_okD)
      then show ?thesis
        by (rule waiter_mono)
          (use e a' q Q False zx pay [OF zx] in \<open>auto simp: op_effect_def\<close>)
    qed }
  { fix z assume z: "z \<in> queued a'"
    show "\<exists>d. (w(g := Some (d0, x))) (sg_g (rt_sg r' z)) = Some (d, z)"
    proof (cases "z = x")
      case True
      then show ?thesis using px by auto
    next
      case False
      with z q ok obtain d where d: "w (sg_g (rt_sg r z)) = Some (d, z)" by (auto elim: waiters_queued)
      with w have "sg_g (rt_sg r z) \<noteq> g" by auto
      with d show ?thesis using payload_g [OF pay [OF False]] by auto
    qed }
  show "distinct (rt_ready r')" using waiters_ready [OF ok] e by (auto simp: op_effect_def)
  show "(w(g := Some (d0, x))) h \<noteq> None" if "h \<in> set (rt_ready r')" for h
    using that waiters_ready [OF ok] e by (auto simp: op_effect_def)
qed

text \<open>A send, on the abstract side, with no stale entries in the queues.\<close>

lemma send_waiters:
  assumes ok: "waiters_ok r a w" and ex: "a_excl a" and dj: "distinct (a_rs a)"
    and w: "w g = None" and x: "\<forall>g d. w g \<noteq> Some (d, x)"
    and out: "a_send (stale_of r) a x v block = (a', out)"
    and e: "op_effect r (set (a_ss a) \<union> set (a_rs a)) g x (send_payload g ep c out) (send_woken out) m r'"
  shows "waiters_ok r' a' (if out = SWait then w(g := Some (Snd, x)) else w)"
proof -
  have Q: "set (a_ss a) \<union> set (a_rs a) = queued a" by (simp add: queued_def)
  note out' = out [unfolded a_send_plain [OF ok]]
  have quiet: "waiters_ok r' a' w" if "send_payload g ep c out = None" "send_woken out = []"
    "dirq a' = dirq a" "a_closed a' = a_closed a"
    using e that by (intro waiters_quiet [OF ok _ Q]) auto
  show ?thesis
  proof (cases out)
    case (SHandoff y)
    then obtain ys where "a_rs a = y # ys" "a' = a\<lparr>a_rs := ys\<rparr>" "a_ss a = []"
      using out' ex by (auto simp: a_excl_def split: if_splits list.splits)
    with SHandoff e dj show ?thesis
      by (simp add: send_payload_def)
        (rule waiters_wake [OF ok _ Q]; auto simp: queued_def dirq_def split: dir.splits)
  next
    case SWait
    then have "a_rs a = []" "a' = a\<lparr>a_rs := [], a_ss := a_ss a @ [x]\<rparr>"
      using out' by (auto split: if_splits list.splits)
    with SWait e show ?thesis
      by (simp add: send_payload_def)
        (rule waiters_park [OF ok _ Q w x]; auto simp: queued_def dirq_def split: dir.splits)
  next
    case SClosed
    with out' have "a' = a" by (auto split: if_splits list.splits)
    with SClosed quiet show ?thesis by (simp add: send_payload_def)
  next
    case SBuffered
    with out' have "a_rs a = []" "a' = a\<lparr>a_rs := [], a_vals := a_vals a @ [v]\<rparr>"
      by (auto split: if_splits list.splits)
    with SBuffered quiet dirq_cong [of a' a] show ?thesis by (simp add: send_payload_def)
  next
    case SFull
    with out' have "a_rs a = []" "a' = a\<lparr>a_rs := []\<rparr>" by (auto split: if_splits list.splits)
    with SFull quiet dirq_cong [of a' a] show ?thesis by (simp add: send_payload_def)
  qed
qed

lemma recv_waiters:
  assumes ok: "waiters_ok r a w" and ex: "a_excl a" and dj: "distinct (a_ss a)"
    and w: "w g = None" and x: "\<forall>g d. w g \<noteq> Some (d, x)"
    and out: "a_recv (stale_of r) pend a x block = (a', out)"
    and e: "op_effect r (set (a_ss a) \<union> set (a_rs a)) g x (recv_payload g (Some p) c out) (recv_woken out) m r'"
  shows "waiters_ok r' a' (if out = RWait then w(g := Some (Rcv, x)) else w)"
proof -
  have Q: "set (a_ss a) \<union> set (a_rs a) = queued a" by (simp add: queued_def)
  note out' = out [unfolded a_recv_plain [OF ok]]
  have quiet: "waiters_ok r' a' w" if "recv_payload g (Some p) c out = None" "recv_woken out = []"
    "dirq a' = dirq a" "a_closed a' = a_closed a"
    using e that by (intro waiters_quiet [OF ok _ Q]) auto
  show ?thesis
  proof (cases out)
    case (RGot v yo)
    show ?thesis
    proof (cases yo)
      case None
      with RGot out' have "a_ss a = []" "a_ss a' = []" "a_rs a' = a_rs a" "a_closed a' = a_closed a"
        by (auto split: if_splits list.splits)
      with RGot None quiet dirq_cong [of a' a] show ?thesis by (simp add: recv_payload_def)
    next
      case (Some y)
      with RGot obtain ys where "a_ss a = y # ys" "a_ss a' = ys" "a_rs a' = a_rs a" "a_rs a = []"
        "a_closed a' = a_closed a"
        using out' ex by (auto simp: a_excl_def split: if_splits list.splits)
      with RGot Some e dj show ?thesis
        by (simp add: recv_payload_def)
          (rule waiters_wake [OF ok _ Q]; auto simp: queued_def dirq_def split: dir.splits)
    qed
  next
    case RWait
    then have "a_ss a = []" "a' = a\<lparr>a_ss := [], a_rs := a_rs a @ [x]\<rparr>"
      using out' by (auto split: if_splits list.splits)
    with RWait e show ?thesis
      by (simp add: recv_payload_def)
        (rule waiters_park [OF ok _ Q w x]; auto simp: queued_def dirq_def split: dir.splits)
  next
    case RClosed
    with out' have "a' = a" by (auto split: if_splits list.splits)
    with RClosed quiet show ?thesis by (simp add: recv_payload_def)
  next
    case REmpty
    with out' have "a_ss a = []" "a' = a\<lparr>a_ss := []\<rparr>" by (auto split: if_splits list.splits)
    with REmpty quiet dirq_cong [of a' a] show ?thesis by (simp add: recv_payload_def)
  qed
qed

section \<open>What the kinds of steps do to the stream of values\<close>

lemma pend_of_cong:
  "payload (rt_sg r' y) = payload (rt_sg r y) \<Longrightarrow>
   rt_mem r' (the (sg_elem (rt_sg r y))) = rt_mem r (the (sg_elem (rt_sg r y))) \<Longrightarrow> pend_of r' y = pend_of r y"
  by (simp add: pend_of_def payload_def)

lemma send_stream:
  assumes ok: "waiters_ok r a w" and ex: "a_excl a" and x: "x \<notin> queued a"
    and out: "a_send (stale_of r) a x (rt_mem r ep) block = (a', out)"
    and e: "op_effect r (set (a_ss a) \<union> set (a_rs a)) g x (send_payload g ep c out) (send_woken out)
      (send_mem r ep out) r'"
    and st: "stream_ok r a sent got"
  shows "stream_ok r' a' (if out \<in> {SClosed, SFull} then sent else sent @ [rt_mem r ep])
    (if send_woken out = [] then got else got @ [rt_mem r ep])"
proof -
  obtain rest where s: "sent = got @ a_vals a @ rest" "\<not> a_closed a \<longrightarrow> rest = map (pend_of r) (a_ss a)"
    using st by (auto simp: stream_ok_def)
  note out' = out [unfolded a_send_plain [OF ok]]
  show ?thesis
  proof (cases out)
    case SClosed
    with out' have "a_closed a" "a' = a" by (auto split: if_splits list.splits)
    with SClosed s show ?thesis by (simp add: stream_ok_def)
  next
    case (SHandoff y)
    with out' ex have "a_vals a = []" "a_ss a = []" "\<not> a_closed a" "a_ss a' = []" "a_vals a' = []"
      by (auto simp: a_excl_def split: if_splits list.splits)
    with SHandoff s show ?thesis by (simp add: stream_ok_def)
  next
    case SBuffered
    with out' ex have "a_ss a = []" "\<not> a_closed a" "a_ss a' = []" "a_vals a' = a_vals a @ [rt_mem r ep]"
      by (auto simp: a_excl_def split: if_splits list.splits)
    with SBuffered s show ?thesis by (simp add: stream_ok_def)
  next
    case SFull
    then have a': "a_ss a' = a_ss a" "a_vals a' = a_vals a" "a_closed a' = a_closed a"
      using out' by (auto split: if_splits list.splits)
    have "pend_of r' y = pend_of r y" for y
      using e SFull by (intro pend_of_cong) (auto simp: op_effect_def send_payload_def send_mem_def)
    with SFull s a' show ?thesis by (simp add: stream_ok_def)
  next
    case SWait
    then have a': "a_ss a' = a_ss a @ [x]" "a_vals a' = a_vals a" "\<not> a_closed a" "\<not> a_closed a'"
      using out' by (auto split: if_splits list.splits)
    have "pend_of r' y = pend_of r y" if "y \<in> set (a_ss a)" for y
      using that x e SWait by (intro pend_of_cong) (auto simp: op_effect_def send_payload_def send_mem_def queued_def)
    moreover have "payload (rt_sg r' x) = (g, Some ep, False, None, Some c)" "rt_mem r' = rt_mem r"
      using e SWait by (auto simp: op_effect_def send_payload_def send_mem_def)
    then have "pend_of r' x = rt_mem r ep"
      by (simp add: pend_of_def payload_def)
    ultimately show ?thesis using SWait s a' by (simp add: stream_ok_def)
  qed
qed

lemma recv_stream:
  assumes ok: "waiters_ok r a w" and ex: "a_excl a" and dj: "distinct (a_ss a)" and x: "x \<notin> queued a"
    and p: "\<forall>y\<in>set (a_ss a). sg_elem (rt_sg r y) \<noteq> Some p \<and> sg_elem (rt_sg r y) \<noteq> None"
    and out: "a_recv (stale_of r) (pend_of r) a x block = (a', out)"
    and e: "op_effect r (set (a_ss a) \<union> set (a_rs a)) g x (recv_payload g (Some p) c out) (recv_woken out)
      (recv_mem r c (Some p) out) r'"
    and st: "stream_ok r a sent got"
  shows "stream_ok r' a' sent (case out of RGot v y \<Rightarrow> got @ [rt_mem r' p] | _ \<Rightarrow> got)"
proof -
  obtain rest where s: "sent = got @ a_vals a @ rest" "\<not> a_closed a \<longrightarrow> rest = map (pend_of r) (a_ss a)"
    using st by (auto simp: stream_ok_def)
  note out' = out [unfolded a_recv_plain [OF ok]]
  have mem: "rt_mem r' (the (sg_elem (rt_sg r y))) = rt_mem r (the (sg_elem (rt_sg r y)))" if "y \<in> set (a_ss a)" for y
    using e p that mem_store_other [of "sg_elem (rt_sg r y)" "Some p"]
    by (auto simp: op_effect_def recv_mem_def split: option.split)
  show ?thesis
  proof (cases out)
    case RClosed
    with out' have "a' = a" "a_closed a" by (auto split: if_splits list.splits)
    with RClosed s show ?thesis by (simp add: stream_ok_def)
  next
    case (RGot v yo)
    have v: "rt_mem r' p = v"
      using e RGot by (auto simp: op_effect_def recv_mem_def mem_store_def)
    show ?thesis
    proof (cases yo)
      case None
      with RGot out' have "a_ss a = []" "a_vals a = v # a_vals a'" "a_ss a' = []" "a_closed a' = a_closed a"
        by (auto split: if_splits list.splits)
      with RGot s v show ?thesis by (simp add: stream_ok_def)
    next
      case (Some y)
      with RGot out' obtain ys where ys: "a_ss a = y # ys" "a_ss a' = ys" "a_closed a' = a_closed a"
        "v # a_vals a' = a_vals a @ [pend_of r y]"
        by (auto split: if_splits list.splits)
      have "\<not> a_closed a" using ex ys by (auto simp: a_excl_def)
      moreover have "pend_of r' z = pend_of r z" if "z \<in> set ys" for z
        using that ys dj e RGot Some mem by (intro pend_of_cong) (auto simp: op_effect_def recv_payload_def)
      then have mp: "map (pend_of r') ys = map (pend_of r) ys" by simp
      have "v # a_vals a' @ zs = a_vals a @ pend_of r y # zs" for zs
        using arg_cong [OF ys(4), of "\<lambda>l. l @ zs"] by simp
      ultimately show ?thesis using RGot s v ys by (simp add: stream_ok_def mp)
    qed
  next
    case REmpty
    with out' have "a_ss a = []" "a' = a" by (auto split: if_splits list.splits)
    with REmpty s show ?thesis by (simp add: stream_ok_def)
  next
    case RWait
    with out' have "a_ss a = []" "a_ss a' = []" "a_vals a' = a_vals a" "a_closed a' = a_closed a"
      by (auto split: if_splits list.splits)
    with RWait s show ?thesis by (simp add: stream_ok_def)
  qed
qed

section \<open>Closing and waking\<close>

lemma waiters_live:
  assumes ok: "waiters_ok r a w"
  shows "closing r a = a_rs a @ a_ss a"
  unfolding closing_def
  using waiters_plain [OF ok, unfolded queued_def] by (intro arg_cong2 [where f = append] live_plain) auto

lemma waiters_distinct_g:
  assumes ok: "waiters_ok r a w" and "distinct xs" and "set xs \<subseteq> queued a"
  shows "distinct (map (\<lambda>y. sg_g (rt_sg r y)) xs)"
proof -
  have "inj_on (\<lambda>y. sg_g (rt_sg r y)) (queued a)"
  proof (rule inj_onI)
    fix y z assume "y \<in> queued a" "z \<in> queued a" and eq: "sg_g (rt_sg r y) = sg_g (rt_sg r z)"
    obtain d where 1: "w (sg_g (rt_sg r y)) = Some (d, y)" using ok \<open>y \<in> queued a\<close> by (rule waiters_queued)
    obtain e where 2: "w (sg_g (rt_sg r z)) = Some (e, z)" using ok \<open>z \<in> queued a\<close> by (rule waiters_queued)
    have "Some (d, y) = Some (e, z)" using 1 2 unfolding eq by (rule trans [OF sym])
    then show "y = z" by simp
  qed
  then have "inj_on (\<lambda>y. sg_g (rt_sg r y)) (set xs)" using assms(3) by (rule inj_on_subset)
  with assms(2) show ?thesis by (simp add: distinct_map)
qed

lemma fold_param_None:
  "fold (\<lambda>y f. f(g y := None)) L p h = (if h \<in> g ` set L then None else p h)"
  by (induction L arbitrary: p) auto

lemma close_waiters:
  assumes ok: "waiters_ok r a w" and abs: "chan_abs r c a" and op: "\<not> a_closed a"
    and e: "close_effect (upd_chan c (\<lambda>h. h\<lparr>closed := 1\<rparr>) r) c (a_rs a @ a_ss a) (closing r a) m
      (r'\<lparr>rt_ready := rt_ready r\<rparr>)"
    and rd: "rt_ready r' = rt_ready r @ rev (map (\<lambda>y. sg_g (rt_sg r y)) (closing r a))"
  shows "waiters_ok r' (a\<lparr>a_closed := True, a_ss := [], a_rs := []\<rparr>) w"
proof (rule waiters_okI)
  define L where "L = closing r a"
  have L: "set L = queued a" "distinct L"
    using waiters_live [OF ok] abs by (auto simp: L_def queued_def chan_abs_def wq_repr_def a_excl_def)
  have e': "rt_waiting r' = rt_waiting r"
    "rt_param r' = fold (\<lambda>y f. f(sg_g (rt_sg r y) := None)) L (rt_param r)"
    "\<And>y. payload (rt_sg r' y) = payload (if y \<in> queued a then (rt_sg r y)\<lparr>sg_elem := None\<rparr> else rt_sg r y)"
    "\<And>y. y \<notin> queued a \<Longrightarrow> rt_sg r' y = rt_sg r y"
    "\<And>y. y \<in> queued a \<Longrightarrow> sg_next (rt_sg r' y) = None \<and> sg_prev (rt_sg r' y) = None"
    using e L by (auto simp: close_effect_def upd_chan_def L_def [symmetric] queued_def)
  have rd': "rt_ready r' = rt_ready r @ rev (map (\<lambda>y. sg_g (rt_sg r y)) L)" using rd by (simp add: L_def)
  { fix g d x assume "w g = Some (d, x)"
    with ok have wx: "waiter r a g d x" by (rule waiters_okD)
    show "waiter r' (a\<lparr>a_closed := True, a_ss := [], a_rs := []\<rparr>) g d x"
    proof (cases "x \<in> queued a")
      case True
      note px = e'(3) [of x, unfolded payload_def, simplified True, simplified]
      from True L wx have "g \<in> (\<lambda>y. sg_g (rt_sg r y)) ` set L" by (auto simp: waiter_def)
      with True wx px e'(1,2) e'(5) [of x] rd' L show ?thesis
        by (auto simp: waiter_def queued_def fold_param_None)
    next
      case False
      have "g \<notin> (\<lambda>y. sg_g (rt_sg r y)) ` set L"
      proof
        assume "g \<in> (\<lambda>y. sg_g (rt_sg r y)) ` set L"
        then obtain y where y: "y \<in> queued a" "sg_g (rt_sg r y) = g" using L by auto
        obtain e where "w (sg_g (rt_sg r y)) = Some (e, y)" using ok y(1) by (rule waiters_queued)
        with y \<open>w g = Some (d, x)\<close> False show False by simp
      qed
      with False wx e'(1,2) e'(4) [of x] rd' show ?thesis
        by (auto simp: waiter_def queued_def fold_param_None)
    qed }
  show "distinct (rt_ready r')"
  proof -
    have "g \<notin> set (rt_ready r)" if y: "y \<in> queued a" and g: "g = sg_g (rt_sg r y)" for y g
      by (rule waiters_queued [OF ok y]) (use y g in \<open>simp add: waiter_def\<close>)
    then show ?thesis
      using waiters_ready [OF ok] waiters_distinct_g [OF ok L(2)] L rd' by auto
  qed
  show "w g \<noteq> None" if g: "g \<in> set (rt_ready r')" for g
  proof (cases "g \<in> set (rt_ready r)")
    case True
    then show ?thesis using waiters_ready [OF ok] by auto
  next
    case False
    with g rd' L obtain y where y: "y \<in> queued a" "g = sg_g (rt_sg r y)" by auto
    obtain e where "w (sg_g (rt_sg r y)) = Some (e, y)" using ok y(1) by (rule waiters_queued)
    with y show ?thesis by simp
  qed
qed (simp add: queued_def)

text \<open>A woken goroutine leaves: it touches its own fields and the \<open>c\<close> of its sudog only.\<close>

definition leaves :: "'v rt \<Rightarrow> gid \<Rightarrow> sgid \<Rightarrow> 'v rt \<Rightarrow> bool" where
  "leaves r g x r' \<longleftrightarrow>
     rt_chan r' = rt_chan r \<and> rt_mem r' = rt_mem r \<and> rt_ready r' = rt_ready r \<and>
     (\<forall>h. h \<noteq> g \<longrightarrow> rt_param r' h = rt_param r h \<and> rt_waiting r' h = rt_waiting r h) \<and>
     (\<exists>v. rt_sg r' = (rt_sg r)(x := (rt_sg r x)\<lparr>sg_c := v\<rparr>))"

lemma leaves_waiters:
  assumes ok: "waiters_ok r a w" and g: "w g = Some (d, x)" and rdy: "g \<in> set (rt_ready r)"
    and l: "leaves r g x r'"
  shows "waiters_ok (r'\<lparr>rt_ready := remove1 g (rt_ready r')\<rparr>) a (w(g := None))"
proof (rule waiters_okI)
  let ?r = "r'\<lparr>rt_ready := remove1 g (rt_ready r')\<rparr>"
  have wx: "waiter r a g d x" using ok g by (rule waiters_okD)
  then have xq: "x \<notin> queued a" using rdy by (auto simp: waiter_def)
  { fix h e z assume "(w(g := None)) h = Some (e, z)"
    then have h: "h \<noteq> g" "w h = Some (e, z)" by (auto split: if_splits)
    from ok h(2) have wz: "waiter r a h e z" by (rule waiters_okD)
    then have "z \<noteq> x" using wx h by (auto simp: waiter_def)
    then have z: "rt_sg ?r z = rt_sg r z" using l by (auto simp: leaves_def)
    from wz show "waiter ?r a h e z"
      by (rule waiter_mono) (use l h z in \<open>auto simp: leaves_def\<close>) }
  { fix z assume z: "z \<in> queued a"
    with xq have "rt_sg ?r z = rt_sg r z" using l z by (auto simp: leaves_def)
    moreover obtain e where e: "w (sg_g (rt_sg r z)) = Some (e, z)" using ok z by (rule waiters_queued)
    moreover have "sg_g (rt_sg r z) \<noteq> g" using e g xq z by auto
    ultimately show "\<exists>d. (w(g := None)) (sg_g (rt_sg ?r z)) = Some (d, z)" by auto }
qed (use waiters_ready [OF ok] l in \<open>auto simp: leaves_def\<close>)

lemma leaves_abs:
  assumes abs: "chan_abs r c a" and l: "leaves r g x r'"
  shows "chan_abs (r'\<lparr>rt_ready := gs\<rparr>) c a"
proof -
  have "sg_next (rt_sg r' y) = sg_next (rt_sg r y) \<and> sg_prev (rt_sg r' y) = sg_prev (rt_sg r y) \<and>
      sg_elem (rt_sg r' y) = sg_elem (rt_sg r y)" for y
    using l by (auto simp: leaves_def)
  then show ?thesis
    using abs l by (subst chan_abs_cong [where ?r1.0 = r]) (auto simp: leaves_def)
qed

lemma chansend_wake_spec:
  assumes w: "waiter r a g d x" and g: "g \<in> set (rt_ready r)" and abs: "chan_abs r c a"
  shows "\<exists>r'. leaves r g x r' \<and>
    (chansend_wake r c g x = (r', Done True) \<and> rt_param r g = Some x \<or>
     chansend_wake r c g x = (r', Panicked ''send on closed channel'') \<and> rt_param r g = None \<and> a_closed a)"
proof (cases "rt_param r g")
  case None
  with w g abs show ?thesis
    by (auto simp: chansend_wake_def waiter_def leaves_def set_waiting_def Let_def chan_abs_def
        split: if_splits intro!: exI [where x = "sg_c (rt_sg r x)"])
next
  case (Some y)
  with w g show ?thesis
    by (auto simp: chansend_wake_def waiter_def leaves_def set_waiting_def set_param_def upd_sg_def
        releaseSudog_check_def Let_def split: if_splits)
qed

lemma chanrecv_wake_spec:
  assumes w: "waiter r a g d x" and g: "g \<in> set (rt_ready r)"
  shows "\<exists>r'. leaves r g x r' \<and>
    chanrecv_wake r g x = (r', Done (True, rt_param r g \<noteq> None)) \<and> (rt_param r g = None \<longrightarrow> a_closed a)"
  using w g
  by (auto simp: chanrecv_wake_def waiter_def leaves_def set_waiting_def set_param_def upd_sg_def
      releaseSudog_check_def Let_def split: if_splits)

section \<open>Every step keeps the invariant\<close>

lemma csys_invE:
  assumes "csys_inv c s"
  obtains a where "chan_abs (cs_rt s) c a" "waiters_ok (cs_rt s) a (cs_wait s)"
    "stream_ok (cs_rt s) a (cs_sent s) (cs_got s)"
  using assms by (auto simp: csys_inv_def)

lemma chan_abs_distinct:
  "chan_abs r c a \<Longrightarrow> distinct (a_ss a) \<and> distinct (a_rs a) \<and> a_excl a"
  by (auto simp: chan_abs_def wq_repr_def)

lemma send_step_inv:
  assumes abs: "chan_abs r c a" and ok: "waiters_ok r a w" and st: "stream_ok r a sent got"
    and w: "w g = None" and x: "\<forall>g d. w g \<noteq> Some (d, x)"
    and run: "chansend r (Some c) g x ep block = Some (r', res)"
  obtains a' out where "res = send_result x out" "chan_abs r' c a'"
    "waiters_ok r' a' (if out = SWait then w(g := Some (Snd, x)) else w)"
    "stream_ok r' a' (if out \<in> {SClosed, SFull} then sent else sent @ [rt_mem r ep])
      (if send_woken out = [] then got else got @ [rt_mem r ep])"
    "res = Done True \<longrightarrow> handed r c r' = (if send_woken out = [] then [] else [rt_mem r ep])"
proof -
  have xq: "x \<notin> queued a" by (rule unused_not_queued [OF ok x])
  obtain a' out where out: "a_send (stale_of r) a x (rt_mem r ep) block = (a', out)" by fastforce
  have res: "res = send_result x out" and abs': "chan_abs r' c a'"
    and e: "op_effect r (set (a_ss a) \<union> set (a_rs a)) g x (send_payload g ep c out) (send_woken out)
      (send_mem r ep out) r'"
    using chansend_refine [OF abs _ out, of g] xq run by (auto simp: queued_def)
  note d = chan_abs_distinct [OF abs]
  have "handed r c r' = (if send_woken out = [] then [] else [rt_mem r ep])" if "res = Done True"
  proof (cases out)
    case (SHandoff y)
    then have y: "a_rs a \<noteq> []" "hd (a_rs a) = y"
      using out by (auto simp: a_send_plain [OF ok] split: if_splits list.splits)
    then have "y \<in> queued a" by (auto simp: queued_def)
    then obtain p where "sg_elem (rt_sg r y) = Some p"
      using waiters_queued [OF ok \<open>y \<in> queued a\<close>] by (metis option.exhaust waiter_def)
    with y SHandoff abs e show ?thesis
      by (simp add: handed_def chan_abs_def wq_repr_def op_effect_def send_mem_def mem_store_def)
  next
    case SBuffered
    then have "a_rs a = []"
      using out by (auto simp: a_send_plain [OF ok] split: if_splits list.splits)
    with SBuffered abs show ?thesis by (simp add: handed_def chan_abs_def wq_repr_Nil empty_waitq_def)
  qed (use res that in auto)
  with that [OF res abs'] send_waiters [OF ok _ _ w x out e] send_stream [OF ok _ xq out e st] d
  show ?thesis by blast
qed

lemma recv_step_inv:
  fixes r :: "'v rt"
  assumes abs: "chan_abs r c a" and ok: "waiters_ok r a w" and st: "stream_ok r a sent got"
    and w: "w g = None" and x: "\<forall>g d. w g \<noteq> Some (d, x)"
    and p: "\<forall>g d y. w g = Some (d, y) \<longrightarrow> sg_elem (rt_sg r y) \<noteq> Some p"
    and run: "chanrecv r (Some c) g x (Some p) block = Some (r', res)"
  obtains a' and out :: "'v recv_out" where "res = recv_result x out" "chan_abs r' c a'"
    "waiters_ok r' a' (if out = RWait then w(g := Some (Rcv, x)) else w)"
    "stream_ok r' a' sent (case out of RGot v y \<Rightarrow> got @ [rt_mem r' p] | _ \<Rightarrow> got)"
proof -
  have xq: "x \<notin> queued a" by (rule unused_not_queued [OF ok x])
  obtain a' out where out: "a_recv (stale_of r) (pend_of r) a x block = (a', out)" by fastforce
  have pq: "sg_elem (rt_sg r y) \<noteq> Some p" if y: "y \<in> queued a" for y
    by (rule waiters_queued [OF ok y]) (use p in blast)
  then have res: "res = recv_result x out" and abs': "chan_abs r' c a'"
    and e: "op_effect r (set (a_ss a) \<union> set (a_rs a)) g x (recv_payload g (Some p) c out) (recv_woken out)
      (recv_mem r c (Some p) out) r'"
    using chanrecv_refine [OF abs _ _ out, of "Some p" g] xq run by (auto simp: queued_def)
  note d = chan_abs_distinct [OF abs]
  have "\<forall>y\<in>set (a_ss a). sg_elem (rt_sg r y) \<noteq> Some p \<and> sg_elem (rt_sg r y) \<noteq> None"
    using pq abs by (auto simp: queued_def chan_abs_def)
  from recv_stream [OF ok _ _ xq this out e st] recv_waiters [OF ok _ _ w x out e] d
  show ?thesis using that [OF res abs'] by blast
qed

lemma close_step_inv:
  assumes abs: "chan_abs r c a" and ok: "waiters_ok r a w" and st: "stream_ok r a sent got"
    and run: "closechan r (Some c) = Some (r', res)"
  shows "\<exists>a'. chan_abs r' c a' \<and> waiters_ok r' a' w \<and> stream_ok r' a' sent got"
proof (cases "a_closed a")
  case True
  with abs run have "r' = r" by (auto simp: closechan_def chan_abs_def)
  with assms show ?thesis by blast
next
  case False
  from closechan_refine [OF abs False] run obtain m where
    "chan_abs r' c (a\<lparr>a_closed := True, a_ss := [], a_rs := []\<rparr>)"
    "rt_ready r' = rt_ready r @ rev (map (\<lambda>y. sg_g (rt_sg r y)) (closing r a))"
    "close_effect (upd_chan c (\<lambda>h. h\<lparr>closed := 1\<rparr>) r) c (a_rs a @ a_ss a) (closing r a) m
      (r'\<lparr>rt_ready := rt_ready r\<rparr>)"
    by auto
  moreover have "stream_ok r' (a\<lparr>a_closed := True, a_ss := [], a_rs := []\<rparr>) sent got"
    using st by (auto simp: stream_ok_def)
  ultimately show ?thesis using close_waiters [OF ok abs False] by blast
qed

lemma wake_step_inv:
  assumes abs: "chan_abs r c a" and ok: "waiters_ok r a w" and st: "stream_ok r a sent got"
    and g: "w g = Some (d, x)" "g \<in> set (rt_ready r)" and l: "leaves r g x r'"
  shows "\<exists>a'. chan_abs (r'\<lparr>rt_ready := remove1 g (rt_ready r')\<rparr>) c a' \<and>
    waiters_ok (r'\<lparr>rt_ready := remove1 g (rt_ready r')\<rparr>) a' (w(g := None)) \<and>
    stream_ok (r'\<lparr>rt_ready := remove1 g (rt_ready r')\<rparr>) a' sent got"
proof (intro exI conjI)
  show "chan_abs (r'\<lparr>rt_ready := remove1 g (rt_ready r')\<rparr>) c a" by (rule leaves_abs [OF abs l])
  show "waiters_ok (r'\<lparr>rt_ready := remove1 g (rt_ready r')\<rparr>) a (w(g := None))"
    by (rule leaves_waiters [OF ok g l])
  have "pend_of (r'\<lparr>rt_ready := gs\<rparr>) = pend_of r" for gs
    using l by (auto simp: fun_eq_iff pend_of_def leaves_def)
  then show "stream_ok (r'\<lparr>rt_ready := remove1 g (rt_ready r')\<rparr>) a sent got"
    using st by (simp add: stream_ok_def)
qed

lemma csys_step_inv:
  fixes s :: "'v csys"
  assumes "csys_step c s t" and "csys_inv c s"
  shows "csys_inv c t"
  using assms(2)
proof (rule csys_invE)
  fix a assume abs: "chan_abs (cs_rt s) c a" and ok: "waiters_ok (cs_rt s) a (cs_wait s)"
    and st: "stream_ok (cs_rt s) a (cs_sent s) (cs_got s)"
  note inv = csys_inv_def sg_unused_def cell_unused_def
  show "csys_inv c t"
    using assms(1)
  proof cases
    case (send_done g x ep block r')
    show ?thesis
    proof (rule send_step_inv [OF abs ok st send_done(2) send_done(3) [unfolded inv] send_done(5)])
      fix a' out assume h: "Done True = send_result x out" "chan_abs r' c a'" 
        "waiters_ok r' a' (if out = SWait then (cs_wait s)(g := Some (Snd, x)) else cs_wait s)" 
        "stream_ok r' a' (if out \<in> {SClosed, SFull} then cs_sent s else cs_sent s @ [rt_mem (cs_rt s) ep])
          (if send_woken out = [] then cs_got s else cs_got s @ [rt_mem (cs_rt s) ep])"
        "Done True = Done True \<longrightarrow> handed (cs_rt s) c r' = (if send_woken out = [] then [] else [rt_mem (cs_rt s) ep])"
      show ?thesis
        unfolding send_done(1) csys_inv_def using h send_done by (cases out) (auto intro!: exI [of _ a'])
    qed
  next
    case (send_not g x ep block r' res m)
    show ?thesis
    proof (rule send_step_inv [OF abs ok st send_not(2) send_not(3) [unfolded inv] send_not(5)])
      fix a' out assume h: "res = send_result x out" "chan_abs r' c a'" 
        "waiters_ok r' a' (if out = SWait then (cs_wait s)(g := Some (Snd, x)) else cs_wait s)" 
        "stream_ok r' a' (if out \<in> {SClosed, SFull} then cs_sent s else cs_sent s @ [rt_mem (cs_rt s) ep])
          (if send_woken out = [] then cs_got s else cs_got s @ [rt_mem (cs_rt s) ep])"
        "res = Done True \<longrightarrow> handed (cs_rt s) c r' = (if send_woken out = [] then [] else [rt_mem (cs_rt s) ep])"
      show ?thesis
        unfolding send_not(1) csys_inv_def using h send_not by (cases out) (auto intro!: exI [of _ a'])
    qed
  next
    case (send_block g x ep block r' y)
    show ?thesis
    proof (rule send_step_inv [OF abs ok st send_block(2) send_block(3) [unfolded inv] send_block(5)])
      fix a' out assume h: "Blocked y = send_result x out" "chan_abs r' c a'" 
        "waiters_ok r' a' (if out = SWait then (cs_wait s)(g := Some (Snd, x)) else cs_wait s)" 
        "stream_ok r' a' (if out \<in> {SClosed, SFull} then cs_sent s else cs_sent s @ [rt_mem (cs_rt s) ep])
          (if send_woken out = [] then cs_got s else cs_got s @ [rt_mem (cs_rt s) ep])"
        "Blocked y = Done True \<longrightarrow> handed (cs_rt s) c r' = (if send_woken out = [] then [] else [rt_mem (cs_rt s) ep])"
      show ?thesis
        unfolding send_block(1) csys_inv_def using h send_block by (cases out) (auto intro!: exI [of _ a'])
    qed
  next
    case (recv_done g x p block r')
    show ?thesis
    proof (rule recv_step_inv [OF abs ok st recv_done(2) recv_done(3) [unfolded inv] recv_done(4) [unfolded inv] recv_done(5)])
      fix a' :: "'v achan" and out :: "'v recv_out" assume h: "Done (True, True) = recv_result x out" "chan_abs r' c a'" 
        "waiters_ok r' a' (if out = RWait then (cs_wait s)(g := Some (Rcv, x)) else cs_wait s)" 
        "stream_ok r' a' (cs_sent s) (case out of RGot v y \<Rightarrow> cs_got s @ [rt_mem r' p] | _ \<Rightarrow> cs_got s)"
      show ?thesis
        unfolding recv_done(1) csys_inv_def using h recv_done by (cases out) (auto intro!: exI [of _ a'])
    qed
  next
    case (recv_not g x p block r' b)
    show ?thesis
    proof (rule recv_step_inv [OF abs ok st recv_not(2) recv_not(3) [unfolded inv] recv_not(4) [unfolded inv] recv_not(5)])
      fix a' :: "'v achan" and out :: "'v recv_out" assume h: "Done (b, False) = recv_result x out" "chan_abs r' c a'" 
        "waiters_ok r' a' (if out = RWait then (cs_wait s)(g := Some (Rcv, x)) else cs_wait s)" 
        "stream_ok r' a' (cs_sent s) (case out of RGot v y \<Rightarrow> cs_got s @ [rt_mem r' p] | _ \<Rightarrow> cs_got s)"
      show ?thesis
        unfolding recv_not(1) csys_inv_def using h recv_not by (cases out) (auto intro!: exI [of _ a'])
    qed
  next
    case (recv_block g x p block r' y)
    show ?thesis
    proof (rule recv_step_inv [OF abs ok st recv_block(2) recv_block(3) [unfolded inv] recv_block(4) [unfolded inv] recv_block(5)])
      fix a' :: "'v achan" and out :: "'v recv_out" assume h: "Blocked y = recv_result x out" "chan_abs r' c a'" 
        "waiters_ok r' a' (if out = RWait then (cs_wait s)(g := Some (Rcv, x)) else cs_wait s)" 
        "stream_ok r' a' (cs_sent s) (case out of RGot v y \<Rightarrow> cs_got s @ [rt_mem r' p] | _ \<Rightarrow> cs_got s)"
      show ?thesis
        unfolding recv_block(1) csys_inv_def using h recv_block by (cases out) (auto intro!: exI [of _ a'])
    qed
  next
    case (close r' res)
    with close_step_inv [OF abs ok st] show ?thesis by (auto simp: csys_inv_def)
  next
    case (send_wake g x r' res)
    with chansend_wake_spec [OF waiters_okD [OF ok send_wake(2)] send_wake(3) abs]
    have "leaves (cs_rt s) g x r'" by auto
    with wake_step_inv [OF abs ok st send_wake(2,3)] send_wake(1) show ?thesis
      by (simp add: csys_inv_def)
  next
    case (recv_wake g x r' res)
    with chanrecv_wake_spec [OF waiters_okD [OF ok recv_wake(2)] recv_wake(3)]
    have "leaves (cs_rt s) g x r'" by auto
    with wake_step_inv [OF abs ok st recv_wake(2,3)] recv_wake(1) show ?thesis
      by (simp add: csys_inv_def)
  qed
qed

lemma csys_reach_inv: "csys_reach c s \<Longrightarrow> csys_inv c s"
  by (induction rule: csys_reach.induct) (auto intro: csys_init_inv csys_step_inv)

section \<open>Runs of the system\<close>

text \<open>Goroutine 3 receives into cell 9 with sudog 5; then goroutine 4 sends what cell 7 holds.\<close>

definition demo_sys :: "nat \<Rightarrow> int csys" where
  "demo_sys n = \<lparr>cs_rt = demo_rt n, cs_wait = (\<lambda>_. None), cs_sent = [], cs_got = []\<rparr>"

definition demo_parked :: "int csys" where
  "demo_parked = (demo_sys 0)\<lparr>cs_rt := park_recv (demo_rt 0) 0 3 5 (Some 9),
     cs_wait := (\<lambda>_. None)(3 := Some (Rcv, 5))\<rparr>"

definition demo_handed :: "int csys" where
  "demo_handed = demo_parked\<lparr>
     cs_rt := send (upd_chan 0 (\<lambda>h. h\<lparr>recvq := empty_waitq\<rparr>) (cs_rt demo_parked)) 5 7,
     cs_sent := [7], cs_got := [7]\<rparr>"

lemmas demo_simps = demo_sys_def demo_rt_def demo_chan_def demo_elem_def empty_waitq_def

lemmas park_simps = park_recv_def upd_sg_def set_param_def set_waiting_def recvq_enqueue_def
  waitq_enqueue_def upd_chan_def Let_def

lemma const_upd [simp]: "(\<lambda>_. v)(x := v) = (\<lambda>_. v)"
  by auto

lemma demo_start: "csys_reach c (demo_sys 0)"
proof (rule csys_reach.start)
  have "makechan demo_elem 0 = Ret (demo_chan 0)"
    by (simp add: makechan_def demo_elem_def demo_chan_def MulUintptr_def push_bit_eq_mult
        maxAlign_def hchanSize_def maxAlloc_def Let_def)
  then show "csys_init c (demo_sys 0)" by (auto simp: csys_init_def demo_sys_def demo_rt_def)
qed

lemma demo_parked_eq:
  "demo_parked = (demo_sys 0)\<lparr>cs_wait := (\<lambda>_. None)(3 := Some (Rcv, 5)),
     cs_rt := (demo_rt 0)\<lparr>
       rt_sg := (rt_sg (demo_rt 0))(5 := (rt_sg (demo_rt 0) 5)\<lparr>sg_g := 3, sg_elem := Some 9, sg_c := Some 0\<rparr>),
       rt_chan := (\<lambda>_. demo_chan 0)(0 := (demo_chan 0)\<lparr>recvq := \<lparr>wq_first = Some 5, wq_last = Some 5\<rparr>\<rparr>),
       rt_waiting := (\<lambda>_. None)(3 := Some 5), rt_stackChans := (\<lambda>_. False)(3 := True)\<rparr>\<rparr>"
  by (simp add: demo_parked_def demo_simps park_simps)

lemma demo_handed_eq:
  "demo_handed = (demo_sys 0)\<lparr>cs_wait := (\<lambda>_. None)(3 := Some (Rcv, 5)), cs_sent := [7], cs_got := [7],
     cs_rt := (demo_rt 0)\<lparr>
       rt_sg := (rt_sg (demo_rt 0))(5 := (rt_sg (demo_rt 0) 5)\<lparr>sg_g := 3, sg_c := Some 0\<rparr>),
       rt_mem := int(9 := 7), rt_param := (\<lambda>_. None)(3 := Some 5), rt_ready := [3],
       rt_waiting := (\<lambda>_. None)(3 := Some 5), rt_stackChans := (\<lambda>_. False)(3 := True)\<rparr>\<rparr>"
  by (simp add: demo_handed_def demo_parked_eq demo_simps park_simps send_def goready_def store_elem_def)

lemma demo_parked_reach: "csys_reach 0 demo_parked"
proof -
  have "chanrecv (cs_rt (demo_sys 0)) (Some 0) 3 5 (Some 9) True =
      Some (cs_rt demo_parked, Blocked 5)"
    by (simp add: demo_parked_def demo_simps chanrecv_def sendq_dequeue_def waitq_dequeue.simps upd_chan_def)
  then have "csys_step 0 (demo_sys 0) ((demo_sys 0)\<lparr>cs_rt := cs_rt demo_parked,
      cs_wait := (cs_wait (demo_sys 0))(3 := Some (Rcv, 5))\<rparr>)"
    by (intro csys_step.recv_block) (auto simp: demo_simps sg_unused_def cell_unused_def)
  moreover have "(demo_sys 0)\<lparr>cs_rt := cs_rt demo_parked,
      cs_wait := (cs_wait (demo_sys 0))(3 := Some (Rcv, 5))\<rparr> = demo_parked"
    by (simp add: demo_parked_def demo_sys_def)
  ultimately show ?thesis using csys_reach.step [OF demo_start [of 0]] by simp
qed

lemma demo_handed_reach: "csys_reach 0 demo_handed"
proof -
  have "chansend (cs_rt demo_parked) (Some 0) 4 6 7 True = Some (cs_rt demo_handed, Done True)"
    by (simp add: demo_handed_def demo_parked_eq demo_simps chansend_def recvq_dequeue_def
        waitq_dequeue.simps upd_chan_def)
  then have "csys_step 0 demo_parked (demo_parked\<lparr>cs_rt := cs_rt demo_handed,
      cs_sent := cs_sent demo_parked @ [rt_mem (cs_rt demo_parked) 7],
      cs_got := cs_got demo_parked @ handed (cs_rt demo_parked) 0 (cs_rt demo_handed)\<rparr>)"
    by (intro csys_step.send_done) (auto simp: demo_parked_eq demo_simps sg_unused_def cell_unused_def)
  moreover have "demo_parked\<lparr>cs_rt := cs_rt demo_handed,
      cs_sent := cs_sent demo_parked @ [rt_mem (cs_rt demo_parked) 7],
      cs_got := cs_got demo_parked @ handed (cs_rt demo_parked) 0 (cs_rt demo_handed)\<rparr> = demo_handed"
    by (simp add: demo_parked_eq demo_handed_eq demo_simps handed_def)
  ultimately show ?thesis using csys_reach.step [OF demo_parked_reach] by simp
qed

section \<open>What every run guarantees\<close>

text \<open>C1. A channel is a first-in first-out queue.  Whatever the interleaving of sends,
  receives, wake-ups and a close, the values received so far followed by those in the buffer
  are a prefix of the values sent, in the order sent; while the channel is open the rest are
  exactly the values of the blocked senders, so nothing is lost when none is blocked.\<close>

theorem chan_fifo:
  assumes "csys_reach c s"
  shows "prefix (cs_got s @ chan_vals (rt_chan (cs_rt s) c)) (cs_sent s) \<and>
    (closed (rt_chan (cs_rt s) c) = 0 \<and> wq_first (sendq (rt_chan (cs_rt s) c)) = None \<longrightarrow>
      cs_sent s = cs_got s @ chan_vals (rt_chan (cs_rt s) c))"
proof -
  obtain a where "chan_abs (cs_rt s) c a" "stream_ok (cs_rt s) a (cs_sent s) (cs_got s)"
    using csys_reach_inv [OF assms] by (auto simp: csys_inv_def)
  then show ?thesis
    by (auto simp: stream_ok_def chan_abs_def dest: wq_repr_first)
qed

theorem chan_fifo_witness:
  "prefix [7] (cs_sent demo_handed) \<and> chan_vals (rt_chan (cs_rt demo_handed) 0) = []"
  using chan_fifo [OF demo_handed_reach] by (auto simp: demo_handed_def prefix_def)

text \<open>C2. No run makes the runtime throw: when a goroutine woken from a blocked send runs
  again, its call returns, or panics because the channel was closed meanwhile; one woken from
  a blocked receive returns \<open>selected\<close>, with \<open>received = false\<close> only on a closed channel.\<close>

theorem chan_wake_ok:
  assumes "csys_reach c s" and "cs_wait s g = Some (d, x)" and "g \<in> set (rt_ready (cs_rt s))"
  shows "case d of
      Snd \<Rightarrow> snd (chansend_wake (cs_rt s) c g x) = Done True \<or>
        snd (chansend_wake (cs_rt s) c g x) = Panicked ''send on closed channel'' \<and>
        closed (rt_chan (cs_rt s) c) \<noteq> 0
    | Rcv \<Rightarrow> \<exists>ok. snd (chanrecv_wake (cs_rt s) g x) = Done (True, ok) \<and>
        (ok \<or> closed (rt_chan (cs_rt s) c) \<noteq> 0)"
proof -
  obtain a where abs: "chan_abs (cs_rt s) c a" and w: "waiter (cs_rt s) a g d x"
    using csys_reach_inv [OF assms(1)] assms(2) by (auto simp: csys_inv_def waiters_ok_def)
  show ?thesis
    using chansend_wake_spec [OF w assms(3) abs] chanrecv_wake_spec [OF w assms(3)] abs
    by (cases d) (auto simp: chan_abs_def)
qed

theorem chan_wake_ok_witness:
  "\<exists>ok. snd (chanrecv_wake (cs_rt demo_handed) 3 5) = Done (True, ok)"
proof -
  have "cs_wait demo_handed 3 = Some (Rcv, 5)" "3 \<in> set (rt_ready (cs_rt demo_handed))"
    by (simp_all add: demo_handed_eq)
  from chan_wake_ok [OF demo_handed_reach this] show ?thesis by auto
qed

text \<open>C3. No wake-up is lost: a goroutine that is blocked on the channel and has not been made
  ready cannot proceed: the channel is open, and for a sender the buffer is full and no
  receiver waits, for a receiver the buffer is empty and no sender waits.\<close>

theorem chan_no_lost_wakeup:
  assumes "csys_reach c s" and "cs_wait s g = Some (d, x)" and "g \<notin> set (rt_ready (cs_rt s))"
  shows "closed (rt_chan (cs_rt s) c) = 0 \<and>
    (case d of
       Snd \<Rightarrow> qcount (rt_chan (cs_rt s) c) = dataqsiz (rt_chan (cs_rt s) c) \<and>
         wq_first (recvq (rt_chan (cs_rt s) c)) = None
     | Rcv \<Rightarrow> qcount (rt_chan (cs_rt s) c) = 0 \<and> wq_first (sendq (rt_chan (cs_rt s) c)) = None)"
proof -
  obtain a where abs: "chan_abs (cs_rt s) c a" and w: "waiter (cs_rt s) a g d x"
    using csys_reach_inv [OF assms(1)] assms(2) by (auto simp: csys_inv_def waiters_ok_def)
  have ne: "dirq a d \<noteq> []" using w assms(3) by (auto simp: waiter_def split: if_splits)
  have q: "wq_first (sendq (rt_chan (cs_rt s) c)) = None \<longleftrightarrow> a_ss a = []"
    "wq_first (recvq (rt_chan (cs_rt s) c)) = None \<longleftrightarrow> a_rs a = []"
    using abs wq_repr_first unfolding chan_abs_def by blast+
  have n: "qcount (rt_chan (cs_rt s) c) = length (a_vals a)" "dataqsiz (rt_chan (cs_rt s) c) = a_cap a"
    "length (a_vals a) \<le> a_cap a" "closed (rt_chan (cs_rt s) c) = 0 \<longleftrightarrow> \<not> a_closed a" and e: "a_excl a"
    using abs by (simp_all add: chan_abs_def buf_wf_def)
  show ?thesis
    unfolding q n using ne e n(3) by (cases d) (auto simp: dirq_def a_excl_def)
qed

theorem chan_no_lost_wakeup_witness:
  "qcount (rt_chan (cs_rt demo_parked) 0) = 0"
proof -
  have "cs_wait demo_parked 3 = Some (Rcv, 5)" "3 \<notin> set (rt_ready (cs_rt demo_parked))"
    by (simp_all add: demo_parked_eq demo_rt_def)
  from chan_no_lost_wakeup [OF demo_parked_reach this] show ?thesis by simp
qed

end
