(* ===== verification/Heap_Order.thy ===== *)
theory Heap_Order
  imports Prelude
begin

text \<open>
  Heaps laid out in an array, with \<open>d\<close> children per node: \<open>d = 2\<close> in \<open>sort.heapSort\<close> and
  \<open>container/heap\<close>, \<open>d = 4\<close> for the timers of the runtime.  The array is a function from
  indices; \<open>lo\<close> is the first node whose subtree is ordered already, \<open>n\<close> the size.
\<close>

section \<open>Heaps with a hole\<close>

definition par :: "nat \<Rightarrow> nat \<Rightarrow> nat" where
  "par d i = (i - 1) div d"

definition heap_on :: "('a \<Rightarrow> 'a \<Rightarrow> bool) \<Rightarrow> nat \<Rightarrow> nat \<Rightarrow> nat \<Rightarrow> (nat \<Rightarrow> 'a) \<Rightarrow> bool" where
  "heap_on le d lo n f \<longleftrightarrow> (\<forall>i. 0 < i \<longrightarrow> i < n \<longrightarrow> lo \<le> par d i \<longrightarrow> le (f (par d i)) (f i))"

text \<open>
  Every edge that does not touch \<open>k\<close> is ordered, and so are the children of \<open>k\<close> with its
  parent; \<open>upper\<close> and \<open>lower\<close> speak of the edges at \<open>k\<close>.
\<close>

definition heap_but :: "('a \<Rightarrow> 'a \<Rightarrow> bool) \<Rightarrow> nat \<Rightarrow> nat \<Rightarrow> nat \<Rightarrow> (nat \<Rightarrow> 'a) \<Rightarrow> nat \<Rightarrow> bool" where
  "heap_but le d lo n f k \<longleftrightarrow>
     (\<forall>i. 0 < i \<longrightarrow> i < n \<longrightarrow> lo \<le> par d i \<longrightarrow> i \<noteq> k \<longrightarrow> par d i \<noteq> k \<longrightarrow> le (f (par d i)) (f i)) \<and>
     (\<forall>i. 0 < i \<longrightarrow> i < n \<longrightarrow> par d i = k \<longrightarrow> 0 < k \<longrightarrow> lo \<le> par d k \<longrightarrow> le (f (par d k)) (f i))"

definition upper :: "('a \<Rightarrow> 'a \<Rightarrow> bool) \<Rightarrow> nat \<Rightarrow> nat \<Rightarrow> (nat \<Rightarrow> 'a) \<Rightarrow> nat \<Rightarrow> bool" where
  "upper le d lo f k \<longleftrightarrow> (0 < k \<longrightarrow> lo \<le> par d k \<longrightarrow> le (f (par d k)) (f k))"

definition lower :: "('a \<Rightarrow> 'a \<Rightarrow> bool) \<Rightarrow> nat \<Rightarrow> nat \<Rightarrow> (nat \<Rightarrow> 'a) \<Rightarrow> nat \<Rightarrow> bool" where
  "lower le d n f k \<longleftrightarrow> (\<forall>i. 0 < i \<longrightarrow> i < n \<longrightarrow> par d i = k \<longrightarrow> le (f k) (f i))"

lemma par_le: "par d i \<le> i - 1"
  by (simp add: par_def div_le_dividend)

lemma par_less: "0 < i \<Longrightarrow> par d i < i"
  using par_le [of d i] by simp

lemma par_child: "0 < d \<Longrightarrow> 0 < i \<Longrightarrow> par d i = k \<longleftrightarrow> d * k + 1 \<le> i \<and> i \<le> d * k + d"
proof
  assume d: "0 < d" and i: "0 < i" and "par d i = k"
  then have "k * d \<le> i - 1" "i - 1 < k * d + d"
    using div_times_less_eq_dividend [of "i - 1" d] dividend_less_div_times [of d "i - 1"]
    by (auto simp: par_def add.commute)
  with i show "d * k + 1 \<le> i \<and> i \<le> d * k + d" by (simp add: mult.commute) linarith
next
  assume "0 < d" "0 < i" "d * k + 1 \<le> i \<and> i \<le> d * k + d"
  then show "par d i = k" unfolding par_def by (intro div_nat_eqI) (auto simp: mult.commute)
qed

lemma heap_onD: "heap_on le d lo n f \<Longrightarrow> 0 < i \<Longrightarrow> i < n \<Longrightarrow> lo \<le> par d i \<Longrightarrow> le (f (par d i)) (f i)"
  by (simp add: heap_on_def)

lemma heap_butD:
  "heap_but le d lo n f k \<Longrightarrow> 0 < i \<Longrightarrow> i < n \<Longrightarrow> lo \<le> par d i \<Longrightarrow> i \<noteq> k \<Longrightarrow> par d i \<noteq> k \<Longrightarrow>
    le (f (par d i)) (f i)"
  "heap_but le d lo n f k \<Longrightarrow> 0 < i \<Longrightarrow> i < n \<Longrightarrow> par d i = k \<Longrightarrow> 0 < k \<Longrightarrow> lo \<le> par d k \<Longrightarrow>
    le (f (par d k)) (f i)"
  by (simp_all add: heap_but_def)

lemma heap_butI:
  assumes "\<And>i. 0 < i \<Longrightarrow> i < n \<Longrightarrow> lo \<le> par d i \<Longrightarrow> i \<noteq> k \<Longrightarrow> par d i \<noteq> k \<Longrightarrow> par d i < i \<Longrightarrow>
      le (f (par d i)) (f i)"
    and "\<And>i. 0 < i \<Longrightarrow> i < n \<Longrightarrow> par d i = k \<Longrightarrow> 0 < k \<Longrightarrow> k < i \<Longrightarrow> lo \<le> par d k \<Longrightarrow> par d k < k \<Longrightarrow>
      le (f (par d k)) (f i)"
  shows "heap_but le d lo n f k"
  unfolding heap_but_def using assms par_less by metis

lemma heap_but_stop: "heap_but le d lo n f k \<Longrightarrow> upper le d lo f k \<Longrightarrow> lower le d n f k \<Longrightarrow> heap_on le d lo n f"
  unfolding heap_but_def upper_def lower_def heap_on_def by metis

lemma heap_on_but:
  assumes h: "heap_on le d lo n f" and t: "transp le"
  shows "heap_but le d lo n f k"
proof (rule heap_butI)
  fix i assume i: "0 < i" "i < n" "par d i = k" "0 < k" "k < i" "lo \<le> par d k" "par d k < k"
  have "le (f (par d k)) (f k)" by (rule heap_onD [OF h]) (use i in auto)
  moreover have "le (f (par d i)) (f i)" by (rule heap_onD [OF h]) (use i in auto)
  ultimately show "le (f (par d k)) (f i)" unfolding i(3) by (rule transpD [OF t])
qed (rule heap_onD [OF h])

text \<open>A heap stays one, but for \<open>k\<close>, whatever is stored at \<open>k\<close>.\<close>

lemma heap_but_upd: "heap_but le d lo n f k \<Longrightarrow> heap_but le d lo n (f(k := v)) k"
  by (rule heap_butI) (auto simp: heap_butD)

lemma heap_but_cong:
  assumes b: "heap_but le d lo n f k" and e: "\<And>i. i < n \<Longrightarrow> g i = f i"
  shows "heap_but le d lo n g k"
proof (rule heap_butI)
  fix i assume "0 < i" "i < n" "lo \<le> par d i" "i \<noteq> k" "par d i \<noteq> k" "par d i < i"
  then show "le (g (par d i)) (g i)" using heap_butD(1) [OF b] e by simp
next
  fix i assume "0 < i" "i < n" "par d i = k" "0 < k" "k < i" "lo \<le> par d k" "par d k < k"
  then show "le (g (par d k)) (g i)" using heap_butD(2) [OF b] e by simp
qed

lemma heap_on_cong:
  assumes h: "heap_on le d lo n f" and e: "\<And>i. i < n \<Longrightarrow> g i = f i"
  shows "heap_on le d lo n g"
  unfolding heap_on_def
proof (intro allI impI)
  fix i assume i: "0 < i" "i < n" "lo \<le> par d i"
  then show "le (g (par d i)) (g i)" using heap_onD [OF h i] par_less [of i d] e by simp
qed

lemma heap_on_lower: "heap_on le d lo n f \<Longrightarrow> lo \<le> k \<Longrightarrow> lower le d n f k"
  by (auto simp: heap_on_def lower_def)

lemma heap_on_leaf:
  assumes "0 < d" and "n \<le> d * lo + 1"
  shows "heap_on le d lo n f"
  unfolding heap_on_def
proof (intro allI impI)
  fix i assume i: "0 < i" "i < n" "lo \<le> par d i"
  have "d * par d i + 1 \<le> i" using par_child [OF assms(1) i(1), of "par d i"] by simp
  moreover have "d * lo \<le> d * par d i" using i(3) by simp
  ultimately show "le (f (par d i)) (f i)" using i assms(2) by linarith
qed

lemma heap_on_shrink: "heap_on le d lo n f \<Longrightarrow> m \<le> n \<Longrightarrow> heap_on le d lo m f"
  by (simp add: heap_on_def)

lemma heap_on_start:
  assumes h: "heap_on le d (Suc k) n f"
  shows "heap_but le d k n f k \<and> upper le d k f k"
proof
  show "heap_but le d k n f k" by (rule heap_butI) (auto intro: heap_onD [OF h])
  show "upper le d k f k" using par_less [of k d] by (auto simp: upper_def)
qed

text \<open>The root is least.\<close>

lemma heap_on_root:
  assumes h: "heap_on le d 0 n f" and t: "transp le" and r: "reflp le"
  shows "i < n \<Longrightarrow> le (f 0) (f i)"
proof (induction i rule: less_induct)
  case (less i)
  show ?case
  proof (cases "i = 0")
    case False
    with less h show ?thesis
      using transpD [OF t, of "f 0" "f (par d i)" "f i"] par_less [of i d] by (auto simp: heap_on_def)
  qed (simp add: reflpD [OF r])
qed

section \<open>Moving the hole\<close>

text \<open>Down: \<open>k\<close> is exchanged with its least child \<open>c\<close>.\<close>

lemma heap_down_step:
  assumes b: "heap_but le d lo n f k" and c: "0 < c" "c < n" "par d c = k"
    and least: "\<And>i. 0 < i \<Longrightarrow> i < n \<Longrightarrow> par d i = k \<Longrightarrow> le (f c) (f i)" and lt: "le (f c) (f k)"
    and lo: "lo \<le> k"
  shows "heap_but le d lo n (f(k := f c, c := f k)) c \<and> upper le d lo (f(k := f c, c := f k)) c"
proof -
  have kc: "k < c" using par_less [OF c(1), of d] c(3) by simp
  have "heap_but le d lo n (f(k := f c, c := f k)) c"
  proof (rule heap_butI)
    fix i assume i: "0 < i" "i < n" "lo \<le> par d i" "i \<noteq> c" "par d i \<noteq> c" "par d i < i"
    consider "i = k" | "par d i = k" "i \<noteq> k" | "i \<noteq> k" "par d i \<noteq> k" by blast
    then show "le ((f(k := f c, c := f k)) (par d i)) ((f(k := f c, c := f k)) i)"
    proof cases
      case 1
      then show ?thesis using heap_butD(2) [OF b c] i kc by simp
    next
      case 2
      then show ?thesis using least i kc by simp
    next
      case 3
      then show ?thesis using heap_butD(1) [OF b i(1-3)] i by simp
    qed
  next
    fix i assume i: "0 < i" "i < n" "par d i = c" "c < i"
    then show "le ((f(k := f c, c := f k)) (par d c)) ((f(k := f c, c := f k)) i)"
      using kc c lo heap_butD(1) [OF b, of i] by auto
  qed
  moreover have "upper le d lo (f(k := f c, c := f k)) c"
    using kc c lt by (auto simp: upper_def)
  ultimately show ?thesis ..
qed

text \<open>Up: \<open>k\<close> is exchanged with its parent.\<close>

lemma heap_up_step:
  assumes b: "heap_but le d lo n f k" and l: "lower le d n f k" and k: "0 < k" "k < n" "lo \<le> par d k"
    and lt: "le (f k) (f (par d k))" and t: "transp le"
  shows "heap_but le d lo n (f(par d k := f k, k := f (par d k))) (par d k) \<and>
    lower le d n (f(par d k := f k, k := f (par d k))) (par d k)"
proof -
  define p where "p = par d k"
  let ?g = "f(p := f k, k := f p)"
  have pk: "p < k" using par_less [OF k(1)] by (simp add: p_def)
  note k = k(1,2) k(3) [folded p_def] and lt = lt [folded p_def]
  have sib: "le (f p) (f i)" if "0 < i" "i < n" "par d i = p" "i \<noteq> k" for i
    using heap_butD(1) [OF b that(1,2)] that k pk by auto
  have up: "le (f (par d p)) (f p)" if "0 < p" "lo \<le> par d p"
    using heap_butD(1) [OF b that(1)] that k pk par_less [OF that(1), of d] by auto
  have "heap_but le d lo n ?g p"
  proof (rule heap_butI)
    fix i assume i: "0 < i" "i < n" "lo \<le> par d i" "i \<noteq> p" "par d i \<noteq> p" "par d i < i"
    have ik: "i \<noteq> k" using i(5) by (auto simp: p_def)
    show "le (?g (par d i)) (?g i)"
    proof (cases "par d i = k")
      case True
      then show ?thesis using heap_butD(2) [OF b i(1,2) True k(1)] k(3) i ik by (simp add: p_def)
    next
      case False
      then show ?thesis using heap_butD(1) [OF b i(1,2,3) ik False] i ik by simp
    qed
  next
    fix i assume i: "0 < i" "i < n" "par d i = p" "0 < p" "p < i" "lo \<le> par d p" "par d p < p"
    then show "le (?g (par d p)) (?g i)"
      using up sib [of i] transpD [OF t, of "f (par d p)" "f p" "f i"] pk by auto
  qed
  moreover have "lower le d n ?g p"
    unfolding lower_def
  proof (intro allI impI)
    fix i assume i: "0 < i" "i < n" "par d i = p"
    then have "i \<noteq> p" using par_less [of i d] by auto
    then show "le (?g p) (?g i)" using sib [OF i] lt pk transpD [OF t lt, of "f i"] by auto
  qed
  ultimately show ?thesis by (simp add: p_def)
qed

end
