(* ===== verification/Go_Sort.thy ===== *)
theory Go_Sort
  imports Heap_Order
begin

text \<open>
  Package \<open>sort\<close> (\<open>sort/sort.go\<close>, \<open>sort/search.go\<close>, \<open>sort/slice.go\<close>).  The interface
  \<open>sort.Interface\<close> is a record of its three methods over the state of the collection; every
  routine of the package takes the record and threads the state.  Indices are natural
  numbers: every difference of the source is one of an upper and a lower bound, except
  \<open>(hi - 1) / 2\<close> for an empty heap, which is 0 in Go too.

  The contract of an implementation is the locale \<open>sort_interface\<close> (and
  \<open>sort_order\<close>, when \<open>Less\<close> is a strict weak order); its laws speak of indices in range
  only, so that what is proved from them also shows that no index out of range is used.
\<close>

section \<open>The interface\<close>

record 's sort_methods =
  Len :: "'s \<Rightarrow> nat"
  Less :: "'s \<Rightarrow> nat \<Rightarrow> nat \<Rightarrow> bool"
  Swap :: "'s \<Rightarrow> nat \<Rightarrow> nat \<Rightarrow> 's"

section \<open>Insertion sort\<close>

fun insertion_inner :: "'s sort_methods \<Rightarrow> 's \<Rightarrow> nat \<Rightarrow> nat \<Rightarrow> 's" where
  "insertion_inner data s a j =
     (if j > a \<and> Less data s j (j - 1) then insertion_inner data (Swap data s j (j - 1)) a (j - 1) else s)"

function insertion_outer :: "'s sort_methods \<Rightarrow> 's \<Rightarrow> nat \<Rightarrow> nat \<Rightarrow> nat \<Rightarrow> 's" where
  "insertion_outer data s a b i =
     (if i < b then insertion_outer data (insertion_inner data s a i) a b (i + 1) else s)"
  by pat_completeness auto
termination by (relation "measure (\<lambda>(_, _, _, b, i). b - i)") auto

definition insertionSort :: "'s sort_methods \<Rightarrow> 's \<Rightarrow> nat \<Rightarrow> nat \<Rightarrow> 's" where
  "insertionSort data s a b = insertion_outer data s a b (a + 1)"

section \<open>Heap sort\<close>

text \<open>The greater child of \<open>root\<close> below \<open>hi\<close>.\<close>

definition pick_child :: "'s sort_methods \<Rightarrow> 's \<Rightarrow> nat \<Rightarrow> nat \<Rightarrow> nat \<Rightarrow> nat" where
  "pick_child data s root hi first =
     (let child = 2 * root + 1 in
      if child + 1 < hi \<and> Less data s (first + child) (first + child + 1) then child + 1 else child)"

function siftDown :: "'s sort_methods \<Rightarrow> 's \<Rightarrow> nat \<Rightarrow> nat \<Rightarrow> nat \<Rightarrow> 's" where
  "siftDown data s root hi first =
     (if 2 * root + 1 \<ge> hi then s
      else if \<not> Less data s (first + root) (first + pick_child data s root hi first) then s
      else siftDown data (Swap data s (first + root) (first + pick_child data s root hi first))
             (pick_child data s root hi first) hi first)"
  by pat_completeness auto
termination
  by (relation "measure (\<lambda>(_, _, root, hi, _). hi - root)") (auto simp: pick_child_def Let_def)

text \<open>The two loops of \<open>heapSort\<close>, counting down: \<open>i\<close> runs from \<open>k - 1\<close> to 0.\<close>

primrec heap_build :: "'s sort_methods \<Rightarrow> nat \<Rightarrow> nat \<Rightarrow> 's \<Rightarrow> nat \<Rightarrow> 's" where
  "heap_build data hi first s 0 = s"
| "heap_build data hi first s (Suc i) = heap_build data hi first (siftDown data s i hi first) i"

primrec heap_pop :: "'s sort_methods \<Rightarrow> nat \<Rightarrow> 's \<Rightarrow> nat \<Rightarrow> 's" where
  "heap_pop data first s 0 = s"
| "heap_pop data first s (Suc i) =
     heap_pop data first (siftDown data (Swap data s first (first + i)) 0 i first) i"

definition heapSort :: "'s sort_methods \<Rightarrow> 's \<Rightarrow> nat \<Rightarrow> nat \<Rightarrow> 's" where
  "heapSort data s a b =
     (let first = a; hi = b - a;
          s1 = heap_build data hi first s ((hi - 1) div 2 + 1)
      in heap_pop data first s1 hi)"

section \<open>Quick sort\<close>

definition medianOfThree :: "'s sort_methods \<Rightarrow> 's \<Rightarrow> nat \<Rightarrow> nat \<Rightarrow> nat \<Rightarrow> 's" where
  "medianOfThree data s m1 m0 m2 =
     (let s = (if Less data s m1 m0 then Swap data s m1 m0 else s)
      in if Less data s m2 m1
         then let s = Swap data s m2 m1
              in if Less data s m1 m0 then Swap data s m1 m0 else s
         else s)"

text \<open>\<open>for ; a < c && p(a); a++ {}\<close> and \<open>for ; b < c && p(c-1); c-- {}\<close>.\<close>

function scan_up :: "(nat \<Rightarrow> bool) \<Rightarrow> nat \<Rightarrow> nat \<Rightarrow> nat" where
  "scan_up p a c = (if a < c \<and> p a then scan_up p (a + 1) c else a)"
  by pat_completeness auto
termination by (relation "measure (\<lambda>(_, a, c). c - a)") auto

fun scan_down :: "(nat \<Rightarrow> bool) \<Rightarrow> nat \<Rightarrow> nat \<Rightarrow> nat" where
  "scan_down p b c = (if b < c \<and> p (c - 1) then scan_down p b (c - 1) else c)"

declare insertion_inner.simps [simp del] insertion_outer.simps [simp del] siftDown.simps [simp del]
  scan_up.simps [simp del] scan_down.simps [simp del]

lemma scan_up_ge: "a \<le> scan_up p a c"
  by (induction p a c rule: scan_up.induct) (subst scan_up.simps, auto)

lemma scan_down_le: "scan_down p b c \<le> c"
  by (induction p b c rule: scan_down.induct) (subst scan_down.simps, auto)

text \<open>The main loop of \<open>doPivot\<close>.\<close>

function partition_loop :: "'s sort_methods \<Rightarrow> 's \<Rightarrow> nat \<Rightarrow> nat \<Rightarrow> nat \<Rightarrow> 's \<times> nat \<times> nat" where
  "partition_loop data s pivot b c =
     (let b1 = scan_up (\<lambda>i. \<not> Less data s pivot i) b c;
          c1 = scan_down (\<lambda>i. Less data s pivot i) b1 c
      in if b1 \<ge> c1 then (s, b1, c1)
         else partition_loop data (Swap data s b1 (c1 - 1)) pivot (b1 + 1) (c1 - 1))"
  by pat_completeness auto
termination
proof (relation "measure (\<lambda>(_, _, _, b, c). c - b)", goal_cases)
  case (2 data s pivot b c b1 c1)
  then show ?case
    using scan_up_ge [of b "\<lambda>i. \<not> Less data s pivot i" c] scan_down_le [of "\<lambda>i. Less data s pivot i" b1 c]
    by simp
qed simp

text \<open>The loop that gathers the elements equal to the pivot.\<close>

function dups_loop :: "'s sort_methods \<Rightarrow> 's \<Rightarrow> nat \<Rightarrow> nat \<Rightarrow> nat \<Rightarrow> 's \<times> nat" where
  "dups_loop data s pivot a b =
     (let b1 = scan_down (\<lambda>i. \<not> Less data s i pivot) a b;
          a1 = scan_up (\<lambda>i. Less data s i pivot) a b1
      in if a1 \<ge> b1 then (s, b1)
         else dups_loop data (Swap data s a1 (b1 - 1)) pivot (a1 + 1) (b1 - 1))"
  by pat_completeness auto
termination
proof (relation "measure (\<lambda>(_, _, _, a, b). b - a)", goal_cases)
  case (2 data s pivot a b b1 a1)
  then show ?case
    using scan_down_le [of "\<lambda>i. \<not> Less data s i pivot" a b] scan_up_ge [of a "\<lambda>i. Less data s i pivot" b1]
    by simp
qed simp

declare partition_loop.simps [simp del] dups_loop.simps [simp del]

text \<open>Tukey's ninther on large ranges, then the median of three, at \<open>lo\<close>.\<close>

definition choose_pivot :: "'s sort_methods \<Rightarrow> 's \<Rightarrow> nat \<Rightarrow> nat \<Rightarrow> 's" where
  "choose_pivot data s lo hi =
     (let m = (lo + hi) div 2;
          s = (if hi - lo > 40 then
                 let d = (hi - lo) div 8;
                     s = medianOfThree data s lo (lo + d) (lo + 2 * d);
                     s = medianOfThree data s m (m - d) (m + d)
                 in medianOfThree data s (hi - 1) (hi - 1 - d) (hi - 1 - 2 * d)
               else s)
      in medianOfThree data s lo m (hi - 1))"

text \<open>The test of some points for equality with the pivot: state, \<open>b\<close>, \<open>c\<close> and \<open>dups\<close>.\<close>

definition test_dups :: "'s sort_methods \<Rightarrow> 's \<Rightarrow> nat \<Rightarrow> nat \<Rightarrow> nat \<Rightarrow> nat \<Rightarrow> nat \<Rightarrow> 's \<times> nat \<times> nat \<times> nat" where
  "test_dups data s pivot m hi b c =
     (let (s, c, dups) = (if \<not> Less data s pivot (hi - 1)
                          then (Swap data s c (hi - 1), c + 1, 1) else (s, c, 0));
          (b, dups) = (if \<not> Less data s (b - 1) pivot then (b - 1, dups + 1) else (b, dups));
          (s, b, dups) = (if \<not> Less data s m pivot
                          then (Swap data s m (b - 1), b - 1, dups + 1) else (s, b, dups))
      in (s, b, c, dups))"

definition doPivot :: "'s sort_methods \<Rightarrow> 's \<Rightarrow> nat \<Rightarrow> nat \<Rightarrow> 's \<times> nat \<times> nat" where
  "doPivot data s lo hi =
     (let m = (lo + hi) div 2;
          s = choose_pivot data s lo hi;
          pivot = lo;
          a = scan_up (\<lambda>i. Less data s i pivot) (lo + 1) (hi - 1);
          (s, b, c) = partition_loop data s pivot a (hi - 1);
          protect = (hi - c < 5);
          (s, b, c, protect) =
            (if \<not> protect \<and> hi - c < (hi - lo) div 4
             then let (s, b, c, dups) = test_dups data s pivot m hi b c in (s, b, c, dups > 1)
             else (s, b, c, protect));
          (s, b) = (if protect then dups_loop data s pivot a b else (s, b));
          s = Swap data s pivot (b - 1)
      in (s, b - 1, c))"

text \<open>The pass with gap 6 over a range of at most 12 elements: \<open>i\<close> runs up to \<open>b\<close>.\<close>

function gap_pass :: "'s sort_methods \<Rightarrow> 's \<Rightarrow> nat \<Rightarrow> nat \<Rightarrow> 's" where
  "gap_pass data s i b =
     (if i < b then gap_pass data (if Less data s i (i - 6) then Swap data s i (i - 6) else s) (i + 1) b
      else s)"
  by pat_completeness auto
termination by (relation "measure (\<lambda>(_, _, i, b). b - i)") auto

fun quickSort :: "'s sort_methods \<Rightarrow> 's \<Rightarrow> nat \<Rightarrow> nat \<Rightarrow> nat \<Rightarrow> 's" where
  "quickSort data s a b maxDepth =
     (if b - a > 12 then
        (case maxDepth of
           0 \<Rightarrow> heapSort data s a b
         | Suc d \<Rightarrow>
             (case doPivot data s a b of (s1, mlo, mhi) \<Rightarrow>
                if mlo - a < b - mhi
                then quickSort data (quickSort data s1 a mlo d) mhi b d
                else quickSort data (quickSort data s1 mhi b d) a mlo d))
      else if b - a > 1 then insertionSort data (gap_pass data s (a + 6) b) a b
      else s)"

declare gap_pass.simps [simp del] quickSort.simps [simp del]

fun depth_loop :: "nat \<Rightarrow> nat \<Rightarrow> nat" where
  "depth_loop i depth = (if i > 0 then depth_loop (i div 2) (depth + 1) else depth)"

declare depth_loop.simps [simp del]

definition maxDepth :: "nat \<Rightarrow> nat" where
  "maxDepth n = depth_loop n 0 * 2"

definition Sort :: "'s sort_methods \<Rightarrow> 's \<Rightarrow> 's" where
  "Sort data s = (let n = Len data s in quickSort data s 0 n (maxDepth n))"

section \<open>Order\<close>

definition Reverse :: "'s sort_methods \<Rightarrow> 's sort_methods" where
  "Reverse data = data\<lparr>Less := (\<lambda>s i j. Less data s j i)\<rparr>"

primrec sorted_down :: "'s sort_methods \<Rightarrow> 's \<Rightarrow> nat \<Rightarrow> bool" where
  "sorted_down data s 0 = True"
| "sorted_down data s (Suc i) =
     (if i = 0 then True else if Less data s i (i - 1) then False else sorted_down data s i)"

definition IsSorted :: "'s sort_methods \<Rightarrow> 's \<Rightarrow> bool" where
  "IsSorted data s = sorted_down data s (Len data s)"

section \<open>Slices\<close>

text \<open>
  A slice with a comparison of two of its elements by index, as \<open>sort.Slice\<close> takes it: the
  closure \<open>less\<close> reads the slice as it is at the time of the call.
\<close>

definition slice_methods :: "('a list \<Rightarrow> nat \<Rightarrow> nat \<Rightarrow> bool) \<Rightarrow> 'a list sort_methods" where
  "slice_methods f = \<lparr>Len = length, Less = f, Swap = swap\<rparr>"

definition Slice :: "'a list \<Rightarrow> ('a list \<Rightarrow> nat \<Rightarrow> nat \<Rightarrow> bool) \<Rightarrow> 'a list" where
  "Slice x f = (let n = length x in quickSort (slice_methods f) x 0 n (maxDepth n))"

definition SliceIsSorted :: "'a list \<Rightarrow> ('a list \<Rightarrow> nat \<Rightarrow> nat \<Rightarrow> bool) \<Rightarrow> bool" where
  "SliceIsSorted x f = sorted_down (slice_methods f) x (length x)"

text \<open>The values of an \<open>int\<close> are only compared; a Go string is its bytes, in lexicographic order.\<close>

type_synonym gostring = "u8 list"

fun string_less :: "gostring \<Rightarrow> gostring \<Rightarrow> bool" where
  "string_less xs [] = False"
| "string_less [] (y # ys) = True"
| "string_less (x # xs) (y # ys) = (if x < y then True else if y < x then False else string_less xs ys)"

definition IntSlice :: "int list sort_methods" where
  "IntSlice = \<lparr>Len = length, Less = (\<lambda>p i j. p ! i < p ! j), Swap = swap\<rparr>"

definition StringSlice :: "gostring list sort_methods" where
  "StringSlice = \<lparr>Len = length, Less = (\<lambda>p i j. string_less (p ! i) (p ! j)), Swap = swap\<rparr>"

definition Ints :: "int list \<Rightarrow> int list" where "Ints a = Sort IntSlice a"
definition Strings :: "gostring list \<Rightarrow> gostring list" where "Strings a = Sort StringSlice a"
definition IntsAreSorted :: "int list \<Rightarrow> bool" where "IntsAreSorted a = IsSorted IntSlice a"
definition StringsAreSorted :: "gostring list \<Rightarrow> bool" where "StringsAreSorted a = IsSorted StringSlice a"

section \<open>Binary search\<close>

text \<open>The loop of \<open>Search\<close>; \<open>h\<close> is computed in unsigned arithmetic, so the sum does not wrap.\<close>

function search_loop :: "(nat \<Rightarrow> bool) \<Rightarrow> nat \<Rightarrow> nat \<Rightarrow> nat" where
  "search_loop f i j =
     (if i < j then
        (if \<not> f ((i + j) div 2) then search_loop f ((i + j) div 2 + 1) j else search_loop f i ((i + j) div 2))
      else i)"
  by pat_completeness auto
termination by (relation "measure (\<lambda>(_, i, j). j - i)") auto

declare search_loop.simps [simp del]

definition Search :: "nat \<Rightarrow> (nat \<Rightarrow> bool) \<Rightarrow> nat" where
  "Search n f = search_loop f 0 n"

definition SearchInts :: "int list \<Rightarrow> int \<Rightarrow> nat" where
  "SearchInts a x = Search (length a) (\<lambda>i. a ! i \<ge> x)"

definition SearchStrings :: "gostring list \<Rightarrow> gostring \<Rightarrow> nat" where
  "SearchStrings a x = Search (length a) (\<lambda>i. \<not> string_less (a ! i) x)"

section \<open>Stable sort\<close>

definition swapRange :: "'s sort_methods \<Rightarrow> 's \<Rightarrow> nat \<Rightarrow> nat \<Rightarrow> nat \<Rightarrow> 's" where
  "swapRange data s a b n = fold (\<lambda>i s. Swap data s (a + i) (b + i)) [0..<n] s"

text \<open>The loop of \<open>rotate\<close>; when one of the two ranges is empty it does not end.\<close>

function rotate_loop :: "'s sort_methods \<Rightarrow> nat \<Rightarrow> 's \<Rightarrow> nat \<Rightarrow> nat \<Rightarrow> 's outcome" where
  "rotate_loop data m s i j =
     (if i = j then Ret (swapRange data s (m - i) m i)
      else if i = 0 \<or> j = 0 then Spin
      else if i > j then rotate_loop data m (swapRange data s (m - i) m j) (i - j) j
      else rotate_loop data m (swapRange data s (m - i) (m + j - i) i) i (j - i))"
  by pat_completeness auto
termination by (relation "measure (\<lambda>(_, _, _, i, j). i + j)") auto

definition rotate :: "'s sort_methods \<Rightarrow> 's \<Rightarrow> nat \<Rightarrow> nat \<Rightarrow> nat \<Rightarrow> 's outcome" where
  "rotate data s a m b = rotate_loop data m s (m - a) (b - m)"

text \<open>The three binary searches of \<open>symMerge\<close> are loops of the same form as the one of \<open>Search\<close>.\<close>

definition lowest_not_less :: "'s sort_methods \<Rightarrow> 's \<Rightarrow> nat \<Rightarrow> nat \<Rightarrow> nat \<Rightarrow> nat" where
  "lowest_not_less data s a m b = search_loop (\<lambda>h. \<not> Less data s h a) m b"

definition lowest_greater :: "'s sort_methods \<Rightarrow> 's \<Rightarrow> nat \<Rightarrow> nat \<Rightarrow> nat" where
  "lowest_greater data s a m = search_loop (\<lambda>h. Less data s m h) a m"

definition sym_start :: "'s sort_methods \<Rightarrow> 's \<Rightarrow> nat \<Rightarrow> nat \<Rightarrow> nat \<Rightarrow> nat" where
  "sym_start data s p start r = search_loop (\<lambda>c. Less data s (p - c) c) start r"

lemma sym_halves:
  fixes a b x e :: nat
  shows "a < x \<Longrightarrow> x = (a + b) div 2 \<Longrightarrow> x - a < b - a"
    and "x = (a + b) div 2 \<Longrightarrow> x < e \<Longrightarrow> e < b \<Longrightarrow> b - x < b - a"
  by presburger+

function symMerge :: "'s sort_methods \<Rightarrow> 's \<Rightarrow> nat \<Rightarrow> nat \<Rightarrow> nat \<Rightarrow> 's outcome" where
  "symMerge data s a m b =
     (if m - a = 1 then
        let i = lowest_not_less data s a m b
        in Ret (fold (\<lambda>k s. Swap data s k (k + 1)) [a..<i - 1] s)
      else if b - m = 1 then
        let i = lowest_greater data s a m
        in Ret (fold (\<lambda>k s. Swap data s k (k - 1)) (rev [i + 1..<m + 1]) s)
      else
        let mid = (a + b) div 2; n = mid + m;
            (start, r) = (if m > mid then (n - b, mid) else (a, m));
            p = n - 1;
            start = sym_start data s p start r;
            end' = n - start
        in obind (if start < m \<and> m < end' then rotate data s start m end' else Ret s) (\<lambda>s.
           obind (if a < start \<and> start < mid then symMerge data s a start mid else Ret s) (\<lambda>s.
             if mid < end' \<and> end' < b then symMerge data s mid end' b else Ret s)))"
  by pat_completeness auto
termination
proof (relation "measure (\<lambda>(_, _, a, _, b). b - a)", goal_cases)
  case (2 data s a m b mid)
  then show ?case using sym_halves(1) [of a mid b] by simp
next
  case (3 data s a m b mid n u start r p start' end')
  then show ?case using sym_halves(2) [of mid a b end'] by simp
qed simp

declare rotate_loop.simps [simp del] symMerge.simps [simp del]

text \<open>The loops of \<open>stable\<close>: blocks of 20 are sorted, then pairs of blocks are merged, and the size of
  blocks doubles.  With a size of 0 neither loop would end.\<close>

function stable_blocks :: "'s sort_methods \<Rightarrow> nat \<Rightarrow> 's \<Rightarrow> nat \<Rightarrow> 's" where
  "stable_blocks data n s a =
     (if a + 20 \<le> n then stable_blocks data n (insertionSort data s a (a + 20)) (a + 20)
      else insertionSort data s a n)"
  by pat_completeness auto
termination by (relation "measure (\<lambda>(_, n, _, a). n - a)") auto

function merge_pass :: "'s sort_methods \<Rightarrow> nat \<Rightarrow> nat \<Rightarrow> 's \<Rightarrow> nat \<Rightarrow> 's outcome" where
  "merge_pass data n blockSize s a =
     (if blockSize = 0 then Spin
      else if a + 2 * blockSize \<le> n then
        obind (symMerge data s a (a + blockSize) (a + 2 * blockSize)) (\<lambda>s. merge_pass data n blockSize s (a + 2 * blockSize))
      else if a + blockSize < n then symMerge data s a (a + blockSize) n
      else Ret s)"
  by pat_completeness auto
termination by (relation "measure (\<lambda>(_, n, _, _, a). n - a)") auto

function stable_loop :: "'s sort_methods \<Rightarrow> nat \<Rightarrow> nat \<Rightarrow> 's \<Rightarrow> 's outcome" where
  "stable_loop data n blockSize s =
     (if blockSize = 0 then Spin
      else if blockSize < n then obind (merge_pass data n blockSize s 0) (\<lambda>s. stable_loop data n (2 * blockSize) s)
      else Ret s)"
  by pat_completeness auto
termination by (relation "measure (\<lambda>(_, n, blockSize, _). n - blockSize)") auto

declare stable_blocks.simps [simp del] merge_pass.simps [simp del] stable_loop.simps [simp del]

definition stable :: "'s sort_methods \<Rightarrow> 's \<Rightarrow> nat \<Rightarrow> 's outcome" where
  "stable data s n = stable_loop data n 20 (stable_blocks data n s 0)"

definition Stable :: "'s sort_methods \<Rightarrow> 's \<Rightarrow> 's outcome" where
  "Stable data s = stable data s (Len data s)"

definition SliceStable :: "'a list \<Rightarrow> ('a list \<Rightarrow> nat \<Rightarrow> nat \<Rightarrow> bool) \<Rightarrow> 'a list outcome" where
  "SliceStable x f = stable (slice_methods f) x (length x)"

end
