(* ===== verification/Sort_Spec.thy ===== *)
theory Sort_Spec
  imports Go_Sort "HOL-Library.List_Lexorder"
begin

text \<open>
  What the routines of package \<open>sort\<close> do, proved once for every implementation of
  \<open>sort.Interface\<close>: each permutes the range it is given and touches nothing else, and sorts
  it when \<open>Less\<close> is a strict weak order.  The locales are interpreted on slices with a
  comparison function, on \<open>IntSlice\<close>, on \<open>StringSlice\<close> and on \<open>Reverse\<close> of any instance.
\<close>

section \<open>Permutations of a segment\<close>

definition seg_perm :: "nat \<Rightarrow> nat \<Rightarrow> 'a list \<Rightarrow> 'a list \<Rightarrow> bool" where
  "seg_perm a b xs ys \<longleftrightarrow>
     length ys = length xs \<and> mset ys = mset xs \<and> (\<forall>i<length xs. i < a \<or> b \<le> i \<longrightarrow> ys ! i = xs ! i)"

lemma seg_perm_refl [simp, intro]: "seg_perm a b xs xs"
  by (simp add: seg_perm_def)

lemma seg_perm_trans: "seg_perm a b xs ys \<Longrightarrow> seg_perm a b ys zs \<Longrightarrow> seg_perm a b xs zs"
  by (simp add: seg_perm_def)

lemma seg_perm_mono: "seg_perm a b xs ys \<Longrightarrow> c \<le> a \<Longrightarrow> b \<le> d \<Longrightarrow> seg_perm c d xs ys"
  by (auto simp: seg_perm_def)

lemma seg_perm_length: "seg_perm a b xs ys \<Longrightarrow> length ys = length xs"
  by (simp add: seg_perm_def)

lemma seg_perm_outside: "seg_perm a b xs ys \<Longrightarrow> i < a \<or> b \<le> i \<Longrightarrow> i < length xs \<Longrightarrow> ys ! i = xs ! i"
  unfolding seg_perm_def by blast

lemma seg_perm_swap:
  "i < length xs \<Longrightarrow> j < length xs \<Longrightarrow> a \<le> i \<Longrightarrow> i < b \<Longrightarrow> a \<le> j \<Longrightarrow> j < b \<Longrightarrow> seg_perm a b xs (swap xs i j)"
  by (auto simp: seg_perm_def nth_swap)

text \<open>What holds of all elements of a range holds after a permutation of it.\<close>

lemma seg_perm_set:
  assumes p: "seg_perm a b xs ys" and b: "b \<le> length xs"
  shows "set (drop a (take b ys)) = set (drop a (take b xs))"
proof -
  have l: "length ys = length xs" and m: "mset ys = mset xs"
    and o: "\<And>i. i < length xs \<Longrightarrow> i < a \<or> b \<le> i \<Longrightarrow> ys ! i = xs ! i"
    using p by (auto simp: seg_perm_def)
  have split: "zs = take (min a b) zs @ drop a (take b zs) @ drop b zs" for zs :: "'a list"
    by (cases "a \<le> b") (simp_all add: min_def flip: drop_drop take_drop, metis append_take_drop_id drop_take le_add_diff_inverse take_add append.assoc)
  have "take (min a b) ys = take (min a b) xs" "drop b ys = drop b xs"
    by (rule nth_equalityI; use l o b in auto)+
  then have "mset (drop a (take b ys)) = mset (drop a (take b xs))"
    using m split [of xs] split [of ys] by (metis (no_types, lifting) add_left_cancel add_right_cancel mset_append)
  then show ?thesis by (metis set_mset_mset)
qed

lemma in_seg: "b \<le> length xs \<Longrightarrow> x \<in> set (drop a (take b xs)) \<longleftrightarrow> (\<exists>i. a \<le> i \<and> i < b \<and> x = xs ! i)"
proof -
  assume b: "b \<le> length xs"
  have "x \<in> set (drop a (take b xs)) \<longleftrightarrow> (\<exists>j. j < b - a \<and> drop a (take b xs) ! j = x)"
    using b by (auto simp: in_set_conv_nth)
  also have "\<dots> \<longleftrightarrow> (\<exists>j. j < b - a \<and> xs ! (a + j) = x)"
    using b by auto
  also have "\<dots> \<longleftrightarrow> (\<exists>i. a \<le> i \<and> i < b \<and> x = xs ! i)"
    by (metis add_diff_inverse_nat le_add1 less_diff_conv add.commute not_less)
  finally show ?thesis .
qed

lemma seg_perm_all:
  assumes "seg_perm a b xs ys" "b \<le> length xs" "\<And>i. a \<le> i \<Longrightarrow> i < b \<Longrightarrow> P (xs ! i)" "a \<le> k" "k < b"
  shows "P (ys ! k)"
proof -
  have "ys ! k \<in> set (drop a (take b ys))"
    using assms(2,4,5) seg_perm_length [OF assms(1)] by (subst in_seg) auto
  then have "ys ! k \<in> set (drop a (take b xs))" using seg_perm_set [OF assms(1,2)] by simp
  then show ?thesis using assms(2,3) by (auto simp: in_seg)
qed

section \<open>The interface\<close>

locale sort_interface =
  fixes data :: "'s sort_methods" and elems :: "'s \<Rightarrow> 'a list" and lt :: "'a \<Rightarrow> 'a \<Rightarrow> bool"
  assumes len: "Len data s = length (elems s)"
    and less_lt: "i < length (elems s) \<Longrightarrow> j < length (elems s) \<Longrightarrow> Less data s i j = lt (elems s ! i) (elems s ! j)"
    and swp: "i < length (elems s) \<Longrightarrow> j < length (elems s) \<Longrightarrow> elems (Swap data s i j) = swap (elems s) i j"
begin

lemma swap_perm:
  "i < length (elems s) \<Longrightarrow> j < length (elems s) \<Longrightarrow> a \<le> i \<Longrightarrow> i < b \<Longrightarrow> a \<le> j \<Longrightarrow> j < b \<Longrightarrow>
    seg_perm a b (elems s) (elems (Swap data s i j))"
  by (simp add: swp seg_perm_swap)

lemma length_swapped: "i < length (elems s) \<Longrightarrow> j < length (elems s) \<Longrightarrow> length (elems (Swap data s i j)) = length (elems s)"
  by (simp add: swp)

lemma swap_then:
  assumes "seg_perm a b (elems (Swap data s i j)) ys"
    and "i < length (elems s)" "j < length (elems s)" "a \<le> i" "i < b" "a \<le> j" "j < b"
  shows "seg_perm a b (elems s) ys"
  using seg_perm_trans [OF swap_perm assms(1)] assms(2-) by blast

lemma insertion_inner_perm:
  "j < b \<Longrightarrow> b \<le> length (elems s) \<Longrightarrow> a \<le> j \<Longrightarrow> seg_perm a b (elems s) (elems (insertion_inner data s a j))"
proof (induction j arbitrary: s)
  case (Suc j)
  show ?case
  proof (cases "Suc j > a \<and> Less data s (Suc j) j")
    case True
    moreover have "seg_perm a b (elems (Swap data s (Suc j) j)) (elems (insertion_inner data (Swap data s (Suc j) j) a j))"
      using Suc.prems True by (intro Suc.IH) (auto simp: length_swapped)
    ultimately show ?thesis
      using Suc.prems by (subst insertion_inner.simps) (auto elim!: swap_then)
  qed (subst insertion_inner.simps, auto)
qed (subst insertion_inner.simps, simp)

lemma insertion_outer_perm:
  "a \<le> i \<Longrightarrow> b \<le> length (elems s) \<Longrightarrow> seg_perm a b (elems s) (elems (insertion_outer data s a b i))"
proof (induction "b - i" arbitrary: s i rule: less_induct)
  case less
  show ?case
  proof (cases "i < b")
    case True
    have p: "seg_perm a b (elems s) (elems (insertion_inner data s a i))"
      using less.prems True by (intro insertion_inner_perm)
    with True less.prems seg_perm_length [OF p] less.hyps [of "i + 1" "insertion_inner data s a i"]
    show ?thesis by (subst insertion_outer.simps) (auto intro: seg_perm_trans)
  qed (subst insertion_outer.simps, simp)
qed

lemma insertionSort_perm: "b \<le> length (elems s) \<Longrightarrow> seg_perm a b (elems s) (elems (insertionSort data s a b))"
  by (simp add: insertionSort_def insertion_outer_perm)

lemma pick_child_range:
  "2 * root + 1 < hi \<Longrightarrow> root < pick_child data s root hi first \<and> pick_child data s root hi first < hi"
  by (auto simp: pick_child_def Let_def)

lemma siftDown_perm:
  "first + hi \<le> length (elems s) \<Longrightarrow> root < hi \<Longrightarrow>
    seg_perm first (first + hi) (elems s) (elems (siftDown data s root hi first))"
proof (induction "hi - root" arbitrary: s root rule: less_induct)
  case less
  let ?c = "pick_child data s root hi first"
  show ?case
  proof (cases "2 * root + 1 < hi \<and> Less data s (first + root) (first + ?c)")
    case True
    let ?s = "Swap data s (first + root) (first + ?c)"
    have c: "root < ?c" "?c < hi" using True pick_child_range [of root hi] by auto
    have "seg_perm first (first + hi) (elems ?s) (elems (siftDown data ?s ?c hi first))"
      using c less.prems by (intro less.hyps) (auto simp: length_swapped)
    with c less.prems True show ?thesis
      by (subst siftDown.simps) (auto elim!: swap_then)
  qed (subst siftDown.simps, auto)
qed

lemma siftDown_nop [simp]: "hi = 0 \<Longrightarrow> siftDown data s root hi first = s"
  by (subst siftDown.simps) simp

lemma heap_build_perm:
  "first + hi \<le> length (elems s) \<Longrightarrow> k \<le> hi \<Longrightarrow>
    seg_perm first (first + hi) (elems s) (elems (heap_build data hi first s k))"
proof (induction k arbitrary: s)
  case (Suc i)
  have p: "seg_perm first (first + hi) (elems s) (elems (siftDown data s i hi first))"
    using Suc.prems by (intro siftDown_perm) auto
  from seg_perm_trans [OF p Suc.IH] Suc.prems seg_perm_length [OF p] show ?case by simp
qed simp

lemma heap_pop_step_perm:
  assumes "first + Suc i \<le> length (elems s)"
  shows "seg_perm first (first + Suc i) (elems s)
    (elems (siftDown data (Swap data s first (first + i)) 0 i first))"
proof -
  let ?s = "Swap data s first (first + i)"
  have "seg_perm first (first + i) (elems ?s) (elems (siftDown data ?s 0 i first))"
    using assms by (cases "i = 0") (auto intro!: siftDown_perm simp: length_swapped)
  then have "seg_perm first (first + Suc i) (elems ?s) (elems (siftDown data ?s 0 i first))"
    by (rule seg_perm_mono) auto
  with assms show ?thesis by (auto elim!: swap_then)
qed

lemma heap_pop_perm:
  "first + k \<le> length (elems s) \<Longrightarrow> seg_perm first (first + k) (elems s) (elems (heap_pop data first s k))"
proof (induction k arbitrary: s)
  case (Suc i)
  let ?s = "siftDown data (Swap data s first (first + i)) 0 i first"
  have p: "seg_perm first (first + Suc i) (elems s) (elems ?s)"
    using Suc.prems by (rule heap_pop_step_perm)
  have "seg_perm first (first + i) (elems ?s) (elems (heap_pop data first ?s i))"
    using Suc seg_perm_length [OF p] by simp
  then have "seg_perm first (first + Suc i) (elems ?s) (elems (heap_pop data first ?s i))"
    by (rule seg_perm_mono) auto
  with p show ?case by (auto intro: seg_perm_trans)
qed simp

lemma heapSort_perm:
  assumes "b \<le> length (elems s)" "a \<le> b"
  shows "seg_perm a b (elems s) (elems (heapSort data s a b))"
proof (cases "a = b")
  case True
  then show ?thesis by (simp add: heapSort_def Let_def)
next
  case False
  let ?s = "heap_build data (b - a) a s ((b - a - 1) div 2 + 1)"
  have "(b - a - 1) div 2 + 1 \<le> b - a" using assms False by linarith
  then have p: "seg_perm a b (elems s) (elems ?s)"
    using heap_build_perm [of a "b - a" s "(b - a - 1) div 2 + 1"] assms by (simp del: heap_build.simps)
  have "seg_perm a b (elems ?s) (elems (heap_pop data a ?s (b - a)))"
    using heap_pop_perm [of a "b - a" ?s] assms seg_perm_length [OF p] by simp
  with p show ?thesis unfolding heapSort_def Let_def by (rule seg_perm_trans)
qed

lemma medianOfThree_perm:
  assumes "m1 < length (elems s)" "m0 < length (elems s)" "m2 < length (elems s)"
    "a \<le> m1" "a \<le> m0" "a \<le> m2" "m1 < b" "m0 < b" "m2 < b"
  shows "seg_perm a b (elems s) (elems (medianOfThree data s m1 m0 m2))"
proof -
  define s1 where "s1 = (if Less data s m1 m0 then Swap data s m1 m0 else s)"
  have p1: "seg_perm a b (elems s) (elems s1)"
    using assms by (auto simp: s1_def intro: swap_perm)
  note l1 = seg_perm_length [OF p1]
  define s2 where "s2 = Swap data s1 m2 m1"
  have p2: "seg_perm a b (elems s1) (elems s2)"
    using assms l1 by (auto simp: s2_def intro: swap_perm)
  note l2 = seg_perm_length [OF p2]
  have "seg_perm a b (elems s2) (elems (Swap data s2 m1 m0))"
    using assms l1 l2 by (auto intro: swap_perm)
  with p1 p2 show ?thesis
    unfolding medianOfThree_def Let_def s1_def [symmetric] s2_def [symmetric]
    by (auto intro: seg_perm_trans)
qed

lemma choose_pivot_perm:
  assumes "hi \<le> length (elems s)" "lo + 2 < hi"
  shows "seg_perm lo hi (elems s) (elems (choose_pivot data s lo hi))"
proof -
  let ?d = "(hi - lo) div 8" and ?m = "(lo + hi) div 2"
  define s1 where "s1 = medianOfThree data s lo (lo + ?d) (lo + 2 * ?d)"
  define s2 where "s2 = medianOfThree data s1 ?m (?m - ?d) (?m + ?d)"
  define s3 where "s3 = medianOfThree data s2 (hi - 1) (hi - 1 - ?d) (hi - 1 - 2 * ?d)"
  have p1: "seg_perm lo hi (elems s) (elems s1)"
    unfolding s1_def by (rule medianOfThree_perm) (use assms in linarith)+
  have p2: "seg_perm lo hi (elems s1) (elems s2)"
    unfolding s2_def by (rule medianOfThree_perm) (use assms seg_perm_length [OF p1] in linarith)+
  have p3: "seg_perm lo hi (elems s2) (elems s3)"
    unfolding s3_def
    by (rule medianOfThree_perm) (use assms seg_perm_length [OF p2] seg_perm_length [OF p1] in linarith)+
  have p4: "seg_perm lo hi (elems t) (elems (medianOfThree data t lo ?m (hi - 1)))"
    if "length (elems t) = length (elems s)" for t
    by (rule medianOfThree_perm) (use assms that in linarith)+
  have "length (elems s3) = length (elems s)"
    using p1 p2 p3 by (simp add: seg_perm_length)
  then show ?thesis
    using p1 p2 p3 p4 unfolding choose_pivot_def Let_def s1_def [symmetric] s2_def [symmetric] s3_def [symmetric]
    by (auto intro: seg_perm_trans)
qed

lemma gap_pass_perm:
  "a + 6 \<le> i \<Longrightarrow> b \<le> length (elems s) \<Longrightarrow> seg_perm a b (elems s) (elems (gap_pass data s i b))"
proof (induction "b - i" arbitrary: s i rule: less_induct)
  case less
  let ?s = "if Less data s i (i - 6) then Swap data s i (i - 6) else s"
  show ?case
  proof (cases "i < b")
    case True
    then have p: "seg_perm a b (elems s) (elems ?s)"
      using less.prems by (auto intro!: swap_perm)
    have "seg_perm a b (elems ?s) (elems (gap_pass data ?s (i + 1) b))"
      using less.hyps [of "i + 1" ?s] less.prems seg_perm_length [OF p] True by simp
    from seg_perm_trans [OF p this] True show ?thesis by (subst gap_pass.simps) simp
  qed (subst gap_pass.simps, simp)
qed

end

section \<open>Implementations with a strict weak order\<close>

definition strict_weak :: "('a \<Rightarrow> 'a \<Rightarrow> bool) \<Rightarrow> bool" where
  "strict_weak lt \<longleftrightarrow>
     (\<forall>x y. lt x y \<longrightarrow> \<not> lt y x) \<and> (\<forall>x y z. \<not> lt x y \<longrightarrow> \<not> lt y z \<longrightarrow> \<not> lt x z)"

text \<open>No element of the range is less than an earlier one.\<close>

definition sorted_seg :: "('a \<Rightarrow> 'a \<Rightarrow> bool) \<Rightarrow> nat \<Rightarrow> nat \<Rightarrow> 'a list \<Rightarrow> bool" where
  "sorted_seg lt a b xs \<longleftrightarrow> (\<forall>i j. a \<le> i \<longrightarrow> i < j \<longrightarrow> j < b \<longrightarrow> \<not> lt (xs ! j) (xs ! i))"

definition sorted_but :: "('a \<Rightarrow> 'a \<Rightarrow> bool) \<Rightarrow> nat \<Rightarrow> nat \<Rightarrow> nat \<Rightarrow> 'a list \<Rightarrow> bool" where
  "sorted_but lt a b j xs \<longleftrightarrow>
     (\<forall>i k. a \<le> i \<longrightarrow> i < k \<longrightarrow> k < b \<longrightarrow> i \<noteq> j \<longrightarrow> k \<noteq> j \<longrightarrow> \<not> lt (xs ! k) (xs ! i)) \<and>
     (\<forall>k. j < k \<longrightarrow> k < b \<longrightarrow> \<not> lt (xs ! k) (xs ! j))"

lemma sorted_seg_cong:
  "(\<And>i. a \<le> i \<Longrightarrow> i < b \<Longrightarrow> xs ! i = ys ! i) \<Longrightarrow> sorted_seg lt a b xs \<Longrightarrow> sorted_seg lt a b ys"
  by (simp add: sorted_seg_def)

lemma sorted_seg_app:
  assumes "sorted_seg lt a m xs" "sorted_seg lt m b xs"
    and "\<And>i j. a \<le> i \<Longrightarrow> i < m \<Longrightarrow> m \<le> j \<Longrightarrow> j < b \<Longrightarrow> \<not> lt (xs ! j) (xs ! i)"
  shows "sorted_seg lt a b xs"
  unfolding sorted_seg_def
proof (intro allI impI)
  fix i j assume ij: "a \<le> i" "i < j" "j < b"
  then consider "j < m" | "i < m" "m \<le> j" | "m \<le> i" by linarith
  then show "\<not> lt (xs ! j) (xs ! i)"
    by cases (use assms ij in \<open>auto simp: sorted_seg_def\<close>)
qed

locale sort_order = sort_interface data elems lt
  for data :: "'s sort_methods" and elems :: "'s \<Rightarrow> 'a list" and lt +
  assumes swo: "strict_weak lt"
begin

lemma asym: "lt x y \<Longrightarrow> \<not> lt y x"
  using swo unfolding strict_weak_def by blast

lemma negtrans: "\<not> lt x y \<Longrightarrow> \<not> lt y z \<Longrightarrow> \<not> lt x z"
  using swo unfolding strict_weak_def by blast

lemma irrefl [simp]: "\<not> lt x x"
  using asym by blast

lemma lt_le_trans: "lt x y \<Longrightarrow> \<not> lt z y \<Longrightarrow> lt x z"
  by (rule ccontr) (drule negtrans [of x z y], assumption, simp)

lemma le_lt_trans: "\<not> lt y x \<Longrightarrow> lt y z \<Longrightarrow> lt x z"
  by (rule ccontr) (drule negtrans [of y x z], assumption, simp)

lemma lt_trans: "lt x y \<Longrightarrow> lt y z \<Longrightarrow> lt x z"
  by (rule le_lt_trans [OF asym])

lemma sorted_but_stop:
  assumes "sorted_but lt a b j xs" "j \<le> a \<or> \<not> lt (xs ! j) (xs ! (j - 1))"
  shows "sorted_seg lt a b xs"
  unfolding sorted_seg_def
proof (intro allI impI)
  fix i k assume ik: "a \<le> i" "i < k" "k < b"
  show "\<not> lt (xs ! k) (xs ! i)"
  proof (cases "k = j")
    case True
    with ik assms(2) have l: "\<not> lt (xs ! j) (xs ! (j - 1))" by simp
    show ?thesis
    proof (cases "i = j - 1")
      case False
      then have "\<not> lt (xs ! (j - 1)) (xs ! i)"
        using assms(1) ik True by (simp add: sorted_but_def)
      with l negtrans True show ?thesis by blast
    qed (use l True in simp)
  qed (use assms(1) ik in \<open>auto simp: sorted_but_def\<close>)
qed

lemma sorted_but_swap:
  assumes "sorted_but lt a b j xs" "a < j" "j < b" "b \<le> length xs" "lt (xs ! j) (xs ! (j - 1))"
  shows "sorted_but lt a b (j - 1) (swap xs j (j - 1))"
proof -
  have n: "swap xs j (j - 1) ! k = (if k = j then xs ! (j - 1) else if k = j - 1 then xs ! j else xs ! k)"
    if "k < b" for k
    using that assms by (subst nth_swap) auto
  have r: "\<not> lt (xs ! k) (xs ! i)" if "a \<le> i" "i < k" "k < b" "i \<noteq> j" "k \<noteq> j" for i k
    using assms(1) that by (simp add: sorted_but_def)
  have "\<not> lt (swap xs j (j - 1) ! k) (swap xs j (j - 1) ! i)"
    if "a \<le> i" "i < k" "k < b" "i \<noteq> j - 1" "k \<noteq> j - 1" for i k
    using that r [of i k] r [of i "j - 1"] r [of "j - 1" k] assms(2) by (auto simp: n simp del: One_nat_def)
  moreover have "\<not> lt (swap xs j (j - 1) ! k) (swap xs j (j - 1) ! (j - 1))" if "j - 1 < k" "k < b" for k
    using that assms asym [OF assms(5)] by (auto simp: n sorted_but_def simp del: One_nat_def)
  ultimately show ?thesis by (simp add: sorted_but_def)
qed

lemma insertion_inner_sorted:
  "sorted_but lt a b j (elems s) \<Longrightarrow> j < b \<Longrightarrow> b \<le> length (elems s) \<Longrightarrow>
    sorted_seg lt a b (elems (insertion_inner data s a j))"
proof (induction j arbitrary: s)
  case 0
  then show ?case by (subst insertion_inner.simps) (simp add: sorted_but_stop)
next
  case (Suc j)
  have le: "Less data s (Suc j) j = lt (elems s ! Suc j) (elems s ! j)"
    using Suc.prems by (simp add: less_lt)
  show ?case
  proof (cases "Suc j > a \<and> Less data s (Suc j) j")
    case True
    then have "sorted_but lt a b j (elems (Swap data s (Suc j) j))"
      using sorted_but_swap [OF Suc.prems(1)] Suc.prems le by (simp add: swp)
    then have "sorted_seg lt a b (elems (insertion_inner data (Swap data s (Suc j) j) a j))"
      using Suc.prems by (intro Suc.IH) (auto simp: length_swapped)
    with True show ?thesis by (subst insertion_inner.simps) simp
  next
    case False
    then have "sorted_seg lt a b (elems s)"
      using Suc.prems le by (intro sorted_but_stop [OF Suc.prems(1)]) auto
    with False show ?thesis by (subst insertion_inner.simps) auto
  qed
qed

lemma insertion_outer_sorted:
  "sorted_seg lt a i (elems s) \<Longrightarrow> a \<le> i \<Longrightarrow> b \<le> length (elems s) \<Longrightarrow>
    sorted_seg lt a b (elems (insertion_outer data s a b i))"
proof (induction "b - i" arbitrary: s i rule: less_induct)
  case less
  show ?case
  proof (cases "i < b")
    case True
    let ?s = "insertion_inner data s a i"
    have p: "seg_perm a (i + 1) (elems s) (elems ?s)"
      using less.prems True by (intro insertion_inner_perm) auto
    have "sorted_but lt a (i + 1) i (elems s)"
      using less.prems(1) by (auto simp: sorted_but_def sorted_seg_def)
    then have "sorted_seg lt a (i + 1) (elems ?s)"
      using less.prems True by (intro insertion_inner_sorted) auto
    then have "sorted_seg lt a b (elems (insertion_outer data ?s a b (i + 1)))"
      using less.prems True seg_perm_length [OF p] by (intro less.hyps) auto
    with True show ?thesis by (subst insertion_outer.simps) simp
  next
    case False
    then show ?thesis using less.prems by (subst insertion_outer.simps) (simp add: sorted_seg_def)
  qed
qed

lemma insertionSort_sorted: "b \<le> length (elems s) \<Longrightarrow> sorted_seg lt a b (elems (insertionSort data s a b))"
  unfolding insertionSort_def by (rule insertion_outer_sorted) (auto simp: sorted_seg_def)

end

section \<open>Heap sort\<close>

definition offs :: "nat \<Rightarrow> 'a list \<Rightarrow> nat \<Rightarrow> 'a" where
  "offs first xs i = xs ! (first + i)"

lemma offs_swap:
  "first + i < length xs \<Longrightarrow> first + j < length xs \<Longrightarrow>
    offs first (swap xs (first + i) (first + j)) = (offs first xs)(i := offs first xs j, j := offs first xs i)"
  by (rule ext) (auto simp: offs_def swap_def nth_list_update)

context sort_order
begin

lemma ge_transp: "transp (\<lambda>x y. \<not> lt x y)"
  using negtrans by (blast intro: transpI)

lemma ge_reflp: "reflp (\<lambda>x y. \<not> lt x y)"
  by (simp add: reflp_def)

lemma pick_child_spec:
  assumes c: "c = pick_child data s root hi first" and r: "2 * root + 1 < hi" and l: "first + hi \<le> length (elems s)"
  shows "0 < c" "par 2 c = root"
    "0 < i \<Longrightarrow> i < hi \<Longrightarrow> par 2 i = root \<Longrightarrow> \<not> lt (offs first (elems s) c) (offs first (elems s) i)"
proof -
  have c': "c = 2 * root + 1 \<or> c = 2 * root + 2"
    using c by (auto simp: pick_child_def Let_def)
  then show "0 < c" "par 2 c = root" by (auto simp: par_def)
  assume i: "0 < i" "i < hi" "par 2 i = root"
  then have "i = 2 * root + 1 \<or> i = 2 * root + 2" using par_child [of 2 i root] by auto
  moreover have "Less data s (first + (2 * root + 1)) (first + (2 * root + 1) + 1) =
      lt (offs first (elems s) (2 * root + 1)) (offs first (elems s) (2 * root + 2))" if "2 * root + 2 < hi"
    using that l by (simp add: less_lt offs_def)
  ultimately show "\<not> lt (offs first (elems s) c) (offs first (elems s) i)"
    using c i asym unfolding pick_child_def Let_def by (auto split: if_splits)
qed

lemma siftDown_heap:
  assumes "heap_but (\<lambda>x y. \<not> lt x y) 2 lo hi (offs first (elems s)) root"
    and "upper (\<lambda>x y. \<not> lt x y) 2 lo (offs first (elems s)) root"
    and "lo \<le> root" "first + hi \<le> length (elems s)"
  shows "heap_on (\<lambda>x y. \<not> lt x y) 2 lo hi (offs first (elems (siftDown data s root hi first)))"
  using assms
proof (induction "hi - root" arbitrary: s root rule: less_induct)
  case less
  let ?c = "pick_child data s root hi first" and ?f = "offs first (elems s)"
  show ?case
  proof (cases "2 * root + 1 < hi")
    case False
    have "lower (\<lambda>x y. \<not> lt x y) 2 hi ?f root"
      unfolding lower_def using par_child [of 2 _ root] False by auto
    then have "heap_on (\<lambda>x y. \<not> lt x y) 2 lo hi ?f"
      using less.prems heap_but_stop by blast
    with False show ?thesis by (subst siftDown.simps) simp
  next
    case True
    note pc = pick_child_spec [OF refl True less.prems(4)]
    have c: "root < ?c" "?c < hi" using True pick_child_range [of root hi] by auto
    have le: "Less data s (first + root) (first + ?c) = lt (?f root) (?f ?c)"
      using c less.prems by (simp add: less_lt offs_def)
    show ?thesis
    proof (cases "lt (?f root) (?f ?c)")
      case False
      have "lower (\<lambda>x y. \<not> lt x y) 2 hi ?f root"
        unfolding lower_def using pc(3) False negtrans by blast
      then have "heap_on (\<lambda>x y. \<not> lt x y) 2 lo hi ?f"
        using less.prems heap_but_stop by blast
      with False le show ?thesis by (subst siftDown.simps) simp
    next
      case lt: True
      let ?s = "Swap data s (first + root) (first + ?c)"
      have f: "offs first (elems ?s) = ?f(root := ?f ?c, ?c := ?f root)"
        using c less.prems by (simp add: swp offs_swap)
      have "heap_but (\<lambda>x y. \<not> lt x y) 2 lo hi (offs first (elems ?s)) ?c \<and>
          upper (\<lambda>x y. \<not> lt x y) 2 lo (offs first (elems ?s)) ?c"
        unfolding f
        by (rule heap_down_step [OF less.prems(1) pc(1) c(2) pc(2)])
          (use pc(3) asym [OF lt] less.prems in auto)
      then have "heap_on (\<lambda>x y. \<not> lt x y) 2 lo hi (offs first (elems (siftDown data ?s ?c hi first)))"
        using c less.prems by (intro less.hyps) (auto simp: length_swapped)
      with lt le True show ?thesis by (subst siftDown.simps) simp
    qed
  qed
qed

lemma heap_build_heap:
  "heap_on (\<lambda>x y. \<not> lt x y) 2 k hi (offs first (elems s)) \<Longrightarrow> first + hi \<le> length (elems s) \<Longrightarrow> k \<le> hi \<Longrightarrow>
    heap_on (\<lambda>x y. \<not> lt x y) 2 0 hi (offs first (elems (heap_build data hi first s k)))"
proof (induction k arbitrary: s)
  case (Suc i)
  have "heap_on (\<lambda>x y. \<not> lt x y) 2 i hi (offs first (elems (siftDown data s i hi first)))"
    using heap_on_start [OF Suc.prems(1)] Suc.prems(2) by (intro siftDown_heap) auto
  moreover have "length (elems (siftDown data s i hi first)) = length (elems s)"
    using siftDown_perm [of first hi s i] Suc.prems by (auto dest: seg_perm_length)
  ultimately show ?case using Suc by simp
qed simp

text \<open>One round of the second loop: the greatest element goes to the end.\<close>

lemma heap_pop_step:
  assumes h: "heap_on (\<lambda>x y. \<not> lt x y) 2 0 (Suc i) (offs first (elems s))"
    and l: "first + Suc i \<le> length (elems s)"
    and t: "t = siftDown data (Swap data s first (first + i)) 0 i first"
  shows "heap_on (\<lambda>x y. \<not> lt x y) 2 0 i (offs first (elems t))"
    and "elems t ! (first + i) = elems s ! first"
    and "\<forall>k<i. \<not> lt (elems s ! first) (elems t ! (first + k))"
proof -
  let ?s = "Swap data s first (first + i)" and ?f = "offs first (elems s)"
  have f: "offs first (elems ?s) = ?f(0 := ?f i, i := ?f 0)"
    using l offs_swap [of first 0 "elems s" i] by (simp add: swp)
  have top: "\<not> lt (?f 0) (?f k)" if "k \<le> i" for k
    using heap_on_root [OF h ge_transp ge_reflp, of k] that by simp
  have hb: "heap_but (\<lambda>x y. \<not> lt x y) 2 0 i (offs first (elems ?s)) 0"
  proof -
    have "heap_on (\<lambda>x y. \<not> lt x y) 2 0 i ?f" using heap_on_shrink [OF h] by simp
    then have "heap_but (\<lambda>x y. \<not> lt x y) 2 0 i (?f(0 := ?f i)) 0"
      by (intro heap_but_upd heap_on_but ge_transp)
    then show ?thesis
      unfolding f by (rule heap_but_cong) simp
  qed
  have l': "length (elems ?s) = length (elems s)" using l by (simp add: swp)
  then show "heap_on (\<lambda>x y. \<not> lt x y) 2 0 i (offs first (elems t))"
    unfolding t using hb l by (intro siftDown_heap) (auto simp: upper_def)
  have p: "seg_perm first (first + i) (elems ?s) (elems t)"
    unfolding t using l l' by (cases "i = 0") (auto intro: siftDown_perm)
  show "elems t ! (first + i) = elems s ! first"
    using seg_perm_outside [OF p, of "first + i"] l l' by (simp add: swp nth_swap)
  show "\<forall>k<i. \<not> lt (elems s ! first) (elems t ! (first + k))"
  proof (intro allI impI)
    fix k assume k: "k < i"
    show "\<not> lt (elems s ! first) (elems t ! (first + k))"
    proof (rule seg_perm_all [OF p])
      fix j assume j: "first \<le> j" "j < first + i"
      then show "\<not> lt (elems s ! first) (elems ?s ! j)"
        using top [of i] top [of "j - first"] l by (auto simp: swp nth_swap offs_def)
    qed (use k l l' in auto)
  qed
qed

lemma heap_pop_sorted:
  "heap_on (\<lambda>x y. \<not> lt x y) 2 0 k (offs first (elems s)) \<Longrightarrow> first + k \<le> b \<Longrightarrow> b \<le> length (elems s) \<Longrightarrow>
    sorted_seg lt (first + k) b (elems s) \<Longrightarrow>
    (\<And>i j. i < k \<Longrightarrow> first + k \<le> j \<Longrightarrow> j < b \<Longrightarrow> \<not> lt (elems s ! j) (elems s ! (first + i))) \<Longrightarrow>
    sorted_seg lt first b (elems (heap_pop data first s k))"
proof (induction k arbitrary: s)
  case (Suc i)
  let ?t = "siftDown data (Swap data s first (first + i)) 0 i first"
  have l: "first + Suc i \<le> length (elems s)" using Suc.prems by simp
  note st = heap_pop_step [OF Suc.prems(1) l refl]
  note p = heap_pop_step_perm [OF l]
  have same: "elems ?t ! j = elems s ! j" if "first + Suc i \<le> j" "j < b" for j
    using seg_perm_outside [OF p] that Suc.prems(3) by simp
  have new: "\<not> lt (elems s ! j) (elems ?t ! (first + m))" if "m \<le> i" "first + Suc i \<le> j" "j < b" for m j
    by (rule seg_perm_all [OF p l])
      (use Suc.prems(5) [of _ j] that in \<open>auto, metis add_diff_inverse_nat less_SucI less_diff_conv2 not_less add.commute add_Suc_right\<close>)
  have "sorted_seg lt first b (elems (heap_pop data first ?t i))"
  proof (rule Suc.IH)
    show "sorted_seg lt (first + i) b (elems ?t)"
      unfolding sorted_seg_def
    proof (intro allI impI)
      fix m j assume m: "first + i \<le> m" "m < j" "j < b"
      show "\<not> lt (elems ?t ! j) (elems ?t ! m)"
        using Suc.prems(4) new [of i j] same m by (cases "m = first + i") (auto simp: sorted_seg_def)
    qed
    show "\<not> lt (elems ?t ! j) (elems ?t ! (first + m))" if "m < i" "first + i \<le> j" "j < b" for m j
      using st(2,3) new [of m j] same [of j] that by (cases "j = first + i") auto
    show "b \<le> length (elems ?t)" using Suc.prems seg_perm_length [OF p] by simp
  qed (use st Suc.prems in auto)
  then show ?case by simp
qed simp

lemma heapSort_sorted:
  assumes "b \<le> length (elems s)" "a \<le> b"
  shows "sorted_seg lt a b (elems (heapSort data s a b))"
proof (cases "a = b")
  case False
  let ?k = "(b - a - 1) div 2 + 1"
  let ?s = "heap_build data (b - a) a s ?k"
  have k: "?k \<le> b - a" "b - a \<le> 2 * ?k + 1" using assms False by presburger+
  have l: "length (elems ?s) = length (elems s)"
    using heap_build_perm [of a "b - a" s ?k] assms k by (auto dest: seg_perm_length simp del: heap_build.simps)
  have "heap_on (\<lambda>x y. \<not> lt x y) 2 0 (b - a) (offs a (elems ?s))"
    using k assms by (intro heap_build_heap heap_on_leaf) auto
  then have "sorted_seg lt a b (elems (heap_pop data a ?s (b - a)))"
    using assms l by (intro heap_pop_sorted) (auto simp: sorted_seg_def)
  then show ?thesis by (simp add: heapSort_def Let_def)
qed (simp add: sorted_seg_def)

end

section \<open>Partitioning\<close>

lemma scan_up_spec:
  "a \<le> scan_up p a c \<and> (a \<le> c \<longrightarrow> scan_up p a c \<le> c) \<and> (\<forall>i. a \<le> i \<longrightarrow> i < scan_up p a c \<longrightarrow> p i) \<and>
    (scan_up p a c < c \<longrightarrow> \<not> p (scan_up p a c))"
proof (induction p a c rule: scan_up.induct)
  case (1 p a c)
  show ?case
  proof (cases "a < c \<and> p a")
    case True
    then have e: "scan_up p a c = scan_up p (a + 1) c" by (subst scan_up.simps) simp
    have "p i" if "a \<le> i" "i < scan_up p (a + 1) c" for i
      using 1 [OF True] that True by (cases "i = a") auto
    then show ?thesis unfolding e using 1 [OF True] True by simp
  next
    case False
    then have e: "scan_up p a c = a" by (subst scan_up.simps) auto
    from False show ?thesis unfolding e by auto
  qed
qed

lemma scan_down_spec:
  "(b \<le> c \<longrightarrow> b \<le> scan_down p b c) \<and> scan_down p b c \<le> c \<and> (\<forall>i. scan_down p b c \<le> i \<longrightarrow> i < c \<longrightarrow> p i) \<and>
    (b < scan_down p b c \<longrightarrow> \<not> p (scan_down p b c - 1))"
proof (induction p b c rule: scan_down.induct)
  case (1 p b c)
  show ?case
  proof (cases "b < c \<and> p (c - 1)")
    case True
    then have e: "scan_down p b c = scan_down p b (c - 1)" by (subst scan_down.simps) simp
    have "p i" if "scan_down p b (c - 1) \<le> i" "i < c" for i
      using 1 [OF True] that True by (cases "i = c - 1") auto
    then show ?thesis unfolding e using 1 [OF True] True by auto
  next
    case False
    then have e: "scan_down p b c = c" by (subst scan_down.simps) auto
    from False show ?thesis unfolding e by auto
  qed
qed

text \<open>The three parts of a partitioned range: not above the pivot, equal to it, not below.\<close>

definition parts :: "('a \<Rightarrow> 'a \<Rightarrow> bool) \<Rightarrow> 'a \<Rightarrow> nat \<Rightarrow> nat \<Rightarrow> nat \<Rightarrow> nat \<Rightarrow> 'a list \<Rightarrow> bool" where
  "parts lt p lo b c hi xs \<longleftrightarrow>
     (\<forall>i. lo \<le> i \<longrightarrow> i < c \<longrightarrow> \<not> lt p (xs ! i)) \<and> (\<forall>i. b \<le> i \<longrightarrow> i < hi \<longrightarrow> \<not> lt (xs ! i) p)"

context sort_order
begin

lemma medianOfThree_last:
  assumes "m1 < length (elems s)" "m0 < length (elems s)" "m2 < length (elems s)"
    "m1 \<noteq> m0" "m1 \<noteq> m2" "m0 \<noteq> m2" and r: "r = medianOfThree data s m1 m0 m2"
  shows "\<not> lt (elems r ! m2) (elems r ! m1)"
proof -
  define s1 where "s1 = (if Less data s m1 m0 then Swap data s m1 m0 else s)"
  have l1: "length (elems s1) = length (elems s)" using assms by (simp add: s1_def swp)
  have o1: "\<not> lt (elems s1 ! m1) (elems s1 ! m0)"
    using assms(1-4) asym by (simp add: s1_def swp less_lt nth_swap)
  define s2 where "s2 = Swap data s1 m2 m1"
  have e2: "elems s2 = swap (elems s1) m2 m1" using assms l1 by (simp add: s2_def swp)
  have n2: "elems s2 ! m1 = elems s1 ! m2" "elems s2 ! m2 = elems s1 ! m1" "elems s2 ! m0 = elems s1 ! m0"
    using assms(1-6) l1 by (auto simp: e2 nth_swap)
  have n3: "elems (Swap data s2 m1 m0) ! m1 = elems s2 ! m0" "elems (Swap data s2 m1 m0) ! m2 = elems s2 ! m2"
    using assms(1-6) l1 e2 by (auto simp: swp nth_swap)
  have "Less data s1 m2 m1 = lt (elems s1 ! m2) (elems s1 ! m1)" using assms(1-3) l1 by (simp add: less_lt)
  then have r: "r = (if lt (elems s1 ! m2) (elems s1 ! m1)
      then if Less data s2 m1 m0 then Swap data s2 m1 m0 else s2 else s1)"
    unfolding r medianOfThree_def Let_def s1_def [symmetric] s2_def [symmetric] by (simp only:)
  show ?thesis
    unfolding r using o1 asym [of "elems s1 ! m2" "elems s1 ! m1"] by (simp add: n2 n3)
qed

lemma choose_pivot_last:
  assumes "hi \<le> length (elems s)" "lo + 2 < hi" and r: "r = choose_pivot data s lo hi"
  shows "\<not> lt (elems r ! (hi - 1)) (elems r ! lo)"
proof -
  obtain t where t: "length (elems t) = length (elems s)" "r = medianOfThree data t lo ((lo + hi) div 2) (hi - 1)"
  proof (cases "hi - lo > 40")
    case True
    let ?d = "(hi - lo) div 8" and ?m = "(lo + hi) div 2"
    define s1 where "s1 = medianOfThree data s lo (lo + ?d) (lo + 2 * ?d)"
    define s2 where "s2 = medianOfThree data s1 ?m (?m - ?d) (?m + ?d)"
    define s3 where "s3 = medianOfThree data s2 (hi - 1) (hi - 1 - ?d) (hi - 1 - 2 * ?d)"
    have l1: "length (elems s1) = length (elems s)" unfolding s1_def
      by (rule seg_perm_length, rule medianOfThree_perm [where a = lo and b = hi]) (use assms in linarith)+
    have l2: "length (elems s2) = length (elems s)" unfolding s2_def l1 [symmetric]
      by (rule seg_perm_length, rule medianOfThree_perm [where a = lo and b = hi]) (use assms l1 in linarith)+
    have l3: "length (elems s3) = length (elems s)" unfolding s3_def l2 [symmetric]
      by (rule seg_perm_length, rule medianOfThree_perm [where a = lo and b = hi]) (use assms l2 in linarith)+
    have "r = medianOfThree data s3 lo ?m (hi - 1)"
      using True by (simp add: r choose_pivot_def Let_def s1_def s2_def s3_def)
    with l3 that show ?thesis by blast
  qed (use r that in \<open>simp add: choose_pivot_def Let_def\<close>)
  have "lo < (lo + hi) div 2" "(lo + hi) div 2 < hi - 1" using assms by linarith+
  with assms t(1) show ?thesis by (intro medianOfThree_last [OF _ _ _ _ _ _ t(2)]) simp_all
qed

lemma partition_loop_spec:
  "b \<le> c \<Longrightarrow> c \<le> length (elems s) \<Longrightarrow> pivot < b \<Longrightarrow> p = elems s ! pivot \<Longrightarrow>
    partition_loop data s pivot b c = (s', b', c') \<Longrightarrow>
    seg_perm b c (elems s) (elems s') \<and> b' = c' \<and> b \<le> b' \<and> b' \<le> c \<and> parts lt p b b' b' c (elems s')"
proof (induction "c - b" arbitrary: s b c rule: less_induct)
  case less
  define b1 where "b1 = scan_up (\<lambda>i. \<not> Less data s pivot i) b c"
  define c1 where "c1 = scan_down (\<lambda>i. Less data s pivot i) b1 c"
  have ls: "Less data s pivot i = lt p (elems s ! i)" if "i < c" for i
    using that less.prems by (simp add: less_lt)
  have bb: "b \<le> b1" "b1 \<le> c" and up: "\<And>i. b \<le> i \<Longrightarrow> i < b1 \<Longrightarrow> \<not> lt p (elems s ! i)"
    and ub: "b1 < c \<Longrightarrow> lt p (elems s ! b1)"
    using scan_up_spec [of b "\<lambda>i. \<not> Less data s pivot i" c] less.prems(1) ls by (auto simp: b1_def)
  have cc: "b1 \<le> c1" "c1 \<le> c" and dn: "\<And>i. c1 \<le> i \<Longrightarrow> i < c \<Longrightarrow> lt p (elems s ! i)"
    and uc: "b1 < c1 \<Longrightarrow> \<not> lt p (elems s ! (c1 - 1))"
    using scan_down_spec [of b1 c "\<lambda>i. Less data s pivot i"] bb ls by (auto simp: c1_def)
  note unf = partition_loop.simps [of data s pivot b c, folded b1_def, unfolded Let_def, folded c1_def]
  show ?case
  proof (cases "b1 \<ge> c1")
    case True
    then have "s' = s" "b' = b1" "c' = c1" using less.prems(5) by (auto simp: unf)
    with True bb cc up dn asym show ?thesis by (auto simp: parts_def)
  next
    case False
    let ?t = "Swap data s b1 (c1 - 1)"
    have ne: "b1 \<noteq> c1 - 1" "b1 < c" "b1 < c1" using False ub uc cc by auto
    have el: "elems ?t = swap (elems s) b1 (c1 - 1)" using False cc less.prems by (simp add: swp)
    note el = el el [unfolded One_nat_def]
    have px: "p = elems ?t ! pivot" using less.prems bb cc False by (auto simp: el nth_swap simp del: One_nat_def)
    have IH: "seg_perm (b1 + 1) (c1 - 1) (elems ?t) (elems s') \<and> b' = c' \<and> b1 + 1 \<le> b' \<and> b' \<le> c1 - 1 \<and>
        parts lt p (b1 + 1) b' b' (c1 - 1) (elems s')"
      by (rule less.hyps) (use False ne bb cc less.prems px in \<open>auto simp: unf el\<close>)
    then have o: "elems s' ! i = elems ?t ! i" if "i < length (elems s)" "i \<le> b1 \<or> c1 - 1 \<le> i" for i
      using that by (intro seg_perm_outside [of "b1 + 1" "c1 - 1"]) (auto simp: el)
    have "seg_perm b c (elems s) (elems ?t)"
      using False bb cc less.prems by (intro swap_perm) auto
    moreover have "seg_perm b c (elems ?t) (elems s')" using IH bb cc by (auto elim: seg_perm_mono)
    moreover have "\<not> lt p (elems s' ! i)" if i: "b \<le> i" "i < b'" for i
    proof (cases "i \<le> b1")
      case True
      then show ?thesis using o [of i] up [OF i(1)] uc False i IH cc less.prems
        by (cases "i = b1") (auto simp: el nth_swap)
    next
      case False
      then show ?thesis using IH i by (auto simp: parts_def)
    qed
    moreover have "\<not> lt (elems s' ! i) p" if i: "b' \<le> i" "i < c" for i
    proof (cases "c1 - 1 \<le> i")
      case True
      then show ?thesis using o [of i] dn [of i] ub ne asym i less.prems bb cc
        by (cases "i = c1 - 1") (auto simp: el nth_swap)
    next
      case False
      then show ?thesis using IH i by (auto simp: parts_def)
    qed
    ultimately show ?thesis using IH bb cc ne by (auto simp: parts_def intro: seg_perm_trans)
  qed
qed

lemma dups_loop_spec:
  "b \<le> length (elems s) \<Longrightarrow> pivot < a \<Longrightarrow> p = elems s ! pivot \<Longrightarrow>
    (\<And>i. a \<le> i \<Longrightarrow> i < b \<Longrightarrow> \<not> lt p (elems s ! i)) \<Longrightarrow>
    dups_loop data s pivot a b = (s', b') \<Longrightarrow>
    seg_perm a b (elems s) (elems s') \<and> b' \<le> b \<and> (b' = b \<or> a \<le> b') \<and> (\<forall>i. b' \<le> i \<longrightarrow> i < b \<longrightarrow> \<not> lt (elems s' ! i) p)"
proof (induction "b - a" arbitrary: s a b rule: less_induct)
  case less
  define b1 where "b1 = scan_down (\<lambda>i. \<not> Less data s i pivot) a b"
  define a1 where "a1 = scan_up (\<lambda>i. Less data s i pivot) a b1"
  note unf = dups_loop.simps [of data s pivot a b, folded b1_def, unfolded Let_def, folded a1_def]
  show ?case
  proof (cases "a < b")
    case False
    then have "b1 = b" by (simp add: b1_def scan_down.simps [of _ a b])
    moreover from this have "a1 = a" using False by (simp add: a1_def scan_up.simps [of _ a b])
    ultimately show ?thesis using less.prems(5) False by (simp add: unf)
  next
    case ab: True
    have ls: "Less data s i pivot = lt (elems s ! i) p" if "i < b" for i
      using that less.prems ab by (simp add: less_lt)
    have bb: "a \<le> b1" "b1 \<le> b" and dn: "\<And>i. b1 \<le> i \<Longrightarrow> i < b \<Longrightarrow> \<not> lt (elems s ! i) p"
      and ub: "a < b1 \<Longrightarrow> lt (elems s ! (b1 - 1)) p"
      using scan_down_spec [of a b "\<lambda>i. \<not> Less data s i pivot"] ab ls by (auto simp: b1_def)
    have aa: "a \<le> a1" "a1 \<le> b1" and ua: "a1 < b1 \<Longrightarrow> \<not> lt (elems s ! a1) p"
      using scan_up_spec [of a "\<lambda>i. Less data s i pivot" b1] bb ls by (auto simp: a1_def)
    show ?thesis
    proof (cases "a1 \<ge> b1")
      case True
      then have "s' = s" "b' = b1" using less.prems(5) by (auto simp: unf)
      with bb dn show ?thesis by auto
    next
      case False
      let ?t = "Swap data s a1 (b1 - 1)"
      have ne: "a1 \<noteq> b1 - 1" using False ua ub aa by auto
      have el: "elems ?t = swap (elems s) a1 (b1 - 1)" using False bb less.prems by (simp add: swp)
      note el = el el [unfolded One_nat_def]
      have px: "p = elems ?t ! pivot" using less.prems aa bb False by (auto simp: el nth_swap simp del: One_nat_def)
      have st: "seg_perm a b (elems s) (elems ?t)"
        using False aa bb less.prems by (intro swap_perm) auto
      have IH: "seg_perm (a1 + 1) (b1 - 1) (elems ?t) (elems s') \<and> b' \<le> b1 - 1 \<and> (b' = b1 - 1 \<or> a1 + 1 \<le> b') \<and>
          (\<forall>i. b' \<le> i \<longrightarrow> i < b1 - 1 \<longrightarrow> \<not> lt (elems s' ! i) p)"
      proof (rule less.hyps)
        fix i assume i: "a1 + 1 \<le> i" "i < b1 - 1"
        then show "\<not> lt p (elems ?t ! i)"
          using less.prems(4) [of i] less.prems(1) aa bb by (simp add: el nth_swap)
      qed (use False ne aa bb less.prems px in \<open>auto simp: unf el\<close>)
      then have o: "elems s' ! i = elems ?t ! i" if "i < length (elems s)" "b1 - 1 \<le> i" for i
        using that by (intro seg_perm_outside [of "a1 + 1" "b1 - 1"]) (auto simp: el)
      have "\<not> lt (elems s' ! i) p" if i: "b' \<le> i" "i < b" for i
      proof (cases "b1 - 1 \<le> i")
        case True
        then show ?thesis using o [of i] dn [of i] ua False i less.prems bb aa
          by (cases "i = b1 - 1") (auto simp: el nth_swap)
      next
        case False
        then show ?thesis using IH i by auto
      qed
      moreover have "seg_perm a b (elems ?t) (elems s')" using IH aa bb by (auto elim: seg_perm_mono)
      ultimately show ?thesis using IH st aa bb False by (auto intro: seg_perm_trans)
    qed
  qed
qed

end

definition split_at :: "('a \<Rightarrow> 'a \<Rightarrow> bool) \<Rightarrow> nat \<Rightarrow> nat \<Rightarrow> nat \<Rightarrow> nat \<Rightarrow> 'a list \<Rightarrow> bool" where
  "split_at lt lo mlo mhi hi xs \<longleftrightarrow> lo \<le> mlo \<and> mlo < mhi \<and> mhi \<le> hi \<and> (\<exists>p. parts lt p lo mlo mhi hi xs)"

context sort_order
begin

lemma parts_mono: "parts lt p lo b c hi xs \<Longrightarrow> lo \<le> lo' \<Longrightarrow> b \<le> b' \<Longrightarrow> c' \<le> c \<Longrightarrow> hi' \<le> hi \<Longrightarrow> parts lt p lo' b' c' hi' xs"
  by (simp add: parts_def)

text \<open>The first and the second test: an end of a part is equal to the pivot.\<close>

lemma parts_take_high:
  assumes p: "parts lt p lo c c hi xs" and l: "c < hi" "hi \<le> length xs" and e: "\<not> lt p (xs ! (hi - 1))"
  shows "parts lt p lo c (c + 1) hi (swap xs c (hi - 1))"
proof -
  have hl: "hi - 1 < length xs" "c < length xs" using l by auto
  have "\<not> lt p (swap xs c (hi - 1) ! k)" if "lo \<le> k" "k < c + 1" for k
    using p e that l hl nth_swap [OF hl(2,1), of k] unfolding parts_def by (cases "k = c") auto
  moreover have "\<not> lt (swap xs c (hi - 1) ! k) p" if "c \<le> k" "k < hi" for k
    using p that l hl nth_swap [OF hl(2,1), of k] unfolding parts_def by auto
  ultimately show ?thesis by (simp add: parts_def)
qed

lemma parts_take_low:
  assumes p: "parts lt p lo b c hi xs" and e: "\<not> lt (xs ! (b - 1)) p"
  shows "parts lt p lo (b - 1) c hi xs"
proof -
  have "\<not> lt (xs ! k) p" if "b - 1 \<le> k" "k < hi" for k
    using p e that by (cases "k = b - 1") (auto simp: parts_def)
  with p show ?thesis by (simp add: parts_def)
qed

lemma parts_take_mid:
  assumes p: "parts lt p lo b c hi xs" and m: "lo \<le> m" "m < b" "b \<le> c" "c \<le> hi" "hi \<le> length xs"
    and e: "\<not> lt (xs ! m) p"
  shows "parts lt p lo (b - 1) c hi (swap xs m (b - 1))"
proof -
  have hl: "m < length xs" "b - 1 < length xs" using m by auto
  have pm: "\<not> lt p (xs ! m)" "\<not> lt p (xs ! (b - 1))" using p m by (auto simp: parts_def)
  have "\<not> lt p (swap xs m (b - 1) ! k)" if "lo \<le> k" "k < c" for k
    using p that m pm nth_swap [OF hl, of k] unfolding parts_def by auto
  moreover have "\<not> lt (swap xs m (b - 1) ! k) p" if "b - 1 \<le> k" "k < hi" for k
    using p that m e nth_swap [OF hl, of k] unfolding parts_def by (cases "k = b - 1") auto
  ultimately show ?thesis by (simp add: parts_def)
qed

lemma test_dups_spec:
  assumes pp: "p = elems s ! pivot" and P: "parts lt p (pivot + 1) c c hi (elems s)"
    and b: "pivot < m" "m + 2 \<le> c" "c < hi" "hi \<le> length (elems s)"
    and r: "test_dups data s pivot m hi c c = (s', b', c', d)"
  shows "seg_perm (pivot + 1) hi (elems s) (elems s') \<and> parts lt p (pivot + 1) b' c' hi (elems s') \<and>
    m \<le> b' \<and> b' \<le> c' \<and> c' \<le> hi"
proof -
  define h where "h \<longleftrightarrow> \<not> Less data s pivot (hi - 1)"
  define s1 where "s1 = (if h then Swap data s c (hi - 1) else s)"
  define c1 where "c1 = (if h then c + 1 else c)"
  define b1 where "b1 = (if \<not> Less data s1 (c - 1) pivot then c - 1 else c)"
  define g where "g \<longleftrightarrow> \<not> Less data s1 m pivot"
  have e: "s' = (if g then Swap data s1 m (b1 - 1) else s1)" "b' = (if g then b1 - 1 else b1)" "c' = c1"
    using r unfolding test_dups_def Let_def h_def [symmetric] s1_def c1_def b1_def g_def
    by (auto split: if_splits)
  have p1: "seg_perm (pivot + 1) hi (elems s) (elems s1)"
    using b by (auto simp: s1_def intro!: swap_perm)
  have l1: "length (elems s1) = length (elems s)" using seg_perm_length [OF p1] .
  have pv: "elems s1 ! pivot = p" using seg_perm_outside [OF p1, of pivot] b pp by simp
  have "h \<longleftrightarrow> \<not> lt p (elems s ! (hi - 1))" using b by (simp add: h_def pp less_lt)
  then have P1: "parts lt p (pivot + 1) c c1 hi (elems s1)"
    using P parts_take_high [OF P] b by (auto simp: s1_def c1_def swp)
  have "Less data s1 (c - 1) pivot = lt (elems s1 ! (c - 1)) p" using b l1 pv by (simp add: less_lt)
  then have P2: "parts lt p (pivot + 1) b1 c1 hi (elems s1)"
    using P1 parts_take_low [OF P1] by (auto simp: b1_def)
  have b1: "m < b1" "b1 \<le> c1" "m \<le> b1 - 1" "c1 \<le> hi" using b by (auto simp: b1_def c1_def)
  have "g \<longleftrightarrow> \<not> lt (elems s1 ! m) p" using b l1 pv by (simp add: g_def less_lt)
  then have "parts lt p (pivot + 1) b' c' hi (elems s')"
    using P2 parts_take_mid [OF P2, of m] b b1 l1 by (auto simp: e swp)
  moreover have "seg_perm (pivot + 1) hi (elems s1) (elems s')"
    using b b1 l1 unfolding e by (auto intro!: swap_perm)
  ultimately show ?thesis using p1 b1 by (auto simp: e intro: seg_perm_trans)
qed

text \<open>The pivot goes from \<open>lo\<close> to the end of the first part.\<close>

lemma place_pivot:
  assumes P: "parts lt p (lo + 1) b c hi xs" and p: "p = xs ! lo" and b: "lo + 1 \<le> b" "b \<le> c" "c \<le> hi" "hi \<le> length xs"
  shows "parts lt p lo (b - 1) c hi (swap xs lo (b - 1))"
proof -
  have hl: "lo < length xs" "b - 1 < length xs" using b by auto
  have pb: "\<not> lt p (xs ! (b - 1))" using P b p by (cases "lo = b - 1") (auto simp: parts_def)
  have "\<not> lt p (swap xs lo (b - 1) ! k)" if "lo \<le> k" "k < c" for k
    using P that b pb p nth_swap [OF hl, of k] unfolding parts_def by (cases "k = lo") auto
  moreover have "\<not> lt (swap xs lo (b - 1) ! k) p" if "b - 1 \<le> k" "k < hi" for k
    using P that b p nth_swap [OF hl, of k] unfolding parts_def by (cases "k = b - 1") auto
  ultimately show ?thesis by (simp add: parts_def)
qed

lemma parts_perm:
  assumes P: "parts lt p lo b c hi xs" and s: "seg_perm l h xs ys" and h: "h \<le> length xs" "hi \<le> length xs" "c \<le> hi"
    and w: "lo \<le> l \<and> h \<le> b \<or> c \<le> l \<and> h \<le> hi"
    and bc: "lo \<le> b" "b \<le> c"
  shows "parts lt p lo b c hi ys"
proof -
  have "\<not> lt p (ys ! k)" if k: "lo \<le> k" "k < c" for k
  proof (cases "l \<le> k \<and> k < h")
    case True
    show ?thesis by (rule seg_perm_all [OF s h(1)]) (use True P w k bc in \<open>auto simp: parts_def\<close>)
  qed (use seg_perm_outside [OF s, of k] P k h in \<open>auto simp: parts_def\<close>)
  moreover have "\<not> lt (ys ! k) p" if k: "b \<le> k" "k < hi" for k
  proof (cases "l \<le> k \<and> k < h")
    case True
    show ?thesis by (rule seg_perm_all [OF s h(1)]) (use True P w k bc in \<open>auto simp: parts_def\<close>)
  qed (use seg_perm_outside [OF s, of k] P k h in \<open>auto simp: parts_def\<close>)
  ultimately show ?thesis by (simp add: parts_def)
qed

lemma split_sorted:
  assumes "split_at lt lo mlo mhi hi xs" "sorted_seg lt lo mlo xs" "sorted_seg lt mhi hi xs"
  shows "sorted_seg lt lo hi xs"
proof -
  obtain p where p: "parts lt p lo mlo mhi hi xs" and l: "lo \<le> mlo" "mlo < mhi" "mhi \<le> hi"
    using assms(1) by (auto simp: split_at_def)
  have "\<not> lt (xs ! j) (xs ! i)" if "lo \<le> i" "i < mhi" "mlo \<le> j" "j < hi" for i j
    using p negtrans [of "xs ! j" p "xs ! i"] that by (auto simp: parts_def)
  moreover from this have "sorted_seg lt mlo mhi xs"
    using l by (auto simp: sorted_seg_def)
  ultimately show ?thesis
    using assms(2,3) l by (intro sorted_seg_app [of lt lo mhi xs hi] sorted_seg_app [of lt lo mlo xs mhi]) auto
qed

end

context sort_order
begin

text \<open>After the choice of the pivot and the main loop.\<close>

lemma pivot_partition:
  assumes hi: "hi \<le> length (elems s)" and sz: "12 < hi - lo" and s1: "s1 = choose_pivot data s lo hi"
    and av: "a = scan_up (\<lambda>i. Less data s1 i lo) (lo + 1) (hi - 1)"
    and pl: "partition_loop data s1 lo a (hi - 1) = (s2, b, c')"
  shows "seg_perm lo hi (elems s) (elems s2)" "parts lt (elems s2 ! lo) (lo + 1) b b hi (elems s2)"
    "c' = b" "lo + 1 \<le> a" "a \<le> b" "b \<le> hi - 1"
proof -
  have p1: "seg_perm lo hi (elems s) (elems s1)"
    unfolding s1 by (rule choose_pivot_perm) (use hi sz in auto)
  have l1: "length (elems s1) = length (elems s)" using seg_perm_length [OF p1] .
  define p where "p = elems s1 ! lo"
  have last: "\<not> lt (elems s1 ! (hi - 1)) p"
    unfolding p_def by (rule choose_pivot_last [OF hi _ s1]) (use sz in auto)
  have a: "lo + 1 \<le> a" "a \<le> hi - 1" and alt: "\<And>i. lo + 1 \<le> i \<Longrightarrow> i < a \<Longrightarrow> lt (elems s1 ! i) p"
    using scan_up_spec [of "lo + 1" "\<lambda>i. Less data s1 i lo" "hi - 1"] sz hi l1
    by (auto simp: av p_def less_lt)
  have pp: "seg_perm a (hi - 1) (elems s1) (elems s2) \<and> b = c' \<and> a \<le> b \<and> b \<le> hi - 1 \<and>
      parts lt p a b b (hi - 1) (elems s2)"
    by (rule partition_loop_spec [OF _ _ _ p_def pl]) (use a hi l1 in auto)
  then have p2: "seg_perm a (hi - 1) (elems s1) (elems s2)" by blast
  from pp a show "c' = b" "lo + 1 \<le> a" "a \<le> b" "b \<le> hi - 1" by auto
  have o2: "elems s2 ! i = elems s1 ! i" if "i < a \<or> hi - 1 \<le> i" "i < hi" for i
    using seg_perm_outside [OF p2 that(1)] that l1 hi by simp
  have "elems s2 ! lo = p" using o2 [of lo] a sz by (simp add: p_def)
  moreover have "parts lt p (lo + 1) b b hi (elems s2)"
    unfolding parts_def
  proof (intro conjI allI impI)
    fix i assume "lo + 1 \<le> i" "i < b"
    then show "\<not> lt p (elems s2 ! i)"
      using pp alt [of i] o2 [of i] asym by (cases "i < a") (auto simp: parts_def)
  next
    fix i assume "b \<le> i" "i < hi"
    then show "\<not> lt (elems s2 ! i) p"
      using pp last o2 [of i] by (cases "i = hi - 1") (auto simp: parts_def)
  qed
  ultimately show "parts lt (elems s2 ! lo) (lo + 1) b b hi (elems s2)" by simp
  show "seg_perm lo hi (elems s) (elems s2)"
    using p1 seg_perm_mono [OF p2, of lo hi] a by (auto intro: seg_perm_trans)
qed

text \<open>The tests, when they are made.\<close>

lemma pivot_tests:
  assumes P: "parts lt p (lo + 1) b b hi (elems s)" and p: "elems s ! lo = p" and hi: "hi \<le> length (elems s)"
    and b: "lo + 1 \<le> b" "b < hi" and t: "\<not> hi - b < 5" "hi - b < (hi - lo) div 4"
    and td: "test_dups data s lo ((lo + hi) div 2) hi b b = (s3, b3, c3, d3)"
  shows "seg_perm (lo + 1) hi (elems s) (elems s3) \<and> parts lt p (lo + 1) b3 c3 hi (elems s3) \<and>
      lo + 1 \<le> b3 \<and> b3 \<le> c3 \<and> c3 \<le> hi"
proof -
  have m: "lo < (lo + hi) div 2" "(lo + hi) div 2 + 2 \<le> b" using t b by linarith+
  with test_dups_spec [OF p [symmetric] P m b(2) hi td] show ?thesis by auto
qed

text \<open>The loop over the duplicates.\<close>

lemma pivot_dups:
  assumes P: "parts lt p (lo + 1) b c hi (elems s)" and p: "elems s ! lo = p" and hi: "hi \<le> length (elems s)"
    and b: "lo + 1 \<le> b" "b \<le> c" "c \<le> hi" "lo + 1 \<le> a" and dl: "dups_loop data s lo a b = (s', b')"
  shows "seg_perm (lo + 1) hi (elems s) (elems s') \<and> parts lt p (lo + 1) b' c hi (elems s') \<and> lo + 1 \<le> b' \<and> b' \<le> c"
proof -
  have D: "seg_perm a b (elems s) (elems s') \<and> b' \<le> b \<and> (b' = b \<or> a \<le> b') \<and>
      (\<forall>i. b' \<le> i \<longrightarrow> i < b \<longrightarrow> \<not> lt (elems s' ! i) p)"
    by (rule dups_loop_spec [OF _ _ p [symmetric] _ dl]) (use P b hi in \<open>auto simp: parts_def\<close>)
  then have "seg_perm (lo + 1) hi (elems s) (elems s')"
    using b by (auto elim: seg_perm_mono)
  moreover have "parts lt p (lo + 1) b c hi (elems s')"
    by (rule parts_perm [where l = a and h = b]) (use D P b hi in auto)
  then have "parts lt p (lo + 1) b' c hi (elems s')"
    using D unfolding parts_def by (meson not_less)
  ultimately show ?thesis using D b by auto
qed

lemma doPivot_spec:
  assumes hi: "hi \<le> length (elems s)" and sz: "12 < hi - lo" and r: "doPivot data s lo hi = (s', mlo, mhi)"
  shows "seg_perm lo hi (elems s) (elems s') \<and> split_at lt lo mlo mhi hi (elems s')"
proof -
  define s1 where "s1 = choose_pivot data s lo hi"
  define a where "a = scan_up (\<lambda>i. Less data s1 i lo) (lo + 1) (hi - 1)"
  obtain s2 b c' where pl: "partition_loop data s1 lo a (hi - 1) = (s2, b, c')" by (metis prod_cases3)
  note S2 = pivot_partition [OF hi sz s1_def a_def pl]
  define p where "p = elems s2 ! lo"
  have l2: "hi \<le> length (elems s2)" using seg_perm_length [OF S2(1)] hi by simp
  define t where "t \<longleftrightarrow> \<not> hi - b < 5 \<and> hi - b < (hi - lo) div 4"
  obtain s3 b3 c3 d3 where td: "test_dups data s2 lo ((lo + hi) div 2) hi b b = (s3, b3, c3, d3)" by (metis prod_cases4)
  define s4 where "s4 = (if t then s3 else s2)"
  define b4 where "b4 = (if t then b3 else b)"
  define c4 where "c4 = (if t then c3 else b)"
  define protect where "protect = (if t then d3 > 1 else hi - b < 5)"
  have S4: "seg_perm (lo + 1) hi (elems s2) (elems s4) \<and> parts lt p (lo + 1) b4 c4 hi (elems s4) \<and>
      lo + 1 \<le> b4 \<and> b4 \<le> c4 \<and> c4 \<le> hi"
    using pivot_tests [OF S2(2) refl l2 _ _ _ _ td] S2 sz
    by (auto simp: t_def s4_def b4_def c4_def p_def)
  then have p4: "seg_perm (lo + 1) hi (elems s2) (elems s4)" by blast
  have l4: "hi \<le> length (elems s4)" and pv4: "elems s4 ! lo = p"
    using seg_perm_length [OF p4] seg_perm_outside [OF p4, of lo] l2 sz by (auto simp: p_def)
  obtain s5 b5 where dl: "dups_loop data s4 lo a b4 = (s5, b5)" by fastforce
  define s6 where "s6 = (if protect then s5 else s4)"
  define b6 where "b6 = (if protect then b5 else b4)"
  have S6: "seg_perm (lo + 1) hi (elems s4) (elems s6) \<and> parts lt p (lo + 1) b6 c4 hi (elems s6) \<and>
      lo + 1 \<le> b6 \<and> b6 \<le> c4"
    using pivot_dups [OF _ pv4 l4 _ _ _ S2(4) dl] S4 by (auto simp: s6_def b6_def)
  then have p6: "seg_perm (lo + 1) hi (elems s4) (elems s6)" by blast
  have l6: "hi \<le> length (elems s6)" and pv6: "elems s6 ! lo = p"
    using seg_perm_length [OF p6] seg_perm_outside [OF p6, of lo] l4 pv4 sz by auto
  have dl': "t \<Longrightarrow> dups_loop data s3 lo a b3 = (s5, b5)" "\<not> t \<Longrightarrow> dups_loop data s2 lo a b = (s5, b5)"
    using dl by (simp_all add: s4_def b4_def)
  have res: "s' = Swap data s6 lo (b6 - 1)" "mlo = b6 - 1" "mhi = c4"
    using r unfolding doPivot_def Let_def s1_def [symmetric] a_def [symmetric] pl S2(3) td
    by (auto simp: t_def [symmetric] td s6_def s4_def b6_def b4_def c4_def protect_def
        dl' split: if_splits prod.splits)
  have "parts lt p lo (b6 - 1) c4 hi (swap (elems s6) lo (b6 - 1))"
    by (rule place_pivot) (use S6 S4 pv6 l6 in auto)
  moreover have "elems s' = swap (elems s6) lo (b6 - 1)"
    unfolding res by (rule swp) (use S6 S4 l6 sz in auto)
  moreover have "seg_perm lo hi (elems s6) (elems s')"
    unfolding res by (rule swap_perm) (use S6 S4 l6 sz in auto)
  moreover have "seg_perm lo hi (elems s) (elems s6)"
    using S2(1) S4 S6 seg_perm_mono [of "lo + 1" hi _ _ lo hi] by (meson le_add1 order_refl seg_perm_trans)
  moreover have "lo \<le> b6 - 1" "b6 - 1 < c4" "c4 \<le> hi" using S6 S4 by auto
  ultimately show ?thesis unfolding split_at_def by (metis res(2,3) seg_perm_trans)
qed

text \<open>Sorting the outer parts, in either order, sorts the whole.\<close>

lemma split_at_perm:
  assumes sp: "split_at lt a mlo mhi b xs" and s: "seg_perm l h xs ys" and b: "b \<le> length xs"
    and w: "a \<le> l \<and> h \<le> mlo \<or> mhi \<le> l \<and> h \<le> b"
  shows "split_at lt a mlo mhi b ys"
proof -
  obtain p where P: "parts lt p a mlo mhi b xs" and m: "a \<le> mlo" "mlo < mhi" "mhi \<le> b"
    using sp by (auto simp: split_at_def)
  have "parts lt p a mlo mhi b ys"
    by (rule parts_perm [OF P s]) (use m b w in auto)
  with m show ?thesis by (auto simp: split_at_def)
qed

lemma sorted_seg_perm:
  "sorted_seg lt a b xs \<Longrightarrow> seg_perm l h xs ys \<Longrightarrow> b \<le> length xs \<Longrightarrow> b \<le> l \<or> h \<le> a \<Longrightarrow> sorted_seg lt a b ys"
  by (erule sorted_seg_cong [rotated]) (auto simp: seg_perm_def)

lemma quickSort_join:
  assumes dp: "seg_perm a b xs ys \<and> split_at lt a mlo mhi b ys" and b: "b \<le> length xs"
    and l: "seg_perm a mlo ys zs \<and> sorted_seg lt a mlo zs"
    and r: "seg_perm mhi b zs ws \<and> sorted_seg lt mhi b ws"
  shows "seg_perm a b xs ws \<and> sorted_seg lt a b ws"
proof
  have m: "a \<le> mlo" "mlo < mhi" "mhi \<le> b" using dp by (auto simp: split_at_def)
  have len: "length ys = length xs" "length zs = length xs" using dp l by (auto simp: seg_perm_def)
  have "seg_perm a b ys zs" "seg_perm a b zs ws"
    using l r m by (auto elim: seg_perm_mono)
  with dp show "seg_perm a b xs ws" by (meson seg_perm_trans)
  have "split_at lt a mlo mhi b zs" by (rule split_at_perm [of _ _ _ _ ys]) (use dp l b len in auto)
  then have "split_at lt a mlo mhi b ws" by (rule split_at_perm) (use r b len in auto)
  moreover have "sorted_seg lt a mlo ws"
    using l r m b len by (auto intro: sorted_seg_perm)
  ultimately show "sorted_seg lt a b ws" using r split_sorted by blast
qed

lemma quickSort_join':
  assumes dp: "seg_perm a b xs ys \<and> split_at lt a mlo mhi b ys" and b: "b \<le> length xs"
    and l: "seg_perm mhi b ys zs \<and> sorted_seg lt mhi b zs"
    and r: "seg_perm a mlo zs ws \<and> sorted_seg lt a mlo ws"
  shows "seg_perm a b xs ws \<and> sorted_seg lt a b ws"
proof
  have m: "a \<le> mlo" "mlo < mhi" "mhi \<le> b" using dp by (auto simp: split_at_def)
  have len: "length ys = length xs" "length zs = length xs" using dp l by (auto simp: seg_perm_def)
  have "seg_perm a b ys zs" "seg_perm a b zs ws"
    using l r m by (auto elim: seg_perm_mono)
  with dp show "seg_perm a b xs ws" by (meson seg_perm_trans)
  have "split_at lt a mlo mhi b zs" by (rule split_at_perm [of _ _ _ _ ys]) (use dp l b len in auto)
  then have "split_at lt a mlo mhi b ws" by (rule split_at_perm) (use r b len in auto)
  moreover have "sorted_seg lt mhi b ws"
    using l r m b len by (auto intro: sorted_seg_perm)
  ultimately show "sorted_seg lt a b ws" using r split_sorted by blast
qed

lemma quickSort_small:
  assumes "b \<le> length (elems s)" "a \<le> b" "\<not> b - a > 12"
  shows "seg_perm a b (elems s) (elems (quickSort data s a b d)) \<and> sorted_seg lt a b (elems (quickSort data s a b d))"
proof (cases "b - a > 1")
  case True
  have p: "seg_perm a b (elems s) (elems (gap_pass data s (a + 6) b))"
    by (rule gap_pass_perm) (use assms in auto)
  from True assms(3) seg_perm_trans [OF p insertionSort_perm] seg_perm_length [OF p] assms(1)
  show ?thesis by (subst (1 2) quickSort.simps) (simp add: insertionSort_sorted)
next
  case False
  with assms(3) show ?thesis by (subst (1 2) quickSort.simps) (auto simp: sorted_seg_def)
qed

lemma quickSort_spec:
  "b \<le> length (elems s) \<Longrightarrow> a \<le> b \<Longrightarrow>
    seg_perm a b (elems s) (elems (quickSort data s a b d)) \<and> sorted_seg lt a b (elems (quickSort data s a b d))"
proof (induction d arbitrary: s a b)
  case 0
  show ?case
  proof (cases "b - a > 12")
    case True
    then show ?thesis using 0 by (subst (1 2) quickSort.simps) (simp add: heapSort_perm heapSort_sorted)
  next
    case False
    then show ?thesis using quickSort_small [OF 0] by simp
  qed
next
  case (Suc d)
  show ?case
  proof (cases "b - a > 12")
    case True
    obtain s1 mlo mhi where r: "doPivot data s a b = (s1, mlo, mhi)" by (metis prod_cases3)
    note dp = doPivot_spec [OF Suc.prems(1) True r]
    then have l1: "length (elems s1) = length (elems s)" and m: "a \<le> mlo" "mlo < mhi" "mhi \<le> b"
      by (auto simp: split_at_def seg_perm_length)
    show ?thesis
    proof (cases "mlo - a < b - mhi")
      case lt: True
      let ?s2 = "quickSort data s1 a mlo d" let ?s3 = "quickSort data ?s2 mhi b d"
      have s2: "seg_perm a mlo (elems s1) (elems ?s2) \<and> sorted_seg lt a mlo (elems ?s2)"
        by (rule Suc.IH) (use m l1 Suc.prems in auto)
      then have "seg_perm mhi b (elems ?s2) (elems ?s3) \<and> sorted_seg lt mhi b (elems ?s3)"
        by (intro Suc.IH) (use m l1 Suc.prems seg_perm_length in \<open>fastforce+\<close>)
      with s2 quickSort_join [OF dp] True lt r Suc.prems(1) show ?thesis
        by (subst (1 2) quickSort.simps) simp
    next
      case nl: False
      let ?s2 = "quickSort data s1 mhi b d" let ?s3 = "quickSort data ?s2 a mlo d"
      have s2: "seg_perm mhi b (elems s1) (elems ?s2) \<and> sorted_seg lt mhi b (elems ?s2)"
        by (rule Suc.IH) (use m l1 Suc.prems in auto)
      then have "seg_perm a mlo (elems ?s2) (elems ?s3) \<and> sorted_seg lt a mlo (elems ?s3)"
        by (intro Suc.IH) (use m l1 Suc.prems seg_perm_length in \<open>fastforce+\<close>)
      with s2 quickSort_join' [OF dp] True nl r Suc.prems(1) show ?thesis
        by (subst (1 2) quickSort.simps) simp
    qed
  next
    case False
    then show ?thesis using quickSort_small [OF Suc.prems] by simp
  qed
qed

end

context sort_order
begin

lemma Sort_spec:
  "seg_perm 0 (length (elems s)) (elems s) (elems (Sort data s)) \<and>
    sorted_seg lt 0 (length (elems s)) (elems (Sort data s))"
  unfolding Sort_def Let_def len by (rule quickSort_spec) auto

lemma Sort_mset: "mset (elems (Sort data s)) = mset (elems s)"
  using Sort_spec by (simp add: seg_perm_def)

lemma sorted_wrt_seg: "sorted_wrt (\<lambda>x y. \<not> lt y x) xs \<longleftrightarrow> sorted_seg lt 0 (length xs) xs"
  by (auto simp: sorted_wrt_iff_nth_less sorted_seg_def)

lemma Sort_sorted: "sorted_wrt (\<lambda>x y. \<not> lt y x) (elems (Sort data s))"
  using Sort_spec [of s] by (auto simp: sorted_wrt_seg dest: seg_perm_length)

lemma sorted_down_seg:
  "n \<le> length (elems s) \<Longrightarrow> sorted_down data s n \<longleftrightarrow> sorted_seg lt 0 n (elems s)"
proof (induction n)
  case (Suc n)
  show ?case
  proof (cases n)
    case 0
    then show ?thesis by (simp add: sorted_seg_def)
  next
    case (Suc k)
    have "sorted_seg lt 0 (Suc n) (elems s) \<longleftrightarrow>
        sorted_seg lt 0 n (elems s) \<and> \<not> lt (elems s ! n) (elems s ! k)"
    proof
      assume h: "sorted_seg lt 0 n (elems s) \<and> \<not> lt (elems s ! n) (elems s ! k)"
      have "\<not> lt (elems s ! n) (elems s ! i)" if "i < n" for i
        using h that negtrans [of "elems s ! n" "elems s ! k" "elems s ! i"] Suc
        by (cases "i = k") (auto simp: sorted_seg_def)
      with h show "sorted_seg lt 0 (Suc n) (elems s)" by (auto simp: sorted_seg_def less_Suc_eq)
    qed (auto simp: sorted_seg_def Suc)
    with Suc.IH Suc.prems Suc show ?thesis by (auto simp: less_lt)
  qed
qed (simp add: sorted_seg_def)

lemma IsSorted_spec: "IsSorted data s \<longleftrightarrow> sorted_wrt (\<lambda>x y. \<not> lt y x) (elems s)"
  by (simp add: IsSorted_def len sorted_down_seg sorted_wrt_seg)

end

section \<open>Implementations\<close>

text \<open>Reversing an implementation gives one, with the reverse order.\<close>

lemma strict_weak_rev: "strict_weak lt \<Longrightarrow> strict_weak (\<lambda>x y. lt y x)"
  unfolding strict_weak_def by blast

lemma sort_order_reverse: "sort_order data elems lt \<Longrightarrow> sort_order (Reverse data) elems (\<lambda>x y. lt y x)"
  unfolding sort_order_def sort_interface_def sort_order_axioms_def
  by (auto simp: Reverse_def strict_weak_rev)

text \<open>Any slice whose \<open>less\<close> compares the elements at two indices.\<close>

lemma slice_interface:
  "(\<And>p i j. f p i j = lt (p ! i) (p ! j)) \<Longrightarrow> sort_interface (slice_methods f) (\<lambda>x. x) lt"
  by unfold_locales (auto simp: slice_methods_def)

lemma strict_weak_less: "strict_weak ((<) :: 'a::linorder \<Rightarrow> 'a \<Rightarrow> bool)"
  by (auto simp: strict_weak_def)

lemma slice_order:
  "(\<And>p i j. f p i j = lt (p ! i) (p ! j)) \<Longrightarrow> strict_weak lt \<Longrightarrow> sort_order (slice_methods f) (\<lambda>x. x) lt"
  by (auto simp: sort_order_def sort_order_axioms_def slice_interface)

interpretation ints: sort_order IntSlice "\<lambda>x. x" "(<)"
  by unfold_locales (auto simp: IntSlice_def strict_weak_less)

lemma string_less_list: "string_less xs ys \<longleftrightarrow> xs < ys"
  by (induction xs ys rule: string_less.induct) auto

interpretation strs: sort_order StringSlice "\<lambda>x. x" "(<)"
  by unfold_locales (auto simp: StringSlice_def strict_weak_less string_less_list)

interpretation rints: sort_order "Reverse IntSlice" "\<lambda>x. x" "\<lambda>x y. y < x"
  by (rule sort_order_reverse [OF ints.sort_order_axioms])

section \<open>Binary search\<close>

lemma search_loop_spec:
  "i \<le> j \<Longrightarrow> (i = 0 \<or> \<not> f (i - 1)) \<Longrightarrow> (j = n \<or> f j) \<Longrightarrow> j \<le> n \<Longrightarrow>
    search_loop f i j \<le> n \<and> (search_loop f i j = 0 \<or> \<not> f (search_loop f i j - 1)) \<and>
    (search_loop f i j = n \<or> f (search_loop f i j))"
proof (induction "j - i" arbitrary: i j rule: less_induct)
  case less
  let ?h = "(i + j) div 2"
  show ?case
  proof (cases "i < j")
    case True
    then have h: "i \<le> ?h" "?h < j" by auto
    show ?thesis
    proof (cases "f ?h")
      case fh: True
      then have "search_loop f i j = search_loop f i ?h"
        using True by (subst search_loop.simps) simp
      with less.hyps [of ?h i] less.prems h fh True show ?thesis by simp
    next
      case False
      then have "search_loop f i j = search_loop f (?h + 1) j"
        using True by (subst search_loop.simps) simp
      with less.hyps [of j "?h + 1"] less.prems h False True show ?thesis by simp
    qed
  next
    case False
    then show ?thesis using less.prems by (subst (1 2 3 4 5) search_loop.simps) auto
  qed
qed

section \<open>The properties\<close>

text \<open>C36. \<open>sort.Slice\<close> returns a permutation of the slice in which no element is less than an
  earlier one, for every closure that compares two elements by a strict weak order.  The
  proof goes through every path of \<open>doPivot\<close>, the fall-back to heap sort and the small case,
  and uses no index out of range.\<close>

theorem Slice_sorts:
  assumes "\<And>p i j. f p i j = lt (p ! i) (p ! j)" and "strict_weak lt"
  shows "mset (Slice x f) = mset x \<and> sorted_wrt (\<lambda>u v. \<not> lt v u) (Slice x f)"
proof -
  note so = slice_order [OF assms]
  show ?thesis
    using sort_order.Sort_mset [OF so, of x] sort_order.Sort_sorted [OF so, of x] by (simp add: Slice_def Sort_def slice_methods_def Let_def)
qed

theorem Slice_sorts_witness:
  "sorted_wrt (\<lambda>u v. \<not> v mod 10 < u mod 10) (Slice [13, 21, 7 :: nat] (\<lambda>p i j. p ! i mod 10 < p ! j mod 10))"
  using Slice_sorts [of "\<lambda>p i j. p ! i mod 10 < p ! j mod 10" "\<lambda>u v. u mod 10 < (v mod 10 :: nat)" "[13, 21, 7]"]
  by (auto simp: strict_weak_def)

text \<open>\<open>sort.Ints\<close> computes the sorted list of the integers it is given.\<close>

theorem Ints_sort: "Ints a = sort a"
proof -
  have "sorted (Ints a)"
    using ints.Sort_sorted [of a] by (simp add: Ints_def not_less)
  moreover have "mset (Ints a) = mset a" using ints.Sort_mset by (simp add: Ints_def)
  ultimately show ?thesis by (metis properties_for_sort)
qed

text \<open>\<open>sort.Strings\<close> sorts strings by the lexicographic order of their bytes, and
  \<open>StringsAreSorted\<close> holds of its result, whatever the slice was.\<close>

theorem Strings_sort: "Strings a = sort a \<and> StringsAreSorted (Strings a)"
proof -
  have s: "sorted_wrt (\<lambda>x y. \<not> y < x) (Strings a)"
    using strs.Sort_sorted [of a] by (simp add: Strings_def)
  then have "sorted (Strings a)" by (simp add: not_less)
  moreover have "mset (Strings a) = mset a" using strs.Sort_mset by (simp add: Strings_def)
  ultimately have "Strings a = sort a" by (metis properties_for_sort)
  with s show ?thesis by (simp add: StringsAreSorted_def strs.IsSorted_spec)
qed

text \<open>Sorting the reverse of an \<open>IntSlice\<close> sorts in decreasing order.\<close>

lemma Reverse_sort: "Sort (Reverse IntSlice) a = rev (sort a)"
proof -
  have "sorted (rev (Sort (Reverse IntSlice) a))"
    using rints.Sort_sorted [of a] by (simp add: sorted_wrt_rev not_less)
  moreover have "mset (rev (Sort (Reverse IntSlice) a)) = mset a"
    using rints.Sort_mset [of a] by simp
  ultimately show ?thesis by (metis properties_for_sort rev_rev_ident)
qed

text \<open>C38. \<open>sort.Search\<close> returns an index at which \<open>f\<close> changes from false to true, or \<open>n\<close>
  when it stays false, or 0; when \<open>f\<close> is monotone it is the smallest index at which \<open>f\<close> is
  true.\<close>

theorem Search_finds:
  "Search n f \<le> n \<and> (Search n f = n \<or> f (Search n f)) \<and> (Search n f = 0 \<or> \<not> f (Search n f - 1)) \<and>
    ((\<forall>i j. i \<le> j \<and> j < n \<and> f i \<longrightarrow> f j) \<longrightarrow> (\<forall>i<Search n f. \<not> f i))"
proof -
  have s: "Search n f \<le> n \<and> (Search n f = 0 \<or> \<not> f (Search n f - 1)) \<and> (Search n f = n \<or> f (Search n f))"
    unfolding Search_def by (rule search_loop_spec) auto
  have "\<not> f i" if "\<forall>i j. i \<le> j \<and> j < n \<and> f i \<longrightarrow> f j" "i < Search n f" for i
    using s that(1) [rule_format, of i "Search n f - 1"] that(2) by (cases "f i") linarith+
  with s show ?thesis by blast
qed

theorem Search_finds_witness: "Search 5 (\<lambda>i. 3 \<le> i) = 3"
proof -
  note f = Search_finds [of 5 "\<lambda>i. 3 \<le> i"]
  then have "\<forall>i<Search 5 (\<lambda>i. 3 \<le> i). \<not> 3 \<le> i" by auto
  from this [rule_format, of 3] f show ?thesis by auto
qed

end
