(* ===== verification/Go_Heap.thy ===== *)
theory Go_Heap
  imports Sort_Spec
begin

text \<open>
  Package \<open>container/heap\<close> (\<open>container/heap/heap.go\<close>): \<open>heap.Interface\<close> extends
  \<open>sort.Interface\<close> by \<open>Push\<close> and \<open>Pop\<close>, here a record that extends the record of the methods
  of \<open>sort\<close>, and its contract a locale that extends \<open>sort_order\<close>.  The contract is interpreted
  on \<open>IntHeap\<close> of the package's example.
\<close>

section \<open>The operations\<close>

record ('s, 'x) heap_methods = "'s sort_methods" +
  Push :: "'s \<Rightarrow> 'x \<Rightarrow> 's"
  Pop :: "'s \<Rightarrow> 'x \<times> 's"

fun up :: "('s, 'x) heap_methods \<Rightarrow> 's \<Rightarrow> nat \<Rightarrow> 's" where
  "up h s j =
     (let i = (j - 1) div 2 in
      if i = j \<or> \<not> Less h s j i then s else up h (Swap h s i j) i)"

declare up.simps [simp del]

text \<open>The lesser child of \<open>i\<close> below \<open>n\<close>.\<close>

definition least_child :: "('s, 'x) heap_methods \<Rightarrow> 's \<Rightarrow> nat \<Rightarrow> nat \<Rightarrow> nat" where
  "least_child h s i n =
     (let j1 = 2 * i + 1; j2 = j1 + 1 in if j2 < n \<and> Less h s j2 j1 then j2 else j1)"

lemma least_child_range: "2 * i + 1 < n \<Longrightarrow> i < least_child h s i n \<and> least_child h s i n < n"
  by (auto simp: least_child_def Let_def)

function down_loop :: "('s, 'x) heap_methods \<Rightarrow> 's \<Rightarrow> nat \<Rightarrow> nat \<Rightarrow> 's \<times> nat" where
  "down_loop h s i n =
     (if 2 * i + 1 \<ge> n then (s, i)
      else if \<not> Less h s (least_child h s i n) i then (s, i)
      else down_loop h (Swap h s i (least_child h s i n)) (least_child h s i n) n)"
  by pat_completeness auto
termination
proof (relation "measure (\<lambda>(_, _, i, n). n - i)", goal_cases)
  case (2 h s i n)
  then show ?case using least_child_range [of i n h s] by auto
qed simp

declare down_loop.simps [simp del]

definition down :: "('s, 'x) heap_methods \<Rightarrow> 's \<Rightarrow> nat \<Rightarrow> nat \<Rightarrow> 's \<times> bool" where
  "down h s i0 n = (let (s, i) = down_loop h s i0 n in (s, i > i0))"

text \<open>The loop of \<open>Init\<close>: \<open>i\<close> runs from \<open>k - 1\<close> down to 0.\<close>

primrec init_loop :: "('s, 'x) heap_methods \<Rightarrow> nat \<Rightarrow> 's \<Rightarrow> nat \<Rightarrow> 's" where
  "init_loop h n s 0 = s"
| "init_loop h n s (Suc i) = init_loop h n (fst (down h s i n)) i"

definition heap_Init :: "('s, 'x) heap_methods \<Rightarrow> 's \<Rightarrow> 's" where
  "heap_Init h s = (let n = Len h s in init_loop h n s (n div 2))"

definition heap_Push :: "('s, 'x) heap_methods \<Rightarrow> 's \<Rightarrow> 'x \<Rightarrow> 's" where
  "heap_Push h s x = (let s = Push h s x in up h s (Len h s - 1))"

definition heap_Pop :: "('s, 'x) heap_methods \<Rightarrow> 's \<Rightarrow> 'x \<times> 's" where
  "heap_Pop h s =
     (let n = Len h s - 1;
          s = Swap h s 0 n;
          s = fst (down h s 0 n)
      in Pop h s)"

definition heap_Fix :: "('s, 'x) heap_methods \<Rightarrow> 's \<Rightarrow> nat \<Rightarrow> 's" where
  "heap_Fix h s i = (let (t, moved) = down h s i (Len h s) in if \<not> moved then up h t i else t)"

definition heap_Remove :: "('s, 'x) heap_methods \<Rightarrow> 's \<Rightarrow> nat \<Rightarrow> 'x \<times> 's" where
  "heap_Remove h s i =
     (let n = Len h s - 1;
          s = (if n \<noteq> i
               then let (t, moved) = down h (Swap h s i n) i n in if \<not> moved then up h t i else t
               else s)
      in Pop h s)"

text \<open>\<open>IntHeap\<close>.\<close>

definition IntHeap :: "(int list, int) heap_methods" where
  "IntHeap = \<lparr>Len = length, Less = (\<lambda>h i j. h ! i < h ! j), Swap = swap,
     Push = (\<lambda>h x. h @ [x]), Pop = (\<lambda>h. (h ! (length h - 1), take (length h - 1) h))\<rparr>"

section \<open>The contract\<close>

locale heap_interface =
  sort_order "sort_methods.truncate h" elems lt
  for h :: "('s, 'x) heap_methods" and elems :: "'s \<Rightarrow> 'x list" and lt :: "'x \<Rightarrow> 'x \<Rightarrow> bool" +
  assumes push: "elems (Push h s x) = elems s @ [x]"
    and pop: "elems s \<noteq> [] \<Longrightarrow> fst (Pop h s) = last (elems s) \<and> elems (snd (Pop h s)) = butlast (elems s)"
begin

abbreviation le :: "'x \<Rightarrow> 'x \<Rightarrow> bool" where
  "le x y \<equiv> \<not> lt y x"

lemma le_transp: "transp le"
  using negtrans by (blast intro: transpI)

lemma le_reflp: "reflp le"
  by (simp add: reflp_def)

lemma trunc [simp]:
  "Len (sort_methods.truncate h) = Len h" "Less (sort_methods.truncate h) = Less h"
  "Swap (sort_methods.truncate h) = Swap h"
  by (simp_all add: sort_methods.truncate_def)

lemmas laws = len [unfolded trunc] less_lt [unfolded trunc] swp [unfolded trunc]

lemma offs_swapped:
  "i < length (elems s) \<Longrightarrow> j < length (elems s) \<Longrightarrow>
    offs 0 (elems (Swap h s i j)) = (offs 0 (elems s))(i := offs 0 (elems s) j, j := offs 0 (elems s) i)"
  using offs_swap [of 0 i "elems s" j] by (simp add: laws)

lemma least_child_spec:
  assumes c: "c = least_child h s i n" and r: "2 * i + 1 < n" and l: "n \<le> length (elems s)"
  shows "0 < c" "par 2 c = i" "0 < k \<Longrightarrow> k < n \<Longrightarrow> par 2 k = i \<Longrightarrow> le (offs 0 (elems s) c) (offs 0 (elems s) k)"
proof -
  have c': "c = 2 * i + 1 \<or> c = 2 * i + 2"
    using c by (auto simp: least_child_def Let_def)
  then show "0 < c" "par 2 c = i" by (auto simp: par_def)
  assume k: "0 < k" "k < n" "par 2 k = i"
  then have "k = 2 * i + 1 \<or> k = 2 * i + 2" using par_child [of 2 k i] by auto
  moreover have "Less h s (2 * i + 1 + 1) (2 * i + 1) =
      lt (offs 0 (elems s) (2 * i + 2)) (offs 0 (elems s) (2 * i + 1))" if "2 * i + 2 < n"
    using that l by (simp add: laws offs_def)
  ultimately show "le (offs 0 (elems s) c) (offs 0 (elems s) k)"
    using c k asym unfolding least_child_def Let_def by (auto split: if_splits)
qed

lemma down_loop_spec:
  assumes "heap_but le 2 lo n (offs 0 (elems s)) i" "lo \<le> i" "n \<le> length (elems s)"
    and "down_loop h s i n = (t, j)"
  shows "seg_perm 0 n (elems s) (elems t) \<and> i \<le> j \<and>
    (if i < j then heap_on le 2 lo n (offs 0 (elems t)) else t = s \<and> lower le 2 n (offs 0 (elems s)) i)"
  using assms
proof (induction "n - i" arbitrary: s i rule: less_induct)
  case less
  let ?c = "least_child h s i n" and ?f = "offs 0 (elems s)"
  show ?case
  proof (cases "2 * i + 1 < n \<and> Less h s ?c i")
    case False
    have "lower le 2 n ?f i"
    proof (cases "2 * i + 1 < n")
      case True
      then have "le (?f i) (?f ?c)"
        using False least_child_range [of i n h s] less.prems by (simp add: laws offs_def)
      then show ?thesis
        unfolding lower_def using least_child_spec(3) [OF refl True less.prems(3)] negtrans by blast
    qed (use par_child [of 2 _ i] in \<open>auto simp: lower_def\<close>)
    moreover have "t = s" "j = i" using False less.prems(4) by (auto simp: down_loop.simps [of h s i n] split: if_splits)
    ultimately show ?thesis by simp
  next
    case True
    then have r: "2 * i + 1 < n" by simp
    note lc = least_child_spec [OF refl r less.prems(3)]
    have c: "i < ?c" "?c < n" using least_child_range [OF r, of h s] by auto
    let ?s = "Swap h s i ?c"
    have f: "offs 0 (elems ?s) = ?f(i := ?f ?c, ?c := ?f i)"
      using c less.prems by (intro offs_swapped) auto
    have lt: "le (?f ?c) (?f i)" using True c less.prems asym by (simp add: laws offs_def)
    have st: "heap_but le 2 lo n (offs 0 (elems ?s)) ?c \<and> upper le 2 lo (offs 0 (elems ?s)) ?c"
      unfolding f by (rule heap_down_step [OF less.prems(1) lc(1) c(2) lc(2) _ lt less.prems(2)]) (rule lc(3))
    have d: "down_loop h ?s ?c n = (t, j)"
      using True less.prems(4) by (simp add: down_loop.simps [of h s i n])
    have l: "length (elems ?s) = length (elems s)" using c less.prems by (simp add: laws)
    have IH: "seg_perm 0 n (elems ?s) (elems t) \<and> ?c \<le> j \<and>
        (if ?c < j then heap_on le 2 lo n (offs 0 (elems t)) else t = ?s \<and> lower le 2 n (offs 0 (elems ?s)) ?c)"
      using st c less.prems d l by (intro less.hyps) auto
    then have "heap_on le 2 lo n (offs 0 (elems t))"
      using st heap_but_stop by (auto split: if_splits)
    moreover have "seg_perm 0 n (elems s) (elems t)"
      using IH swap_then [of 0 n s i ?c "elems t"] c less.prems by simp
    ultimately show ?thesis using IH c by simp
  qed
qed

lemma down_spec:
  assumes "heap_but le 2 lo n (offs 0 (elems s)) i" "lo \<le> i" "n \<le> length (elems s)" "down h s i n = (t, m)"
  shows "seg_perm 0 n (elems s) (elems t)"
    "m \<Longrightarrow> heap_on le 2 lo n (offs 0 (elems t))"
    "\<not> m \<Longrightarrow> t = s \<and> lower le 2 n (offs 0 (elems s)) i"
    "upper le 2 lo (offs 0 (elems s)) i \<Longrightarrow> heap_on le 2 lo n (offs 0 (elems t))"
proof -
  obtain j where j: "down_loop h s i n = (t, j)" "m = (i < j)"
    using assms(4) by (auto simp: down_def Let_def split: prod.splits)
  note sp = down_loop_spec [OF assms(1-3) j(1)]
  show "seg_perm 0 n (elems s) (elems t)"
    "m \<Longrightarrow> heap_on le 2 lo n (offs 0 (elems t))"
    "\<not> m \<Longrightarrow> t = s \<and> lower le 2 n (offs 0 (elems s)) i"
    using sp j by auto
  then show "upper le 2 lo (offs 0 (elems s)) i \<Longrightarrow> heap_on le 2 lo n (offs 0 (elems t))"
    using assms(1) heap_but_stop by (cases m) auto
qed

lemma up_spec:
  "heap_but le 2 0 n (offs 0 (elems s)) j \<Longrightarrow> lower le 2 n (offs 0 (elems s)) j \<Longrightarrow> j < n \<Longrightarrow> n \<le> length (elems s) \<Longrightarrow>
    heap_on le 2 0 n (offs 0 (elems (up h s j))) \<and> seg_perm 0 n (elems s) (elems (up h s j))"
proof (induction j arbitrary: s rule: less_induct)
  case (less j)
  let ?i = "(j - 1) div 2" and ?f = "offs 0 (elems s)"
  have i: "?i = par 2 j" by (simp add: par_def)
  show ?case
  proof (cases "?i = j \<or> \<not> Less h s j ?i")
    case True
    have "upper le 2 0 ?f j"
    proof (cases "j = 0")
      case False
      then have "\<not> Less h s j ?i" using True par_less [of j 2] by (auto simp: i)
      then show ?thesis
        using less.prems par_less [of j 2] False by (simp add: i [symmetric] laws upper_def offs_def)
    qed (simp add: upper_def)
    then have "heap_on le 2 0 n ?f" using heap_but_stop less.prems by blast
    with True show ?thesis by (simp add: up.simps [of h s j])
  next
    case False
    then have j: "0 < j" by (cases j) auto
    have ij: "?i < j" using par_less [OF j, of 2] by (simp add: i)
    let ?s = "Swap h s ?i j"
    have lt: "le (?f j) (?f (par 2 j))"
      using False less.prems ij asym unfolding i [symmetric] by (simp add: laws offs_def)
    have f: "offs 0 (elems ?s) = ?f(par 2 j := ?f j, j := ?f (par 2 j))"
      using less.prems ij unfolding i [symmetric] by (intro offs_swapped) auto
    have st: "heap_but le 2 0 n (offs 0 (elems ?s)) ?i \<and> lower le 2 n (offs 0 (elems ?s)) ?i"
      unfolding f unfolding i by (rule heap_up_step [OF less.prems(1,2) j less.prems(3) _ lt le_transp]) simp
    have l: "length (elems ?s) = length (elems s)" using ij less.prems by (simp add: laws)
    have "heap_on le 2 0 n (offs 0 (elems (up h ?s ?i))) \<and> seg_perm 0 n (elems ?s) (elems (up h ?s ?i))"
      using st ij less.prems l by (intro less.IH) auto
    moreover have "up h s j = up h ?s ?i" using False by (simp add: up.simps [of h s j] Let_def)
    ultimately show ?thesis
      using swap_then [of 0 n s ?i j] ij less.prems by simp
  qed
qed

definition heap_ok :: "'s \<Rightarrow> bool" where
  "heap_ok s \<longleftrightarrow> heap_on le 2 0 (length (elems s)) (offs 0 (elems s))"

lemma init_loop_spec:
  "heap_on le 2 k n (offs 0 (elems s)) \<Longrightarrow> n = length (elems s) \<Longrightarrow>
    heap_on le 2 0 n (offs 0 (elems (init_loop h n s k))) \<and> mset (elems (init_loop h n s k)) = mset (elems s)"
proof (induction k arbitrary: s)
  case (Suc i)
  obtain t m where d: "down h s i n = (t, m)" by fastforce
  have hb: "heap_but le 2 i n (offs 0 (elems s)) i" and u: "upper le 2 i (offs 0 (elems s)) i"
    using heap_on_start [OF Suc.prems(1)] by auto
  have n: "n \<le> length (elems s)" using Suc.prems(2) by simp
  note ds = down_spec [OF hb order_refl n d]
  have o: "heap_on le 2 i n (offs 0 (elems t))" by (rule ds(4) [OF u])
  from Suc.IH [OF o] ds(1) Suc.prems(2) d show ?case by (simp add: seg_perm_def)
qed simp

lemma Init_ok: "heap_ok (heap_Init h s) \<and> mset (elems (heap_Init h s)) = mset (elems s)"
proof -
  let ?n = "length (elems s)"
  have "heap_on le 2 (?n div 2) ?n (offs 0 (elems s))" by (rule heap_on_leaf) auto
  then have i: "heap_on le 2 0 ?n (offs 0 (elems (heap_Init h s))) \<and> mset (elems (heap_Init h s)) = mset (elems s)"
    unfolding heap_Init_def Let_def laws(1) by (rule init_loop_spec) simp
  then have "length (elems (heap_Init h s)) = ?n" by (metis size_mset)
  with i show ?thesis by (simp add: heap_ok_def)
qed

text \<open>After the value at \<open>i\<close> has changed: \<open>down\<close>, and \<open>up\<close> when nothing moved.\<close>

lemma fix_spec:
  assumes b: "heap_but le 2 0 n (offs 0 (elems s)) i" and n: "i < n" "n \<le> length (elems s)" and d: "down h s i n = (t, m)"
  shows "heap_on le 2 0 n (offs 0 (elems (if \<not> m then up h t i else t))) \<and>
    seg_perm 0 n (elems s) (elems (if \<not> m then up h t i else t))"
  using down_spec [OF b _ n(2) d] up_spec [OF _ _ n] b by (cases m) auto

lemma Fix_ok:
  assumes "heap_but le 2 0 (length (elems s)) (offs 0 (elems s)) i" "i < length (elems s)"
  shows "heap_ok (heap_Fix h s i) \<and> mset (elems (heap_Fix h s i)) = mset (elems s)"
proof -
  obtain t m where d: "down h s i (length (elems s)) = (t, m)" by fastforce
  from fix_spec [OF assms(1,2) order_refl d] show ?thesis
    by (auto simp: heap_Fix_def laws d heap_ok_def seg_perm_def)
qed

lemma Push_ok:
  assumes "heap_ok s"
  shows "heap_ok (heap_Push h s x) \<and> mset (elems (heap_Push h s x)) = add_mset x (mset (elems s))"
proof -
  let ?n = "length (elems s)" and ?s = "Push h s x"
  have e: "elems ?s = elems s @ [x]" by (rule push)
  have lf: "i < Suc ?n \<Longrightarrow> par 2 i = ?n \<Longrightarrow> i = 0" for i using par_less [of i 2] by (cases i) auto
  have "heap_but le 2 0 (Suc ?n) (offs 0 (elems ?s)) ?n"
  proof (rule heap_butI)
    fix i assume "0 < i" "i < Suc ?n" "0 \<le> par 2 i" "i \<noteq> ?n" "par 2 i \<noteq> ?n" "par 2 i < i"
    then show "le (offs 0 (elems ?s) (par 2 i)) (offs 0 (elems ?s) i)"
      using heap_onD [OF assms [unfolded heap_ok_def], of i] by (simp add: e offs_def nth_append)
  qed (use lf in auto)
  moreover have "lower le 2 (Suc ?n) (offs 0 (elems ?s)) ?n"
    using lf by (auto simp: lower_def)
  ultimately have "heap_on le 2 0 (Suc ?n) (offs 0 (elems (up h ?s ?n))) \<and>
      seg_perm 0 (Suc ?n) (elems ?s) (elems (up h ?s ?n))"
    by (rule up_spec) (auto simp: e)
  then show ?thesis by (auto simp: heap_Push_def Let_def laws e heap_ok_def seg_perm_def)
qed

text \<open>Taking the last element off, when the others form a heap.\<close>

lemma pop_last:
  assumes o: "heap_on le 2 0 n (offs 0 (elems t))" and l: "length (elems t) = Suc n"
  shows "fst (Pop h t) = elems t ! n" "heap_ok (snd (Pop h t))"
    "mset (elems t) = add_mset (elems t ! n) (mset (elems (snd (Pop h t))))"
proof -
  have ne: "elems t \<noteq> []" using l by auto
  note p = pop [OF ne]
  have lst: "last (elems t) = elems t ! n" using l ne by (simp add: last_conv_nth)
  with p show "fst (Pop h t) = elems t ! n" by simp
  have "elems t = elems (snd (Pop h t)) @ [elems t ! n]"
    using p ne lst by (metis append_butlast_last_id)
  then show "mset (elems t) = add_mset (elems t ! n) (mset (elems (snd (Pop h t))))"
    by (metis mset_append mset_single_iff_right add_mset_add_single mset.simps)
  show "heap_ok (snd (Pop h t))"
    unfolding heap_ok_def heap_on_def
  proof (intro allI impI)
    fix i assume "0 < i" "i < length (elems (snd (Pop h t)))" "0 \<le> par 2 i"
    then show "le (offs 0 (elems (snd (Pop h t))) (par 2 i)) (offs 0 (elems (snd (Pop h t))) i)"
      using heap_onD [OF o, of i] p l par_less [of i 2] by (simp add: offs_def nth_butlast)
  qed
qed

lemma heap_replace:
  assumes h: "heap_ok s" and i: "i < n" "length (elems s) = Suc n"
  shows "heap_but le 2 0 n (offs 0 (elems (Swap h s i n))) i"
proof -
  have "heap_on le 2 0 n (offs 0 (elems s))" using heap_on_shrink [OF h [unfolded heap_ok_def]] i by simp
  then have "heap_but le 2 0 n ((offs 0 (elems s))(i := offs 0 (elems s) n)) i"
    by (intro heap_but_upd heap_on_but le_transp)
  then show ?thesis by (rule heap_but_cong) (use i in \<open>simp add: offs_swapped\<close>)
qed

lemma Pop_ok:
  assumes h: "heap_ok s" and ne: "elems s \<noteq> []" and r: "heap_Pop h s = (x, s')"
  shows "heap_ok s' \<and> mset (elems s) = add_mset x (mset (elems s')) \<and> (\<forall>y\<in>set (elems s). le x y)"
proof -
  obtain n where n: "length (elems s) = Suc n" using ne by (cases "length (elems s)") auto
  let ?s = "Swap h s 0 n"
  obtain t m where d: "down h ?s 0 n = (t, m)" by fastforce
  have e: "elems ?s = swap (elems s) 0 n" using n by (simp add: laws)
  have b: "heap_but le 2 0 n (offs 0 (elems ?s)) 0"
    using heap_replace [OF h _ n, of 0] by (cases "n = 0") (auto simp: heap_but_def)
  note ds = down_spec [OF b _ _ d]
  have o: "heap_on le 2 0 n (offs 0 (elems t))" and p: "seg_perm 0 n (elems ?s) (elems t)"
    using ds(1,4) n by (auto simp: e upper_def)
  have l: "length (elems t) = Suc n" and x: "elems t ! n = elems s ! 0" and m: "mset (elems t) = mset (elems s)"
    using p n seg_perm_outside [OF p, of n] by (auto simp: e nth_swap seg_perm_def)
  have xs: "(x, s') = Pop h t" using r n d by (simp add: heap_Pop_def Let_def laws)
  note pl = pop_last [OF o l, folded xs]
  have "le (elems s ! 0) y" if "y \<in> set (elems s)" for y
    using that heap_on_root [OF h [unfolded heap_ok_def] le_transp le_reflp]
    by (auto simp: in_set_conv_nth offs_def)
  with pl x m show ?thesis by simp
qed

lemma Remove_ok:
  assumes h: "heap_ok s" and i: "i < length (elems s)" and r: "heap_Remove h s i = (x, s')"
  shows "x = elems s ! i \<and> heap_ok s' \<and> mset (elems s) = add_mset x (mset (elems s'))"
proof -
  obtain n where n: "length (elems s) = Suc n" using i by (cases "length (elems s)") auto
  show ?thesis
  proof (cases "n = i")
    case True
    have "heap_on le 2 0 n (offs 0 (elems s))" using heap_on_shrink [OF h [unfolded heap_ok_def]] n by simp
    note pl = pop_last [OF this n]
    have "Pop h s = (x, s')" using r True n by (simp add: heap_Remove_def laws)
    with pl True show ?thesis by simp
  next
    case False
    then have ni: "i < n" using i n by simp
    let ?s = "Swap h s i n"
    obtain t m where d: "down h ?s i n = (t, m)" by fastforce
    have e: "elems ?s = swap (elems s) i n" using n i by (simp add: laws)
    define t' where "t' = (if \<not> m then up h t i else t)"
    have o: "heap_on le 2 0 n (offs 0 (elems t'))" and p: "seg_perm 0 n (elems ?s) (elems t')"
      using fix_spec [OF heap_replace [OF h ni n] ni _ d] n by (auto simp: t'_def e)
    have l: "length (elems t') = Suc n" and x: "elems t' ! n = elems s ! i" and m: "mset (elems t') = mset (elems s)"
      using p n i ni seg_perm_outside [OF p, of n] by (auto simp: e nth_swap seg_perm_def)
    have "Pop h t' = (x, s')" using r n d False by (simp add: heap_Remove_def Let_def laws t'_def)
    with pop_last [OF o l] x m show ?thesis by simp
  qed
qed

end

section \<open>\<open>IntHeap\<close> implements the contract\<close>

interpretation ih: heap_interface IntHeap "\<lambda>h. h" "(<)"
  by unfold_locales
    (auto simp: IntHeap_def sort_methods.truncate_def strict_weak_less last_conv_nth butlast_conv_take)

section \<open>The properties\<close>

definition is_heap :: "int list \<Rightarrow> bool" where
  "is_heap h \<longleftrightarrow> (\<forall>i\<in>{1..<length h}. h ! ((i - 1) div 2) \<le> h ! i)"

text \<open>The loop of the example: everything is popped.\<close>

primrec pop_n :: "int list \<Rightarrow> nat \<Rightarrow> int list" where
  "pop_n h 0 = []"
| "pop_n h (Suc n) = (let (x, h') = heap_Pop IntHeap h in x # pop_n h' n)"

definition pop_all :: "int list \<Rightarrow> int list" where
  "pop_all h = pop_n h (length h)"

lemma is_heap_ok: "is_heap h \<longleftrightarrow> ih.heap_ok h"
  by (auto simp: is_heap_def ih.heap_ok_def heap_on_def offs_def par_def not_less)

lemma pop_n_sort: "ih.heap_ok h \<Longrightarrow> length h = n \<Longrightarrow> pop_n h n = sort h"
proof (induction n arbitrary: h)
  case (Suc n)
  obtain x h' where p: "heap_Pop IntHeap h = (x, h')" by fastforce
  have ne: "h \<noteq> []" using Suc.prems by auto
  note pk = ih.Pop_ok [OF Suc.prems(1) ne p]
  then have m: "mset h = mset (x # h')" by simp
  then have "length h' = n" using Suc.prems(2) by (metis length_Cons nat.inject size_mset)
  with pk Suc.IH [of h'] have q: "pop_n h' n = sort h'" by simp
  have "set h' \<subseteq> set h" using m by (metis set_mset_mset set_subset_Cons)
  then have "sorted (x # sort h')" using pk by (auto simp: not_less)
  with m have "x # sort h' = sort h" by (metis mset.simps(2) mset_sort properties_for_sort)
  with p q show ?case by simp
qed simp

lemma push_all:
  "ih.heap_ok h \<Longrightarrow> ih.heap_ok (fold (\<lambda>x s. heap_Push IntHeap s x) xs h) \<and>
    mset (fold (\<lambda>x s. heap_Push IntHeap s x) xs h) = mset (h @ xs)"
proof (induction xs arbitrary: h)
  case (Cons x xs)
  from ih.Push_ok [OF Cons.prems, of x] Cons.IH [of "heap_Push IntHeap h x"] show ?case by simp
qed simp

text \<open>C39. Used as the documentation says, the heap yields its elements in increasing order:
  \<open>Init\<close>, any pushes, then pops until it is empty sort the elements.\<close>

theorem heap_yields_sorted:
  "pop_all (fold (\<lambda>x s. heap_Push IntHeap s x) xs (heap_Init IntHeap h)) = sort (h @ xs)"
proof -
  let ?h = "fold (\<lambda>x s. heap_Push IntHeap s x) xs (heap_Init IntHeap h)"
  have i: "ih.heap_ok (heap_Init IntHeap h)" "mset (heap_Init IntHeap h) = mset h"
    using ih.Init_ok by auto
  from push_all [OF i(1), of xs] i(2) have "ih.heap_ok ?h" "mset ?h = mset (h @ xs)" by auto
  then show ?thesis unfolding pop_all_def by (metis pop_n_sort mset_sort properties_for_sort sorted_sort)
qed

text \<open>\<open>Pop\<close> returns a least element of the heap, takes away just that one, and leaves a
  heap.\<close>

theorem heap_Pop_least:
  assumes "is_heap h" and "h \<noteq> []"
  shows "\<exists>x h'. heap_Pop IntHeap h = (x, h') \<and> is_heap h' \<and> mset h = add_mset x (mset h') \<and> (\<forall>y\<in>set h. x \<le> y)"
proof -
  obtain x h' where p: "heap_Pop IntHeap h = (x, h')" by fastforce
  from ih.Pop_ok [OF assms(1) [unfolded is_heap_ok] assms(2) p] p show ?thesis
    by (auto simp: is_heap_ok not_less)
qed

theorem heap_Pop_least_witness: "\<exists>x h'. heap_Pop IntHeap [1, 3, 2] = (x, h') \<and> is_heap h' \<and> x \<le> 1"
proof -
  have "{1..<length [1, 3, 2 :: int]} = {1, 2}" by auto
  then have "is_heap [1, 3, 2]" by (simp add: is_heap_def)
  from heap_Pop_least [OF this] show ?thesis by auto
qed

text \<open>C40. \<open>Remove\<close> takes away the element at the index it is given, and \<open>Fix\<close> repairs the heap
  after the element at its index has changed, whether it has to move up or down.\<close>

theorem heap_Remove_Fix:
  assumes "is_heap h" and "i < length h"
  shows "fst (heap_Remove IntHeap h i) = h ! i \<and> is_heap (snd (heap_Remove IntHeap h i)) \<and>
    mset h = add_mset (h ! i) (mset (snd (heap_Remove IntHeap h i))) \<and>
    is_heap (heap_Fix IntHeap (h[i := v]) i) \<and> mset (heap_Fix IntHeap (h[i := v]) i) = mset (h[i := v])"
proof -
  obtain x h' where r: "heap_Remove IntHeap h i = (x, h')" by fastforce
  have h: "ih.heap_ok h" using assms(1) by (simp add: is_heap_ok)
  have "heap_but ih.le 2 0 (length h) (offs 0 (h[i := v])) i"
    by (rule heap_but_cong [OF heap_but_upd [OF heap_on_but [OF h [unfolded ih.heap_ok_def] ih.le_transp], where v = v]])
      (simp add: offs_def nth_list_update)
  then have "ih.heap_ok (heap_Fix IntHeap (h[i := v]) i) \<and> mset (heap_Fix IntHeap (h[i := v]) i) = mset (h[i := v])"
    using ih.Fix_ok [of "h[i := v]" i] assms(2) by simp
  with ih.Remove_ok [OF h assms(2) r] r show ?thesis by (simp add: is_heap_ok)
qed

theorem heap_Remove_Fix_witness:
  "fst (heap_Remove IntHeap [1, 3, 2] 1) = 3 \<and> is_heap (heap_Fix IntHeap ([1, 3, 2][1 := 0]) 1)"
proof -
  have "{1..<length [1, 3, 2 :: int]} = {1, 2}" by auto
  then have "is_heap [1, 3, 2]" by (simp add: is_heap_def)
  from heap_Remove_Fix [OF this, of 1 0] show ?thesis by simp
qed

end
