(* ===== verification/Timer.thy ===== *)
theory Timer
  imports Heap_Order
begin

text \<open>
  The timers of the runtime (\<open>runtime/time.go\<close>, and \<open>checkTimers\<close> of \<open>proc.go\<close>): each P has a
  4-ary heap of pointers to timers, ordered by \<open>when\<close>, and each timer a status.  A timer is a
  record in a store, a P its list of timers and its counters.

  An operation runs here without interference from another thread, so every
  compare-and-swap succeeds; a status that makes the code wait for another thread
  (\<open>osyield\<close> in a loop) is the outcome \<open>Spin\<close>.  Times are integers in the range of \<open>int64\<close>, with
  the wrap-around of \<open>runOneTimer\<close> written out.  The callback of a timer is called with the lock
  released: a call is recorded, what it does is not modelled.  The calls of \<open>wakeNetPoller\<close>
  are recorded too.
\<close>

section \<open>The state\<close>

type_synonym tid = nat
type_synonym pid = nat

datatype tstatus = timerNoStatus | timerWaiting | timerRunning | timerDeleted | timerRemoving
  | timerRemoved | timerModifying | timerModifiedEarlier | timerModifiedLater | timerMoving

type_synonym callback = nat

record timer =
  t_pp :: "pid option"
  t_when :: int
  t_period :: int
  t_f :: callback
  t_arg :: nat
  t_seq :: nat
  t_nextwhen :: int
  t_status :: tstatus

record ptimers =
  timers :: "tid list"
  timer0When :: int
  numTimers :: int
  adjustTimers :: int
  deletedTimers :: int

record tsys =
  tm :: "tid \<Rightarrow> timer"
  pt :: "pid \<Rightarrow> ptimers"
  calls :: "(callback \<times> nat \<times> nat) list"
  polls :: "int list"

definition maxWhen :: int where "maxWhen = 2 ^ 63 - 1"

definition wrap64 :: "int \<Rightarrow> int" where
  "wrap64 x = (x + 2 ^ 63) mod 2 ^ 64 - 2 ^ 63"

definition upd_t :: "tid \<Rightarrow> (timer \<Rightarrow> timer) \<Rightarrow> tsys \<Rightarrow> tsys" where
  "upd_t t f s = s\<lparr>tm := (tm s)(t := f (tm s t))\<rparr>"

definition upd_p :: "pid \<Rightarrow> (ptimers \<Rightarrow> ptimers) \<Rightarrow> tsys \<Rightarrow> tsys" where
  "upd_p p f s = s\<lparr>pt := (pt s)(p := f (pt s p))\<rparr>"

abbreviation set_status :: "tid \<Rightarrow> tstatus \<Rightarrow> tsys \<Rightarrow> tsys" where
  "set_status t st \<equiv> upd_t t (\<lambda>x. x\<lparr>t_status := st\<rparr>)"

definition wakeNetPoller :: "int \<Rightarrow> tsys \<Rightarrow> tsys" where
  "wakeNetPoller w s = s\<lparr>polls := polls s @ [w]\<rparr>"

definition badTimer :: "'a outcome" where
  "badTimer = Throw ''timer data corruption''"

section \<open>The heap\<close>

text \<open>
  The loops move elements into a hole and write \<open>tmp\<close> at the end; \<open>w\<close> gives the \<open>when\<close> of a
  timer.
\<close>

fun siftup_loop :: "(tid \<Rightarrow> int) \<Rightarrow> int \<Rightarrow> tid list \<Rightarrow> nat \<Rightarrow> tid list \<times> nat" where
  "siftup_loop w when t i =
     (if i > 0 then
        let p = (i - 1) div 4 in
        if when \<ge> w (t ! p) then (t, i) else siftup_loop w when (t[i := t ! p]) p
      else (t, i))"

declare siftup_loop.simps [simp del]

definition siftupTimer :: "(tid \<Rightarrow> int) \<Rightarrow> tid list \<Rightarrow> nat \<Rightarrow> tid list outcome" where
  "siftupTimer w t i =
     (if i \<ge> length t then badTimer
      else let tmp = t ! i; (t', j) = siftup_loop w (w tmp) t i in
        Ret (if tmp \<noteq> t' ! j then t'[j := tmp] else t'))"

text \<open>The child with the least \<open>when\<close>, \<open>c\<close> being the first child.\<close>

definition min_child :: "(tid \<Rightarrow> int) \<Rightarrow> tid list \<Rightarrow> nat \<Rightarrow> nat" where
  "min_child w t i =
     (let n = length t; c = i * 4 + 1; c3 = c + 2;
          c = (if c + 1 < n \<and> w (t ! (c + 1)) < w (t ! c) then c + 1 else c)
      in if c3 < n then
           let c3 = (if c3 + 1 < n \<and> w (t ! (c3 + 1)) < w (t ! c3) then c3 + 1 else c3)
           in if w (t ! c3) < w (t ! c) then c3 else c
         else c)"

lemma min_child_range: "i * 4 + 1 < length t \<Longrightarrow> i < min_child w t i \<and> min_child w t i < length t"
  by (auto simp: min_child_def Let_def)

function siftdown_loop :: "(tid \<Rightarrow> int) \<Rightarrow> int \<Rightarrow> tid list \<Rightarrow> nat \<Rightarrow> tid list \<times> nat" where
  "siftdown_loop w when t i =
     (if i * 4 + 1 \<ge> length t then (t, i)
      else if w (t ! min_child w t i) \<ge> when then (t, i)
      else siftdown_loop w when (t[i := t ! min_child w t i]) (min_child w t i))"
  by pat_completeness auto
termination
proof (relation "measure (\<lambda>(_, _, t, i). length t - i)", goal_cases)
  case (2 w wh t i)
  then show ?case using min_child_range [of i t w] by auto
qed simp

declare siftdown_loop.simps [simp del]

definition siftdownTimer :: "(tid \<Rightarrow> int) \<Rightarrow> tid list \<Rightarrow> nat \<Rightarrow> tid list outcome" where
  "siftdownTimer w t i =
     (if i \<ge> length t then badTimer
      else let tmp = t ! i; (t', j) = siftdown_loop w (w tmp) t i in
        Ret (if tmp \<noteq> t' ! j then t'[j := tmp] else t'))"

definition whens :: "tsys \<Rightarrow> tid \<Rightarrow> int" where
  "whens s t = t_when (tm s t)"

text \<open>\<open>siftupTimer(pp.timers, i)\<close> and \<open>siftdownTimer(pp.timers, i)\<close>, in place.\<close>

definition siftup_in :: "pid \<Rightarrow> nat \<Rightarrow> tsys \<Rightarrow> tsys outcome" where
  "siftup_in p i s =
     obind (siftupTimer (whens s) (timers (pt s p)) i) (\<lambda>ts. Ret (upd_p p (\<lambda>x. x\<lparr>timers := ts\<rparr>) s))"

definition siftdown_in :: "pid \<Rightarrow> nat \<Rightarrow> tsys \<Rightarrow> tsys outcome" where
  "siftdown_in p i s =
     obind (siftdownTimer (whens s) (timers (pt s p)) i) (\<lambda>ts. Ret (upd_p p (\<lambda>x. x\<lparr>timers := ts\<rparr>) s))"

definition updateTimer0When :: "pid \<Rightarrow> tsys \<Rightarrow> tsys" where
  "updateTimer0When p s =
     upd_p p (\<lambda>x. x\<lparr>timer0When := (if timers x = [] then 0 else whens s (timers x ! 0))\<rparr>) s"

definition doaddtimer :: "pid \<Rightarrow> tid \<Rightarrow> tsys \<Rightarrow> tsys outcome" where
  "doaddtimer p t s =
     (if t_pp (tm s t) \<noteq> None then Throw ''doaddtimer: P already set in timer''
      else
        let s = upd_t t (\<lambda>x. x\<lparr>t_pp := Some p\<rparr>) s;
            i = length (timers (pt s p));
            s = upd_p p (\<lambda>x. x\<lparr>timers := timers x @ [t]\<rparr>) s
        in obind (siftup_in p i s) (\<lambda>s.
             let s = (if t = timers (pt s p) ! 0
                      then upd_p p (\<lambda>x. x\<lparr>timer0When := whens s t\<rparr>) s else s)
             in Ret (upd_p p (\<lambda>x. x\<lparr>numTimers := numTimers x + 1\<rparr>) s)))"

definition dodeltimer :: "pid \<Rightarrow> nat \<Rightarrow> tsys \<Rightarrow> tsys outcome" where
  "dodeltimer p i s =
     (let t = timers (pt s p) ! i in
      if i \<ge> length (timers (pt s p)) then Panic ''index out of range''
      else if t_pp (tm s t) \<noteq> Some p then Throw ''dodeltimer: wrong P''
      else
        let s = upd_t t (\<lambda>x. x\<lparr>t_pp := None\<rparr>) s;
            last = length (timers (pt s p)) - 1;
            s = (if i \<noteq> last then upd_p p (\<lambda>x. x\<lparr>timers := (timers x)[i := timers x ! last]\<rparr>) s else s);
            s = upd_p p (\<lambda>x. x\<lparr>timers := take last (timers x)\<rparr>) s
        in obind (if i \<noteq> last then obind (siftup_in p i s) (siftdown_in p i) else Ret s) (\<lambda>s.
             let s = (if i = 0 then updateTimer0When p s else s)
             in Ret (upd_p p (\<lambda>x. x\<lparr>numTimers := numTimers x - 1\<rparr>) s)))"

definition dodeltimer0 :: "pid \<Rightarrow> tsys \<Rightarrow> tsys outcome" where
  "dodeltimer0 p s =
     (let t = timers (pt s p) ! 0 in
      if timers (pt s p) = [] then Panic ''index out of range''
      else if t_pp (tm s t) \<noteq> Some p then Throw ''dodeltimer0: wrong P''
      else
        let s = upd_t t (\<lambda>x. x\<lparr>t_pp := None\<rparr>) s;
            last = length (timers (pt s p)) - 1;
            s = (if last > 0 then upd_p p (\<lambda>x. x\<lparr>timers := (timers x)[0 := timers x ! last]\<rparr>) s else s);
            s = upd_p p (\<lambda>x. x\<lparr>timers := take last (timers x)\<rparr>) s
        in obind (if last > 0 then siftdown_in p 0 s else Ret s) (\<lambda>s.
             Ret (upd_p p (\<lambda>x. x\<lparr>numTimers := numTimers x - 1\<rparr>) (updateTimer0When p s))))"

section \<open>Cleaning the head of the heap\<close>

text \<open>
  The iterations of \<open>cleantimers\<close> and \<open>runtimer\<close> on a timer that was deleted or modified; \<open>s1\<close> is the status it had.
\<close>

definition remove_deleted :: "pid \<Rightarrow> tid \<Rightarrow> tsys \<Rightarrow> tsys outcome" where
  "remove_deleted p t s =
     obind (dodeltimer0 p (set_status t timerRemoving s)) (\<lambda>s.
       Ret (upd_p p (\<lambda>x. x\<lparr>deletedTimers := deletedTimers x - 1\<rparr>) (set_status t timerRemoved s)))"

definition move_modified :: "pid \<Rightarrow> tid \<Rightarrow> tstatus \<Rightarrow> tsys \<Rightarrow> tsys outcome" where
  "move_modified p t s1 s =
     (let s = upd_t t (\<lambda>x. x\<lparr>t_when := t_nextwhen x\<rparr>) (set_status t timerMoving s)
      in obind (dodeltimer0 p s) (\<lambda>s. obind (doaddtimer p t s) (\<lambda>s.
           let s = (if s1 = timerModifiedEarlier
                    then upd_p p (\<lambda>x. x\<lparr>adjustTimers := adjustTimers x - 1\<rparr>) s else s)
           in Ret (set_status t timerWaiting s))))"

text \<open>
  The timers of a P that are deleted or modified: each iteration of the loops below leaves one
  less.
\<close>

definition stale_status :: "tstatus \<Rightarrow> bool" where
  "stale_status st \<longleftrightarrow> st = timerDeleted \<or> st = timerModifiedEarlier \<or> st = timerModifiedLater"

definition stale_count :: "pid \<Rightarrow> tsys \<Rightarrow> nat" where
  "stale_count p s = size (filter_mset (\<lambda>t. stale_status (t_status (tm s t))) (mset (timers (pt s p))))"

lemma siftup_loop_mset:
  "i < length t \<Longrightarrow> siftup_loop w v t i = (t', j) \<Longrightarrow>
    j < length t \<and> length t' = length t \<and> mset (t'[j := x]) = mset (t[i := x])"
proof (induction w v t i rule: siftup_loop.induct)
  case (1 w v t i)
  let ?p = "(i - 1) div 4"
  show ?case
  proof (cases "i > 0 \<and> \<not> v \<ge> w (t ! ?p)")
    case True
    then have p: "?p < i" by linarith
    have "mset (t[i := t ! ?p, ?p := x]) = mset (t[i := x])"
      using mset_swap [of ?p "t[i := x]" i] p 1(2) by (simp add: list_update_swap)
    with 1(1) [of ?p] True p 1(2,3) show ?thesis by (simp add: siftup_loop.simps [of w v t i] Let_def)
  qed (use 1 in \<open>auto simp: siftup_loop.simps [of w v t i] Let_def split: if_splits\<close>)
qed

lemma siftdown_loop_mset:
  "i < length t \<Longrightarrow> siftdown_loop w v t i = (t', j) \<Longrightarrow>
    j < length t \<and> length t' = length t \<and> mset (t'[j := x]) = mset (t[i := x])"
proof (induction w v t i rule: siftdown_loop.induct)
  case (1 w v t i)
  let ?c = "min_child w t i"
  show ?case
  proof (cases "i * 4 + 1 < length t \<and> \<not> v \<le> w (t ! ?c)")
    case True
    then have c: "i < ?c" "?c < length t" using min_child_range [of i t w] by auto
    have "mset (t[i := t ! ?c, ?c := x]) = mset (t[i := x])"
      using mset_swap [of ?c "t[i := x]" i] c by (simp add: list_update_swap)
    with 1(1) True c 1(2,3) show ?thesis by (simp add: siftdown_loop.simps [of w v t i])
  qed (use 1 in \<open>auto simp: siftdown_loop.simps [of w v t i] split: if_splits\<close>)
qed

lemma sift_write: "(if x \<noteq> t ! j then t[j := x] else t) = t[j := x]"
  by (cases "j < length t") auto

lemma siftupTimer_eq:
  "siftupTimer w t i = (if i \<ge> length t then badTimer
     else Ret (case siftup_loop w (w (t ! i)) t i of (t', j) \<Rightarrow> t'[j := t ! i]))"
  by (simp add: siftupTimer_def sift_write Let_def split: prod.split)

lemma siftdownTimer_eq:
  "siftdownTimer w t i = (if i \<ge> length t then badTimer
     else Ret (case siftdown_loop w (w (t ! i)) t i of (t', j) \<Rightarrow> t'[j := t ! i]))"
  by (simp add: siftdownTimer_def sift_write Let_def split: prod.split)

lemma siftupTimer_mset:
  assumes "siftupTimer w t i = Ret ts"
  shows "mset ts = mset t"
proof -
  obtain t' j where l: "siftup_loop w (w (t ! i)) t i = (t', j)" by fastforce
  from assms have i: "i < length t" and ts: "ts = t'[j := t ! i]"
    by (auto simp: siftupTimer_eq badTimer_def l split: if_splits)
  from siftup_loop_mset [OF i l, of "t ! i"] ts show ?thesis by simp
qed

lemma siftdownTimer_mset:
  assumes "siftdownTimer w t i = Ret ts"
  shows "mset ts = mset t"
proof -
  obtain t' j where l: "siftdown_loop w (w (t ! i)) t i = (t', j)" by fastforce
  from assms have i: "i < length t" and ts: "ts = t'[j := t ! i]"
    by (auto simp: siftdownTimer_eq badTimer_def l split: if_splits)
  from siftdown_loop_mset [OF i l, of "t ! i"] ts show ?thesis by simp
qed

text \<open>The two operations without the intermediate states.\<close>

definition sup :: "(tid \<Rightarrow> int) \<Rightarrow> tid list \<Rightarrow> nat \<Rightarrow> tid list" where
  "sup w t i = (case siftup_loop w (w (t ! i)) t i of (t', j) \<Rightarrow> t'[j := t ! i])"

definition sdown :: "(tid \<Rightarrow> int) \<Rightarrow> tid list \<Rightarrow> nat \<Rightarrow> tid list" where
  "sdown w t i = (case siftdown_loop w (w (t ! i)) t i of (t', j) \<Rightarrow> t'[j := t ! i])"

definition del0 :: "(tid \<Rightarrow> int) \<Rightarrow> tid list \<Rightarrow> tid list" where
  "del0 w ts = (let n = length ts - 1 in if n > 0 then sdown w (take n (ts[0 := ts ! n])) 0 else [])"

definition del_at :: "(tid \<Rightarrow> int) \<Rightarrow> tid list \<Rightarrow> nat \<Rightarrow> tid list" where
  "del_at w ts i =
     (let n = length ts - 1 in if i \<noteq> n then sdown w (sup w (take n (ts[i := ts ! n])) i) i else take n ts)"

definition first_when :: "(tid \<Rightarrow> int) \<Rightarrow> tid list \<Rightarrow> int" where
  "first_when w ts = (if ts = [] then 0 else w (ts ! 0))"

lemma siftupTimer_sup: "i < length t \<Longrightarrow> siftupTimer w t i = Ret (sup w t i)"
  by (simp add: siftupTimer_eq sup_def)

lemma siftdownTimer_sdown: "i < length t \<Longrightarrow> siftdownTimer w t i = Ret (sdown w t i)"
  by (simp add: siftdownTimer_eq sdown_def)

lemma mset_sup: "i < length t \<Longrightarrow> mset (sup w t i) = mset t"
  using siftupTimer_mset siftupTimer_sup by blast

lemma mset_sdown: "i < length t \<Longrightarrow> mset (sdown w t i) = mset t"
  using siftdownTimer_mset siftdownTimer_sdown by blast

lemma length_sup [simp]: "i < length t \<Longrightarrow> length (sup w t i) = length t"
  using mset_sup mset_eq_length by blast

lemma length_sdown [simp]: "i < length t \<Longrightarrow> length (sdown w t i) = length t"
  using mset_sdown mset_eq_length by blast

lemma whens_upd_p [simp]: "whens (upd_p p f s) = whens s"
  by (simp add: whens_def upd_p_def fun_eq_iff)

lemma upd_p_simps [simp]:
  "tm (upd_p p f s) = tm s" "pt (upd_p p f s) = (pt s)(p := f (pt s p))"
  "calls (upd_p p f s) = calls s" "polls (upd_p p f s) = polls s"
  "upd_p p g (upd_p p f s) = upd_p p (\<lambda>x. g (f x)) s"
  by (simp_all add: upd_p_def)

lemma upd_t_simps [simp]:
  "pt (upd_t t f s) = pt s" "tm (upd_t t f s) = (tm s)(t := f (tm s t))"
  "calls (upd_t t f s) = calls s" "polls (upd_t t f s) = polls s"
  "upd_t t g (upd_t t f s) = upd_t t (\<lambda>x. g (f x)) s"
  by (simp_all add: upd_t_def)

lemma whens_pp [simp]: "whens (upd_t t (\<lambda>x. x\<lparr>t_pp := v\<rparr>) s) = whens s"
  "whens (upd_t t (\<lambda>x. x\<lparr>t_status := st\<rparr>) s) = whens s"
  by (auto simp: whens_def fun_eq_iff)

lemma upd_p_cong: "f (pt s p) = g (pt s p) \<Longrightarrow> upd_p p f s = upd_p p g s"
  by (simp add: upd_p_def)

lemma siftup_in_eq:
  "i < length (timers (pt s p)) \<Longrightarrow>
    siftup_in p i s = Ret (upd_p p (\<lambda>x. x\<lparr>timers := sup (whens s) (timers x) i\<rparr>) s)"
  by (simp add: siftup_in_def siftupTimer_sup upd_p_def)

lemma siftdown_in_eq:
  "i < length (timers (pt s p)) \<Longrightarrow>
    siftdown_in p i s = Ret (upd_p p (\<lambda>x. x\<lparr>timers := sdown (whens s) (timers x) i\<rparr>) s)"
  by (simp add: siftdown_in_def siftdownTimer_sdown upd_p_def)

lemma updateTimer0When_eq:
  "updateTimer0When p s = upd_p p (\<lambda>x. x\<lparr>timer0When := first_when (whens s) (timers x)\<rparr>) s"
  by (simp add: updateTimer0When_def first_when_def)

lemma doaddtimer_eq:
  "doaddtimer p t s =
     (if t_pp (tm s t) \<noteq> None then Throw ''doaddtimer: P already set in timer''
      else Ret (upd_p p (\<lambda>x. let ts = sup (whens s) (timers x @ [t]) (length (timers x)) in
        x\<lparr>timers := ts, timer0When := (if t = ts ! 0 then whens s t else timer0When x),
          numTimers := numTimers x + 1\<rparr>) (upd_t t (\<lambda>x. x\<lparr>t_pp := Some p\<rparr>) s)))"
  by (auto simp: doaddtimer_def siftup_in_eq Let_def intro!: upd_p_cong)

lemma dodeltimer0_eq:
  "dodeltimer0 p s =
     (if timers (pt s p) = [] then Panic ''index out of range''
      else if t_pp (tm s (timers (pt s p) ! 0)) \<noteq> Some p then Throw ''dodeltimer0: wrong P''
      else Ret (upd_p p (\<lambda>x. x\<lparr>timers := del0 (whens s) (timers x),
          timer0When := first_when (whens s) (del0 (whens s) (timers x)), numTimers := numTimers x - 1\<rparr>)
        (upd_t (timers (pt s p) ! 0) (\<lambda>x. x\<lparr>t_pp := None\<rparr>) s)))"
proof (cases "length (timers (pt s p)) \<le> 1")
  case True
  then show ?thesis
    by (cases "timers (pt s p)")
      (auto simp: dodeltimer0_def Let_def del0_def updateTimer0When_eq intro!: upd_p_cong)
next
  case False
  then have "0 < length (timers (pt s p)) - 1" by simp
  then show ?thesis
    by (auto simp: dodeltimer0_def Let_def siftdown_in_eq del0_def updateTimer0When_eq intro!: upd_p_cong)
qed

lemma dodeltimer_eq:
  "dodeltimer p i s =
     (if i \<ge> length (timers (pt s p)) then Panic ''index out of range''
      else if t_pp (tm s (timers (pt s p) ! i)) \<noteq> Some p then Throw ''dodeltimer: wrong P''
      else Ret (upd_p p (\<lambda>x. x\<lparr>timers := del_at (whens s) (timers x) i,
          timer0When := (if i = 0 then first_when (whens s) (del_at (whens s) (timers x) i) else timer0When x),
          numTimers := numTimers x - 1\<rparr>)
        (upd_t (timers (pt s p) ! i) (\<lambda>x. x\<lparr>t_pp := None\<rparr>) s)))"
proof (cases "i = length (timers (pt s p)) - 1")
  case True
  then show ?thesis
    by (auto simp: dodeltimer_def Let_def del_at_def updateTimer0When_eq intro!: upd_p_cong)
next
  case False
  then show ?thesis
    by (auto simp: dodeltimer_def Let_def siftup_in_eq siftdown_in_eq del_at_def updateTimer0When_eq not_le
        intro!: upd_p_cong)
qed

lemma mset_del0:
  assumes "ts \<noteq> []"
  shows "mset (del0 w ts) = mset ts - {#ts ! 0#}"
proof -
  obtain n where n: "length ts = Suc n" using assms by (cases ts) auto
  show ?thesis
  proof (cases "n > 0")
    case True
    then show ?thesis using mset_move_last [OF n True] n by (simp add: del0_def mset_sdown)
  next
    case False
    with n show ?thesis by (cases ts) (auto simp: del0_def)
  qed
qed

lemma mset_del_at:
  assumes "i < length ts"
  shows "mset (del_at w ts i) = mset ts - {#ts ! i#}"
proof -
  obtain n where n: "length ts = Suc n" using assms by (cases ts) auto
  show ?thesis
  proof (cases "i = n")
    case True
    then show ?thesis using n mset_butlast_take [OF n] by (simp add: del_at_def)
  next
    case False
    then have i: "i < n" using assms n by simp
    show ?thesis using mset_move_last [OF n i] n i by (simp add: del_at_def mset_sdown mset_sup)
  qed
qed

lemma length_del_at: "i < length ts \<Longrightarrow> length (del_at w ts i) = length ts - 1"
  using mset_del_at [of i ts w] by (metis nth_mem_mset size_Diff_singleton size_mset)

lemma length_del0: "ts \<noteq> [] \<Longrightarrow> length (del0 w ts) = length ts - 1"
  using mset_del0 [of ts w] by (metis length_greater_0_conv nth_mem_mset size_Diff_singleton size_mset)

text \<open>A change of status of \<open>t\<close> to one that is not stale, when \<open>t\<close> is in the heap and stale.\<close>

lemma stale_count_less:
  assumes m: "mset (timers (pt s' p)) \<subseteq># mset (timers (pt s p))" and t: "t \<in> set (timers (pt s p))"
    and st: "stale_status (t_status (tm s t))" "\<not> stale_status (t_status (tm s' t))"
    and o: "\<And>u. u \<noteq> t \<Longrightarrow> t_status (tm s' u) = t_status (tm s u)"
  shows "stale_count p s' < stale_count p s"
proof -
  let ?P = "\<lambda>s u. stale_status (t_status (tm s u))"
  have sub: "filter_mset (?P s') (mset (timers (pt s p))) \<subset># filter_mset (?P s) (mset (timers (pt s p)))"
  proof (rule subset_mset.le_neq_trans)
    show "filter_mset (?P s') (mset (timers (pt s p))) \<subseteq># filter_mset (?P s) (mset (timers (pt s p)))"
      by (rule mset_subset_eqI) (metis count_filter_mset le_refl o st zero_le)
    have "t \<in># filter_mset (?P s) (mset (timers (pt s p)))" "t \<notin># filter_mset (?P s') (mset (timers (pt s p)))"
      using t st by auto
    then show "filter_mset (?P s') (mset (timers (pt s p))) \<noteq> filter_mset (?P s) (mset (timers (pt s p)))"
      by metis
  qed
  have "stale_count p s' \<le> size (filter_mset (?P s') (mset (timers (pt s p))))"
    unfolding stale_count_def by (intro size_mset_mono multiset_filter_mono m)
  also have "\<dots> < stale_count p s"
    unfolding stale_count_def by (rule mset_subset_size [OF sub])
  finally show ?thesis .
qed

lemma remove_deleted_count:
  assumes r: "remove_deleted p (timers (pt s p) ! 0) s = Ret s'" and d: "t_status (tm s (timers (pt s p) ! 0)) = timerDeleted"
    and ne: "timers (pt s p) \<noteq> []"
  shows "stale_count p s' < stale_count p s"
  by (rule stale_count_less [where t = "timers (pt s p) ! 0"])
    (use r d ne in \<open>auto simp: remove_deleted_def dodeltimer0_eq mset_del0 stale_status_def split: if_splits\<close>)

lemma move_modified_count:
  assumes r: "move_modified p (timers (pt s p) ! 0) st s = Ret s'"
    and d: "stale_status (t_status (tm s (timers (pt s p) ! 0)))" and ne: "timers (pt s p) \<noteq> []"
  shows "stale_count p s' < stale_count p s"
  by (rule stale_count_less [where t = "timers (pt s p) ! 0"])
    (use r d ne in \<open>auto simp: move_modified_def dodeltimer0_eq doaddtimer_eq mset_del0 mset_sup
        stale_status_def Let_def split: if_splits\<close>)

text \<open>\<open>preempt\<close> is \<open>gp.preemptStop\<close>.\<close>

function cleantimers :: "bool \<Rightarrow> pid \<Rightarrow> tsys \<Rightarrow> tsys outcome" where
  "cleantimers preempt p s =
     (if timers (pt s p) = [] then Ret s
      else if preempt then Ret s
      else let t = timers (pt s p) ! 0 in
        if t_pp (tm s t) \<noteq> Some p then Throw ''cleantimers: bad p''
        else if t_status (tm s t) = timerDeleted then obind (remove_deleted p t s) (cleantimers preempt p)
        else if t_status (tm s t) = timerModifiedEarlier \<or> t_status (tm s t) = timerModifiedLater
        then obind (move_modified p t (t_status (tm s t)) s) (cleantimers preempt p)
        else Ret s)"
  by pat_completeness auto
termination
  by (relation "measure (\<lambda>(_, p, s). stale_count p s)")
    (auto intro: remove_deleted_count move_modified_count simp: stale_status_def)

declare cleantimers.simps [simp del]

section \<open>Adding, deleting and modifying\<close>

text \<open>\<open>p\<close> is the current P, as \<open>getg().m.p\<close>.\<close>

definition addtimer :: "bool \<Rightarrow> pid \<Rightarrow> tid \<Rightarrow> tsys \<Rightarrow> tsys outcome" where
  "addtimer preempt p t s =
     (let s = (if t_when (tm s t) < 0 then upd_t t (\<lambda>x. x\<lparr>t_when := maxWhen\<rparr>) s else s) in
      if t_status (tm s t) \<noteq> timerNoStatus then Throw ''addtimer called with initialized timer''
      else
        let s = set_status t timerWaiting s;
            when = t_when (tm s t)
        in obind (cleantimers preempt p s) (\<lambda>s. obind (doaddtimer p t s) (\<lambda>s.
             Ret (wakeNetPoller when s))))"

definition deltimer :: "tid \<Rightarrow> tsys \<Rightarrow> (tsys \<times> bool) outcome" where
  "deltimer t s =
     (case t_status (tm s t) of
        timerWaiting \<Rightarrow>
          (case t_pp (tm s t) of None \<Rightarrow> Panic ''nil pointer dereference''
           | Some p \<Rightarrow> Ret (upd_p p (\<lambda>x. x\<lparr>deletedTimers := deletedTimers x + 1\<rparr>) (set_status t timerDeleted s), True))
      | timerModifiedLater \<Rightarrow>
          (case t_pp (tm s t) of None \<Rightarrow> Panic ''nil pointer dereference''
           | Some p \<Rightarrow> Ret (upd_p p (\<lambda>x. x\<lparr>deletedTimers := deletedTimers x + 1\<rparr>) (set_status t timerDeleted s), True))
      | timerModifiedEarlier \<Rightarrow>
          (case t_pp (tm s t) of None \<Rightarrow> Panic ''nil pointer dereference''
           | Some p \<Rightarrow>
               let s = upd_p p (\<lambda>x. x\<lparr>adjustTimers := adjustTimers x - 1\<rparr>) s
               in Ret (upd_p p (\<lambda>x. x\<lparr>deletedTimers := deletedTimers x + 1\<rparr>) (set_status t timerDeleted s), True))
      | timerDeleted \<Rightarrow> Ret (s, False)
      | timerRemoving \<Rightarrow> Ret (s, False)
      | timerRemoved \<Rightarrow> Ret (s, False)
      | timerRunning \<Rightarrow> Spin
      | timerMoving \<Rightarrow> Spin
      | timerNoStatus \<Rightarrow> Ret (s, False)
      | timerModifying \<Rightarrow> Spin)"

text \<open>
  \<open>modtimer\<close>: first the transition to \<open>timerModifying\<close> (the result: whether the timer was
  removed, and whether it was pending), then the change.
\<close>

definition mod_begin :: "tid \<Rightarrow> tsys \<Rightarrow> (tsys \<times> bool \<times> bool) outcome" where
  "mod_begin t s =
     (let st = t_status (tm s t); s1 = set_status t timerModifying s in
      if st = timerWaiting \<or> st = timerModifiedEarlier \<or> st = timerModifiedLater then Ret (s1, False, True)
      else if st = timerNoStatus \<or> st = timerRemoved then Ret (s1, True, False)
      else if st = timerDeleted then
        (case t_pp (tm s t) of None \<Rightarrow> Panic ''nil pointer dereference''
         | Some p \<Rightarrow> Ret (upd_p p (\<lambda>x. x\<lparr>deletedTimers := deletedTimers x - 1\<rparr>) s1, False, False))
      else Spin)"

definition mod_in_place :: "tid \<Rightarrow> int \<Rightarrow> tstatus \<Rightarrow> tsys \<Rightarrow> tsys outcome" where
  "mod_in_place t when status s =
     (let s = upd_t t (\<lambda>x. x\<lparr>t_nextwhen := when\<rparr>) s;
          newStatus = (if when < t_when (tm s t) then timerModifiedEarlier else timerModifiedLater);
          adjust = (if status = timerModifiedEarlier then - 1 else 0 :: int);
          adjust = (if newStatus = timerModifiedEarlier then adjust + 1 else adjust);
          s2 = (if newStatus = timerModifiedEarlier then wakeNetPoller when else id)
      in (if adjust \<noteq> 0 then
            (case t_pp (tm s t) of None \<Rightarrow> Panic ''nil pointer dereference''
             | Some p \<Rightarrow> Ret (s2 (set_status t newStatus (upd_p p (\<lambda>x. x\<lparr>adjustTimers := adjustTimers x + adjust\<rparr>) s))))
          else Ret (s2 (set_status t newStatus s))))"

definition modtimer ::
    "pid \<Rightarrow> tid \<Rightarrow> int \<Rightarrow> int \<Rightarrow> callback \<Rightarrow> nat \<Rightarrow> nat \<Rightarrow> tsys \<Rightarrow> (tsys \<times> bool) outcome" where
  "modtimer p t when period f arg seq s =
     (let when = (if when < 0 then maxWhen else when);
          status = t_status (tm s t)
      in obind (mod_begin t s) (\<lambda>(s, wasRemoved, pending).
        let s = upd_t t (\<lambda>x. x\<lparr>t_period := period, t_f := f, t_arg := arg, t_seq := seq\<rparr>) s in
        if wasRemoved then
          obind (doaddtimer p t (upd_t t (\<lambda>x. x\<lparr>t_when := when\<rparr>) s)) (\<lambda>s.
            Ret (wakeNetPoller when (set_status t timerWaiting s), pending))
        else obind (mod_in_place t when status s) (\<lambda>s. Ret (s, pending))))"

definition resettimer :: "pid \<Rightarrow> tid \<Rightarrow> int \<Rightarrow> tsys \<Rightarrow> (tsys \<times> bool) outcome" where
  "resettimer p t when s =
     (let x = tm s t in modtimer p t when (t_period x) (t_f x) (t_arg x) (t_seq x) s)"

definition startTimer :: "bool \<Rightarrow> pid \<Rightarrow> tid \<Rightarrow> tsys \<Rightarrow> tsys outcome" where
  "startTimer preempt p t s = addtimer preempt p t s"

definition stopTimer :: "tid \<Rightarrow> tsys \<Rightarrow> (tsys \<times> bool) outcome" where
  "stopTimer t s = deltimer t s"

section \<open>Moving timers to another P\<close>

fun moveTimers :: "pid \<Rightarrow> tid list \<Rightarrow> tsys \<Rightarrow> tsys outcome" where
  "moveTimers p [] s = Ret s"
| "moveTimers p (t # ts) s =
     (case t_status (tm s t) of
        timerWaiting \<Rightarrow>
          obind (doaddtimer p t (upd_t t (\<lambda>x. x\<lparr>t_pp := None\<rparr>) s)) (moveTimers p ts)
      | timerModifiedEarlier \<Rightarrow>
          obind (doaddtimer p t (upd_t t (\<lambda>x. x\<lparr>t_when := t_nextwhen x, t_pp := None\<rparr>) (set_status t timerMoving s)))
            (\<lambda>s. moveTimers p ts (set_status t timerWaiting s))
      | timerModifiedLater \<Rightarrow>
          obind (doaddtimer p t (upd_t t (\<lambda>x. x\<lparr>t_when := t_nextwhen x, t_pp := None\<rparr>) (set_status t timerMoving s)))
            (\<lambda>s. moveTimers p ts (set_status t timerWaiting s))
      | timerDeleted \<Rightarrow> moveTimers p ts (upd_t t (\<lambda>x. x\<lparr>t_pp := None\<rparr>) (set_status t timerRemoved s))
      | timerModifying \<Rightarrow> Spin
      | _ \<Rightarrow> badTimer)"

section \<open>Adjusting\<close>

text \<open>The loop of \<open>adjusttimers\<close> at index \<open>i\<close>; \<open>moved\<close> are the timers taken off the heap.\<close>

function adjust_loop :: "pid \<Rightarrow> nat \<Rightarrow> tid list \<Rightarrow> tsys \<Rightarrow> (tsys \<times> tid list) outcome" where
  "adjust_loop p i moved s =
     (if i \<ge> length (timers (pt s p)) then Ret (s, moved)
      else let t = timers (pt s p) ! i; st = t_status (tm s t) in
        if t_pp (tm s t) \<noteq> Some p then Throw ''adjusttimers: bad p''
        else if st = timerDeleted then
          obind (dodeltimer p i (set_status t timerRemoving s)) (\<lambda>s.
            adjust_loop p i moved
              (upd_p p (\<lambda>x. x\<lparr>deletedTimers := deletedTimers x - 1\<rparr>) (set_status t timerRemoved s)))
        else if st = timerModifiedEarlier then
          obind (dodeltimer p i (upd_t t (\<lambda>x. x\<lparr>t_when := t_nextwhen x\<rparr>) (set_status t timerMoving s))) (\<lambda>s.
            let s = upd_p p (\<lambda>x. x\<lparr>adjustTimers := adjustTimers x - 1\<rparr>) s
            in if adjustTimers (pt s p) \<le> 0 then Ret (s, moved @ [t])
               else adjust_loop p i (moved @ [t]) s)
        else if st = timerModifiedLater then
          obind (dodeltimer p i (upd_t t (\<lambda>x. x\<lparr>t_when := t_nextwhen x\<rparr>) (set_status t timerMoving s)))
            (adjust_loop p i (moved @ [t]))
        else if st = timerWaiting then adjust_loop p (i + 1) moved s
        else if st = timerModifying then Spin
        else badTimer)"
  by pat_completeness auto
termination
  by (relation "measure (\<lambda>(p, i, _, s). length (timers (pt s p)) - i)")
    (auto simp: dodeltimer_eq length_del_at split: if_splits)

declare adjust_loop.simps [simp del]

fun addAdjustedTimers :: "pid \<Rightarrow> tid list \<Rightarrow> tsys \<Rightarrow> tsys outcome" where
  "addAdjustedTimers p [] s = Ret s"
| "addAdjustedTimers p (t # ts) s =
     obind (doaddtimer p t s) (\<lambda>s. addAdjustedTimers p ts (set_status t timerWaiting s))"

definition adjusttimers :: "pid \<Rightarrow> tsys \<Rightarrow> tsys outcome" where
  "adjusttimers p s =
     (if timers (pt s p) = [] then Ret s
      else if adjustTimers (pt s p) = 0 then Ret s
      else obind (adjust_loop p 0 [] s) (\<lambda>(s, moved). addAdjustedTimers p moved s))"

definition nobarrierWakeTime :: "pid \<Rightarrow> int \<Rightarrow> tsys \<Rightarrow> int" where
  "nobarrierWakeTime p nano s = (if adjustTimers (pt s p) > 0 then nano else timer0When (pt s p))"

section \<open>Running\<close>

text \<open>Division of Go, which truncates towards zero.\<close>

definition goquot :: "int \<Rightarrow> int \<Rightarrow> int" where
  "goquot a b = sgn a * sgn b * (\<bar>a\<bar> div \<bar>b\<bar>)"

definition next_when :: "int \<Rightarrow> int \<Rightarrow> int \<Rightarrow> int" where
  "next_when when period now =
     (let delta = wrap64 (when - now) in wrap64 (when + period * (1 + goquot (- delta) period)))"

definition runOneTimer :: "pid \<Rightarrow> tid \<Rightarrow> int \<Rightarrow> tsys \<Rightarrow> tsys outcome" where
  "runOneTimer p t now s =
     (let x = tm s t; call = (t_f x, t_arg x, t_seq x) in
      obind
        (if t_period x > 0 then
           obind (siftdown_in p 0 (upd_t t (\<lambda>y. y\<lparr>t_when := next_when (t_when y) (t_period y) now\<rparr>) s)) (\<lambda>s.
             Ret (updateTimer0When p (set_status t timerWaiting s)))
         else obind (dodeltimer0 p s) (\<lambda>s. Ret (set_status t timerNoStatus s)))
        (\<lambda>s. Ret (s\<lparr>calls := calls s @ [call]\<rparr>)))"

function runtimer :: "pid \<Rightarrow> int \<Rightarrow> tsys \<Rightarrow> (tsys \<times> int) outcome" where
  "runtimer p now s =
     (if timers (pt s p) = [] then Panic ''index out of range''
      else let t = timers (pt s p) ! 0; st = t_status (tm s t) in
        if t_pp (tm s t) \<noteq> Some p then Throw ''runtimer: bad p''
        else if st = timerWaiting then
          if t_when (tm s t) > now then Ret (s, t_when (tm s t))
          else obind (runOneTimer p t now (set_status t timerRunning s)) (\<lambda>s. Ret (s, 0))
        else if st = timerDeleted then
          obind (remove_deleted p t s) (\<lambda>s.
            if timers (pt s p) = [] then Ret (s, - 1) else runtimer p now s)
        else if st = timerModifiedEarlier \<or> st = timerModifiedLater then
          obind (move_modified p t st s) (runtimer p now)
        else if st = timerModifying then Spin
        else badTimer)"
  by pat_completeness auto
termination
  by (relation "measure (\<lambda>(p, _, s). stale_count p s)")
    (auto intro: remove_deleted_count move_modified_count simp: stale_status_def)

declare runtimer.simps [simp del]

section \<open>Clearing deleted timers\<close>

text \<open>
  The loop of \<open>clearDeletedTimers\<close> over the indices of the slice; the slice \<open>ts\<close> is read and
  written in place.
\<close>

record clear_state =
  cl_sys :: tsys
  cl_ts :: "tid list"
  cl_to :: nat
  cl_del :: int
  cl_earlier :: int
  cl_changed :: bool

definition clear_put :: "tid \<Rightarrow> clear_state \<Rightarrow> clear_state outcome" where
  "clear_put t c =
     obind (siftupTimer (whens (cl_sys c)) ((cl_ts c)[cl_to c := t]) (cl_to c)) (\<lambda>ts.
       Ret (c\<lparr>cl_ts := ts, cl_to := cl_to c + 1\<rparr>))"

definition clear_step :: "nat \<Rightarrow> clear_state \<Rightarrow> clear_state outcome" where
  "clear_step k c =
     (let t = cl_ts c ! k; s = cl_sys c in
      case t_status (tm s t) of
        timerWaiting \<Rightarrow> if cl_changed c then clear_put t c else Ret (c\<lparr>cl_to := cl_to c + 1\<rparr>)
      | timerModifiedEarlier \<Rightarrow>
          obind (clear_put t (c\<lparr>cl_sys := upd_t t (\<lambda>x. x\<lparr>t_when := t_nextwhen x\<rparr>) (set_status t timerMoving s)\<rparr>)) (\<lambda>c.
            Ret (c\<lparr>cl_changed := True, cl_sys := set_status t timerWaiting (cl_sys c), cl_earlier := cl_earlier c + 1\<rparr>))
      | timerModifiedLater \<Rightarrow>
          obind (clear_put t (c\<lparr>cl_sys := upd_t t (\<lambda>x. x\<lparr>t_when := t_nextwhen x\<rparr>) (set_status t timerMoving s)\<rparr>)) (\<lambda>c.
            Ret (c\<lparr>cl_changed := True, cl_sys := set_status t timerWaiting (cl_sys c)\<rparr>))
      | timerDeleted \<Rightarrow>
          Ret (c\<lparr>cl_sys := set_status t timerRemoved (upd_t t (\<lambda>x. x\<lparr>t_pp := None\<rparr>) s), cl_del := cl_del c + 1,
                 cl_changed := True\<rparr>)
      | timerModifying \<Rightarrow> Spin
      | _ \<Rightarrow> badTimer)"

fun clear_loop :: "nat list \<Rightarrow> clear_state \<Rightarrow> clear_state outcome" where
  "clear_loop [] c = Ret c"
| "clear_loop (k # ks) c = obind (clear_step k c) (clear_loop ks)"

definition clearDeletedTimers :: "pid \<Rightarrow> tsys \<Rightarrow> tsys outcome" where
  "clearDeletedTimers p s =
     (let ts = timers (pt s p) in
      obind (clear_loop [0..<length ts] \<lparr>cl_sys = s, cl_ts = ts, cl_to = 0, cl_del = 0, cl_earlier = 0, cl_changed = False\<rparr>)
        (\<lambda>c. let s = upd_p p (\<lambda>x. x\<lparr>deletedTimers := deletedTimers x - cl_del c, numTimers := numTimers x - cl_del c,
                     adjustTimers := adjustTimers x - cl_earlier c, timers := take (cl_to c) (cl_ts c)\<rparr>) (cl_sys c)
             in Ret (updateTimer0When p s)))"

section \<open>Waiting for the next timer\<close>

text \<open>The loop of \<open>timeSleepUntil\<close> over the heap of one P.\<close>

fun sleep_scan :: "tsys \<Rightarrow> tid list \<Rightarrow> int \<Rightarrow> int \<Rightarrow> int" where
  "sleep_scan s [] c next = next"
| "sleep_scan s (t # ts) c next =
     (let st = t_status (tm s t);
          next = (if st = timerWaiting \<and> t_when (tm s t) < next then t_when (tm s t)
                  else if (st = timerModifiedEarlier \<or> st = timerModifiedLater) \<and> t_nextwhen (tm s t) < next
                  then t_nextwhen (tm s t) else next);
          c = (if st = timerModifiedEarlier then c - 1 else c)
      in if c \<le> 0 then next else sleep_scan s ts c next)"

fun sleep_until :: "tsys \<Rightarrow> pid list \<Rightarrow> int \<Rightarrow> pid option \<Rightarrow> int \<times> pid option" where
  "sleep_until s [] next pret = (next, pret)"
| "sleep_until s (p # ps) next pret =
     (let c = adjustTimers (pt s p) in
      if c = 0 then
        (let w = timer0When (pt s p) in
         if w \<noteq> 0 \<and> w < next then sleep_until s ps w (Some p) else sleep_until s ps next pret)
      else sleep_until s ps (sleep_scan s (timers (pt s p)) c next) pret)"

definition timeSleepUntil :: "pid list \<Rightarrow> tsys \<Rightarrow> int \<times> pid option" where
  "timeSleepUntil allp s = sleep_until s allp maxWhen None"

text \<open>
  \<open>checkTimers\<close>: \<open>cur\<close> says whether \<open>pp\<close> is the current P, \<open>nano\<close> is what \<open>nanotime\<close> returns.
\<close>

partial_function (option) run_loop ::
    "pid \<Rightarrow> int \<Rightarrow> bool \<Rightarrow> tsys \<Rightarrow> (tsys \<times> int \<times> bool) outcome option" where
  "run_loop p now fired s =
     (if timers (pt s p) = [] then Some (Ret (s, 0, fired))
      else (case runtimer p now s of
          Ret r \<Rightarrow>
            if snd r \<noteq> 0 then Some (Ret (fst r, if snd r > 0 then snd r else 0, fired))
            else run_loop p now True (fst r)
        | Panic m \<Rightarrow> Some (Panic m)
        | Throw m \<Rightarrow> Some (Throw m)
        | Spin \<Rightarrow> Some Spin))"

definition check_skip :: "pid \<Rightarrow> bool \<Rightarrow> int \<Rightarrow> int \<Rightarrow> tsys \<Rightarrow> (int \<times> int) option" where
  "check_skip p cur now nano s =
     (if adjustTimers (pt s p) = 0 then
        (let next = timer0When (pt s p); now' = (if now = 0 then nano else now) in
         if next = 0 then Some (now, 0)
         else if now' < next \<and> (\<not> cur \<or> deletedTimers (pt s p) \<le> numTimers (pt s p) div 4)
         then Some (now', next) else None)
      else None)"

definition checkTimers ::
    "pid \<Rightarrow> bool \<Rightarrow> int \<Rightarrow> int \<Rightarrow> tsys \<Rightarrow> (tsys \<times> int \<times> int \<times> bool) outcome option" where
  "checkTimers p cur now nano s =
     (case check_skip p cur now nano s of
        Some (rnow, next) \<Rightarrow> Some (Ret (s, rnow, next, False))
      | None \<Rightarrow>
          let now = (if adjustTimers (pt s p) = 0 \<and> now = 0 then nano else now) in
          (case adjusttimers p s of
             Panic m \<Rightarrow> Some (Panic m) | Throw m \<Rightarrow> Some (Throw m) | Spin \<Rightarrow> Some Spin
           | Ret s \<Rightarrow>
               let rnow = (if timers (pt s p) \<noteq> [] \<and> now = 0 then nano else now) in
               do { r \<leftarrow> run_loop p rnow False s;
                    Some (obind r (\<lambda>(s, pollUntil, fired).
                      if cur \<and> deletedTimers (pt s p) > int (length (timers (pt s p)) div 4)
                      then obind (clearDeletedTimers p s) (\<lambda>s. Ret (s, rnow, pollUntil, fired))
                      else Ret (s, rnow, pollUntil, fired))) }))"

end
