(* ===== verification/Timer_Spec.thy ===== *)
theory Timer_Spec
  imports Timer
begin

text \<open>
  The invariant of the timers, and what the operations do to the set of armed timers.  A heap
  operation is described by what it takes off or puts on the heap of one P; the operations are
  then shown to keep the counters of every P in step with the statuses of its timers, so that
  no check of the code ever throws, and to refine operations on the map from timers to
  deadlines.
\<close>

section \<open>The heap\<close>

definition heapw :: "(tid \<Rightarrow> int) \<Rightarrow> tid list \<Rightarrow> bool" where
  "heapw w ts \<longleftrightarrow> heap_on (\<le>) 4 0 (length ts) (\<lambda>i. w (ts ! i))"

lemma transp_le_int: "transp ((\<le>) :: int \<Rightarrow> int \<Rightarrow> bool)"
  by (rule transpI) simp

lemma min_child_spec:
  assumes r: "i * 4 + 1 < length t" and c: "c = min_child w t i"
  shows "0 < c" "par 4 c = i" "\<And>k. 0 < k \<Longrightarrow> k < length t \<Longrightarrow> par 4 k = i \<Longrightarrow> w (t ! c) \<le> w (t ! k)"
proof -
  define a where "a = i * 4 + 1"
  have c': "c = a \<or> c = a + 1 \<or> c = a + 2 \<or> c = a + 3"
    using c by (auto simp: min_child_def Let_def a_def)
  then show "0 < c" "par 4 c = i" by (auto simp: par_def a_def)
  fix k assume k: "0 < k" "k < length t" "par 4 k = i"
  then have "k = a \<or> k = a + 1 \<or> k = a + 2 \<or> k = a + 3" using par_child [of 4 k i] by (auto simp: a_def)
  then show "w (t ! c) \<le> w (t ! k)"
    using k(2) unfolding c min_child_def Let_def a_def [symmetric]
    by (auto simp: eval_nat_numeral split: if_splits)
qed

text \<open>The array with a hole at \<open>i\<close>, to be filled by an element with key \<open>v\<close>.\<close>

definition hole :: "(tid \<Rightarrow> int) \<Rightarrow> tid list \<Rightarrow> nat \<Rightarrow> int \<Rightarrow> nat \<Rightarrow> int" where
  "hole w t i v = (\<lambda>k. w (t ! k))(i := v)"

lemma hole_move:
  "i < length t \<Longrightarrow> p \<noteq> i \<Longrightarrow>
    hole w (t[i := t ! p]) p v = (hole w t i v)(p := hole w t i v i, i := hole w t i v p)"
  by (auto simp: hole_def fun_eq_iff nth_list_update)

lemma hole_fill: "hole w t i (w (t ! i)) = (\<lambda>k. w (t ! k))"
  by (auto simp: hole_def)

lemma siftup_loop_heap:
  "heap_but (\<le>) 4 0 (length t) (hole w t i v) i \<Longrightarrow>
    lower (\<le>) 4 (length t) (hole w t i v) i \<Longrightarrow> i < length t \<Longrightarrow> siftup_loop w v t i = (t', j) \<Longrightarrow>
    heap_on (\<le>) 4 0 (length t) (hole w t' j v)"
proof (induction w v t i rule: siftup_loop.induct)
  case (1 w v t i)
  let ?p = "(i - 1) div 4" and ?g = "hole w t i v"
  have p: "?p = par 4 i" by (simp add: par_def)
  show ?case
  proof (cases "i > 0 \<and> \<not> v \<ge> w (t ! ?p)")
    case True
    then have pi: "?p < i" using par_less [of i 4] by (simp add: p)
    have e: "hole w (t[i := t ! ?p]) ?p v = ?g(?p := ?g i, i := ?g ?p)"
      using pi 1(4) by (intro hole_move) auto
    have "heap_but (\<le>) 4 0 (length t) (?g(?p := ?g i, i := ?g ?p)) ?p \<and>
        lower (\<le>) 4 (length t) (?g(?p := ?g i, i := ?g ?p)) ?p"
      unfolding p by (rule heap_up_step [OF 1(2,3) _ 1(4) _ _ transp_le_int])
        (use True pi in \<open>auto simp: p [symmetric] hole_def\<close>)
    moreover have "siftup_loop w v (t[i := t ! ?p]) ?p = (t', j)"
      using True 1(5) by (simp add: siftup_loop.simps [of w v t i] Let_def)
    ultimately show ?thesis
      using 1(1) [of ?p] True pi 1(4) unfolding e [symmetric] by simp
  next
    case False
    have "upper (\<le>) 4 0 ?g i"
      using False par_less [of i 4] by (auto simp: upper_def p [symmetric] hole_def)
    then have "heap_on (\<le>) 4 0 (length t) ?g" using heap_but_stop 1(2,3) by blast
    moreover have "t' = t" "j = i"
      using False 1(5) by (auto simp: siftup_loop.simps [of w v t i] Let_def split: if_splits)
    ultimately show ?thesis by simp
  qed
qed

lemma siftdown_loop_heap:
  "heap_but (\<le>) 4 0 (length t) (hole w t i v) i \<Longrightarrow>
    upper (\<le>) 4 0 (hole w t i v) i \<Longrightarrow> i < length t \<Longrightarrow> siftdown_loop w v t i = (t', j) \<Longrightarrow>
    heap_on (\<le>) 4 0 (length t) (hole w t' j v)"
proof (induction w v t i rule: siftdown_loop.induct)
  case (1 w v t i)
  let ?c = "min_child w t i" and ?g = "hole w t i v"
  show ?case
  proof (cases "i * 4 + 1 < length t \<and> \<not> v \<le> w (t ! ?c)")
    case True
    then have r: "i * 4 + 1 < length t" by simp
    note mc = min_child_spec [OF r refl]
    have c: "i < ?c" "?c < length t" using min_child_range [OF r, of w] by auto
    have e: "hole w (t[i := t ! ?c]) ?c v = ?g(i := ?g ?c, ?c := ?g i)"
      using c 1(4) by (subst hole_move) (auto simp: fun_upd_twist)
    have "heap_but (\<le>) 4 0 (length t) (?g(i := ?g ?c, ?c := ?g i)) ?c \<and>
        upper (\<le>) 4 0 (?g(i := ?g ?c, ?c := ?g i)) ?c"
    proof (rule heap_down_step [OF 1(2) mc(1) c(2) mc(2)])
      fix k assume k: "0 < k" "k < length t" "par 4 k = i"
      have "k \<noteq> i" using par_less [OF k(1), of 4] k(3) by auto
      then show "?g ?c \<le> ?g k" using mc(3) [OF k] c by (simp add: hole_def)
    qed (use True c in \<open>auto simp: hole_def\<close>)
    moreover have "siftdown_loop w v (t[i := t ! ?c]) ?c = (t', j)"
      using True 1(5) by (simp add: siftdown_loop.simps [of w v t i])
    ultimately show ?thesis
      using 1(1) True c unfolding e [symmetric] by simp
  next
    case False
    have "lower (\<le>) 4 (length t) ?g i"
    proof (cases "i * 4 + 1 < length t")
      case True
      show ?thesis
        unfolding lower_def
      proof (intro allI impI)
        fix k assume k: "0 < k" "k < length t" "par 4 k = i"
        have "k \<noteq> i" using par_less [OF k(1), of 4] k(3) by auto
        then show "?g i \<le> ?g k"
          using min_child_spec(3) [OF True refl k, of w] False True by (simp add: hole_def)
      qed
    qed (use par_child [of 4 _ i] in \<open>auto simp: lower_def\<close>)
    then have "heap_on (\<le>) 4 0 (length t) ?g" using heap_but_stop 1(2,3) by blast
    moreover have "t' = t" "j = i"
      using False 1(5) by (auto simp: siftdown_loop.simps [of w v t i] split: if_splits)
    ultimately show ?thesis by simp
  qed
qed

lemma write_heap:
  assumes h: "heap_on (\<le>) 4 0 (length t) (hole w t' j (w x))" and l: "length t' = length t" "j < length t"
  shows "heapw w (t'[j := x])"
  unfolding heapw_def length_list_update l(1)
  by (rule heap_on_cong [OF h]) (use l in \<open>auto simp: hole_def nth_list_update\<close>)

lemma sup_heap:
  assumes b: "heap_but (\<le>) 4 0 (length t) (\<lambda>k. w (t ! k)) i" and l: "lower (\<le>) 4 (length t) (\<lambda>k. w (t ! k)) i"
    and i: "i < length t"
  shows "heapw w (sup w t i)"
proof -
  obtain t' j where r: "siftup_loop w (w (t ! i)) t i = (t', j)" by fastforce
  from siftup_loop_heap [OF _ _ i r] b l siftup_loop_mset [OF i r]
  show ?thesis unfolding sup_def r hole_fill by (simp add: write_heap)
qed

lemma sdown_heap:
  assumes b: "heap_but (\<le>) 4 0 (length t) (\<lambda>k. w (t ! k)) i" and l: "upper (\<le>) 4 0 (\<lambda>k. w (t ! k)) i"
    and i: "i < length t"
  shows "heapw w (sdown w t i)"
proof -
  obtain t' j where r: "siftdown_loop w (w (t ! i)) t i = (t', j)" by fastforce
  from siftdown_loop_heap [OF _ _ i r] b l siftdown_loop_mset [OF i r]
  show ?thesis unfolding sdown_def r hole_fill by (simp add: write_heap)
qed

lemma heapw_root: "heapw w ts \<Longrightarrow> u \<in> set ts \<Longrightarrow> w (ts ! 0) \<le> w u"
  using heap_on_root [of "(\<le>)" 4 "length ts" "\<lambda>i. w (ts ! i)"] transp_le_int
  by (auto simp: heapw_def in_set_conv_nth reflp_def)

text \<open>The value the code keeps in \<open>timer0When\<close> depends on the set of timers only.\<close>

lemma first_when_Min: "heapw w ts \<Longrightarrow> first_when w ts = (if set ts = {} then 0 else Min (w ` set ts))"
  using heapw_root [of w ts] by (cases ts) (auto simp: first_when_def intro!: Min_eqI [symmetric])

lemma sup_stay:
  assumes "i < length t" "upper (\<le>) 4 0 (\<lambda>k. w (t ! k)) i"
  shows "sup w t i = t"
proof -
  have "siftup_loop w (w (t ! i)) t i = (t, i)"
    using assms by (subst siftup_loop.simps) (auto simp: upper_def par_def Let_def)
  then show ?thesis by (simp add: sup_def)
qed

lemma move_last_but:
  assumes h: "heapw w ts" and d: "distinct ts" and l: "length ts = Suc n" and i: "i < n"
    and o: "\<And>u. u \<noteq> ts ! i \<Longrightarrow> w' u = w u"
  shows "heap_but (\<le>) 4 0 n (\<lambda>k. w' (take n (ts[i := ts ! n]) ! k)) i"
proof -
  have "heap_on (\<le>) 4 0 n (\<lambda>k. w (ts ! k))"
    by (rule heap_on_shrink [OF h [unfolded heapw_def l]]) simp
  then have "heap_but (\<le>) 4 0 n ((\<lambda>k. w (ts ! k))(i := w (ts ! n))) i"
    by (intro heap_but_upd heap_on_but transp_le_int)
  moreover have "w' (take n (ts[i := ts ! n]) ! k) = ((\<lambda>k. w (ts ! k))(i := w (ts ! n))) k" if k: "k < n" for k
  proof (cases "k = i")
    case True
    have "ts ! n \<noteq> ts ! i" using d l i by (simp add: nth_eq_iff_index_eq)
    from o [OF this] True k i l show ?thesis by simp
  next
    case False
    then have "ts ! k \<noteq> ts ! i" using d l i k by (simp add: nth_eq_iff_index_eq)
    from o [OF this] False k show ?thesis by simp
  qed
  ultimately show ?thesis by (rule heap_but_cong)
qed

lemma del_at_heap:
  assumes h: "heapw w ts" and d: "distinct ts" and i: "i < length ts" and o: "\<And>u. u \<noteq> ts ! i \<Longrightarrow> w' u = w u"
  shows "heapw w' (del_at w' ts i)"
proof -
  obtain n where n: "length ts = Suc n" using i by (cases ts) auto
  show ?thesis
  proof (cases "i = n")
    case True
    have "heap_on (\<le>) 4 0 n (\<lambda>k. w (ts ! k))"
      by (rule heap_on_shrink [OF h [unfolded heapw_def n]]) simp
    moreover have "w' (take n ts ! k) = w (ts ! k)" if k: "k < n" for k
    proof -
      have "ts ! k \<noteq> ts ! i" using d n True k by (simp add: nth_eq_iff_index_eq)
      from o [OF this] k show ?thesis by simp
    qed
    ultimately have "heap_on (\<le>) 4 0 n (\<lambda>k. w' (take n ts ! k))" by (rule heap_on_cong)
    with True n show ?thesis by (simp add: heapw_def del_at_def)
  next
    case False
    then have il: "i < n" using i n by simp
    let ?t = "take n (ts[i := ts ! n])"
    have b: "heap_but (\<le>) 4 0 (length ?t) (\<lambda>k. w' (?t ! k)) i"
      using move_last_but [OF h d n il o] n by simp
    have it: "i < length ?t" using il n by simp
    have e: "del_at w' ts i = sdown w' (sup w' ?t i) i" using n il by (simp add: del_at_def Let_def)
    show ?thesis
    proof (cases "upper (\<le>) 4 0 (\<lambda>k. w' (?t ! k)) i")
      case True
      then show ?thesis unfolding e sup_stay [OF it True] using b it by (intro sdown_heap)
    next
      case False
      then have p: "0 < i" "w' (?t ! i) \<le> w' (?t ! par 4 i)" by (auto simp: upper_def)
      have "lower (\<le>) 4 (length ?t) (\<lambda>k. w' (?t ! k)) i"
        unfolding lower_def
      proof (intro allI impI)
        fix k assume "0 < k" "k < length ?t" "par 4 k = i"
        then show "w' (?t ! i) \<le> w' (?t ! k)" using heap_butD(2) [OF b, of k] p by simp
      qed
      then have s: "heapw w' (sup w' ?t i)" using b it by (intro sup_heap)
      have "heap_on (\<le>) 4 0 (length (sup w' ?t i)) (\<lambda>k. w' (sup w' ?t i ! k))" using s by (simp add: heapw_def)
      then have "heap_but (\<le>) 4 0 (length (sup w' ?t i)) (\<lambda>k. w' (sup w' ?t i ! k)) i"
        and "upper (\<le>) 4 0 (\<lambda>k. w' (sup w' ?t i ! k)) i"
        using it by (auto intro: heap_on_but transp_le_int simp: upper_def dest: heap_onD)
      with it show ?thesis unfolding e by (intro sdown_heap) auto
    qed
  qed
qed

lemma del0_heap:
  assumes h: "heapw w ts" and d: "distinct ts" and ne: "ts \<noteq> []" and o: "\<And>u. u \<noteq> ts ! 0 \<Longrightarrow> w' u = w u"
  shows "heapw w' (del0 w' ts)"
proof -
  obtain n where n: "length ts = Suc n" using ne by (cases ts) auto
  show ?thesis
  proof (cases "0 < n")
    case True
    let ?t = "take n (ts[0 := ts ! n])"
    have b: "heap_but (\<le>) 4 0 (length ?t) (\<lambda>k. w' (?t ! k)) 0"
      using move_last_but [OF h d n True o] n by simp
    have "heapw w' (sdown w' ?t 0)" by (rule sdown_heap [OF b]) (use True n in \<open>auto simp: upper_def\<close>)
    with True n show ?thesis by (simp add: del0_def)
  next
    case False
    with n show ?thesis by (simp add: del0_def heapw_def heap_on_def)
  qed
qed

lemma add_heap:
  assumes h: "heapw w ts" and o: "\<And>u. u \<in> set ts \<Longrightarrow> w' u = w u"
  shows "heapw w' (sup w' (ts @ [t]) (length ts))"
proof -
  let ?n = "length ts"
  have lf: "i < Suc ?n \<Longrightarrow> par 4 i = ?n \<Longrightarrow> i = 0" for i using par_less [of i 4] by (cases i) auto
  have "heap_but (\<le>) 4 0 (length (ts @ [t])) (\<lambda>k. w' ((ts @ [t]) ! k)) ?n"
  proof (rule heap_butI)
    fix i assume "0 < i" "i < length (ts @ [t])" "0 \<le> par 4 i" "i \<noteq> ?n" "par 4 i \<noteq> ?n" "par 4 i < i"
    then show "w' ((ts @ [t]) ! par 4 i) \<le> w' ((ts @ [t]) ! i)"
      using heap_onD [OF h [unfolded heapw_def], of i] o by (simp add: nth_append)
  qed (use lf in auto)
  moreover have "lower (\<le>) 4 (length (ts @ [t])) (\<lambda>k. w' ((ts @ [t]) ! k)) ?n"
    using lf by (auto simp: lower_def)
  ultimately show ?thesis by (rule sup_heap) simp
qed

section \<open>The invariant\<close>

definition pwf :: "tsys \<Rightarrow> pid \<Rightarrow> bool" where
  "pwf s p \<longleftrightarrow>
     distinct (timers (pt s p)) \<and> heapw (whens s) (timers (pt s p)) \<and>
     numTimers (pt s p) = int (length (timers (pt s p))) \<and>
     timer0When (pt s p) = first_when (whens s) (timers (pt s p))"

text \<open>What the status of a timer says of its other fields, between operations.\<close>

fun status_ok :: "timer \<Rightarrow> bool" where
  "status_ok x =
     (case t_status x of
        timerNoStatus \<Rightarrow> t_pp x = None
      | timerRemoved \<Rightarrow> t_pp x = None
      | timerWaiting \<Rightarrow> t_pp x \<noteq> None
      | timerDeleted \<Rightarrow> t_pp x \<noteq> None
      | timerModifiedEarlier \<Rightarrow> t_pp x \<noteq> None \<and> t_nextwhen x < t_when x
      | timerModifiedLater \<Rightarrow> t_pp x \<noteq> None \<and> t_when x \<le> t_nextwhen x
      | _ \<Rightarrow> False)"

declare status_ok.simps [simp del]

text \<open>The timers in \<open>X\<close> are in the hands of an operation and on no heap.\<close>

definition hinv :: "tid set \<Rightarrow> tsys \<Rightarrow> bool" where
  "hinv X s \<longleftrightarrow>
     (\<forall>p. pwf s p) \<and> (\<forall>t p. t_pp (tm s t) = Some p \<longleftrightarrow> t \<in> set (timers (pt s p))) \<and>
     (\<forall>t. t \<notin> X \<longrightarrow> status_ok (tm s t)) \<and> (\<forall>t\<in>X. t_pp (tm s t) = None)"

definition scount :: "tsys \<Rightarrow> pid \<Rightarrow> tstatus \<Rightarrow> nat" where
  "scount s p st = size (filter_mset (\<lambda>t. t_status (tm s t) = st) (mset (timers (pt s p))))"

definition counters_ok :: "tsys \<Rightarrow> bool" where
  "counters_ok s \<longleftrightarrow>
     (\<forall>p. deletedTimers (pt s p) = int (scount s p timerDeleted) \<and>
          adjustTimers (pt s p) = int (scount s p timerModifiedEarlier))"

definition tinv :: "tsys \<Rightarrow> bool" where
  "tinv s \<longleftrightarrow> hinv {} s \<and> counters_ok s"

text \<open>When a timer is due: the abstract state.\<close>

definition dl :: "timer \<Rightarrow> int option" where
  "dl x =
     (case t_status x of
        timerWaiting \<Rightarrow> Some (t_when x)
      | timerMoving \<Rightarrow> Some (t_when x)
      | timerModifiedEarlier \<Rightarrow> Some (t_nextwhen x)
      | timerModifiedLater \<Rightarrow> Some (t_nextwhen x)
      | _ \<Rightarrow> None)"

definition deadline :: "tsys \<Rightarrow> tid \<Rightarrow> int option" where
  "deadline s t = dl (tm s t)"

lemma dl_pp [simp]: "dl (x\<lparr>t_pp := v\<rparr>) = dl x"
  by (cases "t_status x") (simp_all add: dl_def)

lemma hinvD:
  assumes "hinv X s"
  shows "pwf s p" "t_pp (tm s t) = Some p \<longleftrightarrow> t \<in> set (timers (pt s p))" "t \<notin> X \<Longrightarrow> status_ok (tm s t)"
    "t \<in> X \<Longrightarrow> t_pp (tm s t) = None"
  using assms by (simp_all add: hinv_def)

lemma hinv_other: "hinv X s \<Longrightarrow> t \<in> set (timers (pt s p)) \<Longrightarrow> t \<in> set (timers (pt s q)) \<Longrightarrow> q = p"
  using hinvD(2) by (metis option.inject)

lemma whens_cong: "(\<And>u. u \<in> set ts \<Longrightarrow> w' u = w u) \<Longrightarrow> heapw w ts \<Longrightarrow> heapw w' ts"
  unfolding heapw_def by (erule heap_on_cong) simp

lemma first_when_cong: "(\<And>u. u \<in> set ts \<Longrightarrow> w' u = w u) \<Longrightarrow> first_when w' ts = first_when w ts"
  by (cases ts) (simp_all add: first_when_def)

lemma pwf_cong:
  assumes "pwf s p" "pt s2 p = pt s p" "\<And>u. u \<in> set (timers (pt s p)) \<Longrightarrow> t_when (tm s2 u) = t_when (tm s u)"
  shows "pwf s2 p"
  using assms whens_cong [of "timers (pt s p)" "whens s2" "whens s"]
    first_when_cong [of "timers (pt s p)" "whens s2" "whens s"]
  by (simp add: pwf_def whens_def)

section \<open>Taking a timer off a heap, and putting one on\<close>

text \<open>\<open>t\<close>, with the fields \<open>y\<close>, is taken off the heap of \<open>p\<close>.\<close>

definition off :: "pid \<Rightarrow> tid \<Rightarrow> timer \<Rightarrow> tsys \<Rightarrow> tsys \<Rightarrow> bool" where
  "off p t y s s2 \<longleftrightarrow>
     tm s2 = (tm s)(t := y\<lparr>t_pp := None\<rparr>) \<and> (\<forall>q. q \<noteq> p \<longrightarrow> pt s2 q = pt s q) \<and>
     mset (timers (pt s2 p)) = mset (timers (pt s p)) - {#t#} \<and>
     deletedTimers (pt s2 p) = deletedTimers (pt s p) \<and> adjustTimers (pt s2 p) = adjustTimers (pt s p) \<and>
     calls s2 = calls s \<and> polls s2 = polls s"

definition on :: "pid \<Rightarrow> tid \<Rightarrow> timer \<Rightarrow> tsys \<Rightarrow> tsys \<Rightarrow> bool" where
  "on p t y s s2 \<longleftrightarrow>
     tm s2 = (tm s)(t := y\<lparr>t_pp := Some p\<rparr>) \<and> (\<forall>q. q \<noteq> p \<longrightarrow> pt s2 q = pt s q) \<and>
     mset (timers (pt s2 p)) = add_mset t (mset (timers (pt s p))) \<and>
     deletedTimers (pt s2 p) = deletedTimers (pt s p) \<and> adjustTimers (pt s2 p) = adjustTimers (pt s p) \<and>
     calls s2 = calls s \<and> polls s2 = polls s"

lemma hinv_off:
  assumes h: "hinv X s" and o: "off p t y s s2" and t: "t \<in> set (timers (pt s p))"
    and w: "heapw (whens s2) (timers (pt s2 p))" "numTimers (pt s2 p) = numTimers (pt s p) - 1"
      "timer0When (pt s2 p) = first_when (whens s2) (timers (pt s2 p))"
  shows "hinv (insert t X) s2"
proof -
  have d: "distinct (timers (pt s p))" and n: "numTimers (pt s p) = int (length (timers (pt s p)))"
    using hinvD(1) [OF h, of p] by (auto simp: pwf_def)
  have m: "mset (timers (pt s2 p)) = mset (timers (pt s p)) - {#t#}" using o by (simp add: off_def)
  from mset_remove_one [OF m d] have d2: "distinct (timers (pt s2 p))"
    and s2: "set (timers (pt s2 p)) = set (timers (pt s p)) - {t}" by auto
  have l: "length (timers (pt s p)) = Suc (length (timers (pt s2 p)))"
  proof -
    have "length (timers (pt s2 p)) = length (remove1 t (timers (pt s p)))"
      using m by (intro mset_eq_length) simp
    with t length_pos_if_in_set [OF t] show ?thesis by (simp add: length_remove1)
  qed
  have tq: "t \<notin> set (timers (pt s q))" if "q \<noteq> p" for q using hinv_other [OF h t] that by blast
  have pq: "pt s2 q = pt s q" if "q \<noteq> p" for q using o that by (simp add: off_def)
  have tm2: "tm s2 u = (if u = t then y\<lparr>t_pp := None\<rparr> else tm s u)" for u using o by (simp add: off_def)
  have "pwf s2 q" for q
  proof (cases "q = p")
    case True
    then show ?thesis using w d2 n l by (simp add: pwf_def)
  next
    case False
    show ?thesis by (rule pwf_cong [OF hinvD(1) [OF h] pq [OF False]]) (use tq [OF False] tm2 in auto)
  qed
  moreover have "t_pp (tm s2 u) = Some q \<longleftrightarrow> u \<in> set (timers (pt s2 q))" for u q
    using hinvD(2) [OF h, of u q] s2 pq [of q] tq [of q] tm2 [of u] by (cases "q = p") auto
  moreover have "status_ok (tm s2 u)" if "u \<notin> insert t X" for u
    using hinvD(3) [OF h, of u] that tm2 [of u] by simp
  moreover have "t_pp (tm s2 u) = None" if "u \<in> insert t X" for u
    using hinvD(4) [OF h, of u] that tm2 [of u] by auto
  ultimately show ?thesis by (simp add: hinv_def)
qed

lemma whens_pp_upd [simp]: "whens (upd_t t (\<lambda>x. f x\<lparr>t_pp := v\<rparr>) s) = whens (upd_t t f s)"
  by (auto simp: whens_def fun_eq_iff)

text \<open>The two forms of removal, applied after a change of the timer to \<open>y\<close>.\<close>

lemma dodeltimer_off:
  assumes h: "hinv X s" and i: "i < length (timers (pt s p))" and t: "t = timers (pt s p) ! i"
    and y: "t_pp (f (tm s t)) = t_pp (tm s t)"
  shows "\<exists>s2. dodeltimer p i (upd_t t f s) = Ret s2 \<and> off p t (f (tm s t)) s s2 \<and> hinv (insert t X) s2"
proof -
  have tin: "t \<in> set (timers (pt s p))" using i t by simp
  have tp: "t_pp (tm s t) = Some p" using hinvD(2) [OF h] tin by simp
  have d: "distinct (timers (pt s p))" and hp: "heapw (whens s) (timers (pt s p))"
    and n: "numTimers (pt s p) = int (length (timers (pt s p)))"
    and z: "timer0When (pt s p) = first_when (whens s) (timers (pt s p))"
    using hinvD(1) [OF h, of p] by (auto simp: pwf_def)
  let ?w = "whens (upd_t t f s)" let ?ts = "del_at ?w (timers (pt s p)) i"
  obtain s2 where s2: "dodeltimer p i (upd_t t f s) = Ret s2"
    and e: "s2 = upd_p p (\<lambda>x. x\<lparr>timers := ?ts,
          timer0When := (if i = 0 then first_when ?w ?ts else timer0When x),
          numTimers := numTimers x - 1\<rparr>) (upd_t t (\<lambda>x. (f x)\<lparr>t_pp := None\<rparr>) s)"
    using i t tp y by (simp add: dodeltimer_eq not_le)
  have w2: "whens s2 = ?w" by (simp add: e)
  have wo: "?w u = whens s u" if "u \<noteq> t" for u using that by (simp add: whens_def)
  have m: "mset ?ts = mset (timers (pt s p)) - {#t#}" using mset_del_at [OF i] t by simp
  have o: "off p t (f (tm s t)) s s2" using m by (simp add: off_def e)
  have h2: "heapw (whens s2) ?ts" unfolding w2 using del_at_heap [OF hp d i] wo t by simp
  have f2: "timer0When (pt s2 p) = first_when (whens s2) ?ts"
  proof (cases "i = 0")
    case False
    have st: "set ?ts = set (timers (pt s p)) - {t}" using mset_remove_one [OF m d] by simp
    have t0: "timers (pt s p) ! 0 \<in> set ?ts" 
    proof -
      have "0 < length (timers (pt s p))" using i by linarith
      then have "timers (pt s p) ! 0 \<in> set (timers (pt s p))" "timers (pt s p) ! 0 \<noteq> t"
        using d i t False nth_eq_iff_index_eq [OF d, of 0 i] by auto
      with st show ?thesis by simp
    qed
    have "?w (?ts ! 0) = whens s (timers (pt s p) ! 0)"
    proof (rule antisym)
      show "?w (?ts ! 0) \<le> whens s (timers (pt s p) ! 0)"
        using heapw_root [OF h2 t0] wo [of "timers (pt s p) ! 0"] st t0 unfolding w2 by simp
      have "?ts ! 0 \<in> set ?ts" using t0 by (cases ?ts) auto
      then show "whens s (timers (pt s p) ! 0) \<le> ?w (?ts ! 0)"
        using heapw_root [OF hp, of "?ts ! 0"] st wo [of "?ts ! 0"] by simp
    qed
    then show ?thesis using t0 i z False by (auto simp: e first_when_def w2)
  qed (simp add: e w2)
  have "hinv (insert t X) s2"
    by (rule hinv_off [OF h o tin]) (use h2 f2 in \<open>simp_all add: e\<close>)
  with s2 o show ?thesis by blast
qed

lemma dodeltimer0_off:
  assumes h: "hinv X s" and ne: "timers (pt s p) \<noteq> []" and t: "t = timers (pt s p) ! 0"
    and y: "t_pp (f (tm s t)) = t_pp (tm s t)"
  shows "\<exists>s2. dodeltimer0 p (upd_t t f s) = Ret s2 \<and> off p t (f (tm s t)) s s2 \<and> hinv (insert t X) s2"
proof -
  have tin: "t \<in> set (timers (pt s p))" using ne t by simp
  have tp: "t_pp (tm s t) = Some p" using hinvD(2) [OF h] tin by simp
  have d: "distinct (timers (pt s p))" and hp: "heapw (whens s) (timers (pt s p))"
    using hinvD(1) [OF h, of p] by (auto simp: pwf_def)
  let ?w = "whens (upd_t t f s)" let ?ts = "del0 ?w (timers (pt s p))"
  obtain s2 where s2: "dodeltimer0 p (upd_t t f s) = Ret s2"
    and e: "s2 = upd_p p (\<lambda>x. x\<lparr>timers := ?ts, timer0When := first_when ?w ?ts,
          numTimers := numTimers x - 1\<rparr>) (upd_t t (\<lambda>x. (f x)\<lparr>t_pp := None\<rparr>) s)"
    using ne t tp y by (simp add: dodeltimer0_eq)
  have w2: "whens s2 = ?w" by (simp add: e)
  have m: "mset ?ts = mset (timers (pt s p)) - {#t#}" using mset_del0 [OF ne] t by simp
  have o: "off p t (f (tm s t)) s s2" using m by (simp add: off_def e)
  have "heapw (whens s2) ?ts" unfolding w2 by (rule del0_heap [OF hp d ne]) (simp add: whens_def t)
  then have "hinv (insert t X) s2"
    by (intro hinv_off [OF h o tin]) (simp_all add: e)
  with s2 o show ?thesis by blast
qed

text \<open>Adding; the caller sets the status to \<open>timerWaiting\<close>.\<close>

lemma doaddtimer_on:
  assumes h: "hinv X s" and t: "t \<in> X" and y: "t_pp (f (tm s t)) = None"
  shows "\<exists>s2. doaddtimer p t (upd_t t f s) = Ret s2 \<and> on p t (f (tm s t)) s s2 \<and>
    hinv (X - {t}) (set_status t timerWaiting s2)"
proof -
  have tp: "t_pp (tm s t) = None" using hinvD(4) [OF h t] .
  have tn: "t \<notin> set (timers (pt s q))" for q using hinvD(2) [OF h, of t q] tp by simp
  have d: "distinct (timers (pt s p))" and hp: "heapw (whens s) (timers (pt s p))"
    and n: "numTimers (pt s p) = int (length (timers (pt s p)))"
    and z: "timer0When (pt s p) = first_when (whens s) (timers (pt s p))"
    using hinvD(1) [OF h, of p] by (auto simp: pwf_def)
  let ?w = "whens (upd_t t f s)" let ?ts = "sup ?w (timers (pt s p) @ [t]) (length (timers (pt s p)))"
  obtain s2 where s2: "doaddtimer p t (upd_t t f s) = Ret s2"
    and e: "s2 = upd_p p (\<lambda>x. let ts = sup ?w (timers x @ [t]) (length (timers x)) in
        x\<lparr>timers := ts, timer0When := (if t = ts ! 0 then ?w t else timer0When x),
          numTimers := numTimers x + 1\<rparr>) (upd_t t (\<lambda>x. (f x)\<lparr>t_pp := Some p\<rparr>) s)"
    using y by (simp add: doaddtimer_eq)
  have w2: "whens s2 = ?w" by (simp add: e)
  have wo: "?w u = whens s u" if "u \<noteq> t" for u using that by (simp add: whens_def)
  have m: "mset ?ts = add_mset t (mset (timers (pt s p)))" by (simp add: mset_sup)
  from mset_add_one [OF m d tn] have d2: "distinct ?ts" and st: "set ?ts = insert t (set (timers (pt s p)))" by auto
  have ts: "timers (pt s2 p) = ?ts" by (simp add: e Let_def)
  have o: "on p t (f (tm s t)) s s2" using m by (simp add: on_def e Let_def)
  have h2: "heapw ?w ?ts" by (rule add_heap [OF hp]) (use tn wo in metis)
  have ne: "?ts \<noteq> []" using st by auto
  have f2: "timer0When (pt s2 p) = first_when ?w ?ts"
  proof (cases "t = ?ts ! 0")
    case True
    then have "timer0When (pt s2 p) = ?w t" by (simp add: e Let_def)
    then show ?thesis using ne True by (simp add: first_when_def)
  next
    case False
    have r: "?ts ! 0 \<in> set (timers (pt s p))" using st ne False by (metis insertE length_greater_0_conv nth_mem)
    then have o0: "timers (pt s p) ! 0 \<in> set (timers (pt s p))" by (cases "timers (pt s p)") auto
    then have "timers (pt s p) ! 0 \<noteq> t" "?ts ! 0 \<noteq> t" using tn False by auto
    then have "?w (?ts ! 0) = whens s (timers (pt s p) ! 0)"
      using heapw_root [OF h2, of "timers (pt s p) ! 0"] heapw_root [OF hp r] o0 st wo by (intro antisym) auto
    moreover have "timer0When (pt s2 p) = timer0When (pt s p)" using False by (simp add: e Let_def)
    ultimately show ?thesis using z ne r by (auto simp: first_when_def)
  qed
  let ?s3 = "set_status t timerWaiting s2"
  have pt3: "pt ?s3 q = (if q = p then pt s2 p else pt s q)" for q by (simp add: e)
  have tm3: "tm ?s3 u = (if u = t then (f (tm s t))\<lparr>t_pp := Some p, t_status := timerWaiting\<rparr> else tm s u)" for u
    using o by (simp add: on_def)
  have "pwf ?s3 q" for q
  proof (cases "q = p")
    case True
    have "length ?ts = Suc (length (timers (pt s p)))" by simp
    then show ?thesis using True h2 f2 d2 n by (simp add: pwf_def ts w2 e Let_def)
  next
    case False
    show ?thesis by (rule pwf_cong [OF hinvD(1) [OF h]]) (use False tn tm3 pt3 in auto)
  qed
  moreover have "t_pp (tm ?s3 u) = Some q \<longleftrightarrow> u \<in> set (timers (pt ?s3 q))" for u q
    using hinvD(2) [OF h, of u q] st tn [of q] tm3 [of u] pt3 [of q] ts by (cases "q = p") auto
  moreover have "status_ok (tm ?s3 u)" if "u \<notin> X - {t}" for u
    using hinvD(3) [OF h, of u] that tm3 [of u] by (auto simp: status_ok.simps)
  moreover have "t_pp (tm ?s3 u) = None" if "u \<in> X - {t}" for u
    using hinvD(4) [OF h, of u] that tm3 [of u] by simp
  ultimately have "hinv (X - {t}) ?s3" by (simp add: hinv_def)
  with s2 o show ?thesis by blast
qed

text \<open>How the counts of statuses change.\<close>

lemma filter_mset_other:
  assumes "t \<notin># M" "\<And>u. u \<noteq> t \<Longrightarrow> P u = Q u"
  shows "filter_mset P M = filter_mset Q M"
proof (rule filter_mset_cong [OF refl])
  fix u assume "u \<in># M"
  then have "u \<noteq> t" using assms(1) by auto
  then show "P u = Q u" by (rule assms(2))
qed

lemma scount_off:
  assumes h: "hinv X s" and t: "t \<in> set (timers (pt s p))" and o: "off p t y s s2"
  shows "scount s q st = scount s2 q st + (if q = p \<and> t_status (tm s t) = st then 1 else 0)"
proof (cases "q = p")
  case True
  have d: "distinct (timers (pt s p))" using hinvD(1) [OF h, of p] by (simp add: pwf_def)
  have m: "mset (timers (pt s p)) = add_mset t (mset (timers (pt s2 p)))" using o t by (simp add: off_def)
  have m2: "mset (timers (pt s2 p)) = mset (timers (pt s p)) - {#t#}" using o by (simp add: off_def)
  have tn: "t \<notin># mset (timers (pt s2 p))" using mset_remove_one [OF m2 d] by auto
  have "filter_mset (\<lambda>u. t_status (tm s2 u) = st) (mset (timers (pt s2 p))) =
      filter_mset (\<lambda>u. t_status (tm s u) = st) (mset (timers (pt s2 p)))"
    by (rule filter_mset_other [OF tn]) (use o in \<open>simp add: off_def\<close>)
  then show ?thesis using True by (simp add: scount_def m)
next
  case False
  have tn: "t \<notin># mset (timers (pt s q))" using hinv_other [OF h t] False by auto
  have "filter_mset (\<lambda>u. t_status (tm s2 u) = st) (mset (timers (pt s q))) =
      filter_mset (\<lambda>u. t_status (tm s u) = st) (mset (timers (pt s q)))"
    by (rule filter_mset_other [OF tn]) (use o in \<open>simp add: off_def\<close>)
  then show ?thesis using o False by (simp add: scount_def off_def)
qed

lemma scount_status:
  assumes t: "\<And>q. t \<notin> set (timers (pt s q))"
  shows "scount (upd_t t f s) q st = scount s q st"
proof -
  have "filter_mset (\<lambda>u. t_status (tm (upd_t t f s) u) = st) (mset (timers (pt s q))) =
      filter_mset (\<lambda>u. t_status (tm s u) = st) (mset (timers (pt s q)))"
    by (rule filter_mset_other [of t]) (use t in auto)
  then show ?thesis by (simp add: scount_def)
qed

lemma scount_on:
  assumes h: "hinv X s" and t: "t \<in> X" and o: "on p t y s s2"
  shows "scount (set_status t st' s2) q st = scount s q st + (if q = p \<and> st' = st then 1 else 0)"
proof -
  have tn: "t \<notin> set (timers (pt s q))" for q using hinvD(2) [OF h, of t q] hinvD(4) [OF h t] by simp
  let ?P = "\<lambda>u. t_status (tm (set_status t st' s2) u) = st"
  have f: "filter_mset ?P (mset (timers (pt s q))) = filter_mset (\<lambda>u. t_status (tm s u) = st) (mset (timers (pt s q)))"
    by (rule filter_mset_other [of t]) (use tn o in \<open>auto simp: on_def\<close>)
  have pt: "mset (timers (pt (set_status t st' s2) q)) =
      (if q = p then add_mset t (mset (timers (pt s q))) else mset (timers (pt s q)))"
    using o by (simp add: on_def)
  have "?P t \<longleftrightarrow> st' = st" by simp
  then show ?thesis unfolding scount_def pt using f by (cases "q = p") simp_all
qed

section \<open>Operations that leave the deadlines alone\<close>

definition cb :: "timer \<Rightarrow> int \<times> callback \<times> nat \<times> nat" where
  "cb x = (t_period x, t_f x, t_arg x, t_seq x)"

definition quiet :: "tid set \<Rightarrow> pid \<Rightarrow> tsys \<Rightarrow> tsys \<Rightarrow> bool" where
  "quiet X p s s2 \<longleftrightarrow>
     (\<forall>u. deadline s2 u = deadline s u) \<and> calls s2 = calls s \<and> polls s2 = polls s \<and>
     (\<forall>u\<in>X. tm s2 u = tm s u) \<and> (\<forall>q. q \<noteq> p \<longrightarrow> pt s2 q = pt s q) \<and> (\<forall>u. cb (tm s2 u) = cb (tm s u)) \<and>
     (\<forall>u. t_status (tm s2 u) = timerModifiedEarlier \<longrightarrow> t_status (tm s u) = timerModifiedEarlier)"

lemma quiet_refl: "quiet X p s s"
  by (simp add: quiet_def)

lemma quiet_trans: "quiet X p s s2 \<Longrightarrow> quiet X p s2 s3 \<Longrightarrow> quiet X p s s3"
  by (simp add: quiet_def)

lemma hinv_upd_t:
  assumes h: "hinv X s" and t: "t \<in> X" and f: "t_pp (f (tm s t)) = None"
  shows "hinv X (upd_t t f s)"
proof -
  have tn: "t \<notin> set (timers (pt s q))" for q using hinvD(2) [OF h, of t q] hinvD(4) [OF h t] by simp
  have "pwf (upd_t t f s) q" for q
    by (rule pwf_cong [OF hinvD(1) [OF h]]) (use tn in auto)
  moreover have "t_pp (tm (upd_t t f s) u) = Some q \<longleftrightarrow> u \<in> set (timers (pt s q))" for u q
    using hinvD(2) [OF h, of u q] tn f by auto
  ultimately show ?thesis using h t f by (simp add: hinv_def)
qed

lemma hinv_release: "hinv (insert t X) s \<Longrightarrow> status_ok (tm s t) \<Longrightarrow> hinv X s"
  by (auto simp: hinv_def)

lemma hinv_counters:
  assumes h: "hinv X s" and f: "timers (f (pt s p)) = timers (pt s p)" "numTimers (f (pt s p)) = numTimers (pt s p)"
    "timer0When (f (pt s p)) = timer0When (pt s p)"
  shows "hinv X (upd_p p f s)"
  using h f by (auto simp: hinv_def pwf_def)

lemma scount_counters: "timers (f (pt s p)) = timers (pt s p) \<Longrightarrow> scount (upd_p p f s) q st = scount s q st"
  by (simp add: scount_def)

lemma not_on_heap: "hinv X s \<Longrightarrow> t \<in> X \<Longrightarrow> t \<notin> set (timers (pt s q))"
  using hinvD(2) [of X s t q] hinvD(4) [of X s t] by simp

lemma on_heap_notin: "hinv X s \<Longrightarrow> t \<in> set (timers (pt s p)) \<Longrightarrow> t \<notin> X"
  using not_on_heap by blast

lemma counters_okD: "counters_ok s \<Longrightarrow> deletedTimers (pt s p) = int (scount s p timerDeleted)"
  "counters_ok s \<Longrightarrow> adjustTimers (pt s p) = int (scount s p timerModifiedEarlier)"
  by (simp_all add: counters_ok_def)

text \<open>A deleted timer was taken off: its status becomes \<open>timerRemoved\<close> and the counter goes down.\<close>

lemma off_deleted:
  assumes h: "hinv X s" and c: "counters_ok s" and t: "t \<in> set (timers (pt s p))"
    and st: "t_status (tm s t) = timerDeleted"
    and o: "off p t ((tm s t)\<lparr>t_status := st'\<rparr>) s s2" and h2: "hinv (insert t X) s2"
    and s3: "s3 = upd_p p (\<lambda>x. x\<lparr>deletedTimers := deletedTimers x - 1\<rparr>) (set_status t timerRemoved s2)"
  shows "hinv X s3 \<and> counters_ok s3 \<and> quiet X p s s3"
proof (intro conjI)
  have tX: "t \<notin> X" using on_heap_notin [OF h t] .
  have tn: "t \<notin> set (timers (pt s2 q))" for q using not_on_heap [OF h2] by simp
  have tm2: "tm s2 u = (if u = t then (tm s t)\<lparr>t_status := st', t_pp := None\<rparr> else tm s u)" for u
    using o by (simp add: off_def)
  have "hinv (insert t X) (set_status t timerRemoved s2)"
    by (rule hinv_upd_t [OF h2]) (auto simp: tm2)
  then have "hinv (insert t X) s3" unfolding s3 by (rule hinv_counters) auto
  then show "hinv X s3" by (rule hinv_release) (simp add: s3 tm2 status_ok.simps)
  have sc: "scount s3 q st = scount s2 q st" for q st
    unfolding s3 using tn by (simp add: scount_counters scount_status)
  have dp: "deletedTimers (pt s3 q) = deletedTimers (pt s q) - (if q = p then 1 else 0)"
    "adjustTimers (pt s3 q) = adjustTimers (pt s q)" for q
    using o by (auto simp: s3 off_def)
  show "counters_ok s3"
    using counters_okD [OF c] scount_off [OF h t o] st by (simp add: counters_ok_def dp sc)
  show "quiet X p s s3"
    using o tX st by (auto simp: quiet_def s3 off_def deadline_def dl_def cb_def)
qed

text \<open>
  A modified timer was taken off, its \<open>when\<close> changed, and the counter of earlier timers
  adjusted.
\<close>

lemma off_modified:
  assumes h: "hinv X s" and c: "counters_ok s" and t: "t \<in> set (timers (pt s p))"
    and st: "t_status (tm s t) = timerModifiedEarlier \<or> t_status (tm s t) = timerModifiedLater"
    and o: "off p t ((tm s t)\<lparr>t_status := timerMoving, t_when := t_nextwhen (tm s t)\<rparr>) s s2"
    and h2: "hinv (insert t X) s2"
    and s3: "s3 = (if t_status (tm s t) = timerModifiedEarlier
      then upd_p p (\<lambda>x. x\<lparr>adjustTimers := adjustTimers x - 1\<rparr>) s2 else s2)"
  shows "hinv (insert t X) s3 \<and> counters_ok s3 \<and> quiet X p s s3 \<and> t_status (tm s3 t) = timerMoving"
proof (intro conjI)
  have tX: "t \<notin> X" using on_heap_notin [OF h t] .
  show "hinv (insert t X) s3" using h2 by (auto simp: s3 intro: hinv_counters)
  have sc: "scount s3 q st = scount s2 q st" for q st by (simp add: s3 scount_counters)
  have dp: "deletedTimers (pt s3 q) = deletedTimers (pt s q)"
    "adjustTimers (pt s3 q) =
      adjustTimers (pt s q) - (if q = p \<and> t_status (tm s t) = timerModifiedEarlier then 1 else 0)" for q
    using o by (auto simp: s3 off_def)
  show "counters_ok s3"
    using counters_okD [OF c] scount_off [OF h t o] st by (auto simp: counters_ok_def dp sc)
  have "tm s3 = tm s2" by (simp add: s3)
  then show "quiet X p s s3"
    using o tX st by (auto simp: quiet_def s3 off_def deadline_def dl_def cb_def)
  show "t_status (tm s3 t) = timerMoving" using o by (simp add: s3 off_def)
qed

text \<open>A moving timer goes back.\<close>

lemma on_moved:
  assumes h: "hinv X s" and c: "counters_ok s" and t: "t \<in> X" and m: "t_status (tm s t) = timerMoving"
  shows "\<exists>s2. doaddtimer p t s = Ret s2 \<and> hinv (X - {t}) (set_status t timerWaiting s2) \<and>
    counters_ok (set_status t timerWaiting s2) \<and> quiet (X - {t}) p s (set_status t timerWaiting s2) \<and>
    timers (pt s2 p) \<noteq> []"
proof -
  have u: "upd_t t (\<lambda>x. x) s = s" by (simp add: upd_t_def)
  obtain s2 where s2: "doaddtimer p t s = Ret s2" and o: "on p t (tm s t) s s2"
    and h2: "hinv (X - {t}) (set_status t timerWaiting s2)"
    using doaddtimer_on [OF h t, of "\<lambda>x. x" p] hinvD(4) [OF h t] unfolding u by auto
  let ?s = "set_status t timerWaiting s2"
  have dp: "deletedTimers (pt s2 q) = deletedTimers (pt s q)" "adjustTimers (pt s2 q) = adjustTimers (pt s q)" for q
    using o by (cases "q = p"; simp add: on_def)+
  have "counters_ok ?s"
    using counters_okD [OF c] scount_on [OF h t o] by (simp add: counters_ok_def dp)
  moreover have "quiet (X - {t}) p s ?s"
    using o m by (auto simp: quiet_def on_def deadline_def dl_def cb_def)
  moreover have "timers (pt s2 p) \<noteq> []" using o by (auto simp: on_def)
  ultimately show ?thesis using s2 h2 by blast
qed

lemma remove_deleted_spec:
  assumes h: "hinv X s" and c: "counters_ok s" and ne: "timers (pt s p) \<noteq> []" and t: "t = timers (pt s p) ! 0"
    and st: "t_status (tm s t) = timerDeleted"
  shows "\<exists>s3. remove_deleted p t s = Ret s3 \<and> hinv X s3 \<and> counters_ok s3 \<and> quiet X p s s3"
proof -
  have tin: "t \<in> set (timers (pt s p))" using ne t by simp
  obtain s2 where s2: "dodeltimer0 p (set_status t timerRemoving s) = Ret s2"
    and o: "off p t ((tm s t)\<lparr>t_status := timerRemoving\<rparr>) s s2" and h2: "hinv (insert t X) s2"
    using dodeltimer0_off [OF h ne t, of "\<lambda>x. x\<lparr>t_status := timerRemoving\<rparr>"] by auto
  from off_deleted [OF h c tin st o h2 refl] s2 show ?thesis by (simp add: remove_deleted_def)
qed

lemma move_modified_spec:
  assumes h: "hinv X s" and c: "counters_ok s" and ne: "timers (pt s p) \<noteq> []" and t: "t = timers (pt s p) ! 0"
    and st: "t_status (tm s t) = timerModifiedEarlier \<or> t_status (tm s t) = timerModifiedLater"
  shows "\<exists>s3. move_modified p t (t_status (tm s t)) s = Ret s3 \<and> hinv X s3 \<and> counters_ok s3 \<and> quiet X p s s3 \<and>
    timers (pt s3 p) \<noteq> []"
proof -
  have tin: "t \<in> set (timers (pt s p))" using ne t by simp
  obtain s2 where s2: "dodeltimer0 p (upd_t t (\<lambda>x. x\<lparr>t_when := t_nextwhen x\<rparr>) (set_status t timerMoving s)) = Ret s2"
    and o: "off p t ((tm s t)\<lparr>t_status := timerMoving, t_when := t_nextwhen (tm s t)\<rparr>) s s2"
    and h2: "hinv (insert t X) s2"
    using dodeltimer0_off [OF h ne t, of "\<lambda>x. x\<lparr>t_status := timerMoving, t_when := t_nextwhen x\<rparr>"] by auto
  define g where "g = (if t_status (tm s t) = timerModifiedEarlier
    then upd_p p (\<lambda>x. x\<lparr>adjustTimers := adjustTimers x - 1\<rparr>) else id)"
  have tm2: "tm s2 t = (tm s t)\<lparr>t_status := timerMoving, t_when := t_nextwhen (tm s t), t_pp := None\<rparr>"
    using o by (simp add: off_def)
  have u: "upd_t t (\<lambda>x. x) s2 = s2" by (simp add: upd_t_def)
  obtain s3 where s3: "doaddtimer p t s2 = Ret s3" and o3: "on p t (tm s2 t) s2 s3"
    and h3: "hinv X (set_status t timerWaiting s3)"
    using doaddtimer_on [OF h2, of t "\<lambda>x. x" p] tm2 on_heap_notin [OF h tin] unfolding u by auto
  let ?s = "set_status t timerWaiting (g s3)"
  have e: "?s = g (set_status t timerWaiting s3)" by (simp add: g_def upd_p_def upd_t_def)
  have r: "move_modified p t (t_status (tm s t)) s = Ret ?s"
    using s2 s3 by (simp add: move_modified_def Let_def g_def)
  have "hinv X ?s" unfolding e using h3 by (auto simp: g_def intro: hinv_counters)
  moreover have sc: "scount ?s q st = scount (set_status t timerWaiting s3) q st" for q st
    unfolding e by (simp add: g_def scount_counters)
  have dp: "deletedTimers (pt (g s3) q) = deletedTimers (pt s q)"
    "adjustTimers (pt (g s3) q) =
      adjustTimers (pt s q) - (if q = p \<and> t_status (tm s t) = timerModifiedEarlier then 1 else 0)" for q
    using o o3 by (auto simp: g_def off_def on_def)
  have "counters_ok ?s"
    using counters_okD [OF c] scount_off [OF h tin o] scount_on [OF h2 _ o3] st
    by (auto simp: counters_ok_def dp sc)
  moreover have "tm ?s = (tm s)(t := (tm s t)\<lparr>t_status := timerWaiting, t_when := t_nextwhen (tm s t), t_pp := Some p\<rparr>)"
    using o o3 unfolding e by (auto simp: g_def off_def on_def)
  then have "quiet X p s ?s"
    using o o3 st on_heap_notin [OF h tin] unfolding quiet_def e
    by (auto simp: g_def off_def on_def deadline_def dl_def cb_def)
  moreover have "timers (pt ?s p) \<noteq> []" using o3 unfolding e by (auto simp: g_def on_def)
  ultimately show ?thesis using r by blast
qed

lemma cleantimers_spec:
  "hinv X s \<Longrightarrow> counters_ok s \<Longrightarrow>
    \<exists>s2. cleantimers pre p s = Ret s2 \<and> hinv X s2 \<and> counters_ok s2 \<and> quiet X p s s2"
proof (induction pre p s rule: cleantimers.induct)
  case (1 pre p s)
  let ?t = "timers (pt s p) ! 0"
  show ?case
  proof (cases "timers (pt s p) = [] \<or> pre \<or> \<not> stale_status (t_status (tm s ?t))")
    case True
    then have "timers (pt s p) \<noteq> [] \<Longrightarrow> t_pp (tm s ?t) = Some p" using hinvD(2) [OF 1(3)] by simp
    with True have "cleantimers pre p s = Ret s"
      by (subst cleantimers.simps) (auto simp: stale_status_def Let_def)
    with 1(3,4) show ?thesis by (auto simp: quiet_refl)
  next
    case False
    then have ne: "timers (pt s p) \<noteq> []" "\<not> pre" by auto
    have tp: "t_pp (tm s ?t) = Some p" using hinvD(2) [OF 1(3)] ne by simp
    show ?thesis
    proof (cases "t_status (tm s ?t) = timerDeleted")
      case True
      obtain s2 where s2: "remove_deleted p ?t s = Ret s2" "hinv X s2" "counters_ok s2" "quiet X p s s2"
        using remove_deleted_spec [OF 1(3,4) ne(1) refl True] by blast
      then obtain s3 where "cleantimers pre p s2 = Ret s3" "hinv X s3" "counters_ok s3" "quiet X p s2 s3"
        using 1(1) [OF ne refl _ True] tp by auto
      moreover have "cleantimers pre p s = cleantimers pre p s2"
        using s2(1) ne tp True by (subst cleantimers.simps) simp
      ultimately show ?thesis using quiet_trans [OF s2(4)] by auto
    next
      case nd: False
      with False have st: "t_status (tm s ?t) = timerModifiedEarlier \<or> t_status (tm s ?t) = timerModifiedLater"
        by (simp add: stale_status_def)
      obtain s2 where s2: "move_modified p ?t (t_status (tm s ?t)) s = Ret s2" "hinv X s2" "counters_ok s2" "quiet X p s s2"
        using move_modified_spec [OF 1(3,4) ne(1) refl st] by blast
      then obtain s3 where "cleantimers pre p s2 = Ret s3" "hinv X s3" "counters_ok s3" "quiet X p s2 s3"
        using 1(2) [OF ne refl _ nd st] tp by auto
      moreover have "cleantimers pre p s = cleantimers pre p s2"
        using s2(1) ne tp nd st by (subst cleantimers.simps) simp
      ultimately show ?thesis using quiet_trans [OF s2(4)] by auto
    qed
  qed
qed

end
