(* ===== verification/Timer_Ops.thy ===== *)
theory Timer_Ops
  imports Timer_Spec
begin

text \<open>
  The longer operations on timers: \<open>adjusttimers\<close> and \<open>clearDeletedTimers\<close> leave every deadline
  alone; \<open>addtimer\<close>, \<open>deltimer\<close> and \<open>modtimer\<close> are updates of the map of deadlines; \<open>runtimer\<close>
  runs a timer that is due and no other was due before it among the heap's settled timers.
\<close>

section \<open>adjusttimers\<close>

definition moving :: "tid list \<Rightarrow> tsys \<Rightarrow> bool" where
  "moving ts s \<longleftrightarrow> distinct ts \<and> (\<forall>u\<in>set ts. t_status (tm s u) = timerMoving)"

lemma quiet_moving: "quiet (set ts) p s s2 \<Longrightarrow> moving ts s \<Longrightarrow> moving ts s2"
  by (simp add: moving_def quiet_def)

lemma quiet_weaken: "quiet X p s s2 \<Longrightarrow> quiet {} p s s2"
  by (simp add: quiet_def)

lemma adjust_loop_spec:
  "hinv (set moved) s \<Longrightarrow> counters_ok s \<Longrightarrow> moving moved s \<Longrightarrow>
    \<exists>s2 ms. adjust_loop p i moved s = Ret (s2, ms) \<and> hinv (set ms) s2 \<and> counters_ok s2 \<and> moving ms s2 \<and>
      quiet {} p s s2"
proof (induction p i moved s rule: adjust_loop.induct)
  case (1 p i moved s)
  let ?t = "timers (pt s p) ! i"
  let ?st = "t_status (tm s ?t)"
  show ?case
  proof (cases "i < length (timers (pt s p))")
    case False
    then show ?thesis using 1(5-7) by (subst adjust_loop.simps) (simp add: quiet_refl)
  next
    case True
    then have i: "\<not> length (timers (pt s p)) \<le> i" by simp
    have tin: "?t \<in> set (timers (pt s p))" using True by simp
    have tp: "t_pp (tm s ?t) = Some p" using hinvD(2) [OF 1(5)] tin by simp
    have tX: "?t \<notin> set moved" using on_heap_notin [OF 1(5) tin] .
    have "status_ok (tm s ?t)" using hinvD(3) [OF 1(5) tX] .
    then have "?st = timerDeleted \<or> ?st = timerModifiedEarlier \<or> ?st = timerModifiedLater \<or> ?st = timerWaiting"
      using tp by (cases ?st) (auto simp: status_ok.simps)
    then consider "?st = timerDeleted" | "?st = timerModifiedEarlier" | "?st = timerModifiedLater" | "?st = timerWaiting"
      by blast
    then show ?thesis
    proof cases
      case 1: 1
      obtain s2 where s2: "dodeltimer p i (set_status ?t timerRemoving s) = Ret s2"
        and o: "off p ?t ((tm s ?t)\<lparr>t_status := timerRemoving\<rparr>) s s2" and h2: "hinv (insert ?t (set moved)) s2"
        using dodeltimer_off [OF \<open>hinv (set moved) s\<close> True refl, of "\<lambda>x. x\<lparr>t_status := timerRemoving\<rparr>"] by auto
      let ?s3 = "upd_p p (\<lambda>x. x\<lparr>deletedTimers := deletedTimers x - 1\<rparr>) (set_status ?t timerRemoved s2)"
      have s3: "hinv (set moved) ?s3" "counters_ok ?s3" "quiet (set moved) p s ?s3"
        using off_deleted [OF \<open>hinv (set moved) s\<close> \<open>counters_ok s\<close> tin 1 o h2 refl] by auto
      obtain s4 ms where s4: "adjust_loop p i moved ?s3 = Ret (s4, ms)" "hinv (set ms) s4" "counters_ok s4"
          "moving ms s4" "quiet {} p ?s3 s4"
        using "1.IH"(1) [OF i refl refl _ 1 s2 s3(1,2) quiet_moving [OF s3(3) \<open>moving moved s\<close>]] tp by auto
      have "adjust_loop p i moved s = adjust_loop p i moved ?s3"
        using i tp 1 s2 by (subst adjust_loop.simps) simp
      with s4 quiet_trans [OF quiet_weaken [OF s3(3)] s4(5)] show ?thesis by auto
    next
      case 2
      then have nd: "?st \<noteq> timerDeleted" by simp
      let ?s1 = "upd_t ?t (\<lambda>x. x\<lparr>t_when := t_nextwhen x\<rparr>) (set_status ?t timerMoving s)"
      obtain s2 where s2: "dodeltimer p i ?s1 = Ret s2"
        and o: "off p ?t ((tm s ?t)\<lparr>t_status := timerMoving, t_when := t_nextwhen (tm s ?t)\<rparr>) s s2"
        and h2: "hinv (insert ?t (set moved)) s2"
        using dodeltimer_off [OF 1(5) True refl, of "\<lambda>x. x\<lparr>t_status := timerMoving, t_when := t_nextwhen x\<rparr>"] by auto
      let ?s3 = "upd_p p (\<lambda>x. x\<lparr>adjustTimers := adjustTimers x - 1\<rparr>) s2"
      have s3: "hinv (set (moved @ [?t])) ?s3" "counters_ok ?s3" "quiet (set moved) p s ?s3"
          "t_status (tm ?s3 ?t) = timerMoving"
        using off_modified [OF 1(5,6) tin _ o h2 refl] 2 by auto
      have m3: "moving (moved @ [?t]) ?s3"
        using quiet_moving [OF s3(3) 1(7)] s3(4) tX by (simp add: moving_def)
      have e: "adjust_loop p i moved s =
          (if adjustTimers (pt ?s3 p) \<le> 0 then Ret (?s3, moved @ [?t]) else adjust_loop p i (moved @ [?t]) ?s3)"
        using i tp 2 s2 by (subst adjust_loop.simps) (simp add: Let_def)
      show ?thesis
      proof (cases "adjustTimers (pt ?s3 p) \<le> 0")
        case True
        with e s3 m3 quiet_weaken show ?thesis by auto
      next
        case False
        obtain s4 ms where s4: "adjust_loop p i (moved @ [?t]) ?s3 = Ret (s4, ms)" "hinv (set ms) s4" "counters_ok s4"
          "moving ms s4" "quiet {} p ?s3 s4"
          using "1.IH"(2) [OF i refl refl _ nd 2 s2 refl False s3(1,2) m3] tp by auto
        with e False quiet_trans [OF quiet_weaken [OF s3(3)] s4(5)] show ?thesis by auto
      qed
    next
      case 3
      then have nd: "?st \<noteq> timerDeleted" "?st \<noteq> timerModifiedEarlier" by simp_all
      let ?s1 = "upd_t ?t (\<lambda>x. x\<lparr>t_when := t_nextwhen x\<rparr>) (set_status ?t timerMoving s)"
      obtain s3 where s2: "dodeltimer p i ?s1 = Ret s3"
        and o: "off p ?t ((tm s ?t)\<lparr>t_status := timerMoving, t_when := t_nextwhen (tm s ?t)\<rparr>) s s3"
        and h2: "hinv (insert ?t (set moved)) s3"
        using dodeltimer_off [OF 1(5) True refl, of "\<lambda>x. x\<lparr>t_status := timerMoving, t_when := t_nextwhen x\<rparr>"] by auto
      have s3: "hinv (set (moved @ [?t])) s3" "counters_ok s3" "quiet (set moved) p s s3"
          "t_status (tm s3 ?t) = timerMoving"
        using off_modified [OF 1(5,6) tin _ o h2 refl] 3 by auto
      have m3: "moving (moved @ [?t]) s3"
        using quiet_moving [OF s3(3) 1(7)] s3(4) tX by (simp add: moving_def)
      obtain s4 ms where s4: "adjust_loop p i (moved @ [?t]) s3 = Ret (s4, ms)" "hinv (set ms) s4" "counters_ok s4"
          "moving ms s4" "quiet {} p s3 s4"
        using "1.IH"(3) [OF i refl refl _ nd 3 s2 s3(1,2) m3] tp by auto
      have "adjust_loop p i moved s = adjust_loop p i (moved @ [?t]) s3"
        using i tp 3 s2 by (subst adjust_loop.simps) simp
      with s4 quiet_trans [OF quiet_weaken [OF s3(3)] s4(5)] show ?thesis by auto
    next
      case 4
      then have nd: "?st \<noteq> timerDeleted" "?st \<noteq> timerModifiedEarlier" "?st \<noteq> timerModifiedLater" by simp_all
      have "adjust_loop p i moved s = adjust_loop p (i + 1) moved s"
        using i tp 4 by (subst adjust_loop.simps) simp
      with "1.IH"(4) [OF i refl refl _ nd 4 1(5-7)] tp show ?thesis by auto
    qed
  qed
qed

lemma addAdjustedTimers_spec:
  "hinv (set ts) s \<Longrightarrow> counters_ok s \<Longrightarrow> moving ts s \<Longrightarrow>
    \<exists>s2. addAdjustedTimers p ts s = Ret s2 \<and> hinv {} s2 \<and> counters_ok s2 \<and> quiet {} p s s2"
proof (induction ts arbitrary: s)
  case Nil
  then show ?case by (simp add: quiet_refl)
next
  case (Cons t ts)
  have t: "t_status (tm s t) = timerMoving" "set (t # ts) - {t} = set ts"
    using Cons(4) by (auto simp: moving_def)
  obtain s2 where s2: "doaddtimer p t s = Ret s2" "hinv (set ts) (set_status t timerWaiting s2)"
      "counters_ok (set_status t timerWaiting s2)" "quiet (set ts) p s (set_status t timerWaiting s2)"
    using on_moved [OF Cons(2,3) _ t(1), unfolded t(2)] by auto
  have "moving ts s" using Cons(4) by (simp add: moving_def)
  from Cons(1) [OF s2(2,3) quiet_moving [OF s2(4) this]] obtain s3 where
    s3: "addAdjustedTimers p ts (set_status t timerWaiting s2) = Ret s3" "hinv {} s3" "counters_ok s3"
      "quiet {} p (set_status t timerWaiting s2) s3" by blast
  from s2(1) s3 quiet_trans [OF quiet_weaken [OF s2(4)] s3(4)] show ?case by auto
qed

lemma adjusttimers_spec:
  assumes "tinv s"
  shows "\<exists>s2. adjusttimers p s = Ret s2 \<and> tinv s2 \<and> quiet {} p s s2"
proof (cases "timers (pt s p) = [] \<or> adjustTimers (pt s p) = 0")
  case True
  with assms show ?thesis by (auto simp: adjusttimers_def quiet_refl)
next
  case False
  obtain s2 ms where s2: "adjust_loop p 0 [] s = Ret (s2, ms)" "hinv (set ms) s2" "counters_ok s2" "moving ms s2" "quiet {} p s s2"
    using adjust_loop_spec [of "[]" s p 0] assms by (auto simp: tinv_def moving_def)
  obtain s3 where s3: "addAdjustedTimers p ms s2 = Ret s3" "hinv {} s3" "counters_ok s3" "quiet {} p s2 s3"
    using addAdjustedTimers_spec [OF s2(2-4)] by blast
  from False s2(1) s3 quiet_trans [OF s2(5) s3(4)] show ?thesis by (auto simp: adjusttimers_def tinv_def)
qed

section \<open>clearDeletedTimers\<close>

text \<open>\<open>siftupTimer\<close> at index \<open>i\<close> touches the elements up to \<open>i\<close> only.\<close>

lemma siftup_loop_append:
  "i < length xs \<Longrightarrow> siftup_loop w v (xs @ ys) i = (case siftup_loop w v xs i of (t', j) \<Rightarrow> (t' @ ys, j))"
proof (induction w v xs i rule: siftup_loop.induct)
  case (1 w v xs i)
  let ?p = "(i - 1) div 4"
  have p: "?p < length xs" using 1(2) by linarith
  show ?case
  proof (cases "i > 0 \<and> \<not> v \<ge> w (xs ! ?p)")
    case True
    with 1(1) [of ?p] p 1(2) show ?thesis
      by (simp add: siftup_loop.simps [of w v _ i] Let_def nth_append list_update_append)
  next
    case False
    with p show ?thesis by (auto simp: siftup_loop.simps [of w v _ i] Let_def nth_append)
  qed
qed

lemma sup_append:
  assumes "i < length xs"
  shows "sup w (xs @ ys) i = sup w xs i @ ys"
proof -
  obtain t' j where r: "siftup_loop w (w (xs ! i)) xs i = (t', j)" by fastforce
  then have "j < length t'" using siftup_loop_mset [OF assms r] by simp
  with assms r show ?thesis by (simp add: sup_def siftup_loop_append nth_append list_update_append)
qed

text \<open>What becomes of a timer: its deadline stays.\<close>

definition settle :: "timer \<Rightarrow> timer" where
  "settle x =
     (if t_status x = timerDeleted then x\<lparr>t_pp := None, t_status := timerRemoved\<rparr>
      else if t_status x = timerModifiedEarlier \<or> t_status x = timerModifiedLater
      then x\<lparr>t_when := t_nextwhen x, t_status := timerWaiting\<rparr> else x)"

lemma settle_simps:
  "dl (settle x) = dl x" "cb (settle x) = cb x" "status_ok x \<Longrightarrow> status_ok (settle x)"
  "t_pp (settle x) = (if t_status x = timerDeleted then None else t_pp x)"
  "t_status (settle x) \<noteq> timerDeleted" "t_status (settle x) \<noteq> timerModifiedEarlier"
  by (auto simp: settle_def dl_def cb_def status_ok.simps)

definition statuses :: "tsys \<Rightarrow> tstatus \<Rightarrow> tid list \<Rightarrow> nat" where
  "statuses s st ts = length (filter (\<lambda>t. t_status (tm s t) = st) ts)"

definition live :: "tsys \<Rightarrow> tid list \<Rightarrow> tid list" where
  "live s ts = filter (\<lambda>t. t_status (tm s t) \<noteq> timerDeleted) ts"

text \<open>The loop before index \<open>k\<close>, started in \<open>s\<close> on the heap \<open>ts\<close>.\<close>

definition clear_inv :: "tsys \<Rightarrow> tid list \<Rightarrow> nat \<Rightarrow> clear_state \<Rightarrow> bool" where
  "clear_inv s ts k c \<longleftrightarrow>
     tm (cl_sys c) = (\<lambda>u. if u \<in> set (take k ts) then settle (tm s u) else tm s u) \<and>
     pt (cl_sys c) = pt s \<and> calls (cl_sys c) = calls s \<and> polls (cl_sys c) = polls s \<and>
     cl_to c \<le> k \<and> length (cl_ts c) = length ts \<and> drop k (cl_ts c) = drop k ts \<and>
     heapw (whens (cl_sys c)) (take (cl_to c) (cl_ts c)) \<and>
     mset (take (cl_to c) (cl_ts c)) = mset (live s (take k ts)) \<and>
     cl_del c = int (statuses s timerDeleted (take k ts)) \<and>
     cl_earlier c = int (statuses s timerModifiedEarlier (take k ts)) \<and>
     (\<not> cl_changed c \<longrightarrow> cl_to c = k \<and> cl_ts c = ts \<and> whens (cl_sys c) = whens s)"

lemma clear_put_eq:
  assumes "cl_to c < length (cl_ts c)"
  shows "clear_put t c = Ret (c\<lparr>cl_ts := sup (whens (cl_sys c)) (take (cl_to c) (cl_ts c) @ [t]) (cl_to c) @
      drop (Suc (cl_to c)) (cl_ts c), cl_to := cl_to c + 1\<rparr>)"
proof -
  have "(cl_ts c)[cl_to c := t] = (take (cl_to c) (cl_ts c) @ [t]) @ drop (Suc (cl_to c)) (cl_ts c)"
    using assms by (simp add: upd_conv_take_nth_drop)
  moreover have "cl_to c < length (take (cl_to c) (cl_ts c) @ [t])" using assms by simp
  ultimately show ?thesis
    using assms by (simp add: clear_put_def siftupTimer_sup sup_append del: append_assoc)
qed

lemma settle_take_Suc:
  assumes d: "distinct ts" and k: "k < length ts" and e: "f (tm s (ts ! k)) = settle (tm s (ts ! k))"
  shows "(\<lambda>u. if u \<in> set (take k ts) then settle (tm s u) else tm s u)(ts ! k := f (tm s (ts ! k))) =
    (\<lambda>u. if u \<in> set (take (Suc k) ts) then settle (tm s u) else tm s u)"
  using e by (auto simp: take_Suc_conv_app_nth [OF k] fun_eq_iff)

lemma nth_notin_take: "distinct ts \<Longrightarrow> k < length ts \<Longrightarrow> ts ! k \<notin> set (take k ts)"
  by (metis distinct_take not_distinct_conv_prefix take_Suc_conv_app_nth)

text \<open>Putting the timer at \<open>k\<close>, now settled, at the end of the compacted part.\<close>

lemma clear_keep:
  assumes c: "clear_inv s ts k c" and d: "distinct ts" and k: "k < length ts"
    and st: "t_status (tm s (ts ! k)) \<noteq> timerDeleted" and f: "f (tm s (ts ! k)) = settle (tm s (ts ! k))"
    and s2: "s2 = upd_t (ts ! k) f (cl_sys c)"
    and zs: "zs = sup (whens s2) (take (cl_to c) (cl_ts c) @ [ts ! k]) (cl_to c)"
    and eqs: "cl_sys c2 = s2" "cl_to c2 = Suc (cl_to c)" "cl_ts c2 = zs @ drop (Suc (cl_to c)) (cl_ts c)"
    "cl_del c2 = cl_del c" "cl_earlier c2 = int (statuses s timerModifiedEarlier (take (Suc k) ts))" "cl_changed c2"
  shows "clear_inv s ts (Suc k) c2"
proof -
  let ?t = "ts ! k"
  have I: "tm (cl_sys c) = (\<lambda>u. if u \<in> set (take k ts) then settle (tm s u) else tm s u)"
    "cl_to c \<le> k" "length (cl_ts c) = length ts" "drop k (cl_ts c) = drop k ts"
    "heapw (whens (cl_sys c)) (take (cl_to c) (cl_ts c))"
    "mset (take (cl_to c) (cl_ts c)) = mset (live s (take k ts))"
    using c by (simp_all add: clear_inv_def)
  have tn: "?t \<notin> set (take k ts)" by (rule nth_notin_take [OF d k])
  have tt: "tm (cl_sys c) ?t = tm s ?t" using I(1) tn by simp
  have tm2: "tm s2 = (\<lambda>u. if u \<in> set (take (Suc k) ts) then settle (tm s u) else tm s u)"
    using settle_take_Suc [OF d k, of f s] f I(1) tt by (simp add: s2)
  have to: "cl_to c < length (cl_ts c)" using I(2,3) k by simp
  let ?xs = "take (cl_to c) (cl_ts c)"
  have lx: "length ?xs = cl_to c" using to by simp
  then have lz: "length zs = Suc (cl_to c)" by (simp add: zs)
  have sx: "set ?xs \<subseteq> set (take k ts)" using mset_eq_setD [OF I(6)] by (auto simp: live_def)
  have hz: "heapw (whens s2) zs"
  proof -
    have "whens s2 u = whens (cl_sys c) u" if "u \<in> set ?xs" for u
    proof -
      have "u \<noteq> ?t" using that sx tn by blast
      then show ?thesis by (simp add: whens_def s2)
    qed
    from add_heap [OF I(5) this] show ?thesis unfolding lx zs .
  qed
  have mz: "mset zs = mset (live s (take (Suc k) ts))"
    using I(6) st lx by (simp add: zs mset_sup take_Suc_conv_app_nth [OF k] live_def)
  have dr: "drop (Suc k) (zs @ drop (Suc (cl_to c)) (cl_ts c)) = drop (Suc k) ts"
  proof -
    have "drop (Suc k) (zs @ drop (Suc (cl_to c)) (cl_ts c)) = drop (Suc k) (cl_ts c)" using lz I(2) by simp
    also have "\<dots> = drop 1 (drop k (cl_ts c))" by simp
    also have "\<dots> = drop (Suc k) ts" unfolding I(4) by simp
    finally show ?thesis .
  qed
  have tk: "take (Suc (cl_to c)) (zs @ drop (Suc (cl_to c)) (cl_ts c)) = zs" using lz by simp
  have ln: "length (zs @ drop (Suc (cl_to c)) (cl_ts c)) = length ts" using lz to I(3) by simp
  have del: "statuses s timerDeleted (take (Suc k) ts) = statuses s timerDeleted (take k ts)"
    using st by (simp add: statuses_def take_Suc_conv_app_nth [OF k])
  have "pt s2 = pt s \<and> calls s2 = calls s \<and> polls s2 = polls s" "cl_del c = int (statuses s timerDeleted (take k ts))"
    using c by (simp_all add: clear_inv_def s2)
  then show ?thesis
    unfolding clear_inv_def eqs tk del using tm2 hz mz dr ln I(2) eqs(6) by auto
qed

lemma upd_t_cong: "f (tm s t) = g (tm s t) \<Longrightarrow> upd_t t f s = upd_t t g s"
  by (simp add: upd_t_def)

lemma clear_step_inv:
  assumes c: "clear_inv s ts k c" and d: "distinct ts" and k: "k < length ts" and h: "heapw (whens s) ts"
    and st: "status_ok (tm s (ts ! k))" "t_pp (tm s (ts ! k)) \<noteq> None"
  shows "\<exists>c2. clear_step k c = Ret c2 \<and> clear_inv s ts (Suc k) c2"
proof -
  let ?t = "ts ! k"
  have I: "tm (cl_sys c) = (\<lambda>u. if u \<in> set (take k ts) then settle (tm s u) else tm s u)"
    "cl_to c \<le> k" "length (cl_ts c) = length ts" "drop k (cl_ts c) = drop k ts"
    "heapw (whens (cl_sys c)) (take (cl_to c) (cl_ts c))"
    using c by (simp_all add: clear_inv_def)
  have tn: "?t \<notin> set (take k ts)" by (rule nth_notin_take [OF d k])
  have tt: "tm (cl_sys c) ?t = tm s ?t" using I(1) tn by simp
  have ct: "cl_ts c ! k = ?t" using arg_cong [OF I(4), of hd] k I(3) by (simp add: hd_drop_conv_nth)
  have to: "cl_to c < length (cl_ts c)" using I(2,3) k by simp
  have er: "cl_earlier c = int (statuses s timerModifiedEarlier (take k ts))" "cl_del c = int (statuses s timerDeleted (take k ts))"
    using c by (simp_all add: clear_inv_def)
  consider "t_status (tm s ?t) = timerWaiting" "cl_changed c" | "t_status (tm s ?t) = timerWaiting" "\<not> cl_changed c"
    | "t_status (tm s ?t) = timerModifiedEarlier" | "t_status (tm s ?t) = timerModifiedLater" | "t_status (tm s ?t) = timerDeleted"
    using st by (cases "t_status (tm s ?t)"; cases "cl_changed c"; simp add: status_ok.simps)
  then show ?thesis
  proof cases
    case 1
    have u: "upd_t ?t (\<lambda>x. x) (cl_sys c) = cl_sys c" by (simp add: upd_t_def)
    have "clear_inv s ts (Suc k) (c\<lparr>cl_ts := sup (whens (cl_sys c)) (take (cl_to c) (cl_ts c) @ [?t]) (cl_to c) @
        drop (Suc (cl_to c)) (cl_ts c), cl_to := cl_to c + 1\<rparr>)"
      using 1 by (intro clear_keep [OF c d k, of "\<lambda>x. x", OF _ _ refl refl])
        (simp_all add: settle_def statuses_def take_Suc_conv_app_nth [OF k] er u)
    with 1 show ?thesis by (simp add: clear_step_def ct tt clear_put_eq to)
  next
    case 2
    have u: "cl_to c = k" "cl_ts c = ts" "whens (cl_sys c) = whens s" using c 2 by (simp_all add: clear_inv_def)
    have tm2: "tm (cl_sys c) = (\<lambda>u. if u \<in> set (take (Suc k) ts) then settle (tm s u) else tm s u)"
      using I(1) 2 by (auto simp: take_Suc_conv_app_nth [OF k] settle_def fun_eq_iff)
    have hk: "heapw (whens s) (take (Suc k) ts)"
    proof -
      have "heap_on (\<le>) 4 0 (Suc k) (\<lambda>i. whens s (ts ! i))"
        by (rule heap_on_shrink [OF h [unfolded heapw_def]]) (use k in simp)
      moreover have "length (take (Suc k) ts) = Suc k" using k by simp
      ultimately show ?thesis unfolding heapw_def by (metis (no_types, lifting) heap_on_cong nth_take)
    qed
    have mk: "mset (take (Suc k) ts) = mset (live s (take (Suc k) ts))"
      using c 2 u by (simp add: clear_inv_def live_def take_Suc_conv_app_nth [OF k])
    have "clear_inv s ts (Suc k) (c\<lparr>cl_to := cl_to c + 1\<rparr>)"
      using c tm2 hk mk u 2 by (auto simp: clear_inv_def statuses_def take_Suc_conv_app_nth [OF k])
    with 2 show ?thesis by (simp add: clear_step_def ct tt)
  next
    case 3
    let ?f = "\<lambda>x. x\<lparr>t_when := t_nextwhen x, t_status := timerWaiting\<rparr>"
    have w: "whens (upd_t ?t (\<lambda>x. x\<lparr>t_status := timerMoving, t_when := t_nextwhen x\<rparr>) (cl_sys c)) = whens (upd_t ?t ?f (cl_sys c))"
      by (auto simp: whens_def fun_eq_iff)
    have f: "?f (tm s ?t) = settle (tm s ?t)" using 3 by (simp add: settle_def)
    let ?s2 = "upd_t ?t ?f (cl_sys c)"
    have "clear_inv s ts (Suc k) (c\<lparr>cl_ts := sup (whens ?s2) (take (cl_to c) (cl_ts c) @ [?t]) (cl_to c) @
        drop (Suc (cl_to c)) (cl_ts c), cl_to := cl_to c + 1, cl_changed := True, cl_sys := ?s2, cl_earlier := cl_earlier c + 1\<rparr>)"
      by (rule clear_keep [where f = ?f, OF c d k _ f refl refl])
        (use 3 in \<open>simp_all add: statuses_def take_Suc_conv_app_nth [OF k] er\<close>)
    with 3 show ?thesis by (simp add: clear_step_def ct tt clear_put_eq to w Let_def)
  next
    case 4
    let ?f = "\<lambda>x. x\<lparr>t_when := t_nextwhen x, t_status := timerWaiting\<rparr>"
    have w: "whens (upd_t ?t (\<lambda>x. x\<lparr>t_status := timerMoving, t_when := t_nextwhen x\<rparr>) (cl_sys c)) = whens (upd_t ?t ?f (cl_sys c))"
      by (auto simp: whens_def fun_eq_iff)
    have f: "?f (tm s ?t) = settle (tm s ?t)" using 4 by (simp add: settle_def)
    let ?s2 = "upd_t ?t ?f (cl_sys c)"
    have "clear_inv s ts (Suc k) (c\<lparr>cl_ts := sup (whens ?s2) (take (cl_to c) (cl_ts c) @ [?t]) (cl_to c) @
        drop (Suc (cl_to c)) (cl_ts c), cl_to := cl_to c + 1, cl_changed := True, cl_sys := ?s2\<rparr>)"
      by (rule clear_keep [where f = ?f, OF c d k _ f refl refl])
        (use 4 in \<open>simp_all add: statuses_def take_Suc_conv_app_nth [OF k] er\<close>)
    with 4 show ?thesis by (simp add: clear_step_def ct tt clear_put_eq to w Let_def)
  next
    case 5
    let ?s2 = "set_status ?t timerRemoved (upd_t ?t (\<lambda>x. x\<lparr>t_pp := None\<rparr>) (cl_sys c))"
    have tm2: "tm ?s2 = (\<lambda>u. if u \<in> set (take (Suc k) ts) then settle (tm s u) else tm s u)"
      using I(1) 5 tn by (auto simp: take_Suc_conv_app_nth [OF k] settle_def fun_eq_iff)
    have w2: "whens ?s2 = whens (cl_sys c)" by (auto simp: whens_def fun_eq_iff)
    have dr: "drop (Suc k) (cl_ts c) = drop (Suc k) ts"
    proof -
      have "drop (Suc k) (cl_ts c) = drop 1 (drop k (cl_ts c))" by simp
      then show ?thesis unfolding I(4) by simp
    qed
    let ?c = "c\<lparr>cl_sys := ?s2, cl_del := cl_del c + 1, cl_changed := True\<rparr>"
    have "clear_inv s ts (Suc k) ?c"
      unfolding clear_inv_def using c tm2 w2 dr 5
      by (simp add: clear_inv_def statuses_def live_def take_Suc_conv_app_nth [OF k] del: upd_t_simps(2))
    with 5 show ?thesis by (simp add: clear_step_def ct tt)
  qed
qed

lemma clear_loop_inv:
  assumes d: "distinct ts" and h: "heapw (whens s) ts"
    and st: "\<And>k. k < length ts \<Longrightarrow> status_ok (tm s (ts ! k)) \<and> t_pp (tm s (ts ! k)) \<noteq> None"
  shows "k \<le> length ts \<Longrightarrow> clear_inv s ts k c \<Longrightarrow>
    \<exists>c2. clear_loop [k..<length ts] c = Ret c2 \<and> clear_inv s ts (length ts) c2"
proof (induction "length ts - k" arbitrary: k c)
  case 0
  then show ?case by simp
next
  case (Suc n)
  then have k: "k < length ts" by simp
  obtain c2 where c2: "clear_step k c = Ret c2" "clear_inv s ts (Suc k) c2"
    using clear_step_inv [OF Suc(4) d k h] st [OF k] by blast
  have "n = length ts - Suc k" "Suc k \<le> length ts" using Suc(2) k by auto
  from Suc(1) [OF this c2(2)] show ?case using c2(1) k by (simp add: upt_conv_Cons del: upt_Suc)
qed

lemma scount_statuses: "scount s p st = statuses s st (timers (pt s p))"
  by (simp add: scount_def statuses_def flip: mset_filter)

lemma length_live: "length (live s ts) + statuses s timerDeleted ts = length ts"
  by (induction ts) (auto simp: live_def statuses_def)

lemma clearDeletedTimers_spec:
  assumes i: "tinv s"
  shows "\<exists>s2. clearDeletedTimers p s = Ret s2 \<and> tinv s2 \<and> quiet {} p s s2 \<and>
    set (timers (pt s2 p)) = {t \<in> set (timers (pt s p)). t_status (tm s t) \<noteq> timerDeleted} \<and>
    (\<forall>t. t \<in> set (timers (pt s2 p)) \<longrightarrow> t_status (tm s2 t) = timerWaiting)"
proof -
  let ?ts = "timers (pt s p)"
  have H: "hinv {} s" "counters_ok s" using i by (simp_all add: tinv_def)
  have P: "distinct ?ts" "heapw (whens s) ?ts" "numTimers (pt s p) = int (length ?ts)"
    using hinvD(1) [OF H(1), of p] by (simp_all add: pwf_def)
  have st: "status_ok (tm s u)" for u using hinvD(3) [OF H(1)] by simp
  have tp: "t_pp (tm s u) = Some p" if "u \<in> set ?ts" for u using hinvD(2) [OF H(1)] that by simp
  let ?c0 = "\<lparr>cl_sys = s, cl_ts = ?ts, cl_to = 0, cl_del = 0, cl_earlier = 0, cl_changed = False\<rparr>"
  have "clear_inv s ?ts 0 ?c0" by (simp add: clear_inv_def live_def statuses_def heapw_def heap_on_def)
  from clear_loop_inv [OF P(1,2) _ _ this] st tp obtain c
    where c: "clear_loop [0..<length ?ts] ?c0 = Ret c" and ci: "clear_inv s ?ts (length ?ts) c" by auto
  let ?s2 = "updateTimer0When p (upd_p p (\<lambda>x. x\<lparr>deletedTimers := deletedTimers x - cl_del c,
    numTimers := numTimers x - cl_del c, adjustTimers := adjustTimers x - cl_earlier c,
    timers := take (cl_to c) (cl_ts c)\<rparr>) (cl_sys c))"
  have r: "clearDeletedTimers p s = Ret ?s2" by (simp add: clearDeletedTimers_def Let_def c)
  have I: "tm (cl_sys c) = (\<lambda>u. if u \<in> set ?ts then settle (tm s u) else tm s u)"
    "pt (cl_sys c) = pt s" "calls (cl_sys c) = calls s" "polls (cl_sys c) = polls s"
    "heapw (whens (cl_sys c)) (take (cl_to c) (cl_ts c))"
    "mset (take (cl_to c) (cl_ts c)) = mset (live s ?ts)"
    "cl_del c = int (scount s p timerDeleted)" "cl_earlier c = int (scount s p timerModifiedEarlier)"
    using ci by (simp_all add: clear_inv_def scount_statuses)
  define s2 where "s2 = ?s2"
  have tm2: "tm s2 u = (if u \<in> set ?ts then settle (tm s u) else tm s u)" for u
    by (simp add: s2_def updateTimer0When_eq I(1))
  have pp2: "timers (pt s2 p) = take (cl_to c) (cl_ts c)" "numTimers (pt s2 p) = numTimers (pt s p) - cl_del c"
    "deletedTimers (pt s2 p) = deletedTimers (pt s p) - cl_del c"
    "adjustTimers (pt s2 p) = adjustTimers (pt s p) - cl_earlier c"
    "timer0When (pt s2 p) = first_when (whens (cl_sys c)) (take (cl_to c) (cl_ts c))"
    by (simp_all add: s2_def updateTimer0When_eq I(2))
  have pq: "pt s2 q = pt s q" if "q \<noteq> p" for q using that by (simp add: s2_def updateTimer0When_eq I(2))
  have w2: "whens s2 = whens (cl_sys c)" by (simp add: s2_def updateTimer0When_eq)
  have set2: "set (timers (pt s2 p)) = {t \<in> set ?ts. t_status (tm s t) \<noteq> timerDeleted}"
    using mset_eq_setD [OF I(6)] by (auto simp: pp2(1) live_def)
  have d2: "distinct (timers (pt s2 p))"
    unfolding pp2(1) using mset_eq_imp_distinct_iff [OF I(6)] P(1) by (simp add: live_def)
  have l2: "int (length (timers (pt s2 p))) = int (length ?ts) - cl_del c"
    unfolding pp2(1) using mset_eq_length [OF I(6)] length_live [of s ?ts] by (simp add: I(7) scount_statuses)
  have "pwf s2 q" for q
  proof (cases "q = p")
    case True
    then show ?thesis using d2 I(5) l2 P(3) pp2 by (simp add: pwf_def w2)
  next
    case False
    show ?thesis
    proof (rule pwf_cong [OF hinvD(1) [OF H(1)] pq [OF False]])
      fix u assume "u \<in> set (timers (pt s q))"
      then have "u \<notin> set ?ts" using hinv_other [OF H(1), of u p q] False by auto
      then show "t_when (tm s2 u) = t_when (tm s u)" by (simp add: tm2)
    qed
  qed
  moreover have "t_pp (tm s2 u) = Some q \<longleftrightarrow> u \<in> set (timers (pt s2 q))" for u q
  proof (cases "q = p")
    case True
    then show ?thesis using hinvD(2) [OF H(1), of u p] set2 tm2 [of u] by (auto simp: settle_simps)
  next
    case False
    have "u \<notin> set ?ts" if "u \<in> set (timers (pt s q))" using hinv_other [OF H(1), of u p q] False that by auto
    then show ?thesis
      using hinvD(2) [OF H(1), of u q] tp [of u] False pq [OF False] tm2 [of u] by (auto simp: settle_simps)
  qed
  moreover have so: "status_ok (tm s2 u)" for u using st [of u] tm2 [of u] by (simp add: settle_simps)
  ultimately have h2: "hinv {} s2" by (simp add: hinv_def)
  have wt: "t_status (tm s2 u) = timerWaiting" if "u \<in> set (timers (pt s2 p))" for u
    using that set2 st [of u] tp [of u] tm2 [of u]
    by (cases "t_status (tm s u)") (auto simp: settle_def status_ok.simps)
  have scp: "scount s2 p st' = 0" if "st' \<noteq> timerWaiting" for st'
    using wt that by (auto simp: scount_statuses statuses_def filter_empty_conv)
  have scq: "scount s2 q st' = scount s q st'" if "q \<noteq> p" for q st'
  proof -
    have "u \<notin> set ?ts" if "u \<in> set (timers (pt s q))" for u
      using hinv_other [OF H(1), of u p q] \<open>q \<noteq> p\<close> that by auto
    then show ?thesis
      using pq [OF that] unfolding scount_statuses statuses_def by (auto simp: tm2 intro!: arg_cong [of _ _ length] filter_cong)
  qed
  have "deletedTimers (pt s2 q) = int (scount s2 q timerDeleted) \<and>
      adjustTimers (pt s2 q) = int (scount s2 q timerModifiedEarlier)" for q
    using counters_okD [OF H(2), of q] pp2 I(7,8) scp scq [of q] pq [of q] by (cases "q = p") auto
  then have c2: "counters_ok s2" by (simp add: counters_ok_def)
  have "calls s2 = calls s" "polls s2 = polls s" by (simp_all add: s2_def updateTimer0When_eq I(3,4))
  then have "quiet {} p s s2"
    using pq by (simp add: quiet_def deadline_def tm2 settle_simps)
  with r h2 c2 set2 wt show ?thesis unfolding tinv_def s2_def by blast
qed

section \<open>addtimer\<close>

lemma hinv_take: "hinv X s \<Longrightarrow> t_pp (tm s t) = None \<Longrightarrow> hinv (insert t X) s"
  by (auto simp: hinv_def)

lemma counters_ok_upd:
  assumes "hinv X s" "t \<in> X" "counters_ok s"
  shows "counters_ok (upd_t t f s)"
  using assms(3) scount_status [OF not_on_heap [OF assms(1,2)]] by (simp add: counters_ok_def)

lemma dl_waiting: "dl (x\<lparr>t_status := timerWaiting\<rparr>) = Some (t_when x)"
  by (simp add: dl_def)

text \<open>An idle timer is armed: \<open>f\<close> sets its fields, and it goes on the heap of \<open>p\<close>.\<close>

lemma doaddtimer_arm:
  assumes h: "hinv {t} s" and c: "counters_ok s" and f: "t_pp (f (tm s t)) = None"
  shows "\<exists>s2. doaddtimer p t (upd_t t f s) = Ret s2 \<and> tinv (set_status t timerWaiting s2) \<and>
     (\<forall>u. deadline (set_status t timerWaiting s2) u = (if u = t then Some (t_when (f (tm s t))) else deadline s u)) \<and>
     (\<forall>u. u \<noteq> t \<longrightarrow> tm s2 u = tm s u) \<and> cb (tm s2 t) = cb (f (tm s t)) \<and> t_status (tm s2 t) = t_status (f (tm s t)) \<and>
     calls s2 = calls s \<and> polls s2 = polls s \<and> (\<forall>q. q \<noteq> p \<longrightarrow> pt s2 q = pt s q)"
proof -
  obtain s2 where s2: "doaddtimer p t (upd_t t f s) = Ret s2" and o: "on p t (f (tm s t)) s s2"
    and h2: "hinv ({t} - {t}) (set_status t timerWaiting s2)"
    using doaddtimer_on [where f = f and p = p, OF h _ f] by auto
  have dp: "deletedTimers (pt s2 q) = deletedTimers (pt s q)" "adjustTimers (pt s2 q) = adjustTimers (pt s q)" for q
    using o by (cases "q = p"; simp add: on_def)+
  have "counters_ok (set_status t timerWaiting s2)"
    using counters_okD [OF c] scount_on [OF h _ o] by (simp add: counters_ok_def dp)
  moreover have "tm (set_status t timerWaiting s2) u =
      (if u = t then (f (tm s t))\<lparr>t_pp := Some p, t_status := timerWaiting\<rparr> else tm s u)" for u
    using o by (simp add: on_def)
  then have "deadline (set_status t timerWaiting s2) u = (if u = t then Some (t_when (f (tm s t))) else deadline s u)" for u
    by (simp add: deadline_def dl_waiting del: upd_t_simps)
  ultimately show ?thesis using s2 h2 o by (simp add: tinv_def on_def cb_def)
qed

lemma set_status_same: "t_status (tm s t) = st \<Longrightarrow> set_status t st s = s"
  by (cases "tm s t") (auto simp: upd_t_def fun_upd_idem)

lemma wakeNetPoller_simps [simp]:
  "tm (wakeNetPoller w s) = tm s" "pt (wakeNetPoller w s) = pt s" "calls (wakeNetPoller w s) = calls s"
  "polls (wakeNetPoller w s) = polls s @ [w]"
  by (simp_all add: wakeNetPoller_def)

lemma tinv_cong: "tinv s \<Longrightarrow> tm s2 = tm s \<Longrightarrow> pt s2 = pt s \<Longrightarrow> tinv s2"
  by (simp add: tinv_def hinv_def counters_ok_def scount_def pwf_def whens_def [abs_def])

definition due :: "int \<Rightarrow> int" where
  "due w = (if w < 0 then maxWhen else w)"

lemma addtimer_spec:
  assumes i: "tinv s" and st: "t_status (tm s t) = timerNoStatus"
  shows "\<exists>s2. addtimer pre p t s = Ret s2 \<and> tinv s2 \<and> deadline s2 = (deadline s)(t \<mapsto> due (t_when (tm s t))) \<and>
    (\<forall>u. cb (tm s2 u) = cb (tm s u)) \<and> calls s2 = calls s \<and> polls s2 = polls s @ [due (t_when (tm s t))]"
proof -
  have H: "hinv {} s" "counters_ok s" using i by (simp_all add: tinv_def)
  have tp: "t_pp (tm s t) = None" using hinvD(3) [OF H(1), of t] st by (simp add: status_ok.simps)
  let ?f = "\<lambda>x. x\<lparr>t_when := due (t_when x), t_status := timerWaiting\<rparr>"
  let ?s1 = "upd_t t ?f s"
  have h1: "hinv {t} s" using hinv_take [OF H(1) tp] .
  have h2: "hinv {t} ?s1" by (rule hinv_upd_t [OF h1]) (use tp in auto)
  have c2: "counters_ok ?s1" by (rule counters_ok_upd [OF h1 _ H(2)]) simp
  obtain s2 where s2: "cleantimers pre p ?s1 = Ret s2" "hinv {t} s2" "counters_ok s2" "quiet {t} p ?s1 s2"
    using cleantimers_spec [OF h2 c2] by blast
  have t2: "tm s2 t = (tm s t)\<lparr>t_when := due (t_when (tm s t)), t_status := timerWaiting\<rparr>"
    using s2(4) by (simp add: quiet_def)
  have u2: "upd_t t (\<lambda>x. x) s2 = s2" by (simp add: upd_t_def)
  obtain s3 where s3: "doaddtimer p t s2 = Ret s3" "tinv (set_status t timerWaiting s3)"
     "\<And>u. deadline (set_status t timerWaiting s3) u = (if u = t then Some (t_when (tm s2 t)) else deadline s2 u)"
     "\<And>u. u \<noteq> t \<Longrightarrow> tm s3 u = tm s2 u" "cb (tm s3 t) = cb (tm s2 t)" "t_status (tm s3 t) = t_status (tm s2 t)"
     "calls s3 = calls s2" "polls s3 = polls s2"
    using doaddtimer_arm [OF s2(2,3), of "\<lambda>x. x" p] t2 tp unfolding u2 by auto
  have e: "set_status t timerWaiting s3 = s3" using s3(6) t2 by (intro set_status_same) simp
  have "(if t_when (tm s t) < 0 then upd_t t (\<lambda>x. x\<lparr>t_when := maxWhen\<rparr>) s else s) =
      upd_t t (\<lambda>x. x\<lparr>t_when := due (t_when x)\<rparr>) s"
    by (simp add: upd_t_def due_def)
  then have "addtimer pre p t s = obind (cleantimers pre p ?s1) (\<lambda>s'. obind (doaddtimer p t s') (\<lambda>s'.
      Ret (wakeNetPoller (due (t_when (tm s t))) s')))"
    using st by (simp add: addtimer_def Let_def)
  then have r: "addtimer pre p t s = Ret (wakeNetPoller (due (t_when (tm s t))) s3)"
    using s2(1) s3(1) by simp
  have d: "deadline s3 = (deadline s)(t \<mapsto> due (t_when (tm s t)))"
  proof
    fix u
    have "deadline s2 u = deadline s u" if "u \<noteq> t"
      using s2(4) that by (simp add: quiet_def) (simp add: deadline_def)
    then show "deadline s3 u = ((deadline s)(t \<mapsto> due (t_when (tm s t)))) u"
      using s3(3) [of u] t2 unfolding e by simp
  qed
  have "cb (tm s3 u) = cb (tm s u)" for u
  proof (cases "u = t")
    case True
    then show ?thesis using s3(5) t2 by (simp add: cb_def)
  next
    case False
    with s3(4) [of u] s2(4) show ?thesis by (simp add: quiet_def)
  qed
  with r d s3(2,7,8) s2(4) show ?thesis
    unfolding e by (auto simp: quiet_def deadline_def fun_eq_iff intro: tinv_cong)
qed

section \<open>deltimer and modtimer\<close>

text \<open>A change of status and of \<open>nextwhen\<close> of a timer that stays on the heap of \<open>p\<close>.\<close>

lemma restatus:
  assumes h: "hinv {} s" and t: "t_pp (tm s t) = Some p"
    and f: "t_pp (f (tm s t)) = Some p" "t_when (f (tm s t)) = t_when (tm s t)" "status_ok (f (tm s t))"
  shows "hinv {} (upd_t t f s)"
    and "int (scount (upd_t t f s) q st) = int (scount s q st) +
      (if q = p \<and> t_status (f (tm s t)) = st then 1 else 0) - (if q = p \<and> t_status (tm s t) = st then 1 else 0)"
proof -
  have w: "whens (upd_t t f s) = whens s" using f(2) by (auto simp: whens_def fun_eq_iff)
  show "hinv {} (upd_t t f s)"
  proof -
    have "t_pp (tm (upd_t t f s) u) = t_pp (tm s u)" "status_ok (tm (upd_t t f s) u)" for u
      using t f hinvD(3) [OF h, of u] by simp_all
    with h show ?thesis by (simp add: hinv_def pwf_def w del: upd_t_simps(2))
  qed
  have tin: "t \<in> set (timers (pt s p))" using hinvD(2) [OF h] t by blast
  let ?P = "\<lambda>s u. t_status (tm s u) = st" and ?s = "upd_t t f s"
  show "int (scount ?s q st) = int (scount s q st) +
      (if q = p \<and> t_status (f (tm s t)) = st then 1 else 0) - (if q = p \<and> t_status (tm s t) = st then 1 else 0)"
  proof (cases "q = p")
    case True
    define M where "M = mset (timers (pt s p)) - {#t#}"
    have d: "distinct (timers (pt s p))" using hinvD(1) [OF h, of p] by (simp add: pwf_def)
    have m: "mset (timers (pt s p)) = add_mset t M" using tin by (simp add: M_def)
    have "mset (remove1 t (timers (pt s p))) = M" by (simp add: M_def)
    from mset_remove_one [OF this [unfolded M_def] d] this have tn: "t \<notin># M"
      by (metis Diff_iff insertI1 set_mset_mset)
    have "filter_mset (?P ?s) M = filter_mset (?P s) M" by (rule filter_mset_other [OF tn]) simp
    then show ?thesis using True unfolding scount_def upd_t_simps(1) by (simp add: m)
  next
    case False
    then have "t \<notin> set (timers (pt s q))" using hinv_other [OF h tin] by auto
    then have "filter_mset (?P ?s) (mset (timers (pt s q))) = filter_mset (?P s) (mset (timers (pt s q)))"
      by (intro filter_mset_other [of t]) auto
    then show ?thesis using False by (simp add: scount_def)
  qed
qed

lemma deltimer_spec:
  assumes i: "tinv s"
  shows "\<exists>s2. deltimer t s = Ret (s2, deadline s t \<noteq> None) \<and> tinv s2 \<and> deadline s2 = (deadline s)(t := None) \<and>
    (\<forall>u. cb (tm s2 u) = cb (tm s u)) \<and> calls s2 = calls s \<and> polls s2 = polls s"
proof -
  have H: "hinv {} s" "counters_ok s" using i by (simp_all add: tinv_def)
  have st: "status_ok (tm s t)" using hinvD(3) [OF H(1)] by simp
  show ?thesis
  proof (cases "t_status (tm s t) \<in> {timerWaiting, timerModifiedLater, timerModifiedEarlier}")
    case True
    then obtain p where p: "t_pp (tm s t) = Some p" using st by (auto simp: status_ok.simps)
    let ?s1 = "set_status t timerDeleted s"
    let ?e = "if t_status (tm s t) = timerModifiedEarlier then 1 else 0"
    let ?s2 = "upd_p p (\<lambda>x. x\<lparr>adjustTimers := adjustTimers x - ?e, deletedTimers := deletedTimers x + 1\<rparr>) ?s1"
    note rs = restatus [OF H(1) p, of "\<lambda>x. x\<lparr>t_status := timerDeleted\<rparr>"]
    have so: "status_ok ((tm s t)\<lparr>t_status := timerDeleted\<rparr>)" using p by (simp add: status_ok.simps)
    have h1: "hinv {} ?s1" by (rule rs(1)) (use p so in auto)
    have h2: "hinv {} ?s2" by (rule hinv_counters [OF h1]) auto
    have sc: "int (scount ?s2 q st') = int (scount s q st') + (if q = p \<and> timerDeleted = st' then 1 else 0) -
        (if q = p \<and> t_status (tm s t) = st' then 1 else 0)" for q st'
      using rs(2) [of q st'] p so by (simp add: scount_counters)
    have "counters_ok ?s2"
      unfolding counters_ok_def sc using counters_okD [OF H(2)] True by auto
    moreover have "deltimer t s = Ret (?s2, deadline s t \<noteq> None)"
      using True p by (auto simp: deltimer_def deadline_def dl_def upd_p_def upd_t_def)
    moreover have "deadline ?s2 = (deadline s)(t := None)" by (auto simp: deadline_def dl_def fun_eq_iff)
    ultimately show ?thesis using h2 by (auto simp: tinv_def cb_def)
  next
    case False
    then have "deltimer t s = Ret (s, False)" "deadline s t = None"
      using st by (cases "t_status (tm s t)"; simp add: status_ok.simps deltimer_def deadline_def dl_def)+
    then show ?thesis using i by (auto simp: fun_eq_iff)
  qed
qed

lemma hinv_same:
  assumes "hinv X s" "tm s2 = tm s"
    "\<And>q. timers (pt s2 q) = timers (pt s q) \<and> numTimers (pt s2 q) = numTimers (pt s q) \<and> timer0When (pt s2 q) = timer0When (pt s q)"
  shows "hinv X s2"
  using assms by (simp add: hinv_def pwf_def whens_def [abs_def])

definition armed :: "tsys \<Rightarrow> tid \<Rightarrow> int \<Rightarrow> int \<Rightarrow> callback \<Rightarrow> nat \<Rightarrow> nat \<Rightarrow> tsys \<Rightarrow> bool" where
  "armed s t when period f arg seq s2 \<longleftrightarrow>
     deadline s2 = (deadline s)(t \<mapsto> when) \<and> cb (tm s2 t) = (period, f, arg, seq) \<and>
     (\<forall>u. u \<noteq> t \<longrightarrow> cb (tm s2 u) = cb (tm s u)) \<and> calls s2 = calls s"

lemma modtimer_in_place:
  assumes h: "hinv {} s" and c: "counters_ok s"
    and st: "t_status (tm s t) \<in> {timerWaiting, timerModifiedEarlier, timerModifiedLater, timerDeleted}"
  shows "\<exists>s2. modtimer p t when per f arg seq s = Ret (s2, t_status (tm s t) \<noteq> timerDeleted) \<and> tinv s2 \<and>
    armed s t (due when) per f arg seq s2"
proof -
  obtain q where q: "t_pp (tm s t) = Some q" using st hinvD(3) [OF h, of t] by (auto simp: status_ok.simps)
  let ?new = "if due when < t_when (tm s t) then timerModifiedEarlier else timerModifiedLater"
  let ?g = "\<lambda>x. x\<lparr>t_period := per, t_f := f, t_arg := arg, t_seq := seq, t_nextwhen := due when, t_status := ?new\<rparr>"
  obtain s2 where s2: "modtimer p t when per f arg seq s = Ret (s2, t_status (tm s t) \<noteq> timerDeleted)"
    and tm2: "tm s2 = tm (upd_t t ?g s)" and cl: "calls s2 = calls s"
    and hp: "\<And>r. timers (pt s2 r) = timers (pt s r) \<and> numTimers (pt s2 r) = numTimers (pt s r) \<and>
      timer0When (pt s2 r) = timer0When (pt s r)"
    and del: "\<And>r. deletedTimers (pt s2 r) = deletedTimers (pt s r) - (if r = q \<and> t_status (tm s t) = timerDeleted then 1 else 0)"
    and adj: "\<And>r. adjustTimers (pt s2 r) = adjustTimers (pt s r) + (if r = q \<and> ?new = timerModifiedEarlier then 1 else 0)
       - (if r = q \<and> t_status (tm s t) = timerModifiedEarlier then 1 else 0)"
  proof -
    have e: "(if when < 0 then maxWhen else when) = due when" by (simp add: due_def)
    from st q that show ?thesis
      unfolding modtimer_def e mod_begin_def mod_in_place_def Let_def
      by (elim insertE; cases "due when < t_when (tm s t)") (simp_all add: del: Let_def)
  qed
  note rs = restatus [OF h q, of ?g]
  have so: "status_ok (?g (tm s t))" using q by (simp add: status_ok.simps)
  have h1: "hinv {} (upd_t t ?g s)" by (rule rs(1)) (use q so in auto)
  have "hinv {} s2" by (rule hinv_same [OF h1 tm2]) (use hp in simp)
  moreover have sc: "int (scount s2 r st') = int (scount s r st') + (if r = q \<and> ?new = st' then 1 else 0) -
        (if r = q \<and> t_status (tm s t) = st' then 1 else 0)" for r st'
  proof -
    have "scount s2 r st' = scount (upd_t t ?g s) r st'" unfolding scount_def tm2 using hp by simp
    then show ?thesis using rs(2) [of r st'] q so by simp
  qed
  have "counters_ok s2"
    unfolding counters_ok_def sc del adj using counters_okD [OF c] st by auto
  moreover have "deadline s2 u = (if u = t then Some (due when) else deadline s u)" for u
  proof (cases "u = t")
    case True
    then show ?thesis by (simp add: deadline_def dl_def tm2)
  qed (simp add: deadline_def tm2)
  then have "deadline s2 = (deadline s)(t \<mapsto> due when)" by (simp add: fun_eq_iff)
  moreover have "cb (tm s2 u) = (if u = t then (per, f, arg, seq) else cb (tm s u))" for u
    by (simp add: tm2 cb_def)
  ultimately show ?thesis using s2 cl by (auto simp: tinv_def armed_def)
qed

lemma modtimer_spec:
  assumes i: "tinv s"
  shows "\<exists>s2. modtimer p t when per f arg seq s = Ret (s2, deadline s t \<noteq> None) \<and> tinv s2 \<and>
    armed s t (due when) per f arg seq s2"
proof -
  have H: "hinv {} s" "counters_ok s" using i by (simp_all add: tinv_def)
  have st: "status_ok (tm s t)" using hinvD(3) [OF H(1)] by simp
  show ?thesis
  proof (cases "t_status (tm s t) \<in> {timerWaiting, timerModifiedEarlier, timerModifiedLater, timerDeleted}")
    case True
    then have "t_status (tm s t) \<noteq> timerDeleted \<longleftrightarrow> deadline s t \<noteq> None" by (auto simp: deadline_def dl_def)
    with modtimer_in_place [OF H True] show ?thesis by simp
  next
    case False
    then have s0: "t_status (tm s t) = timerNoStatus \<or> t_status (tm s t) = timerRemoved" and tp: "t_pp (tm s t) = None"
      and dn: "deadline s t = None"
      using st by (cases "t_status (tm s t)"; simp add: status_ok.simps deadline_def dl_def)+
    let ?g = "\<lambda>x. x\<lparr>t_status := timerModifying, t_period := per, t_f := f, t_arg := arg, t_seq := seq, t_when := due when\<rparr>"
    have h1: "hinv {t} s" using hinv_take [OF H(1) tp] .
    obtain s2 where s2: "doaddtimer p t (upd_t t ?g s) = Ret s2" "tinv (set_status t timerWaiting s2)"
       "\<And>u. deadline (set_status t timerWaiting s2) u = (if u = t then Some (due when) else deadline s u)"
       "\<And>u. u \<noteq> t \<Longrightarrow> tm s2 u = tm s u" "cb (tm s2 t) = (per, f, arg, seq)" "calls s2 = calls s"
      using doaddtimer_arm [OF h1 H(2), of ?g p] tp by (auto simp: cb_def)
    have e: "(if when < 0 then maxWhen else when) = due when" by (simp add: due_def)
    let ?s3 = "wakeNetPoller (due when) (set_status t timerWaiting s2)"
    have "modtimer p t when per f arg seq s = Ret (?s3, False)"
      using s0 s2(1) unfolding modtimer_def e mod_begin_def Let_def by auto
    moreover have "tinv ?s3" by (rule tinv_cong [OF s2(2)]) simp_all
    moreover have "deadline ?s3 = (deadline s)(t \<mapsto> due when)"
      using s2(3) by (auto simp: fun_eq_iff deadline_def)
    then have "armed s t (due when) per f arg seq ?s3"
      using s2(4-6) by (simp add: armed_def cb_def)
    ultimately show ?thesis using dn by auto
  qed
qed

section \<open>runtimer\<close>

text \<open>What stays on the heap while stale timers at its head are dealt with.\<close>

definition settles :: "pid \<Rightarrow> tsys \<Rightarrow> tsys \<Rightarrow> bool" where
  "settles p s s2 \<longleftrightarrow>
     (\<forall>u. t_pp (tm s u) = Some p \<longrightarrow> deadline s u \<noteq> None \<longrightarrow>
        t_pp (tm s2 u) = Some p \<and> (t_status (tm s2 u) = timerModifiedEarlier \<longrightarrow> t_status (tm s u) = timerModifiedEarlier))"

lemma remove_deleted_settles:
  "remove_deleted p (timers (pt s p) ! 0) s = Ret s2 \<Longrightarrow> t_status (tm s (timers (pt s p) ! 0)) = timerDeleted \<Longrightarrow>
    settles p s s2"
  by (auto simp: remove_deleted_def dodeltimer0_eq settles_def deadline_def dl_def split: if_splits)

lemma move_modified_settles:
  "move_modified p (timers (pt s p) ! 0) st s = Ret s2 \<Longrightarrow> settles p s s2"
  by (auto simp: move_modified_def dodeltimer0_eq doaddtimer_eq settles_def Let_def split: if_splits)

text \<open>The timer \<open>t\<close> fires at \<open>now\<close>: its call is made, and it is armed again if it is periodic.\<close>

definition fires :: "tid \<Rightarrow> int \<Rightarrow> tsys \<Rightarrow> tsys \<Rightarrow> bool" where
  "fires t now s s2 \<longleftrightarrow>
     (\<exists>w. deadline s t = Some w \<and> w \<le> now \<and>
        deadline s2 = (deadline s)(t := if t_period (tm s t) > 0 then Some (next_when w (t_period (tm s t)) now) else None)) \<and>
     calls s2 = calls s @ [(t_f (tm s t), t_arg (tm s t), t_seq (tm s t))] \<and> polls s2 = polls s \<and>
     (\<forall>u. cb (tm s2 u) = cb (tm s u)) \<and>
     (\<forall>u. t_status (tm s2 u) = timerModifiedEarlier \<longrightarrow> t_status (tm s u) = timerModifiedEarlier)"

lemma runOneTimer_periodic:
  assumes h: "hinv {} s" and c: "counters_ok s" and ne: "timers (pt s p) \<noteq> []" and t: "t = timers (pt s p) ! 0"
    and st: "t_status (tm s t) = timerWaiting" and now: "t_when (tm s t) \<le> now" and per: "t_period (tm s t) > 0"
  shows "\<exists>s2. runOneTimer p t now (set_status t timerRunning s) = Ret s2 \<and> tinv s2 \<and> fires t now s s2"
proof -
  have tin: "t \<in> set (timers (pt s p))" using ne t by simp
  have tp: "t_pp (tm s t) = Some p" using hinvD(2) [OF h] tin by simp
  have P: "distinct (timers (pt s p))" "heapw (whens s) (timers (pt s p))" "numTimers (pt s p) = int (length (timers (pt s p)))"
    using hinvD(1) [OF h, of p] by (auto simp: pwf_def)
  let ?nw = "next_when (t_when (tm s t)) (t_period (tm s t)) now"
  let ?f = "\<lambda>y. y\<lparr>t_status := timerRunning, t_when := next_when (t_when y) (t_period y) now\<rparr>"
  define W where "W = whens (upd_t t ?f s)"
  let ?ts = "sdown W (timers (pt s p)) 0"
  have l0: "0 < length (timers (pt s p))" using ne by simp
  have m: "mset ?ts = mset (timers (pt s p))" by (rule mset_sdown [OF l0])
  define s2 where "s2 = (upd_p p (\<lambda>x. x\<lparr>timers := ?ts, timer0When := first_when W ?ts\<rparr>)
     (upd_t t (\<lambda>y. y\<lparr>t_when := next_when (t_when y) (t_period y) now, t_status := timerWaiting\<rparr>) s))
     \<lparr>calls := calls s @ [(t_f (tm s t), t_arg (tm s t), t_seq (tm s t))]\<rparr>"
  have r: "runOneTimer p t now (set_status t timerRunning s) = Ret s2"
  proof -
    let ?sa = "upd_p p (\<lambda>x. x\<lparr>timers := sdown W (timers x) 0\<rparr>) (upd_t t ?f s)"
    have "siftdown_in p 0 (upd_t t ?f s) = Ret ?sa"
      unfolding W_def by (rule siftdown_in_eq) (use l0 in simp)
    moreover have "whens (set_status t timerWaiting ?sa) = W" by (simp add: W_def del: upd_t_simps)
    then have "(updateTimer0When p (set_status t timerWaiting ?sa))\<lparr>calls := calls s @ [(t_f (tm s t), t_arg (tm s t), t_seq (tm s t))]\<rparr> = s2"
      unfolding updateTimer0When_eq s2_def by (simp add: upd_p_def upd_t_def)
    ultimately show ?thesis
      using per by (simp add: runOneTimer_def Let_def) (simp add: updateTimer0When_eq)
  qed
  have tm2: "tm s2 u = (if u = t then (tm s t)\<lparr>t_when := ?nw, t_status := timerWaiting\<rparr> else tm s u)" for u
    by (simp add: s2_def)
  have pt2: "pt s2 q = (if q = p then (pt s p)\<lparr>timers := ?ts, timer0When := first_when W ?ts\<rparr> else pt s q)" for q
    by (simp add: s2_def)
  have w2: "whens s2 = W" by (auto simp: whens_def fun_eq_iff tm2 W_def)
  have "heap_but (\<le>) 4 0 (length (timers (pt s p))) (hole (whens s) (timers (pt s p)) 0 ?nw) 0"
    unfolding hole_def using P(2) by (intro heap_but_upd heap_on_but transp_le_int) (simp add: heapw_def)
  then have "heap_but (\<le>) 4 0 (length (timers (pt s p))) (\<lambda>k. W (timers (pt s p) ! k)) 0"
  proof (rule heap_but_cong)
    fix k assume k: "k < length (timers (pt s p))"
    have "timers (pt s p) ! k = t \<longleftrightarrow> k = 0" unfolding t by (rule nth_eq_iff_index_eq [OF P(1) k l0])
    then show "W (timers (pt s p) ! k) = hole (whens s) (timers (pt s p)) 0 ?nw k"
      using t by (auto simp: hole_def whens_def W_def)
  qed
  then have hp: "heapw W ?ts" by (rule sdown_heap) (use l0 in \<open>auto simp: upper_def\<close>)
  have d2: "distinct ?ts" using mset_eq_imp_distinct_iff [OF m] P(1) by simp
  have s2: "set ?ts = set (timers (pt s p))" by (rule mset_eq_setD [OF m])
  have "pwf s2 q" for q
  proof (cases "q = p")
    case True
    then show ?thesis using hp d2 P(3) l0 by (simp add: pwf_def pt2 w2)
  next
    case False
    have "t \<notin> set (timers (pt s q))" using hinv_other [OF h tin, of q] False by auto
    then show ?thesis by (intro pwf_cong [OF hinvD(1) [OF h]]) (use False in \<open>auto simp: pt2 tm2\<close>)
  qed
  moreover have "t_pp (tm s2 u) = Some q \<longleftrightarrow> u \<in> set (timers (pt s2 q))" for u q
    using hinvD(2) [OF h, of u q] s2 tm2 [of u] pt2 [of q] tp by (cases "q = p") auto
  moreover have "status_ok (tm s2 u)" for u
    using hinvD(3) [OF h, of u] tm2 [of u] tp by (auto simp: status_ok.simps)
  ultimately have h2: "hinv {} s2" by (simp add: hinv_def)
  have sc: "scount s2 q st' = scount s q st'" for q st'
  proof -
    have "(\<lambda>u. t_status (tm s2 u) = st') = (\<lambda>u. t_status (tm s u) = st')" using st by (auto simp: tm2 fun_eq_iff)
    then show ?thesis unfolding scount_def using m by (simp add: pt2)
  qed
  have "counters_ok s2" using c by (simp add: counters_ok_def sc pt2)
  moreover have "fires t now s s2"
    unfolding fires_def
  proof (intro conjI exI)
    show "deadline s t = Some (t_when (tm s t))" using st by (simp add: deadline_def dl_def)
    show "deadline s2 = (deadline s)(t := if 0 < t_period (tm s t) then Some ?nw else None)"
      using per by (simp add: fun_eq_iff deadline_def tm2 dl_def)
    show "calls s2 = calls s @ [(t_f (tm s t), t_arg (tm s t), t_seq (tm s t))]" "polls s2 = polls s"
      by (simp_all add: s2_def)
    show "\<forall>u. cb (tm s2 u) = cb (tm s u)" by (simp add: tm2 cb_def)
    show "\<forall>u. t_status (tm s2 u) = timerModifiedEarlier \<longrightarrow> t_status (tm s u) = timerModifiedEarlier" by (simp add: tm2)
  qed (rule now)
  ultimately show ?thesis using r h2 by (auto simp: tinv_def)
qed

lemma runOneTimer_once:
  assumes h: "hinv {} s" and c: "counters_ok s" and ne: "timers (pt s p) \<noteq> []" and t: "t = timers (pt s p) ! 0"
    and st: "t_status (tm s t) = timerWaiting" and now: "t_when (tm s t) \<le> now" and per: "\<not> t_period (tm s t) > 0"
  shows "\<exists>s2. runOneTimer p t now (set_status t timerRunning s) = Ret s2 \<and> tinv s2 \<and> fires t now s s2"
proof -
  have tin: "t \<in> set (timers (pt s p))" using ne t by simp
  obtain s1 where s1: "dodeltimer0 p (set_status t timerRunning s) = Ret s1"
    and o: "off p t ((tm s t)\<lparr>t_status := timerRunning\<rparr>) s s1" and h1: "hinv {t} s1"
    using dodeltimer0_off [OF h ne t, of "\<lambda>x. x\<lparr>t_status := timerRunning\<rparr>"] by auto
  let ?s1 = "set_status t timerNoStatus s1"
  let ?s2 = "?s1\<lparr>calls := calls s @ [(t_f (tm s t), t_arg (tm s t), t_seq (tm s t))]\<rparr>"
  have tm1: "tm ?s1 u = (if u = t then (tm s t)\<lparr>t_status := timerNoStatus, t_pp := None\<rparr> else tm s u)" for u
    using o by (simp add: off_def)
  have r: "runOneTimer p t now (set_status t timerRunning s) = Ret ?s2"
    using s1 per o by (simp add: runOneTimer_def Let_def off_def)
  have "hinv {t} ?s1" by (rule hinv_upd_t [OF h1]) (use o in \<open>auto simp: off_def\<close>)
  then have "hinv {} ?s1" by (rule hinv_release) (use o in \<open>simp add: off_def status_ok.simps\<close>)
  then have h2: "hinv {} ?s2" by (rule hinv_same) simp_all
  have tn: "t \<notin> set (timers (pt s1 q))" for q using not_on_heap [OF h1, of t q] by simp
  have sc: "scount ?s2 q st' = scount s1 q st'" for q st'
  proof -
    have "scount ?s2 q st' = scount ?s1 q st'" by (simp add: scount_def)
    then show ?thesis using scount_status [of t s1 _ q st'] tn by simp
  qed
  have dp: "deletedTimers (pt s1 q) = deletedTimers (pt s q)" "adjustTimers (pt s1 q) = adjustTimers (pt s q)" for q
    using o by (cases "q = p"; simp add: off_def)+
  have "counters_ok ?s2"
    using counters_okD [OF c] scount_off [OF h tin o] st by (simp add: counters_ok_def sc dp)
  moreover have "fires t now s ?s2"
    unfolding fires_def
  proof (intro conjI exI)
    show "deadline s t = Some (t_when (tm s t))" using st by (simp add: deadline_def dl_def)
    show "deadline ?s2 = (deadline s)(t := if 0 < t_period (tm s t) then
        Some (next_when (t_when (tm s t)) (t_period (tm s t)) now) else None)"
      using per tm1 by (auto simp: fun_eq_iff deadline_def dl_def simp del: upd_t_simps)
    show "\<forall>u. cb (tm ?s2 u) = cb (tm s u)" using tm1 by (simp add: cb_def del: upd_t_simps)
    show "\<forall>u. t_status (tm ?s2 u) = timerModifiedEarlier \<longrightarrow> t_status (tm s u) = timerModifiedEarlier"
      using tm1 by (simp del: upd_t_simps)
  qed (use now o in \<open>simp_all add: off_def\<close>)
  ultimately show ?thesis using r h2 by (auto simp: tinv_def)
qed

lemma settles_trans:
  "settles p s s2 \<Longrightarrow> quiet {} p s s2 \<Longrightarrow> settles p s2 s3 \<Longrightarrow> settles p s s3"
  by (simp add: settles_def quiet_def)

lemma quiet_fires:
  assumes q: "quiet {} p s s1" and f: "fires t now s1 s2"
  shows "fires t now s s2"
proof -
  have "deadline s1 = deadline s" "calls s1 = calls s" "polls s1 = polls s" "cb (tm s1 u) = cb (tm s u)"
      "t_status (tm s1 u) = timerModifiedEarlier \<longrightarrow> t_status (tm s u) = timerModifiedEarlier" for u
    using q by (auto simp: quiet_def)
  moreover from this(4) have "t_period (tm s1 t) = t_period (tm s t)" "t_f (tm s1 t) = t_f (tm s t)"
    "t_arg (tm s1 t) = t_arg (tm s t)" "t_seq (tm s1 t) = t_seq (tm s t)" by (simp_all add: cb_def)
  ultimately show ?thesis using f unfolding fires_def by metis
qed

text \<open>
  No timer of the heap of \<open>p\<close> is due before \<open>w\<close>, but perhaps one that was modified to run
  earlier and has not been moved yet.
\<close>

definition none_before :: "pid \<Rightarrow> int \<Rightarrow> tsys \<Rightarrow> bool" where
  "none_before p w s \<longleftrightarrow>
     (\<forall>u v. t_pp (tm s u) = Some p \<longrightarrow> deadline s u = Some v \<longrightarrow> t_status (tm s u) \<noteq> timerModifiedEarlier \<longrightarrow> w \<le> v)"

lemma none_before_settles:
  "settles p s s2 \<Longrightarrow> quiet {} p s s2 \<Longrightarrow> none_before p w s2 \<Longrightarrow> none_before p w s"
  by (simp add: none_before_def settles_def quiet_def) blast

lemma none_before_root:
  assumes h: "hinv {} s" and ne: "timers (pt s p) \<noteq> []"
  shows "none_before p (t_when (tm s (timers (pt s p) ! 0))) s"
  unfolding none_before_def
proof (intro allI impI)
  fix u v assume u: "t_pp (tm s u) = Some p" "deadline s u = Some v" "t_status (tm s u) \<noteq> timerModifiedEarlier"
  have "heapw (whens s) (timers (pt s p))" using hinvD(1) [OF h, of p] by (simp add: pwf_def)
  moreover have "u \<in> set (timers (pt s p))" using hinvD(2) [OF h] u(1) by blast
  ultimately have "whens s (timers (pt s p) ! 0) \<le> whens s u" by (rule heapw_root)
  moreover have "t_when (tm s u) \<le> v"
    using hinvD(3) [OF h, of u] u by (cases "t_status (tm s u)") (auto simp: status_ok.simps deadline_def dl_def)
  ultimately show "t_when (tm s (timers (pt s p) ! 0)) \<le> v" by (simp add: whens_def)
qed

text \<open>The three results of \<open>runtimer\<close>: no timer is left, none is due, one was run.\<close>

definition ran :: "pid \<Rightarrow> int \<Rightarrow> tsys \<Rightarrow> tsys \<Rightarrow> int \<Rightarrow> bool" where
  "ran p now s s2 r \<longleftrightarrow>
     r = - 1 \<and> timers (pt s2 p) = [] \<and> quiet {} p s s2 \<and> settles p s s2 \<or>
     r > now \<and> quiet {} p s s2 \<and> settles p s s2 \<and> timers (pt s2 p) \<noteq> [] \<and>
       (\<exists>t. deadline s t = Some r) \<and> none_before p r s \<and> none_before p r s2 \<or>
     r = 0 \<and> (\<exists>t w. deadline s t = Some w \<and> fires t now s s2 \<and> none_before p w s)"

lemma ran_quiet:
  assumes "settles p s s1" "quiet {} p s s1" "ran p now s1 s2 r"
  shows "ran p now s s2 r"
proof -
  have d: "deadline s1 = deadline s" using assms(2) by (auto simp: quiet_def)
  from assms show ?thesis
    unfolding ran_def d
    by (elim disjE conjE exE)
      (auto intro: quiet_trans [OF assms(2)] settles_trans [OF assms(1,2)] none_before_settles [OF assms(1,2)]
        quiet_fires [OF assms(2)])
qed

lemma settles_refl: "settles p s s"
  by (simp add: settles_def)

lemma runtimer_ran:
  "tinv s \<Longrightarrow> timers (pt s p) \<noteq> [] \<Longrightarrow> \<exists>s2 r. runtimer p now s = Ret (s2, r) \<and> tinv s2 \<and> ran p now s s2 r"
proof (induction p now s rule: runtimer.induct)
  case (1 p now s)
  let ?t = "timers (pt s p) ! 0"
  have h: "hinv {} s" and c: "counters_ok s" using 1(3) by (simp_all add: tinv_def)
  note ne = 1(4)
  have tp: "t_pp (tm s ?t) = Some p" using hinvD(2) [OF h] ne by simp
  have so: "status_ok (tm s ?t)" using hinvD(3) [OF h] by simp
  consider "t_status (tm s ?t) = timerWaiting" | "t_status (tm s ?t) = timerDeleted"
    | "t_status (tm s ?t) = timerModifiedEarlier \<or> t_status (tm s ?t) = timerModifiedLater"
    using so tp by (cases "t_status (tm s ?t)") (simp_all add: status_ok.simps)
  then show ?case
  proof cases
    case st: 1
    have dt: "deadline s ?t = Some (t_when (tm s ?t))" using st by (simp add: deadline_def dl_def)
    show ?thesis
    proof (cases "t_when (tm s ?t) > now")
      case True
      have "ran p now s s (t_when (tm s ?t))"
        using none_before_root [OF h ne] dt True ne by (auto simp: ran_def quiet_refl settles_refl)
      with True ne tp st \<open>tinv s\<close> show ?thesis by (subst runtimer.simps) simp
    next
      case False
      then have now: "t_when (tm s ?t) \<le> now" by simp
      obtain s2 where s2: "runOneTimer p ?t now (set_status ?t timerRunning s) = Ret s2" "tinv s2" "fires ?t now s s2"
        using runOneTimer_periodic [OF h c ne refl st now] runOneTimer_once [OF h c ne refl st now] by blast
      have "ran p now s s2 0" using s2(3) dt none_before_root [OF h ne] by (auto simp: ran_def)
      with False ne tp st s2 show ?thesis by (subst runtimer.simps) simp
    qed
  next
    case st: 2
    obtain s1 where s1: "remove_deleted p ?t s = Ret s1" "hinv {} s1" "counters_ok s1" "quiet {} p s s1"
      using remove_deleted_spec [OF h c ne refl st] by blast
    have se: "settles p s s1" by (rule remove_deleted_settles [OF s1(1) st])
    have i1: "tinv s1" using s1 by (simp add: tinv_def)
    show ?thesis
    proof (cases "timers (pt s1 p) = []")
      case True
      then have "ran p now s s1 (- 1)" using s1(4) se by (simp add: ran_def)
      with True ne tp st s1(1) i1 show ?thesis by (subst runtimer.simps) simp
    next
      case False
      obtain s2 r where s2: "runtimer p now s1 = Ret (s2, r)" "tinv s2" "ran p now s1 s2 r"
        using 1(1) [OF ne refl refl _ _ st s1(1) False i1 False] tp st by auto
      with False ne tp st s1(1) ran_quiet [OF se s1(4) s2(3)] show ?thesis by (subst runtimer.simps) simp
    qed
  next
    case st: 3
    obtain s1 where s1: "move_modified p ?t (t_status (tm s ?t)) s = Ret s1" "hinv {} s1" "counters_ok s1" "quiet {} p s s1"
      "timers (pt s1 p) \<noteq> []"
      using move_modified_spec [OF h c ne refl st] by blast
    have se: "settles p s s1" by (rule move_modified_settles [OF s1(1)])
    have i1: "tinv s1" using s1 by (simp add: tinv_def)
    obtain s2 r where s2: "runtimer p now s1 = Ret (s2, r)" "tinv s2" "ran p now s1 s2 r"
      using 1(2) [OF ne refl refl _ _ _ st s1(1) i1 s1(5)] tp st by auto
    have "runtimer p now s = runtimer p now s1"
      using ne tp st s1(1) by (subst runtimer.simps) (auto simp: Let_def)
    with s2 ran_quiet [OF se s1(4) s2(3)] show ?thesis by simp
  qed
qed

end
