(* ===== verification/Timer_System.thy ===== *)
theory Timer_System
  imports Timer_Ops
begin

text \<open>
  The timers as a system: the loop of \<open>checkTimers\<close> ends, all sequences of operations keep the
  invariant, and each operation is an update of the map of deadlines.
\<close>

section \<open>The loop of checkTimers\<close>

lemma wrap64_id: "- (2 ^ 63) \<le> x \<Longrightarrow> x < 2 ^ 63 \<Longrightarrow> wrap64 x = x"
  by (simp add: wrap64_def)

text \<open>Without overflow, a periodic timer that was due is next due after \<open>now\<close>.\<close>

lemma next_when_later:
  assumes w: "0 \<le> w" "w \<le> now" and p: "0 < p" and n: "now + p < 2 ^ 63"
  shows "next_when w p now = w + p * (1 + (now - w) div p)"
    and "now < next_when w p now" and "next_when w p now \<le> now + p"
proof -
  let ?q = "(now - w) div p"
  have d: "wrap64 (w - now) = w - now" using w p n by (intro wrap64_id) auto
  have q: "goquot (now - w) p = ?q" using w p by (cases "w = now") (simp_all add: goquot_def)
  have m: "p * ?q \<le> now - w" "now - w < p * ?q + p"
    using mult_div_mod_eq [of p "now - w"] pos_mod_bound [OF p, of "now - w"] pos_mod_sign [OF p, of "now - w"] by linarith+
  have "0 \<le> p * ?q" using w p by (simp add: pos_imp_zdiv_nonneg_iff)
  then have "wrap64 (w + p * (1 + ?q)) = w + p * (1 + ?q)"
    using m w p n by (intro wrap64_id) (auto simp: algebra_simps)
  then show e: "next_when w p now = w + p * (1 + ?q)" by (simp add: next_when_def d q Let_def)
  show "now < next_when w p now" "next_when w p now \<le> now + p" unfolding e using m by (auto simp: algebra_simps)
qed

definition no_wrap :: "int \<Rightarrow> tsys \<Rightarrow> bool" where
  "no_wrap now s \<longleftrightarrow>
     (\<forall>t w. deadline s t = Some w \<longrightarrow> 0 \<le> w) \<and> (\<forall>t. 0 < t_period (tm s t) \<longrightarrow> now + t_period (tm s t) < 2 ^ 63)"

definition due_set :: "int \<Rightarrow> tsys \<Rightarrow> tid set" where
  "due_set now s = {u. \<exists>v\<le>now. deadline s u = Some v}"

lemma fires_due:
  assumes f: "fires t now s s2" and nw: "no_wrap now s" and z: "0 \<le> now"
  shows "no_wrap now s2 \<and> due_set now s2 \<subset> due_set now s"
proof -
  let ?p = "t_period (tm s t)"
  obtain w where w: "deadline s t = Some w" "w \<le> now"
    and d: "deadline s2 = (deadline s)(t := if ?p > 0 then Some (next_when w ?p now) else None)"
    using f by (auto simp: fires_def)
  have w0: "0 \<le> w" using nw w(1) by (simp add: no_wrap_def)
  have per: "t_period (tm s2 u) = t_period (tm s u)" for u using f by (simp add: fires_def cb_def)
  have later: "now < next_when w ?p now" if "0 < ?p"
    by (rule next_when_later(2) [OF w0 w(2) that]) (use nw that in \<open>simp add: no_wrap_def\<close>)
  have "no_wrap now s2"
    unfolding no_wrap_def d per using nw later z by (auto simp: no_wrap_def)
  moreover have "t \<in> due_set now s" using w by (auto simp: due_set_def)
  moreover have "t \<notin> due_set now s2" using later by (auto simp: due_set_def d)
  moreover have "u \<in> due_set now s" if "u \<in> due_set now s2" for u
    using that w by (auto simp: due_set_def d split: if_splits)
  ultimately show ?thesis by blast
qed

text \<open>What running timers does, besides the calls.\<close>

definition looped :: "pid \<Rightarrow> int \<Rightarrow> tsys \<Rightarrow> bool \<Rightarrow> tsys \<Rightarrow> int \<Rightarrow> bool \<Rightarrow> bool" where
  "looped p now s fired s2 poll res \<longleftrightarrow>
     tinv s2 \<and> none_before p (now + 1) s2 \<and>
     (timers (pt s2 p) = [] \<and> poll = 0 \<or> poll > now \<and> none_before p poll s2) \<and>
     (\<exists>cs. calls s2 = calls s @ cs \<and> (res \<longleftrightarrow> fired \<or> cs \<noteq> [])) \<and>
     (\<forall>u. t_status (tm s2 u) = timerModifiedEarlier \<longrightarrow> t_status (tm s u) = timerModifiedEarlier)"

lemma none_before_empty: "tinv s \<Longrightarrow> timers (pt s p) = [] \<Longrightarrow> none_before p w s"
  using hinvD(2) [of "{}" s _ p] by (simp add: none_before_def tinv_def)

lemma run_loop_spec:
  assumes z: "0 \<le> now"
  shows "finite (due_set now s) \<Longrightarrow> tinv s \<Longrightarrow> no_wrap now s \<Longrightarrow>
    \<exists>s2 poll r. run_loop p now fired s = Some (Ret (s2, poll, r)) \<and> looped p now s fired s2 poll r"
proof (induction "card (due_set now s)" arbitrary: s fired rule: less_induct)
  case ih: less
  show ?case
  proof (cases "timers (pt s p) = []")
    case True
    then have "looped p now s fired s 0 fired"
      using ih(3) none_before_empty [OF ih(3) True] by (auto simp: looped_def)
    with True show ?thesis by (subst run_loop.simps) simp
  next
    case False
    obtain s1 r where s1: "runtimer p now s = Ret (s1, r)" "tinv s1" "ran p now s s1 r"
      using runtimer_ran [OF ih(3) False] by blast
    from s1(3) consider (none) "r = - 1" "timers (pt s1 p) = []" "quiet {} p s s1"
      | (wait) "r > now" "quiet {} p s s1" "none_before p r s1"
      | (fire) t where "r = 0" "fires t now s s1" unfolding ran_def by blast
    then show ?thesis
    proof cases
      case none
      have "looped p now s fired s1 0 fired"
        using none s1(2) none_before_empty [OF s1(2) none(2)] by (auto simp: looped_def quiet_def)
      with False none s1(1) show ?thesis by (subst run_loop.simps) simp
    next
      case wait
      have "none_before p (now + 1) s1" using wait(1,3) by (fastforce simp: none_before_def)
      then have "looped p now s fired s1 r fired" using wait s1(2) by (auto simp: looped_def quiet_def)
      moreover have "r \<noteq> 0" "r > 0" using wait(1) z by auto
      ultimately show ?thesis using False s1(1) by (subst run_loop.simps) simp
    next
      case fire
      from fires_due [OF fire(2) ih(4) z] have nw: "no_wrap now s1" and sub: "due_set now s1 \<subset> due_set now s" by auto
      have fin: "finite (due_set now s1)" using sub ih(2) finite_subset by blast
      obtain s2 poll r2 where s2: "run_loop p now True s1 = Some (Ret (s2, poll, r2))" "looped p now s1 True s2 poll r2"
        using ih(1) [OF psubset_card_mono [OF ih(2) sub] fin s1(2) nw] by blast
      have "looped p now s fired s2 poll r2"
        using s2(2) fire(2) unfolding looped_def fires_def by auto
      moreover have "run_loop p now fired s = run_loop p now True s1"
        using False s1(1) fire(1) by (subst run_loop.simps) simp
      ultimately show ?thesis using s2(1) by auto
    qed
  qed
qed

lemma looped_late:
  assumes l: "looped p now s False s2 poll r" and q: "quiet {} p s0 s"
    and u: "t_pp (tm s2 u) = Some p" "deadline s2 u = Some v" "v \<le> now"
  shows "t_status (tm s0 u) = timerModifiedEarlier"
proof -
  have "t_status (tm s2 u) = timerModifiedEarlier"
    using l u by (force simp: looped_def none_before_def)
  then show ?thesis using l q by (simp add: looped_def quiet_def)
qed

definition late_only :: "pid \<Rightarrow> int \<Rightarrow> tsys \<Rightarrow> tsys \<Rightarrow> bool" where
  "late_only p now s s2 \<longleftrightarrow>
     (\<forall>u v. t_pp (tm s2 u) = Some p \<longrightarrow> deadline s2 u = Some v \<longrightarrow> v \<le> now \<longrightarrow> t_status (tm s u) = timerModifiedEarlier)"

definition checked :: "pid \<Rightarrow> int \<Rightarrow> tsys \<Rightarrow> tsys \<Rightarrow> bool \<Rightarrow> bool" where
  "checked p now s s2 r \<longleftrightarrow>
     tinv s2 \<and> (\<exists>cs. calls s2 = calls s @ cs \<and> (r \<longleftrightarrow> cs \<noteq> [])) \<and> late_only p now s s2"

lemma clear_checked:
  assumes c: "checked p now s s2 r" and l: "clearDeletedTimers p s2 = Ret s3"
  shows "checked p now s s3 r"
proof -
  have i: "tinv s2" using c by (simp add: checked_def)
  have s3: "tinv s3" "quiet {} p s2 s3" "set (timers (pt s3 p)) \<subseteq> set (timers (pt s2 p))"
    using clearDeletedTimers_spec [OF i, of p] l by auto
  have pp: "t_pp (tm s3 u) = Some p \<Longrightarrow> t_pp (tm s2 u) = Some p" for u
    using hinvD(2) [of "{}" s3 u p] hinvD(2) [of "{}" s2 u p] s3 i by (auto simp: tinv_def)
  have "deadline s3 u = deadline s2 u" "calls s3 = calls s2" for u using s3(2) by (simp_all add: quiet_def)
  with c pp s3(1) show ?thesis unfolding checked_def late_only_def by metis
qed

lemma check_skip_late:
  assumes i: "tinv s" and sk: "check_skip p cur now nano s = Some r"
    and z: "timer0When (pt s p) = 0 \<longrightarrow> timers (pt s p) = []" and nn: "now' = (if now = 0 then nano else now)"
  shows "none_before p (now' + 1) s"
proof (cases "timers (pt s p) = []")
  case True
  then show ?thesis by (rule none_before_empty [OF i])
next
  case False
  have h: "hinv {} s" using i by (simp add: tinv_def)
  have "timer0When (pt s p) = t_when (tm s (timers (pt s p) ! 0))"
    using hinvD(1) [OF h, of p] False by (simp add: pwf_def first_when_def whens_def)
  then have "now' < t_when (tm s (timers (pt s p) ! 0))"
    using sk z False nn by (auto simp: check_skip_def Let_def split: if_splits)
  then show ?thesis using none_before_root [OF h False] by (fastforce simp: none_before_def)
qed

lemma checkTimers_eq:
  assumes "check_skip p cur now nano s = None" "adjusttimers p s = Ret s1"
    and rn: "rn = (let now = (if adjustTimers (pt s p) = 0 \<and> now = 0 then nano else now) in
      if timers (pt s1 p) \<noteq> [] \<and> now = 0 then nano else now)"
    and r: "run_loop p rn False s1 = Some (Ret (s2, poll, r))"
  shows "checkTimers p cur now nano s = Some (if cur \<and> deletedTimers (pt s2 p) > int (length (timers (pt s2 p)) div 4)
      then obind (clearDeletedTimers p s2) (\<lambda>s. Ret (s, rn, poll, r)) else Ret (s2, rn, poll, r))"
  unfolding checkTimers_def assms(1,2) Let_def option.case outcome.case rn [unfolded Let_def, symmetric] r
  by simp

lemma checkTimers_checked:
  assumes i: "tinv s" and f: "finite (due_set now' s)" and nw: "no_wrap now' s"
    and z: "timer0When (pt s p) = 0 \<longrightarrow> timers (pt s p) = []"
    and nn: "now' = (if now = 0 then nano else now)" "0 < now'"
  shows "\<exists>s2 rnow poll r. checkTimers p cur now nano s = Some (Ret (s2, rnow, poll, r)) \<and> checked p now' s s2 r"
proof (cases "check_skip p cur now nano s")
  case (Some q)
  have "checked p now' s s False"
    using check_skip_late [OF i Some z nn(1)] i by (fastforce simp: checked_def late_only_def none_before_def)
  then show ?thesis using Some by (cases q) (auto simp: checkTimers_def)
next
  case None
  obtain s1 where s1: "adjusttimers p s = Ret s1" "tinv s1" "quiet {} p s s1" using adjusttimers_spec [OF i] by blast
  have "deadline s1 = deadline s" "calls s1 = calls s" "t_period (tm s1 u) = t_period (tm s u)" for u
    using s1(3) by (auto simp: quiet_def cb_def)
  then have f1: "finite (due_set now' s1)" and nw1: "no_wrap now' s1" and c1: "calls s1 = calls s"
    using f nw by (simp_all add: due_set_def no_wrap_def)
  let ?now = "if adjustTimers (pt s p) = 0 \<and> now = 0 then nano else now"
  define rn where "rn = (let now = ?now in if timers (pt s1 p) \<noteq> [] \<and> now = 0 then nano else now)"
  obtain s2 poll r where s2: "run_loop p rn False s1 = Some (Ret (s2, poll, r))" and c2: "checked p now' s s2 r"
  proof (cases "timers (pt s1 p) = []")
    case True
    then have r: "run_loop p rn False s1 = Some (Ret (s1, 0, False))" by (subst run_loop.simps) simp
    have "checked p now' s s1 False"
      using none_before_empty [OF s1(2) True, of "now' + 1"] hinvD(2) [of "{}" s1 _ p] s1(2) True c1
      by (auto simp: checked_def late_only_def tinv_def)
    with r that show ?thesis by blast
  next
    case False
    then have e: "rn = now'" using nn by (auto simp: rn_def Let_def)
    obtain s2 poll r where s2: "run_loop p now' False s1 = Some (Ret (s2, poll, r))" "looped p now' s1 False s2 poll r"
      using run_loop_spec [OF less_imp_le [OF nn(2)] f1 s1(2) nw1] by blast
    have "checked p now' s s2 r"
      using s2(2) looped_late [OF s2(2) s1(3)] c1 by (auto simp: checked_def looped_def late_only_def)
    with s2(1) that show ?thesis unfolding e by blast
  qed
  have i2: "tinv s2" using c2 by (simp add: checked_def)
  obtain s3 where s3: "clearDeletedTimers p s2 = Ret s3" using clearDeletedTimers_spec [OF i2] by blast
  note e = checkTimers_eq [OF None s1(1) rn_def s2]
  show ?thesis
  proof (cases "cur \<and> deletedTimers (pt s2 p) > int (length (timers (pt s2 p)) div 4)")
    case True
    then have "checkTimers p cur now nano s = Some (Ret (s3, rn, poll, r))" unfolding e using s3 by simp
    with clear_checked [OF c2 s3] show ?thesis by blast
  next
    case False
    then have "checkTimers p cur now nano s = Some (Ret (s2, rn, poll, r))" unfolding e by auto
    with c2 show ?thesis by blast
  qed
qed

section \<open>All sequences of operations\<close>

datatype timer_op =
    Start_timer bool pid tid
  | Stop_timer tid
  | Modify_timer pid tid int int callback nat nat
  | Clean_timers bool pid
  | Adjust_timers pid
  | Clear_timers pid
  | Run_timer pid int

fun timer_exec :: "timer_op \<Rightarrow> tsys \<Rightarrow> tsys outcome" where
  "timer_exec (Start_timer pre p t) s = startTimer pre p t s"
| "timer_exec (Stop_timer t) s = obind (stopTimer t s) (\<lambda>(s, b). Ret s)"
| "timer_exec (Modify_timer p t w d f a q) s = obind (modtimer p t w d f a q s) (\<lambda>(s, b). Ret s)"
| "timer_exec (Clean_timers pre p) s = cleantimers pre p s"
| "timer_exec (Adjust_timers p) s = adjusttimers p s"
| "timer_exec (Clear_timers p) s = clearDeletedTimers p s"
| "timer_exec (Run_timer p now) s = obind (runtimer p now s) (\<lambda>(s, r). Ret s)"

text \<open>The callers start a timer once, and call \<open>runtimer\<close> only when there are timers.\<close>

fun timer_ready :: "timer_op \<Rightarrow> tsys \<Rightarrow> bool" where
  "timer_ready (Start_timer pre p t) s = (t_status (tm s t) = timerNoStatus)"
| "timer_ready (Run_timer p now) s = (timers (pt s p) \<noteq> [])"
| "timer_ready op s = True"

text \<open>
  Initially no timer is in use; the fields of a timer not in use can be set at will.
\<close>

inductive timer_reach :: "tsys \<Rightarrow> bool" where
  init: "(\<And>t. t_status (tm s t) = timerNoStatus \<and> t_pp (tm s t) = None) \<Longrightarrow>
    (\<And>p. pt s p = \<lparr>timers = [], timer0When = 0, numTimers = 0, adjustTimers = 0, deletedTimers = 0\<rparr>) \<Longrightarrow> timer_reach s"
| fields: "timer_reach s \<Longrightarrow> t_status (tm s t) = timerNoStatus \<Longrightarrow>
    timer_reach (upd_t t (\<lambda>x. x\<lparr>t_when := w, t_period := d, t_f := f, t_arg := a, t_seq := q\<rparr>) s)"
| step: "timer_reach s \<Longrightarrow> timer_ready op s \<Longrightarrow> timer_exec op s = Ret s2 \<Longrightarrow> timer_reach s2"

definition rinv :: "tsys \<Rightarrow> bool" where
  "rinv s \<longleftrightarrow> tinv s \<and> finite (dom (deadline s))"

lemma rinv_init:
  assumes "\<And>t. t_status (tm s t) = timerNoStatus \<and> t_pp (tm s t) = None"
    "\<And>p. pt s p = \<lparr>timers = [], timer0When = 0, numTimers = 0, adjustTimers = 0, deletedTimers = 0\<rparr>"
  shows "rinv s"
proof -
  have "deadline s = Map.empty" using assms(1) by (simp add: deadline_def dl_def fun_eq_iff)
  then show ?thesis
    using assms by (simp add: rinv_def tinv_def hinv_def pwf_def heapw_def heap_on_def status_ok.simps
        counters_ok_def scount_def first_when_def)
qed

lemma rinv_fields:
  assumes r: "rinv s" and st: "t_status (tm s t) = timerNoStatus"
  shows "rinv (upd_t t (\<lambda>x. x\<lparr>t_when := w, t_period := d, t_f := f, t_arg := a, t_seq := q\<rparr>) s)" (is "rinv ?s")
proof -
  have H: "hinv {} s" "counters_ok s" using r by (simp_all add: rinv_def tinv_def)
  have tp: "t_pp (tm s t) = None" using hinvD(3) [OF H(1), of t] st by (simp add: status_ok.simps)
  have h: "hinv {t} s" using hinv_take [OF H(1) tp] .
  have "hinv {t} ?s" by (rule hinv_upd_t [OF h]) (use tp in auto)
  then have "hinv {} ?s" by (rule hinv_release) (use st tp in \<open>simp add: status_ok.simps\<close>)
  moreover have "counters_ok ?s" by (rule counters_ok_upd [OF h _ H(2)]) simp
  moreover have "deadline ?s = deadline s" using st by (auto simp: fun_eq_iff deadline_def dl_def)
  ultimately show ?thesis using r by (simp add: rinv_def tinv_def)
qed

lemma quiet_deadline: "quiet X p s s2 \<Longrightarrow> deadline s2 = deadline s"
  by (auto simp: quiet_def)

lemma ran_dom:
  assumes "ran p now s s2 r" "finite (dom (deadline s))"
  shows "finite (dom (deadline s2))"
proof -
  from assms(1) consider "deadline s2 = deadline s" | t where "fires t now s s2"
    unfolding ran_def by (auto dest: quiet_deadline)
  then show ?thesis using assms(2) by cases (auto simp: fires_def)
qed

lemma timer_exec_ok:
  assumes r: "rinv s" and rd: "timer_ready op s"
  shows "\<exists>s2. timer_exec op s = Ret s2 \<and> rinv s2"
proof -
  have i: "tinv s" and f: "finite (dom (deadline s))" using r by (simp_all add: rinv_def)
  have H: "hinv {} s" "counters_ok s" using i by (simp_all add: tinv_def)
  show ?thesis
  proof (cases op)
    case (Start_timer pre p t)
    then show ?thesis using addtimer_spec [OF i, of t pre p] rd f by (auto simp: rinv_def startTimer_def)
  next
    case (Stop_timer t)
    then show ?thesis using deltimer_spec [OF i, of t] f by (auto simp: rinv_def stopTimer_def)
  next
    case (Modify_timer p t w d g a q)
    then show ?thesis using modtimer_spec [OF i, of p t w d g a q] f by (auto simp: rinv_def armed_def)
  next
    case (Clean_timers pre p)
    then show ?thesis
      using cleantimers_spec [OF H, of pre p] f by (auto simp: rinv_def tinv_def dest!: quiet_deadline)
  next
    case (Adjust_timers p)
    then show ?thesis using adjusttimers_spec [OF i, of p] f by (auto simp: rinv_def dest!: quiet_deadline)
  next
    case (Clear_timers p)
    then show ?thesis using clearDeletedTimers_spec [OF i, of p] f by (auto simp: rinv_def dest!: quiet_deadline)
  next
    case (Run_timer p now)
    then show ?thesis using runtimer_ran [OF i, of p now] rd f ran_dom by (fastforce simp: rinv_def)
  qed
qed

lemma reach_rinv: "timer_reach s \<Longrightarrow> rinv s"
proof (induction rule: timer_reach.induct)
  case (init s)
  then show ?case by (rule rinv_init)
next
  case (fields s t w d f a q)
  then show ?case by (intro rinv_fields)
next
  case (step s op s2)
  then show ?case using timer_exec_ok [of s op] by auto
qed

lemma reach_tinv: "timer_reach s \<Longrightarrow> tinv s"
  using reach_rinv by (simp add: rinv_def)

fun run_ops :: "timer_op list \<Rightarrow> tsys \<Rightarrow> tsys outcome" where
  "run_ops [] s = Ret s"
| "run_ops (op # ops) s = (if timer_ready op s then obind (timer_exec op s) (run_ops ops) else Spin)"

lemma run_ops_reach: "timer_reach s \<Longrightarrow> run_ops ops s = Ret s2 \<Longrightarrow> timer_reach s2"
  by (induction ops arbitrary: s) (auto simp: obind_eq_Ret split: if_splits intro: timer_reach.step)

text \<open>A runtime whose timers are not in use.\<close>

definition idle :: tsys where
  "idle = \<lparr>tm = (\<lambda>t. \<lparr>t_pp = None, t_when = 0, t_period = 0, t_f = 0, t_arg = 0, t_seq = 0, t_nextwhen = 0,
       t_status = timerNoStatus\<rparr>),
     pt = (\<lambda>p. \<lparr>timers = [], timer0When = 0, numTimers = 0, adjustTimers = 0, deletedTimers = 0\<rparr>),
     calls = [], polls = []\<rparr>"

lemma idle_reach: "timer_reach idle"
  by (rule timer_reach.init) (simp_all add: idle_def)

section \<open>Properties\<close>

text \<open>C17. In every state that operations on timers can reach, every operation returns: no check of
  the code throws, no index is out of range and no loop waits; and the invariant of the heaps, of
  the statuses and of the counters holds again.\<close>

theorem timers_never_fail:
  assumes "timer_reach s" "timer_ready op s"
  shows "\<exists>s2. timer_exec op s = Ret s2 \<and> tinv s2"
  using timer_exec_ok [OF reach_rinv [OF assms(1)] assms(2)] by (auto simp: rinv_def)

theorem timers_never_fail_witness: "\<exists>s2. timer_exec (Start_timer False 0 7) idle = Ret s2 \<and> tinv s2"
  by (rule timers_never_fail [OF idle_reach]) (simp add: idle_def)

text \<open>C18. Stopping, modifying and resetting a timer are updates of the map of deadlines; the
  result says whether the timer was pending.  A negative time counts as the greatest one.\<close>

theorem timer_ops_refine:
  assumes "timer_reach s"
  shows "(\<exists>s2. stopTimer t s = Ret (s2, deadline s t \<noteq> None) \<and> deadline s2 = (deadline s)(t := None) \<and> calls s2 = calls s)
    \<and> (\<exists>s2. modtimer p t w d f a q s = Ret (s2, deadline s t \<noteq> None) \<and>
          deadline s2 = (deadline s)(t \<mapsto> (if w < 0 then maxWhen else w)) \<and>
          t_period (tm s2 t) = d \<and> t_f (tm s2 t) = f \<and> t_arg (tm s2 t) = a \<and> t_seq (tm s2 t) = q \<and> calls s2 = calls s)
    \<and> (\<exists>s2. resettimer p t w s = Ret (s2, deadline s t \<noteq> None) \<and>
          deadline s2 = (deadline s)(t \<mapsto> (if w < 0 then maxWhen else w)) \<and> calls s2 = calls s)"
proof -
  have i: "tinv s" by (rule reach_tinv [OF assms])
  show ?thesis
    using deltimer_spec [OF i, of t] modtimer_spec [OF i, of p t w d f a q]
      modtimer_spec [OF i, of p t w "t_period (tm s t)" "t_f (tm s t)" "t_arg (tm s t)" "t_seq (tm s t)"]
    by (fastforce simp: stopTimer_def resettimer_def Let_def armed_def cb_def due_def)
qed

theorem timer_ops_refine_witness:
  "\<exists>s2. stopTimer 3 idle = Ret (s2, deadline idle 3 \<noteq> None) \<and> deadline s2 = (deadline idle)(3 := None) \<and> calls s2 = calls idle"
  using timer_ops_refine [OF idle_reach, of 3] by blast

text \<open>\<open>startTimer\<close> throws exactly on a timer that is in use; otherwise the timer is armed, all
  other deadlines stay and the network poller is woken.\<close>

theorem startTimer_arms:
  assumes "timer_reach s"
  shows "if t_status (tm s t) = timerNoStatus
    then \<exists>s2. startTimer pre p t s = Ret s2 \<and> deadline s2 = (deadline s)(t \<mapsto> due (t_when (tm s t))) \<and>
      polls s2 = polls s @ [due (t_when (tm s t))]
    else startTimer pre p t s = Throw ''addtimer called with initialized timer''"
proof (cases "t_status (tm s t) = timerNoStatus")
  case True
  with addtimer_spec [OF reach_tinv [OF assms] True, of pre p] show ?thesis by (auto simp: startTimer_def)
next
  case False
  then show ?thesis by (simp add: startTimer_def addtimer_def Let_def)
qed

theorem startTimer_arms_witness:
  "\<exists>s2. startTimer False 0 3 idle = Ret s2 \<and> deadline s2 = (deadline idle)(3 \<mapsto> due 0) \<and> polls s2 = [due 0]"
  using startTimer_arms [OF idle_reach, of 3 False 0] by (simp add: idle_def)

text \<open>C21. Cleaning, adjusting and clearing keep every deadline and make no call; after
  \<open>clearDeletedTimers\<close> the heap holds exactly the timers that were not deleted.\<close>

theorem maintenance_keeps_deadlines:
  assumes "timer_reach s"
  shows "(\<exists>s2. cleantimers pre p s = Ret s2 \<and> deadline s2 = deadline s \<and> calls s2 = calls s)
    \<and> (\<exists>s2. adjusttimers p s = Ret s2 \<and> deadline s2 = deadline s \<and> calls s2 = calls s)
    \<and> (\<exists>s2. clearDeletedTimers p s = Ret s2 \<and> deadline s2 = deadline s \<and> calls s2 = calls s \<and>
         set (timers (pt s2 p)) = {t \<in> set (timers (pt s p)). deadline s t \<noteq> None})"
proof -
  have i: "tinv s" by (rule reach_tinv [OF assms])
  have H: "hinv {} s" "counters_ok s" using i by (simp_all add: tinv_def)
  have d: "t_status (tm s t) \<noteq> timerDeleted \<longleftrightarrow> deadline s t \<noteq> None" if "t \<in> set (timers (pt s p))" for t
    using hinvD(3) [OF H(1), of t] hinvD(2) [OF H(1), of t p] that
    by (cases "t_status (tm s t)") (auto simp: status_ok.simps deadline_def dl_def)
  have e: "{t \<in> set (timers (pt s p)). t_status (tm s t) \<noteq> timerDeleted} = {t \<in> set (timers (pt s p)). deadline s t \<noteq> None}"
    using d by blast
  obtain s1 where "cleantimers pre p s = Ret s1" "quiet {} p s s1" using cleantimers_spec [OF H, of pre p] by blast
  moreover obtain s2 where "adjusttimers p s = Ret s2" "quiet {} p s s2" using adjusttimers_spec [OF i, of p] by blast
  moreover obtain s3 where "clearDeletedTimers p s = Ret s3" "quiet {} p s s3"
    "set (timers (pt s3 p)) = {t \<in> set (timers (pt s p)). t_status (tm s t) \<noteq> timerDeleted}"
    using clearDeletedTimers_spec [OF i, of p] by blast
  ultimately show ?thesis unfolding e by (auto simp: quiet_def)
qed

theorem maintenance_keeps_deadlines_witness:
  "\<exists>s2. adjusttimers 0 idle = Ret s2 \<and> deadline s2 = deadline idle \<and> calls s2 = calls idle"
  using maintenance_keeps_deadlines [OF idle_reach] by blast

text \<open>A one-shot timer due at 5 and a periodic one due at 3.\<close>

definition two_timers :: tsys where
  "two_timers = (case run_ops [Modify_timer 0 1 5 0 11 0 0, Modify_timer 0 2 3 10 12 0 0] idle of Ret s \<Rightarrow> s | _ \<Rightarrow> idle)"

lemma two_timers_run: "run_ops [Modify_timer 0 1 5 0 11 0 0, Modify_timer 0 2 3 10 12 0 0] idle = Ret two_timers"
proof -
  have "is_ret (run_ops [Modify_timer 0 1 5 0 11 0 0, Modify_timer 0 2 3 10 12 0 0] idle)" by code_simp
  then show ?thesis
    unfolding two_timers_def by (cases "run_ops [Modify_timer 0 1 5 0 11 0 0, Modify_timer 0 2 3 10 12 0 0] idle") auto
qed

lemma two_timers_reach: "timer_reach two_timers"
  by (rule run_ops_reach [OF idle_reach two_timers_run])

lemma two_timers_facts:
  "timers (pt two_timers 0) = [2, 1]" "deadline two_timers 2 = Some 3" "deadline two_timers 1 = Some 5"
  "timer0When (pt two_timers 0) = 3" 
  by code_simp+

lemma two_timers_tm: "tm two_timers = (tm idle)
   (1 := \<lparr>t_pp = Some 0, t_when = 5, t_period = 0, t_f = 11, t_arg = 0, t_seq = 0, t_nextwhen = 0, t_status = timerWaiting\<rparr>,
    2 := \<lparr>t_pp = Some 0, t_when = 3, t_period = 10, t_f = 12, t_arg = 0, t_seq = 0, t_nextwhen = 0, t_status = timerWaiting\<rparr>)"
  unfolding two_timers_def
  by (simp add: idle_def modtimer_def mod_begin_def Let_def doaddtimer_eq)

text \<open>
  No timer of the heap of \<open>p\<close> is due before \<open>w\<close>, except timers that were modified to run earlier and
  are still at the place of their old time; \<open>adjustTimers\<close> counts these.
\<close>

definition none_sooner :: "pid \<Rightarrow> int \<Rightarrow> tsys \<Rightarrow> bool" where
  "none_sooner p w s \<longleftrightarrow>
     (\<forall>u v. t_pp (tm s u) = Some p \<longrightarrow> deadline s u = Some v \<longrightarrow> v < w \<longrightarrow>
        t_status (tm s u) = timerModifiedEarlier \<and> 0 < adjustTimers (pt s p))"

lemma none_before_sooner:
  assumes i: "tinv s" and n: "none_before p w s"
  shows "none_sooner p w s"
  unfolding none_sooner_def
proof (intro allI impI)
  fix u v assume u: "t_pp (tm s u) = Some p" "deadline s u = Some v" "v < w"
  then have st: "t_status (tm s u) = timerModifiedEarlier" using n unfolding none_before_def by force
  have "u \<in> set (timers (pt s p))" using i u(1) hinvD(2) [of "{}" s u p] by (simp add: tinv_def)
  then have "u \<in># filter_mset (\<lambda>t. t_status (tm s t) = timerModifiedEarlier) (mset (timers (pt s p)))" using st by simp
  then have "0 < scount s p timerModifiedEarlier" unfolding scount_def by (metis gr0I size_eq_0_iff_empty empty_iff set_mset_empty)
  then show "t_status (tm s u) = timerModifiedEarlier \<and> 0 < adjustTimers (pt s p)"
    using st i by (simp add: tinv_def counters_ok_def)
qed

text \<open>C19. \<open>runtimer\<close> returns -1 when no timer is left, the time of a timer that is not due yet when it ran
  none, and 0 when it ran one.  The timer it runs is armed and due, its callback is called once with its
  arguments, a one-shot timer is then idle and a periodic one armed again.  No timer of the heap was due
  before the one that it runs or names, with one exception: timers modified to run earlier that have not
  been moved to their new place yet, which \<open>adjusttimers\<close> is called for first; there is none when the
  counter \<open>adjustTimers\<close> is 0.\<close>

theorem runtimer_runs_due:
  assumes "timer_reach s" "timers (pt s p) \<noteq> []"
  shows "\<exists>s2 r. runtimer p now s = Ret (s2, r) \<and>
     (r = - 1 \<and> timers (pt s2 p) = [] \<and> deadline s2 = deadline s \<and> calls s2 = calls s \<or>
      r > now \<and> (\<exists>t. deadline s t = Some r) \<and> none_sooner p r s \<and> deadline s2 = deadline s \<and> calls s2 = calls s \<or>
      r = 0 \<and> (\<exists>t w. deadline s t = Some w \<and> w \<le> now \<and> none_sooner p w s \<and>
        calls s2 = calls s @ [(t_f (tm s t), t_arg (tm s t), t_seq (tm s t))] \<and>
        deadline s2 = (deadline s)(t := if t_period (tm s t) > 0 then Some (next_when w (t_period (tm s t)) now) else None)))"
proof -
  note i = reach_tinv [OF assms(1)]
  obtain s2 r where "runtimer p now s = Ret (s2, r)" "ran p now s s2 r"
    using runtimer_ran [OF i assms(2)] by blast
  then show ?thesis
    using none_before_sooner [OF i, of p] unfolding ran_def fires_def by (fastforce dest: quiet_deadline simp: quiet_def)
qed

theorem runtimer_runs_due_witness:
  "\<exists>s2 r. runtimer 0 4 two_timers = Ret (s2, r) \<and> (r = - 1 \<or> r > 4 \<or> r = 0 \<and> length (calls s2) = 1)"
proof -
  have "calls two_timers = []" by code_simp
  then show ?thesis using runtimer_runs_due [OF two_timers_reach, of 0 4] by (auto simp: two_timers_facts)
qed

text \<open>C20. \<open>checkTimers\<close> returns: without overflow of the clock its loop ends, although a periodic
  timer is armed again each time it runs; \<open>timer0When\<close> is taken to be 0 for an empty heap only, as its
  comment says.  It reports whether it made a call, and no timer of the
  heap is then due that was not modified to run earlier before the call.\<close>

theorem checkTimers_returns:
  assumes "timer_reach s" "now' = (if now = 0 then nano else now)" "0 < now'" "no_wrap now' s"
    "timer0When (pt s p) = 0 \<longrightarrow> timers (pt s p) = []"
  shows "\<exists>s2 rnow poll r cs. checkTimers p cur now nano s = Some (Ret (s2, rnow, poll, r)) \<and>
     calls s2 = calls s @ cs \<and> (r \<longleftrightarrow> cs \<noteq> []) \<and>
     (\<forall>u v. t_pp (tm s2 u) = Some p \<longrightarrow> deadline s2 u = Some v \<longrightarrow> v \<le> now' \<longrightarrow>
        t_status (tm s u) = timerModifiedEarlier)"
proof -
  have i: "tinv s" "finite (dom (deadline s))" using reach_rinv [OF assms(1)] by (simp_all add: rinv_def)
  have "finite (due_set now' s)" by (rule finite_subset [OF _ i(2)]) (auto simp: due_set_def)
  from checkTimers_checked [OF i(1) this assms(4,5,2,3), of cur] show ?thesis
    unfolding checked_def late_only_def by blast
qed

theorem checkTimers_returns_witness:
  "\<exists>s2 rnow poll r cs. checkTimers 0 True 0 4 two_timers = Some (Ret (s2, rnow, poll, r)) \<and>
     calls s2 = calls two_timers @ cs \<and> (r \<longleftrightarrow> cs \<noteq> [])"
proof -
  have "no_wrap 4 two_timers"
    by (auto simp: no_wrap_def deadline_def two_timers_tm idle_def dl_def)
  from checkTimers_returns [OF two_timers_reach _ _ this, of 0 4 0 True] show ?thesis
    by (auto simp: two_timers_facts)
qed

end
