(* ===== verification/Timer_Late.thy ===== *)
theory Timer_Late
  imports Timer_System
begin

text \<open>
  Behaviours that the comments of \<open>time.go\<close> do not promise: a timer modified to run earlier can be
  skipped by \<open>adjusttimers\<close> and then run late, \<open>timeSleepUntil\<close> can find a time but no P, and the next
  time of a periodic timer can wrap around.
\<close>

section \<open>Where the last element of the heap goes\<close>

text \<open>
  The loop of \<open>adjusttimers\<close> deletes an element in the middle of the heap, at its current index \<open>i\<close>; the
  last element is put in its place, and can move up from there, to an index the loop has passed.
\<close>

lemma siftup_loop_up:
  "siftup_loop w v t i = (t', j) \<Longrightarrow> i < length t \<Longrightarrow> w (t ! 0) \<le> v \<Longrightarrow>
    j \<le> i \<and> t' ! 0 = t ! 0 \<and> (0 < i \<longrightarrow> 0 < j) \<and> (0 < i \<longrightarrow> v < w (t ! ((i - 1) div 4)) \<longrightarrow> j < i)"
proof (induction w v t i rule: siftup_loop.induct)
  case (1 w v t i)
  let ?p = "(i - 1) div 4"
  show ?case
  proof (cases "i > 0 \<and> \<not> v \<ge> w (t ! ?p)")
    case True
    then have p: "?p < i" "?p \<noteq> 0" using 1(4) by (auto intro: ccontr)
    have "siftup_loop w v (t[i := t ! ?p]) ?p = (t', j)"
      using 1(2) True by (simp add: siftup_loop.simps [of w v t i] Let_def)
    from 1(1) [OF _ refl _ this] True p 1(3,4) show ?thesis by auto
  next
    case False
    then have "t' = t" "j = i" using 1(2) by (auto simp: siftup_loop.simps [of w v t i] Let_def split: if_splits)
    then show ?thesis using False by auto
  qed
qed

lemma siftdown_loop_down:
  "siftdown_loop w v t i = (t', j) \<Longrightarrow> i < length t \<Longrightarrow> i \<le> j \<and> (\<forall>k<i. t' ! k = t ! k)"
proof (induction w v t i rule: siftdown_loop.induct)
  case (1 w v t i)
  let ?c = "min_child w t i"
  show ?case
  proof (cases "i * 4 + 1 < length t \<and> \<not> w (t ! ?c) \<ge> v")
    case True
    then have c: "i < ?c" "?c < length t" using min_child_range [of i t w] by auto
    have "siftdown_loop w v (t[i := t ! ?c]) ?c = (t', j)"
      using 1(2) True by (simp add: siftdown_loop.simps [of w v t i])
    from 1(1) [OF _ _ this] True c show ?thesis by auto
  next
    case False
    then have "t' = t" "j = i" using 1(2) by (auto simp: siftdown_loop.simps [of w v t i] split: if_splits)
    then show ?thesis by simp
  qed
qed

lemma del_at_last_up:
  assumes n: "length ts = Suc n" and i: "0 < i" "i < n" and h: "w (ts ! 0) \<le> w (ts ! n)"
    and up: "w (ts ! n) < w (ts ! ((i - 1) div 4))"
  shows "del_at w ts i ! 0 = ts ! 0 \<and> (\<exists>j<i. del_at w ts i ! j = ts ! n)"
proof -
  let ?t = "take n (ts[i := ts ! n])"
  obtain t1 j where l1: "siftup_loop w (w (?t ! i)) ?t i = (t1, j)" by fastforce
  define u where "u = t1[j := ?t ! i]"
  obtain t2 k where l2: "siftdown_loop w (w (u ! i)) u i = (t2, k)" by fastforce
  have t: "length ?t = n" "?t ! i = ts ! n" "?t ! 0 = ts ! 0" "?t ! ((i - 1) div 4) = ts ! ((i - 1) div 4)"
    using n i by simp_all
  have 1: "j \<le> i" "t1 ! 0 = ts ! 0" "0 < j" "j < i" using siftup_loop_up [OF l1] h up i t by auto
  have lt: "length t1 = n" using siftup_loop_mset [OF _ l1] t(1) i by simp
  then have u: "length u = n" "u ! j = ts ! n" "u ! 0 = ts ! 0" using 1 i t(2) by (simp_all add: u_def)
  have 2: "i \<le> k" "\<forall>m<i. t2 ! m = u ! m" using siftdown_loop_down [OF l2] u(1) i by simp_all
  have "sup w ?t i = u" by (simp add: sup_def l1 u_def)
  moreover have "sdown w u i = t2[k := u ! i]" by (simp add: sdown_def l2)
  moreover have "del_at w ts i = sdown w (sup w ?t i) i" using n i by (simp add: del_at_def Let_def)
  ultimately have "del_at w ts i = t2[k := u ! i]" by (simp only:)
  then have "del_at w ts i ! m = u ! m" if "m < i" for m using that 2 by simp
  then show ?thesis using u 1 i by auto
qed

section \<open>The loop of adjusttimers passes it by\<close>

lemma adjust_loop_wait:
  "i \<le> k \<Longrightarrow> k \<le> length (timers (pt s p)) \<Longrightarrow>
    (\<And>m. i \<le> m \<Longrightarrow> m < k \<Longrightarrow> t_pp (tm s (timers (pt s p) ! m)) = Some p \<and> t_status (tm s (timers (pt s p) ! m)) = timerWaiting) \<Longrightarrow>
    adjust_loop p i mv s = adjust_loop p k mv s"
proof (induction "k - i" arbitrary: i)
  case (Suc d)
  have i: "i < k" "i < length (timers (pt s p))" using Suc.hyps(2) Suc.prems(2) by linarith+
  have w: "t_pp (tm s (timers (pt s p) ! i)) = Some p" "t_status (tm s (timers (pt s p) ! i)) = timerWaiting"
    using Suc.prems(3) [of i] i(1) by simp_all
  have "adjust_loop p i mv s = adjust_loop p (i + 1) mv s"
    using i(2) w by (subst adjust_loop.simps) (simp add: Let_def)
  also have "\<dots> = adjust_loop p k mv s" using Suc.hyps(2) Suc.prems i(1) by (intro Suc.hyps(1)) auto
  finally show ?case .
qed simp

text \<open>
  A heap with a deleted timer at index \<open>i\<close> and at its end a timer that was modified to run earlier, whose old time
  is before that of the parent of \<open>i\<close>; the other timers wait.
\<close>

definition late_heap :: "pid \<Rightarrow> tid list \<Rightarrow> nat \<Rightarrow> nat \<Rightarrow> tsys \<Rightarrow> bool" where
  "late_heap p ts n i s \<longleftrightarrow>
     timers (pt s p) = ts \<and> length ts = Suc n \<and> 0 < i \<and> i < n \<and>
     (\<forall>k\<le>n. t_status (tm s (ts ! k)) =
        (if k = i then timerDeleted else if k = n then timerModifiedEarlier else timerWaiting)) \<and>
     t_when (tm s (ts ! n)) < t_when (tm s (ts ! ((i - 1) div 4)))"

definition without :: "pid \<Rightarrow> nat \<Rightarrow> tsys \<Rightarrow> tsys" where
  "without p i s =
     (let t = timers (pt s p) ! i in
      upd_p p (\<lambda>x. x\<lparr>timers := del_at (whens s) (timers x) i, numTimers := numTimers x - 1, deletedTimers := deletedTimers x - 1\<rparr>)
        (upd_t t (\<lambda>x. x\<lparr>t_pp := None, t_status := timerRemoved\<rparr>) s))"

lemma adjust_loop_deleted:
  assumes "i < length (timers (pt s p))" "0 < i" "t_pp (tm s (timers (pt s p) ! i)) = Some p"
    "t_status (tm s (timers (pt s p) ! i)) = timerDeleted"
  shows "adjust_loop p i mv s = adjust_loop p i mv (without p i s)"
proof -
  let ?t = "timers (pt s p) ! i"
  have d: "dodeltimer p i (set_status ?t timerRemoving s) =
      Ret (upd_p p (\<lambda>x. x\<lparr>timers := del_at (whens s) (timers x) i, numTimers := numTimers x - 1\<rparr>)
        (upd_t ?t (\<lambda>x. x\<lparr>t_status := timerRemoving, t_pp := None\<rparr>) s))"
    using assms by (auto simp: dodeltimer_eq intro!: upd_p_cong)
  have "upd_p p (\<lambda>x. x\<lparr>deletedTimers := deletedTimers x - 1\<rparr>) (set_status ?t timerRemoved
      (upd_p p (\<lambda>x. x\<lparr>timers := del_at (whens s) (timers x) i, numTimers := numTimers x - 1\<rparr>)
        (upd_t ?t (\<lambda>x. x\<lparr>t_status := timerRemoving, t_pp := None\<rparr>) s))) = without p i s"
    by (simp add: without_def Let_def upd_p_def upd_t_def)
  then show ?thesis using assms d by (subst adjust_loop.simps) (simp add: Let_def)
qed

lemma late_heapD:
  assumes i: "tinv s" and l: "late_heap p ts n i s"
  shows "timers (pt s p) = ts" "length ts = Suc n" "0 < i" "i < n" "distinct ts" "whens s (ts ! 0) \<le> whens s (ts ! n)"
    "\<And>k. k \<le> n \<Longrightarrow> t_pp (tm s (ts ! k)) = Some p" "t_status (tm s (ts ! i)) = timerDeleted"
    "t_status (tm s (ts ! n)) = timerModifiedEarlier" "\<And>k. k \<le> n \<Longrightarrow> k \<noteq> i \<Longrightarrow> k \<noteq> n \<Longrightarrow> t_status (tm s (ts ! k)) = timerWaiting"
    "whens s (ts ! n) < whens s (ts ! ((i - 1) div 4))" "0 < adjustTimers (pt s p)"
proof -
  have h: "hinv {} s" and c: "counters_ok s" using i by (simp_all add: tinv_def)
  show ts: "timers (pt s p) = ts" "length ts = Suc n" "0 < i" "i < n" "t_status (tm s (ts ! i)) = timerDeleted"
    and st: "t_status (tm s (ts ! n)) = timerModifiedEarlier"
    and "\<And>k. k \<le> n \<Longrightarrow> k \<noteq> i \<Longrightarrow> k \<noteq> n \<Longrightarrow> t_status (tm s (ts ! k)) = timerWaiting"
    "whens s (ts ! n) < whens s (ts ! ((i - 1) div 4))"
    using l by (simp_all add: late_heap_def whens_def)
  have w: "pwf s p" using hinvD(1) [OF h] .
  then show "distinct ts" using ts(1) by (simp add: pwf_def)
  have "heapw (whens s) ts" using w ts(1) by (simp add: pwf_def)
  then show "whens s (ts ! 0) \<le> whens s (ts ! n)" by (rule heapw_root) (simp add: ts(2))
  show "t_pp (tm s (ts ! k)) = Some p" if "k \<le> n" for k using hinvD(2) [OF h] ts(1,2) that by simp
  have "ts ! n \<in># filter_mset (\<lambda>t. t_status (tm s t) = timerModifiedEarlier) (mset (timers (pt s p)))"
    using st ts(1,2) by simp
  then have "0 < scount s p timerModifiedEarlier"
    unfolding scount_def by (metis gr0I size_eq_0_iff_empty empty_iff set_mset_empty)
  then show "0 < adjustTimers (pt s p)" using c by (simp add: counters_ok_def)
qed

lemma without_facts:
  assumes i: "tinv s" and l: "late_heap p ts n i s"
  shows "length (timers (pt (without p i s) p)) = n" "timers (pt (without p i s) p) ! 0 = ts ! 0"
    "\<And>m. i \<le> m \<Longrightarrow> m < n \<Longrightarrow> \<exists>k\<le>n. k \<noteq> i \<and> k \<noteq> n \<and> timers (pt (without p i s) p) ! m = ts ! k"
    "\<And>k. k \<le> n \<Longrightarrow> k \<noteq> i \<Longrightarrow> tm (without p i s) (ts ! k) = tm s (ts ! k)" "calls (without p i s) = calls s"
proof -
  note d = late_heapD [OF i l]
  let ?us = "del_at (whens s) ts i"
  have us: "timers (pt (without p i s) p) = ?us" using d(1) by (simp add: without_def Let_def)
  obtain j where j: "?us ! 0 = ts ! 0" "j < i" "?us ! j = ts ! n"
    using del_at_last_up [OF d(2,3,4,6,11)] by blast
  have m: "mset ?us = mset ts - {#ts ! i#}" and len: "length ?us = n"
    using mset_del_at [of i ts] length_del_at [of i ts] d(2,4) by simp_all
  have m2: "mset ?us = mset (remove1 (ts ! i) ts)" using m by simp
  have set_us: "set ?us = set ts - {ts ! i}" using mset_eq_setD [OF m2] d(5) by simp
  have dist: "distinct ?us" using mset_eq_imp_distinct_iff [OF m2] d(5) by simp
  show "length (timers (pt (without p i s) p)) = n" "timers (pt (without p i s) p) ! 0 = ts ! 0"
    using us len j(1) by simp_all
  show "calls (without p i s) = calls s" by (simp add: without_def Let_def)
  show "tm (without p i s) (ts ! k) = tm s (ts ! k)" if "k \<le> n" "k \<noteq> i" for k
    using that d(1,2,4,5) by (simp add: without_def Let_def nth_eq_iff_index_eq)
  show "\<exists>k\<le>n. k \<noteq> i \<and> k \<noteq> n \<and> timers (pt (without p i s) p) ! x = ts ! k" if x: "i \<le> x" "x < n" for x
  proof -
    have "?us ! x \<in> set ?us" using x len by simp
    then have "?us ! x \<in> set ts" "?us ! x \<noteq> ts ! i" using set_us by auto
    then obtain k where k: "k \<le> n" "?us ! x = ts ! k" "k \<noteq> i"
      using d(2) by (metis in_set_conv_nth less_Suc_eq_le)
    moreover have "?us ! x \<noteq> ?us ! j" using x j(2) dist len by (simp add: nth_eq_iff_index_eq)
    ultimately show ?thesis using us j(3) by auto
  qed
qed

lemma adjusttimers_late:
  assumes i: "tinv s" and l: "late_heap p ts n i s"
  shows "adjusttimers p s = Ret (without p i s)"
proof -
  note d = late_heapD [OF i l] and f = without_facts [OF i l]
  have w: "t_pp (tm s (timers (pt s p) ! m)) = Some p \<and> t_status (tm s (timers (pt s p) ! m)) = timerWaiting" if "m < i" for m
    using that d(1,4,7,10) by simp
  have "adjust_loop p 0 [] s = adjust_loop p i [] s"
    by (rule adjust_loop_wait) (use w d(1,2,4) in auto)
  also have "\<dots> = adjust_loop p i [] (without p i s)"
    by (rule adjust_loop_deleted) (use d in auto)
  also have "\<dots> = adjust_loop p n [] (without p i s)"
  proof (rule adjust_loop_wait)
    fix m assume "i \<le> m" "m < n"
    then obtain k where k: "k \<le> n" "k \<noteq> i" "k \<noteq> n" "timers (pt (without p i s) p) ! m = ts ! k" using f(3) by blast
    then show "t_pp (tm (without p i s) (timers (pt (without p i s) p) ! m)) = Some p \<and>
        t_status (tm (without p i s) (timers (pt (without p i s) p) ! m)) = timerWaiting"
      using f(4) [OF k(1,2)] d(7) [OF k(1)] d(10) [OF k(1,2,3)] by simp
  qed (use d(4) f(1) in simp_all)
  also have "\<dots> = Ret (without p i s, [])" using f(1) by (subst adjust_loop.simps) simp
  finally show ?thesis using d(1,2,12) by (auto simp: adjusttimers_def)
qed

lemma late_deleted:
  assumes i: "tinv s" and l: "late_heap p ts n i s" and i2: "tinv (without p i s)"
  shows "deletedTimers (pt (without p i s) p) = 0"
proof -
  let ?s = "without p i s"
  note h = late_heapD [OF i l]
  have hi: "hinv {} ?s" and ci: "counters_ok ?s" using i2 by (simp_all add: tinv_def)
  have "t_status (tm ?s u) \<noteq> timerDeleted" if u: "u \<in> set (timers (pt ?s p))" for u
  proof -
    have "t_pp (tm ?s u) = Some p" using hinvD(2) [OF hi] u by simp
    then have ui: "u \<noteq> ts ! i" using h(1) by (auto simp: without_def Let_def)
    moreover from this have "tm ?s u = tm s u" using h(1) by (simp add: without_def Let_def)
    moreover from this have "u \<in> set ts" using hinvD(2) [of "{}" s u p] i h(1) \<open>t_pp (tm ?s u) = Some p\<close> by (simp add: tinv_def)
    ultimately obtain k where "k \<le> n" "k \<noteq> i" "u = ts ! k" "tm ?s u = tm s u"
      using h(2) by (metis in_set_conv_nth less_Suc_eq_le)
    then show ?thesis using h(9) h(10) [of k] by (cases "k = n") auto
  qed
  then have "filter_mset (\<lambda>t. t_status (tm ?s t) = timerDeleted) (mset (timers (pt ?s p))) = {#}" by auto
  then show ?thesis using ci by (simp add: counters_ok_def scount_def)
qed

section \<open>A timer that runs late\<close>

text \<open>C33. \<open>adjusttimers\<close> can skip a timer modified to run earlier, which then runs late, by any time.  Take
  a reachable state in which the last timer of a heap was modified to run at \<open>d\<close>, a timer at an index
  \<open>i\<close> in the middle was deleted, the old time of the last one is before that of the parent of \<open>i\<close>, and
  the others wait.  Then at every time \<open>now\<close> from \<open>d\<close> until the first time of the heap,
  \<open>checkTimers\<close>, which calls \<open>adjusttimers\<close> and then runs what is due, runs nothing and tells
  the scheduler to come back at the first time of the heap, while the timer due at \<open>d\<close> stays armed.\<close>

theorem adjusttimers_skips:
  assumes "timer_reach s" "late_heap p ts n i s" "deadline s (ts ! n) = Some d"
    "0 < now" "d \<le> now" "now < t_when (tm s (ts ! 0))"
  shows "\<exists>s1. adjusttimers p s = Ret s1 \<and> runtimer p now s1 = Ret (s1, t_when (tm s (ts ! 0))) \<and>
    checkTimers p cur now nano s = Some (Ret (s1, now, t_when (tm s (ts ! 0)), False)) \<and>
    calls s1 = calls s \<and> ts ! n \<in> set (timers (pt s1 p)) \<and> deadline s1 (ts ! n) = Some d \<and>
    t_status (tm s1 (ts ! n)) = timerModifiedEarlier"
proof -
  note i = reach_tinv [OF assms(1)]
  note h = late_heapD [OF i assms(2)] and f = without_facts [OF i assms(2)]
  let ?s = "without p i s" let ?w = "t_when (tm s (ts ! 0))"
  note a = adjusttimers_late [OF i assms(2)]
  have i2: "tinv ?s" using adjusttimers_spec [OF i, of p] a by auto
  have n: "timers (pt ?s p) \<noteq> []" using f(1) h(3,4) by auto
  have z: "tm ?s (ts ! 0) = tm s (ts ! 0)" "tm ?s (ts ! n) = tm s (ts ! n)" using f(4) [of 0] f(4) [of n] h(3,4) by auto
  have st0: "t_status (tm s (ts ! 0)) = timerWaiting" "t_pp (tm s (ts ! 0)) = Some p" using h(10) [of 0] h(7) [of 0] h(3,4) by auto
  have r: "runtimer p now ?s = Ret (?s, ?w)"
    using n f(2) z st0 assms(6) by (subst runtimer.simps) (simp add: Let_def)
  have "run_loop p now False ?s = Some (Ret (?s, ?w, False))"
    using n r assms(4,6) by (subst run_loop.simps) simp
  moreover have "check_skip p cur now nano s = None" using h(12) by (simp add: check_skip_def)
  moreover have "deletedTimers (pt ?s p) = 0" by (rule late_deleted [OF i assms(2) i2])
  ultimately have c: "checkTimers p cur now nano s = Some (Ret (?s, now, ?w, False))"
    using checkTimers_eq [OF _ a, of cur now nano now ?s ?w False] assms(4) by simp
  have "t_pp (tm ?s (ts ! n)) = Some p" using z(2) h(7) [of n] by simp
  then have "ts ! n \<in> set (timers (pt ?s p))" using hinvD(2) [of "{}" ?s _ p] i2 by (simp add: tinv_def)
  then show ?thesis using a r c f(5) z h(9) assms(3) by (simp add: deadline_def)
qed

text \<open>Timers started in the order of a heap: timer \<open>k\<close> runs at \<open>ws ! k\<close> and is at index \<open>k\<close>.\<close>

definition started :: "int list \<Rightarrow> tsys" where
  "started ws = \<lparr>tm = (\<lambda>t. \<lparr>t_pp = (if t < length ws then Some 0 else None), t_when = (if t < length ws then ws ! t else 0),
       t_period = 0, t_f = 0, t_arg = 0, t_seq = 0, t_nextwhen = 0,
       t_status = (if t < length ws then timerWaiting else timerNoStatus)\<rparr>),
     pt = (\<lambda>p. if p = 0 then \<lparr>timers = [0..<length ws], timer0When = (if ws = [] then 0 else ws ! 0), numTimers = int (length ws),
         adjustTimers = 0, deletedTimers = 0\<rparr>
       else \<lparr>timers = [], timer0When = 0, numTimers = 0, adjustTimers = 0, deletedTimers = 0\<rparr>),
     calls = [], polls = ws\<rparr>"

definition heap_times :: "int list \<Rightarrow> bool" where
  "heap_times ws \<longleftrightarrow> (\<forall>k<length ws. 0 \<le> ws ! k \<and> (0 < k \<longrightarrow> ws ! ((k - 1) div 4) \<le> ws ! k))"

lemma started_snoc:
  assumes "0 \<le> w" "0 < length ws \<Longrightarrow> ws ! ((length ws - 1) div 4) \<le> w"
  shows "modtimer 0 (length ws) w 0 0 0 0 (started ws) = Ret (started (ws @ [w]), False)"
proof -
  let ?n = "length ws"
  let ?s = "upd_t ?n (\<lambda>x. x\<lparr>t_when := w\<rparr>) (upd_t ?n (\<lambda>x. x\<lparr>t_period := 0, t_f := 0, t_arg := 0, t_seq := 0\<rparr>)
    (set_status ?n timerModifying (started ws)))"
  have ts: "timers (pt ?s 0) = [0..<?n]" by (simp add: started_def)
  have "(?n - 1) div 4 < ?n" if "0 < ?n" using that by linarith
  then have "upper (\<le>) 4 0 (\<lambda>k. whens (upd_t ?n (\<lambda>x. x\<lparr>t_pp := Some 0\<rparr>) ?s) (([0..<?n] @ [?n]) ! k)) ?n"
    using assms(2) by (auto simp: upper_def par_def whens_def started_def nth_append)
  then have "sup (whens ?s) ([0..<?n] @ [?n]) ?n = [0..<?n] @ [?n]" by (intro sup_stay) simp_all
  then have "doaddtimer 0 ?n ?s = Ret (upd_p 0 (\<lambda>x. x\<lparr>timers := [0..<?n] @ [?n], timer0When := (if ws = [] then w else ws ! 0),
      numTimers := int ?n + 1\<rparr>) (upd_t ?n (\<lambda>x. x\<lparr>t_pp := Some 0\<rparr>) ?s))"
    using ts by (auto simp: doaddtimer_eq Let_def started_def whens_def nth_append intro!: upd_p_cong)
  then have "modtimer 0 ?n w 0 0 0 0 (started ws) = Ret (wakeNetPoller w (set_status ?n timerWaiting
      (upd_p 0 (\<lambda>x. x\<lparr>timers := [0..<?n] @ [?n], timer0When := (if ws = [] then w else ws ! 0),
        numTimers := int ?n + 1\<rparr>) (upd_t ?n (\<lambda>x. x\<lparr>t_pp := Some 0\<rparr>) ?s))), False)"
    using assms(1) by (simp add: modtimer_def mod_begin_def Let_def) (simp add: started_def)
  also have "\<dots> = Ret (started (ws @ [w]), False)"
    by (auto simp: started_def wakeNetPoller_def upd_p_def upd_t_def fun_eq_iff nth_append)
  finally show ?thesis .
qed

lemma started_reach: "heap_times ws \<Longrightarrow> timer_reach (started ws)"
proof (induction ws rule: rev_induct)
  case Nil
  have "started [] = idle" by (simp add: started_def idle_def fun_eq_iff)
  then show ?case using idle_reach by simp
next
  case (snoc w ws)
  have "heap_times ws"
    unfolding heap_times_def
  proof (intro allI impI)
    fix k assume k: "k < length ws"
    then have "(k - 1) div 4 < length ws" by linarith
    then show "0 \<le> ws ! k \<and> (0 < k \<longrightarrow> ws ! ((k - 1) div 4) \<le> ws ! k)"
      using snoc.prems [unfolded heap_times_def, rule_format, of k] k by (simp add: nth_append)
  qed
  moreover have w: "0 \<le> w" "0 < length ws \<Longrightarrow> ws ! ((length ws - 1) div 4) \<le> w"
  proof -
    have "0 < length ws \<Longrightarrow> (length ws - 1) div 4 < length ws" by linarith
    then show "0 \<le> w" "0 < length ws \<Longrightarrow> ws ! ((length ws - 1) div 4) \<le> w"
      using snoc.prems [unfolded heap_times_def, rule_format, of "length ws"] by (simp_all add: nth_append)
  qed
  then have "timer_exec (Modify_timer 0 (length ws) w 0 0 0 0) (started ws) = Ret (started (ws @ [w]))"
    using started_snoc [of w ws] by simp
  ultimately show ?case using timer_reach.step [OF snoc.IH, of "Modify_timer 0 (length ws) w 0 0 0 0"] by simp
qed

text \<open>Ten timers are started, the one at index 5 is stopped and the last one is modified to run at 5
  instead of 30: at 7 nothing runs, and the next time is 10.\<close>

definition late_times :: "int list" where
  "late_times = [10, 50, 20, 50, 50, 60, 60, 60, 60, 30]"

definition late_state :: tsys where
  "late_state = (case run_ops [Stop_timer 5, Modify_timer 0 9 5 0 0 0 0] (started late_times) of Ret s \<Rightarrow> s | _ \<Rightarrow> idle)"

lemma late_run: "run_ops [Stop_timer 5, Modify_timer 0 9 5 0 0 0 0] (started late_times) = Ret late_state"
proof -
  have "is_ret (run_ops [Stop_timer 5, Modify_timer 0 9 5 0 0 0 0] (started late_times))" by code_simp
  then show ?thesis
    unfolding late_state_def by (cases "run_ops [Stop_timer 5, Modify_timer 0 9 5 0 0 0 0] (started late_times)") auto
qed

lemma late_reach: "timer_reach late_state"
proof -
  have "list_all (\<lambda>k. 0 \<le> late_times ! k \<and> (0 < k \<longrightarrow> late_times ! ((k - 1) div 4) \<le> late_times ! k)) [0..<10]" by code_simp
  then have "heap_times late_times" by (simp add: heap_times_def late_times_def list_all_iff del: upt_rec_numeral)
  then show ?thesis using run_ops_reach started_reach late_run by blast
qed

lemma late_state_heap: "late_heap 0 [0, 1, 2, 3, 4, 5, 6, 7, 8, 9] 9 5 late_state"
proof -
  have "timers (pt late_state 0) = [0, 1, 2, 3, 4, 5, 6, 7, 8, 9]" by code_simp
  moreover have "list_all (\<lambda>k. t_status (tm late_state ([0, 1, 2, 3, 4, 5, 6, 7, 8, 9] ! k)) =
      (if k = 5 then timerDeleted else if k = 9 then timerModifiedEarlier else timerWaiting)) [0..<10]" by code_simp
  then have "\<forall>k\<le>9. t_status (tm late_state ([0, 1, 2, 3, 4, 5, 6, 7, 8, 9] ! k)) =
      (if k = 5 then timerDeleted else if k = 9 then timerModifiedEarlier else timerWaiting)"
    by (simp add: list_all_iff del: upt_rec_numeral)
  moreover have "t_when (tm late_state 9) < t_when (tm late_state 1)" by code_simp
  ultimately show ?thesis by (simp add: late_heap_def)
qed

theorem adjusttimers_skips_witness:
  "\<exists>s1. checkTimers 0 True 7 7 late_state = Some (Ret (s1, 7, 10, False)) \<and> deadline s1 9 = Some 5 \<and> calls s1 = []"
proof -
  have "deadline late_state 9 = Some 5" "t_when (tm late_state 0) = 10" "calls late_state = []" by code_simp+
  then show ?thesis using adjusttimers_skips [OF late_reach late_state_heap, of 5 7 True 7] by auto
qed

section \<open>Other behaviours\<close>

text \<open>\<open>timeSleepUntil\<close> finds the time of a timer modified to run earlier, but not the P that
  holds it: it returns no P at all.\<close>

theorem timeSleepUntil_no_P:
  "case run_ops [Modify_timer 0 1 50 0 0 0 0, Modify_timer 0 1 20 0 0 0 0] idle of
     Ret s \<Rightarrow> timeSleepUntil [0] s = (20, None) \<and> deadline s 1 = Some 20 \<and> timers (pt s 0) = [1]
   | _ \<Rightarrow> False"
  by code_simp

text \<open>The next time of a periodic timer wraps around to a negative one.\<close>

theorem runOneTimer_wraps: "next_when 10 (2 ^ 63 - 1) 20 < 0"
  by code_simp

end
