(* ===== verification/Utf8.thy ===== *)
theory Utf8
  imports Prelude "HOL-Library.Sublist"
begin

text \<open>
  UTF-8 (\<open>unicode/utf8/utf8.go\<close> and \<open>runtime/utf8.go\<close>): bytes are 8-bit words, runes 32-bit words
  read as signed numbers where the code compares them as \<open>int32\<close>.  A \<open>string\<close> and a
  \<open>[]byte\<close> are lists of bytes; the two versions of each function are both modelled.
\<close>

type_synonym rune = "32 word"
type_synonym bytes = "u8 list"

section \<open>Constants and tables\<close>

abbreviation (input) RuneError :: rune where "RuneError \<equiv> 0xFFFD"
abbreviation (input) RuneSelf :: u8 where "RuneSelf \<equiv> 0x80"
abbreviation (input) MaxRune :: rune where "MaxRune \<equiv> 0x10FFFF"
abbreviation (input) UTFMax :: int where "UTFMax \<equiv> 4"
abbreviation (input) surrogateMin :: rune where "surrogateMin \<equiv> 0xD800"
abbreviation (input) surrogateMax :: rune where "surrogateMax \<equiv> 0xDFFF"

abbreviation (input) tx :: u8 where "tx \<equiv> 0x80"
abbreviation (input) t2 :: u8 where "t2 \<equiv> 0xC0"
abbreviation (input) t3 :: u8 where "t3 \<equiv> 0xE0"
abbreviation (input) t4 :: u8 where "t4 \<equiv> 0xF0"
abbreviation (input) t5 :: u8 where "t5 \<equiv> 0xF8"
abbreviation (input) maskx :: u8 where "maskx \<equiv> 0x3F"
abbreviation (input) mask2 :: u8 where "mask2 \<equiv> 0x1F"
abbreviation (input) mask3 :: u8 where "mask3 \<equiv> 0x0F"
abbreviation (input) mask4 :: u8 where "mask4 \<equiv> 0x07"
abbreviation (input) rune1Max :: rune where "rune1Max \<equiv> 0x7F"
abbreviation (input) rune2Max :: rune where "rune2Max \<equiv> 0x7FF"
abbreviation (input) rune3Max :: rune where "rune3Max \<equiv> 0xFFFF"
abbreviation (input) locb :: u8 where "locb \<equiv> 0x80"
abbreviation (input) hicb :: u8 where "hicb \<equiv> 0xBF"

abbreviation (input) xx_c :: u8 where "xx_c \<equiv> 0xF1"
abbreviation (input) as_c :: u8 where "as_c \<equiv> 0xF0"
abbreviation (input) s1_c :: u8 where "s1_c \<equiv> 0x02"
abbreviation (input) s2_c :: u8 where "s2_c \<equiv> 0x13"
abbreviation (input) s3_c :: u8 where "s3_c \<equiv> 0x03"
abbreviation (input) s4_c :: u8 where "s4_c \<equiv> 0x23"
abbreviation (input) s5_c :: u8 where "s5_c \<equiv> 0x34"
abbreviation (input) s6_c :: u8 where "s6_c \<equiv> 0x04"
abbreviation (input) s7_c :: u8 where "s7_c \<equiv> 0x44"

definition first :: "u8 list" where
  "first =
     replicate 128 as_c @ replicate 64 xx_c @
     [xx_c, xx_c] @ replicate 30 s1_c @
     [s2_c] @ replicate 12 s3_c @ [s4_c, s3_c, s3_c] @
     [s5_c, s6_c, s6_c, s6_c, s7_c] @ replicate 11 xx_c"

definition first_of :: "u8 \<Rightarrow> u8" where
  "first_of b = first ! unat b"

record acceptRange =
  lo :: u8
  hi :: u8

definition acceptRanges :: "acceptRange list" where
  "acceptRanges =
     [\<lparr>lo = locb, hi = hicb\<rparr>, \<lparr>lo = 0xA0, hi = hicb\<rparr>, \<lparr>lo = locb, hi = 0x9F\<rparr>,
      \<lparr>lo = 0x90, hi = hicb\<rparr>, \<lparr>lo = locb, hi = 0x8F\<rparr>] @ replicate 11 \<lparr>lo = 0, hi = 0\<rparr>"

definition accept_of :: "u8 \<Rightarrow> acceptRange" where
  "accept_of x = acceptRanges ! unat (drop_bit 4 x)"

section \<open>FullRune\<close>

definition FullRune :: "bytes \<Rightarrow> bool" where
  "FullRune p =
     (let n = length p in
      if n = 0 then False
      else let x = first_of (p ! 0) in
        if n \<ge> unat (x AND 7) then True
        else let accept = accept_of x in
          if n > 1 \<and> (p ! 1 < lo accept \<or> hi accept < p ! 1) then True
          else if n > 2 \<and> (p ! 2 < locb \<or> hicb < p ! 2) then True
          else False)"

definition FullRuneInString :: "bytes \<Rightarrow> bool" where
  "FullRuneInString s =
     (let n = length s in
      if n = 0 then False
      else let x = first_of (s ! 0) in
        if n \<ge> unat (x AND 7) then True
        else let accept = accept_of x in
          if n > 1 \<and> (s ! 1 < lo accept \<or> hi accept < s ! 1) then True
          else if n > 2 \<and> (s ! 2 < locb \<or> hicb < s ! 2) then True
          else False)"

section \<open>Decoding\<close>

definition DecodeRune :: "bytes \<Rightarrow> rune \<times> nat" where
  "DecodeRune p =
     (let n = length p in
      if n < 1 then (RuneError, 0)
      else let p0 = p ! 0; x = first_of p0 in
        if x \<ge> as_c then
          let mask = signed_drop_bit 31 (push_bit 31 (ucast x :: rune))
          in (ucast (p ! 0) AND NOT mask OR RuneError AND mask, 1)
        else let sz = unat (x AND 7); accept = accept_of x in
          if n < sz then (RuneError, 1)
          else let b1 = p ! 1 in
            if b1 < lo accept \<or> hi accept < b1 then (RuneError, 1)
            else if sz \<le> 2 then
              (push_bit 6 (ucast (p0 AND mask2)) OR ucast (b1 AND maskx), 2)
            else let b2 = p ! 2 in
              if b2 < locb \<or> hicb < b2 then (RuneError, 1)
              else if sz \<le> 3 then
                (push_bit 12 (ucast (p0 AND mask3)) OR push_bit 6 (ucast (b1 AND maskx)) OR ucast (b2 AND maskx), 3)
              else let b3 = p ! 3 in
                if b3 < locb \<or> hicb < b3 then (RuneError, 1)
                else (push_bit 18 (ucast (p0 AND mask4)) OR push_bit 12 (ucast (b1 AND maskx)) OR
                  push_bit 6 (ucast (b2 AND maskx)) OR ucast (b3 AND maskx), 4))"

definition DecodeRuneInString :: "bytes \<Rightarrow> rune \<times> nat" where
  "DecodeRuneInString s =
     (let n = length s in
      if n < 1 then (RuneError, 0)
      else let s0 = s ! 0; x = first_of s0 in
        if x \<ge> as_c then
          let mask = signed_drop_bit 31 (push_bit 31 (ucast x :: rune))
          in (ucast (s ! 0) AND NOT mask OR RuneError AND mask, 1)
        else let sz = unat (x AND 7); accept = accept_of x in
          if n < sz then (RuneError, 1)
          else let s1 = s ! 1 in
            if s1 < lo accept \<or> hi accept < s1 then (RuneError, 1)
            else if sz \<le> 2 then
              (push_bit 6 (ucast (s0 AND mask2)) OR ucast (s1 AND maskx), 2)
            else let s2 = s ! 2 in
              if s2 < locb \<or> hicb < s2 then (RuneError, 1)
              else if sz \<le> 3 then
                (push_bit 12 (ucast (s0 AND mask3)) OR push_bit 6 (ucast (s1 AND maskx)) OR ucast (s2 AND maskx), 3)
              else let s3 = s ! 3 in
                if s3 < locb \<or> hicb < s3 then (RuneError, 1)
                else (push_bit 18 (ucast (s0 AND mask4)) OR push_bit 12 (ucast (s1 AND maskx)) OR
                  push_bit 6 (ucast (s2 AND maskx)) OR ucast (s3 AND maskx), 4))"

definition RuneStart :: "u8 \<Rightarrow> bool" where
  "RuneStart b \<longleftrightarrow> b AND 0xC0 \<noteq> 0x80"

text \<open>The loop that looks for the start of the last rune, from \<open>start\<close> down to \<open>lim\<close>.\<close>

function start_loop :: "bytes \<Rightarrow> int \<Rightarrow> int \<Rightarrow> int" where
  "start_loop p lim start =
     (if start \<ge> lim then if RuneStart (p ! nat start) then start else start_loop p lim (start - 1) else start)"
  by pat_completeness auto
termination
  by (relation "measure (\<lambda>(_, lim, start). nat (start - lim + 1))") auto

declare start_loop.simps [simp del]

definition DecodeLastRune :: "bytes \<Rightarrow> rune \<times> nat" where
  "DecodeLastRune p =
     (let end = int (length p) in
      if end = 0 then (RuneError, 0)
      else let start = end - 1; r = ucast (p ! nat start) in
        if p ! nat start < RuneSelf then (r, 1)
        else let lim = (if end - UTFMax < 0 then 0 else end - UTFMax);
            start = start_loop p lim (start - 1);
            start = (if start < 0 then 0 else start);
            (r, size) = DecodeRune (drop (nat start) p)
          in if start + int size \<noteq> end then (RuneError, 1) else (r, size))"

definition DecodeLastRuneInString :: "bytes \<Rightarrow> rune \<times> nat" where
  "DecodeLastRuneInString s =
     (let end = int (length s) in
      if end = 0 then (RuneError, 0)
      else let start = end - 1; r = ucast (s ! nat start) in
        if s ! nat start < RuneSelf then (r, 1)
        else let lim = (if end - UTFMax < 0 then 0 else end - UTFMax);
            start = start_loop s lim (start - 1);
            start = (if start < 0 then 0 else start);
            (r, size) = DecodeRuneInString (drop (nat start) s)
          in if start + int size \<noteq> end then (RuneError, 1) else (r, size))"

text \<open>The decoder the runtime uses for \<open>range\<close> over a string.\<close>

definition is_cont :: "u8 \<Rightarrow> bool" where
  "is_cont b \<longleftrightarrow> locb \<le> b \<and> b \<le> hicb"

definition decoderune :: "bytes \<Rightarrow> nat \<Rightarrow> rune \<times> nat" where
  "decoderune s k =
     (if k \<ge> length s then (RuneError, k + 1)
      else let s = drop k s in
        if t2 \<le> s ! 0 \<and> s ! 0 < t3 then
          if length s > 1 \<and> is_cont (s ! 1) then
            let r = push_bit 6 (ucast (s ! 0 AND mask2)) OR ucast (s ! 1 AND maskx)
            in if sint rune1Max < sint r then (r, k + 2) else (RuneError, k + 1)
          else (RuneError, k + 1)
        else if t3 \<le> s ! 0 \<and> s ! 0 < t4 then
          if length s > 2 \<and> is_cont (s ! 1) \<and> is_cont (s ! 2) then
            let r = push_bit 12 (ucast (s ! 0 AND mask3)) OR push_bit 6 (ucast (s ! 1 AND maskx)) OR ucast (s ! 2 AND maskx)
            in if sint rune2Max < sint r \<and> \<not> (sint surrogateMin \<le> sint r \<and> sint r \<le> sint surrogateMax)
               then (r, k + 3) else (RuneError, k + 1)
          else (RuneError, k + 1)
        else if t4 \<le> s ! 0 \<and> s ! 0 < t5 then
          if length s > 3 \<and> is_cont (s ! 1) \<and> is_cont (s ! 2) \<and> is_cont (s ! 3) then
            let r = push_bit 18 (ucast (s ! 0 AND mask4)) OR push_bit 12 (ucast (s ! 1 AND maskx)) OR
                push_bit 6 (ucast (s ! 2 AND maskx)) OR ucast (s ! 3 AND maskx)
            in if sint rune3Max < sint r \<and> sint r \<le> sint MaxRune then (r, k + 4) else (RuneError, k + 1)
          else (RuneError, k + 1)
        else (RuneError, k + 1))"

section \<open>Encoding\<close>

definition RuneLen :: "rune \<Rightarrow> int" where
  "RuneLen r =
     (if sint r < 0 then - 1
      else if sint r \<le> sint rune1Max then 1
      else if sint r \<le> sint rune2Max then 2
      else if sint surrogateMin \<le> sint r \<and> sint r \<le> sint surrogateMax then - 1
      else if sint r \<le> sint rune3Max then 3
      else if sint r \<le> sint MaxRune then 4
      else - 1)"

definition put3 :: "bytes \<Rightarrow> rune \<Rightarrow> (bytes \<times> nat) outcome" where
  "put3 p r =
     (if length p \<le> 2 then Panic ''index out of range''
      else Ret (p[0 := t3 OR ucast (signed_drop_bit 12 r), 1 := tx OR ucast (signed_drop_bit 6 r) AND maskx,
        2 := tx OR ucast r AND maskx], 3))"

definition EncodeRune :: "bytes \<Rightarrow> rune \<Rightarrow> (bytes \<times> nat) outcome" where
  "EncodeRune p r =
     (if r \<le> rune1Max then
        if length p \<le> 0 then Panic ''index out of range'' else Ret (p[0 := ucast r], 1)
      else if r \<le> rune2Max then
        if length p \<le> 1 then Panic ''index out of range''
        else Ret (p[0 := t2 OR ucast (signed_drop_bit 6 r), 1 := tx OR ucast r AND maskx], 2)
      else if r > MaxRune \<or> surrogateMin \<le> r \<and> r \<le> surrogateMax then put3 p RuneError
      else if r \<le> rune3Max then put3 p r
      else
        if length p \<le> 3 then Panic ''index out of range''
        else Ret (p[0 := t4 OR ucast (signed_drop_bit 18 r), 1 := tx OR ucast (signed_drop_bit 12 r) AND maskx,
          2 := tx OR ucast (signed_drop_bit 6 r) AND maskx, 3 := tx OR ucast r AND maskx], 4))"

definition encoderune :: "bytes \<Rightarrow> rune \<Rightarrow> (bytes \<times> nat) outcome" where
  "encoderune p r =
     (if r \<le> rune1Max then
        if length p \<le> 0 then Panic ''index out of range'' else Ret (p[0 := ucast r], 1)
      else if r \<le> rune2Max then
        if length p \<le> 1 then Panic ''index out of range''
        else Ret (p[0 := t2 OR ucast (signed_drop_bit 6 r), 1 := tx OR ucast r AND maskx], 2)
      else if r > MaxRune \<or> surrogateMin \<le> r \<and> r \<le> surrogateMax then put3 p RuneError
      else if r \<le> rune3Max then put3 p r
      else
        if length p \<le> 3 then Panic ''index out of range''
        else Ret (p[0 := t4 OR ucast (signed_drop_bit 18 r), 1 := tx OR ucast (signed_drop_bit 12 r) AND maskx,
          2 := tx OR ucast (signed_drop_bit 6 r) AND maskx, 3 := tx OR ucast r AND maskx], 4))"

definition ValidRune :: "rune \<Rightarrow> bool" where
  "ValidRune r =
     (if 0 \<le> sint r \<and> sint r < sint surrogateMin then True
      else if sint surrogateMax < sint r \<and> sint r \<le> sint MaxRune then True
      else False)"

section \<open>The table\<close>

lemma u8_split: "P (b :: u8) \<longleftrightarrow> (\<exists>n < 256. b = of_nat n \<and> P (of_nat n))"
proof
  assume p: "P b"
  have "unat b < 256" using unsigned_less [of b] by simp
  moreover have "b = of_nat (unat b)" by simp
  ultimately show "\<exists>n<256. b = of_nat n \<and> P (of_nat n)" using p by metis
qed auto

text \<open>The classes of first bytes.\<close>

definition first_class :: "u8 \<Rightarrow> u8" where
  "first_class b =
     (if b < 0x80 then as_c else if b < 0xC2 then xx_c else if b < 0xE0 then s1_c else if b = 0xE0 then s2_c
      else if b < 0xED then s3_c else if b = 0xED then s4_c else if b < 0xF0 then s3_c else if b = 0xF0 then s5_c
      else if b < 0xF4 then s6_c else if b = 0xF4 then s7_c else xx_c)"

lemma first_class_table: "first = map (\<lambda>n. first_class (of_nat n)) [0..<256]"
  by code_simp

lemma first_of_eq: "first_of b = first_class b"
proof -
  have u: "unat b < 256" using unsigned_less [of b] by simp
  have "map (\<lambda>n. first_class (of_nat n)) [0..<256] ! unat b = first_class (of_nat (unat b))"
    using u by (simp only: nth_map length_upt nth_upt) (simp add: nth_upt)
  then show ?thesis by (simp add: first_of_def first_class_table)
qed

lemma first_size: "\<not> b < RuneSelf \<Longrightarrow> first_of b \<noteq> xx_c \<Longrightarrow> 2 \<le> unat (first_of b AND 7)"
  by (auto simp: first_of_eq first_class_def split: if_splits)

section \<open>Counting and validating\<close>

text \<open>
  The tests of the bytes after the first one; \<open>RuneCount\<close> then counts one byte, \<open>Valid\<close> fails.
\<close>

definition tail_ok :: "bytes \<Rightarrow> nat \<Rightarrow> nat \<Rightarrow> acceptRange \<Rightarrow> bool" where
  "tail_ok p i sz accept =
     (if p ! (i + 1) < lo accept \<or> hi accept < p ! (i + 1) then False
      else if sz = 2 then True
      else if p ! (i + 2) < locb \<or> hicb < p ! (i + 2) then False
      else if sz = 3 then True
      else if p ! (i + 3) < locb \<or> hicb < p ! (i + 3) then False
      else True)"

function count_loop :: "bytes \<Rightarrow> nat \<Rightarrow> nat \<Rightarrow> nat" where
  "count_loop p i n =
     (if i < length p then
        let c = p ! i in
        if c < RuneSelf then count_loop p (i + 1) (n + 1)
        else let x = first_of c in
          if x = xx_c then count_loop p (i + 1) (n + 1)
          else let size = unat (x AND 7) in
            if i + size > length p then count_loop p (i + 1) (n + 1)
            else let size = (if tail_ok p i size (accept_of x) then size else 1) in count_loop p (i + size) (n + 1)
      else n)"
  by pat_completeness auto
termination
proof (relation "measure (\<lambda>(p, i, _). length p - i)", goal_cases)
  case (5 p i n c x size size')
  then show ?case using first_size [of c] by (auto split: if_splits)
qed auto

declare count_loop.simps [simp del]

definition RuneCount :: "bytes \<Rightarrow> nat" where
  "RuneCount p = count_loop p 0 0"

function count_string_loop :: "bytes \<Rightarrow> nat \<Rightarrow> nat \<Rightarrow> nat" where
  "count_string_loop s i n =
     (if i < length s then
        let c = s ! i in
        if c < RuneSelf then count_string_loop s (i + 1) (n + 1)
        else let x = first_of c in
          if x = xx_c then count_string_loop s (i + 1) (n + 1)
          else let size = unat (x AND 7) in
            if i + size > length s then count_string_loop s (i + 1) (n + 1)
            else let size = (if tail_ok s i size (accept_of x) then size else 1) in count_string_loop s (i + size) (n + 1)
      else n)"
  by pat_completeness auto
termination
proof (relation "measure (\<lambda>(p, i, _). length p - i)", goal_cases)
  case (5 p i n c x size size')
  then show ?case using first_size [of c] by (auto split: if_splits)
qed auto

declare count_string_loop.simps [simp del]

definition RuneCountInString :: "bytes \<Rightarrow> nat" where
  "RuneCountInString s = count_string_loop s 0 0"

text \<open>The fast path skips eight ASCII bytes at a time.\<close>

function skip_ascii :: "bytes \<Rightarrow> bytes" where
  "skip_ascii p =
     (if length p \<ge> 8 then
        let first32 = ucast (p ! 0) OR push_bit 8 (ucast (p ! 1)) OR push_bit 16 (ucast (p ! 2)) OR push_bit 24 (ucast (p ! 3)) :: u32;
            second32 = ucast (p ! 4) OR push_bit 8 (ucast (p ! 5)) OR push_bit 16 (ucast (p ! 6)) OR push_bit 24 (ucast (p ! 7))
        in if (first32 OR second32) AND 0x80808080 \<noteq> 0 then p else skip_ascii (drop 8 p)
      else p)"
  by pat_completeness auto
termination
  by (relation "measure length") auto

declare skip_ascii.simps [simp del]

function valid_loop :: "bytes \<Rightarrow> nat \<Rightarrow> bool" where
  "valid_loop p i =
     (if i < length p then
        let pi = p ! i in
        if pi < RuneSelf then valid_loop p (i + 1)
        else let x = first_of pi in
          if x = xx_c then False
          else let size = unat (x AND 7) in
            if i + size > length p then False
            else if \<not> tail_ok p i size (accept_of x) then False
            else valid_loop p (i + size)
      else True)"
  by pat_completeness auto
termination
proof (relation "measure (\<lambda>(p, i). length p - i)", goal_cases)
  case (3 p i c x size)
  then show ?case using first_size [of c] by auto
qed auto

declare valid_loop.simps [simp del]

definition Valid :: "bytes \<Rightarrow> bool" where
  "Valid p = valid_loop (skip_ascii p) 0"

definition ValidString :: "bytes \<Rightarrow> bool" where
  "ValidString s = valid_loop (skip_ascii s) 0"

end
