(* ===== verification/Utf8_Spec.thy ===== *)
theory Utf8_Spec
  imports Utf8
begin

text \<open>
  UTF-8 as a code on numbers, as RFC 3629 defines it, and the proof that the functions of the
  package implement it: the decoder accepts exactly the encodings of Unicode scalar values, the
  encoder writes them, and counting and validating agree with decoding rune by rune.
\<close>

section \<open>The code\<close>

definition scalar :: "nat \<Rightarrow> bool" where
  "scalar c \<longleftrightarrow> c < 0xD800 \<or> 0xDFFF < c \<and> c \<le> 0x10FFFF"

definition utf8 :: "nat \<Rightarrow> nat list" where
  "utf8 c =
     (if c < 0x80 then [c]
      else if c < 0x800 then [0xC0 + c div 64, 0x80 + c mod 64]
      else if c < 0x10000 then [0xE0 + c div 4096, 0x80 + c div 64 mod 64, 0x80 + c mod 64]
      else [0xF0 + c div 262144, 0x80 + c div 4096 mod 64, 0x80 + c div 64 mod 64, 0x80 + c mod 64])"

definition decode1 :: "nat list \<Rightarrow> nat \<times> nat" where
  "decode1 bs =
     (if bs = [] then (0xFFFD, 0)
      else if bs ! 0 < 0x80 then (bs ! 0, 1)
      else if bs ! 0 < 0xC2 \<or> 0xF4 < bs ! 0 then (0xFFFD, 1)
      else if bs ! 0 < 0xE0 then
        if 2 \<le> length bs \<and> 0x80 \<le> bs ! 1 \<and> bs ! 1 \<le> 0xBF
        then (bs ! 0 mod 32 * 64 + bs ! 1 mod 64, 2) else (0xFFFD, 1)
      else if bs ! 0 < 0xF0 then
        if 3 \<le> length bs \<and> (if bs ! 0 = 0xE0 then 0xA0 else 0x80) \<le> bs ! 1 \<and>
          bs ! 1 \<le> (if bs ! 0 = 0xED then 0x9F else 0xBF) \<and> 0x80 \<le> bs ! 2 \<and> bs ! 2 \<le> 0xBF
        then (bs ! 0 mod 16 * 4096 + (bs ! 1 mod 64 * 64 + bs ! 2 mod 64), 3) else (0xFFFD, 1)
      else
        if 4 \<le> length bs \<and> (if bs ! 0 = 0xF0 then 0x90 else 0x80) \<le> bs ! 1 \<and>
          bs ! 1 \<le> (if bs ! 0 = 0xF4 then 0x8F else 0xBF) \<and> 0x80 \<le> bs ! 2 \<and> bs ! 2 \<le> 0xBF \<and>
          0x80 \<le> bs ! 3 \<and> bs ! 3 \<le> 0xBF
        then (bs ! 0 mod 8 * 262144 + (bs ! 1 mod 64 * 4096 + (bs ! 2 mod 64 * 64 + bs ! 3 mod 64)), 4)
        else (0xFFFD, 1))"

lemma utf8_range: "scalar c \<Longrightarrow> b \<in> set (utf8 c) \<Longrightarrow> b < 256"
  by (auto simp: utf8_def scalar_def split: if_splits)

lemma length_utf8: "0 < length (utf8 c)" "length (utf8 c) \<le> 4"
  by (auto simp: utf8_def)

section \<open>Bits and arithmetic\<close>

lemma unat_or_push:
  fixes x y :: "'a::len word"
  assumes y: "unat y < 2 ^ k" and x: "unat x * 2 ^ k < 2 ^ LENGTH('a)"
  shows "unat (push_bit k x OR y) = unat x * 2 ^ k + unat y"
proof -
  have p: "unat (push_bit k x) = push_bit k (unat x)"
    by (simp only: unsigned_push_bit_eq) (use x in \<open>simp add: push_bit_eq_mult take_bit_nat_eq_self\<close>)
  have "push_bit k (unat x) AND unat y = 0"
  proof (rule bit_eqI)
    fix n
    have "\<not> bit (unat y) n" if "k \<le> n"
    proof -
      have "unat y < 2 ^ n" using y that by (metis le_less_trans less_le_trans nat_less_le one_le_numeral power_increasing)
      then show ?thesis by (simp add: bit_iff_odd)
    qed
    then show "bit (push_bit k (unat x) AND unat y) n = bit 0 n" by (auto simp: bit_simps)
  qed
  then have "push_bit k (unat x) OR unat y = push_bit k (unat x) + unat y" by (rule disjunctive_add_eq_or [symmetric])
  then show ?thesis unfolding unsigned_or_eq p by (simp only: push_bit_eq_mult)
qed

lemma unat_and_masks:
  fixes b :: u8
  shows "unat (b AND 0x3F) = unat b mod 64" "unat (b AND 0x1F) = unat b mod 32"
    "unat (b AND 0x0F) = unat b mod 16" "unat (b AND 0x07) = unat b mod 8"
proof -
  have "(0x3F :: u8) = mask 6" "(0x1F :: u8) = mask 5" "(0x0F :: u8) = mask 4" "(0x07 :: u8) = mask 3"
    by (simp_all add: mask_eq_exp_minus_1)
  then show "unat (b AND 0x3F) = unat b mod 64" "unat (b AND 0x1F) = unat b mod 32"
    "unat (b AND 0x0F) = unat b mod 16" "unat (b AND 0x07) = unat b mod 8"
    by (simp_all only: take_bit_eq_mask [symmetric] unsigned_take_bit_eq) (simp_all add: take_bit_eq_mod)
qed

lemma unat_rune: "unat (ucast (b :: u8) :: rune) = unat b"
proof -
  have "unat b < 2 ^ 8" using unsigned_less [of b, where 'a = nat] by simp
  then show ?thesis by (simp add: unsigned_ucast_eq take_bit_nat_eq_self)
qed

lemma mod_lt: "(x :: nat) mod 64 < 64" "(x :: nat) mod 32 < 32" "(x :: nat) mod 16 < 16" "(x :: nat) mod 8 < 8"
  by simp_all

lemma decode_bits:
  fixes b0 b1 b2 b3 :: u8
  shows "unat (push_bit 6 (ucast (b0 AND 0x1F)) OR ucast (b1 AND 0x3F) :: rune) = unat b0 mod 32 * 64 + unat b1 mod 64"
    "unat (push_bit 12 (ucast (b0 AND 0x0F)) OR push_bit 6 (ucast (b1 AND 0x3F)) OR ucast (b2 AND 0x3F) :: rune) =
      unat b0 mod 16 * 4096 + (unat b1 mod 64 * 64 + unat b2 mod 64)"
    "unat (push_bit 18 (ucast (b0 AND 0x07)) OR push_bit 12 (ucast (b1 AND 0x3F)) OR push_bit 6 (ucast (b2 AND 0x3F)) OR
        ucast (b3 AND 0x3F) :: rune) =
      unat b0 mod 8 * 262144 + (unat b1 mod 64 * 4096 + (unat b2 mod 64 * 64 + unat b3 mod 64))"
proof -
  note m = mod_lt [of "unat b0"] mod_lt [of "unat b1"] mod_lt [of "unat b2"] mod_lt [of "unat b3"]
  note s = unat_rune unat_and_masks
  have two: "unat (push_bit 6 (ucast (x AND 0x3F)) OR ucast (y AND 0x3F) :: rune) = unat x mod 64 * 64 + unat y mod 64"
    for x y :: u8
    using mod_lt [of "unat x"] mod_lt [of "unat y"] by (subst unat_or_push) (simp_all add: s)
  show "unat (push_bit 6 (ucast (b0 AND 0x1F)) OR ucast (b1 AND 0x3F) :: rune) = unat b0 mod 32 * 64 + unat b1 mod 64"
    using m by (subst unat_or_push) (simp_all add: s)
  have three: "unat (push_bit 12 (ucast (x AND 0x3F)) OR push_bit 6 (ucast (y AND 0x3F)) OR ucast (z AND 0x3F) :: rune) =
      unat x mod 64 * 4096 + (unat y mod 64 * 64 + unat z mod 64)" for x y z :: u8
    using mod_lt [of "unat x"] mod_lt [of "unat y"] mod_lt [of "unat z"]
    by (subst unat_or_push) (simp_all add: s two)
  show "unat (push_bit 12 (ucast (b0 AND 0x0F)) OR push_bit 6 (ucast (b1 AND 0x3F)) OR ucast (b2 AND 0x3F) :: rune) =
      unat b0 mod 16 * 4096 + (unat b1 mod 64 * 64 + unat b2 mod 64)"
    using m by (subst unat_or_push) (simp_all add: s two)
  show "unat (push_bit 18 (ucast (b0 AND 0x07)) OR push_bit 12 (ucast (b1 AND 0x3F)) OR push_bit 6 (ucast (b2 AND 0x3F)) OR
        ucast (b3 AND 0x3F) :: rune) =
      unat b0 mod 8 * 262144 + (unat b1 mod 64 * 4096 + (unat b2 mod 64 * 64 + unat b3 mod 64))"
    using m by (subst unat_or_push) (simp_all add: s three)
qed

lemma u8_order:
  fixes b c :: u8
  shows "b < c \<longleftrightarrow> unat b < unat c" "b \<le> c \<longleftrightarrow> unat b \<le> unat c" "b = c \<longleftrightarrow> unat b = unat c"
  by (simp_all add: word_less_nat_alt word_le_nat_alt word_unat_eq_iff)

section \<open>DecodeRune\<close>

lemmas decode_simps = Let_def first_of_eq u8_order decode_bits unat_and_masks unat_rune

lemma DecodeRune_small:
  assumes "unat b < 0x80 \<or> unat b < 0xC2 \<or> 0xF4 < unat b"
  shows "map_prod unat id (DecodeRune (b # bs)) = (if unat b < 0x80 then unat b else 0xFFFD, 1)"
proof -
  consider "unat b < 0x80" | "\<not> unat b < 0x80" "unat b < 0xC2" | "\<not> unat b < 0x80" "0xF4 < unat b"
    using assms by linarith
  then show ?thesis
    by cases (simp_all add: DecodeRune_def first_class_def decode_simps)
qed

lemma DecodeRune_two:
  assumes "0xC2 \<le> unat b" "unat b < 0xE0"
  shows "map_prod unat id (DecodeRune (b # bs)) = decode1 (map unat (b # bs))"
proof -
  have f: "first_of b = s1_c" using assms by (simp add: first_of_eq first_class_def u8_order)
  show ?thesis
    using assms by (cases bs) (auto simp: DecodeRune_def decode1_def f accept_of_def acceptRanges_def Let_def u8_order decode_bits)
qed

lemma cases3: "length bs < 2 \<or> (\<exists>c d cs. bs = c # d # cs)"
  by (cases bs; cases "tl bs") auto

lemma cases4: "length bs < 3 \<or> (\<exists>c d e cs. bs = c # d # e # cs)"
  by (cases bs; cases "tl bs"; cases "tl (tl bs)") auto

text \<open>The ranges the table gives for the second byte.\<close>

lemma first3:
  assumes "0xE0 \<le> unat b" "unat b < 0xF0"
  shows "unat (first_of b AND 7) = 3" "\<not> as_c \<le> first_of b" "\<not> 240 \<le> unat (first_of b)"
    "unat (lo (accept_of (first_of b))) = (if unat b = 0xE0 then 0xA0 else 0x80)"
    "unat (hi (accept_of (first_of b))) = (if unat b = 0xED then 0x9F else 0xBF)"
  using assms by (simp_all add: first_of_eq first_class_def u8_order accept_of_def acceptRanges_def)

lemma first4:
  assumes "0xF0 \<le> unat b" "unat b \<le> 0xF4"
  shows "unat (first_of b AND 7) = 4" "\<not> as_c \<le> first_of b" "\<not> 240 \<le> unat (first_of b)"
    "unat (lo (accept_of (first_of b))) = (if unat b = 0xF0 then 0x90 else 0x80)"
    "unat (hi (accept_of (first_of b))) = (if unat b = 0xF4 then 0x8F else 0xBF)"
  using assms by (simp_all add: first_of_eq first_class_def u8_order accept_of_def acceptRanges_def)

lemma DecodeRune_three:
  assumes b: "0xE0 \<le> unat b" "unat b < 0xF0"
  shows "map_prod unat id (DecodeRune (b # bs)) = decode1 (map unat (b # bs))"
proof (cases "length bs < 2")
  case True
  then show ?thesis using b by (simp add: DecodeRune_def decode1_def first3 Let_def)
next
  case False
  then obtain c d cs where bs: "bs = c # d # cs" using cases3 by blast
  show ?thesis
    using b unfolding bs
    by (simp add: DecodeRune_def decode1_def first3 Let_def u8_order(1,2) decode_bits not_less not_le)
qed

lemma DecodeRune_four:
  assumes b: "0xF0 \<le> unat b" "unat b \<le> 0xF4"
  shows "map_prod unat id (DecodeRune (b # bs)) = decode1 (map unat (b # bs))"
proof (cases "length bs < 3")
  case True
  then show ?thesis using b by (simp add: DecodeRune_def decode1_def first4 Let_def)
next
  case False
  then obtain c d e cs where bs: "bs = c # d # e # cs" using cases4 by blast
  show ?thesis
    using b unfolding bs
    by (simp add: DecodeRune_def decode1_def first4 Let_def u8_order(1,2) decode_bits not_less not_le)
qed

lemma DecodeRune_decode1: "map_prod unat id (DecodeRune p) = decode1 (map unat p)"
proof (cases p)
  case Nil
  then show ?thesis by (simp add: DecodeRune_def decode1_def)
next
  case (Cons b bs)
  consider "unat b < 0x80 \<or> unat b < 0xC2 \<or> 0xF4 < unat b" | "0xC2 \<le> unat b" "unat b < 0xE0"
    | "0xE0 \<le> unat b" "unat b < 0xF0" | "0xF0 \<le> unat b" "unat b \<le> 0xF4" by linarith
  then show ?thesis
  proof cases
    case 1
    then show ?thesis unfolding Cons DecodeRune_small [OF 1] by (elim disjE) (simp_all add: decode1_def)
  qed (simp_all only: Cons DecodeRune_two DecodeRune_three DecodeRune_four)
qed

text \<open>The code is prefix free and \<open>decode1\<close> inverts it.\<close>

lemma quot_64: "c div 4096 = c div 64 div (64 :: nat)" "c div 262144 = c div 64 div 64 div (64 :: nat)"
  "c div 4096 = (c :: nat) div 64 div 64"
  using div_mult2_eq [of c 64 64] div_mult2_eq [of c 64 4096] div_mult2_eq [of "c div 64" 64 64] by simp_all

lemma split_64: "(c :: nat) = c div 64 * 64 + c mod 64" "(c :: nat) mod 64 < 64"
  by simp_all

lemma div_mod_64: "c div 64 * 64 + c mod 64 = (c :: nat)"
  "c div 4096 * 4096 + (c div 64 mod 64 * 64 + c mod 64) = c"
  "c div 262144 * 262144 + (c div 4096 mod 64 * 4096 + (c div 64 mod 64 * 64 + c mod 64)) = c"
proof -
  show "c div 64 * 64 + c mod 64 = (c :: nat)" by simp
  have a: "c = c div 64 * 64 + c mod 64" and b: "c div 64 = c div 4096 * 64 + c div 64 mod 64"
    and d: "c div 4096 = c div 262144 * 64 + c div 4096 mod 64"
    by (simp_all add: quot_64)
  show "c div 4096 * 4096 + (c div 64 mod 64 * 64 + c mod 64) = c" using a b by linarith
  show "c div 262144 * 262144 + (c div 4096 mod 64 * 4096 + (c div 64 mod 64 * 64 + c mod 64)) = c"
    using a b d by linarith
qed

lemma strip:
  assumes "(x :: nat) < m" "m dvd l"
  shows "(l + x) mod m = x"
proof -
  obtain k where "l = m * k" using assms(2) by (rule dvdE)
  then show ?thesis using assms(1) by simp
qed

lemma make2: "2 \<le> a \<Longrightarrow> a < 32 \<Longrightarrow> r < 64 \<Longrightarrow> decode1 ((0xC0 + a) # (0x80 + r) # bs) = (a * 64 + r, 2)"
  using strip [of a 32 "0xC0"] strip [of r 64 "0x80"] by (simp add: decode1_def)

lemma make3:
  "a < 16 \<Longrightarrow> b < 64 \<Longrightarrow> r < 64 \<Longrightarrow> (a = 0 \<Longrightarrow> 32 \<le> b) \<Longrightarrow> (a = 13 \<Longrightarrow> b < 32) \<Longrightarrow>
    decode1 ((0xE0 + a) # (0x80 + b) # (0x80 + r) # bs) = (a * 4096 + (b * 64 + r), 3)"
  using strip [of a 16 "0xE0"] strip [of b 64 "0x80"] strip [of r 64 "0x80"]
  by (cases "a = 0"; cases "a = 13") (simp_all add: decode1_def)

lemma make4:
  "a \<le> 4 \<Longrightarrow> b < 64 \<Longrightarrow> d < 64 \<Longrightarrow> r < 64 \<Longrightarrow> (a = 0 \<Longrightarrow> 16 \<le> b) \<Longrightarrow> (a = 4 \<Longrightarrow> b < 16) \<Longrightarrow>
    decode1 ((0xF0 + a) # (0x80 + b) # (0x80 + d) # (0x80 + r) # bs) = (a * 262144 + (b * 4096 + (d * 64 + r)), 4)"
  using strip [of a 8 "0xF0"] strip [of b 64 "0x80"] strip [of d 64 "0x80"] strip [of r 64 "0x80"]
  by (cases "a = 0"; cases "a = 4") (simp_all add: decode1_def)

lemma decode1_utf8:
  assumes "scalar c"
  shows "decode1 (utf8 c @ bs) = (c, length (utf8 c))"
proof -
  consider "c < 0x80" | "0x80 \<le> c" "c < 0x800" | "0x800 \<le> c" "c < 0x10000" | "0x10000 \<le> c" "c \<le> 0x10FFFF"
    using assms unfolding scalar_def by linarith
  then show ?thesis
  proof cases
    case 1
    then show ?thesis by (simp add: utf8_def decode1_def)
  next
    case 2
    then have q: "2 \<le> c div 64" "c div 64 < 32" using split_64 [of c] by linarith+
    have "utf8 c = [0xC0 + c div 64, 0x80 + c mod 64]" using 2 unfolding utf8_def by simp
    then show ?thesis using make2 [OF q mod_lt(1), of c bs] by simp
  next
    case 3
    note m = div_mod_64(2) [of c] mod_lt(1) [of c] mod_lt(1) [of "c div 64"]
    have q: "c div 4096 < 16" using 3 m by linarith
    have l: "c div 4096 = 0 \<Longrightarrow> 32 \<le> c div 64 mod 64" using 3 m by linarith
    have h: "c div 4096 = 13 \<Longrightarrow> c div 64 mod 64 < 32" using assms 3 m unfolding scalar_def by linarith
    from make3 [OF q mod_lt(1) mod_lt(1) l h] 3 show ?thesis using div_mod_64(2) [of c] by (simp add: utf8_def)
  next
    case 4
    note m = div_mod_64(3) [of c] mod_lt(1) [of c] mod_lt(1) [of "c div 64"] mod_lt(1) [of "c div 4096"]
    have q: "c div 262144 \<le> 4" using 4 m by linarith
    have l: "c div 262144 = 0 \<Longrightarrow> 16 \<le> c div 4096 mod 64" using 4 m by linarith
    have h: "c div 262144 = 4 \<Longrightarrow> c div 4096 mod 64 < 16" using 4 m by linarith
    from make4 [OF q mod_lt(1) mod_lt(1) mod_lt(1) l h] 4 show ?thesis using div_mod_64(3) [of c] by (simp add: utf8_def)
  qed
qed

lemma cont_byte:
  assumes "0x80 \<le> b" "b \<le> 0xBF"
  shows "0x80 + b mod 64 = (b :: nat)"
proof -
  have "b mod 64 = b - 0x80" using assms mod_nat_eqI [of "b - 0x80" 64 b] by simp
  then show ?thesis using assms by simp
qed

lemma digits2:
  assumes "y < 64"
  shows "(a * 64 + y) div 64 = a" "(a * 64 + y) mod 64 = (y :: nat)"
  using assms by simp_all

lemma digits3:
  assumes "y < 64" "z < 64"
  shows "(a * 4096 + (y * 64 + z)) div 4096 = a" "(a * 4096 + (y * 64 + z)) div 64 mod 64 = y"
    "(a * 4096 + (y * 64 + z)) mod 64 = (z :: nat)"
proof -
  have e: "a * 4096 + (y * 64 + z) = (a * 64 + y) * 64 + z" by simp
  show "(a * 4096 + (y * 64 + z)) div 4096 = a" "(a * 4096 + (y * 64 + z)) div 64 mod 64 = y"
    "(a * 4096 + (y * 64 + z)) mod 64 = z"
    unfolding e quot_64 digits2 [OF assms(2)] digits2 [OF assms(1)] by (rule refl)+
qed

lemma digits4:
  assumes "x < 64" "y < 64" "z < 64"
  shows "(a * 262144 + (x * 4096 + (y * 64 + z))) div 262144 = a"
    "(a * 262144 + (x * 4096 + (y * 64 + z))) div 4096 mod 64 = x"
    "(a * 262144 + (x * 4096 + (y * 64 + z))) div 64 mod 64 = y"
    "(a * 262144 + (x * 4096 + (y * 64 + z))) mod 64 = (z :: nat)"
proof -
  have e: "a * 262144 + (x * 4096 + (y * 64 + z)) = ((a * 64 + x) * 64 + y) * 64 + z" by simp
  show "(a * 262144 + (x * 4096 + (y * 64 + z))) div 262144 = a"
    "(a * 262144 + (x * 4096 + (y * 64 + z))) div 4096 mod 64 = x"
    "(a * 262144 + (x * 4096 + (y * 64 + z))) div 64 mod 64 = y"
    "(a * 262144 + (x * 4096 + (y * 64 + z))) mod 64 = z"
    unfolding e quot_64 digits2 [OF assms(3)] digits2 [OF assms(2)] digits2 [OF assms(1)] by (rule refl)+
qed

lemma lead_byte:
  "m dvd l \<Longrightarrow> (b :: nat) < l + m \<Longrightarrow> l \<le> b \<Longrightarrow> l + b mod m = b"
proof -
  assume a: "m dvd l" "b < l + m" "l \<le> b"
  have "b mod m = b - l" by (rule mod_nat_eqI) (use a in auto)
  then show ?thesis using a(3) by simp
qed

text \<open>What \<open>decode1\<close> accepts are encodings.\<close>

lemma decode1_two:
  assumes "0xC2 \<le> b" "b < 0xE0" "0x80 \<le> c" "c \<le> 0xBF"
  shows "scalar (b mod 32 * 64 + c mod 64)" "utf8 (b mod 32 * 64 + c mod 64) = [b, c]"
proof -
  let ?r = "b mod 32 * 64 + c mod 64"
  have b0: "0xC0 + b mod 32 = b" by (rule lead_byte) (use assms in auto)
  then have b: "0xC0 + b mod 32 = b" "2 \<le> b mod 32" "b mod 32 < 32" using assms by linarith+
  have r: "0x80 \<le> ?r" "?r < 0x800" using b(2,3) mod_lt(1) [of c] by linarith+
  then show "scalar ?r" by (simp add: scalar_def)
  show "utf8 ?r = [b, c]" using r b(1) cont_byte [OF assms(3,4)] by (simp add: utf8_def digits2 [OF mod_lt(1)])
qed

lemma decode1_three:
  assumes b: "0xE0 \<le> b" "b < 0xF0" and c: "(if b = 0xE0 then 0xA0 else 0x80) \<le> c" "c \<le> (if b = 0xED then 0x9F else 0xBF)"
    and d: "0x80 \<le> d" "d \<le> 0xBF"
  shows "scalar (b mod 16 * 4096 + (c mod 64 * 64 + d mod 64))"
    "utf8 (b mod 16 * 4096 + (c mod 64 * 64 + d mod 64)) = [b, c, d]"
proof -
  let ?r = "b mod 16 * 4096 + (c mod 64 * 64 + d mod 64)"
  have "0xE0 + b mod 16 = b" by (rule lead_byte) (use b in auto)
  then have b2: "0xE0 + b mod 16 = b" "b mod 16 < 16" by simp_all
  have c2: "0x80 \<le> c" "c \<le> 0xBF" using c by (auto split: if_splits)
  have cb: "0x80 + c mod 64 = c" using cont_byte [OF c2] .
  have lt: "c mod 64 < 64" "d mod 64 < 64" by simp_all
  have z: "b mod 16 = 0 \<Longrightarrow> 32 \<le> c mod 64" using b2(1) c(1) cb by (cases "b = 0xE0") auto
  have s: "b mod 16 = 13 \<Longrightarrow> c mod 64 < 32" using b2(1) c(2) cb by (cases "b = 0xED") auto
  have r: "0x800 \<le> ?r" "?r < 0x10000" using z lt b2(2) by (cases "b mod 16 = 0"; linarith)+
  have "?r < 0xD800 \<or> 0xDFFF < ?r"
  proof (cases "b mod 16 \<le> 13")
    case True
    then show ?thesis using s lt by (cases "b mod 16 = 13") linarith+
  qed linarith
  then show "scalar ?r" using r by (simp add: scalar_def)
  show "utf8 ?r = [b, c, d]" using r b2(1) cb cont_byte [OF d] by (simp add: utf8_def digits3 [OF mod_lt(1) mod_lt(1)])
qed

lemma decode1_four:
  assumes b: "0xF0 \<le> b" "b \<le> 0xF4" and c: "(if b = 0xF0 then 0x90 else 0x80) \<le> c" "c \<le> (if b = 0xF4 then 0x8F else 0xBF)"
    and d: "0x80 \<le> d" "d \<le> 0xBF" and e: "0x80 \<le> e" "e \<le> 0xBF"
  shows "scalar (b mod 8 * 262144 + (c mod 64 * 4096 + (d mod 64 * 64 + e mod 64)))"
    "utf8 (b mod 8 * 262144 + (c mod 64 * 4096 + (d mod 64 * 64 + e mod 64))) = [b, c, d, e]"
proof -
  let ?r = "b mod 8 * 262144 + (c mod 64 * 4096 + (d mod 64 * 64 + e mod 64))"
  have "0xF0 + b mod 8 = b" by (rule lead_byte) (use b in auto)
  then have b2: "0xF0 + b mod 8 = b" "b mod 8 \<le> 4" using b(2) by linarith+
  have c2: "0x80 \<le> c" "c \<le> 0xBF" using c by (auto split: if_splits)
  have cb: "0x80 + c mod 64 = c" using cont_byte [OF c2] .
  have lt: "c mod 64 < 64" "d mod 64 < 64" "e mod 64 < 64" by simp_all
  have z: "b mod 8 = 0 \<Longrightarrow> 16 \<le> c mod 64" using b2(1) c(1) cb by (cases "b = 0xF0") auto
  have s: "b mod 8 = 4 \<Longrightarrow> c mod 64 < 16" using b2(1) c(2) cb by (cases "b = 0xF4") auto
  have r: "0x10000 \<le> ?r" using z lt by (cases "b mod 8 = 0") linarith+
  moreover have "?r \<le> 0x10FFFF" using s lt b2(2) by (cases "b mod 8 = 4") linarith+
  ultimately show "scalar ?r" by (simp add: scalar_def)
  show "utf8 ?r = [b, c, d, e]" using r b2(1) cb cont_byte [OF d] cont_byte [OF e] by (simp add: utf8_def digits4 [OF mod_lt(1) mod_lt(1) mod_lt(1)])
qed

lemma decode1_cases:
  assumes "bs \<noteq> []" "decode1 bs = (c, n)"
  shows "scalar c \<and> n = length (utf8 c) \<and> take n bs = utf8 c \<or> c = 0xFFFD \<and> n = 1"
proof -
  obtain b bs' where bs: "bs = b # bs'" using assms(1) by (cases bs) auto
  consider "b < 0x80" | "0x80 \<le> b" "b < 0xC2 \<or> 0xF4 < b" | "0xC2 \<le> b" "b < 0xE0" | "0xE0 \<le> b" "b < 0xF0"
    | "0xF0 \<le> b" "b \<le> 0xF4" by linarith
  then show ?thesis
  proof cases
    case 1
    then show ?thesis using assms(2) by (auto simp: bs decode1_def scalar_def utf8_def)
  next
    case 2
    then show ?thesis using assms(2) by (auto simp: bs decode1_def)
  next
    case 3
    then show ?thesis using assms(2) decode1_two [OF 3]
      by (cases bs') (auto simp: bs decode1_def split: if_splits)
  next
    case 4
    show ?thesis
    proof (cases "length bs' < 2")
      case True
      then show ?thesis using assms(2) 4 by (auto simp: bs decode1_def)
    next
      case False
      then obtain d e cs where b2: "bs' = d # e # cs" using cases3 by blast
      show ?thesis using assms(2) 4 decode1_three [OF 4, of d e]
        by (auto simp: bs b2 decode1_def split: if_splits)
    qed
  next
    case 5
    show ?thesis
    proof (cases "length bs' < 3")
      case True
      then show ?thesis using assms(2) 5 by (auto simp: bs decode1_def)
    next
      case False
      then obtain d e f cs where b2: "bs' = d # e # f # cs" using cases4 by blast
      show ?thesis using assms(2) 5 decode1_four [OF 5, of d e f]
        by (auto simp: bs b2 decode1_def split: if_splits)
    qed
  qed
qed

text \<open>The encoding of a scalar value as bytes.\<close>

definition enc :: "nat \<Rightarrow> bytes" where
  "enc c = map of_nat (utf8 c)"

lemma unat_u8: "n < 256 \<Longrightarrow> unat (of_nat n :: u8) = n"
  by (simp add: unat_of_nat)

lemma map_unat_enc: "scalar c \<Longrightarrow> map unat (enc c) = utf8 c"
  using utf8_range [of c] by (simp add: enc_def map_idI unat_u8)

lemma length_enc [simp]: "length (enc c) = length (utf8 c)"
  by (simp add: enc_def)

lemma enc_of_take: "map unat xs = utf8 c \<Longrightarrow> xs = enc c"
proof -
  assume "map unat xs = utf8 c"
  then have "map of_nat (map unat xs) = enc c" by (simp add: enc_def)
  then show "xs = enc c" by (simp add: map_idI)
qed

lemma scalar_bound: "scalar c \<Longrightarrow> c \<le> 0x10FFFF"
  by (auto simp: scalar_def)

lemma unat_of_scalar: "scalar c \<Longrightarrow> unat (of_nat c :: rune) = c"
  using scalar_bound [of c] by (simp add: unat_of_nat)

lemma DecodeRune_enc:
  assumes "scalar c"
  shows "DecodeRune (enc c @ q) = (of_nat c, length (enc c))"
proof -
  have "map_prod unat id (DecodeRune (enc c @ q)) = (c, length (utf8 c))"
    unfolding DecodeRune_decode1 map_append map_unat_enc [OF assms] by (rule decode1_utf8 [OF assms])
  then show ?thesis using unat_of_scalar [OF assms] by (cases "DecodeRune (enc c @ q)") (auto simp: word_unat_eq_iff)
qed

lemma DecodeRune_cases:
  assumes "p \<noteq> []"
  obtains c where "scalar c" "p = enc c @ drop (length (enc c)) p" "DecodeRune p = (of_nat c, length (enc c))"
    | "\<And>c q. scalar c \<Longrightarrow> p \<noteq> enc c @ q" "DecodeRune p = (RuneError, 1)"
proof -
  obtain r n where d: "DecodeRune p = (r, n)" by fastforce
  then have d1: "decode1 (map unat p) = (unat r, n)" using DecodeRune_decode1 [of p] by simp
  from decode1_cases [OF _ d1] assms
  consider "scalar (unat r)" "n = length (utf8 (unat r))" "take n (map unat p) = utf8 (unat r)" | "unat r = 0xFFFD" "n = 1"
    by auto
  then show thesis
  proof cases
    case 1
    then have "take n p = enc (unat r)" by (intro enc_of_take) (simp add: take_map)
    then have "p = enc (unat r) @ drop (length (enc (unat r))) p" using 1(2) append_take_drop_id [of n p] by simp
    then show thesis using that(1) [OF 1(1)] d 1(2) by simp
  next
    case 2
    have "p \<noteq> enc c @ q" if "scalar c" for c q
    proof
      assume "p = enc c @ q"
      then have "(r, n) = (of_nat c, length (utf8 c))" using DecodeRune_enc [OF that, of q] d by simp
      then have "c = 0xFFFD" "length (utf8 c) = 1" using 2 unat_of_scalar [OF that] by auto
      then show False by (simp add: utf8_def)
    qed
    moreover have "r = RuneError" using 2(1) by (simp add: word_unat_eq_iff)
    ultimately show thesis using that(2) d 2(2) by simp
  qed
qed

section \<open>EncodeRune\<close>

lemma ucast_shift:
  fixes r :: rune
  assumes "n \<le> 24"
  shows "unat (ucast (signed_drop_bit n r) :: u8) = unat r div 2 ^ n mod 256"
proof -
  have "(ucast (signed_drop_bit n r) :: u8) = ucast (drop_bit n r)"
    by (rule bit_word_eqI) (use assms in \<open>auto simp: bit_simps\<close>)
  then show ?thesis by (simp only: unsigned_ucast_eq unat_drop_bit_eq) (simp add: take_bit_eq_mod drop_bit_eq_div)
qed

lemma unat_ucast8: "unat (ucast (r :: rune) :: u8) = unat r mod 256"
  by (simp add: unsigned_ucast_eq take_bit_eq_mod)

lemma or_lead:
  fixes b :: u8
  shows "unat b < 64 \<Longrightarrow> unat (0x80 OR b) = 0x80 + unat b" "unat b < 32 \<Longrightarrow> unat (0xC0 OR b) = 0xC0 + unat b"
    "unat b < 16 \<Longrightarrow> unat (0xE0 OR b) = 0xE0 + unat b" "unat b < 8 \<Longrightarrow> unat (0xF0 OR b) = 0xF0 + unat b"
  using unat_or_push [of b 6 2] unat_or_push [of b 5 6] unat_or_push [of b 4 14] unat_or_push [of b 3 30]
  by simp_all

lemma cont_enc:
  fixes r :: rune
  shows "unat (0x80 OR ucast r AND 0x3F :: u8) = 0x80 + unat r mod 64"
    "n \<le> 24 \<Longrightarrow> unat (0x80 OR ucast (signed_drop_bit n r) AND 0x3F :: u8) = 0x80 + unat r div 2 ^ n mod 64"
proof -
  have m: "x mod 256 mod 64 = x mod (64 :: nat)" for x by (simp add: mod_mod_cancel)
  show "unat (0x80 OR ucast r AND 0x3F :: u8) = 0x80 + unat r mod 64"
    by (subst or_lead) (simp_all add: unat_and_masks unat_ucast8 m)
  show "n \<le> 24 \<Longrightarrow> unat (0x80 OR ucast (signed_drop_bit n r) AND 0x3F :: u8) = 0x80 + unat r div 2 ^ n mod 64"
    by (subst or_lead) (simp_all add: unat_and_masks ucast_shift m)
qed

lemma u8_list_eqI: "map unat xs = map unat (ys :: bytes) \<Longrightarrow> xs = ys"
  by (rule map_injective) (auto intro: injI simp: word_unat_eq_iff)

lemma cont_encs:
  fixes r :: rune
  shows "unat (0x80 OR ucast r AND 0x3F :: u8) = 0x80 + unat r mod 64"
    "unat (0x80 OR ucast (signed_drop_bit 6 r) AND 0x3F :: u8) = 0x80 + unat r div 64 mod 64"
    "unat (0x80 OR ucast (signed_drop_bit 12 r) AND 0x3F :: u8) = 0x80 + unat r div 4096 mod 64"
proof -
  show "unat (0x80 OR ucast r AND 0x3F :: u8) = 0x80 + unat r mod 64" by (rule cont_enc(1))
  show "unat (0x80 OR ucast (signed_drop_bit 6 r) AND 0x3F :: u8) = 0x80 + unat r div 64 mod 64"
    by (rule trans [OF cont_enc(2)]) simp_all
  show "unat (0x80 OR ucast (signed_drop_bit 12 r) AND 0x3F :: u8) = 0x80 + unat r div 4096 mod 64"
    by (rule trans [OF cont_enc(2)]) simp_all
qed

lemma lead_encs:
  fixes r :: rune
  shows "unat r div 64 < 32 \<Longrightarrow> unat (0xC0 OR ucast (signed_drop_bit 6 r) :: u8) = 0xC0 + unat r div 64"
    "unat r div 4096 < 16 \<Longrightarrow> unat (0xE0 OR ucast (signed_drop_bit 12 r) :: u8) = 0xE0 + unat r div 4096"
    "unat r div 262144 < 8 \<Longrightarrow> unat (0xF0 OR ucast (signed_drop_bit 18 r) :: u8) = 0xF0 + unat r div 262144"
proof -
  have e: "unat (ucast (signed_drop_bit 6 r) :: u8) = unat r div 64 mod 256"
    "unat (ucast (signed_drop_bit 12 r) :: u8) = unat r div 4096 mod 256"
    "unat (ucast (signed_drop_bit 18 r) :: u8) = unat r div 262144 mod 256"
    by (rule trans [OF ucast_shift]; simp)+
  show "unat r div 64 < 32 \<Longrightarrow> unat (0xC0 OR ucast (signed_drop_bit 6 r) :: u8) = 0xC0 + unat r div 64"
    by (subst or_lead(2); simp only: e; simp)
  show "unat r div 4096 < 16 \<Longrightarrow> unat (0xE0 OR ucast (signed_drop_bit 12 r) :: u8) = 0xE0 + unat r div 4096"
    by (subst or_lead(3); simp only: e; simp)
  show "unat r div 262144 < 8 \<Longrightarrow> unat (0xF0 OR ucast (signed_drop_bit 18 r) :: u8) = 0xF0 + unat r div 262144"
    by (subst or_lead(4); simp only: e; simp)
qed

lemma write_prefix:
  "1 \<le> length p \<Longrightarrow> p[0 := a] = [a] @ drop 1 p"
  "2 \<le> length p \<Longrightarrow> p[0 := a, 1 := b] = [a, b] @ drop (Suc (Suc 0)) p"
  "3 \<le> length p \<Longrightarrow> p[0 := a, 1 := b, 2 := c] = [a, b, c] @ drop (Suc (Suc (Suc 0))) p"
  "4 \<le> length p \<Longrightarrow> p[0 := a, 1 := b, 2 := c, 3 := d] = [a, b, c, d] @ drop (Suc (Suc (Suc (Suc 0)))) p"
  by (auto simp: numeral_eq_Suc Suc_le_length_iff)

text \<open>What \<open>EncodeRune\<close> writes for a rune.\<close>

definition write_enc :: "nat \<Rightarrow> bytes \<Rightarrow> (bytes \<times> nat) outcome" where
  "write_enc c p = (if length p < length (enc c) then Panic ''index out of range''
     else Ret (enc c @ drop (length (enc c)) p, length (enc c)))"

lemma write_encI:
  assumes "map unat xs = utf8 c" "w = (if length p < length xs then Panic ''index out of range'' else Ret (xs @ drop (length xs) p, length xs))"
  shows "w = write_enc c p"
  unfolding write_enc_def enc_of_take [OF assms(1), symmetric] by (rule assms(2))

lemma put3_enc:
  assumes "unat r < 0x10000" "0x800 \<le> unat r"
  shows "put3 p r = write_enc (unat r) p"
proof (rule write_encI)
  have u: "utf8 (unat r) = [0xE0 + unat r div 4096, 0x80 + unat r div 64 mod 64, 0x80 + unat r mod 64]"
    using assms by (simp add: utf8_def)
  have q: "unat r div 4096 < 16" using assms div_mod_64(2) [of "unat r"] by linarith
  show "map unat [0xE0 OR ucast (signed_drop_bit 12 r), 0x80 OR ucast (signed_drop_bit 6 r) AND 0x3F, 0x80 OR ucast r AND 0x3F :: u8] = utf8 (unat r)"
    unfolding u list.map cont_encs(2,3) lead_encs(2) [OF q] unfolding cont_encs(1) by (rule refl)
qed (use write_prefix(3) [of p] in \<open>auto simp: put3_def\<close>)

lemma EncodeRune_write: "EncodeRune p r = write_enc (if scalar (unat r) then unat r else 0xFFFD) p"
proof -
  have o: "r \<le> s \<longleftrightarrow> unat r \<le> unat s" "s \<le> r \<longleftrightarrow> unat s \<le> unat r" "s < r \<longleftrightarrow> unat s < unat r" for s :: rune
    by (simp_all add: word_less_nat_alt word_le_nat_alt)
  consider "unat r < 0x80" | "0x80 \<le> unat r" "unat r < 0x800" | "0x800 \<le> unat r" "unat r < 0x10000" "scalar (unat r)"
    | "\<not> scalar (unat r)" | "0x10000 \<le> unat r" "unat r \<le> 0x10FFFF"
    unfolding scalar_def by linarith
  then show ?thesis
  proof cases
    case 1
    have s: "scalar (unat r)" using 1 by (simp add: scalar_def)
    have "map unat [ucast r :: u8] = utf8 (unat r)" using 1 unat_ucast8 [of r] by (simp add: utf8_def)
    then have "EncodeRune p r = write_enc (unat r) p"
      by (rule write_encI) (use 1 in \<open>cases p; auto simp: EncodeRune_def o\<close>)
    with s show ?thesis by simp
  next
    case 2
    have u: "utf8 (unat r) = [0xC0 + unat r div 64, 0x80 + unat r mod 64]" using 2 unfolding utf8_def by simp
    have q: "unat r div 64 < 32" using 2 div_mod_64(1) [of "unat r"] by linarith
    have s: "scalar (unat r)" using 2 by (simp add: scalar_def)
    have "map unat [0xC0 OR ucast (signed_drop_bit 6 r), 0x80 OR ucast r AND 0x3F :: u8] = utf8 (unat r)"
      unfolding u list.map cont_encs(2,3) lead_encs(1) [OF q] unfolding cont_encs(1) by (rule refl)
    then have "EncodeRune p r = write_enc (unat r) p"
      by (rule write_encI) (use 2 write_prefix(2) [of p] in \<open>auto simp: EncodeRune_def o\<close>)
    with s show ?thesis by simp
  next
    case 3
    then have "\<not> (0xD800 \<le> unat r \<and> unat r \<le> 0xDFFF)" unfolding scalar_def by linarith
    with 3 show ?thesis unfolding EncodeRune_def o put3_enc [OF 3(2,1)] by auto
  next
    case 4
    then have "0x10FFFF < unat r \<or> 0xD800 \<le> unat r \<and> unat r \<le> 0xDFFF" "\<not> unat r \<le> 0x7FF"
      unfolding scalar_def by linarith+
    with 4 put3_enc [of "0xFFFD" p] show ?thesis unfolding EncodeRune_def o by auto
  next
    case 5
    have u: "utf8 (unat r) = [0xF0 + unat r div 262144, 0x80 + unat r div 4096 mod 64, 0x80 + unat r div 64 mod 64, 0x80 + unat r mod 64]"
      using 5 by (simp add: utf8_def)
    have q: "unat r div 262144 < 8" using 5 div_mod_64(3) [of "unat r"] by linarith
    have s: "scalar (unat r)" using 5 by (simp add: scalar_def)
    have "map unat [0xF0 OR ucast (signed_drop_bit 18 r), 0x80 OR ucast (signed_drop_bit 12 r) AND 0x3F,
      0x80 OR ucast (signed_drop_bit 6 r) AND 0x3F, 0x80 OR ucast r AND 0x3F :: u8] = utf8 (unat r)"
      unfolding u list.map cont_encs(2,3) lead_encs(3) [OF q] unfolding cont_encs(1) by (rule refl)
    then have "EncodeRune p r = write_enc (unat r) p"
      by (rule write_encI) (use 5 write_prefix(4) [of p] in \<open>auto simp: EncodeRune_def o\<close>)
    with s show ?thesis by simp
  qed
qed

lemma encoderune_EncodeRune: "encoderune p r = EncodeRune p r"
  by (simp add: encoderune_def EncodeRune_def)

end
