(* ===== verification/Utf8_Props.thy ===== *)
theory Utf8_Props
  imports Utf8_Spec
begin

text \<open>
  The loops over a whole string, the decoder of the runtime, decoding from the end, and the
  properties of the package.
\<close>

section \<open>Rune by rune\<close>

lemma DecodeRune_size:
  assumes "p \<noteq> []"
  shows "1 \<le> snd (DecodeRune p) \<and> snd (DecodeRune p) \<le> length p"
proof (rule DecodeRune_cases [OF assms])
  fix c assume c: "p = enc c @ drop (length (enc c)) p" "DecodeRune p = (of_nat c, length (enc c))"
  have "length (enc c) \<le> length p" by (subst c(1)) simp
  then show ?thesis using c(2) length_utf8(1) [of c] by (simp add: Suc_le_eq)
next
  assume "DecodeRune p = (RuneError, 1)"
  then show ?thesis using assms by (simp add: Suc_le_eq)
qed

text \<open>The runes of a string, as \<open>range\<close> gives them.\<close>

function runes :: "bytes \<Rightarrow> rune list" where
  "runes p = (if p = [] then [] else case DecodeRune p of (r, n) \<Rightarrow> r # runes (drop n p))"
  by pat_completeness auto
termination
proof (relation "measure length", goal_cases)
  case (2 p r n)
  then show ?case using DecodeRune_size [of p] by (cases "DecodeRune p") auto
qed simp

declare runes.simps [simp del]

lemma runes_Nil [simp]: "runes [] = []"
  by (simp add: runes.simps)

lemma enc_nonempty: "enc c \<noteq> []"
  using length_utf8(1) [of c] by (auto simp: enc_def)

lemma runes_enc: "scalar c \<Longrightarrow> runes (enc c @ q) = of_nat c # runes q"
  using enc_nonempty [of c] by (subst runes.simps) (simp add: DecodeRune_enc)

definition enc_all :: "nat list \<Rightarrow> bytes" where
  "enc_all cs = concat (map enc cs)"

lemma runes_enc_all: "\<forall>c\<in>set cs. scalar c \<Longrightarrow> runes (enc_all cs) = map of_nat cs"
  by (induction cs) (auto simp: enc_all_def runes_enc)

section \<open>RuneCount\<close>

text \<open>The width \<open>DecodeRune\<close> finds, as the counting loop computes it.\<close>

lemma sizes: "first_of b = as_c \<and> unat b < 0x80 \<or> first_of b = xx_c \<and> 0x80 \<le> unat b
   \<or> \<not> as_c \<le> first_of b \<and> first_of b \<noteq> xx_c \<and> 0x80 \<le> unat b \<and> unat (first_of b AND 7) \<in> {2, 3, 4}"
  by (auto simp: first_of_eq first_class_def u8_order(1))

lemma tail_ok_0: "tail_ok p 0 sz a =
   (if p ! 1 < lo a \<or> hi a < p ! 1 then False else if sz = 2 then True else if p ! 2 < 0x80 \<or> 0xBF < p ! 2 then False
    else if sz = 3 then True else if p ! 3 < 0x80 \<or> 0xBF < p ! 3 then False else True)"
  by (simp only: tail_ok_def add_0)

lemma DecodeRune_width:
  assumes "p \<noteq> []"
  shows "snd (DecodeRune p) =
    (if p ! 0 < 0x80 \<or> first_of (p ! 0) = xx_c then 1
     else let sz = unat (first_of (p ! 0) AND 7) in
       if sz > length p then 1 else if tail_ok p 0 sz (accept_of (first_of (p ! 0))) then sz else 1)"
proof -
  consider (a) "first_of (p ! 0) = as_c" "p ! 0 < 0x80" | (x) "first_of (p ! 0) = xx_c" "\<not> p ! 0 < 0x80"
    | (s) "\<not> as_c \<le> first_of (p ! 0)" "\<not> p ! 0 < 0x80" "first_of (p ! 0) \<noteq> xx_c" "unat (first_of (p ! 0) AND 7) \<in> {2, 3, 4}"
    using sizes [of "p ! 0"] by (auto simp: u8_order(1))
  then show ?thesis
  proof cases
    case s
    consider "unat (first_of (p ! 0) AND 7) = 2" | "unat (first_of (p ! 0) AND 7) = 3" | "unat (first_of (p ! 0) AND 7) = 4"
      using s(4) by blast
    then show ?thesis using s(1-3) assms by cases (simp_all add: DecodeRune_def tail_ok_0 Let_def)
  qed (use assms in \<open>simp_all add: DecodeRune_def Let_def\<close>)
qed

lemma tail_ok_drop: "i + sz \<le> length p \<Longrightarrow> sz \<in> {2, 3, 4} \<Longrightarrow> tail_ok p i sz a \<longleftrightarrow> tail_ok (drop i p) 0 sz a"
  by (auto simp: tail_ok_def)

lemma count_loop_runes: "count_loop p i n = n + length (runes (drop i p))"
proof (induction p i n rule: count_loop.induct)
  case (1 p i n)
  show ?case
  proof (cases "i < length p")
    case True
    let ?c = "p ! i" let ?x = "first_of ?c" let ?sz = "unat (?x AND 7)"
    have d0: "drop i p ! 0 = ?c" "drop i p \<noteq> []" "length (drop i p) = length p - i" using True by auto
    have r: "length (runes (drop i p)) = Suc (length (runes (drop (i + snd (DecodeRune (drop i p))) p)))"
      using True by (subst runes.simps) (auto simp: add.commute split: prod.split)
    note w = DecodeRune_width [OF d0(2), unfolded d0(1,3)]
    show ?thesis
    proof (cases "?c < 0x80 \<or> ?x = xx_c")
      case a: True
      then have "snd (DecodeRune (drop i p)) = 1" using w by simp
      with r a True 1(1,2) show ?thesis by (subst count_loop.simps) (auto simp: Let_def)
    next
      case False
      then have sz: "?sz \<in> {2, 3, 4}" using sizes [of ?c] by (auto simp: u8_order(1))
      show ?thesis
      proof (cases "i + ?sz > length p")
        case b: True
        then have "snd (DecodeRune (drop i p)) = 1" using w False True by (auto simp: Let_def)
        with r b False True 1(3) show ?thesis by (subst count_loop.simps) (auto simp: Let_def)
      next
        case b: False
        then have "snd (DecodeRune (drop i p)) = (if tail_ok p i ?sz (accept_of ?x) then ?sz else 1)"
          using w False tail_ok_drop [OF _ sz, of i p "accept_of ?x"] by (auto simp: Let_def)
        with r b False True 1(4) show ?thesis by (subst count_loop.simps) (simp add: Let_def)
      qed
    qed
  next
    case False
    then show ?thesis by (subst count_loop.simps) simp
  qed
qed

lemma count_string_loop_eq: "count_string_loop s i n = count_loop s i n"
proof (induction s i n rule: count_string_loop.induct)
  case (1 s i n)
  then show ?case by (subst count_string_loop.simps, subst count_loop.simps) (auto simp: Let_def)
qed

section \<open>Valid\<close>

definition wf8 :: "bytes \<Rightarrow> bool" where
  "wf8 p \<longleftrightarrow> (\<exists>cs. (\<forall>c\<in>set cs. scalar c) \<and> p = enc_all cs)"

lemma wf8_Nil [simp]: "wf8 []"
  unfolding wf8_def by (rule exI [of _ "[]"]) (simp add: enc_all_def)

lemma wf8_enc:
  assumes "scalar c"
  shows "wf8 (enc c @ q) \<longleftrightarrow> wf8 q"
proof
  assume "wf8 (enc c @ q)"
  then obtain cs where cs: "\<forall>c\<in>set cs. scalar c" "enc c @ q = enc_all cs" unfolding wf8_def by blast
  then obtain d ds where ds: "cs = d # ds" using enc_nonempty [of c] by (cases cs) (auto simp: enc_all_def)
  have e: "enc c @ q = enc d @ enc_all ds" using cs(2) by (simp add: ds enc_all_def)
  have "scalar d" using cs(1) ds by simp
  then have "(of_nat c :: rune, length (enc c)) = (of_nat d, length (enc d))"
    using DecodeRune_enc [OF assms, of q] DecodeRune_enc [of d "enc_all ds"] e by simp
  then have "q = enc_all ds" using e by (metis append_eq_append_conv prod.inject)
  then show "wf8 q" using cs(1) ds by (auto simp: wf8_def)
next
  assume "wf8 q"
  then obtain cs where "\<forall>c\<in>set cs. scalar c" "q = enc_all cs" unfolding wf8_def by blast
  with assms show "wf8 (enc c @ q)" unfolding wf8_def by (intro exI [of _ "c # cs"]) (simp add: enc_all_def)
qed

lemma enc_ascii: "c < 0x80 \<Longrightarrow> enc c = [of_nat c]"
  by (simp add: enc_def utf8_def)

lemma wf8_ascii:
  assumes "d \<noteq> []" "d ! 0 < 0x80"
  shows "wf8 d \<longleftrightarrow> wf8 (drop 1 d)"
proof -
  have c: "unat (d ! 0) < 0x80" using assms(2) by (simp add: u8_order)
  then have "d = enc (unat (d ! 0)) @ drop 1 d" using assms(1) by (cases d) (simp_all add: enc_ascii)
  moreover have "scalar (unat (d ! 0))" using c by (simp add: scalar_def)
  ultimately show ?thesis using wf8_enc by metis
qed

lemma wf8_decode:
  assumes d: "d \<noteq> []" "\<not> d ! 0 < 0x80"
  shows "wf8 d \<longleftrightarrow> snd (DecodeRune d) \<noteq> 1 \<and> wf8 (drop (snd (DecodeRune d)) d)"
proof (rule DecodeRune_cases [OF d(1)])
  fix c assume c: "scalar c" "d = enc c @ drop (length (enc c)) d" "DecodeRune d = (of_nat c, length (enc c))"
  have "length (enc c) \<noteq> 1"
  proof
    assume "length (enc c) = 1"
    then have l: "c < 0x80" by (simp add: utf8_def split: if_splits)
    have "d ! 0 = of_nat c" using arg_cong [OF c(2), of "\<lambda>xs. xs ! 0"] enc_ascii [OF l] by simp
    then show False using d(2) l by (simp add: u8_order unat_u8)
  qed
  moreover have "wf8 d \<longleftrightarrow> wf8 (drop (length (enc c)) d)" using wf8_enc [OF c(1)] c(2) by metis
  ultimately show ?thesis using c(3) by simp
next
  assume e: "\<And>c q. scalar c \<Longrightarrow> d \<noteq> enc c @ q" "DecodeRune d = (RuneError, 1)"
  have "\<not> wf8 d"
  proof
    assume "wf8 d"
    then obtain cs where cs: "\<forall>c\<in>set cs. scalar c" "d = enc_all cs" unfolding wf8_def by blast
    then show False using d(1) e(1) by (cases cs) (auto simp: enc_all_def)
  qed
  then show ?thesis using e(2) by simp
qed

lemma valid_loop_wf8: "valid_loop p i \<longleftrightarrow> wf8 (drop i p)"
proof (induction p i rule: valid_loop.induct)
  case (1 p i)
  show ?case
  proof (cases "i < length p")
    case True
    let ?c = "p ! i" let ?x = "first_of ?c" let ?sz = "unat (?x AND 7)"
    have d0: "drop i p ! 0 = ?c" "drop i p \<noteq> []" "length (drop i p) = length p - i" using True by auto
    show ?thesis
    proof (cases "?c < 0x80")
      case a: True
      then show ?thesis using True 1(1) wf8_ascii [OF d0(2)] d0(1) by (subst valid_loop.simps) (simp add: Let_def)
    next
      case a: False
      note w = DecodeRune_width [OF d0(2), unfolded d0(1,3)]
      note v = wf8_decode [OF d0(2), unfolded d0(1), OF a]
      show ?thesis
      proof (cases "?x = xx_c")
        case b: True
        then have "snd (DecodeRune (drop i p)) = 1" using w by simp
        with b a True v show ?thesis by (subst valid_loop.simps) (simp add: Let_def)
      next
        case b: False
        then have sz: "?sz \<in> {2, 3, 4}" using a sizes [of ?c] by (auto simp: u8_order(1))
        show ?thesis
        proof (cases "i + ?sz > length p \<or> \<not> tail_ok p i ?sz (accept_of ?x)")
          case c: True
          then have "snd (DecodeRune (drop i p)) = 1"
            using w a b True tail_ok_drop [OF _ sz, of i p "accept_of ?x"] less_diff_conv2 [of i "length p" ?sz]
            by (cases "length p - i < ?sz") (simp_all add: Let_def not_less)
          with c a b True v show ?thesis by (subst valid_loop.simps) (auto simp: Let_def)
        next
          case c: False
          then have "snd (DecodeRune (drop i p)) = ?sz"
            using w a b True tail_ok_drop [OF _ sz, of i p "accept_of ?x"] by (auto simp: Let_def)
          moreover have "?sz \<noteq> 1" using sz by auto
          moreover have "valid_loop p (i + ?sz) \<longleftrightarrow> wf8 (drop (i + ?sz) p)"
            using 1(2) [OF True refl a refl b refl] c by auto
          ultimately show ?thesis using c a b True v by (subst valid_loop.simps) (auto simp: Let_def add.commute)
        qed
      qed
    qed
  next
    case False
    then show ?thesis by (subst valid_loop.simps) simp
  qed
qed

lemma bit7: "b < 0x80 \<longleftrightarrow> \<not> bit (b :: u8) 7"
proof -
  have "bit b 7 \<longleftrightarrow> bit (unat b) 7" by (simp add: bit_unsigned_iff)
  also have "\<dots> \<longleftrightarrow> odd (unat b div 128)" by (simp add: bit_iff_odd)
  also have "\<dots> \<longleftrightarrow> 0x80 \<le> unat b"
  proof -
    have "unat b < 256" using unsigned_less [of b, where 'a = nat] by simp
    then have "unat b div 128 < 2" by (simp add: div_less_iff_less_mult)
    then have "unat b div 128 = 0 \<or> unat b div 128 = 1" by linarith
    then show ?thesis by (auto simp: div_eq_0_iff not_le[symmetric])
  qed
  finally show ?thesis by (simp add: u8_order not_le)
qed

lemma ascii_mask:
  fixes a b c d e f g h :: u8
  assumes "((ucast a OR push_bit 8 (ucast b) OR push_bit 16 (ucast c) OR push_bit 24 (ucast d)) OR
     (ucast e OR push_bit 8 (ucast f) OR push_bit 16 (ucast g) OR push_bit 24 (ucast h))) AND (0x80808080 :: u32) = 0"
  shows "\<forall>x\<in>{a, b, c, d, e, f, g, h}. x < 0x80"
proof -
  let ?w = "((ucast a OR push_bit 8 (ucast b) OR push_bit 16 (ucast c) OR push_bit 24 (ucast d)) OR
     (ucast e OR push_bit 8 (ucast f) OR push_bit 16 (ucast g) OR push_bit 24 (ucast h))) AND (0x80808080 :: u32)"
  have z: "\<not> bit ?w n" for n unfolding assms by simp
  have "bit (0x80808080 :: u32) 7" "bit (0x80808080 :: u32) 15" "bit (0x80808080 :: u32) 23" "bit (0x80808080 :: u32) 31"
    by simp_all
  then show ?thesis using z [of 7] z [of 15] z [of 23] z [of 31] unfolding bit7 by (auto simp: bit_simps)
qed

lemma skip_ascii_wf8: "wf8 (skip_ascii p) \<longleftrightarrow> wf8 p"
proof (induction p rule: skip_ascii.induct)
  case (1 p)
  let ?w = "((ucast (p ! 0) OR push_bit 8 (ucast (p ! 1)) OR push_bit 16 (ucast (p ! 2)) OR push_bit 24 (ucast (p ! 3))) OR
     (ucast (p ! 4) OR push_bit 8 (ucast (p ! 5)) OR push_bit 16 (ucast (p ! 6)) OR push_bit 24 (ucast (p ! 7)))) AND (0x80808080 :: u32)"
  show ?case
  proof (cases "8 \<le> length p \<and> ?w = 0")
    case True
    have a: "p ! k < 0x80" if "k < 8" for k
      using ascii_mask [OF conjunct2 [OF True]] that by (auto simp: less_Suc_eq numeral_eq_Suc)
    have "wf8 p \<longleftrightarrow> wf8 (drop k p)" if "k \<le> 8" for k
      using that
    proof (induction k)
      case (Suc k)
      then have "drop k p \<noteq> []" "drop k p ! 0 = p ! k" using True by auto
      then show ?case using Suc wf8_ascii [of "drop k p"] a [of k] by simp
    qed simp
    from this [of 8] show ?thesis
      using True 1 by (subst skip_ascii.simps) (simp add: Let_def)
  next
    case False
    then show ?thesis by (subst skip_ascii.simps) (simp add: Let_def)
  qed
qed

section \<open>The last rune\<close>

lemma RuneStart_iff: "RuneStart b \<longleftrightarrow> b < 0x80 \<or> 0xC0 \<le> b"
proof -
  have "\<forall>n\<in>set [0..<256]. RuneStart (of_nat n) \<longleftrightarrow> (of_nat n :: u8) < 0x80 \<or> 0xC0 \<le> (of_nat n :: u8)" by code_simp
  moreover have "unat b \<in> set [0..<256]" using unsigned_less [of b, where 'a = nat] by simp
  ultimately have "RuneStart (of_nat (unat b)) \<longleftrightarrow> (of_nat (unat b) :: u8) < 0x80 \<or> 0xC0 \<le> (of_nat (unat b) :: u8)"
    by blast
  then show ?thesis by simp
qed

lemma start_loop_stop:
  "lim \<le> k \<Longrightarrow> k \<le> start \<Longrightarrow> RuneStart (p ! nat k) \<Longrightarrow> (\<And>j. k < j \<Longrightarrow> j \<le> start \<Longrightarrow> \<not> RuneStart (p ! nat j)) \<Longrightarrow>
    start_loop p lim start = k"
proof (induction p lim start rule: start_loop.induct)
  case (1 p lim start)
  show ?case
  proof (cases "k = start")
    case True
    then show ?thesis using 1(2,4) by (subst start_loop.simps) simp
  next
    case False
    then have "\<not> RuneStart (p ! nat start)" "lim \<le> start" "k \<le> start - 1" using 1(2,3,5) by auto
    moreover have "start_loop p lim (start - 1) = k"
      by (rule 1(1)) (use 1 calculation in auto)
    ultimately show ?thesis by (subst start_loop.simps) simp
  qed
qed

lemma enc_bytes:
  assumes "scalar c" "0x80 \<le> c"
  shows "0xC0 \<le> enc c ! 0" "0 < j \<Longrightarrow> j < length (enc c) \<Longrightarrow> 0x80 \<le> enc c ! j \<and> enc c ! j < 0xC0"
    "2 \<le> length (enc c)"
proof -
  have u: "unat (enc c ! j) = utf8 c ! j" if "j < length (utf8 c)" for j
    using arg_cong [OF map_unat_enc [OF assms(1)], of "\<lambda>xs. xs ! j"] that by simp
  have m: "x mod 64 < (64 :: nat)" for x by simp
  show "0xC0 \<le> enc c ! 0" using u [of 0] assms(2) by (auto simp: u8_order utf8_def)
  show "0 < j \<Longrightarrow> j < length (enc c) \<Longrightarrow> 0x80 \<le> enc c ! j \<and> enc c ! j < 0xC0"
    using u [of j] assms(2) m [of c] m [of "c div 64"] m [of "c div 4096"]
    by (auto simp: u8_order utf8_def less_Suc_eq split: if_splits)
  show "2 \<le> length (enc c)" using assms(2) by (simp add: utf8_def)
qed

lemma DecodeLastRune_at:
  assumes "p \<noteq> []" "\<not> p ! nat (int (length p) - 1) < 0x80" 
    "start_loop p (if int (length p) - 4 < 0 then 0 else int (length p) - 4) (int (length p) - 1 - 1) = int k"
    "DecodeRune (drop k p) = (r, n)" "k + n = length p"
  shows "DecodeLastRune p = (r, n)"
  using assms(1,2,4,5) unfolding DecodeLastRune_def Let_def assms(3) by auto

lemma DecodeLastRune_enc:
  assumes c: "scalar c"
  shows "DecodeLastRune (p @ enc c) = (of_nat c, length (enc c))"
proof (cases "c < 0x80")
  case True
  then have "unat (of_nat c :: u8) = c" by (simp add: unat_u8)
  then have "(of_nat c :: u8) < 0x80" "(ucast (of_nat c :: u8) :: rune) = of_nat c"
    using True unat_rune [of "of_nat c"] unat_of_scalar [OF c] by (simp_all add: u8_order word_unat_eq_iff)
  then show ?thesis using enc_ascii [OF True] True by (simp add: DecodeLastRune_def Let_def nth_append utf8_def)
next
  case False
  let ?q = "p @ enc c" let ?e = "int (length ?q)"
  note b = enc_bytes [OF c leI [OF False]]
  let ?n = "length (enc c)"
  have n: "2 \<le> ?n" "?n \<le> 4" using b(3) length_utf8(2) [of c] by simp_all
  have at: "?q ! (length p + j) = enc c ! j" for j by (simp add: nth_append)
  have last: "\<not> ?q ! nat (?e - 1) < 0x80"
  proof -
    have "nat (?e - 1) = length p + (?n - 1)" using n by simp
    then have "?q ! nat (?e - 1) = enc c ! (?n - 1)" using at [of "?n - 1"] by (simp only:)
    moreover have "0x80 \<le> enc c ! (?n - 1)" by (rule conjunct1 [OF b(2)]) (use n in auto)
    ultimately show ?thesis by (simp only: u8_order not_less)
  qed
  let ?lim = "if ?e - 4 < 0 then 0 else ?e - 4"
  have s: "start_loop ?q ?lim (?e - 1 - 1) = int (length p)"
  proof (rule start_loop_stop)
    show "?lim \<le> int (length p)" "int (length p) \<le> ?e - 1 - 1" using n by auto
    show "RuneStart (?q ! nat (int (length p)))" using at [of 0] b(1) by (simp add: RuneStart_iff)
    fix j assume j: "int (length p) < j" "j \<le> ?e - 1 - 1"
    then obtain i where i: "j = int (length p + i)" "0 < i" "i < ?n"
      by (intro that [of "nat (j - int (length p))"]) auto
    show "\<not> RuneStart (?q ! nat j)"
      using at [of i] b(2) [OF i(2,3)] unfolding i(1) nat_int by (simp add: RuneStart_iff u8_order)
  qed
  have "DecodeRune (drop (length p) ?q) = (of_nat c, ?n)" using DecodeRune_enc [OF c, of "[]"] by simp
  moreover have "?q \<noteq> []" "length p + ?n = length ?q" using enc_nonempty by auto
  ultimately show ?thesis by (intro DecodeLastRune_at [OF _ last s])
qed

section \<open>The runtime's decoder\<close>

lemma sint_small:
  assumes "unat (r :: rune) < 2 ^ 31"
  shows "sint r = int (unat r)"
proof -
  have u: "uint r = int (unat r)" by (simp only: of_nat_unat)
  have "int (unat r) < int (2 ^ 31)" using assms by (simp only: of_nat_less_iff)
  then have lt: "uint r < 2 ^ 31" unfolding u by simp
  have "- (2 ^ 31) \<le> (0 :: int)" "0 \<le> uint r" by simp_all
  then have "- (2 ^ 31) \<le> uint r" by (rule order_trans)
  then have "signed_take_bit 31 (uint r) = uint r" using lt by (rule signed_take_bit_int_eq_self)
  moreover have "LENGTH(32) - Suc 0 = 31" by simp
  then have "sint r = signed_take_bit 31 (uint r)" unfolding sint_uint by (simp only:)
  ultimately show ?thesis using u by (simp only:)
qed

lemma sint_consts:
  assumes "unat (r :: rune) < 2 ^ 31"
  shows "127 < sint r \<longleftrightarrow> 0x7F < unat r" "2047 < sint r \<longleftrightarrow> 0x7FF < unat r" "65535 < sint r \<longleftrightarrow> 0xFFFF < unat r"
    "55296 \<le> sint r \<longleftrightarrow> 0xD800 \<le> unat r" "sint r \<le> 57343 \<longleftrightarrow> unat r \<le> 0xDFFF" "sint r \<le> 1114111 \<longleftrightarrow> unat r \<le> 0x10FFFF"
proof -
  have "127 < int n \<longleftrightarrow> 0x7F < n" "2047 < int n \<longleftrightarrow> 0x7FF < n" "65535 < int n \<longleftrightarrow> 0xFFFF < n"
    "55296 \<le> int n \<longleftrightarrow> 0xD800 \<le> n" "int n \<le> 57343 \<longleftrightarrow> n \<le> 0xDFFF" "int n \<le> 1114111 \<longleftrightarrow> n \<le> 0x10FFFF" for n
    by auto
  then show "127 < sint r \<longleftrightarrow> 0x7F < unat r" "2047 < sint r \<longleftrightarrow> 0x7FF < unat r" "65535 < sint r \<longleftrightarrow> 0xFFFF < unat r"
    "55296 \<le> sint r \<longleftrightarrow> 0xD800 \<le> unat r" "sint r \<le> 57343 \<longleftrightarrow> unat r \<le> 0xDFFF" "sint r \<le> 1114111 \<longleftrightarrow> unat r \<le> 0x10FFFF"
    unfolding sint_small [OF assms] by blast+
qed

lemma cont_iff: "is_cont b \<longleftrightarrow> 0x80 \<le> unat b \<and> unat b \<le> 0xBF"
  by (simp add: is_cont_def u8_order)

lemma three_range:
  assumes "(a :: nat) < 16" "c < 64" "d < 64" "v = a * 4096 + (c * 64 + d)"
  shows "0x7FF < v \<and> \<not> (0xD800 \<le> v \<and> v \<le> 0xDFFF) \<longleftrightarrow> (a = 0 \<longrightarrow> 32 \<le> c) \<and> (a = 13 \<longrightarrow> c < 32)"
proof -
  consider "a = 0" | "1 \<le> a" "a \<le> 12" | "a = 13" | "14 \<le> a" by linarith
  then show ?thesis
  proof cases
    case 1
    have "v < 0xD800" "0x7FF < v \<longleftrightarrow> 32 \<le> c" using assms 1 by linarith+
    with 1 show ?thesis by simp
  next
    case 2
    have "v < 0xD800" "0x7FF < v" using assms 2 by linarith+
    with 2 show ?thesis by simp
  next
    case 3
    have "0x7FF < v" "v \<le> 0xDFFF" "0xD800 \<le> v \<longleftrightarrow> 32 \<le> c" using assms 3 by linarith+
    with 3 show ?thesis by (simp add: not_le)
  next
    case 4
    have "0x7FF < v" "0xDFFF < v" using assms 4 by linarith+
    with 4 show ?thesis by simp
  qed
qed

lemma four_range:
  assumes "(a :: nat) < 8" "b < 64" "c < 64" "d < 64" "v = a * 262144 + (b * 4096 + (c * 64 + d))"
  shows "0xFFFF < v \<and> v \<le> 0x10FFFF \<longleftrightarrow> (a = 0 \<longrightarrow> 16 \<le> b) \<and> (a = 4 \<longrightarrow> b < 16) \<and> a \<le> 4"
proof -
  consider "a = 0" | "1 \<le> a" "a \<le> 3" | "a = 4" | "5 \<le> a" by linarith
  then show ?thesis
  proof cases
    case 1
    have "v \<le> 0x10FFFF" "0xFFFF < v \<longleftrightarrow> 16 \<le> b" using assms 1 by linarith+
    with 1 show ?thesis by simp
  next
    case 2
    have "v \<le> 0x10FFFF" "0xFFFF < v" using assms 2 by linarith+
    with 2 show ?thesis by simp
  next
    case 3
    have "0xFFFF < v" "v \<le> 0x10FFFF \<longleftrightarrow> b < 16" using assms 3 by linarith+
    with 3 show ?thesis by simp
  next
    case 4
    have "0x10FFFF < v" using assms 4 by linarith
    with 4 show ?thesis by simp
  qed
qed

text \<open>The three forms of a multi-byte sequence.\<close>

lemma err_pair: "map_prod unat id (RuneError, n) = (0xFFFD, n)"
  by simp

lemma decoderune_two:
  assumes "unat b \<ge> 0xC0" "unat b < 0xE0"
  shows "map_prod unat id (decoderune (b # bs) 0) = decode1 (map unat (b # bs))"
proof (cases bs)
  case Nil
  then show ?thesis using assms by (simp add: decoderune_def decode1_def u8_order)
next
  case (Cons c cs)
  define r :: rune where "r = push_bit 6 (ucast (b AND 0x1F)) OR ucast (c AND 0x3F)"
  have u: "unat r = unat b mod 32 * 64 + unat c mod 64" unfolding r_def by (rule decode_bits)
  have lt: "unat b mod 32 < 32" "unat c mod 64 < 64" by simp_all
  then have "unat r < 2147483648" unfolding u by linarith
  then have s: "unat r < 2 ^ 31" by simp
  have l: "0xC0 + unat b mod 32 = unat b" by (rule lead_byte) (use assms in auto)
  have c: "127 < sint r \<longleftrightarrow> 0xC2 \<le> unat b"
    unfolding sint_consts [OF s] u using l lt by linarith
  show ?thesis
    unfolding Cons decoderune_def Let_def list.size drop_0 nth_Cons_0
    using assms by (simp add: c decode1_def u8_order cont_iff u not_le flip: r_def)
qed

lemma decoderune_three:
  assumes "unat b \<ge> 0xE0" "unat b < 0xF0"
  shows "map_prod unat id (decoderune (b # bs) 0) = decode1 (map unat (b # bs))"
proof (cases "length bs < 2")
  case True
  then show ?thesis using assms by (simp add: decoderune_def decode1_def u8_order)
next
  case False
  then obtain c d cs where bs: "bs = c # d # cs" using cases3 by blast
  define r :: rune where "r = push_bit 12 (ucast (b AND 0x0F)) OR push_bit 6 (ucast (c AND 0x3F)) OR ucast (d AND 0x3F)"
  have u: "unat r = unat b mod 16 * 4096 + (unat c mod 64 * 64 + unat d mod 64)" unfolding r_def by (rule decode_bits)
  have lt: "unat b mod 16 < 16" "unat c mod 64 < 64" "unat d mod 64 < 64" by simp_all
  then have "unat r < 2147483648" unfolding u by linarith
  then have s: "unat r < 2 ^ 31" by simp
  have l: "0xE0 + unat b mod 16 = unat b" by (rule lead_byte) (use assms in auto)
  show ?thesis
  proof (cases "is_cont c \<and> is_cont d")
    case True
    then have k: "0x80 + unat c mod 64 = unat c" by (intro cont_byte) (auto simp: cont_iff)
    have c: "0x7FF < unat r \<and> \<not> (0xD800 \<le> unat r \<and> unat r \<le> 0xDFFF) \<longleftrightarrow>
        (unat b = 0xE0 \<longrightarrow> 0xA0 \<le> unat c) \<and> (unat b = 0xED \<longrightarrow> unat c \<le> 0x9F)"
      unfolding three_range [OF lt u] using l k by auto
    have "decoderune (b # bs) 0 = (if 0x7FF < unat r \<and> \<not> (0xD800 \<le> unat r \<and> unat r \<le> 0xDFFF) then (r, 3) else (RuneError, 1))"
      unfolding bs decoderune_def Let_def using True assms
      by (simp add: u8_order(1,2) sint_consts [OF s] flip: r_def)
    moreover have "decode1 (map unat (b # bs)) = (if (unat b = 0xE0 \<longrightarrow> 0xA0 \<le> unat c) \<and> (unat b = 0xED \<longrightarrow> unat c \<le> 0x9F)
        then (unat r, 3) else (0xFFFD, 1))"
      unfolding u bs using True assms by (simp add: decode1_def cont_iff)
    ultimately show ?thesis unfolding c by simp
  next
    case False
    then have "decoderune (b # bs) 0 = (RuneError, 1)"
      unfolding bs decoderune_def Let_def using assms by (auto simp: u8_order(1,2))
    moreover have "decode1 (map unat (b # bs)) = (0xFFFD, 1)"
      unfolding bs using False assms by (auto simp: decode1_def cont_iff)
    ultimately show ?thesis by simp
  qed
qed

lemma decoderune_four:
  assumes "unat b \<ge> 0xF0" "unat b < 0xF8"
  shows "map_prod unat id (decoderune (b # bs) 0) = decode1 (map unat (b # bs))"
proof (cases "length bs < 3")
  case True
  then show ?thesis using assms by (simp add: decoderune_def decode1_def u8_order)
next
  case False
  then obtain c d e cs where bs: "bs = c # d # e # cs" using cases4 by blast
  define r :: rune where "r = push_bit 18 (ucast (b AND 0x07)) OR push_bit 12 (ucast (c AND 0x3F)) OR
    push_bit 6 (ucast (d AND 0x3F)) OR ucast (e AND 0x3F)"
  have u: "unat r = unat b mod 8 * 262144 + (unat c mod 64 * 4096 + (unat d mod 64 * 64 + unat e mod 64))"
    unfolding r_def by (rule decode_bits)
  have lt: "unat b mod 8 < 8" "unat c mod 64 < 64" "unat d mod 64 < 64" "unat e mod 64 < 64" by simp_all
  then have "unat r < 2147483648" unfolding u by linarith
  then have s: "unat r < 2 ^ 31" by simp
  have l: "0xF0 + unat b mod 8 = unat b" by (rule lead_byte) (use assms in auto)
  show ?thesis
  proof (cases "is_cont c \<and> is_cont d \<and> is_cont e")
    case True
    then have k: "0x80 + unat c mod 64 = unat c" by (intro cont_byte) (auto simp: cont_iff)
    have c: "0xFFFF < unat r \<and> unat r \<le> 0x10FFFF \<longleftrightarrow>
        (unat b = 0xF0 \<longrightarrow> 0x90 \<le> unat c) \<and> (unat b = 0xF4 \<longrightarrow> unat c \<le> 0x8F) \<and> unat b \<le> 0xF4"
      unfolding four_range [OF lt u] using l k by auto
    have "decoderune (b # bs) 0 = (if 0xFFFF < unat r \<and> unat r \<le> 0x10FFFF then (r, 4) else (RuneError, 1))"
      unfolding bs decoderune_def Let_def using True assms
      by (simp add: u8_order(1,2) sint_consts [OF s] flip: r_def)
    moreover have "decode1 (map unat (b # bs)) = (if (unat b = 0xF0 \<longrightarrow> 0x90 \<le> unat c) \<and>
        (unat b = 0xF4 \<longrightarrow> unat c \<le> 0x8F) \<and> unat b \<le> 0xF4 then (unat r, 4) else (0xFFFD, 1))"
      unfolding u bs using True assms by (simp add: decode1_def cont_iff)
    ultimately show ?thesis unfolding c by simp
  next
    case False
    then have "decoderune (b # bs) 0 = (RuneError, 1)"
      unfolding bs decoderune_def Let_def using assms by (auto simp: u8_order(1,2))
    moreover have "decode1 (map unat (b # bs)) = (0xFFFD, 1)"
      unfolding bs using False assms by (auto simp: decode1_def cont_iff)
    ultimately show ?thesis by simp
  qed
qed

lemma decoderune_0:
  assumes "0x80 \<le> b"
  shows "decoderune (b # bs) 0 = DecodeRune (b # bs)"
proof -
  have b: "0x80 \<le> unat b" using assms by (simp add: u8_order)
  have "map_prod unat id (decoderune (b # bs) 0) = decode1 (map unat (b # bs))"
  proof -
    consider "unat b < 0xC0" | "0xC0 \<le> unat b" "unat b < 0xE0" | "0xE0 \<le> unat b" "unat b < 0xF0"
      | "0xF0 \<le> unat b" "unat b < 0xF8" | "0xF8 \<le> unat b" by linarith
    then show ?thesis
    proof cases
      case 1
      then show ?thesis using b by (simp add: decoderune_def decode1_def u8_order)
    next
      case 5
      then show ?thesis using b by (simp add: decoderune_def decode1_def u8_order)
    qed (simp_all only: decoderune_two decoderune_three decoderune_four)
  qed
  then have "map_prod unat id (decoderune (b # bs) 0) = map_prod unat id (DecodeRune (b # bs))"
    by (simp only: DecodeRune_decode1)
  then show ?thesis
    by (cases "decoderune (b # bs) 0"; cases "DecodeRune (b # bs)") (auto simp: word_unat_eq_iff)
qed

lemma case_if: "(case (if A then x else y) of (r, n) \<Rightarrow> f r n) = (if A then (case x of (r, n) \<Rightarrow> f r n) else (case y of (r, n) \<Rightarrow> f r n))"
  by simp

lemma decoderune_shift:
  assumes "k < length s"
  shows "decoderune s k = (case decoderune (drop k s) 0 of (r, n) \<Rightarrow> (r, k + n))"
proof -
  have l: "(length s \<le> k) = False" "(length (drop k s) \<le> 0) = False" using assms by auto
  show ?thesis
    unfolding decoderune_def Let_def l if_False drop_0 case_if prod.case add_0 by (rule refl)
qed

section \<open>Properties\<close>

lemma DecodeRuneInString_eq: "DecodeRuneInString s = DecodeRune s"
  by (simp only: DecodeRuneInString_def DecodeRune_def)

lemma sint_scalar: "scalar (unat r) \<Longrightarrow> sint (r :: rune) = int (unat r)"
  by (rule sint_small) (use scalar_bound [of "unat r"] in simp)

lemma sint_nonneg:
  assumes "0 \<le> sint (r :: rune)"
  shows "unat r < 2 ^ 31"
proof -
  have l: "sint r < 2 ^ 31" using sint_lt [of r] by simp
  have "uint r = sint r mod 2 ^ 32"
    using uint_word_of_int [of "sint r", where 'a = 32] by simp
  then have "uint r = sint r" using assms l by simp
  then have "int (unat r) < int (2 ^ 31)" using l by simp
  then show ?thesis by (simp only: of_nat_less_iff)
qed

lemma sint_cases:
  obtains n where "n < 2 ^ 31" "sint (r :: rune) = int n" "unat r = n" | "sint r < 0" "2 ^ 31 \<le> unat r"
proof (cases "0 \<le> sint r")
  case True
  from sint_nonneg [OF this] show thesis by (intro that(1) [of "unat r"] sint_small refl)
next
  case False
  moreover have "2 ^ 31 \<le> unat r"
  proof (rule ccontr)
    assume "\<not> 2 ^ 31 \<le> unat r"
    then have "sint r = int (unat r)" by (intro sint_small) simp
    then show False using False by simp
  qed
  ultimately show thesis by (intro that(2)) auto
qed

lemma ValidRune_scalar: "ValidRune r \<longleftrightarrow> scalar (unat r)"
proof (rule sint_cases [of r])
  fix n assume n: "n < 2 ^ 31" "sint r = int n" "unat r = n"
  show ?thesis unfolding ValidRune_def scalar_def n(2,3) by auto
next
  assume "sint r < 0" "2 ^ 31 \<le> unat r"
  then show ?thesis by (simp add: ValidRune_def scalar_def)
qed

lemma RuneLen_enc: "RuneLen r = (if scalar (unat r) then int (length (enc (unat r))) else - 1)"
proof (rule sint_cases [of r])
  fix n assume n: "n < 2 ^ 31" "sint r = int n" "unat r = n"
  show ?thesis unfolding RuneLen_def scalar_def n(2,3) by (auto simp: utf8_def)
next
  assume "sint r < 0" "2 ^ 31 \<le> unat r"
  then show ?thesis by (simp add: RuneLen_def scalar_def)
qed

text \<open>C22. \<open>DecodeRune\<close> and \<open>DecodeRuneInString\<close> accept exactly the UTF-8 encodings of Unicode scalar
  values: when a non-empty input begins with the encoding of one, they return it and its length;
  otherwise (overlong forms, surrogates, values out of range, truncated sequences, stray
  bytes) they return \<open>RuneError\<close> and width 1.\<close>

theorem DecodeRune_exact:
  assumes "p \<noteq> []"
  shows "DecodeRuneInString p = DecodeRune p \<and>
    (if \<exists>c q. scalar c \<and> p = enc c @ q
     then \<exists>c q. scalar c \<and> p = enc c @ q \<and> DecodeRune p = (of_nat c, length (enc c))
     else DecodeRune p = (RuneError, 1))"
proof (rule conjI [OF DecodeRuneInString_eq], rule DecodeRune_cases [OF assms])
  fix c assume c: "scalar c" "p = enc c @ drop (length (enc c)) p" "DecodeRune p = (of_nat c, length (enc c))"
  have ex: "\<exists>c q. scalar c \<and> p = enc c @ q \<and> DecodeRune p = (of_nat c, length (enc c))"
    using c by (intro exI [of _ c] exI [of _ "drop (length (enc c)) p"] conjI)
  then have "\<exists>c q. scalar c \<and> p = enc c @ q" by blast
  with ex show "if \<exists>c q. scalar c \<and> p = enc c @ q
     then \<exists>c q. scalar c \<and> p = enc c @ q \<and> DecodeRune p = (of_nat c, length (enc c))
     else DecodeRune p = (RuneError, 1)" by simp
next
  assume e: "\<And>c q. scalar c \<Longrightarrow> p \<noteq> enc c @ q" "DecodeRune p = (RuneError, 1)"
  then show "if \<exists>c q. scalar c \<and> p = enc c @ q
     then \<exists>c q. scalar c \<and> p = enc c @ q \<and> DecodeRune p = (of_nat c, length (enc c))
     else DecodeRune p = (RuneError, 1)" by auto
qed

theorem DecodeRune_exact_witness:
  "DecodeRuneInString [0xE4, 0xB8, 0x96, 0x21] = DecodeRune [0xE4, 0xB8, 0x96, 0x21]"
  using DecodeRune_exact [of "[0xE4, 0xB8, 0x96, 0x21]"] by simp

text \<open>C24. \<open>EncodeRune\<close> and the runtime's \<open>encoderune\<close> write the UTF-8 encoding of the rune, or of
  \<open>RuneError\<close> for a rune that is not a scalar value, into the first bytes of the buffer and leave
  the others; they panic exactly when the buffer is too short.  \<open>ValidRune\<close> and \<open>RuneLen\<close> tell
  which runes are encoded and how long the encoding is.\<close>

theorem EncodeRune_exact:
  "EncodeRune p r =
     (let e = enc (if ValidRune r then unat r else 0xFFFD) in
      if length p < length e then Panic ''index out of range'' else Ret (e @ drop (length e) p, length e))
   \<and> encoderune p r = EncodeRune p r \<and> RuneLen r = (if ValidRune r then int (length (enc (unat r))) else - 1)"
  unfolding encoderune_EncodeRune EncodeRune_write ValidRune_scalar RuneLen_enc write_enc_def Let_def
  by simp

text \<open>C23. Decoding inverts encoding: what \<open>EncodeRune\<close> wrote, followed by anything, decodes to the
  rune and its length, from the front and from the back; an invalid rune comes back as
  \<open>RuneError\<close>.\<close>

theorem Encode_Decode_roundtrip:
  assumes "4 \<le> length p"
  shows "\<exists>p' n. EncodeRune p r = Ret (p', n) \<and>
     DecodeRune (take n p' @ q) = (if ValidRune r then r else RuneError, n) \<and>
     DecodeLastRune (q @ take n p') = (if ValidRune r then r else RuneError, n)"
proof -
  let ?c = "if scalar (unat r) then unat r else 0xFFFD"
  have s: "scalar ?c" by (simp add: scalar_def)
  have l: "length (enc ?c) \<le> length p" using length_utf8(2) [of ?c] assms by simp
  have "(of_nat ?c :: rune) = (if ValidRune r then r else RuneError)" by (simp add: ValidRune_scalar)
  then show ?thesis
    using l DecodeRune_enc [OF s, of q] DecodeLastRune_enc [OF s, of q]
    unfolding EncodeRune_write write_enc_def by (simp del: length_enc)
qed

theorem Encode_Decode_roundtrip_witness:
  "\<exists>p' n. EncodeRune [0, 0, 0, 0] 0x1F600 = Ret (p', n) \<and> DecodeRune (take n p' @ [7]) = (0x1F600, n) \<and>
     DecodeLastRune ([7] @ take n p') = (0x1F600, n)"
proof -
  have "ValidRune 0x1F600" by code_simp
  then show ?thesis using Encode_Decode_roundtrip [of "[0, 0, 0, 0]" "0x1F600" "[7]"] by simp
qed

text \<open>C25. \<open>Valid\<close> and \<open>ValidString\<close>, with their fast path over eight bytes at a time, accept exactly
  the concatenations of encodings of scalar values.\<close>

theorem Valid_exact:
  "(Valid p \<longleftrightarrow> (\<exists>cs. list_all scalar cs \<and> p = concat (map enc cs))) \<and> (ValidString p \<longleftrightarrow> Valid p)"
  unfolding Valid_def ValidString_def valid_loop_wf8 drop_0 skip_ascii_wf8
  by (simp add: wf8_def enc_all_def list_all_iff)

text \<open>\<open>RuneCount\<close> and \<open>RuneCountInString\<close>, which do not decode, count the runes that decoding
  one after the other gives.\<close>

theorem RuneCount_runes: "RuneCount p = length (runes p) \<and> RuneCountInString p = length (runes p)"
  by (simp add: RuneCount_def RuneCountInString_def count_string_loop_eq count_loop_runes)

text \<open>C26. A text of scalar values survives: the runes of its encoding are the text, it is valid, and
  its count is its length.\<close>

theorem text_roundtrip:
  assumes "list_all scalar cs"
  shows "runes (concat (map enc cs)) = map of_nat cs \<and> Valid (concat (map enc cs)) \<and>
    RuneCount (concat (map enc cs)) = length cs"
proof -
  have r: "runes (concat (map enc cs)) = map of_nat cs"
    using runes_enc_all [of cs] assms by (simp add: enc_all_def list_all_iff)
  moreover have "Valid (concat (map enc cs))"
    unfolding Valid_def valid_loop_wf8 drop_0 skip_ascii_wf8 using assms by (auto simp: wf8_def enc_all_def list_all_iff)
  ultimately show ?thesis by (simp add: RuneCount_def count_loop_runes)
qed

theorem text_roundtrip_witness:
  "runes (concat (map enc [0x48, 0x20AC, 0x1F600])) = [0x48, 0x20AC, 0x1F600]"
  using text_roundtrip [of "[0x48, 0x20AC, 0x1F600]"] by (simp add: scalar_def)

text \<open>The runtime's \<open>decoderune\<close>, which tests the decoded value instead of tables of ranges,
  agrees with \<open>DecodeRuneInString\<close> at every byte that is not ASCII.\<close>

theorem decoderune_agrees:
  assumes "k < length s" "RuneSelf \<le> s ! k"
  shows "decoderune s k = (case DecodeRuneInString (drop k s) of (r, n) \<Rightarrow> (r, k + n))"
proof -
  obtain b bs where d: "drop k s = b # bs" using assms(1) by (cases "drop k s") auto
  then have "b = s ! k" by (metis assms(1) hd_drop_conv_nth list.sel(1))
  then show ?thesis
    using assms(2) unfolding decoderune_shift [OF assms(1)] d DecodeRuneInString_eq by (simp add: decoderune_0)
qed

theorem decoderune_agrees_witness:
  "decoderune [0x41, 0xED, 0xA0, 0x80] 1 = (case DecodeRuneInString [0xED, 0xA0, 0x80] of (r, n) \<Rightarrow> (r, 1 + n))"
  using decoderune_agrees [of 1 "[0x41, 0xED, 0xA0, 0x80]"] by simp

text \<open>When \<open>FullRune\<close> reports a full rune, no more input can change what is decoded.\<close>

theorem FullRune_decided:
  assumes "FullRune p"
  shows "DecodeRune (p @ q) = DecodeRune p \<and> FullRuneInString p"
proof (rule conjI)
  have ne: "p \<noteq> []" using assms by (auto simp: FullRune_def)
  let ?x = "first_of (p ! 0)" let ?sz = "unat (?x AND 7)"
  have n0: "(p @ q) ! 0 = p ! 0" using ne by (simp add: nth_append)
  show "FullRuneInString p" using assms by (simp only: FullRuneInString_def FullRune_def)
  consider (a) "p ! 0 < 0x80 \<or> ?x = xx_c" "as_c \<le> ?x" | (s) "\<not> as_c \<le> ?x" "?sz \<in> {2, 3, 4}"
    using sizes [of "p ! 0"] by (auto simp: u8_order(1))
  then show "DecodeRune (p @ q) = DecodeRune p"
  proof cases
    case a
    then show ?thesis using ne n0 by (simp add: DecodeRune_def Let_def)
  next
    case s
    show ?thesis
    proof (cases "?sz \<le> length p")
      case True
      then have "(p @ q) ! k = p ! k" if "k < ?sz" for k using that by (simp add: nth_append)
      with s True ne n0 show ?thesis
        by (elim insertE; simp add: DecodeRune_def Let_def)
    next
      case False
      have r: "DecodeRune p = (RuneError, 1)" using False s ne by (simp add: DecodeRune_def Let_def)
      have bad: "1 < length p \<and> (p ! 1 < lo (accept_of ?x) \<or> hi (accept_of ?x) < p ! 1) \<or>
          2 < length p \<and> (p ! 2 < 0x80 \<or> 0xBF < p ! 2)"
        using assms False ne by (auto simp: FullRune_def Let_def split: if_splits)
      have "(p @ q) ! 1 = p ! 1" if "1 < length p" using that by (simp add: nth_append)
      moreover have "(p @ q) ! 2 = p ! 2" if "2 < length p" using that by (simp add: nth_append)
      moreover have "2 < length p \<Longrightarrow> ?sz = 4" using False s(2) by auto
      ultimately have "DecodeRune (p @ q) = (RuneError, 1)"
        using bad s(1) ne n0 by (auto simp: DecodeRune_def Let_def)
      with r show ?thesis by simp
    qed
  qed
qed

theorem FullRune_decided_witness:
  "DecodeRune ([0xE4, 0x41] @ [0x96]) = DecodeRune [0xE4, 0x41]"
  using FullRune_decided [of "[0xE4, 0x41]" "[0x96]"] by (simp add: FullRune_def first_of_eq first_class_def Let_def accept_of_def acceptRanges_def)

end
