(* ===== verification/Go_List.thy ===== *)
theory Go_List
  imports Prelude
begin

text \<open>
  \<open>container/list\<close>: doubly linked lists as rings through a sentinel.  A node is the root of a
  list or an element; the store maps nodes to their fields and lists to their lengths.  The
  store has any number of lists, since an element names its list and several operations test
  it, and \<open>PushBackList\<close> copies one list into another, perhaps into itself.  A nil pointer
  that the code dereferences is a \<open>Panic\<close>.  The values are of any type.
\<close>

section \<open>The store\<close>

type_synonym lid = nat
type_synonym eid = nat

datatype node = Root lid | El eid

record 'v element =
  e_next :: "node option"
  e_prev :: "node option"
  e_list :: "lid option"
  e_value :: 'v

record 'v lstore =
  nd :: "node \<Rightarrow> 'v element"
  len :: "lid \<Rightarrow> int"
  fresh :: eid

definition upd :: "node \<Rightarrow> ('v element \<Rightarrow> 'v element) \<Rightarrow> 'v lstore \<Rightarrow> 'v lstore" where
  "upd n f s = s\<lparr>nd := (nd s)(n := f (nd s n))\<rparr>"

definition set_len :: "lid \<Rightarrow> int \<Rightarrow> 'v lstore \<Rightarrow> 'v lstore" where
  "set_len l k s = s\<lparr>len := (len s)(l := k)\<rparr>"

definition deref :: "node option \<Rightarrow> node outcome" where
  "deref p = (case p of None \<Rightarrow> Panic ''nil pointer dereference'' | Some n \<Rightarrow> Ret n)"

definition set_next :: "node \<Rightarrow> node option \<Rightarrow> 'v lstore \<Rightarrow> 'v lstore" where
  "set_next n p s = upd n (\<lambda>x. x\<lparr>e_next := p\<rparr>) s"

definition set_prev :: "node \<Rightarrow> node option \<Rightarrow> 'v lstore \<Rightarrow> 'v lstore" where
  "set_prev n p s = upd n (\<lambda>x. x\<lparr>e_prev := p\<rparr>) s"

section \<open>Operations\<close>

definition Next :: "eid \<Rightarrow> 'v lstore \<Rightarrow> node option" where
  "Next e s =
     (let x = nd s (El e) in
      case e_list x of None \<Rightarrow> None
      | Some l \<Rightarrow> if e_next x \<noteq> Some (Root l) then e_next x else None)"

definition Prev :: "eid \<Rightarrow> 'v lstore \<Rightarrow> node option" where
  "Prev e s =
     (let x = nd s (El e) in
      case e_list x of None \<Rightarrow> None
      | Some l \<Rightarrow> if e_prev x \<noteq> Some (Root l) then e_prev x else None)"

definition list_Init :: "lid \<Rightarrow> 'v lstore \<Rightarrow> 'v lstore" where
  "list_Init l s = set_len l 0 (set_prev (Root l) (Some (Root l)) (set_next (Root l) (Some (Root l)) s))"

definition Len :: "lid \<Rightarrow> 'v lstore \<Rightarrow> int" where
  "Len l s = len s l"

definition Front :: "lid \<Rightarrow> 'v lstore \<Rightarrow> node option" where
  "Front l s = (if len s l = 0 then None else e_next (nd s (Root l)))"

definition Back :: "lid \<Rightarrow> 'v lstore \<Rightarrow> node option" where
  "Back l s = (if len s l = 0 then None else e_prev (nd s (Root l)))"

definition lazyInit :: "lid \<Rightarrow> 'v lstore \<Rightarrow> 'v lstore" where
  "lazyInit l s = (if e_next (nd s (Root l)) = None then list_Init l s else s)"

text \<open>The four assignments that put \<open>e\<close> after \<open>at\<close>, in \<open>insert\<close> and in \<open>move\<close>.\<close>

definition link_after :: "node \<Rightarrow> node \<Rightarrow> 'v lstore \<Rightarrow> 'v lstore outcome" where
  "link_after e at s =
     (let s = set_prev e (Some at) s;
          s = set_next e (e_next (nd s at)) s
      in obind (deref (e_prev (nd s e))) (\<lambda>p. let s = set_next p (Some e) s in
         obind (deref (e_next (nd s e))) (\<lambda>n. Ret (set_prev n (Some e) s))))"

text \<open>The two assignments that take \<open>e\<close> out, in \<open>remove\<close> and in \<open>move\<close>.\<close>

definition unlink :: "node \<Rightarrow> 'v lstore \<Rightarrow> 'v lstore outcome" where
  "unlink e s =
     obind (deref (e_prev (nd s e))) (\<lambda>p. let s = set_next p (e_next (nd s e)) s in
     obind (deref (e_next (nd s e))) (\<lambda>n. Ret (set_prev n (e_prev (nd s e)) s)))"

definition list_insert :: "lid \<Rightarrow> node \<Rightarrow> node \<Rightarrow> 'v lstore \<Rightarrow> 'v lstore outcome" where
  "list_insert l e at s =
     obind (link_after e at s) (\<lambda>s.
       let s = upd e (\<lambda>x. x\<lparr>e_list := Some l\<rparr>) s in Ret (set_len l (len s l + 1) s))"

text \<open>\<open>&Element{Value: v}\<close> is a new element.\<close>

definition insertValue :: "lid \<Rightarrow> 'v \<Rightarrow> node \<Rightarrow> 'v lstore \<Rightarrow> ('v lstore \<times> eid) outcome" where
  "insertValue l v at s =
     (let e = fresh s;
          s = s\<lparr>nd := (nd s)(El e := \<lparr>e_next = None, e_prev = None, e_list = None, e_value = v\<rparr>), fresh := e + 1\<rparr>
      in obind (list_insert l (El e) at s) (\<lambda>s. Ret (s, e)))"

definition list_remove :: "lid \<Rightarrow> node \<Rightarrow> 'v lstore \<Rightarrow> 'v lstore outcome" where
  "list_remove l e s =
     obind (unlink e s) (\<lambda>s.
       let s = upd e (\<lambda>x. x\<lparr>e_next := None, e_prev := None, e_list := None\<rparr>) s in Ret (set_len l (len s l - 1) s))"

definition move :: "node \<Rightarrow> node \<Rightarrow> 'v lstore \<Rightarrow> 'v lstore outcome" where
  "move e at s = (if e = at then Ret s else obind (unlink e s) (link_after e at))"

definition Remove :: "lid \<Rightarrow> eid \<Rightarrow> 'v lstore \<Rightarrow> ('v lstore \<times> 'v) outcome" where
  "Remove l e s =
     obind (if e_list (nd s (El e)) = Some l then list_remove l (El e) s else Ret s) (\<lambda>s.
       Ret (s, e_value (nd s (El e))))"

definition PushFront :: "lid \<Rightarrow> 'v \<Rightarrow> 'v lstore \<Rightarrow> ('v lstore \<times> eid) outcome" where
  "PushFront l v s = insertValue l v (Root l) (lazyInit l s)"

definition PushBack :: "lid \<Rightarrow> 'v \<Rightarrow> 'v lstore \<Rightarrow> ('v lstore \<times> eid) outcome" where
  "PushBack l v s =
     (let s = lazyInit l s in obind (deref (e_prev (nd s (Root l)))) (\<lambda>at. insertValue l v at s))"

definition InsertBefore :: "lid \<Rightarrow> 'v \<Rightarrow> eid \<Rightarrow> 'v lstore \<Rightarrow> ('v lstore \<times> eid option) outcome" where
  "InsertBefore l v mark s =
     (if e_list (nd s (El mark)) \<noteq> Some l then Ret (s, None)
      else obind (deref (e_prev (nd s (El mark)))) (\<lambda>at. obind (insertValue l v at s) (\<lambda>(s, e). Ret (s, Some e))))"

definition InsertAfter :: "lid \<Rightarrow> 'v \<Rightarrow> eid \<Rightarrow> 'v lstore \<Rightarrow> ('v lstore \<times> eid option) outcome" where
  "InsertAfter l v mark s =
     (if e_list (nd s (El mark)) \<noteq> Some l then Ret (s, None)
      else obind (insertValue l v (El mark) s) (\<lambda>(s, e). Ret (s, Some e)))"

definition MoveToFront :: "lid \<Rightarrow> eid \<Rightarrow> 'v lstore \<Rightarrow> 'v lstore outcome" where
  "MoveToFront l e s =
     (if e_list (nd s (El e)) \<noteq> Some l \<or> e_next (nd s (Root l)) = Some (El e) then Ret s
      else move (El e) (Root l) s)"

definition MoveToBack :: "lid \<Rightarrow> eid \<Rightarrow> 'v lstore \<Rightarrow> 'v lstore outcome" where
  "MoveToBack l e s =
     (if e_list (nd s (El e)) \<noteq> Some l \<or> e_prev (nd s (Root l)) = Some (El e) then Ret s
      else obind (deref (e_prev (nd s (Root l)))) (\<lambda>at. move (El e) at s))"

definition MoveBefore :: "lid \<Rightarrow> eid \<Rightarrow> eid \<Rightarrow> 'v lstore \<Rightarrow> 'v lstore outcome" where
  "MoveBefore l e mark s =
     (if e_list (nd s (El e)) \<noteq> Some l \<or> e = mark \<or> e_list (nd s (El mark)) \<noteq> Some l then Ret s
      else obind (deref (e_prev (nd s (El mark)))) (\<lambda>at. move (El e) at s))"

definition MoveAfter :: "lid \<Rightarrow> eid \<Rightarrow> eid \<Rightarrow> 'v lstore \<Rightarrow> 'v lstore outcome" where
  "MoveAfter l e mark s =
     (if e_list (nd s (El e)) \<noteq> Some l \<or> e = mark \<or> e_list (nd s (El mark)) \<noteq> Some l then Ret s
      else move (El e) (El mark) s)"

text \<open>
  The loops: \<open>i\<close> counts down from the length at the start, \<open>e\<close> walks along \<open>other\<close>.
\<close>

definition elem_next :: "node \<Rightarrow> 'v lstore \<Rightarrow> node option" where
  "elem_next n s = (case n of El e \<Rightarrow> Next e s | Root l \<Rightarrow> None)"

definition elem_prev :: "node \<Rightarrow> 'v lstore \<Rightarrow> node option" where
  "elem_prev n s = (case n of El e \<Rightarrow> Prev e s | Root l \<Rightarrow> None)"

function push_back_loop :: "lid \<Rightarrow> int \<Rightarrow> node option \<Rightarrow> 'v lstore \<Rightarrow> 'v lstore outcome" where
  "push_back_loop l i e s =
     (if i > 0 then
        obind (deref e) (\<lambda>n. obind (deref (e_prev (nd s (Root l)))) (\<lambda>at.
        obind (insertValue l (e_value (nd s n)) at s) (\<lambda>(s, x). push_back_loop l (i - 1) (elem_next n s) s)))
      else Ret s)"
  by pat_completeness auto
termination by (relation "measure (\<lambda>(l, i, e, s). nat i)") auto

function push_front_loop :: "lid \<Rightarrow> int \<Rightarrow> node option \<Rightarrow> 'v lstore \<Rightarrow> 'v lstore outcome" where
  "push_front_loop l i e s =
     (if i > 0 then
        obind (deref e) (\<lambda>n.
        obind (insertValue l (e_value (nd s n)) (Root l) s) (\<lambda>(s, x). push_front_loop l (i - 1) (elem_prev n s) s))
      else Ret s)"
  by pat_completeness auto
termination by (relation "measure (\<lambda>(l, i, e, s). nat i)") auto

declare push_back_loop.simps [simp del] push_front_loop.simps [simp del]

definition PushBackList :: "lid \<Rightarrow> lid \<Rightarrow> 'v lstore \<Rightarrow> 'v lstore outcome" where
  "PushBackList l other s =
     (let s = lazyInit l s in push_back_loop l (Len other s) (Front other s) s)"

definition PushFrontList :: "lid \<Rightarrow> lid \<Rightarrow> 'v lstore \<Rightarrow> 'v lstore outcome" where
  "PushFrontList l other s =
     (let s = lazyInit l s in push_front_loop l (Len other s) (Back other s) s)"

section \<open>Links\<close>

text \<open>Each node of \<open>ns\<close> points to the next one, which points back.\<close>

fun links :: "(node \<Rightarrow> 'v element) \<Rightarrow> node list \<Rightarrow> bool" where
  "links h [] = True"
| "links h [a] = True"
| "links h (a # b # ns) = (e_next (h a) = Some b \<and> e_prev (h b) = Some a \<and> links h (b # ns))"

lemma links_append: "links h (us @ a # vs) \<longleftrightarrow> links h (us @ [a]) \<and> links h (a # vs)"
proof (induction us)
  case (Cons u us)
  then show ?case by (cases us) auto
qed simp

lemma links_split:
  "links h (us @ a # b # vs) \<longleftrightarrow>
     links h (us @ [a]) \<and> e_next (h a) = Some b \<and> e_prev (h b) = Some a \<and> links h (b # vs)"
  using links_append [of h us a "b # vs"] by simp

lemma links_cong:
  "links h ns \<Longrightarrow> (\<And>n. n \<in> set (butlast ns) \<Longrightarrow> e_next (h' n) = e_next (h n)) \<Longrightarrow>
    (\<And>n. n \<in> set (tl ns) \<Longrightarrow> e_prev (h' n) = e_prev (h n)) \<Longrightarrow> links h' ns"
proof (induction h ns rule: links.induct)
  case (3 h a b ns)
  have "links h' (b # ns)"
  proof (rule 3(1))
    fix n assume "n \<in> set (tl (b # ns))"
    then show "e_prev (h' n) = e_prev (h n)" using 3(4) [of n] by simp
  next
    fix n assume "n \<in> set (butlast (b # ns))"
    then show "e_next (h' n) = e_next (h n)" using 3(3) [of n] by simp
  qed (use 3(2) in simp)
  then show ?case using 3(2) 3(3) [of a] 3(4) [of b] by simp
qed simp_all

lemma nd_upd [simp]: "nd (upd n f s) = (nd s)(n := f (nd s n))" "len (upd n f s) = len s" "fresh (upd n f s) = fresh s"
  by (simp_all add: upd_def)

lemma set_link_simps [simp]:
  "len (set_next n p s) = len s" "fresh (set_next n p s) = fresh s" "len (set_prev n p s) = len s"
  "fresh (set_prev n p s) = fresh s" "nd (set_len l k s) = nd s" "fresh (set_len l k s) = fresh s"
  "len (set_len l k s) = (len s)(l := k)"
  "nd (set_next n p s) = (nd s)(n := (nd s n)\<lparr>e_next := p\<rparr>)" "nd (set_prev n p s) = (nd s)(n := (nd s n)\<lparr>e_prev := p\<rparr>)"
  by (simp_all add: set_next_def set_prev_def set_len_def)

lemma deref_Some [simp]: "deref (Some n) = Ret n"
  by (simp add: deref_def)

end
