(* ===== verification/Go_List_Spec.thy ===== *)
theory Go_List_Spec
  imports Go_List
begin

text \<open>
  What the lists of \<open>container/list\<close> stand for: a map from lists to sequences of elements.  Every
  operation on pointers is shown to be an operation on one of the sequences, to keep the
  invariant of all rings, and to leave the values alone.
\<close>

section \<open>Changing a ring\<close>

definition ring_nodes :: "node list \<Rightarrow> bool" where
  "ring_nodes ns \<longleftrightarrow> distinct (butlast ns) \<and> distinct (tl ns)"

text \<open>\<open>s2\<close> differs from \<open>s\<close> in the links of \<open>N\<close> only.\<close>

definition relinked :: "node set \<Rightarrow> 'v lstore \<Rightarrow> 'v lstore \<Rightarrow> bool" where
  "relinked N s s2 \<longleftrightarrow>
     len s2 = len s \<and> fresh s2 = fresh s \<and>
     (\<forall>n. n \<notin> N \<longrightarrow> nd s2 n = nd s n) \<and>
     (\<forall>n. e_list (nd s2 n) = e_list (nd s n) \<and> e_value (nd s2 n) = e_value (nd s n))"

lemma relinked_trans: "relinked N s s2 \<Longrightarrow> relinked N s2 s3 \<Longrightarrow> relinked N s s3"
  by (simp add: relinked_def)

lemma relinked_mono: "relinked N s s2 \<Longrightarrow> N \<subseteq> M \<Longrightarrow> relinked M s s2"
  by (auto simp: relinked_def)

lemma links_segments:
  assumes l: "links h (us @ a # b # vs)" and d: "ring_nodes (us @ a # b # vs)"
    and n: "\<And>n. n \<noteq> a \<Longrightarrow> n \<notin> E \<Longrightarrow> e_next (h' n) = e_next (h n)"
    and p: "\<And>n. n \<noteq> b \<Longrightarrow> n \<notin> E \<Longrightarrow> e_prev (h' n) = e_prev (h n)"
    and E: "E \<inter> set (us @ a # b # vs) = {}"
  shows "links h' (us @ [a]) \<and> links h' (b # vs)"
proof
  have l1: "links h (us @ [a])" and l2: "links h (b # vs)" using l by (simp_all add: links_split)
  have d1: "distinct (us @ a # butlast (b # vs))" and d2: "distinct (tl (us @ a # b # vs))"
    using d by (simp_all add: ring_nodes_def butlast_append)
  show "links h' (us @ [a])"
  proof (rule links_cong [OF l1])
    fix m assume "m \<in> set (butlast (us @ [a]))"
    then show "e_next (h' m) = e_next (h m)" using d1 E by (intro n) auto
  next
    fix m assume m: "m \<in> set (tl (us @ [a]))"
    have "m \<noteq> b" using m d2 by (cases us) auto
    moreover have "m \<in> set (us @ [a])" using m by (rule in_set_tl)
    ultimately show "e_prev (h' m) = e_prev (h m)" using E by (intro p) auto
  qed
  show "links h' (b # vs)"
  proof (rule links_cong [OF l2])
    fix m assume m: "m \<in> set (butlast (b # vs))"
    then have "m \<in> set (b # vs)" by (rule in_set_butlastD)
    with m show "e_next (h' m) = e_next (h m)" using d1 E by (intro n) auto
  next
    fix m assume "m \<in> set (tl (b # vs))"
    then show "e_prev (h' m) = e_prev (h m)" using d2 E by (intro p) (cases us; auto)+
  qed
qed

lemma link_after_spec:
  assumes l: "links (nd s) (us @ a # b # vs)" and d: "ring_nodes (us @ a # b # vs)" and e: "e \<notin> set (us @ a # b # vs)"
  shows "\<exists>s2. link_after e a s = Ret s2 \<and> links (nd s2) (us @ a # e # b # vs) \<and> relinked {e, a, b} s s2"
proof -
  have ab: "e_next (nd s a) = Some b" using l by (simp add: links_split)
  have ne: "e \<noteq> a" "e \<noteq> b" using e by auto
  let ?s2 = "set_prev b (Some e) (set_next a (Some e) (set_next e (Some b) (set_prev e (Some a) s)))"
  have r: "link_after e a s = Ret ?s2" using ab ne by (simp add: link_after_def Let_def)
  have "links (nd ?s2) (us @ [a]) \<and> links (nd ?s2) (b # vs)"
    by (rule links_segments [OF l d, of "{e}"]) (use ne e in auto)
  then have "links (nd ?s2) (us @ a # e # b # vs)"
    unfolding links_split using ne by auto
  moreover have "relinked {e, a, b} s ?s2" by (simp add: relinked_def)
  ultimately show ?thesis using r by blast
qed

lemma unlink_spec:
  assumes l: "links (nd s) (us @ a # e # b # vs)" and d: "ring_nodes (us @ a # e # b # vs)" and e: "e \<noteq> b"
  shows "\<exists>s2. unlink e s = Ret s2 \<and> links (nd s2) (us @ a # b # vs) \<and> relinked {a, b} s s2"
proof -
  have p: "e_prev (nd s e) = Some a" "e_next (nd s e) = Some b" and l1: "links (nd s) (us @ [a])" and l2: "links (nd s) (b # vs)"
    using l by (simp_all add: links_split)
  have ae: "a \<noteq> e" using d by (auto simp: ring_nodes_def butlast_append)
  let ?s2 = "set_prev b (Some a) (set_next a (Some b) s)"
  have r: "unlink e s = Ret ?s2" using p ae by (simp add: unlink_def Let_def)
  have d1: "distinct (us @ a # e # butlast (b # vs))" and d2: "distinct (tl (us @ a # e # b # vs))"
    using d by (simp_all add: ring_nodes_def butlast_append)
  have "links (nd ?s2) (us @ [a])"
  proof (rule links_cong [OF l1])
    fix m assume "m \<in> set (tl (us @ [a]))"
    then show "e_prev (nd ?s2 m) = e_prev (nd s m)" using d2 by (cases us) auto
  qed (use d1 in auto)
  moreover have "links (nd ?s2) (b # vs)"
  proof (rule links_cong [OF l2])
    fix m assume "m \<in> set (butlast (b # vs))"
    then show "e_next (nd ?s2 m) = e_next (nd s m)" using d1 by auto
  qed (use d2 in \<open>cases us; auto\<close>)
  ultimately have "links (nd ?s2) (us @ a # b # vs)" unfolding links_split by (cases "a = b") auto
  moreover have "relinked {a, b} s ?s2" by (simp add: relinked_def)
  ultimately show ?thesis using r by blast
qed

section \<open>The sequences\<close>

definition ringn :: "lid \<Rightarrow> eid list \<Rightarrow> node list" where
  "ringn l xs = Root l # map El xs @ [Root l]"

definition lrep :: "'v lstore \<Rightarrow> lid \<Rightarrow> eid list \<Rightarrow> bool" where
  "lrep s l xs \<longleftrightarrow>
     distinct xs \<and> len s l = int (length xs) \<and>
     (if e_next (nd s (Root l)) = None then xs = [] else links (nd s) (ringn l xs))"

text \<open>
  The state of all lists: \<open>F\<close> gives the sequences, and \<open>D\<close> the elements that \<open>Init\<close> dropped from a list, with
  the list: they still name it as their owner.
\<close>

definition linv :: "(eid \<times> lid) set \<Rightarrow> 'v lstore \<Rightarrow> (lid \<Rightarrow> eid list) \<Rightarrow> bool" where
  "linv D s F \<longleftrightarrow>
     (\<forall>l. lrep s l (F l)) \<and> (\<forall>x l. e_list (nd s (El x)) = Some l \<longleftrightarrow> x \<in> set (F l) \<or> (x, l) \<in> D) \<and>
     (\<forall>x l. (x, l) \<in> D \<longrightarrow> x \<notin> set (F l)) \<and>
     (\<forall>l. e_list (nd s (Root l)) = None) \<and> (\<forall>x. fresh s \<le> x \<longrightarrow> e_list (nd s (El x)) = None)"

definition ready :: "'v lstore \<Rightarrow> lid \<Rightarrow> bool" where
  "ready s l \<longleftrightarrow> e_next (nd s (Root l)) \<noteq> None"

lemma inj_El: "inj El"
  by (rule injI) simp

lemma ring_nodes_ringn: "distinct xs \<Longrightarrow> ring_nodes (ringn l xs)"
  by (auto simp: ring_nodes_def ringn_def butlast_append distinct_map intro: inj_on_subset [OF inj_El])

lemma set_ringn: "set (ringn l xs) = insert (Root l) (El ` set xs)"
  by (auto simp: ringn_def)

lemma linvD:
  assumes "linv D s F"
  shows "distinct (F l)" "len s l = int (length (F l))" "ready s l \<Longrightarrow> links (nd s) (ringn l (F l))"
    "\<not> ready s l \<Longrightarrow> F l = []" "e_list (nd s (El x)) = Some l \<longleftrightarrow> x \<in> set (F l) \<or> (x, l) \<in> D" "e_list (nd s (Root l)) = None"
    "x \<in> set (F l) \<Longrightarrow> x < fresh s" "(x, l) \<in> D \<Longrightarrow> x \<notin> set (F l)" "(x, l) \<in> D \<Longrightarrow> x < fresh s"
proof -
  have r: "lrep s l (F l)" and e: "e_list (nd s (El x)) = Some l \<longleftrightarrow> x \<in> set (F l) \<or> (x, l) \<in> D"
    and f: "fresh s \<le> x \<Longrightarrow> e_list (nd s (El x)) = None" for l x
    using assms by (auto simp: linv_def)
  from r show "distinct (F l)" "len s l = int (length (F l))" "ready s l \<Longrightarrow> links (nd s) (ringn l (F l))"
    "\<not> ready s l \<Longrightarrow> F l = []" by (auto simp: lrep_def ready_def)
  show "e_list (nd s (El x)) = Some l \<longleftrightarrow> x \<in> set (F l) \<or> (x, l) \<in> D" by (rule e)
  show "e_list (nd s (Root l)) = None" "(x, l) \<in> D \<Longrightarrow> x \<notin> set (F l)" using assms by (auto simp: linv_def)
  show "x \<in> set (F l) \<Longrightarrow> x < fresh s" "(x, l) \<in> D \<Longrightarrow> x < fresh s"
    using e [of x l] f [of x] by (metis not_le option.distinct(1))+
qed

lemma linv_other: "linv D s F \<Longrightarrow> x \<in> set (F l) \<Longrightarrow> x \<in> set (F l') \<Longrightarrow> l = l'"
  using linvD(5) [of D s F x l] linvD(5) [of D s F x l'] by simp

lemma linv_dropped: "linv D s F \<Longrightarrow> x \<in> set (F l) \<Longrightarrow> (x, l') \<notin> D"
  using linvD(5) [of D s F x l] linvD(5) [of D s F x l'] linvD(8) [of D s F x l'] by auto

lemma linv_change:
  assumes i: "linv D s F" and fr: "\<And>n. n \<notin> N \<Longrightarrow> e_next (nd s2 n) = e_next (nd s n) \<and> e_prev (nd s2 n) = e_prev (nd s n)"
    and N: "\<And>l'. l' \<noteq> l \<Longrightarrow> N \<inter> set (ringn l' (F l')) = {}"
    and l: "links (nd s2) (ringn l ys)" "distinct ys" and ln: "len s2 = (len s)(l := int (length ys))"
    and el: "\<And>x l'. e_list (nd s2 (El x)) = Some l' \<longleftrightarrow> x \<in> set ((F(l := ys)) l') \<or> (x, l') \<in> D2"
    and dr: "\<And>x l'. (x, l') \<in> D2 \<Longrightarrow> x \<notin> set ((F(l := ys)) l')"
    and rl: "\<And>l'. e_list (nd s2 (Root l')) = None" and f: "\<And>x. fresh s2 \<le> x \<Longrightarrow> e_list (nd s2 (El x)) = None"
  shows "linv D2 s2 (F(l := ys)) \<and> ready s2 l"
proof -
  have rd: "ready s2 l" using l(1) by (cases ys) (auto simp: ready_def ringn_def)
  have "lrep s2 l' ((F(l := ys)) l')" for l'
  proof (cases "l' = l")
    case True
    then show ?thesis using l rd ln by (auto simp: lrep_def ready_def)
  next
    case False
    have m: "e_next (nd s2 m) = e_next (nd s m) \<and> e_prev (nd s2 m) = e_prev (nd s m)" if "m \<in> set (ringn l' (F l'))" for m
      using N [OF False] that fr [of m] by blast
    have r: "e_next (nd s2 (Root l')) = e_next (nd s (Root l'))" using m [of "Root l'"] by (simp add: set_ringn)
    show ?thesis
    proof (cases "ready s l'")
      case True
      have "links (nd s2) (ringn l' (F l'))"
        by (rule links_cong [OF linvD(3) [OF i True]]) (use m in \<open>auto dest: in_set_butlastD in_set_tl\<close>)
      then show ?thesis using False r True linvD(1,2) [OF i, of l'] ln by (auto simp: lrep_def ready_def)
    next
      case nr: False
      then show ?thesis using False r linvD(1,2,4) [OF i, of l'] ln by (simp add: lrep_def ready_def)
    qed
  qed
  then show ?thesis using el dr rl f rd by (simp add: linv_def)
qed

text \<open>A node of the ring and the one after it.\<close>

lemma ringn_at:
  obtains us b vs where "ringn l (p @ q) = us @ last (Root l # map El p) # b # vs"
    "\<And>e. ringn l (p @ e # q) = us @ last (Root l # map El p) # El e # b # vs"
    "us @ [last (Root l # map El p)] = Root l # map El p" "b # vs = map El q @ [Root l]"
proof -
  define us a where "us = butlast (Root l # map El p)" and "a = last (Root l # map El p)"
  define b vs where "b = hd (map El q @ [Root l])" and "vs = tl (map El q @ [Root l])"
  have e: "us @ [a] = Root l # map El p" unfolding us_def a_def by (rule append_butlast_last_id) simp
  have f: "b # vs = map El q @ [Root l]" by (simp add: b_def vs_def)
  have g: "us @ a # ys = (Root l # map El p) @ ys" for ys
  proof -
    have "us @ a # ys = (us @ [a]) @ ys" by simp
    then show ?thesis by (simp only: e)
  qed
  show thesis
  proof (rule that [of us b vs, folded a_def])
    show "ringn l (p @ q) = us @ a # b # vs" unfolding f g by (simp add: ringn_def)
    show "ringn l (p @ e # q) = us @ a # El e # b # vs" for e unfolding f g by (simp add: ringn_def)
  qed (rule e, rule f)
qed

lemma last_in_ring: "last (Root l # map El p) \<in> set (ringn l (p @ q))"
  by (cases p rule: rev_cases) (auto simp: ringn_def)

lemma ring_disjoint:
  assumes i: "linv D s F" and l: "l' \<noteq> l" and N: "N \<subseteq> set (ringn l (F l)) \<union> El ` X" and X: "\<And>x. x \<in> X \<Longrightarrow> x \<notin> set (F l')"
  shows "N \<inter> set (ringn l' (F l')) = {}"
  using N X l linv_other [OF i, of _ l l'] by (auto simp: set_ringn)

lemma hd_in_ring: "b # vs = map El q @ [Root l] \<Longrightarrow> b \<in> set (ringn l (p @ q))"
  by (cases q) (auto simp: ringn_def)

section \<open>insert, remove and move\<close>

lemma insertValue_spec:
  assumes i: "linv D s F" and rd: "ready s l" and F: "F l = p @ q" and at: "at = last (Root l # map El p)"
  shows "\<exists>s2. insertValue l v at s = Ret (s2, fresh s) \<and> linv D s2 (F(l := p @ fresh s # q)) \<and> ready s2 l \<and>
    fresh s2 = fresh s + 1 \<and> (\<forall>x. e_value (nd s2 (El x)) = (if x = fresh s then v else e_value (nd s (El x)))) \<and>
    (\<forall>l'. ready s2 l' \<longleftrightarrow> ready s l')"
proof -
  let ?e = "fresh s"
  let ?s1 = "s\<lparr>nd := (nd s)(El ?e := \<lparr>e_next = None, e_prev = None, e_list = None, e_value = v\<rparr>), fresh := ?e + 1\<rparr>"
  have new: "?e \<notin> set (F l')" for l' using linvD(7) [OF i, of ?e l'] by auto
  obtain us b vs where R: "ringn l (p @ q) = us @ at # b # vs" "\<And>e. ringn l (p @ e # q) = us @ at # El e # b # vs"
    "b # vs = map El q @ [Root l]"
    using ringn_at [of l p q] unfolding at by metis
  have l0: "links (nd s) (us @ at # b # vs)" and d0: "ring_nodes (us @ at # b # vs)"
    using linvD(3) [OF i rd] ring_nodes_ringn [OF linvD(1) [OF i, of l], of l] unfolding F R(1) by auto
  have en: "El ?e \<notin> set (us @ at # b # vs)" unfolding R(1) [symmetric] using new [of l] F by (auto simp: set_ringn)
  have "links (nd ?s1) (us @ at # b # vs)"
    by (rule links_cong [OF l0]) (use en in \<open>auto dest: in_set_butlastD in_set_tl\<close>)
  from link_after_spec [OF this d0 en] obtain s2 where s2: "link_after (El ?e) at ?s1 = Ret s2"
    "links (nd s2) (us @ at # El ?e # b # vs)" "relinked {El ?e, at, b} ?s1 s2" by blast
  let ?s3 = "set_len l (len s2 l + 1) (upd (El ?e) (\<lambda>x. x\<lparr>e_list := Some l\<rparr>) s2)"
  have r: "insertValue l v at s = Ret (?s3, ?e)" using s2(1) by (simp add: insertValue_def list_insert_def Let_def)
  have nd3: "e_next (nd ?s3 n) = e_next (nd s2 n)" "e_prev (nd ?s3 n) = e_prev (nd s2 n)" for n by simp_all
  have val: "e_value (nd ?s3 (El x)) = (if x = ?e then v else e_value (nd s (El x)))" for x
    using s2(3) by (auto simp: relinked_def)
  have lst: "e_list (nd ?s3 n) = (if n = El ?e then Some l else e_list (nd s n))" for n
    using s2(3) by (auto simp: relinked_def)
  have fr: "fresh ?s3 = ?e + 1" using s2(3) by (simp add: relinked_def)
  have "linv D ?s3 (F(l := p @ ?e # q)) \<and> ready ?s3 l"
  proof (rule linv_change [OF i, of "{El ?e, at, b}"])
    show "e_next (nd ?s3 n) = e_next (nd s n) \<and> e_prev (nd ?s3 n) = e_prev (nd s n)" if "n \<notin> {El ?e, at, b}" for n
      using s2(3) that unfolding nd3 by (simp add: relinked_def)
    show "{El ?e, at, b} \<inter> set (ringn l' (F l')) = {}" if "l' \<noteq> l" for l'
    proof (rule ring_disjoint [OF i that, of _ "{?e}"])
      show "{El ?e, at, b} \<subseteq> set (ringn l (F l)) \<union> El ` {?e}" unfolding F R(1) by auto
    qed (use new in auto)
    show "links (nd ?s3) (ringn l (p @ ?e # q))" unfolding R(2) by (rule links_cong [OF s2(2)]) (rule nd3)+
    show "distinct (p @ ?e # q)" using linvD(1) [OF i, of l] new [of l] unfolding F by simp
    show "len ?s3 = (len s)(l := int (length (p @ ?e # q)))"
      using s2(3) linvD(2) [OF i, of l] by (auto simp: relinked_def F fun_eq_iff)
    show "e_list (nd ?s3 (El x)) = Some l' \<longleftrightarrow> x \<in> set ((F(l := p @ ?e # q)) l') \<or> (x, l') \<in> D" for x l'
      unfolding lst using linvD(5) [OF i, of x l'] linvD(9) [OF i, of x l'] new [of l'] by (auto simp: F)
    show "x \<notin> set ((F(l := p @ ?e # q)) l')" if "(x, l') \<in> D" for x l'
      using linvD(8,9) [OF i that] by (auto simp: F)
    show "e_list (nd ?s3 (Root l')) = None" for l' unfolding lst using linvD(6) [OF i] by simp
    show "e_list (nd ?s3 (El x)) = None" if "fresh ?s3 \<le> x" for x
      unfolding lst using i that fr by (auto simp: linv_def)
  qed
  moreover have "ready ?s3 l' \<longleftrightarrow> ready s l'" for l'
  proof (cases "l' = l")
    case True
    then show ?thesis using calculation rd by simp
  next
    case False
    then have "Root l' \<notin> {El ?e, at, b}"
      using ring_disjoint [OF i False, of "{at, b}" "{}"] unfolding F R(1) by (auto simp: set_ringn)
    then show ?thesis using s2(3) by (simp add: ready_def relinked_def)
  qed
  ultimately show ?thesis using r val fr by blast
qed

lemma list_remove_spec:
  assumes i: "linv D s F" and F: "F l = p @ e # q"
  shows "\<exists>s2. list_remove l (El e) s = Ret s2 \<and> linv D s2 (F(l := p @ q)) \<and> fresh s2 = fresh s \<and>
    (\<forall>n. e_value (nd s2 n) = e_value (nd s n)) \<and> ready s2 l"
proof -
  have rd: "ready s l" using linvD(4) [OF i, of l] F by auto
  have d: "distinct (p @ e # q)" using linvD(1) [OF i, of l] unfolding F .
  obtain us b vs where R: "ringn l (p @ q) = us @ last (Root l # map El p) # b # vs"
    "\<And>e. ringn l (p @ e # q) = us @ last (Root l # map El p) # El e # b # vs" "b # vs = map El q @ [Root l]"
    using ringn_at [of l p q] by metis
  define a where "a = last (Root l # map El p)"
  note R = R [folded a_def]
  have l0: "links (nd s) (us @ a # El e # b # vs)" and d0: "ring_nodes (us @ a # El e # b # vs)"
    using linvD(3) [OF i rd] ring_nodes_ringn [OF linvD(1) [OF i, of l], of l] unfolding F R(2) by auto
  have "El e \<noteq> b" using R(3) d by (cases q) auto
  from unlink_spec [OF l0 d0 this] obtain s1 where s1: "unlink (El e) s = Ret s1" "links (nd s1) (us @ a # b # vs)"
    "relinked {a, b} s s1" by blast
  let ?s2 = "set_len l (len s1 l - 1) (upd (El e) (\<lambda>x. x\<lparr>e_next := None, e_prev := None, e_list := None\<rparr>) s1)"
  have r: "list_remove l (El e) s = Ret ?s2" using s1(1) by (simp add: list_remove_def Let_def)
  have lst: "e_list (nd ?s2 n) = (if n = El e then None else e_list (nd s n))" for n
    using s1(3) by (auto simp: relinked_def)
  have fr: "fresh ?s2 = fresh s" using s1(3) by (simp add: relinked_def)
  have "linv D ?s2 (F(l := p @ q)) \<and> ready ?s2 l"
  proof (rule linv_change [OF i, of "{El e, a, b}"])
    show "e_next (nd ?s2 n) = e_next (nd s n) \<and> e_prev (nd ?s2 n) = e_prev (nd s n)" if "n \<notin> {El e, a, b}" for n
      using s1(3) that by (simp add: relinked_def)
    show "{El e, a, b} \<inter> set (ringn l' (F l')) = {}" if "l' \<noteq> l" for l'
    proof (rule ring_disjoint [OF i that, of _ "{}"])
      show "{El e, a, b} \<subseteq> set (ringn l (F l)) \<union> El ` {}" unfolding F R(2) by auto
    qed simp
    have "El e \<notin> set (ringn l (p @ q))" using d by (auto simp: set_ringn)
    then have en: "n \<noteq> El e" if "n \<in> set (ringn l (p @ q))" for n using that by auto
    show "links (nd ?s2) (ringn l (p @ q))"
      by (rule links_cong [OF s1(2) [folded R(1)]]) (use en in \<open>auto dest: in_set_butlastD in_set_tl\<close>)
    show "distinct (p @ q)" using d by simp
    show "len ?s2 = (len s)(l := int (length (p @ q)))"
      using s1(3) linvD(2) [OF i, of l] by (auto simp: relinked_def F fun_eq_iff)
    show "e_list (nd ?s2 (El x)) = Some l' \<longleftrightarrow> x \<in> set ((F(l := p @ q)) l') \<or> (x, l') \<in> D" for x l'
      unfolding lst using linvD(5) [OF i, of x l'] linvD(5) [OF i, of e l] linv_dropped [OF i, of e l l'] d by (auto simp: F)
    show "x \<notin> set ((F(l := p @ q)) l')" if "(x, l') \<in> D" for x l'
      using linvD(8) [OF i that] by (auto simp: F)
    show "e_list (nd ?s2 (Root l')) = None" for l' unfolding lst using linvD(6) [OF i] by simp
    show "e_list (nd ?s2 (El x)) = None" if "fresh ?s2 \<le> x" for x
      unfolding lst using i that fr by (auto simp: linv_def)
  qed
  moreover have "e_value (nd ?s2 n) = e_value (nd s n)" for n using s1(3) by (auto simp: relinked_def)
  ultimately show ?thesis using r fr by blast
qed

lemma move_spec:
  assumes i: "linv D s F" and F: "F l = p @ e # q" and at: "at = last (Root l # map El p')" and pq: "p @ q = p' @ q'"
  shows "\<exists>s2. move (El e) at s = Ret s2 \<and> linv D s2 (F(l := p' @ e # q')) \<and> fresh s2 = fresh s \<and>
    (\<forall>n. e_value (nd s2 n) = e_value (nd s n))"
proof -
  have rd: "ready s l" using linvD(4) [OF i, of l] F by auto
  have d: "distinct (p @ e # q)" using linvD(1) [OF i, of l] unfolding F .
  have ep: "e \<notin> set (p' @ q')" using d unfolding pq [symmetric] by simp
  have ne: "El e \<noteq> at" using ep at by (cases p' rule: rev_cases) auto
  obtain us b vs where R: "ringn l (p @ q) = us @ last (Root l # map El p) # b # vs"
    "\<And>e. ringn l (p @ e # q) = us @ last (Root l # map El p) # El e # b # vs" "b # vs = map El q @ [Root l]"
    using ringn_at [of l p q] by metis
  define a where "a = last (Root l # map El p)"
  note R = R [folded a_def]
  obtain us' b' vs' where R': "ringn l (p' @ q') = us' @ at # b' # vs'" "\<And>e. ringn l (p' @ e # q') = us' @ at # El e # b' # vs'"
    using ringn_at [of l p' q'] unfolding at by metis
  have l0: "links (nd s) (us @ a # El e # b # vs)" and d0: "ring_nodes (us @ a # El e # b # vs)"
    using linvD(3) [OF i rd] ring_nodes_ringn [OF linvD(1) [OF i, of l], of l] unfolding F R(2) by auto
  have "El e \<noteq> b" using R(3) d by (cases q) auto
  from unlink_spec [OF l0 d0 this] obtain s1 where s1: "unlink (El e) s = Ret s1" "links (nd s1) (ringn l (p' @ q'))"
    "relinked {a, b} s s1" unfolding R(1) [symmetric] pq by blast
  have "distinct (p @ q)" using d by simp
  then have d1: "ring_nodes (ringn l (p' @ q'))" unfolding pq by (rule ring_nodes_ringn)
  have en: "El e \<notin> set (ringn l (p' @ q'))" using ep by (auto simp: set_ringn)
  from link_after_spec [OF s1(2) [unfolded R'(1)] d1 [unfolded R'(1)] en [unfolded R'(1)]] obtain s2 where
    s2: "link_after (El e) at s1 = Ret s2" "links (nd s2) (ringn l (p' @ e # q'))" "relinked {El e, at, b'} s1 s2"
    unfolding R'(2) [symmetric] by blast
  have r: "move (El e) at s = Ret s2" using ne s1(1) s2(1) by (simp add: move_def)
  have N1: "{a, b} \<subseteq> set (ringn l (F l))" unfolding F R(2) by auto
  have "{at, b'} \<subseteq> set (ringn l (p' @ q'))" unfolding R'(1) by auto
  then have N2: "{El e, at, b'} \<subseteq> set (ringn l (F l))" unfolding pq [symmetric] by (auto simp: F set_ringn)
  have rl: "relinked (set (ringn l (F l))) s s2"
    using relinked_trans [OF relinked_mono [OF s1(3) N1] relinked_mono [OF s2(3) N2]] .
  have e2: "e_list (nd s2 n) = e_list (nd s n)" "fresh s2 = fresh s" "len s2 = len s" for n using rl by (simp_all add: relinked_def)
  have st: "set (p' @ e # q') = set (F l)" "length (p' @ e # q') = length (F l)"
    using arg_cong [OF pq, of set] arg_cong [OF pq, of length] by (auto simp: F)
  have "linv D s2 (F(l := p' @ e # q')) \<and> ready s2 l"
  proof (rule linv_change [OF i, of "set (ringn l (F l))"])
    show "e_next (nd s2 n) = e_next (nd s n) \<and> e_prev (nd s2 n) = e_prev (nd s n)" if "n \<notin> set (ringn l (F l))" for n
      using rl that by (simp add: relinked_def)
    show "set (ringn l (F l)) \<inter> set (ringn l' (F l')) = {}" if "l' \<noteq> l" for l'
      by (rule ring_disjoint [OF i that, of _ "{}"]) auto
    have "distinct (p' @ q')" unfolding pq [symmetric] using d by simp
    then show "distinct (p' @ e # q')" using ep by simp
    show "len s2 = (len s)(l := int (length (p' @ e # q')))" using e2(3) linvD(2) [OF i, of l] unfolding st(2) by auto
    show "e_list (nd s2 (El x)) = Some l' \<longleftrightarrow> x \<in> set ((F(l := p' @ e # q')) l') \<or> (x, l') \<in> D" for x l'
      unfolding e2 using linvD(5) [OF i, of x l'] st(1) by auto
    show "x \<notin> set ((F(l := p' @ e # q')) l')" if "(x, l') \<in> D" for x l'
      using linvD(8) [OF i that] st(1) by auto
    show "e_list (nd s2 (Root l')) = None" for l' unfolding e2 using linvD(6) [OF i] by simp
    show "e_list (nd s2 (El x)) = None" if "fresh s2 \<le> x" for x unfolding e2(1) using i that e2(2) by (simp add: linv_def)
  qed (rule s2(2))
  then show ?thesis using r e2(2) rl by (auto simp: relinked_def)
qed

section \<open>The operations on sequences\<close>

lemma list_Init_spec:
  assumes i: "linv D s F"
  shows "linv (D \<union> set (F l) \<times> {l}) (list_Init l s) (F(l := [])) \<and> ready (list_Init l s) l"
proof (rule linv_change [OF i, of "{Root l}"])
  show "{Root l} \<inter> set (ringn l' (F l')) = {}" if "l' \<noteq> l" for l' using that by (auto simp: set_ringn)
  show "e_list (nd (list_Init l s) (El x)) = Some l' \<longleftrightarrow> x \<in> set ((F(l := [])) l') \<or> (x, l') \<in> D \<union> set (F l) \<times> {l}" for x l'
    using linvD(5) [OF i, of x l'] by (auto simp: list_Init_def)
  show "x \<notin> set ((F(l := [])) l')" if "(x, l') \<in> D \<union> set (F l) \<times> {l}" for x l'
    using that linvD(8) [OF i, of x l'] by auto
  show "e_list (nd (list_Init l s) (Root l')) = None" for l' using linvD(6) [OF i] by (simp add: list_Init_def)
  show "e_list (nd (list_Init l s) (El x)) = None" if "fresh (list_Init l s) \<le> x" for x
    using i that by (simp add: list_Init_def linv_def)
qed (auto simp: list_Init_def ringn_def)

lemma lazyInit_spec:
  assumes i: "linv D s F"
  shows "linv D (lazyInit l s) F" "ready (lazyInit l s) l" "fresh (lazyInit l s) = fresh s"
    "e_value (nd (lazyInit l s) n) = e_value (nd s n)" "e_list (nd (lazyInit l s) n) = e_list (nd s n)"
    "len (lazyInit l s) = len s" "e_next (nd (lazyInit l s) (El x)) = e_next (nd s (El x))"
proof -
  have "linv D (lazyInit l s) F \<and> ready (lazyInit l s) l"
  proof (cases "ready s l")
    case True
    then show ?thesis using i by (auto simp: lazyInit_def ready_def)
  next
    case False
    then have e: "lazyInit l s = list_Init l s" and z: "F l = []" using linvD(4) [OF i] by (auto simp: lazyInit_def ready_def)
    have "linv D (list_Init l s) (F(l := [])) \<and> ready (list_Init l s) l"
      using list_Init_spec [OF i, of l] z by simp
    then show ?thesis using z unfolding e by (simp add: fun_upd_idem)
  qed
  then show "linv D (lazyInit l s) F" "ready (lazyInit l s) l" by simp_all
  have "len s l = 0" if "\<not> ready s l" using linvD(2,4) [OF i, of l] that by simp
  then show "fresh (lazyInit l s) = fresh s" "e_value (nd (lazyInit l s) n) = e_value (nd s n)"
    "e_list (nd (lazyInit l s) n) = e_list (nd s n)" "len (lazyInit l s) = len s"
    "e_next (nd (lazyInit l s) (El x)) = e_next (nd s (El x))"
    by (auto simp: lazyInit_def list_Init_def ready_def fun_eq_iff)
qed

lemma ring_ends:
  assumes i: "linv D s F" and rd: "ready s l"
  shows "e_next (nd s (Root l)) = Some (hd (map El (F l) @ [Root l]))" "e_prev (nd s (Root l)) = Some (last (Root l # map El (F l)))"
proof -
  note l0 = linvD(3) [OF i rd]
  show "e_next (nd s (Root l)) = Some (hd (map El (F l) @ [Root l]))"
    using l0 by (cases "F l") (simp_all add: ringn_def)
  obtain us b vs where R: "ringn l (F l @ []) = us @ last (Root l # map El (F l)) # b # vs" "b # vs = map El [] @ [Root l]"
    using ringn_at [of l "F l" "[]"] by metis
  then have "b = Root l" by simp
  then show "e_prev (nd s (Root l)) = Some (last (Root l # map El (F l)))"
    using l0 R(1) unfolding append_Nil2 by (simp only: links_split)
qed

lemma ring_mid:
  assumes i: "linv D s F" and F: "F l = p @ e # q"
  shows "e_next (nd s (El e)) = Some (hd (map El q @ [Root l]))" "e_prev (nd s (El e)) = Some (last (Root l # map El p))"
proof -
  have "ready s l" using linvD(4) [OF i, of l] F by auto
  note l0 = linvD(3) [OF i this, unfolded F]
  obtain us b vs where R: "ringn l (p @ e # q) = us @ last (Root l # map El p) # El e # b # vs" "b # vs = map El q @ [Root l]"
    using ringn_at [of l p q] by metis
  have "hd (map El q @ [Root l]) = b" using R(2) by (metis list.sel(1))
  then show "e_next (nd s (El e)) = Some (hd (map El q @ [Root l]))" "e_prev (nd s (El e)) = Some (last (Root l # map El p))"
    using l0 unfolding R(1) by (simp_all add: links_split)
qed

text \<open>The first element of a sequence as a pointer.\<close>

definition head_ptr :: "eid list \<Rightarrow> node option" where
  "head_ptr xs = (case xs of [] \<Rightarrow> None | x # _ \<Rightarrow> Some (El x))"

lemma Front_first: "linv D s F \<Longrightarrow> Front l s = head_ptr (F l)"
  using linvD(2) [of D s F l] linvD(4) [of D s F l] ring_ends(1) [of D s F l]
  by (cases "F l") (auto simp: Front_def head_ptr_def)

lemma Back_last: "linv D s F \<Longrightarrow> Back l s = head_ptr (rev (F l))"
  using linvD(2) [of D s F l] linvD(4) [of D s F l] ring_ends(2) [of D s F l]
  by (cases "F l" rule: rev_cases) (auto simp: Back_def head_ptr_def)

lemma Next_first: "linv D s F \<Longrightarrow> F l = p @ e # q \<Longrightarrow> Next e s = head_ptr q"
  using linvD(5) [of D s F e l] ring_mid(1) [of D s F l p e q]
  by (cases q) (auto simp: Next_def head_ptr_def Let_def)

lemma Prev_last: "linv D s F \<Longrightarrow> F l = p @ e # q \<Longrightarrow> Prev e s = head_ptr (rev p)"
  using linvD(5) [of D s F e l] ring_mid(2) [of D s F l p e q]
  by (cases p rule: rev_cases) (auto simp: Prev_def head_ptr_def Let_def)

definition vals :: "'v lstore \<Rightarrow> eid list \<Rightarrow> 'v list" where
  "vals s xs = map (\<lambda>x. e_value (nd s (El x))) xs"

text \<open>\<open>x\<close> is a new element with value \<open>v\<close>.\<close>

definition new_elem :: "eid \<Rightarrow> 'v \<Rightarrow> 'v lstore \<Rightarrow> 'v lstore \<Rightarrow> bool" where
  "new_elem x v s s2 \<longleftrightarrow>
     x = fresh s \<and> fresh s2 = x + 1 \<and> (\<forall>y. e_value (nd s2 (El y)) = (if y = x then v else e_value (nd s (El y))))"

lemma PushFront_spec:
  assumes i: "linv D s F"
  shows "\<exists>s2 x. PushFront l v s = Ret (s2, x) \<and> linv D s2 (F(l := x # F l)) \<and> new_elem x v s s2"
  using insertValue_spec [OF lazyInit_spec(1,2) [OF i], of l "[]" "F l" "Root l" v]
  by (auto simp: PushFront_def lazyInit_spec [OF i] new_elem_def)

lemma PushBack_spec:
  assumes i: "linv D s F"
  shows "\<exists>s2 x. PushBack l v s = Ret (s2, x) \<and> linv D s2 (F(l := F l @ [x])) \<and> new_elem x v s s2"
  using insertValue_spec [OF lazyInit_spec(1,2) [OF i], of l "F l" "[]" _ v]
    ring_ends(2) [OF lazyInit_spec(1,2) [OF i], of l]
  by (auto simp: PushBack_def Let_def lazyInit_spec [OF i] new_elem_def)

lemma in_list_split:
  assumes "linv D s F" "x \<in> set (F l)"
  obtains p q where "F l = p @ x # q" "ready s l"
proof -
  have "ready s l" using linvD(4) [OF assms(1), of l] assms(2) by (cases "ready s l") auto
  with split_list [OF assms(2)] that show thesis by blast
qed

lemma InsertBefore_spec:
  assumes i: "linv D s F" and F: "F l = p @ mark # q"
  shows "\<exists>s2 x. InsertBefore l v mark s = Ret (s2, Some x) \<and> linv D s2 (F(l := p @ x # mark # q)) \<and> new_elem x v s s2"
proof -
  have rd: "ready s l" "e_list (nd s (El mark)) = Some l" using linvD(4) [OF i, of l] linvD(5) [OF i, of mark l] F by auto
  show ?thesis
    using insertValue_spec [OF i rd(1) F refl, of v] rd(2) ring_mid(2) [OF i F]
    by (auto simp: InsertBefore_def new_elem_def)
qed

lemma InsertAfter_spec:
  assumes i: "linv D s F" and F: "F l = p @ mark # q"
  shows "\<exists>s2 x. InsertAfter l v mark s = Ret (s2, Some x) \<and> linv D s2 (F(l := p @ mark # x # q)) \<and> new_elem x v s s2"
proof -
  have rd: "ready s l" "e_list (nd s (El mark)) = Some l" using linvD(4) [OF i, of l] linvD(5) [OF i, of mark l] F by auto
  have "F l = (p @ [mark]) @ q" using F by simp
  from insertValue_spec [OF i rd(1) this refl, of v] rd(2) show ?thesis
    by (auto simp: InsertAfter_def new_elem_def)
qed

lemma Remove_spec:
  assumes i: "linv D s F" and nd: "(e, l) \<notin> D"
  shows "\<exists>s2. Remove l e s = Ret (s2, e_value (nd s (El e))) \<and> linv D s2 (F(l := remove1 e (F l))) \<and> fresh s2 = fresh s \<and>
    (\<forall>n. e_value (nd s2 n) = e_value (nd s n))"
proof (cases "e \<in> set (F l)")
  case True
  then obtain p q where F: "F l = p @ e # q" using in_list_split [OF i] by metis
  have "remove1 e (F l) = p @ q" using linvD(1) [OF i, of l] F by (simp add: remove1_append)
  moreover have "e_list (nd s (El e)) = Some l" using linvD(5) [OF i] True by blast
  ultimately show ?thesis using list_remove_spec [OF i F] by (auto simp: Remove_def)
next
  case False
  then have "e_list (nd s (El e)) \<noteq> Some l" using linvD(5) [OF i] nd by blast
  moreover have "F(l := remove1 e (F l)) = F" using False by (simp add: remove1_idem fun_upd_idem)
  ultimately show ?thesis using i by (simp add: Remove_def)
qed

text \<open>Where a moved element goes: \<open>remove1 e (F l) = p @ q\<close> and \<open>e\<close> goes between.\<close>

definition moved :: "(eid \<times> lid) set \<Rightarrow> lid \<Rightarrow> eid list \<Rightarrow> 'v lstore \<Rightarrow> (lid \<Rightarrow> eid list) \<Rightarrow> 'v lstore \<Rightarrow> bool" where
  "moved D l ys s F s2 \<longleftrightarrow> linv D s2 (F(l := ys)) \<and> fresh s2 = fresh s \<and> (\<forall>n. e_value (nd s2 n) = e_value (nd s n))"

lemma move_remove1:
  assumes i: "linv D s F" and e: "e \<in> set (F l)" and r: "remove1 e (F l) = p @ q" and at: "at = last (Root l # map El p)"
  shows "\<exists>s2. move (El e) at s = Ret s2 \<and> moved D l (p @ e # q) s F s2"
proof -
  obtain p' q' where F: "F l = p' @ e # q'" using in_list_split [OF i e] by metis
  have "p' @ q' = p @ q" using r linvD(1) [OF i, of l] unfolding F by (simp add: remove1_append)
  from move_spec [OF i F at this] show ?thesis by (auto simp: moved_def)
qed

lemma moved_refl: "linv D s F \<Longrightarrow> F l = ys \<Longrightarrow> moved D l ys s F s"
  by (auto simp: moved_def fun_upd_idem)

lemma MoveToFront_spec:
  assumes i: "linv D s F" and e: "e \<in> set (F l)"
  shows "\<exists>s2. MoveToFront l e s = Ret s2 \<and> moved D l (e # remove1 e (F l)) s F s2"
proof -
  have l: "e_list (nd s (El e)) = Some l" using linvD(5) [OF i] e by blast
  obtain p q where F: "F l = p @ e # q" "ready s l" using in_list_split [OF i e] by metis
  show ?thesis
  proof (cases "e_next (nd s (Root l)) = Some (El e)")
    case True
    then have "p = []" using ring_ends(1) [OF i F(2)] linvD(1) [OF i, of l] by (cases p) (auto simp: F(1))
    then have "F l = e # remove1 e (F l)" using F(1) by simp
    from moved_refl [OF i this] show ?thesis using True by (simp add: MoveToFront_def)
  next
    case False
    then show ?thesis using l move_remove1 [OF i e, of "[]"] by (simp add: MoveToFront_def)
  qed
qed

lemma MoveToBack_spec:
  assumes i: "linv D s F" and e: "e \<in> set (F l)"
  shows "\<exists>s2. MoveToBack l e s = Ret s2 \<and> moved D l (remove1 e (F l) @ [e]) s F s2"
proof -
  have l: "e_list (nd s (El e)) = Some l" using linvD(5) [OF i] e by blast
  obtain p q where F: "F l = p @ e # q" "ready s l" using in_list_split [OF i e] by metis
  have d: "e \<notin> set p" "e \<notin> set q" using linvD(1) [OF i, of l] unfolding F(1) by auto
  have en: "e_prev (nd s (Root l)) = Some (last (Root l # map El (F l)))" by (rule ring_ends(2) [OF i F(2)])
  show ?thesis
  proof (cases "q = []")
    case True
    then have "e_prev (nd s (Root l)) = Some (El e)" unfolding en F(1) by simp
    moreover have "F l = remove1 e (F l) @ [e]" using F(1) True d by (simp add: remove1_append)
    ultimately show ?thesis using moved_refl [OF i, of l] by (auto simp: MoveToBack_def)
  next
    case False
    have "last (Root l # map El (F l)) = last (Root l # map El (remove1 e (F l)))"
      using False d unfolding F(1) by (simp add: remove1_append)
    moreover have "last (map El q) \<noteq> El e" using d(2) False by (metis image_eqI last_in_set last_map node.inject(2))
    then have "e_prev (nd s (Root l)) \<noteq> Some (El e)" unfolding en F(1) using False by simp
    ultimately show ?thesis
      using l en move_remove1 [OF i e, of "remove1 e (F l)" "[]"] by (simp add: MoveToBack_def)
  qed
qed

text \<open>Where a mark is: before it, or after it.\<close>

definition ins_before :: "'a \<Rightarrow> 'a \<Rightarrow> 'a list \<Rightarrow> 'a list" where
  "ins_before m x xs = takeWhile (\<lambda>y. y \<noteq> m) xs @ x # dropWhile (\<lambda>y. y \<noteq> m) xs"

definition ins_after :: "'a \<Rightarrow> 'a \<Rightarrow> 'a list \<Rightarrow> 'a list" where
  "ins_after m x xs = takeWhile (\<lambda>y. y \<noteq> m) xs @ m # x # tl (dropWhile (\<lambda>y. y \<noteq> m) xs)"

lemma ins_at_split:
  assumes "m \<notin> set p"
  shows "ins_before m x (p @ m # q) = p @ x # m # q" "ins_after m x (p @ m # q) = p @ m # x # q"
proof -
  have "takeWhile (\<lambda>y. y \<noteq> m) (p @ m # q) = p" "dropWhile (\<lambda>y. y \<noteq> m) (p @ m # q) = m # q"
    using assms by (induction p) auto
  then show "ins_before m x (p @ m # q) = p @ x # m # q" "ins_after m x (p @ m # q) = p @ m # x # q"
    by (simp_all add: ins_before_def ins_after_def)
qed

lemma Move_at_mark:
  assumes i: "linv D s F" and e: "e \<in> set (F l)" and m: "m \<in> set (F l)" and ne: "e \<noteq> m"
  shows "\<exists>s2. MoveBefore l e m s = Ret s2 \<and> moved D l (ins_before m e (remove1 e (F l))) s F s2"
    "\<exists>s2. MoveAfter l e m s = Ret s2 \<and> moved D l (ins_after m e (remove1 e (F l))) s F s2"
proof -
  have ls: "e_list (nd s (El e)) = Some l" "e_list (nd s (El m)) = Some l" using linvD(5) [OF i] e m by blast+
  obtain p q where F: "F l = p @ m # q" using in_list_split [OF i m] by metis
  have d: "distinct (p @ m # q)" using linvD(1) [OF i, of l] unfolding F .
  let ?p = "remove1 e p" and ?q = "if e \<in> set p then q else remove1 e q"
  have r: "remove1 e (F l) = ?p @ m # ?q" using ne unfolding F by (simp add: remove1_append remove1_idem)
  have mp: "m \<notin> set ?p" using d by (auto dest: notin_set_remove1)
  have at: "e_prev (nd s (El m)) = Some (last (Root l # map El p))" by (rule ring_mid(2) [OF i F])
  show "\<exists>s2. MoveBefore l e m s = Ret s2 \<and> moved D l (ins_before m e (remove1 e (F l))) s F s2"
  proof (cases "\<exists>p0. p = p0 @ [e]")
    case True
    then obtain p0 where p0: "p = p0 @ [e]" by blast
    have "MoveBefore l e m s = Ret s" using ls ne at by (simp add: MoveBefore_def move_def p0)
    moreover have "F l = ins_before m e (remove1 e (F l))"
      unfolding r ins_at_split(1) [OF mp] unfolding F using d by (simp add: p0 remove1_append)
    ultimately show ?thesis using moved_refl [OF i, of l] by auto
  next
    case False
    then have "last (Root l # map El p) = last (Root l # map El ?p)"
      using d by (cases p rule: rev_cases) (auto simp: remove1_append last_map)
    from move_remove1 [OF i e r this] show ?thesis
      unfolding r ins_at_split(1) [OF mp] using ls ne at by (simp add: MoveBefore_def)
  qed
  show "\<exists>s2. MoveAfter l e m s = Ret s2 \<and> moved D l (ins_after m e (remove1 e (F l))) s F s2"
  proof -
    have "remove1 e (F l) = (?p @ [m]) @ ?q" using r by simp
    from move_remove1 [OF i e this, of "El m"] show ?thesis
      unfolding r ins_at_split(2) [OF mp] using ls ne by (simp add: MoveAfter_def)
  qed
qed

section \<open>Copying a list\<close>

definition ev :: "'v lstore \<Rightarrow> eid \<Rightarrow> 'v" where
  "ev s x = e_value (nd s (El x))"

definition bind_vals :: "eid \<Rightarrow> 'v list \<Rightarrow> (eid \<Rightarrow> 'v) \<Rightarrow> eid \<Rightarrow> 'v" where
  "bind_vals n vs V x = (if n \<le> x \<and> x < n + length vs then vs ! (x - n) else V x)"

lemma bind_vals_Nil [simp]: "bind_vals n [] V = V"
  by (auto simp: bind_vals_def fun_eq_iff)

lemma bind_vals_Cons: "bind_vals n (v # vs) V = bind_vals (Suc n) vs (V(n := v))"
proof
  fix x
  show "bind_vals n (v # vs) V x = bind_vals (Suc n) vs (V(n := v)) x"
    by (cases "x = n") (auto simp: bind_vals_def nth_Cons')
qed

lemma new_elem_ev: "new_elem x v s s2 \<longleftrightarrow> x = fresh s \<and> fresh s2 = Suc x \<and> ev s2 = (ev s)(x := v)"
  by (auto simp: new_elem_def ev_def fun_eq_iff)

lemma map_ev_new: "\<forall>y \<in> set xs. y < x \<Longrightarrow> ev s2 = (ev s)(x := v) \<Longrightarrow> map (ev s2) xs = map (ev s) xs"
  by auto

lemma elem_next_head: "linv D s F \<Longrightarrow> F l = p @ e # q \<Longrightarrow> elem_next (El e) s = head_ptr q"
  by (simp add: elem_next_def Next_first)

lemma elem_prev_head: "linv D s F \<Longrightarrow> F l = p @ e # q \<Longrightarrow> elem_prev (El e) s = head_ptr (rev p)"
  by (simp add: elem_prev_def Prev_last)

lemma head_ptr_Cons [simp]: "head_ptr (x # xs) = Some (El x)"
  by (simp add: head_ptr_def)

lemma push_back_loop_spec:
  assumes "linv D s F" "ready s l" "F other = pre @ rest @ suf"
  shows "\<exists>s2. push_back_loop l (int (length rest)) (head_ptr (rest @ suf)) s = Ret s2 \<and>
    linv D s2 (F(l := F l @ [fresh s..<fresh s + length rest])) \<and> fresh s2 = fresh s + length rest \<and>
    ev s2 = bind_vals (fresh s) (map (ev s) rest) (ev s)"
  using assms
proof (induction rest arbitrary: s F pre suf)
  case Nil
  then show ?case by (simp add: push_back_loop.simps)
next
  case (Cons x rest)
  let ?n = "fresh s"
  have at: "e_prev (nd s (Root l)) = Some (last (Root l # map El (F l)))" by (rule ring_ends(2) [OF Cons(2,3)])
  obtain s1 where s1: "insertValue l (ev s x) (last (Root l # map El (F l))) s = Ret (s1, ?n)"
    "linv D s1 (F(l := F l @ [?n]))" "ready s1 l" "new_elem ?n (ev s x) s s1"
    using insertValue_spec [OF Cons(2,3), of "F l" "[]" _ "ev s x"] by (auto simp: new_elem_def)
  let ?F = "F(l := F l @ [?n])"
  let ?suf = "if other = l then suf @ [?n] else suf"
  have F1: "?F other = pre @ x # rest @ ?suf" using Cons(4) by auto
  then have F2: "?F other = (pre @ [x]) @ rest @ ?suf" by simp
  have lt: "\<forall>y \<in> set rest. y < ?n" using linvD(7) [OF Cons(2), of _ other] Cons(4) by auto
  from Cons.IH [OF s1(2,3) F2] obtain s2 where
    s2: "push_back_loop l (int (length rest)) (head_ptr (rest @ ?suf)) s1 = Ret s2"
    "linv D s2 (?F(l := ?F l @ [fresh s1..<fresh s1 + length rest]))" "fresh s2 = fresh s1 + length rest"
    "ev s2 = bind_vals (fresh s1) (map (ev s1) rest) (ev s1)" by blast
  have n: "elem_next (El x) s1 = head_ptr (rest @ ?suf)" by (rule elem_next_head [OF s1(2) F1])
  have "push_back_loop l (int (length (x # rest))) (head_ptr ((x # rest) @ suf)) s = Ret s2"
    by (subst push_back_loop.simps) (use s1(1) s2(1) n at in \<open>simp add: ev_def\<close>)
  moreover have "F(l := F l @ [?n..<?n + length (x # rest)]) = ?F(l := ?F l @ [fresh s1..<fresh s1 + length rest])"
  proof -
    have "[?n..<?n + length (x # rest)] = ?n # [fresh s1..<fresh s1 + length rest]"
      using s1(4) by (simp add: new_elem_def upt_conv_Cons del: upt_Suc)
    then show ?thesis by simp
  qed
  moreover have "ev s2 = bind_vals ?n (map (ev s) (x # rest)) (ev s)"
  proof -
    have f: "fresh s1 = Suc ?n" and v: "ev s1 = (ev s)(?n := ev s x)" using s1(4) by (simp_all add: new_elem_ev)
    show ?thesis using s2(4) [unfolded map_ev_new [OF lt v], unfolded f v] by (simp add: bind_vals_Cons)
  qed
  moreover have "fresh s2 = ?n + length (x # rest)" using s2(3) s1(4) by (simp add: new_elem_def)
  ultimately show ?case using s2(2) by (intro exI [of _ s2]) (simp only: simp_thms)
qed

lemma push_front_loop_spec:
  assumes "linv D s F" "ready s l" "F other = pre @ rest @ suf"
  shows "\<exists>s2. push_front_loop l (int (length rest)) (head_ptr (rev (pre @ rest))) s = Ret s2 \<and>
    linv D s2 (F(l := rev [fresh s..<fresh s + length rest] @ F l)) \<and> fresh s2 = fresh s + length rest \<and>
    ev s2 = bind_vals (fresh s) (rev (map (ev s) rest)) (ev s)"
  using assms
proof (induction rest arbitrary: s F pre suf rule: rev_induct)
  case Nil
  then show ?case by (simp add: push_front_loop.simps)
next
  case (snoc x rest)
  let ?n = "fresh s"
  obtain s1 where s1: "insertValue l (ev s x) (Root l) s = Ret (s1, ?n)"
    "linv D s1 (F(l := ?n # F l))" "ready s1 l" "new_elem ?n (ev s x) s s1"
    using insertValue_spec [OF snoc(2,3), of "[]" "F l" "Root l" "ev s x"] by (auto simp: new_elem_def)
  let ?F = "F(l := ?n # F l)"
  let ?pre = "if other = l then ?n # pre else pre"
  have F1: "?F other = (?pre @ rest) @ x # suf" and F2: "?F other = ?pre @ rest @ (x # suf)" using snoc(4) by auto
  have lt: "\<forall>y \<in> set rest. y < ?n" using linvD(7) [OF snoc(2), of _ other] snoc(4) by auto
  from snoc.IH [OF s1(2,3) F2] obtain s2 where
    s2: "push_front_loop l (int (length rest)) (head_ptr (rev (?pre @ rest))) s1 = Ret s2"
    "linv D s2 (?F(l := rev [fresh s1..<fresh s1 + length rest] @ ?F l))" "fresh s2 = fresh s1 + length rest"
    "ev s2 = bind_vals (fresh s1) (rev (map (ev s1) rest)) (ev s1)" by blast
  have n: "elem_prev (El x) s1 = head_ptr (rev (?pre @ rest))" by (rule elem_prev_head [OF s1(2) F1])
  have "push_front_loop l (int (length (rest @ [x]))) (head_ptr (rev (pre @ rest @ [x]))) s = Ret s2"
    by (subst push_front_loop.simps) (use s1(1) s2(1) n in \<open>simp add: ev_def\<close>)
  moreover have "F(l := rev [?n..<?n + length (rest @ [x])] @ F l) = ?F(l := rev [fresh s1..<fresh s1 + length rest] @ ?F l)"
  proof -
    have "[?n..<?n + length (rest @ [x])] = ?n # [fresh s1..<fresh s1 + length rest]"
      using s1(4) by (simp add: new_elem_def upt_conv_Cons del: upt_Suc)
    then show ?thesis by simp
  qed
  moreover have "ev s2 = bind_vals ?n (rev (map (ev s) (rest @ [x]))) (ev s)"
  proof -
    have f: "fresh s1 = Suc ?n" and v: "ev s1 = (ev s)(?n := ev s x)" using s1(4) by (simp_all add: new_elem_ev)
    show ?thesis using s2(4) [unfolded map_ev_new [OF lt v], unfolded f v] by (simp add: bind_vals_Cons)
  qed
  moreover have "fresh s2 = ?n + length (rest @ [x])" using s2(3) s1(4) by (simp add: new_elem_def)
  ultimately show ?case using s2(2) by (intro exI [of _ s2]) (simp only: simp_thms)
qed

end
