(* ===== verification/Go_List_Props.thy ===== *)
theory Go_List_Props
  imports Go_List_Spec
begin

text \<open>
  The contract of \<open>container/list\<close>: an abstract machine whose state has a sequence of elements for
  each list and a value for each element, the operations of the package on it, and the simulation:
  the pointer operations return what the machine returns, and never dereference nil.

  \<open>Init\<close> clears a list but leaves the owner of its elements, as the last section
  shows, so the machine also keeps the elements that \<open>Init\<close> dropped, in \<open>lost\<close>, each with its list.  A
  legal program does not hand such an element to a method of that list, nor ask for its neighbours.
\<close>

section \<open>The abstract machine\<close>

record 'v lists =
  seqs :: "lid \<Rightarrow> eid list"
  vals_of :: "eid \<Rightarrow> 'v"
  next_id :: eid
  lost :: "(eid \<times> lid) set"

datatype 'v list_op =
    OInit lid | OLen lid | OFront lid | OBack lid | ONext eid | OPrev eid
  | OPushFront lid 'v | OPushBack lid 'v | OInsertBefore lid 'v eid | OInsertAfter lid 'v eid
  | ORemove lid eid | OMoveToFront lid eid | OMoveToBack lid eid
  | OMoveBefore lid eid eid | OMoveAfter lid eid eid | OPushBackList lid lid | OPushFrontList lid lid

datatype 'v list_res = RUnit | RInt int | RNode "node option" | RVal 'v

text \<open>A new element, and a new order for a list.\<close>

definition a_new :: "lid \<Rightarrow> 'v \<Rightarrow> (eid \<Rightarrow> eid list) \<Rightarrow> 'v lists \<Rightarrow> 'v lists \<times> 'v list_res" where
  "a_new l v g a =
     (let x = next_id a in
      (a\<lparr>seqs := (seqs a)(l := g x), vals_of := (vals_of a)(x := v), next_id := Suc x\<rparr>, RNode (Some (El x))))"

definition a_order :: "lid \<Rightarrow> eid list \<Rightarrow> 'v lists \<Rightarrow> 'v lists" where
  "a_order l xs a = a\<lparr>seqs := (seqs a)(l := xs)\<rparr>"

definition a_copy :: "lid \<Rightarrow> 'v list \<Rightarrow> (eid list \<Rightarrow> eid list) \<Rightarrow> 'v lists \<Rightarrow> 'v lists" where
  "a_copy l vs g a =
     (let n = next_id a in
      a\<lparr>seqs := (seqs a)(l := g [n..<n + length vs]), vals_of := bind_vals n vs (vals_of a), next_id := n + length vs\<rparr>)"

text \<open>A cleared list.\<close>

definition a_clear :: "lid \<Rightarrow> 'v lists \<Rightarrow> 'v lists" where
  "a_clear l a = a\<lparr>seqs := (seqs a)(l := []), lost := lost a \<union> set (seqs a l) \<times> {l}\<rparr>"

text \<open>The element after \<open>e\<close> and the element before \<open>e\<close> in a sequence.\<close>

definition succ_in :: "eid \<Rightarrow> eid list \<Rightarrow> node option" where
  "succ_in e xs = head_ptr (tl (dropWhile (\<lambda>y. y \<noteq> e) xs))"

definition pred_in :: "eid \<Rightarrow> eid list \<Rightarrow> node option" where
  "pred_in e xs = head_ptr (rev (takeWhile (\<lambda>y. y \<noteq> e) xs))"

definition of_list :: "(lid \<Rightarrow> eid list) \<Rightarrow> eid \<Rightarrow> lid \<Rightarrow> bool" where
  "of_list F e l \<longleftrightarrow> e \<in> set (F l)"

fun a_exec :: "'v list_op \<Rightarrow> 'v lists \<Rightarrow> 'v lists \<times> 'v list_res \<Rightarrow> bool" where
  "a_exec (OInit l) a r \<longleftrightarrow> r = (a_clear l a, RUnit)"
| "a_exec (OLen l) a r \<longleftrightarrow> r = (a, RInt (int (length (seqs a l))))"
| "a_exec (OFront l) a r \<longleftrightarrow> r = (a, RNode (head_ptr (seqs a l)))"
| "a_exec (OBack l) a r \<longleftrightarrow> r = (a, RNode (head_ptr (rev (seqs a l))))"
| "a_exec (ONext e) a r \<longleftrightarrow>
     (if \<exists>l. of_list (seqs a) e l then \<exists>l. of_list (seqs a) e l \<and> r = (a, RNode (succ_in e (seqs a l)))
      else r = (a, RNode None))"
| "a_exec (OPrev e) a r \<longleftrightarrow>
     (if \<exists>l. of_list (seqs a) e l then \<exists>l. of_list (seqs a) e l \<and> r = (a, RNode (pred_in e (seqs a l)))
      else r = (a, RNode None))"
| "a_exec (OPushFront l v) a r \<longleftrightarrow> r = a_new l v (\<lambda>x. x # seqs a l) a"
| "a_exec (OPushBack l v) a r \<longleftrightarrow> r = a_new l v (\<lambda>x. seqs a l @ [x]) a"
| "a_exec (OInsertBefore l v m) a r \<longleftrightarrow>
     r = (if of_list (seqs a) m l then a_new l v (\<lambda>x. ins_before m x (seqs a l)) a else (a, RNode None))"
| "a_exec (OInsertAfter l v m) a r \<longleftrightarrow>
     r = (if of_list (seqs a) m l then a_new l v (\<lambda>x. ins_after m x (seqs a l)) a else (a, RNode None))"
| "a_exec (ORemove l e) a r \<longleftrightarrow> r = (a_order l (remove1 e (seqs a l)) a, RVal (vals_of a e))"
| "a_exec (OMoveToFront l e) a r \<longleftrightarrow>
     r = (if of_list (seqs a) e l then a_order l (e # remove1 e (seqs a l)) a else a, RUnit)"
| "a_exec (OMoveToBack l e) a r \<longleftrightarrow>
     r = (if of_list (seqs a) e l then a_order l (remove1 e (seqs a l) @ [e]) a else a, RUnit)"
| "a_exec (OMoveBefore l e m) a r \<longleftrightarrow>
     r = (if of_list (seqs a) e l \<and> of_list (seqs a) m l \<and> e \<noteq> m
          then a_order l (ins_before m e (remove1 e (seqs a l))) a else a, RUnit)"
| "a_exec (OMoveAfter l e m) a r \<longleftrightarrow>
     r = (if of_list (seqs a) e l \<and> of_list (seqs a) m l \<and> e \<noteq> m
          then a_order l (ins_after m e (remove1 e (seqs a l))) a else a, RUnit)"
| "a_exec (OPushBackList l k) a r \<longleftrightarrow>
     r = (a_copy l (map (vals_of a) (seqs a k)) (\<lambda>ns. seqs a l @ ns) a, RUnit)"
| "a_exec (OPushFrontList l k) a r \<longleftrightarrow>
     r = (a_copy l (rev (map (vals_of a) (seqs a k))) (\<lambda>ns. rev ns @ seqs a l) a, RUnit)"

text \<open>
  The legal uses: an element that \<open>Init\<close> dropped from a list is not given to a method of that list,
  nor asked for its neighbours.  The methods of the other lists may still have it.
\<close>

fun op_legal :: "'v list_op \<Rightarrow> (eid \<times> lid) set \<Rightarrow> bool" where
  "op_legal (ONext e) D \<longleftrightarrow> e \<notin> fst ` D"
| "op_legal (OPrev e) D \<longleftrightarrow> e \<notin> fst ` D"
| "op_legal (OInsertBefore l v m) D \<longleftrightarrow> (m, l) \<notin> D"
| "op_legal (OInsertAfter l v m) D \<longleftrightarrow> (m, l) \<notin> D"
| "op_legal (ORemove l e) D \<longleftrightarrow> (e, l) \<notin> D"
| "op_legal (OMoveToFront l e) D \<longleftrightarrow> (e, l) \<notin> D"
| "op_legal (OMoveToBack l e) D \<longleftrightarrow> (e, l) \<notin> D"
| "op_legal (OMoveBefore l e m) D \<longleftrightarrow> (e, l) \<notin> D \<and> (m, l) \<notin> D"
| "op_legal (OMoveAfter l e m) D \<longleftrightarrow> (e, l) \<notin> D \<and> (m, l) \<notin> D"
| "op_legal _ D \<longleftrightarrow> True"

section \<open>The operations of the package\<close>

fun exec_op :: "'v list_op \<Rightarrow> 'v lstore \<Rightarrow> ('v lstore \<times> 'v list_res) outcome" where
  "exec_op (OInit l) s = Ret (list_Init l s, RUnit)"
| "exec_op (OLen l) s = Ret (s, RInt (Len l s))"
| "exec_op (OFront l) s = Ret (s, RNode (Front l s))"
| "exec_op (OBack l) s = Ret (s, RNode (Back l s))"
| "exec_op (ONext e) s = Ret (s, RNode (Next e s))"
| "exec_op (OPrev e) s = Ret (s, RNode (Prev e s))"
| "exec_op (OPushFront l v) s = obind (PushFront l v s) (\<lambda>(s, e). Ret (s, RNode (Some (El e))))"
| "exec_op (OPushBack l v) s = obind (PushBack l v s) (\<lambda>(s, e). Ret (s, RNode (Some (El e))))"
| "exec_op (OInsertBefore l v m) s = obind (InsertBefore l v m s) (\<lambda>(s, e). Ret (s, RNode (map_option El e)))"
| "exec_op (OInsertAfter l v m) s = obind (InsertAfter l v m s) (\<lambda>(s, e). Ret (s, RNode (map_option El e)))"
| "exec_op (ORemove l e) s = obind (Remove l e s) (\<lambda>(s, v). Ret (s, RVal v))"
| "exec_op (OMoveToFront l e) s = obind (MoveToFront l e s) (\<lambda>s. Ret (s, RUnit))"
| "exec_op (OMoveToBack l e) s = obind (MoveToBack l e s) (\<lambda>s. Ret (s, RUnit))"
| "exec_op (OMoveBefore l e m) s = obind (MoveBefore l e m s) (\<lambda>s. Ret (s, RUnit))"
| "exec_op (OMoveAfter l e m) s = obind (MoveAfter l e m s) (\<lambda>s. Ret (s, RUnit))"
| "exec_op (OPushBackList l k) s = obind (PushBackList l k s) (\<lambda>s. Ret (s, RUnit))"
| "exec_op (OPushFrontList l k) s = obind (PushFrontList l k s) (\<lambda>s. Ret (s, RUnit))"

definition list_refines :: "'v lstore \<Rightarrow> 'v lists \<Rightarrow> bool" where
  "list_refines s a \<longleftrightarrow> linv (lost a) s (seqs a) \<and> vals_of a = ev s \<and> next_id a = fresh s"

section \<open>The simulation\<close>

lemma list_refinesD:
  assumes "list_refines s a"
  shows "linv (lost a) s (seqs a)" "vals_of a = ev s" "next_id a = fresh s"
  using assms by (simp_all add: list_refines_def)

lemma new_refines:
  assumes r: "list_refines s a" and l: "linv (lost a) s2 ((seqs a)(l := g x))" and n: "new_elem x v s s2"
  shows "\<exists>a2. a_new l v g a = (a2, RNode (Some (El x))) \<and> list_refines s2 a2"
  using l n by (auto simp: a_new_def Let_def list_refines_def list_refinesD(2,3) [OF r] new_elem_ev)

lemma moved_refines: "list_refines s a \<Longrightarrow> moved (lost a) l xs s (seqs a) s2 \<Longrightarrow> list_refines s2 (a_order l xs a)"
  by (auto simp: list_refines_def moved_def a_order_def ev_def fun_eq_iff)

lemma clear_refines: "list_refines s a \<Longrightarrow> list_refines (list_Init l s) (a_clear l a)"
  using list_Init_spec [of "lost a" s "seqs a" l]
  by (simp add: list_refines_def a_clear_def) (simp add: list_Init_def ev_def fun_eq_iff)

lemma not_in_list: "linv D s F \<Longrightarrow> (e, l) \<notin> D \<Longrightarrow> \<not> of_list F e l \<longleftrightarrow> e_list (nd s (El e)) \<noteq> Some l"
  using linvD(5) [of D s F e l] by (simp add: of_list_def)

lemma Next_Prev_spec:
  assumes i: "linv D s F" and nl: "e \<notin> fst ` D"
  shows "if \<exists>l. of_list F e l then \<exists>l. of_list F e l \<and> Next e s = succ_in e (F l) else Next e s = None"
    "if \<exists>l. of_list F e l then \<exists>l. of_list F e l \<and> Prev e s = pred_in e (F l) else Prev e s = None"
proof -
  have *: "Next e s = succ_in e (F l) \<and> Prev e s = pred_in e (F l)" if "of_list F e l" for l
  proof -
    have e: "e \<in> set (F l)" using that by (simp add: of_list_def)
    obtain p q where F: "F l = p @ e # q" using in_list_split [OF i e] by metis
    have "takeWhile (\<lambda>y. y \<noteq> e) (p @ e # q) = p" "dropWhile (\<lambda>y. y \<noteq> e) (p @ e # q) = e # q"
      using linvD(1) [OF i, of l] unfolding F by (auto simp: takeWhile_append dropWhile_append)
    then show ?thesis
      using Next_first [OF i F] Prev_last [OF i F] by (simp add: succ_in_def pred_in_def F)
  qed
  have "e_list (nd s (El e)) = None" if "\<nexists>l. of_list F e l"
  proof (cases "e_list (nd s (El e))")
    case (Some l)
    have "(e, l) \<notin> D" using nl by force
    then show ?thesis using that not_in_list [OF i, of e l] Some by blast
  qed
  then show "if \<exists>l. of_list F e l then \<exists>l. of_list F e l \<and> Next e s = succ_in e (F l) else Next e s = None"
    "if \<exists>l. of_list F e l then \<exists>l. of_list F e l \<and> Prev e s = pred_in e (F l) else Prev e s = None"
    using * by (auto simp: Next_def Prev_def)
qed

lemma Insert_refines:
  assumes r: "list_refines s a" and nl: "(m, l) \<notin> lost a"
  shows "\<exists>s2 x a2. obind (InsertBefore l v m s) (\<lambda>(s, e). Ret (s, RNode (map_option El e))) = Ret (s2, x) \<and>
      (a2, x) = (if of_list (seqs a) m l then a_new l v (\<lambda>x. ins_before m x (seqs a l)) a else (a, RNode None)) \<and>
      list_refines s2 a2"
    "\<exists>s2 x a2. obind (InsertAfter l v m s) (\<lambda>(s, e). Ret (s, RNode (map_option El e))) = Ret (s2, x) \<and>
      (a2, x) = (if of_list (seqs a) m l then a_new l v (\<lambda>x. ins_after m x (seqs a l)) a else (a, RNode None)) \<and>
      list_refines s2 a2"
proof -
  note i = list_refinesD(1) [OF r]
  have "(\<exists>s2 x a2. obind (InsertBefore l v m s) (\<lambda>(s, e). Ret (s, RNode (map_option El e))) = Ret (s2, x) \<and>
      (a2, x) = (if of_list (seqs a) m l then a_new l v (\<lambda>x. ins_before m x (seqs a l)) a else (a, RNode None)) \<and>
      list_refines s2 a2) \<and>
    (\<exists>s2 x a2. obind (InsertAfter l v m s) (\<lambda>(s, e). Ret (s, RNode (map_option El e))) = Ret (s2, x) \<and>
      (a2, x) = (if of_list (seqs a) m l then a_new l v (\<lambda>x. ins_after m x (seqs a l)) a else (a, RNode None)) \<and>
      list_refines s2 a2)" (is "?B \<and> ?A")
  proof (cases "of_list (seqs a) m l")
    case False
    then show ?thesis using r not_in_list [OF i nl] by (simp add: InsertBefore_def InsertAfter_def)
  next
    case True
    then have m: "m \<in> set (seqs a l)" by (simp add: of_list_def)
    obtain p q where F: "seqs a l = p @ m # q" using in_list_split [OF i m] by metis
    have mp: "m \<notin> set p" using linvD(1) [OF i, of l] unfolding F by simp
    obtain s2 x where b: "InsertBefore l v m s = Ret (s2, Some x)" "linv (lost a) s2 ((seqs a)(l := p @ x # m # q))" "new_elem x v s s2"
      using InsertBefore_spec [OF i F] by metis
    have ?B using new_refines [OF r, of s2 l "\<lambda>x. ins_before m x (seqs a l)" x v] b True
      by (auto simp: F ins_at_split [OF mp])
    moreover obtain s3 y where c: "InsertAfter l v m s = Ret (s3, Some y)" "linv (lost a) s3 ((seqs a)(l := p @ m # y # q))"
      "new_elem y v s s3"
      using InsertAfter_spec [OF i F] by metis
    have ?A using new_refines [OF r, of s3 l "\<lambda>x. ins_after m x (seqs a l)" y v] c True
      by (auto simp: F ins_at_split [OF mp])
    ultimately show ?thesis by blast
  qed
  then show ?B ?A by simp_all
qed

lemma Copy_refines:
  assumes r: "list_refines s a"
  shows "\<exists>s2. PushBackList l k s = Ret s2 \<and>
      list_refines s2 (a_copy l (map (vals_of a) (seqs a k)) (\<lambda>ns. seqs a l @ ns) a)"
    "\<exists>s2. PushFrontList l k s = Ret s2 \<and>
      list_refines s2 (a_copy l (rev (map (vals_of a) (seqs a k))) (\<lambda>ns. rev ns @ seqs a l) a)"
proof -
  note i = list_refinesD(1) [OF r]
  let ?s = "lazyInit l s"
  note i1 = lazyInit_spec(1,2) [OF i, of l]
  have f: "fresh ?s = next_id a" "ev ?s = vals_of a"
    using list_refinesD [OF r] by (simp_all add: lazyInit_spec [OF i] ev_def fun_eq_iff)
  have n: "Len k ?s = int (length (seqs a k))" using linvD(2) [OF i1(1)] by (simp add: Len_def)
  show "\<exists>s2. PushBackList l k s = Ret s2 \<and>
      list_refines s2 (a_copy l (map (vals_of a) (seqs a k)) (\<lambda>ns. seqs a l @ ns) a)"
    using push_back_loop_spec [OF i1, of k "[]" "seqs a k" "[]"]
    by (auto simp: PushBackList_def Let_def n f Front_first [OF i1(1)] list_refines_def a_copy_def)
  show "\<exists>s2. PushFrontList l k s = Ret s2 \<and>
      list_refines s2 (a_copy l (rev (map (vals_of a) (seqs a k))) (\<lambda>ns. rev ns @ seqs a l) a)"
    using push_front_loop_spec [OF i1, of k "[]" "seqs a k" "[]"]
    by (auto simp: PushFrontList_def Let_def n f Back_last [OF i1(1)] list_refines_def a_copy_def)
qed

lemma Remove_refines:
  assumes r: "list_refines s a" and nl: "(e, l) \<notin> lost a"
  shows "\<exists>s2. Remove l e s = Ret (s2, vals_of a e) \<and> list_refines s2 (a_order l (remove1 e (seqs a l)) a)"
  using Remove_spec [OF list_refinesD(1) [OF r] nl] list_refinesD(2,3) [OF r]
  by (auto simp: list_refines_def a_order_def ev_def fun_eq_iff)

lemma Move_refines:
  assumes r: "list_refines s a"
  shows "(e, l) \<notin> lost a \<Longrightarrow> \<exists>s2. MoveToFront l e s = Ret s2 \<and> list_refines s2 (if of_list (seqs a) e l then a_order l (e # remove1 e (seqs a l)) a else a)"
    "(e, l) \<notin> lost a \<Longrightarrow> \<exists>s2. MoveToBack l e s = Ret s2 \<and> list_refines s2 (if of_list (seqs a) e l then a_order l (remove1 e (seqs a l) @ [e]) a else a)"
    "(e, l) \<notin> lost a \<Longrightarrow> (m, l) \<notin> lost a \<Longrightarrow> \<exists>s2. MoveBefore l e m s = Ret s2 \<and> list_refines s2 (if of_list (seqs a) e l \<and> of_list (seqs a) m l \<and> e \<noteq> m
        then a_order l (ins_before m e (remove1 e (seqs a l))) a else a)"
    "(e, l) \<notin> lost a \<Longrightarrow> (m, l) \<notin> lost a \<Longrightarrow> \<exists>s2. MoveAfter l e m s = Ret s2 \<and> list_refines s2 (if of_list (seqs a) e l \<and> of_list (seqs a) m l \<and> e \<noteq> m
        then a_order l (ins_after m e (remove1 e (seqs a l))) a else a)"
proof -
  note i = list_refinesD(1) [OF r] and mv = moved_refines [OF r]
  note ni = not_in_list [OF i]
  show "\<exists>s2. MoveToFront l e s = Ret s2 \<and> list_refines s2 (if of_list (seqs a) e l then a_order l (e # remove1 e (seqs a l)) a else a)" if "(e, l) \<notin> lost a"
    using ni [OF that] r MoveToFront_spec [OF i, of e l] mv by (cases "of_list (seqs a) e l") (auto simp: of_list_def MoveToFront_def)
  show "\<exists>s2. MoveToBack l e s = Ret s2 \<and> list_refines s2 (if of_list (seqs a) e l then a_order l (remove1 e (seqs a l) @ [e]) a else a)" if "(e, l) \<notin> lost a"
    using ni [OF that] r MoveToBack_spec [OF i, of e l] mv by (cases "of_list (seqs a) e l") (auto simp: of_list_def MoveToBack_def)
  show "\<exists>s2. MoveBefore l e m s = Ret s2 \<and> list_refines s2 (if of_list (seqs a) e l \<and> of_list (seqs a) m l \<and> e \<noteq> m
        then a_order l (ins_before m e (remove1 e (seqs a l))) a else a)" if "(e, l) \<notin> lost a" "(m, l) \<notin> lost a"
    using ni [OF that(1)] ni [OF that(2)] r Move_at_mark(1) [OF i, of e l m] mv
    by (cases "of_list (seqs a) e l \<and> of_list (seqs a) m l \<and> e \<noteq> m") (auto simp: of_list_def MoveBefore_def)
  show "\<exists>s2. MoveAfter l e m s = Ret s2 \<and> list_refines s2 (if of_list (seqs a) e l \<and> of_list (seqs a) m l \<and> e \<noteq> m
        then a_order l (ins_after m e (remove1 e (seqs a l))) a else a)" if "(e, l) \<notin> lost a" "(m, l) \<notin> lost a"
    using ni [OF that(1)] ni [OF that(2)] r Move_at_mark(2) [OF i, of e l m] mv
    by (cases "of_list (seqs a) e l \<and> of_list (seqs a) m l \<and> e \<noteq> m") (auto simp: of_list_def MoveAfter_def)
qed

lemma unit_op:
  "\<exists>s2. m = Ret s2 \<and> list_refines s2 a2 \<Longrightarrow>
    \<exists>s2 x a3. obind m (\<lambda>s. Ret (s, RUnit)) = Ret (s2, x) \<and> (a3, x) = (a2, RUnit) \<and> list_refines s2 a3"
  by auto

lemma exec_op_refines:
  assumes r: "list_refines s a" and ok: "op_legal op (lost a)"
  shows "\<exists>s2 x a2. exec_op op s = Ret (s2, x) \<and> a_exec op a (a2, x) \<and> list_refines s2 a2"
proof -
  note i = list_refinesD(1) [OF r]
  show ?thesis
  proof (cases op)
    case (OInit l)
    then show ?thesis using clear_refines [OF r] by simp
  next
    case (OLen l)
    then show ?thesis using r linvD(2) [OF i] by (simp add: Len_def)
  next
    case (OFront l)
    then show ?thesis using r by (simp add: Front_first [OF i])
  next
    case (OBack l)
    then show ?thesis using r by (simp add: Back_last [OF i])
  next
    case (ONext e)
    then show ?thesis using r ok Next_Prev_spec(1) [OF i, of e] by (auto split: if_splits)
  next
    case (OPrev e)
    then show ?thesis using r ok Next_Prev_spec(2) [OF i, of e] by (auto split: if_splits)
  next
    case (OPushFront l v)
    then show ?thesis using PushFront_spec [OF i, of l v] new_refines [OF r, of _ l "\<lambda>x. x # seqs a l"] by force
  next
    case (OPushBack l v)
    then show ?thesis using PushBack_spec [OF i, of l v] new_refines [OF r, of _ l "\<lambda>x. seqs a l @ [x]"] by force
  next
    case (OInsertBefore l v m)
    have "(m, l) \<notin> lost a" using ok OInsertBefore by simp
    then show ?thesis unfolding OInsertBefore exec_op.simps a_exec.simps by (rule Insert_refines(1) [OF r])
  next
    case (OInsertAfter l v m)
    have "(m, l) \<notin> lost a" using ok OInsertAfter by simp
    then show ?thesis unfolding OInsertAfter exec_op.simps a_exec.simps by (rule Insert_refines(2) [OF r])
  next
    case (ORemove l e)
    then show ?thesis using ok Remove_refines [OF r, of e l] by auto
  next
    case (OMoveToFront l e)
    show ?thesis unfolding OMoveToFront exec_op.simps a_exec.simps 
      by (rule unit_op [OF Move_refines(1) [OF r]]) (use ok OMoveToFront in simp_all)
  next
    case (OMoveToBack l e)
    show ?thesis unfolding OMoveToBack exec_op.simps a_exec.simps 
      by (rule unit_op [OF Move_refines(2) [OF r]]) (use ok OMoveToBack in simp_all)
  next
    case (OMoveBefore l e m)
    show ?thesis unfolding OMoveBefore exec_op.simps a_exec.simps 
      by (rule unit_op [OF Move_refines(3) [OF r]]) (use ok OMoveBefore in simp_all)
  next
    case (OMoveAfter l e m)
    show ?thesis unfolding OMoveAfter exec_op.simps a_exec.simps 
      by (rule unit_op [OF Move_refines(4) [OF r]]) (use ok OMoveAfter in simp_all)
  next
    case (OPushBackList l k)
    show ?thesis unfolding OPushBackList exec_op.simps a_exec.simps by (rule unit_op [OF Copy_refines(1) [OF r]])
  next
    case (OPushFrontList l k)
    show ?thesis unfolding OPushFrontList exec_op.simps a_exec.simps by (rule unit_op [OF Copy_refines(2) [OF r]])
  qed
qed

section \<open>Programs\<close>

text \<open>The zero \<open>List\<close> is an empty list: no node has a pointer and every length is 0.\<close>

definition zero_store :: "'v \<Rightarrow> 'v lstore" where
  "zero_store v = \<lparr>nd = \<lambda>_. \<lparr>e_next = None, e_prev = None, e_list = None, e_value = v\<rparr>, len = \<lambda>_. 0, fresh = 0\<rparr>"

definition zero_lists :: "'v \<Rightarrow> 'v lists" where
  "zero_lists v = \<lparr>seqs = \<lambda>_. [], vals_of = \<lambda>_. v, next_id = 0, lost = {}\<rparr>"

fun exec_ops :: "'v list_op list \<Rightarrow> 'v lstore \<Rightarrow> ('v lstore \<times> 'v list_res list) outcome" where
  "exec_ops [] s = Ret (s, [])"
| "exec_ops (op # ops) s =
     obind (exec_op op s) (\<lambda>(s, x). obind (exec_ops ops s) (\<lambda>(s, xs). Ret (s, x # xs)))"

inductive a_run :: "'v list_op list \<Rightarrow> 'v lists \<Rightarrow> 'v list_res list \<Rightarrow> 'v lists \<Rightarrow> bool" where
  a_run_Nil: "a_run [] a [] a"
| a_run_Cons: "a_exec op a (b, x) \<Longrightarrow> a_run ops b xs c \<Longrightarrow> a_run (op # ops) a (x # xs) c"

inductive_simps a_run_simps [simp]: "a_run [] a xs b" "a_run (op # ops) a xs b"

lemma zero_refines: "list_refines (zero_store v) (zero_lists v)"
  by (simp add: list_refines_def linv_def lrep_def zero_store_def zero_lists_def ev_def fun_eq_iff)

text \<open>A legal program: every operation is legal in the state the ones before it lead to.\<close>

primrec list_legal :: "'v list_op list \<Rightarrow> 'v lists \<Rightarrow> bool" where
  "list_legal [] a \<longleftrightarrow> True"
| "list_legal (op # ops) a \<longleftrightarrow> op_legal op (lost a) \<and> (\<forall>b x. a_exec op a (b, x) \<longrightarrow> list_legal ops b)"

lemma op_legal_none: "op_legal op {}"
  by (cases op) simp_all

lemma a_exec_lost: "a_exec op a (b, x) \<Longrightarrow> (\<And>l. op \<noteq> OInit l) \<Longrightarrow> lost b = lost a"
  by (cases op) (auto simp: a_new_def a_order_def a_copy_def Let_def split: if_splits)

text \<open>A program that does not clear a list is legal.\<close>

lemma Init_free_legal: "lost a = {} \<Longrightarrow> (\<And>l. OInit l \<notin> set ops) \<Longrightarrow> list_legal ops a"
proof (induction ops arbitrary: a)
  case (Cons op ops)
  have "list_legal ops b" if "a_exec op a (b, x)" for b x
  proof (rule Cons.IH)
    show "lost b = {}" using a_exec_lost [OF that] Cons.prems by (metis list.set_intros(1))
    show "OInit l \<notin> set ops" for l using Cons.prems(2) [of l] by simp
  qed
  then show ?case using Cons.prems(1) by (simp add: op_legal_none)
qed simp

lemma exec_ops_refines:
  "list_refines s a \<Longrightarrow> list_legal ops a \<Longrightarrow> \<exists>s2 xs a2. exec_ops ops s = Ret (s2, xs) \<and> a_run ops a xs a2 \<and> list_refines s2 a2"
proof (induction ops arbitrary: s a)
  case (Cons op ops)
  obtain s1 x a1 where 1: "exec_op op s = Ret (s1, x)" "a_exec op a (a1, x)" "list_refines s1 a1"
    using exec_op_refines [OF Cons.prems(1), of op] Cons.prems(2) by auto
  have "list_legal ops a1" using 1(2) Cons.prems(2) by auto
  from Cons.IH [OF 1(3) this] obtain s2 xs a2 where "exec_ops ops s1 = Ret (s2, xs)" "a_run ops a1 xs a2" "list_refines s2 a2"
    by blast
  with 1(1,2) show ?case by auto
qed auto

text \<open>C30. Every legal program over the lists, \<open>Init\<close> included, started on zero lists, returns: no operation
  dereferences nil.  Its results are those of the abstract machine on sequences, and the pointers
  end up as rings that represent the machine's sequences, with the right lengths and owners.  Legal
  means that an element that \<open>Init\<close> dropped from a list is not given back to a method of that list
  nor asked for its neighbours, since \<open>Init\<close> leaves its owner as it was; every program without
  \<open>Init\<close> is legal (\<open>Init_free_legal\<close>).\<close>

theorem list_programs_refine:
  assumes "list_legal ops (zero_lists v)"
  shows "\<exists>s xs a. exec_ops ops (zero_store v) = Ret (s, xs) \<and> a_run ops (zero_lists v) xs a \<and> list_refines s a"
  by (rule exec_ops_refines [OF zero_refines assms])

text \<open>A list is cleared and used again, and the element it lost goes to no list.\<close>

theorem list_programs_refine_witness:
  "\<exists>s. exec_ops [OPushBack 0 (7::int), OInit 0, OPushBack 0 8, ORemove 1 0, OInsertAfter 0 9 1, OMoveToFront 0 2, OLen 0, OFront 0]
      (zero_store 0) =
    Ret (s, [RNode (Some (El 0)), RUnit, RNode (Some (El 1)), RVal 7, RNode (Some (El 2)), RUnit, RInt 2, RNode (Some (El 2))])"
proof -
  let ?ops = "[OPushBack 0 (7::int), OInit 0, OPushBack 0 8, ORemove 1 0, OInsertAfter 0 9 1, OMoveToFront 0 2, OLen 0, OFront 0]"
  note d = a_new_def a_clear_def a_order_def of_list_def ins_after_def head_ptr_def zero_lists_def Let_def
  have "list_legal ?ops (zero_lists 0)" by (simp add: d)
  from list_programs_refine [OF this] obtain s xs a where
    r: "exec_ops ?ops (zero_store 0) = Ret (s, xs)" "a_run ?ops (zero_lists 0) xs a" by blast
  from r(2) have "xs = [RNode (Some (El 0)), RUnit, RNode (Some (El 1)), RVal 7, RNode (Some (El 2)), RUnit, RInt 2, RNode (Some (El 2))]"
    by (auto simp: d)
  with r(1) show ?thesis by blast
qed

section \<open>Iteration\<close>

text \<open>The loop \<open>for e := l.Front(); e != nil; e = e.Next()\<close> of the package's documentation.\<close>

partial_function (option) traverse :: "(node \<Rightarrow> 'v lstore \<Rightarrow> node option) \<Rightarrow> node option \<Rightarrow> 'v lstore \<Rightarrow> 'v list option" where
  "traverse step p s =
     (case p of None \<Rightarrow> Some []
      | Some n \<Rightarrow> Option.bind (traverse step (step n s) s) (\<lambda>vs. Some (e_value (nd s n) # vs)))"

lemma traverse_next:
  "linv D s F \<Longrightarrow> F l = p @ q \<Longrightarrow> traverse elem_next (head_ptr q) s = Some (map (ev s) q)"
proof (induction q arbitrary: p)
  case Nil
  then show ?case by (simp add: traverse.simps head_ptr_def)
next
  case (Cons x q)
  have "F l = (p @ [x]) @ q" using Cons(3) by simp
  from Cons.IH [OF Cons(2) this] elem_next_head [OF Cons(2,3)] show ?case
    by (simp add: traverse.simps [of _ "Some (El x)"] ev_def)
qed

lemma traverse_prev:
  "linv D s F \<Longrightarrow> F l = p @ q \<Longrightarrow> traverse elem_prev (head_ptr (rev p)) s = Some (rev (map (ev s) p))"
proof (induction p arbitrary: q rule: rev_induct)
  case Nil
  then show ?case by (simp add: traverse.simps head_ptr_def)
next
  case (snoc x p)
  have F: "F l = p @ x # q" using snoc(3) by simp
  from snoc.IH [OF snoc(2) F] elem_prev_head [OF snoc(2) F] show ?case
    by (simp add: traverse.simps [of _ "Some (El x)"] ev_def)
qed

text \<open>C31. The documented loop over a list ends, and visits the values of the list in order; the loop
  backwards from \<open>Back\<close> by \<open>Prev\<close> ends too and visits them in reverse.
\<close>

theorem list_traversal:
  assumes "linv D s F"
  shows "traverse elem_next (Front l s) s = Some (map (ev s) (F l)) \<and>
    traverse elem_prev (Back l s) s = Some (rev (map (ev s) (F l)))"
  using traverse_next [OF assms, of l "[]" "F l"] traverse_prev [OF assms, of l "F l" "[]"]
  by (simp add: Front_first [OF assms] Back_last [OF assms])

theorem list_traversal_witness:
  "\<exists>s. PushBack 0 (7::int) (zero_store 0) = Ret (s, 0) \<and> traverse elem_next (Front 0 s) s = Some [7]"
proof -
  have "linv {} (zero_store (0::int)) (\<lambda>_. [])" using zero_refines [of "0::int"] by (simp add: list_refines_def zero_lists_def)
  from PushBack_spec [OF this, of 0 7] obtain s x where
    s: "PushBack 0 (7::int) (zero_store 0) = Ret (s, x)" "linv {} s ((\<lambda>_. [])(0 := [x]))" "new_elem x 7 (zero_store 0) s" by auto
  have "x = 0" "ev s x = 7" using s(3) by (simp_all add: new_elem_def ev_def zero_store_def)
  with s(1) list_traversal [OF s(2), of 0] show ?thesis by auto
qed

section \<open>Copies\<close>

lemma map_bind_vals: "map (bind_vals n vs V) [n..<n + length vs] = vs"
  by (rule nth_equalityI) (auto simp: bind_vals_def)

lemma map_bind_vals_old: "\<forall>x \<in> set xs. x < n \<Longrightarrow> map (bind_vals n vs V) xs = map V xs"
  by (auto simp: bind_vals_def)

text \<open>\<open>PushBackList\<close> and \<open>PushFrontList\<close> add a copy of the other list's values, in order, at the
  back and at the front, even when the other list is the list itself (the loop stops after the
  length at the start), and change no other list.
\<close>

theorem list_copies:
  assumes "list_refines s a"
  shows "\<exists>s2 a2 s3 a3. PushBackList l k s = Ret s2 \<and> list_refines s2 a2 \<and>
    PushFrontList l k s = Ret s3 \<and> list_refines s3 a3 \<and>
    map (ev s2) (seqs a2 l) = map (ev s) (seqs a l) @ map (ev s) (seqs a k) \<and>
    map (ev s3) (seqs a3 l) = map (ev s) (seqs a k) @ map (ev s) (seqs a l) \<and>
    (\<forall>j. j \<noteq> l \<longrightarrow> map (ev s2) (seqs a2 j) = map (ev s) (seqs a j) \<and> map (ev s3) (seqs a3 j) = map (ev s) (seqs a j))"
proof -
  let ?n = "next_id a" and ?V = "vals_of a"
  let ?vs = "map ?V (seqs a k)"
  note i = list_refinesD [OF assms]
  have old: "map (bind_vals ?n us ?V) (seqs a j) = map ?V (seqs a j)" for us j
    by (rule map_bind_vals_old) (use linvD(7) [OF i(1)] i(3) in auto)
  have new: "map (bind_vals ?n us ?V) [?n..<?n + length us] = us" for us by (rule map_bind_vals)
  obtain s2 s3 where s2: "PushBackList l k s = Ret s2" "list_refines s2 (a_copy l ?vs (\<lambda>ns. seqs a l @ ns) a)"
    and s3: "PushFrontList l k s = Ret s3" "list_refines s3 (a_copy l (rev ?vs) (\<lambda>ns. rev ns @ seqs a l) a)"
    using Copy_refines [OF assms, of l k] by blast
  have e: "ev s2 = bind_vals ?n ?vs ?V" "ev s3 = bind_vals ?n (rev ?vs) ?V" "ev s = ?V"
    using list_refinesD(2) [OF s2(2)] list_refinesD(2) [OF s3(2)] i(2) by (simp_all add: a_copy_def Let_def)
  have "map (ev s3) (rev [?n..<?n + length (rev ?vs)]) = ?vs" using new [of "rev ?vs"] unfolding e by (simp add: rev_map [symmetric])
  moreover have "map (ev s2) [?n..<?n + length ?vs] = ?vs" using new [of ?vs] unfolding e .
  ultimately show ?thesis
    using s2 s3 old unfolding e(3)
    by (intro exI [of _ s2] exI [of _ "a_copy l ?vs (\<lambda>ns. seqs a l @ ns) a"] exI [of _ s3]
      exI [of _ "a_copy l (rev ?vs) (\<lambda>ns. rev ns @ seqs a l) a"])
      (simp add: a_copy_def Let_def e(1,2))
qed

theorem list_copies_witness:
  "\<exists>s s2 xs. PushBack 0 (7::int) (zero_store 0) = Ret (s, 0) \<and> PushBackList 0 0 s = Ret s2 \<and> map (ev s2) xs = [7, 7]"
proof -
  obtain s x a where s: "PushBack 0 (7::int) (zero_store 0) = Ret (s, x)" "linv {} s ((\<lambda>_. [])(0 := [x]))"
      "new_elem x 7 (zero_store 0) s"
    using PushBack_spec [of "{}" "zero_store (0::int)" "\<lambda>_. []" 0 7] zero_refines [of "0::int"]
    by (auto simp: list_refines_def zero_lists_def)
  let ?a = "\<lparr>seqs = (\<lambda>_. [])(0 := [x]), vals_of = ev s, next_id = fresh s, lost = {}\<rparr>"
  have x: "x = 0" "ev s x = 7" using s(3) by (simp_all add: new_elem_def ev_def zero_store_def)
  have "list_refines s ?a" using s(2) by (simp add: list_refines_def)
  note c = list_copies [OF this, of 0 0]
  have "\<exists>s2 ys. PushBackList 0 0 s = Ret s2 \<and> map (ev s2) ys = map (ev s) (seqs ?a 0) @ map (ev s) (seqs ?a 0)"
    using c by (elim exE conjE) (rule exI, rule exI, rule conjI)
  moreover have "map (ev s) (seqs ?a 0) @ map (ev s) (seqs ?a 0) = [7, 7]" using x by simp
  ultimately obtain s2 ys where "PushBackList 0 0 s = Ret s2" "map (ev s2) ys = [7, 7]" by (elim exE conjE) (simp only:)
  with s(1) show ?thesis unfolding x(1) by (intro exI conjI)
qed

section \<open>Clearing a list that is not empty\<close>

lemma set_list_Init:
  "e_next (nd (list_Init l s) n) = (if n = Root l then Some (Root l) else e_next (nd s n))"
  "e_prev (nd (list_Init l s) n) = (if n = Root l then Some (Root l) else e_prev (nd s n))"
  "e_list (nd (list_Init l s) n) = e_list (nd s n)" "len (list_Init l s) l = 0"
  by (simp_all add: list_Init_def)

text \<open>C32. \<open>Init\<close>, which "initializes or clears" a list, does not reset the elements: an element of
  the cleared list still names the list as its owner, so \<open>Remove\<close> accepts it and leaves the length
  at -1.
\<close>

theorem Init_keeps_owners:
  assumes "linv D s F" "F l = p @ e # q"
  shows "\<exists>s2 v. Len l (list_Init l s) = 0 \<and> Remove l e (list_Init l s) = Ret (s2, v) \<and> Len l s2 = -1"
proof -
  let ?s = "list_Init l s"
  note m = ring_mid [where F = F, OF assms]
  have o: "e_list (nd ?s (El e)) = Some l" using linvD(5) [OF assms(1), of e l] assms(2) by (simp add: set_list_Init)
  obtain a b where ab: "e_prev (nd ?s (El e)) = Some a" "e_next (nd ?s (El e)) = Some b" using m by (simp only: set_list_Init node.distinct if_False)
  let ?s1 = "set_next a (Some b) ?s"
  obtain b' where "e_next (nd ?s1 (El e)) = Some b'" using ab by (cases "a = El e") auto
  then have "unlink (El e) ?s = Ret (set_prev b' (e_prev (nd ?s1 (El e))) ?s1)"
    using ab by (simp add: unlink_def Let_def)
  then have "Remove l e ?s = Ret (set_len l (-1) (upd (El e) (\<lambda>x. x\<lparr>e_next := None, e_prev := None, e_list := None\<rparr>)
      (set_prev b' (e_prev (nd ?s1 (El e))) ?s1)), ev (set_prev b' (e_prev (nd ?s1 (El e))) ?s1) e)"
    using o by (simp add: Remove_def list_remove_def Let_def set_list_Init(4) ev_def)
  then show ?thesis by (simp add: Len_def set_list_Init(4))
qed

theorem Init_keeps_owners_witness:
  "\<exists>s s2 v. PushBack 0 (7::int) (zero_store 0) = Ret (s, 0) \<and> Remove 0 0 (list_Init 0 s) = Ret (s2, v) \<and> Len 0 s2 = -1"
proof -
  obtain s x where s: "PushBack 0 (7::int) (zero_store 0) = Ret (s, x)" "linv {} s ((\<lambda>_. [])(0 := [x]))"
      "new_elem x 7 (zero_store 0) s"
    using PushBack_spec [of "{}" "zero_store (0::int)" "\<lambda>_. []" 0 7] zero_refines [of "0::int"]
    by (auto simp: list_refines_def zero_lists_def)
  have "x = 0" using s(3) by (simp add: new_elem_def zero_store_def)
  with s(1) Init_keeps_owners [OF s(2), of 0 "[]" x "[]"] show ?thesis by auto
qed

end
