(* ===== verification/Runq.thy ===== *)
theory Runq
  imports Prelude
begin

text \<open>
  The run queues of the scheduler (\<open>runtime/proc.go\<close>): the lists of goroutines linked through
  \<open>schedlink\<close> (\<open>gQueue\<close>, \<open>gList\<close>), the global run queue, the ring of 256 goroutines of each P with
  its \<open>runnext\<close> slot, stealing, and the list of idle Ps.

  The functions are modelled as they run without interference, on 32-bit ring indices that wrap
  around.  A compare-and-swap is a test of the value it expects; a retry that could only succeed
  after a step of another thread is \<open>Spin\<close>.  The interleavings of the ring's atomic operations are
  the subject of \<open>Runq_Conc\<close>.  \<open>randomizeScheduler\<close> is false, as it is without the race detector.
\<close>

section \<open>Lists of goroutines\<close>

type_synonym gid = nat
type_synonym pid = nat
type_synonym glinks = "gid \<Rightarrow> gid option"

record gqueue =
  q_head :: "gid option"
  q_tail :: "gid option"

definition gq_nil :: gqueue where
  "gq_nil = \<lparr>q_head = None, q_tail = None\<rparr>"

definition gq_empty :: "gqueue \<Rightarrow> bool" where
  "gq_empty q \<longleftrightarrow> q_head q = None"

definition gq_push :: "gid \<Rightarrow> gqueue \<Rightarrow> glinks \<Rightarrow> gqueue \<times> glinks" where
  "gq_push gp q sl =
     (let sl = sl(gp := q_head q); q = q\<lparr>q_head := Some gp\<rparr>
      in (if q_tail q = None then q\<lparr>q_tail := Some gp\<rparr> else q, sl))"

definition gq_pushBack :: "gid \<Rightarrow> gqueue \<Rightarrow> glinks \<Rightarrow> gqueue \<times> glinks" where
  "gq_pushBack gp q sl =
     (let sl = sl(gp := None);
          (q, sl) = (case q_tail q of Some t \<Rightarrow> (q, sl(t := Some gp)) | None \<Rightarrow> (q\<lparr>q_head := Some gp\<rparr>, sl))
      in (q\<lparr>q_tail := Some gp\<rparr>, sl))"

definition gq_pushBackAll :: "gqueue \<Rightarrow> gqueue \<Rightarrow> glinks \<Rightarrow> gqueue \<times> glinks" where
  "gq_pushBackAll q q2 sl =
     (case q_tail q2 of None \<Rightarrow> (q, sl)
      | Some t2 \<Rightarrow>
         let sl = sl(t2 := None);
             (q, sl) = (case q_tail q of Some t \<Rightarrow> (q, sl(t := q_head q2)) | None \<Rightarrow> (q\<lparr>q_head := q_head q2\<rparr>, sl))
         in (q\<lparr>q_tail := q_tail q2\<rparr>, sl))"

definition gq_pop :: "gqueue \<Rightarrow> glinks \<Rightarrow> gid option \<times> gqueue" where
  "gq_pop q sl =
     (case q_head q of None \<Rightarrow> (None, q)
      | Some gp \<Rightarrow>
         let q = q\<lparr>q_head := sl gp\<rparr>; q = (if q_head q = None then q\<lparr>q_tail := None\<rparr> else q)
         in (Some gp, q))"

text \<open>A \<open>gList\<close> has a head only.\<close>

type_synonym glist = "gid option"

definition gq_popList :: "gqueue \<Rightarrow> glist \<times> gqueue" where
  "gq_popList q = (q_head q, gq_nil)"

definition gl_empty :: "glist \<Rightarrow> bool" where
  "gl_empty l \<longleftrightarrow> l = None"

definition gl_push :: "gid \<Rightarrow> glist \<Rightarrow> glinks \<Rightarrow> glist \<times> glinks" where
  "gl_push gp l sl = (Some gp, sl(gp := l))"

definition gl_pushAll :: "glist \<Rightarrow> gqueue \<Rightarrow> glinks \<Rightarrow> (glist \<times> glinks) outcome" where
  "gl_pushAll l q sl =
     (if gq_empty q then Ret (l, sl)
      else case q_tail q of None \<Rightarrow> Panic ''nil pointer dereference''
           | Some t \<Rightarrow> Ret (q_head q, sl(t := l)))"

definition gl_pop :: "glist \<Rightarrow> glinks \<Rightarrow> gid option \<times> glist" where
  "gl_pop l sl = (case l of None \<Rightarrow> (None, None) | Some gp \<Rightarrow> (Some gp, sl gp))"

section \<open>The state of the scheduler\<close>

record rq =
  rq_head :: u32
  rq_tail :: u32
  rq_buf :: "gid option list"
  rq_next :: "gid option"
  rq_link :: "pid option"

record sched =
  schedlink :: glinks
  glob :: gqueue
  runqsize :: int
  gomaxprocs :: int
  ps :: "pid \<Rightarrow> rq"
  pidle :: "pid option"
  npidle :: u32

definition upd_rq :: "pid \<Rightarrow> (rq \<Rightarrow> rq) \<Rightarrow> sched \<Rightarrow> sched" where
  "upd_rq p f s = s\<lparr>ps := (ps s)(p := f (ps s p))\<rparr>"

text \<open>The index \<open>t % uint32(len(_p_.runq))\<close>.\<close>

definition slot :: "u32 \<Rightarrow> nat" where
  "slot t = unat (t mod 256)"

definition put_slot :: "u32 \<Rightarrow> gid option \<Rightarrow> rq \<Rightarrow> rq" where
  "put_slot t g x = x\<lparr>rq_buf := (rq_buf x)[slot t := g]\<rparr>"

definition get_slot :: "u32 \<Rightarrow> rq \<Rightarrow> gid option" where
  "get_slot t x = rq_buf x ! slot t"

definition cas_head :: "pid \<Rightarrow> u32 \<Rightarrow> u32 \<Rightarrow> sched \<Rightarrow> (bool \<times> sched)" where
  "cas_head p old new s =
     (if rq_head (ps s p) = old then (True, upd_rq p (\<lambda>x. x\<lparr>rq_head := new\<rparr>) s) else (False, s))"

definition cas_next :: "pid \<Rightarrow> gid option \<Rightarrow> gid option \<Rightarrow> sched \<Rightarrow> (bool \<times> sched)" where
  "cas_next p old new s =
     (if rq_next (ps s p) = old then (True, upd_rq p (\<lambda>x. x\<lparr>rq_next := new\<rparr>) s) else (False, s))"

section \<open>The global run queue\<close>

definition globrunqput :: "gid \<Rightarrow> sched \<Rightarrow> sched" where
  "globrunqput gp s =
     (let (q, sl) = gq_pushBack gp (glob s) (schedlink s)
      in s\<lparr>schedlink := sl, glob := q, runqsize := runqsize s + 1\<rparr>)"

definition globrunqputhead :: "gid \<Rightarrow> sched \<Rightarrow> sched" where
  "globrunqputhead gp s =
     (let (q, sl) = gq_push gp (glob s) (schedlink s)
      in s\<lparr>schedlink := sl, glob := q, runqsize := runqsize s + 1\<rparr>)"

definition globrunqputbatch :: "gqueue \<Rightarrow> int \<Rightarrow> sched \<Rightarrow> gqueue \<times> sched" where
  "globrunqputbatch batch n s =
     (let (q, sl) = gq_pushBackAll (glob s) batch (schedlink s)
      in (gq_nil, s\<lparr>schedlink := sl, glob := q, runqsize := runqsize s + n\<rparr>))"

section \<open>The ring of a P\<close>

definition runqempty :: "pid \<Rightarrow> sched \<Rightarrow> bool" where
  "runqempty p s =
     (let head = rq_head (ps s p); tail = rq_tail (ps s p); runnext = rq_next (ps s p)
      in head = tail \<and> runnext = None)"

text \<open>The loop that links the goroutines of a batch.\<close>

fun link_batch :: "gid option list \<Rightarrow> glinks \<Rightarrow> glinks outcome" where
  "link_batch (b # c # bs) sl =
     (case b of None \<Rightarrow> Panic ''nil pointer dereference'' | Some g \<Rightarrow> link_batch (c # bs) (sl(g := c)))"
| "link_batch bs sl = Ret sl"

definition runqputslow :: "pid \<Rightarrow> gid option \<Rightarrow> u32 \<Rightarrow> u32 \<Rightarrow> sched \<Rightarrow> (bool \<times> sched) outcome" where
  "runqputslow p gp h t s =
     (let n = (t - h) div 2 in
      if n \<noteq> 128 then Throw ''runqputslow: queue is not full''
      else
        let batch = map (\<lambda>i. get_slot (h + of_nat i) (ps s p)) [0..<unat n];
            (ok, s) = cas_head p h (h + n) s
        in if \<not> ok then Ret (False, s)
           else
             let batch = batch @ [gp] in
             obind (link_batch batch (schedlink s)) (\<lambda>sl.
             let q = \<lparr>q_head = hd batch, q_tail = last batch\<rparr>;
                 (q, s) = globrunqputbatch q (uint (n + 1)) (s\<lparr>schedlink := sl\<rparr>)
             in Ret (True, s)))"

text \<open>\<open>runqput\<close> from the label \<open>retry\<close> on.\<close>

definition runqput_tail :: "pid \<Rightarrow> gid option \<Rightarrow> sched \<Rightarrow> sched outcome" where
  "runqput_tail p gp s =
     (let h = rq_head (ps s p); t = rq_tail (ps s p) in
      if t - h < 256 then
        let s = upd_rq p (put_slot t gp) s in Ret (upd_rq p (\<lambda>x. x\<lparr>rq_tail := t + 1\<rparr>) s)
      else obind (runqputslow p gp h t s) (\<lambda>(ok, s). if ok then Ret s else Spin))"

definition runqput :: "pid \<Rightarrow> gid option \<Rightarrow> bool \<Rightarrow> sched \<Rightarrow> sched outcome" where
  "runqput p gp next s =
     (if next then
        let oldnext = rq_next (ps s p); (ok, s) = cas_next p oldnext gp s in
        if \<not> ok then Spin
        else if oldnext = None then Ret s
        else runqput_tail p oldnext s
      else runqput_tail p gp s)"

function putbatch_loop :: "u32 \<Rightarrow> u32 \<Rightarrow> u32 \<Rightarrow> gqueue \<Rightarrow> pid \<Rightarrow> sched \<Rightarrow> u32 \<times> u32 \<times> gqueue \<times> sched" where
  "putbatch_loop h t n q p s =
     (if \<not> gq_empty q \<and> t - h < 256 then
        let (gp, q) = gq_pop q (schedlink s)
        in putbatch_loop h (t + 1) (n + 1) q p (upd_rq p (put_slot t gp) s)
      else (t, n, q, s))"
  by pat_completeness auto
termination
proof (relation "measure (\<lambda>(h, t, n, q, p, s). unat (256 - (t - h)))", simp, clarify)
  fix h t n :: u32 and q x y :: gqueue and p :: pid and s :: sched and g
  assume "t - h < 256"
  then have "unat (256 - (t - h)) = 256 - unat (t - h)" "unat (t - h) < 256"
    by (simp_all add: unat_sub word_less_nat_alt word_le_nat_alt)
  moreover have "unat (t - h + 1) = unat (t - h) + 1"
    using \<open>t - h < 256\<close> by (simp add: unat_word_ariths word_less_nat_alt)
  then have "unat (256 - (t - h + 1)) = 256 - (unat (t - h) + 1)"
    using calculation(2) by (subst unat_sub) (simp_all add: word_le_nat_alt)
  moreover have "t + 1 - h = t - h + 1" by simp
  ultimately show "((h, t + 1, n + 1, y, p, upd_rq p (put_slot t g) s), h, t, n, q, p, s)
    \<in> measure (\<lambda>(h, t, n, q, p, s). unat (256 - (t - h)))"
    by (simp only: in_measure prod.case)
qed

declare putbatch_loop.simps [simp del]

definition runqputbatch :: "pid \<Rightarrow> gqueue \<Rightarrow> int \<Rightarrow> sched \<Rightarrow> gqueue \<times> sched" where
  "runqputbatch p q qsize s =
     (let h = rq_head (ps s p);
          (t, n, q, s) = putbatch_loop h (rq_tail (ps s p)) 0 q p s;
          qsize = qsize - uint n;
          s = upd_rq p (\<lambda>x. x\<lparr>rq_tail := t\<rparr>) s
      in if \<not> gq_empty q then globrunqputbatch q qsize s else (q, s))"

definition runqget :: "pid \<Rightarrow> sched \<Rightarrow> (gid option \<times> bool \<times> sched) outcome" where
  "runqget p s =
     (let next = rq_next (ps s p) in
      if next \<noteq> None then
        let (ok, s) = cas_next p next None s in if ok then Ret (next, True, s) else Spin
      else
        let h = rq_head (ps s p); t = rq_tail (ps s p) in
        if t = h then Ret (None, False, s)
        else
          let gp = get_slot h (ps s p); (ok, s) = cas_head p h (h + 1) s
          in if ok then Ret (gp, False, s) else Spin)"

text \<open>
  The batch of \<open>runqgrab\<close> is the ring of the thief \<open>me\<close>.  The sleep before stealing \<open>runnext\<close> of a
  running P has no effect on the state.
\<close>

definition runqgrab :: "pid \<Rightarrow> pid \<Rightarrow> u32 \<Rightarrow> bool \<Rightarrow> sched \<Rightarrow> (u32 \<times> sched) outcome" where
  "runqgrab p me batchHead stealRunNextG s =
     (let h = rq_head (ps s p); t = rq_tail (ps s p); n = t - h; n = n - n div 2 in
      if n = 0 then
        if stealRunNextG \<and> rq_next (ps s p) \<noteq> None then
          let next = rq_next (ps s p); (ok, s) = cas_next p next None s
          in if \<not> ok then Spin else Ret (1, upd_rq me (put_slot batchHead next) s)
        else Ret (0, s)
      else if n > 128 then Spin
      else
        let s = fold (\<lambda>i s. upd_rq me (put_slot (batchHead + of_nat i) (get_slot (h + of_nat i) (ps s p))) s) [0..<unat n] s;
            (ok, s) = cas_head p h (h + n) s
        in if ok then Ret (n, s) else Spin)"

definition runqsteal :: "pid \<Rightarrow> pid \<Rightarrow> bool \<Rightarrow> sched \<Rightarrow> (gid option \<times> sched) outcome" where
  "runqsteal p p2 stealRunNextG s =
     (let t = rq_tail (ps s p) in
      obind (runqgrab p2 p t stealRunNextG s) (\<lambda>(n, s).
      if n = 0 then Ret (None, s)
      else
        let n = n - 1; gp = get_slot (t + n) (ps s p) in
        if n = 0 then Ret (gp, s)
        else
          let h = rq_head (ps s p) in
          if t - h + n \<ge> 256 then Throw ''runqsteal: runq overflow''
          else Ret (gp, upd_rq p (\<lambda>x. x\<lparr>rq_tail := t + n\<rparr>) s)))"

section \<open>Taking a batch from the global queue\<close>

definition pop_glob :: "sched \<Rightarrow> gid option \<times> sched" where
  "pop_glob s = (let (gp, q) = gq_pop (glob s) (schedlink s) in (gp, s\<lparr>glob := q\<rparr>))"

function globget_loop :: "pid \<Rightarrow> int \<Rightarrow> sched \<Rightarrow> sched outcome" where
  "globget_loop p n s =
     (if n > 0 then
        let (gp1, s) = pop_glob s in obind (runqput p gp1 False s) (\<lambda>s. globget_loop p (n - 1) s)
      else Ret s)"
  by pat_completeness auto
termination by (relation "measure (\<lambda>(p, n, s). nat n)") auto

declare globget_loop.simps [simp del]

definition globget_count :: "int \<Rightarrow> sched \<Rightarrow> int" where
  "globget_count lim s =
     (let n = runqsize s div gomaxprocs s + 1;
          n = (if n > runqsize s then runqsize s else n);
          n = (if lim > 0 \<and> n > lim then lim else n)
      in if n > 128 then 128 else n)"

definition globrunqget :: "pid \<Rightarrow> int \<Rightarrow> sched \<Rightarrow> (gid option \<times> sched) outcome" where
  "globrunqget p lim s =
     (if runqsize s = 0 then Ret (None, s)
      else
        let n = globget_count lim s;
            s = s\<lparr>runqsize := runqsize s - n\<rparr>;
            (gp, s) = pop_glob s
        in obind (globget_loop p (n - 1) s) (\<lambda>s. Ret (gp, s)))"

section \<open>Idle Ps\<close>

definition pidleput :: "pid \<Rightarrow> sched \<Rightarrow> sched outcome" where
  "pidleput p s =
     (if \<not> runqempty p s then Throw ''pidleput: P has non-empty run queue''
      else
        let s = upd_rq p (\<lambda>x. x\<lparr>rq_link := pidle s\<rparr>) s
        in Ret (s\<lparr>pidle := Some p, npidle := npidle s + 1\<rparr>))"

definition pidleget :: "sched \<Rightarrow> pid option \<times> sched" where
  "pidleget s =
     (case pidle s of None \<Rightarrow> (None, s)
      | Some p \<Rightarrow> (Some p, s\<lparr>pidle := rq_link (ps s p), npidle := npidle s - 1\<rparr>))"

end
