(* ===== verification/Runq_Spec.thy ===== *)
theory Runq_Spec
  imports Runq
begin

text \<open>
  What the run queues stand for: the linked queues and the rings are sequences of goroutines.
  Each operation is shown to be an operation on the sequences, wrap-around of the ring indices
  included.
\<close>

section \<open>Linked sequences\<close>

definition head_of :: "gid list \<Rightarrow> gid option \<Rightarrow> gid option" where
  "head_of gs e = (case gs of [] \<Rightarrow> e | g # _ \<Rightarrow> Some g)"

definition last_of :: "gid list \<Rightarrow> gid option" where
  "last_of gs = (if gs = [] then None else Some (last gs))"

lemma head_of_simps [simp]: "head_of [] e = e" "head_of (g # gs) e = Some g"
  by (simp_all add: head_of_def)

lemma head_of_append: "head_of (gs @ hs) e = head_of gs (head_of hs e)"
  by (cases gs) simp_all

lemma head_of_None [simp]: "head_of gs None = None \<longleftrightarrow> gs = []" "None = head_of gs None \<longleftrightarrow> gs = []"
  by (cases gs; simp)+

lemma last_of_simps [simp]: "last_of [] = None" "last_of (gs @ [g]) = Some g" "last_of gs = None \<longleftrightarrow> gs = []"
  by (simp_all add: last_of_def)

lemma last_of_append: "hs \<noteq> [] \<Longrightarrow> last_of (gs @ hs) = last_of hs"
  by (simp add: last_of_def)

text \<open>The goroutines are linked in order and the last one is linked to \<open>e\<close>.\<close>

primrec chained :: "glinks \<Rightarrow> gid list \<Rightarrow> gid option \<Rightarrow> bool" where
  "chained sl [] e \<longleftrightarrow> True"
| "chained sl (g # gs) e \<longleftrightarrow> sl g = head_of gs e \<and> chained sl gs e"

lemma chained_append: "chained sl (gs @ hs) e \<longleftrightarrow> chained sl gs (head_of hs e) \<and> chained sl hs e"
  by (induction gs) (auto simp: head_of_append)

lemma chained_cong: "chained sl gs e \<Longrightarrow> (\<And>g. g \<in> set gs \<Longrightarrow> sl' g = sl g) \<Longrightarrow> chained sl' gs e"
  by (induction gs) auto

lemma chained_upd [simp]: "g \<notin> set gs \<Longrightarrow> chained (sl(g := x)) gs e \<longleftrightarrow> chained sl gs e"
  by (induction gs) auto

text \<open>Linking the last goroutine anew.\<close>

lemma chained_relink:
  assumes "chained sl gs e" "distinct gs" "gs \<noteq> []"
  shows "chained (sl(last gs := e')) gs e'"
  using assms
proof (induction gs)
  case (Cons g gs)
  show ?case
  proof (cases gs)
    case (Cons h hs)
    have p: "chained sl gs e" "distinct gs" "gs \<noteq> []" "last gs \<noteq> g" "sl g = head_of gs e'"
      using Cons.prems last_in_set [of gs] unfolding Cons by auto
    from Cons.IH [OF p(1-3)] p(3-5) show ?thesis by simp
  qed simp
qed simp

definition gq_rep :: "glinks \<Rightarrow> gqueue \<Rightarrow> gid list \<Rightarrow> bool" where
  "gq_rep sl q gs \<longleftrightarrow> distinct gs \<and> chained sl gs None \<and> q_head q = head_of gs None \<and> q_tail q = last_of gs"

definition gl_rep :: "glinks \<Rightarrow> glist \<Rightarrow> gid list \<Rightarrow> bool" where
  "gl_rep sl l gs \<longleftrightarrow> distinct gs \<and> chained sl gs None \<and> l = head_of gs None"

text \<open>A batch: the link of its last goroutine does not matter yet.\<close>

definition gq_batch :: "glinks \<Rightarrow> gqueue \<Rightarrow> gid list \<Rightarrow> bool" where
  "gq_batch sl q gs \<longleftrightarrow> distinct gs \<and> (\<exists>e. chained sl gs e) \<and> q_head q = head_of gs None \<and> q_tail q = last_of gs"

lemma gq_rep_batch: "gq_rep sl q gs \<Longrightarrow> gq_batch sl q gs"
  by (auto simp: gq_rep_def gq_batch_def)

lemma gq_rep_nil [simp]: "gq_rep sl gq_nil gs \<longleftrightarrow> gs = []" "gq_batch sl gq_nil gs \<longleftrightarrow> gs = []"
  by (auto simp: gq_rep_def gq_batch_def gq_nil_def)

lemma gq_empty_rep: "gq_rep sl q gs \<Longrightarrow> gq_empty q \<longleftrightarrow> gs = []" "gq_batch sl q gs \<Longrightarrow> gq_empty q \<longleftrightarrow> gs = []"
  by (simp_all add: gq_rep_def gq_batch_def gq_empty_def)

lemma gq_rep_cong: "gq_rep sl q gs \<Longrightarrow> (\<And>g. g \<in> set gs \<Longrightarrow> sl' g = sl g) \<Longrightarrow> gq_rep sl' q gs"
  unfolding gq_rep_def using chained_cong by blast

lemma gq_push_spec:
  assumes "gq_rep sl q gs" "g \<notin> set gs"
  shows "\<exists>q'. gq_push g q sl = (q', sl(g := head_of gs None)) \<and> gq_rep (sl(g := head_of gs None)) q' (g # gs)"
  using assms by (auto simp: gq_push_def gq_rep_def Let_def last_of_def)

lemma gq_pushBackAll_spec:
  assumes r: "gq_rep sl q gs" and b: "gq_batch sl q2 hs" and d: "set gs \<inter> set hs = {}"
  shows "\<exists>q' sl'. gq_pushBackAll q q2 sl = (q', sl') \<and> gq_rep sl' q' (gs @ hs) \<and>
    (\<forall>x. x \<notin> set gs \<union> set hs \<longrightarrow> sl' x = sl x)"
proof (cases "hs = []")
  case True
  then show ?thesis using r b by (simp add: gq_pushBackAll_def gq_batch_def)
next
  case False
  then have t2: "q_tail q2 = Some (last hs)" and lh: "last hs \<in> set hs" using b by (simp_all add: gq_batch_def last_of_def)
  obtain e where "chained sl hs e" using b by (auto simp: gq_batch_def)
  from chained_relink [OF this _ False, of None] have l2: "chained (sl(last hs := None)) hs None" using b by (simp add: gq_batch_def)
  have l1: "chained (sl(last hs := None)) gs None" using r d lh by (subst chained_upd) (auto simp: gq_rep_def)
  show ?thesis
  proof (cases "gs = []")
    case True
    then have "q_tail q = None" using r by (simp add: gq_rep_def)
    then have "gq_pushBackAll q q2 sl = (q\<lparr>q_head := q_head q2, q_tail := q_tail q2\<rparr>, sl(last hs := None))"
      using t2 by (simp add: gq_pushBackAll_def Let_def)
    then show ?thesis using True l2 b lh by (simp add: gq_rep_def gq_batch_def)
  next
    case gs: False
    let ?sl = "(sl(last hs := None))(last gs := head_of hs None)"
    have t: "q_tail q = Some (last gs)" and lg: "last gs \<in> set gs" using r gs by (simp_all add: gq_rep_def last_of_def)
    have "chained ?sl gs (head_of hs None)" using chained_relink [OF l1 _ gs] r by (simp add: gq_rep_def)
    moreover have "chained ?sl hs None" using l2 d lg by (subst chained_upd) auto
    ultimately have "chained ?sl (gs @ hs) None" by (simp add: chained_append)
    moreover have "q_head q2 = head_of hs None" "head_of gs (head_of hs None) = head_of gs None"
      using b gs by (simp_all add: gq_batch_def head_of_def split: list.split)
    moreover from this have "gq_pushBackAll q q2 sl = (q\<lparr>q_tail := q_tail q2\<rparr>, ?sl)"
      using t t2 by (simp add: gq_pushBackAll_def Let_def)
    ultimately show ?thesis
      using r b d False lh lg by (simp add: gq_rep_def gq_batch_def head_of_append last_of_append)
  qed
qed

lemma gq_pushBack_spec:
  assumes r: "gq_rep sl q gs" and g: "g \<notin> set gs"
  shows "\<exists>q' sl'. gq_pushBack g q sl = (q', sl') \<and> gq_rep sl' q' (gs @ [g]) \<and> (\<forall>x. x \<notin> insert g (set gs) \<longrightarrow> sl' x = sl x)"
proof -
  have "gq_pushBack g q sl = gq_pushBackAll q \<lparr>q_head = Some g, q_tail = Some g\<rparr> sl"
    by (simp add: gq_pushBack_def gq_pushBackAll_def Let_def split: option.split)
  moreover have "gq_batch sl \<lparr>q_head = Some g, q_tail = Some g\<rparr> [g]" by (simp add: gq_batch_def last_of_def)
  ultimately show ?thesis using gq_pushBackAll_spec [OF r, of _ "[g]"] g by auto
qed

lemma gq_pop_spec:
  assumes "gq_rep sl q gs"
  shows "case gs of [] \<Rightarrow> gq_pop q sl = (None, q)
    | g # gs' \<Rightarrow> \<exists>q'. gq_pop q sl = (Some g, q') \<and> gq_rep sl q' gs'"
  using assms by (cases gs) (auto simp: gq_pop_def gq_rep_def last_of_def Let_def)

lemma gq_popList_spec: "gq_rep sl q gs \<Longrightarrow> gq_popList q = (l, q') \<Longrightarrow> gl_rep sl l gs \<and> gq_rep sl q' []"
  by (auto simp: gq_popList_def gq_rep_def gl_rep_def gq_nil_def)

lemma gl_push_spec: "gl_rep sl l gs \<Longrightarrow> g \<notin> set gs \<Longrightarrow> gl_push g l sl = (l', sl') \<Longrightarrow> gl_rep sl' l' (g # gs)"
  by (auto simp: gl_push_def gl_rep_def)

lemma gl_pop_spec:
  "gl_rep sl l gs \<Longrightarrow> gl_pop l sl = (case gs of [] \<Rightarrow> (None, None) | g # gs' \<Rightarrow> (Some g, head_of gs' None))"
  "gl_rep sl l (g # gs) \<Longrightarrow> gl_rep sl (head_of gs None) gs"
  by (auto simp: gl_pop_def gl_rep_def split: list.splits)

lemma gl_pushAll_spec:
  assumes l: "gl_rep sl l gs" and q: "gq_rep sl q hs" and d: "set gs \<inter> set hs = {}"
  shows "\<exists>l' sl'. gl_pushAll l q sl = Ret (l', sl') \<and> gl_rep sl' l' (hs @ gs)"
proof (cases "hs = []")
  case True
  then show ?thesis using l q by (simp add: gl_pushAll_def gq_empty_rep)
next
  case False
  let ?sl = "sl(last hs := l)"
  have e: "l = head_of gs None" "last hs \<in> set hs" using l False by (simp_all add: gl_rep_def)
  have "chained ?sl hs (head_of gs None)" using chained_relink [of sl hs None] q False unfolding e(1) by (simp add: gq_rep_def)
  moreover have "chained ?sl gs None" using l d e(2) by (subst chained_upd) (auto simp: gl_rep_def)
  ultimately have "chained ?sl (hs @ gs) None" by (simp add: chained_append)
  moreover have "q_head q = head_of (hs @ gs) None" "q_tail q = Some (last hs)" "distinct hs"
    using q False by (simp_all add: gq_rep_def head_of_def last_of_def split: list.split)
  moreover have "distinct gs" using l by (simp add: gl_rep_def)
  ultimately have "gl_rep ?sl (q_head q) (hs @ gs)" "q_tail q = Some (last hs)" using d by (auto simp: gl_rep_def)
  then show ?thesis using False gq_empty_rep(1) [OF q] by (simp add: gl_pushAll_def)
qed

section \<open>Rings\<close>

lemma slot_add: "slot (h + of_nat i) = (unat h + i) mod 256"
proof -
  have "unat (h + of_nat i) = (unat h + i) mod 2 ^ 32"
    by (simp add: unat_word_ariths unat_of_nat mod_simps)
  then show ?thesis by (simp add: slot_def unat_mod mod_mod_cancel)
qed

lemma slot_less [simp]: "slot h < 256"
  using slot_add [of h 0] by simp

lemma slot_inj:
  assumes "i < k + 256" "k \<le> i"
  shows "slot (h + of_nat i) = slot (h + of_nat k) \<longleftrightarrow> i = k"
proof -
  have "(unat h + i) mod 256 = (unat h + k) mod 256 \<longleftrightarrow> 256 dvd (unat h + i) - (unat h + k)"
    using assms by (intro mod_eq_dvd_iff_nat) simp
  also have "\<dots> \<longleftrightarrow> i = k" using assms by (auto dest: dvd_imp_le)
  finally show ?thesis by (simp add: slot_add)
qed

definition rq_rep :: "rq \<Rightarrow> gid list \<Rightarrow> bool" where
  "rq_rep x gs \<longleftrightarrow>
     length (rq_buf x) = 256 \<and> length gs \<le> 256 \<and> rq_tail x = rq_head x + of_nat (length gs) \<and>
     (\<forall>i<length gs. get_slot (rq_head x + of_nat i) x = Some (gs ! i))"

lemma rq_repD:
  assumes "rq_rep x gs"
  shows "length (rq_buf x) = 256" "length gs \<le> 256" "unat (rq_tail x - rq_head x) = length gs"
    "rq_tail x = rq_head x + of_nat (length gs)" "i < length gs \<Longrightarrow> get_slot (rq_head x + of_nat i) x = Some (gs ! i)"
  using assms by (auto simp: rq_rep_def unat_of_nat)

lemma get_put_slot [simp]:
  "length (rq_buf x) = 256 \<Longrightarrow> get_slot t (put_slot u g x) = (if slot t = slot u then g else get_slot t x)"
  "rq_head (put_slot u g x) = rq_head x" "rq_tail (put_slot u g x) = rq_tail x" "rq_next (put_slot u g x) = rq_next x"
  "length (rq_buf (put_slot u g x)) = length (rq_buf x)" "rq_link (put_slot u g x) = rq_link x"
  by (simp_all add: get_slot_def put_slot_def nth_list_update)

lemma get_slot_upd [simp]:
  "get_slot t (x\<lparr>rq_head := h\<rparr>) = get_slot t x" "get_slot t (x\<lparr>rq_tail := u\<rparr>) = get_slot t x"
  "get_slot t (x\<lparr>rq_next := n\<rparr>) = get_slot t x" "get_slot t (x\<lparr>rq_link := l\<rparr>) = get_slot t x"
  by (simp_all add: get_slot_def)

lemma rq_rep_other [simp]:
  "rq_rep (x\<lparr>rq_next := n\<rparr>) gs \<longleftrightarrow> rq_rep x gs" "rq_rep (x\<lparr>rq_link := l\<rparr>) gs \<longleftrightarrow> rq_rep x gs"
  by (simp_all add: rq_rep_def)

lemma rq_put:
  assumes "rq_rep x gs" "length gs < 256"
  shows "rq_rep (put_slot (rq_tail x) (Some g) x\<lparr>rq_tail := rq_tail x + 1\<rparr>) (gs @ [g])"
proof -
  note r = rq_repD [OF assms(1)]
  have "get_slot (rq_head x + of_nat i) (put_slot (rq_tail x) (Some g) x) = Some ((gs @ [g]) ! i)" if "i < Suc (length gs)" for i
    using slot_inj [of "length gs" i "rq_head x"] that assms(2) r(1,5) unfolding r(4)
    by (auto simp: nth_append less_Suc_eq)
  then show ?thesis using r assms(2) by (simp add: rq_rep_def)
qed

lemma rq_drop:
  assumes r: "rq_rep x gs" and n: "n \<le> length gs"
  shows "rq_rep (x\<lparr>rq_head := rq_head x + of_nat n\<rparr>) (drop n gs)"
  using rq_repD [OF r] rq_repD(5) [OF r, of "n + _"] n by (auto simp: rq_rep_def of_nat_diff ac_simps)

lemma map_get_slot:
  assumes "rq_rep x gs" "n \<le> length gs"
  shows "map (\<lambda>i. get_slot (rq_head x + of_nat i) x) [0..<n] = map Some (take n gs)"
  using assms rq_repD(5) [OF assms(1)] by (intro nth_equalityI) auto

lemma word32_of_nat_less: "n \<le> 256 \<Longrightarrow> (of_nat n :: u32) < 256 \<longleftrightarrow> n < 256"
  by (simp add: word_less_nat_alt unat_of_nat)

section \<open>The abstract scheduler queues\<close>

record aq =
  loc :: "pid \<Rightarrow> gid list"
  nxt :: "pid \<Rightarrow> gid option"
  gl :: "gid list"
  idle :: "pid list"
  procs :: nat
  gmp :: int

definition a_set :: "pid \<Rightarrow> gid list \<Rightarrow> gid option \<Rightarrow> aq \<Rightarrow> aq" where
  "a_set p gs n a = a\<lparr>loc := (loc a)(p := gs), nxt := (nxt a)(p := n)\<rparr>"

lemma a_set_simps [simp]:
  "loc (a_set p gs n a) = (loc a)(p := gs)" "nxt (a_set p gs n a) = (nxt a)(p := n)" "gl (a_set p gs n a) = gl a"
  "idle (a_set p gs n a) = idle a" "procs (a_set p gs n a) = procs a" "gmp (a_set p gs n a) = gmp a"
  by (simp_all add: a_set_def)

text \<open>The goroutines in the queues, each of which is in one place.\<close>

definition mopt :: "'a option \<Rightarrow> 'a multiset" where
  "mopt x = (case x of None \<Rightarrow> {#} | Some g \<Rightarrow> {#g#})"

definition on_p :: "aq \<Rightarrow> pid \<Rightarrow> gid multiset" where
  "on_p a p = mset (loc a p) + mopt (nxt a p)"

definition queued :: "aq \<Rightarrow> gid multiset" where
  "queued a = (\<Sum>p<procs a. on_p a p) + mset (gl a)"

definition uniq :: "'a multiset \<Rightarrow> bool" where
  "uniq M \<longleftrightarrow> (\<forall>x. count M x \<le> 1)"

lemma mopt_simps [simp]: "mopt None = {#}" "mopt (Some g) = {#g#}"
  by (simp_all add: mopt_def)

lemma uniq_mono: "uniq N \<Longrightarrow> M \<subseteq># N \<Longrightarrow> uniq M"
  by (auto simp: uniq_def subseteq_mset_def intro: order_trans)

lemma uniq_mset [simp]: "uniq (mset xs) \<longleftrightarrow> distinct xs"
proof
  assume u: "uniq (mset xs)"
  show "distinct xs"
  proof (subst distinct_count_atmost_1, rule allI)
    fix a
    have "count (mset xs) a \<le> 1" using u by (simp add: uniq_def)
    then show "count (mset xs) a = (if a \<in> set xs then 1 else 0)"
      by (cases "a \<in> set xs") (auto simp: not_in_iff le_Suc_eq)
  qed
next
  assume "distinct xs"
  then show "uniq (mset xs)" by (simp add: uniq_def distinct_count_atmost_1)
qed

lemma sum_upd_p:
  fixes p n :: nat and f g :: "nat \<Rightarrow> 'a multiset"
  assumes "p < n" "\<And>q. q \<noteq> p \<Longrightarrow> f q = g q"
  shows "(\<Sum>q<n. f q) + g p = (\<Sum>q<n. g q) + f p"
proof -
  have "(\<Sum>q\<in>{..<n} - {p}. f q) = (\<Sum>q\<in>{..<n} - {p}. g q)" using assms(2) by (intro sum.cong) auto
  then show ?thesis
    using assms(1) sum.remove [OF finite_lessThan, of p n f] sum.remove [OF finite_lessThan, of p n g] by (simp add: ac_simps del: sum.lessThan_Suc)
qed

lemma queued_a_set: "p < procs a \<Longrightarrow> queued (a_set p gs n a) + on_p a p = queued a + (mset gs + mopt n)"
  using sum_upd_p [of p "procs a" "on_p (a_set p gs n a)" "on_p a"] by (simp add: queued_def on_p_def ac_simps)

lemma queued_gl: "queued (a\<lparr>gl := gs\<rparr>) + mset (gl a) = queued a + mset gs"
  by (simp add: queued_def on_p_def ac_simps)

lemma on_p_subset: "p < procs a \<Longrightarrow> on_p a p + mset (gl a) \<subseteq># queued a"
  unfolding queued_def by (intro mset_subset_eq_mono_add) (auto simp: sum.remove [of "{..<procs a}" p])

lemma uniq_p:
  assumes "uniq (add_mset g (queued a))" "p < procs a"
  shows "distinct (loc a p @ gl a)" "g \<notin> set (loc a p)" "g \<notin> set (gl a)" "nxt a p \<noteq> Some g"
    "nxt a p = Some x \<Longrightarrow> x \<notin> set (loc a p) \<union> set (gl a)" "distinct (gl a)"
proof -
  have s: "add_mset g (on_p a p + mset (gl a)) \<subseteq># add_mset g (queued a)" using on_p_subset [OF assms(2)] by simp
  from uniq_mono [OF assms(1) this] have u: "uniq (add_mset g (on_p a p + mset (gl a)))" .
  have "uniq (mset (g # loc a p @ gl a))" by (rule uniq_mono [OF u]) (simp add: on_p_def)
  then show "distinct (loc a p @ gl a)" "g \<notin> set (loc a p)" "g \<notin> set (gl a)" "distinct (gl a)" unfolding uniq_mset by auto
  have "uniq (mset (g # x # loc a p @ gl a))" if "nxt a p = Some x" for x using u that by (simp add: on_p_def)
  then show "nxt a p \<noteq> Some g" "nxt a p = Some x \<Longrightarrow> x \<notin> set (loc a p) \<union> set (gl a)" unfolding uniq_mset by auto
qed

section \<open>The representation\<close>

text \<open>\<open>k\<close> goroutines of the global queue are no longer counted in \<open>runqsize\<close>.\<close>

definition qrep :: "nat \<Rightarrow> sched \<Rightarrow> aq \<Rightarrow> bool" where
  "qrep k s a \<longleftrightarrow>
     (\<forall>p. rq_rep (ps s p) (loc a p) \<and> rq_next (ps s p) = nxt a p) \<and>
     gq_rep (schedlink s) (glob s) (gl a) \<and> runqsize s + int k = int (length (gl a)) \<and> gomaxprocs s = gmp a \<and>
     chained (\<lambda>p. rq_link (ps s p)) (idle a) None \<and> pidle s = head_of (idle a) None \<and>
     npidle s = of_nat (length (idle a)) \<and> distinct (idle a)"

lemma qrepD:
  assumes "qrep k s a"
  shows "rq_rep (ps s p) (loc a p)" "rq_next (ps s p) = nxt a p" "gq_rep (schedlink s) (glob s) (gl a)"
    "runqsize s + int k = int (length (gl a))" "gomaxprocs s = gmp a"
    "chained (\<lambda>p. rq_link (ps s p)) (idle a) None" "pidle s = head_of (idle a) None"
    "npidle s = of_nat (length (idle a))" "distinct (idle a)"
  using assms by (auto simp: qrep_def)

lemma upd_rq_simps [simp]:
  "schedlink (upd_rq p f s) = schedlink s" "glob (upd_rq p f s) = glob s" "runqsize (upd_rq p f s) = runqsize s"
  "gomaxprocs (upd_rq p f s) = gomaxprocs s" "pidle (upd_rq p f s) = pidle s" "npidle (upd_rq p f s) = npidle s"
  "ps (upd_rq p f s) = (ps s)(p := f (ps s p))"
  by (simp_all add: upd_rq_def)

lemma upd_rq_upd_rq: "upd_rq p f (upd_rq p g s) = upd_rq p (\<lambda>x. f (g x)) s"
  by (simp add: upd_rq_def)

lemma qrep_upd:
  assumes q: "qrep k s a" and r: "rq_rep (f (ps s p)) gs" and n: "rq_next (f (ps s p)) = n"
    and l: "rq_link (f (ps s p)) = rq_link (ps s p)"
  shows "qrep k (upd_rq p f s) (a_set p gs n a)"
proof -
  have "chained (\<lambda>p'. rq_link (ps (upd_rq p f s) p')) (idle a) None"
    by (rule chained_cong [OF qrepD(6) [OF q]]) (use l in simp)
  then show ?thesis using q r n unfolding qrep_def by simp
qed

lemma qrep_glob:
  assumes q: "qrep k s a" and r: "gq_rep sl q' gs" and n: "m + int k' = int (length gs)"
  shows "qrep k' (s\<lparr>schedlink := sl, glob := q', runqsize := m\<rparr>) (a\<lparr>gl := gs\<rparr>)"
  using q r n by (simp add: qrep_def)

section \<open>Putting\<close>

definition a_tail :: "pid \<Rightarrow> gid \<Rightarrow> aq \<Rightarrow> aq" where
  "a_tail p g a =
     (if length (loc a p) < 256 then a_set p (loc a p @ [g]) (nxt a p) a
      else (a_set p (drop 128 (loc a p)) (nxt a p) a)\<lparr>gl := gl a @ take 128 (loc a p) @ [g]\<rparr>)"

definition a_put :: "pid \<Rightarrow> gid \<Rightarrow> bool \<Rightarrow> aq \<Rightarrow> aq" where
  "a_put p g next a =
     (if next then
        case nxt a p of None \<Rightarrow> a_set p (loc a p) (Some g) a
        | Some old \<Rightarrow> a_tail p old (a_set p (loc a p) (Some g) a)
      else a_tail p g a)"

lemma globrunqputbatch_spec:
  assumes q: "qrep k s a" and b: "gq_batch sl q hs" and d: "set (gl a) \<inter> set hs = {}" and n: "n = int (length hs)"
    and sl: "gq_rep sl (glob s) (gl a)"
  shows "\<exists>s'. globrunqputbatch q n (s\<lparr>schedlink := sl\<rparr>) = (gq_nil, s') \<and> qrep k s' (a\<lparr>gl := gl a @ hs\<rparr>)"
proof -
  obtain q' sl' where p: "gq_pushBackAll (glob s) q sl = (q', sl')" "gq_rep sl' q' (gl a @ hs)"
    using gq_pushBackAll_spec [OF sl b d] by blast
  show ?thesis
    using p(1) qrep_glob [OF q p(2), of "runqsize s + n" k] qrepD(4) [OF q] n by (simp add: globrunqputbatch_def)
qed

lemma batch_ends: "gs \<noteq> [] \<Longrightarrow> hd (map Some gs) = head_of gs None" "gs \<noteq> [] \<Longrightarrow> last (map Some gs) = last_of gs"
  by (simp_all add: head_of_def last_of_def hd_map last_map split: list.split)

lemma link_batch_spec:
  "distinct (gs @ [g]) \<Longrightarrow> \<exists>sl'. link_batch (map Some (gs @ [g])) sl = Ret sl' \<and> (\<exists>e. chained sl' (gs @ [g]) e) \<and>
    (\<forall>x. x \<notin> set gs \<longrightarrow> sl' x = sl x)"
proof (induction gs arbitrary: sl)
  case (Cons h gs)
  let ?sl = "sl(h := head_of (gs @ [g]) None)"
  have d: "distinct (gs @ [g])" using Cons.prems by simp
  obtain sl' e where s: "link_batch (map Some (gs @ [g])) ?sl = Ret sl'" "chained sl' (gs @ [g]) e" "\<forall>x. x \<notin> set gs \<longrightarrow> sl' x = ?sl x"
    using Cons.IH [OF d, of ?sl] by blast
  obtain c cs where c: "gs @ [g] = c # cs" by (cases "gs @ [g]") auto
  have "link_batch (map Some ((h # gs) @ [g])) sl = Ret sl'" using s(1) c by simp
  moreover have "sl' h = head_of (gs @ [g]) None" using s(3) Cons.prems by simp
  then have "chained sl' ((h # gs) @ [g]) e" using s(2) by (simp add: head_of_append)
  moreover have "\<forall>x. x \<notin> set (h # gs) \<longrightarrow> sl' x = sl x" using s(3) by simp
  ultimately show ?case by blast
next
  case Nil
  have "chained sl [g] (sl g)" by simp
  then show ?case by auto
qed

lemma runqput_tail_spec:
  assumes q: "qrep k s a" and p: "p < procs a" and u: "uniq (add_mset g (queued a))"
  shows "\<exists>s'. runqput_tail p (Some g) s = Ret s' \<and> qrep k s' (a_tail p g a)"
proof -
  let ?x = "ps s p" and ?gs = "loc a p"
  let ?h = "rq_head ?x" and ?t = "rq_tail ?x"
  note r = qrepD(1) [OF q, of p]
  have len: "?t - ?h = of_nat (length ?gs)" "length ?gs \<le> 256" using rq_repD(2,4) [OF r] by simp_all
  show ?thesis
  proof (cases "length ?gs < 256")
    case True
    then have "runqput_tail p (Some g) s = Ret (upd_rq p (\<lambda>x. put_slot ?t (Some g) x\<lparr>rq_tail := ?t + 1\<rparr>) s)"
      using len by (simp add: runqput_tail_def Let_def upd_rq_upd_rq word32_of_nat_less)
    moreover have "qrep k (upd_rq p (\<lambda>x. put_slot ?t (Some g) x\<lparr>rq_tail := ?t + 1\<rparr>) s) (a_set p (?gs @ [g]) (nxt a p) a)"
      by (rule qrep_upd [OF q]) (simp_all add: rq_put [OF r True] qrepD(2) [OF q])
    ultimately show ?thesis using True by (simp add: a_tail_def)
  next
    case False
    then have l: "length ?gs = 256" using len(2) by simp
    let ?hs = "take 128 ?gs @ [g]"
    let ?s = "upd_rq p (\<lambda>x. x\<lparr>rq_head := ?h + 128\<rparr>) s" and ?a = "a_set p (drop 128 ?gs) (nxt a p) a"
    note u1 = uniq_p [OF u p]
    have d: "distinct ?hs" "set (gl a) \<inter> set ?hs = {}" using u1(1-3) set_take_subset [of 128 ?gs] by auto
    have q1: "qrep k ?s ?a"
      by (rule qrep_upd [OF q]) (use rq_drop [OF r, of 128] l in \<open>simp_all add: qrepD(2) [OF q]\<close>)
    obtain sl e where sl: "link_batch (map Some ?hs) (schedlink s) = Ret sl" "chained sl ?hs e"
      "\<forall>x. x \<notin> set (take 128 ?gs) \<longrightarrow> sl x = schedlink s x"
      using link_batch_spec [OF d(1)] by blast
    have b: "gq_batch sl \<lparr>q_head = hd (map Some ?hs), q_tail = last (map Some ?hs)\<rparr> ?hs"
      using d(1) sl(2) by (auto simp: gq_batch_def batch_ends simp del: map_append)
    have "gq_rep sl (glob ?s) (gl a)"
      unfolding upd_rq_simps by (rule gq_rep_cong [OF qrepD(3) [OF q]]) (use sl(3) d(2) in auto)
    then obtain s' where s': "globrunqputbatch \<lparr>q_head = hd (map Some ?hs), q_tail = last (map Some ?hs)\<rparr> 129 (?s\<lparr>schedlink := sl\<rparr>) = (gq_nil, s')"
      "qrep k s' (?a\<lparr>gl := gl a @ ?hs\<rparr>)"
      using globrunqputbatch_spec [OF q1 b, of 129] d(2) l by auto
    have m: "map (\<lambda>i. get_slot (?h + of_nat i) ?x) [0..<128] @ [Some g] = map Some ?hs"
      using map_get_slot [OF r, of 128] l by simp
    have "runqputslow p (Some g) ?h ?t s = Ret (True, s')"
      using s'(1) sl(1) m l len(1) by (simp add: runqputslow_def cas_head_def Let_def)
    then show ?thesis using s'(2) l len(1) by (simp add: runqput_tail_def a_tail_def Let_def)
  qed
qed

lemma qrep_next: "qrep k s a \<Longrightarrow> qrep k (upd_rq p (\<lambda>x. x\<lparr>rq_next := n\<rparr>) s) (a_set p (loc a p) n a)"
  by (rule qrep_upd) (auto simp: qrepD)

lemma queued_put_next: "p < procs a \<Longrightarrow> queued (a_set p (loc a p) (Some g) a) + mopt (nxt a p) = add_mset g (queued a)"
  using queued_a_set [of p a "loc a p" "Some g"] by (simp add: on_p_def ac_simps)

lemma runqput_spec:
  assumes q: "qrep k s a" and p: "p < procs a" and u: "uniq (add_mset g (queued a))"
  shows "\<exists>s'. runqput p (Some g) next s = Ret s' \<and> qrep k s' (a_put p g next a)"
proof (cases "next")
  case False
  then show ?thesis using runqput_tail_spec [OF q p u] by (simp add: runqput_def a_put_def)
next
  case True
  let ?s = "upd_rq p (\<lambda>x. x\<lparr>rq_next := Some g\<rparr>) s" and ?a = "a_set p (loc a p) (Some g) a"
  note q1 = qrep_next [OF q, of p "Some g"]
  show ?thesis
  proof (cases "nxt a p")
    case None
    then show ?thesis using True q1 qrepD(2) [OF q, of p] by (simp add: runqput_def a_put_def cas_next_def)
  next
    case (Some old)
    have "add_mset old (queued ?a) = add_mset g (queued a)" using queued_put_next [OF p, of g] Some by simp
    with runqput_tail_spec [OF q1, of p old] p u obtain s' where
      "runqput_tail p (Some old) ?s = Ret s'" "qrep k s' (a_tail p old ?a)" by auto
    then show ?thesis using True Some qrepD(2) [OF q, of p] by (simp add: runqput_def a_put_def cas_next_def)
  qed
qed

lemma queued_a_tail:
  assumes "p < procs a"
  shows "queued (a_tail p g a) = add_mset g (queued a)"
proof (cases "length (loc a p) < 256")
  case True
  then show ?thesis using queued_a_set [OF assms, of "loc a p @ [g]" "nxt a p"] by (simp add: a_tail_def on_p_def)
next
  case False
  let ?a = "a_set p (drop 128 (loc a p)) (nxt a p) a" and ?h = "take 128 (loc a p)"
  have m: "mset (loc a p) = mset ?h + mset (drop 128 (loc a p))" by (metis append_take_drop_id mset_append)
  have "queued ?a + mset ?h = queued a"
    using queued_a_set [OF assms, of "drop 128 (loc a p)" "nxt a p"] by (simp add: on_p_def m ac_simps)
  moreover have "queued (?a\<lparr>gl := gl a @ ?h @ [g]\<rparr>) = add_mset g (queued ?a + mset ?h)"
    using queued_gl [where a = ?a and gs = "gl a @ ?h @ [g]"] by (simp add: ac_simps)
  ultimately show ?thesis using False by (simp add: a_tail_def)
qed

lemma a_tail_procs [simp]: "procs (a_tail p g a) = procs a" "idle (a_tail p g a) = idle a" "gmp (a_tail p g a) = gmp a"
  by (simp_all add: a_tail_def)

section \<open>Taking\<close>

definition a_get :: "pid \<Rightarrow> aq \<Rightarrow> gid option \<times> bool \<times> aq" where
  "a_get p a =
     (case nxt a p of Some g \<Rightarrow> (Some g, True, a_set p (loc a p) None a)
      | None \<Rightarrow> (case loc a p of [] \<Rightarrow> (None, False, a) | g # gs \<Rightarrow> (Some g, False, a_set p gs None a)))"

lemma runqget_spec:
  assumes q: "qrep k s a"
  shows "case a_get p a of (g, inherit, a') \<Rightarrow> \<exists>s'. runqget p s = Ret (g, inherit, s') \<and> qrep k s' a'"
proof (cases "nxt a p")
  case (Some g)
  then show ?thesis using qrep_next [OF q, of p None] qrepD(2) [OF q, of p] by (simp add: runqget_def a_get_def cas_next_def)
next
  case None
  note r = qrepD(1) [OF q, of p]
  have n: "rq_next (ps s p) = None" using None qrepD(2) [OF q] by simp
  show ?thesis
  proof (cases "loc a p")
    case Nil
    then show ?thesis using None n q rq_repD(4) [OF r] by (simp add: runqget_def a_get_def)
  next
    case (Cons g gs)
    have "of_nat (length (loc a p)) \<noteq> (0 :: u32)"
      using rq_repD(2) [OF r] Cons by (metis (mono_tags) length_0_conv list.distinct(1) rq_repD(3) [OF r] unat_0 add_diff_cancel_left' rq_repD(4) [OF r])
    then have "rq_tail (ps s p) \<noteq> rq_head (ps s p)" using rq_repD(4) [OF r] by simp
    moreover have "get_slot (rq_head (ps s p)) (ps s p) = Some g" using rq_repD(5) [OF r, of 0] Cons by simp
    moreover have "qrep k (upd_rq p (\<lambda>x. x\<lparr>rq_head := rq_head (ps s p) + 1\<rparr>) s) (a_set p gs None a)"
      by (rule qrep_upd [OF q]) (use rq_drop [OF r, of 1] Cons n in simp_all)
    ultimately show ?thesis using None n Cons by (simp add: runqget_def a_get_def cas_head_def Let_def)
  qed
qed

lemma runqempty_spec:
  assumes q: "qrep k s a"
  shows "runqempty p s \<longleftrightarrow> loc a p = [] \<and> nxt a p = None"
proof -
  note r = qrepD(1) [OF q, of p]
  have "rq_head (ps s p) = rq_tail (ps s p) \<longleftrightarrow> unat (rq_tail (ps s p) - rq_head (ps s p)) = 0"
    by (simp add: unat_eq_zero) (metis eq_iff_diff_eq_0)
  then show ?thesis using qrepD(2) [OF q, of p] unfolding rq_repD(3) [OF r] by (simp add: runqempty_def Let_def)
qed

section \<open>The global queue\<close>

lemma globrunqput_spec:
  assumes q: "qrep k s a" and g: "g \<notin> set (gl a)"
  shows "qrep k (globrunqput g s) (a\<lparr>gl := gl a @ [g]\<rparr>)" "qrep k (globrunqputhead g s) (a\<lparr>gl := g # gl a\<rparr>)"
proof -
  obtain q1 sl1 where 1: "gq_pushBack g (glob s) (schedlink s) = (q1, sl1)" "gq_rep sl1 q1 (gl a @ [g])"
    using gq_pushBack_spec [OF qrepD(3) [OF q] g] by blast
  show "qrep k (globrunqput g s) (a\<lparr>gl := gl a @ [g]\<rparr>)"
    using qrep_glob [OF q 1(2), of "runqsize s + 1" k] qrepD(4) [OF q] 1(1) by (simp add: globrunqput_def)
  obtain q2 sl2 where 2: "gq_push g (glob s) (schedlink s) = (q2, sl2)" "gq_rep sl2 q2 (g # gl a)"
    using gq_push_spec [OF qrepD(3) [OF q] g] by blast
  show "qrep k (globrunqputhead g s) (a\<lparr>gl := g # gl a\<rparr>)"
    using qrep_glob [OF q 2(2), of "runqsize s + 1" k] qrepD(4) [OF q] 2(1) by (simp add: globrunqputhead_def)
qed

lemma pop_glob_spec:
  assumes q: "qrep (Suc k) s a" and g: "gl a = g # gs"
  shows "\<exists>s'. pop_glob s = (Some g, s') \<and> qrep k s' (a\<lparr>gl := gs\<rparr>)"
proof -
  obtain q' where "gq_pop (glob s) (schedlink s) = (Some g, q')" "gq_rep (schedlink s) q' gs"
    using gq_pop_spec [OF qrepD(3) [OF q]] unfolding g by auto
  moreover from this(2) have "qrep k (s\<lparr>schedlink := schedlink s, glob := q', runqsize := runqsize s\<rparr>) (a\<lparr>gl := gs\<rparr>)"
    by (rule qrep_glob [OF q]) (use qrepD(4) [OF q] g in simp)
  ultimately show ?thesis by (simp add: pop_glob_def)
qed

fun a_fill :: "pid \<Rightarrow> gid list \<Rightarrow> aq \<Rightarrow> aq" where
  "a_fill p [] a = a"
| "a_fill p (g # gs) a = a_fill p gs (a_tail p g a)"

lemma a_tail_gl: "(a_tail p g a)\<lparr>gl := hs @ gl (a_tail p g a)\<rparr> = a_tail p g (a\<lparr>gl := hs @ gl a\<rparr>)"
  by (simp add: a_tail_def a_set_def)

lemma globget_loop_spec:
  assumes "qrep (length gs) s (a\<lparr>gl := gs @ gl a\<rparr>)" "p < procs a" "uniq (queued a + mset gs)"
  shows "\<exists>s'. globget_loop p (int (length gs)) s = Ret s' \<and> qrep 0 s' (a_fill p gs a)"
  using assms
proof (induction gs arbitrary: s a)
  case Nil
  then show ?case by (simp add: globget_loop.simps)
next
  case (Cons g gs)
  have "qrep (Suc (length gs)) s (a\<lparr>gl := (g # gs) @ gl a\<rparr>)" using Cons.prems(1) by simp
  from pop_glob_spec [OF this] obtain s1 where s1: "pop_glob s = (Some g, s1)" "qrep (length gs) s1 (a\<lparr>gl := gs @ gl a\<rparr>)" by auto
  have m: "queued (a\<lparr>gl := gs @ gl a\<rparr>) = queued a + mset gs" using queued_gl [where a = a and gs = "gs @ gl a"] by (simp add: ac_simps)
  obtain s2 where s2: "runqput p (Some g) False s1 = Ret s2" "qrep (length gs) s2 (a_put p g False (a\<lparr>gl := gs @ gl a\<rparr>))"
    using runqput_spec [OF s1(2), of p g False] Cons.prems(2,3) m by auto
  have "uniq (queued (a_tail p g a) + mset gs)" using Cons.prems(3) queued_a_tail [OF Cons.prems(2)] by simp
  with Cons.IH [of s2 "a_tail p g a"] s2(2) Cons.prems(2) obtain s' where
    "globget_loop p (int (length gs)) s2 = Ret s'" "qrep 0 s' (a_fill p gs (a_tail p g a))"
    by (auto simp: a_put_def a_tail_gl)
  moreover have "globget_loop p (int (length (g # gs))) s = globget_loop p (int (length gs)) s2"
    by (subst globget_loop.simps) (simp add: s1 s2)
  ultimately show ?case by simp
qed

definition a_count :: "int \<Rightarrow> aq \<Rightarrow> nat" where
  "a_count lim a =
     (let n = min (length (gl a)) (length (gl a) div nat (gmp a) + 1)
      in min 128 (if lim > 0 then min n (nat lim) else n))"

definition a_globget :: "pid \<Rightarrow> int \<Rightarrow> aq \<Rightarrow> gid option \<times> aq" where
  "a_globget p lim a =
     (case gl a of [] \<Rightarrow> (None, a)
      | g # gs \<Rightarrow> let n = a_count lim a - 1 in (Some g, a_fill p (take n gs) (a\<lparr>gl := drop n gs\<rparr>)))"

lemma globrunqget_spec:
  assumes q: "qrep 0 s a" and p: "p < procs a" and u: "uniq (queued a)" and m: "gmp a > 0"
  shows "case a_globget p lim a of (g, a') \<Rightarrow> \<exists>s'. globrunqget p lim s = Ret (g, s') \<and> qrep 0 s' a'"
proof (cases "gl a")
  case Nil
  then show ?thesis using q qrepD(4) [OF q] by (simp add: globrunqget_def a_globget_def)
next
  case (Cons g gs)
  let ?n = "a_count lim a"
  have sz: "runqsize s = int (length (gl a))" "gomaxprocs s = int (nat (gmp a))" using qrepD(4,5) [OF q] m by simp_all
  have c: "globget_count lim s = int ?n"
  proof -
    define L N where "L = length (gl a)" and "N = L div nat (gmp a) + 1"
    have N: "int L div int (nat (gmp a)) + 1 = int N" by (simp add: N_def zdiv_int)
    show ?thesis
      unfolding globget_count_def a_count_def Let_def sz L_def [symmetric] N N_def [symmetric]
      by (cases "lim > 0") (auto simp: min_def)
  qed
  have n: "0 < ?n" "?n \<le> length (gl a)" using Cons by (auto simp: a_count_def Let_def)
  define k where "k = ?n - 1"
  then have k: "?n = Suc k" "k \<le> length gs" using n Cons by auto
  have "qrep (Suc k) (s\<lparr>runqsize := runqsize s - int ?n\<rparr>) a" using q k(1) by (simp add: qrep_def)
  from pop_glob_spec [OF this Cons] obtain s1 where
    s1: "pop_glob (s\<lparr>runqsize := runqsize s - int ?n\<rparr>) = (Some g, s1)" "qrep k s1 (a\<lparr>gl := gs\<rparr>)" by blast
  let ?a = "a\<lparr>gl := drop k gs\<rparr>"
  have "queued ?a + mset (g # take k gs) = queued a"
  proof -
    have "mset gs = mset (take k gs) + mset (drop k gs)" by (metis append_take_drop_id mset_append)
    then show ?thesis using queued_gl [where a = a and gs = "drop k gs"] Cons by (simp add: ac_simps)
  qed
  then have "uniq (queued ?a + mset (take k gs))"
    by (intro uniq_mono [OF u]) (metis mset.simps(2) mset_subset_eq_add_left union_mset_add_mset_right add_mset_add_single union_assoc)
  moreover have "qrep (length (take k gs)) s1 (?a\<lparr>gl := take k gs @ gl ?a\<rparr>)" using s1(2) k(2) by (simp add: min_absorb2)
  ultimately obtain s' where "globget_loop p (int (length (take k gs))) s1 = Ret s'" "qrep 0 s' (a_fill p (take k gs) ?a)"
    using globget_loop_spec [of "take k gs" s1 ?a p] p by auto
  then show ?thesis
    using Cons s1(1) k sz(1) by (simp add: globrunqget_def a_globget_def c Let_def min_absorb2)
qed

section \<open>Writing several slots\<close>

definition slots_rep :: "rq \<Rightarrow> gid list \<Rightarrow> bool" where
  "slots_rep x gs \<longleftrightarrow>
     length (rq_buf x) = 256 \<and> length gs \<le> 256 \<and>
     (\<forall>i<length gs. get_slot (rq_head x + of_nat i) x = Some (gs ! i))"

lemma slots_rep_rq: "rq_rep x gs \<longleftrightarrow> slots_rep x gs \<and> rq_tail x = rq_head x + of_nat (length gs)"
  by (auto simp: rq_rep_def slots_rep_def)

lemma slots_put:
  assumes "slots_rep x gs" "length gs < 256"
  shows "slots_rep (put_slot (rq_head x + of_nat (length gs)) (Some g) x) (gs @ [g])"
proof -
  have r: "rq_rep (x\<lparr>rq_tail := rq_head x + of_nat (length gs)\<rparr>) gs" using assms(1) by (simp add: rq_rep_def slots_rep_def)
  from rq_put [OF this assms(2), of g] show ?thesis
    by (simp add: rq_rep_def slots_rep_def put_slot_def get_slot_def)
qed

text \<open>Two states of a ring that differ in the slots only.\<close>

definition same_rq :: "rq \<Rightarrow> rq \<Rightarrow> bool" where
  "same_rq x y \<longleftrightarrow> rq_head x = rq_head y \<and> rq_tail x = rq_tail y \<and> rq_next x = rq_next y \<and> rq_link x = rq_link y"

lemma copy_slots:
  assumes r: "slots_rep (ps s me) gs" and b: "b = rq_head (ps s me) + of_nat (length gs)" and ne: "me \<noteq> p"
    and h: "\<And>i. i < length hs \<Longrightarrow> get_slot (h + of_nat i) (ps s p) = Some (hs ! i)" and l: "length gs + length hs \<le> 256"
  shows "\<exists>x. fold (\<lambda>i s. upd_rq me (put_slot (b + of_nat i) (get_slot (h + of_nat i) (ps s p))) s) [0..<length hs] s = upd_rq me (\<lambda>_. x) s \<and>
    slots_rep x (gs @ hs) \<and> same_rq x (ps s me)"
  using h l
proof (induction hs rule: rev_induct)
  case Nil
  have "s = upd_rq me (\<lambda>_. ps s me) s" by (simp add: upd_rq_def)
  moreover have "same_rq (ps s me) (ps s me)" by (simp add: same_rq_def)
  ultimately show ?case using r by (intro exI [of _ "ps s me"]) simp
next
  case (snoc g hs)
  let ?f = "\<lambda>i s. upd_rq me (put_slot (b + of_nat i) (get_slot (h + of_nat i) (ps s p))) s"
  have "get_slot (h + of_nat i) (ps s p) = Some (hs ! i)" if "i < length hs" for i using snoc.prems(1) [of i] that by (simp add: nth_append)
  then obtain x where x: "fold ?f [0..<length hs] s = upd_rq me (\<lambda>_. x) s" "slots_rep x (gs @ hs)" "same_rq x (ps s me)"
    using snoc.IH snoc.prems(2) by auto
  let ?y = "put_slot (b + of_nat (length hs)) (Some g) x"
  have "get_slot (h + of_nat (length hs)) (ps s p) = Some g" using snoc.prems(1) [of "length hs"] by simp
  then have "fold ?f [0..<length (hs @ [g])] s = upd_rq me (\<lambda>_. ?y) s" using x(1) ne by (simp add: upd_rq_upd_rq)
  moreover have "slots_rep ?y (gs @ hs @ [g])"
    using slots_put [OF x(2), of g] snoc.prems(2) x(3) by (simp add: b same_rq_def ac_simps)
  moreover have "same_rq ?y (ps s me)" using x(3) by (simp add: same_rq_def)
  ultimately show ?case by auto
qed

section \<open>Stealing\<close>

definition half :: "nat \<Rightarrow> nat" where
  "half n = n - n div 2"

definition a_steal :: "pid \<Rightarrow> pid \<Rightarrow> bool \<Rightarrow> aq \<Rightarrow> gid option \<times> aq" where
  "a_steal p p2 b a =
     (if loc a p2 = [] then if b then (nxt a p2, a_set p2 [] None a) else (None, a)
      else
        let n = half (length (loc a p2)); gs = take n (loc a p2) in
        (Some (last gs), a_set p (loc a p @ butlast gs) (nxt a p) (a_set p2 (drop n (loc a p2)) (nxt a p2) a)))"

lemma word_half: "n \<le> 256 \<Longrightarrow> (of_nat n :: u32) - of_nat n div 2 = of_nat (half n)"
proof -
  assume n: "n \<le> 256"
  have "(of_nat n :: u32) div 2 = of_nat (n div 2)"
    using n by (intro word_unat_eq_iff [THEN iffD2]) (simp add: unat_div unat_of_nat)
  then show ?thesis by (simp add: half_def of_nat_diff)
qed

lemma half_bounds: "n \<le> 256 \<Longrightarrow> half n \<le> 128" "0 < n \<Longrightarrow> 0 < half n" "half n \<le> n"
  by (auto simp: half_def)

text \<open>A thief that finds the ring empty may take the next goroutine of its owner.\<close>

lemma runqsteal_next:
  assumes q: "qrep k s a" and ne: "p \<noteq> p2" and room: "length (loc a p) < 256" and mt: "loc a p2 = []"
  shows "case a_steal p p2 b a of (g, a') \<Rightarrow> \<exists>s'. runqsteal p p2 b s = Ret (g, s') \<and> qrep k s' a'"
proof -
  let ?x = "ps s p" and ?y = "ps s p2"
  note r = qrepD(1) [OF q, of p] and r2 = qrepD(1) [OF q, of p2] and nx = qrepD(2) [OF q]
  have n0: "rq_tail ?y = rq_head ?y" using rq_repD(4) [OF r2] mt by simp
  show ?thesis
  proof (cases "b \<and> nxt a p2 \<noteq> None")
    case False
    have "a_set p2 [] None a = a" if "nxt a p2 = None" using that mt by (simp add: a_set_def fun_upd_idem)
    then show ?thesis using mt n0 False q nx by (auto simp: runqsteal_def runqgrab_def a_steal_def Let_def)
  next
    case b: True
    then obtain g where g: "nxt a p2 = Some g" by blast
    let ?s1 = "upd_rq p2 (\<lambda>x. x\<lparr>rq_next := None\<rparr>) s"
    let ?s2 = "upd_rq p (put_slot (rq_tail ?x) (Some g)) ?s1"
    have "runqgrab p2 p (rq_tail ?x) b s = Ret (1, ?s2)"
      using b n0 g nx [of p2] by (simp add: runqgrab_def cas_next_def Let_def)
    moreover have "get_slot (rq_tail ?x) (ps ?s2 p) = Some g" using rq_repD(1) [OF r] ne by simp
    ultimately have "runqsteal p p2 b s = Ret (Some g, ?s2)" by (simp add: runqsteal_def Let_def)
    moreover have "qrep k ?s1 (a_set p2 [] None a)" using qrep_next [OF q, of p2 None] mt by simp
    then have "qrep k ?s2 (a_set p (loc a p) (nxt a p) (a_set p2 [] None a))"
    proof (rule qrep_upd)
      have "slots_rep (put_slot (rq_tail ?x) (Some g) ?x) (loc a p @ [g])"
        using slots_put [of ?x "loc a p" g] r room by (simp add: slots_rep_rq)
      then have "slots_rep (put_slot (rq_tail ?x) (Some g) ?x) (loc a p)"
        by (auto simp: slots_rep_def nth_append dest: less_SucI)
      then show "rq_rep (put_slot (rq_tail ?x) (Some g) (ps ?s1 p)) (loc a p)"
        using r ne by (simp add: slots_rep_rq)
    qed (use ne nx in simp_all)
    moreover have "a_set p (loc a p) (nxt a p) (a_set p2 [] None a) = a_set p2 [] None a"
      using ne by (simp add: a_set_def fun_upd_twist fun_upd_idem)
    ultimately show ?thesis using mt b g by (simp add: a_steal_def)
  qed
qed

text \<open>Otherwise it takes half of the ring; the last goroutine taken is the one it returns.\<close>

lemma runqsteal_half:
  assumes q: "qrep k s a" and ne: "p \<noteq> p2"
    and room: "length (loc a p) + half (length (loc a p2)) \<le> 256" and nonmt: "loc a p2 \<noteq> []"
  shows "case a_steal p p2 b a of (g, a') \<Rightarrow> \<exists>s'. runqsteal p p2 b s = Ret (g, s') \<and> qrep k s' a'"
proof -
  let ?x = "ps s p" and ?y = "ps s p2"
  note r = qrepD(1) [OF q, of p] and r2 = qrepD(1) [OF q, of p2] and nx = qrepD(2) [OF q]
  have n: "(rq_tail ?y - rq_head ?y) - (rq_tail ?y - rq_head ?y) div 2 = of_nat (half (length (loc a p2)))"
    using rq_repD(2,4) [OF r2] by (simp add: word_half)
  define m where "m = half (length (loc a p2))"
  define hs where "hs = take m (loc a p2)"
  have m: "0 < m" "m \<le> 128" "m \<le> length (loc a p2)" "length hs = m"
    using half_bounds rq_repD(2) [OF r2] nonmt by (auto simp: m_def hs_def min_absorb2)
  note n = n [folded m_def] and room = room [folded m_def]
  have src: "get_slot (rq_head ?y + of_nat i) (ps s p2) = Some (hs ! i)" if "i < length hs" for i
    using rq_repD(5) [OF r2, of i] that m by (simp add: hs_def)
  have "slots_rep ?x (loc a p)" "rq_tail ?x = rq_head ?x + of_nat (length (loc a p))" using r by (simp_all add: slots_rep_rq)
  from copy_slots [OF this ne src] room m(4) obtain x where
    x: "fold (\<lambda>i s. upd_rq p (put_slot (rq_tail ?x + of_nat i) (get_slot (rq_head ?y + of_nat i) (ps s p2))) s) [0..<length hs] s
      = upd_rq p (\<lambda>_. x) s" "slots_rep x (loc a p @ hs)" "same_rq x ?x" by auto
  let ?s1 = "upd_rq p (\<lambda>_. x) s"
  let ?s2 = "upd_rq p2 (\<lambda>y. y\<lparr>rq_head := rq_head ?y + of_nat m\<rparr>) ?s1"
  have un: "unat (of_nat m :: u32) = m" "of_nat m \<noteq> (0 :: u32)" "\<not> (128 :: u32) < of_nat m"
    using m by (simp_all add: unat_of_nat word_less_nat_alt unat_eq_zero [symmetric] del: unat_eq_zero) 
  have grab: "runqgrab p2 p (rq_tail ?x) b s = Ret (of_nat m, ?s2)"
    unfolding runqgrab_def Let_def n using x(1) m(4) ne un by (simp add: cas_head_def)
  have sx: "rq_rep (x\<lparr>rq_tail := rq_tail ?x + of_nat (m - 1)\<rparr>) (loc a p @ butlast hs)"
  proof -
    have "slots_rep x (loc a p @ butlast hs)"
      using x(2) m by (auto simp: slots_rep_def nth_append nth_butlast)
    then show ?thesis using r x(3) m(4) by (simp add: slots_rep_rq same_rq_def slots_rep_def)
  qed
  have lst: "get_slot (rq_tail ?x + of_nat (m - 1)) x = Some (last hs)"
  proof -
    have "get_slot (rq_head x + of_nat (length (loc a p) + (m - 1))) x = Some ((loc a p @ hs) ! (length (loc a p) + (m - 1)))"
      using x(2) m unfolding slots_rep_def by (elim conjE) (drule spec, erule mp, simp)
    moreover have "hs ! (m - 1) = last hs" using m last_conv_nth [of hs] by auto
    then have "(loc a p @ hs) ! (length (loc a p) + (m - 1)) = last hs" by (simp only: nth_append_length_plus)
    ultimately show ?thesis using r x(3) by (simp add: slots_rep_rq same_rq_def ac_simps)
  qed
  have m1: "of_nat m - 1 = (of_nat (m - 1) :: u32)" using m(1) by (simp add: of_nat_diff)
  let ?a2 = "a_set p2 (drop m (loc a p2)) (nxt a p2) a"
  let ?s3 = "upd_rq p (\<lambda>y. y\<lparr>rq_tail := rq_tail ?x + of_nat (m - 1)\<rparr>) ?s2"
  have q3: "qrep k ?s3 (a_set p (loc a p @ butlast hs) (nxt a p) ?a2)"
  proof -
    have "qrep k (upd_rq p2 (\<lambda>y. y\<lparr>rq_head := rq_head ?y + of_nat m\<rparr>) s) ?a2"
      by (rule qrep_upd [OF q]) (use rq_drop [OF r2, of m] m nx in simp_all)
    then have "qrep k (upd_rq p (\<lambda>y. x\<lparr>rq_tail := rq_tail ?x + of_nat (m - 1)\<rparr>) (upd_rq p2 (\<lambda>y. y\<lparr>rq_head := rq_head ?y + of_nat m\<rparr>) s))
      (a_set p (loc a p @ butlast hs) (nxt a p) ?a2)"
      by (rule qrep_upd) (use sx x(3) ne nx in \<open>simp_all add: same_rq_def\<close>)
    moreover have "upd_rq p (\<lambda>y. x\<lparr>rq_tail := rq_tail ?x + of_nat (m - 1)\<rparr>) (upd_rq p2 (\<lambda>y. y\<lparr>rq_head := rq_head ?y + of_nat m\<rparr>) s) = ?s3"
      using ne by (simp add: upd_rq_def fun_upd_twist)
    ultimately show ?thesis by simp
  qed
  have "runqsteal p p2 b s = Ret (Some (last hs), ?s3)"
  proof (cases "m = 1")
    case True
    have "upd_rq p (\<lambda>y. y\<lparr>rq_tail := rq_tail ?x\<rparr>) ?s2 = ?s2" using ne x(3) by (simp add: upd_rq_def same_rq_def fun_upd_idem fun_upd_twist)
    then show ?thesis using grab lst un(2) ne True by (simp add: runqsteal_def Let_def)
  next
    case False
    then have "of_nat (m - 1) \<noteq> (0 :: u32)" using m by (simp add: unat_eq_zero [symmetric] unat_of_nat del: unat_eq_zero of_nat_diff)
    moreover have "\<not> (256 :: u32) \<le> rq_tail ?x - rq_head ?x + of_nat (m - 1)"
      using rq_repD(4) [OF r] room m by (simp add: word_le_nat_alt unat_of_nat of_nat_add [symmetric] del: of_nat_add of_nat_diff)
    ultimately show ?thesis
      using grab lst un(2) ne x(3) by (simp add: runqsteal_def Let_def m1 same_rq_def)
  qed
  moreover have "a_steal p p2 b a = (Some (last hs), a_set p (loc a p @ butlast hs) (nxt a p) ?a2)"
    using nonmt by (simp add: a_steal_def Let_def m_def hs_def)
  ultimately show ?thesis using q3 by simp
qed

lemma runqsteal_spec:
  assumes q: "qrep k s a" and ne: "p \<noteq> p2"
    and room: "length (loc a p) + half (length (loc a p2)) \<le> 256" "length (loc a p) < 256"
  shows "case a_steal p p2 b a of (g, a') \<Rightarrow> \<exists>s'. runqsteal p p2 b s = Ret (g, s') \<and> qrep k s' a'"
  by (cases "loc a p2 = []") (rule runqsteal_next [OF q ne room(2)] runqsteal_half [OF q ne room(1)]; assumption)+

end
