(* ===== verification/Runq_System.thy ===== *)
theory Runq_System
  imports Runq_Spec
begin

text \<open>
  The scheduler's queues as a whole: batches, idle Ps, and programs of queue operations.  Every
  legal program runs without a throw, returns what the abstract queues return, and neither loses
  nor duplicates a goroutine.
\<close>

section \<open>Batches\<close>

text \<open>How callers build the queue that they hand to \<open>runqputbatch\<close>.\<close>

fun gq_build :: "gid list \<Rightarrow> gqueue \<Rightarrow> glinks \<Rightarrow> gqueue \<times> glinks" where
  "gq_build [] q sl = (q, sl)"
| "gq_build (g # gs) q sl = (let (q, sl) = gq_pushBack g q sl in gq_build gs q sl)"

lemma gq_build_spec:
  "gq_rep sl q hs \<Longrightarrow> distinct (hs @ gs) \<Longrightarrow>
    \<exists>q' sl'. gq_build gs q sl = (q', sl') \<and> gq_rep sl' q' (hs @ gs) \<and> (\<forall>x. x \<notin> set (hs @ gs) \<longrightarrow> sl' x = sl x)"
proof (induction gs arbitrary: q sl hs)
  case (Cons g gs)
  obtain q1 sl1 where 1: "gq_pushBack g q sl = (q1, sl1)" "gq_rep sl1 q1 (hs @ [g])" "\<forall>x. x \<notin> insert g (set hs) \<longrightarrow> sl1 x = sl x"
    using gq_pushBack_spec [OF Cons.prems(1), of g] Cons.prems(2) by auto
  have "distinct ((hs @ [g]) @ gs)" using Cons.prems(2) by simp
  from Cons.IH [OF 1(2) this] obtain q2 sl2 where "gq_build gs q1 sl1 = (q2, sl2)" "gq_rep sl2 q2 ((hs @ [g]) @ gs)"
    "\<forall>x. x \<notin> set ((hs @ [g]) @ gs) \<longrightarrow> sl2 x = sl1 x" by blast
  with 1(1,3) show ?case by auto
qed auto

lemma putbatch_loop_spec:
  assumes "gq_rep (schedlink s) q gs" "slots_rep (ps s p) xs" "h = rq_head (ps s p)" "length xs \<le> 256"
  shows "\<exists>q' x. putbatch_loop h (h + of_nat (length xs)) n q p s =
      (h + of_nat (length (xs @ take (256 - length xs) gs)), n + of_nat (length (take (256 - length xs) gs)), q', upd_rq p (\<lambda>_. x) s) \<and>
    gq_rep (schedlink s) q' (drop (256 - length xs) gs) \<and> slots_rep x (xs @ take (256 - length xs) gs) \<and> same_rq x (ps s p)"
  using assms
proof (induction gs arbitrary: q xs n s)
  case Nil
  have "s = upd_rq p (\<lambda>_. ps s p) s" "same_rq (ps s p) (ps s p)" by (simp_all add: upd_rq_def same_rq_def)
  moreover have "gq_empty q" using gq_empty_rep(1) [OF Nil(1)] by simp
  ultimately show ?case using Nil by (auto simp: putbatch_loop.simps intro!: exI [of _ "ps s p"])
next
  case (Cons g gs)
  show ?case
  proof (cases "length xs < 256")
    case False
    have "s = upd_rq p (\<lambda>_. ps s p) s" "same_rq (ps s p) (ps s p)" by (simp_all add: upd_rq_def same_rq_def)
    moreover have "length xs = 256" using False Cons.prems(4) by simp
    ultimately show ?thesis using Cons.prems by (auto simp: putbatch_loop.simps intro!: exI [of _ "ps s p"])
  next
    case True
    obtain q1 where q1: "gq_pop q (schedlink s) = (Some g, q1)" "gq_rep (schedlink s) q1 gs"
      using gq_pop_spec [OF Cons.prems(1)] by auto
    let ?s = "upd_rq p (put_slot (h + of_nat (length xs)) (Some g)) s"
    have r: "slots_rep (ps ?s p) (xs @ [g])" using slots_put [OF Cons.prems(2) True] Cons.prems(3) by simp
    have "gq_rep (schedlink ?s) q1 gs" "h = rq_head (ps ?s p)" "length (xs @ [g]) \<le> 256"
      using q1(2) Cons.prems(3) True by simp_all
    from Cons.IH [OF this(1) r this(2,3), of "n + 1"] obtain q' x where
      IH: "putbatch_loop h (h + of_nat (length (xs @ [g]))) (n + 1) q1 p ?s =
        (h + of_nat (length ((xs @ [g]) @ take (256 - length (xs @ [g])) gs)),
         n + 1 + of_nat (length (take (256 - length (xs @ [g])) gs)), q', upd_rq p (\<lambda>_. x) ?s)"
      "gq_rep (schedlink ?s) q' (drop (256 - length (xs @ [g])) gs)"
      "slots_rep x ((xs @ [g]) @ take (256 - length (xs @ [g])) gs)" "same_rq x (ps ?s p)" by blast
    have e: "256 - length xs = Suc (256 - length (xs @ [g]))" using True by simp
    have "\<not> gq_empty q" using gq_empty_rep(1) [OF Cons.prems(1)] by simp
    moreover have "h + of_nat (length xs) - h < 256" using True word32_of_nat_less [of "length xs"] by simp
    ultimately have "putbatch_loop h (h + of_nat (length xs)) n q p s = putbatch_loop h (h + of_nat (length (xs @ [g]))) (n + 1) q1 p ?s"
      by (subst putbatch_loop.simps) (simp add: q1(1) ac_simps)
    then show ?thesis using IH unfolding e by (auto simp: upd_rq_upd_rq same_rq_def ac_simps)
  qed
qed

definition a_putbatch :: "pid \<Rightarrow> gid list \<Rightarrow> aq \<Rightarrow> aq" where
  "a_putbatch p gs a =
     (let k = 256 - length (loc a p)
      in (a_set p (loc a p @ take k gs) (nxt a p) a)\<lparr>gl := gl a @ drop k gs\<rparr>)"

lemma runqputbatch_spec:
  assumes q: "qrep 0 s a" and b: "gq_rep sl q gs" and d: "set gs \<inter> set (gl a) = {}" and sl: "\<And>x. x \<notin> set gs \<Longrightarrow> sl x = schedlink s x"
    and n: "n = int (length gs)"
  shows "\<exists>q' s'. runqputbatch p q n (s\<lparr>schedlink := sl\<rparr>) = (q', s') \<and> qrep 0 s' (a_putbatch p gs a)"
proof -
  let ?s = "s\<lparr>schedlink := sl\<rparr>" and ?k = "256 - length (loc a p)"
  have q1: "qrep 0 ?s a"
    using q gq_rep_cong [OF qrepD(3) [OF q], of sl] sl d by (auto simp: qrep_def)
  note r = qrepD(1) [OF q1, of p]
  have t: "rq_tail (ps ?s p) = rq_head (ps ?s p) + of_nat (length (loc a p))" using r by (simp add: slots_rep_rq)
  have sr: "slots_rep (ps ?s p) (loc a p)" using r by (simp add: slots_rep_rq)
  have "gq_rep (schedlink ?s) q gs" using b by simp
  from putbatch_loop_spec [OF this sr refl rq_repD(2) [OF r], of 0] obtain q' x where
    x: "putbatch_loop (rq_head (ps ?s p)) (rq_tail (ps ?s p)) 0 q p ?s =
      (rq_head (ps ?s p) + of_nat (length (loc a p @ take ?k gs)), of_nat (length (take ?k gs)), q', upd_rq p (\<lambda>_. x) ?s)"
    "gq_rep sl q' (drop ?k gs)" "slots_rep x (loc a p @ take ?k gs)" "same_rq x (ps ?s p)"
    unfolding t [symmetric] by auto
  let ?a = "a_set p (loc a p @ take ?k gs) (nxt a p) a"
  define s2 where "s2 = upd_rq p (\<lambda>_. x\<lparr>rq_tail := rq_head (ps ?s p) + of_nat (length (loc a p @ take ?k gs))\<rparr>) ?s"
  have q2: "qrep 0 s2 ?a"
    unfolding s2_def by (rule qrep_upd [OF q1])
      (use x(3,4) qrepD(2) [OF q1, of p] in \<open>simp_all add: slots_rep_rq same_rq_def slots_rep_def get_slot_def\<close>)
  have un: "uint (of_nat (length (take ?k gs)) :: u32) = int (length (take ?k gs))"
    by (simp add: uint_nat unat_of_nat)
  have len: "n - int (length (take ?k gs)) = int (length (drop ?k gs))" using n by (auto simp: min_def)
  have run: "runqputbatch p q n ?s = (if \<not> gq_empty q' then globrunqputbatch q' (int (length (drop ?k gs))) s2 else (q', s2))"
    unfolding runqputbatch_def Let_def x(1) by (simp only: prod.case un len upd_rq_upd_rq s2_def)
  show ?thesis
  proof (cases "drop ?k gs = []")
    case True
    then have "a_putbatch p gs a = ?a" by (simp add: a_putbatch_def a_set_def)
    moreover have "gq_empty q'" using gq_empty_rep(1) [OF x(2)] True by simp
    ultimately show ?thesis using run q2 by simp
  next
    case False
    have "set (gl ?a) \<inter> set (drop ?k gs) = {}" using d set_drop_subset [of ?k gs] by auto
    moreover have "gq_rep (schedlink s2) (glob s2) (gl ?a)" by (rule qrepD(3) [OF q2])
    moreover have "gq_batch (schedlink s2) q' (drop ?k gs)" using gq_rep_batch [OF x(2)] by (simp add: s2_def)
    ultimately obtain s' where "globrunqputbatch q' (int (length (drop ?k gs))) (s2\<lparr>schedlink := schedlink s2\<rparr>) = (gq_nil, s')"
      "qrep 0 s' (?a\<lparr>gl := gl ?a @ drop ?k gs\<rparr>)"
      using globrunqputbatch_spec [OF q2] by blast
    moreover have "s2\<lparr>schedlink := schedlink s2\<rparr> = s2" by simp
    moreover have "\<not> gq_empty q'" using gq_empty_rep(1) [OF x(2)] False by simp
    ultimately show ?thesis unfolding run by (simp add: a_putbatch_def Let_def del: length_drop)
  qed
qed

section \<open>Idle Ps\<close>

lemma pidleput_spec:
  assumes q: "qrep k s a" and i: "p \<notin> set (idle a)" and e: "loc a p = []" "nxt a p = None"
  shows "\<exists>s'. pidleput p s = Ret s' \<and> qrep k s' (a\<lparr>idle := p # idle a\<rparr>)"
proof -
  let ?s = "upd_rq p (\<lambda>x. x\<lparr>rq_link := head_of (idle a) None\<rparr>) s"
  have "chained (\<lambda>p'. rq_link (ps ?s p')) (idle a) None"
    by (rule chained_cong [OF qrepD(6) [OF q]]) (use i in auto)
  moreover have "rq_link (ps ?s p) = head_of (idle a) None" using qrepD(7) [OF q] by simp
  moreover have "rq_rep (ps ?s p') (loc a p') \<and> rq_next (ps ?s p') = nxt a p'" for p'
    using qrepD(1,2) [OF q] by simp
  moreover have "pidleput p s = Ret (?s\<lparr>pidle := Some p, npidle := npidle s + 1\<rparr>)"
    using runqempty_spec [OF q, of p] e qrepD(7) [OF q] by (simp add: pidleput_def Let_def)
  ultimately show ?thesis using i qrepD(3-5,8,9) [OF q] unfolding qrep_def by simp
qed

lemma pidleget_spec:
  assumes q: "qrep k s a"
  shows "case idle a of [] \<Rightarrow> pidleget s = (None, s)
    | p # is \<Rightarrow> \<exists>s'. pidleget s = (Some p, s') \<and> qrep k s' (a\<lparr>idle := is\<rparr>)"
  using q by (cases "idle a") (auto simp: pidleget_def qrep_def)

lemma pidleput_throws:
  assumes "qrep k s a" "\<not> (loc a p = [] \<and> nxt a p = None)"
  shows "pidleput p s = Throw ''pidleput: P has non-empty run queue''"
  using assms runqempty_spec [OF assms(1), of p] by (simp add: pidleput_def)

section \<open>Conservation\<close>

lemma queued_a_put:
  assumes "p < procs a"
  shows "queued (a_put p g next a) = add_mset g (queued a)"
proof (cases "next")
  case True
  then show ?thesis
    using queued_put_next [OF assms, of g] assms by (auto simp: a_put_def queued_a_tail split: option.split)
next
  case False
  then show ?thesis by (simp add: a_put_def queued_a_tail [OF assms])
qed

lemma queued_a_get:
  assumes "p < procs a" "a_get p a = (g, i, a')"
  shows "queued a' + mopt g = queued a" "procs a' = procs a" "gmp a' = gmp a"
proof -
  have "queued a' + mopt g = queued a \<and> procs a' = procs a \<and> gmp a' = gmp a"
  proof (cases "nxt a p")
    case (Some x)
    then show ?thesis
      using assms(2) queued_a_set [OF assms(1), of "loc a p" None] by (auto simp: a_get_def on_p_def)
  next
    case None
    then show ?thesis
      using assms(2) queued_a_set [OF assms(1), of "tl (loc a p)" None]
      by (cases "loc a p") (auto simp: a_get_def on_p_def)
  qed
  then show "queued a' + mopt g = queued a" "procs a' = procs a" "gmp a' = gmp a" by simp_all
qed

lemma queued_a_fill: "p < procs a \<Longrightarrow> queued (a_fill p gs a) = queued a + mset gs"
  by (induction gs arbitrary: a) (simp_all add: queued_a_tail)

lemma a_fill_simps [simp]: "procs (a_fill p gs a) = procs a" "gmp (a_fill p gs a) = gmp a" "idle (a_fill p gs a) = idle a"
  by (induction gs arbitrary: a) simp_all

lemma queued_a_globget:
  assumes "p < procs a" "a_globget p lim a = (g, a')"
  shows "queued a' + mopt g = queued a" "procs a' = procs a" "gmp a' = gmp a"
proof -
  have "queued a' + mopt g = queued a \<and> procs a' = procs a \<and> gmp a' = gmp a"
  proof (cases "gl a")
    case Nil
    then show ?thesis using assms(2) by (auto simp: a_globget_def)
  next
    case (Cons h gs)
    define n where "n = a_count lim a - 1"
    have a': "g = Some h" "a' = a_fill p (take n gs) (a\<lparr>gl := drop n gs\<rparr>)"
      using assms(2) Cons by (auto simp: a_globget_def Let_def n_def)
    have "mset gs = mset (take n gs) + mset (drop n gs)" by (metis append_take_drop_id mset_append)
    then show ?thesis
      using queued_gl [where a = a and gs = "drop n gs"] Cons assms(1) by (simp add: a' queued_a_fill ac_simps)
  qed
  then show "queued a' + mopt g = queued a" "procs a' = procs a" "gmp a' = gmp a" by simp_all
qed

lemma queued_a_steal:
  assumes "p < procs a" "p2 < procs a" "p \<noteq> p2" "a_steal p p2 b a = (g, a')"
  shows "queued a' + mopt g = queued a" "procs a' = procs a" "gmp a' = gmp a"
proof -
  have "queued a' + mopt g = queued a \<and> procs a' = procs a \<and> gmp a' = gmp a"
  proof (cases "loc a p2 = []")
    case True
    then show ?thesis
      using assms(4) queued_a_set [OF assms(2), of "[]" None] by (auto simp: a_steal_def on_p_def ac_simps split: if_splits)
  next
    case False
    define n where "n = half (length (loc a p2))"
    define gs where "gs = take n (loc a p2)"
    let ?a = "a_set p2 (drop n (loc a p2)) (nxt a p2) a"
    have a': "g = Some (last gs)" "a' = a_set p (loc a p @ butlast gs) (nxt a p) ?a"
      using assms(4) False by (auto simp: a_steal_def Let_def n_def gs_def)
    have "0 < n" using False half_bounds(2) [of "length (loc a p2)"] by (simp add: n_def)
    then have "gs \<noteq> []" using False by (simp add: gs_def)
    then have m: "mset gs = add_mset (last gs) (mset (butlast gs))"
      by (metis append_butlast_last_id mset_append mset.simps union_mset_add_mset_right add_0_right)
    have "mset (loc a p2) = mset gs + mset (drop n (loc a p2))" by (metis append_take_drop_id gs_def mset_append)
    then have "queued ?a + mset gs = queued a"
      using queued_a_set [OF assms(2), of "drop n (loc a p2)" "nxt a p2"] by (simp add: on_p_def ac_simps)
    moreover have "queued a' = queued ?a + mset (butlast gs)"
      using queued_a_set [of p ?a "loc a p @ butlast gs" "nxt a p"] assms(1,3) by (simp add: a'(2) on_p_def ac_simps)
    ultimately show ?thesis using m by (simp add: a' ac_simps)
  qed
  then show "queued a' + mopt g = queued a" "procs a' = procs a" "gmp a' = gmp a" by simp_all
qed

lemma queued_a_putbatch:
  assumes "p < procs a"
  shows "queued (a_putbatch p gs a) = queued a + mset gs"
proof -
  let ?k = "256 - length (loc a p)"
  let ?a = "a_set p (loc a p @ take ?k gs) (nxt a p) a"
  have "mset gs = mset (take ?k gs) + mset (drop ?k gs)" by (metis append_take_drop_id mset_append)
  moreover have "queued ?a = queued a + mset (take ?k gs)"
    using queued_a_set [OF assms, of "loc a p @ take ?k gs" "nxt a p"] by (simp add: on_p_def ac_simps)
  ultimately show ?thesis
    using queued_gl [where a = ?a and gs = "gl a @ drop ?k gs"] by (simp add: a_putbatch_def Let_def ac_simps)
qed

lemma a_putbatch_simps [simp]: "procs (a_putbatch p gs a) = procs a" "gmp (a_putbatch p gs a) = gmp a"
  by (simp_all add: a_putbatch_def Let_def)

section \<open>Programs\<close>

datatype q_op =
    OPut pid gid bool | OGet pid | OGlobPut gid | OGlobPutHead gid | OGlobGet pid int
  | OSteal pid pid bool | OPutBatch pid "gid list" | OIdlePut pid | OIdleGet | OEmpty pid

datatype q_res = RUnit | RGet "gid option" bool | RG "gid option" | RP "pid option" | RBool bool

fun q_exec :: "q_op \<Rightarrow> sched \<Rightarrow> (sched \<times> q_res) outcome" where
  "q_exec (OPut p g b) s = obind (runqput p (Some g) b s) (\<lambda>s. Ret (s, RUnit))"
| "q_exec (OGet p) s = obind (runqget p s) (\<lambda>(g, i, s). Ret (s, RGet g i))"
| "q_exec (OGlobPut g) s = Ret (globrunqput g s, RUnit)"
| "q_exec (OGlobPutHead g) s = Ret (globrunqputhead g s, RUnit)"
| "q_exec (OGlobGet p lim) s = obind (globrunqget p lim s) (\<lambda>(g, s). Ret (s, RG g))"
| "q_exec (OSteal p p2 b) s = obind (runqsteal p p2 b s) (\<lambda>(g, s). Ret (s, RG g))"
| "q_exec (OPutBatch p gs) s =
     (let (q, sl) = gq_build gs gq_nil (schedlink s);
          (q, s) = runqputbatch p q (int (length gs)) (s\<lparr>schedlink := sl\<rparr>)
      in Ret (s, RUnit))"
| "q_exec (OIdlePut p) s = obind (pidleput p s) (\<lambda>s. Ret (s, RUnit))"
| "q_exec OIdleGet s = (let (p, s) = pidleget s in Ret (s, RP p))"
| "q_exec (OEmpty p) s = Ret (s, RBool (runqempty p s))"

fun a_op :: "q_op \<Rightarrow> aq \<Rightarrow> aq \<times> q_res" where
  "a_op (OPut p g b) a = (a_put p g b a, RUnit)"
| "a_op (OGet p) a = (let (g, i, a) = a_get p a in (a, RGet g i))"
| "a_op (OGlobPut g) a = (a\<lparr>gl := gl a @ [g]\<rparr>, RUnit)"
| "a_op (OGlobPutHead g) a = (a\<lparr>gl := g # gl a\<rparr>, RUnit)"
| "a_op (OGlobGet p lim) a = (let (g, a) = a_globget p lim a in (a, RG g))"
| "a_op (OSteal p p2 b) a = (let (g, a) = a_steal p p2 b a in (a, RG g))"
| "a_op (OPutBatch p gs) a = (a_putbatch p gs a, RUnit)"
| "a_op (OIdlePut p) a = (a\<lparr>idle := p # idle a\<rparr>, RUnit)"
| "a_op OIdleGet a = (case idle a of [] \<Rightarrow> (a, RP None) | p # is \<Rightarrow> (a\<lparr>idle := is\<rparr>, RP (Some p)))"
| "a_op (OEmpty p) a = (a, RBool (loc a p = [] \<and> nxt a p = None))"

text \<open>
  What callers ensure: Ps exist, a goroutine that is put is in no queue, a thief has room for
  what it steals (it steals when its own ring is empty), and only an empty P not yet idle is
  made idle.
\<close>

fun q_ok :: "q_op \<Rightarrow> aq \<Rightarrow> bool" where
  "q_ok (OPut p g b) a \<longleftrightarrow> p < procs a \<and> g \<notin># queued a"
| "q_ok (OGet p) a \<longleftrightarrow> p < procs a"
| "q_ok (OGlobPut g) a \<longleftrightarrow> g \<notin># queued a"
| "q_ok (OGlobPutHead g) a \<longleftrightarrow> g \<notin># queued a"
| "q_ok (OGlobGet p lim) a \<longleftrightarrow> p < procs a"
| "q_ok (OSteal p p2 b) a \<longleftrightarrow> p < procs a \<and> p2 < procs a \<and> p \<noteq> p2 \<and>
     length (loc a p) + half (length (loc a p2)) \<le> 256 \<and> length (loc a p) < 256"
| "q_ok (OPutBatch p gs) a \<longleftrightarrow> p < procs a \<and> distinct gs \<and> set gs \<inter> set_mset (queued a) = {}"
| "q_ok (OIdlePut p) a \<longleftrightarrow> p \<notin> set (idle a) \<and> loc a p = [] \<and> nxt a p = None"
| "q_ok OIdleGet a \<longleftrightarrow> True"
| "q_ok (OEmpty p) a \<longleftrightarrow> True"

definition qinv :: "sched \<Rightarrow> aq \<Rightarrow> bool" where
  "qinv s a \<longleftrightarrow> qrep 0 s a \<and> uniq (queued a) \<and> gmp a > 0"

text \<open>The goroutines an operation puts, and those it returns.\<close>

fun puts :: "q_op \<Rightarrow> gid multiset" where
  "puts (OPut p g b) = {#g#}"
| "puts (OGlobPut g) = {#g#}"
| "puts (OGlobPutHead g) = {#g#}"
| "puts (OPutBatch p gs) = mset gs"
| "puts op = {#}"

fun gets :: "q_res \<Rightarrow> gid multiset" where
  "gets (RGet g i) = mopt g"
| "gets (RG g) = mopt g"
| "gets r = {#}"

lemma a_op_conserves:
  assumes "q_ok op a" "a_op op a = (a', r)"
  shows "queued a' + gets r = queued a + puts op" "procs a' = procs a" "gmp a' = gmp a"
proof -
  have "queued a' + gets r = queued a + puts op \<and> procs a' = procs a \<and> gmp a' = gmp a"
  proof (cases op)
    case (OPut p g b)
    then show ?thesis using assms by (auto simp: queued_a_put) (auto simp: a_put_def split: option.splits)
  next
    case (OGet p)
    obtain x y b where "a_get p a = (x, y, b)" by (cases "a_get p a") blast
    with assms queued_a_get [OF _ this] show ?thesis by (auto simp: OGet)
  next
    case (OGlobGet p lim)
    obtain x b where "a_globget p lim a = (x, b)" by fastforce
    with assms queued_a_globget [OF _ this] show ?thesis by (auto simp: OGlobGet)
  next
    case (OSteal p p2 b)
    obtain x c where "a_steal p p2 b a = (x, c)" by fastforce
    with assms queued_a_steal [OF _ _ _ this] show ?thesis by (auto simp: OSteal)
  next
    case (OPutBatch p gs)
    then show ?thesis using assms by (auto simp: queued_a_putbatch)
  qed (use assms in \<open>auto simp: queued_def on_p_def split: list.splits\<close>)
  then show "queued a' + gets r = queued a + puts op" "procs a' = procs a" "gmp a' = gmp a" by simp_all
qed

lemma uniq_add: "uniq M \<Longrightarrow> g \<notin># M \<Longrightarrow> uniq (add_mset g M)"
  by (auto simp: uniq_def not_in_iff)

lemma uniq_union: "uniq M \<Longrightarrow> distinct gs \<Longrightarrow> set gs \<inter> set_mset M = {} \<Longrightarrow> uniq (M + mset gs)"
  by (induction gs arbitrary: M) (auto simp: uniq_add)

lemma a_op_uniq:
  assumes "q_ok op a" "uniq (queued a)" "a_op op a = (a', r)"
  shows "uniq (queued a')"
proof -
  have "uniq (queued a + puts op)"
    using assms(1,2) by (cases op) (auto simp: uniq_add uniq_union)
  then show ?thesis using a_op_conserves(1) [OF assms(1,3)] by (metis mset_subset_eq_add_left uniq_mono)
qed

lemma notin_gl: "g \<notin># queued a \<Longrightarrow> g \<notin> set (gl a)"
  by (auto simp: queued_def)

lemma q_exec_refines:
  assumes i: "qinv s a" and ok: "q_ok op a"
  shows "\<exists>s'. q_exec op s = Ret (s', snd (a_op op a)) \<and> qinv s' (fst (a_op op a))"
proof -
  have q: "qrep 0 s a" and u: "uniq (queued a)" and m: "gmp a > 0" using i by (simp_all add: qinv_def)
  have "\<exists>s'. q_exec op s = Ret (s', snd (a_op op a)) \<and> qrep 0 s' (fst (a_op op a))"
  proof (cases op)
    case (OPut p g b)
    then show ?thesis using runqput_spec [OF q, of p g b] ok u by (auto simp: uniq_add)
  next
    case (OGet p)
    then show ?thesis using runqget_spec [OF q, of p] by (auto split: prod.splits)
  next
    case (OGlobPut g)
    then show ?thesis using globrunqput_spec(1) [OF q notin_gl] ok by simp
  next
    case (OGlobPutHead g)
    then show ?thesis using globrunqput_spec(2) [OF q notin_gl] ok by simp
  next
    case (OGlobGet p lim)
    then show ?thesis using globrunqget_spec [OF q _ u m, of p lim] ok by (auto split: prod.splits)
  next
    case (OSteal p p2 b)
    then show ?thesis using runqsteal_spec [OF q, of p p2 b] ok by (auto split: prod.splits)
  next
    case (OPutBatch p gs)
    have "set gs \<inter> set (gl a) = {}" using ok notin_gl [of _ a] by (auto simp: OPutBatch)
    moreover obtain q1 sl where "gq_build gs gq_nil (schedlink s) = (q1, sl)" "gq_rep sl q1 gs" "\<forall>x. x \<notin> set gs \<longrightarrow> sl x = schedlink s x"
      using gq_build_spec [of "schedlink s" gq_nil "[]" gs] ok by (auto simp: OPutBatch)
    moreover from this(2) calculation(1) this(3) obtain q2 s2 where
      "runqputbatch p q1 (int (length gs)) (s\<lparr>schedlink := sl\<rparr>) = (q2, s2)" "qrep 0 s2 (a_putbatch p gs a)"
      using runqputbatch_spec [OF q, of sl q1 gs "int (length gs)" p] by auto
    ultimately show ?thesis by (simp add: OPutBatch)
  next
    case (OIdlePut p)
    then show ?thesis using pidleput_spec [OF q, of p] ok by auto
  next
    case OIdleGet
    then show ?thesis using pidleget_spec [OF q] q by (auto split: list.splits)
  next
    case (OEmpty p)
    then show ?thesis using runqempty_spec [OF q, of p] q by simp
  qed
  moreover obtain a' r where a': "a_op op a = (a', r)" by fastforce
  ultimately show ?thesis using a_op_uniq [OF ok u a'] a_op_conserves(3) [OF ok a'] m by (auto simp: qinv_def)
qed

fun q_execs :: "q_op list \<Rightarrow> sched \<Rightarrow> (sched \<times> q_res list) outcome" where
  "q_execs [] s = Ret (s, [])"
| "q_execs (op # ops) s = obind (q_exec op s) (\<lambda>(s, r). obind (q_execs ops s) (\<lambda>(s, rs). Ret (s, r # rs)))"

fun a_ops :: "q_op list \<Rightarrow> aq \<Rightarrow> aq \<times> q_res list" where
  "a_ops [] a = (a, [])"
| "a_ops (op # ops) a = (let (a, r) = a_op op a; (a, rs) = a_ops ops a in (a, r # rs))"

fun q_oks :: "q_op list \<Rightarrow> aq \<Rightarrow> bool" where
  "q_oks [] a \<longleftrightarrow> True"
| "q_oks (op # ops) a \<longleftrightarrow> q_ok op a \<and> q_oks ops (fst (a_op op a))"

definition sched_init :: "int \<Rightarrow> sched" where
  "sched_init m = \<lparr>schedlink = \<lambda>_. None, glob = gq_nil, runqsize = 0, gomaxprocs = m,
     ps = \<lambda>_. \<lparr>rq_head = 0, rq_tail = 0, rq_buf = replicate 256 None, rq_next = None, rq_link = None\<rparr>,
     pidle = None, npidle = 0\<rparr>"

definition aq_init :: "nat \<Rightarrow> int \<Rightarrow> aq" where
  "aq_init n m = \<lparr>loc = \<lambda>_. [], nxt = \<lambda>_. None, gl = [], idle = [], procs = n, gmp = m\<rparr>"

lemma init_qinv: "m > 0 \<Longrightarrow> qinv (sched_init m) (aq_init n m)"
  by (simp add: qinv_def qrep_def rq_rep_def sched_init_def aq_init_def queued_def on_p_def uniq_def)

lemma q_execs_refines:
  "qinv s a \<Longrightarrow> q_oks ops a \<Longrightarrow> \<exists>s'. q_execs ops s = Ret (s', snd (a_ops ops a)) \<and> qinv s' (fst (a_ops ops a))"
proof (induction ops arbitrary: s a)
  case (Cons op ops)
  obtain a1 r where a1: "a_op op a = (a1, r)" by fastforce
  obtain a2 rs where a2: "a_ops ops a1 = (a2, rs)" by fastforce
  obtain s1 where s1: "q_exec op s = Ret (s1, r)" "qinv s1 a1"
    using q_exec_refines [OF Cons.prems(1), of op] Cons.prems(2) a1 by auto
  obtain s2 where "q_execs ops s1 = Ret (s2, rs)" "qinv s2 a2"
    using Cons.IH [OF s1(2)] Cons.prems(2) a1 a2 by auto
  then show ?case using s1(1) a1 a2 by simp
qed simp

lemma a_ops_conserve:
  "q_oks ops a \<Longrightarrow> queued (fst (a_ops ops a)) + (\<Sum>r\<leftarrow>snd (a_ops ops a). gets r) = queued a + (\<Sum>op\<leftarrow>ops. puts op)"
proof (induction ops arbitrary: a)
  case (Cons op ops)
  obtain a1 r where a1: "a_op op a = (a1, r)" by fastforce
  have "queued a1 + gets r = queued a + puts op" using a_op_conserves(1) [OF _ a1] Cons.prems by simp
  moreover have "queued (fst (a_ops ops a1)) + (\<Sum>r\<leftarrow>snd (a_ops ops a1). gets r) = queued a1 + (\<Sum>op\<leftarrow>ops. puts op)"
    using Cons.IH [of a1] Cons.prems a1 by simp
  ultimately show ?case using a1 by (simp add: case_prod_beta ac_simps)
qed simp

text \<open>C15. Every legal program over the queues of the scheduler returns, with the results of the
  abstract machine: rings are sequences of at most 256 goroutines, whatever their indices are
  modulo 2 ^ 32; a put into a full ring moves half of it and the goroutine to the global queue;
  a thief takes half; \<open>globrunqget\<close> takes a fair share.  No throw is reached, and no goroutine is
  lost or duplicated: those returned and those still queued are those queued before and those put.\<close>

theorem runq_programs_refine:
  assumes "qinv s a" "q_oks ops a"
  shows "\<exists>s'. q_execs ops s = Ret (s', snd (a_ops ops a)) \<and> qinv s' (fst (a_ops ops a)) \<and>
    queued (fst (a_ops ops a)) + (\<Sum>r\<leftarrow>snd (a_ops ops a). gets r) = queued a + (\<Sum>op\<leftarrow>ops. puts op)"
  using q_execs_refines [OF assms] a_ops_conserve [OF assms(2)] by simp

theorem runq_programs_refine_witness:
  "\<exists>s. q_execs [OPut 0 7 False, OPut 0 8 True, OSteal 1 0 True, OGet 0] (sched_init 2) =
    Ret (s, [RUnit, RUnit, RG (Some 7), RGet (Some 8) True])"
proof -
  let ?ops = "[OPut 0 7 False, OPut 0 8 True, OSteal 1 0 True, OGet 0]"
  have "q_oks ?ops (aq_init 2 2)" "snd (a_ops ?ops (aq_init 2 2)) = [RUnit, RUnit, RG (Some 7), RGet (Some 8) True]"
    by (simp_all add: aq_init_def queued_def on_p_def a_put_def a_tail_def a_set_def a_steal_def a_get_def half_def lessThan_nat_numeral)
  with runq_programs_refine [OF init_qinv [of 2 2], of ?ops] show ?thesis by auto
qed

end
