(* ===== verification/Runq_Conc.thy ===== *)
theory Runq_Conc
  imports Runq_Spec
begin

text \<open>
  The ring of one P under interference.  The owner puts and gets, any number of other threads
  steal; each atomic load, store and compare-and-swap of \<open>runqput\<close>, \<open>runqputslow\<close>, \<open>runqget\<close> and
  \<open>runqgrab\<close>, and each read of a slot, is a step of its own, and the steps interleave in any order.

  A thief copies what it steals into slots of its own ring that it has not published, so the copy
  is local to it.  What a step reads from the head and later compares against it may be stale;
  indices wrap around modulo 2 ^ 32, so a thread that sleeps while 2 ^ 32 goroutines pass through
  the ring could mistake the new head for the old one.  The runs considered are those where no
  thief is that late.
\<close>

section \<open>State\<close>

text \<open>
  Besides the words in memory, ghost logs: all goroutines published in the ring and all taken out
  of it, in order, and all handed out (by \<open>runqget\<close>, to a thief, or to the global queue).
\<close>

record ring =
  c_head :: u32
  c_tail :: u32
  c_buf :: "gid option list"
  c_next :: "gid option"
  g_in :: "gid list"
  g_out :: "gid option list"
  g_taken :: "gid option list"

text \<open>
  Where the owner is, and where a thief is.  \<open>h\<close> is a head that was read, \<open>k\<close> the number of
  goroutines that had left the ring then (ghost).
\<close>

datatype owner =
    Idle
  | PutNext gid | PutCas gid "gid option"
  | PutLoad gid | PutChk gid u32 nat | PutPub gid
  | SlowCopy gid u32 nat "gid option list"
  | GetNext | GetCas gid | GetLoad | GetChk u32 nat | GetHead u32 nat "gid option"
  | Dead

datatype thief =
    TIdle | TTail u32 nat | TNext | TSteal gid | TCopy u32 nat u32 "gid option list"

definition slots :: "ring \<Rightarrow> u32 \<Rightarrow> gid option" where
  "slots m t = c_buf m ! slot t"

definition consume :: "u32 \<Rightarrow> gid option list \<Rightarrow> gid option list \<Rightarrow> ring \<Rightarrow> ring" where
  "consume new gs out m = m\<lparr>c_head := new, g_out := g_out m @ gs, g_taken := g_taken m @ out\<rparr>"

text \<open>The steps of \<open>runqget\<close>, and of the owner: also those of \<open>runqput\<close> and \<open>runqputslow\<close>.\<close>

fun oget :: "owner \<Rightarrow> ring \<Rightarrow> owner \<times> ring" where
  "oget GetNext m = (case c_next m of None \<Rightarrow> GetLoad | Some g \<Rightarrow> GetCas g, m)"
| "oget (GetCas g) m =
     (if c_next m = Some g then (Idle, m\<lparr>c_next := None, g_taken := g_taken m @ [Some g]\<rparr>) else (GetNext, m))"
| "oget GetLoad m = (GetChk (c_head m) (length (g_out m)), m)"
| "oget (GetChk h k) m = (if c_tail m = h then Idle else GetHead h k (slots m h), m)"
| "oget (GetHead h k gp) m =
     (if c_head m = h then (Idle, consume (h + 1) [gp] [gp] m) else (GetLoad, m))"
| "oget x m = (x, m)"

fun ostep :: "owner \<Rightarrow> ring \<Rightarrow> owner \<times> ring" where
  "ostep Idle m = (Idle, m)"
| "ostep (PutNext gp) m = (PutCas gp (c_next m), m)"
| "ostep (PutCas gp old) m =
     (if c_next m = old then (case old of None \<Rightarrow> Idle | Some g \<Rightarrow> PutLoad g, m\<lparr>c_next := Some gp\<rparr>)
      else (PutNext gp, m))"
| "ostep (PutLoad gp) m = (PutChk gp (c_head m) (length (g_out m)), m)"
| "ostep (PutChk gp h k) m =
     (let t = c_tail m in
      if t - h < 256 then (PutPub gp, m\<lparr>c_buf := (c_buf m)[slot t := Some gp]\<rparr>)
      else if (t - h) div 2 \<noteq> 128 then (Dead, m)
      else (SlowCopy gp h k [], m))"
| "ostep (PutPub gp) m = (Idle, m\<lparr>c_tail := c_tail m + 1, g_in := g_in m @ [gp]\<rparr>)"
| "ostep (SlowCopy gp h k batch) m =
     (if length batch < 128 then (SlowCopy gp h k (batch @ [slots m (h + of_nat (length batch))]), m)
      else if c_head m = h then (Idle, consume (h + 128) batch (batch @ [Some gp]) m)
      else (PutLoad gp, m))"
| "ostep GetNext m = oget GetNext m"
| "ostep (GetCas g) m = oget (GetCas g) m"
| "ostep GetLoad m = oget GetLoad m"
| "ostep (GetChk h k) m = oget (GetChk h k) m"
| "ostep (GetHead h k gp) m = oget (GetHead h k gp) m"
| "ostep Dead m = (Dead, m)"

text \<open>The steps of \<open>runqgrab\<close>; a retry starts again.\<close>

fun tstep :: "bool \<Rightarrow> thief \<Rightarrow> ring \<Rightarrow> thief \<times> ring" where
  "tstep steal TIdle m = (TTail (c_head m) (length (g_out m)), m)"
| "tstep steal (TTail h k) m =
     (let n = c_tail m - h; n = n - n div 2 in
      (if n = 0 then if steal then TNext else TIdle
       else if n > 128 then TIdle
       else TCopy h k n [], m))"
| "tstep steal TNext m = (case c_next m of None \<Rightarrow> TIdle | Some g \<Rightarrow> TSteal g, m)"
| "tstep steal (TSteal g) m =
     (TIdle, if c_next m = Some g then m\<lparr>c_next := None, g_taken := g_taken m @ [Some g]\<rparr> else m)"
| "tstep steal (TCopy h k n batch) m =
     (if length batch < unat n then (TCopy h k n (batch @ [slots m (h + of_nat (length batch))]), m)
      else (TIdle, if c_head m = h then consume (h + n) batch batch m else m))"

record cstate =
  own :: owner
  th :: "nat \<Rightarrow> thief"
  mem :: ring
  readied :: "gid list"

datatype event = EPut gid bool | EGet | EOwner | EThief nat bool

fun enabled :: "event \<Rightarrow> cstate \<Rightarrow> bool" where
  "enabled (EPut g b) s \<longleftrightarrow> own s = Idle"
| "enabled EGet s \<longleftrightarrow> own s = Idle"
| "enabled EOwner s \<longleftrightarrow> own s \<noteq> Idle"
| "enabled (EThief i b) s \<longleftrightarrow> True"

fun occur :: "event \<Rightarrow> cstate \<Rightarrow> cstate" where
  "occur (EPut g b) s = s\<lparr>own := (if b then PutNext g else PutLoad g), readied := readied s @ [g]\<rparr>"
| "occur EGet s = s\<lparr>own := GetNext\<rparr>"
| "occur EOwner s = (let (o', m) = ostep (own s) (mem s) in s\<lparr>own := o', mem := m\<rparr>)"
| "occur (EThief i b) s = (let (t, m) = tstep b (th s i) (mem s) in s\<lparr>th := (th s)(i := t), mem := m\<rparr>)"

definition conc_init :: cstate where
  "conc_init = \<lparr>own = Idle, th = \<lambda>_. TIdle,
     mem = \<lparr>c_head = 0, c_tail = 0, c_buf = replicate 256 None, c_next = None, g_in = [], g_out = [], g_taken = []\<rparr>,
     readied = []\<rparr>"

text \<open>No thief holds a head from more than 2 ^ 32 goroutines ago.\<close>

fun view_ok :: "ring \<Rightarrow> thief \<Rightarrow> bool" where
  "view_ok m (TTail h k) \<longleftrightarrow> length (g_out m) - k < 2 ^ 32"
| "view_ok m (TCopy h k n batch) \<longleftrightarrow> length (g_out m) - k < 2 ^ 32"
| "view_ok m t \<longleftrightarrow> True"

inductive conc_reach :: "cstate \<Rightarrow> bool" where
  conc_start: "conc_reach conc_init"
| conc_step: "conc_reach s \<Longrightarrow> enabled e s \<Longrightarrow> \<forall>i. view_ok (mem (occur e s)) (th (occur e s) i) \<Longrightarrow> conc_reach (occur e s)"

section \<open>Invariant\<close>

definition minv :: "ring \<Rightarrow> bool" where
  "minv m \<longleftrightarrow>
     (let H = length (g_out m); T = length (g_in m) in
      c_head m = of_nat H \<and> c_tail m = of_nat T \<and> H \<le> T \<and> T \<le> H + 256 \<and> length (c_buf m) = 256 \<and>
      (\<forall>k. H \<le> k \<longrightarrow> k < T \<longrightarrow> slots m (of_nat k) = Some (g_in m ! k)) \<and> g_out m = map Some (take H (g_in m)))"

text \<open>A batch read since the head was \<open>k\<close> is what the ring holds there, if the head is still \<open>k\<close>.\<close>

definition batch_ok :: "ring \<Rightarrow> nat \<Rightarrow> gid option list \<Rightarrow> bool" where
  "batch_ok m k batch \<longleftrightarrow>
     (length (g_out m) = k \<longrightarrow>
       k + length batch \<le> length (g_in m) \<and> batch = map Some (take (length batch) (drop k (g_in m))))"

fun own_ok :: "ring \<Rightarrow> owner \<Rightarrow> bool" where
  "own_ok m (PutChk gp h k) \<longleftrightarrow> h = of_nat k \<and> k \<le> length (g_out m) \<and> length (g_in m) \<le> k + 256"
| "own_ok m (PutPub gp) \<longleftrightarrow> length (g_in m) < length (g_out m) + 256 \<and> slots m (c_tail m) = Some gp"
| "own_ok m (SlowCopy gp h k batch) \<longleftrightarrow>
     h = of_nat k \<and> k \<le> length (g_out m) \<and> length (g_in m) = k + 256 \<and> length batch \<le> 128 \<and> batch_ok m k batch"
| "own_ok m (GetChk h k) \<longleftrightarrow> h = of_nat k \<and> k \<le> length (g_out m) \<and> length (g_in m) \<le> k + 256"
| "own_ok m (GetHead h k gp) \<longleftrightarrow>
     h = of_nat k \<and> k \<le> length (g_out m) \<and> length (g_in m) \<le> k + 256 \<and> batch_ok m k [gp]"
| "own_ok m Dead \<longleftrightarrow> False"
| "own_ok m x \<longleftrightarrow> True"

fun th_ok :: "ring \<Rightarrow> thief \<Rightarrow> bool" where
  "th_ok m (TTail h k) \<longleftrightarrow> h = of_nat k \<and> k \<le> length (g_out m)"
| "th_ok m (TCopy h k n batch) \<longleftrightarrow>
     h = of_nat k \<and> k \<le> length (g_out m) \<and> length batch \<le> unat n \<and> n \<le> 128 \<and>
     (length (g_out m) = k \<longrightarrow> k + unat n \<le> length (g_in m)) \<and> batch_ok m k batch"
| "th_ok m t \<longleftrightarrow> True"

text \<open>The goroutine in the hands of the owner.\<close>

fun hand :: "owner \<Rightarrow> gid option multiset" where
  "hand (PutNext gp) = {#Some gp#}"
| "hand (PutCas gp old) = {#Some gp#}"
| "hand (PutLoad gp) = {#Some gp#}"
| "hand (PutChk gp h k) = {#Some gp#}"
| "hand (PutPub gp) = {#Some gp#}"
| "hand (SlowCopy gp h k batch) = {#Some gp#}"
| "hand x = {#}"

definition live :: "ring \<Rightarrow> gid list" where
  "live m = drop (length (g_out m)) (g_in m)"

definition held :: "ring \<Rightarrow> gid option multiset" where
  "held m = mset (g_taken m) + mset (map Some (live m)) + image_mset Some (mopt (c_next m))"

definition cinv :: "cstate \<Rightarrow> bool" where
  "cinv s \<longleftrightarrow>
     minv (mem s) \<and> own_ok (mem s) (own s) \<and> (\<forall>i. th_ok (mem s) (th s i)) \<and>
     mset (map Some (readied s)) = held (mem s) + hand (own s)"

lemma slot_of_nat: "slot (of_nat k) = k mod 256"
  using slot_add [of 0 k] by simp

lemma slots_write:
  assumes "length (c_buf m) = 256"
  shows "slots (m\<lparr>c_buf := (c_buf m)[slot t := g]\<rparr>) u = (if slot u = slot t then g else slots m u)"
  using assms by (simp add: slots_def nth_list_update)

lemma slots_cong [simp]:
  "slots (m\<lparr>c_tail := t\<rparr>) u = slots m u" "slots (m\<lparr>c_next := n\<rparr>) u = slots m u" "slots (m\<lparr>g_in := gs\<rparr>) u = slots m u"
  "slots (m\<lparr>g_taken := gs2\<rparr>) u = slots m u" "slots (consume h b out m) u = slots m u"
  by (simp_all add: slots_def consume_def)

lemma minvD:
  assumes "minv m"
  shows "c_head m = of_nat (length (g_out m))" "c_tail m = of_nat (length (g_in m))" "length (g_out m) \<le> length (g_in m)"
    "length (g_in m) \<le> length (g_out m) + 256" "length (c_buf m) = 256"
    "length (g_out m) \<le> k \<Longrightarrow> k < length (g_in m) \<Longrightarrow> slots m (of_nat k) = Some (g_in m ! k)"
    "g_out m = map Some (take (length (g_out m)) (g_in m))"
  using assms by (simp_all add: minv_def Let_def)

lemma word_sub_nat: "k \<le> t \<Longrightarrow> t \<le> k + 256 \<Longrightarrow> (of_nat t :: u32) - of_nat k = of_nat (t - k)"
  by (simp add: of_nat_diff)

text \<open>A head that is the same word is the same head.\<close>

lemma same_head:
  assumes "(of_nat n :: u32) = of_nat k" "k \<le> n" "n - k < 2 ^ 32"
  shows "n = k"
proof -
  have "(of_nat (n - k) :: u32) = 0" using assms(1,2) by (simp add: of_nat_diff)
  then have "unat (of_nat (n - k) :: u32) = 0" by simp
  then have "n - k = 0" using assms(3) by (simp add: unat_of_nat)
  then show ?thesis using assms(2) by simp
qed

lemma batch_ok_Nil [simp]: "minv m \<Longrightarrow> batch_ok m k []"
  using minvD(3) by (auto simp: batch_ok_def)

lemma batch_ok_grow:
  assumes i: "minv m" and b: "batch_ok m k batch" and l: "length (g_out m) = k \<Longrightarrow> k + length batch < length (g_in m)"
  shows "batch_ok m k (batch @ [slots m (of_nat k + of_nat (length batch))])"
  unfolding batch_ok_def
proof (intro impI conjI)
  assume k: "length (g_out m) = k"
  note l = l [OF k]
  show "k + length (batch @ [slots m (of_nat k + of_nat (length batch))]) \<le> length (g_in m)" using l by simp
  have "slots m (of_nat (k + length batch)) = Some (g_in m ! (k + length batch))"
    by (rule minvD(6) [OF i]) (use k l in simp_all)
  moreover have "take (Suc (length batch)) (drop k (g_in m)) = take (length batch) (drop k (g_in m)) @ [g_in m ! (k + length batch)]"
    using l take_Suc_conv_app_nth [of "length batch" "drop k (g_in m)"] by simp
  ultimately show "batch @ [slots m (of_nat k + of_nat (length batch))] =
      map Some (take (length (batch @ [slots m (of_nat k + of_nat (length batch))])) (drop k (g_in m)))"
    using b k by (simp add: batch_ok_def)
qed

lemma batch_ok_mono:
  assumes "batch_ok m k batch" "k \<le> length (g_out m)" "length (g_out m) \<le> length (g_out m')" "g_in m' = g_in m @ ys"
  shows "batch_ok m' k batch"
  using assms by (auto simp: batch_ok_def)

lemma th_ok_mono:
  assumes "th_ok m t" "length (g_out m) \<le> length (g_out m')" "g_in m' = g_in m @ ys"
  shows "th_ok m' t"
proof (cases t)
  case (TCopy h k n batch)
  have "batch_ok m' k batch" by (rule batch_ok_mono [OF _ _ assms(2,3)]) (use assms(1) TCopy in simp_all)
  then show ?thesis using assms TCopy by auto
qed (use assms in auto)

lemma own_ok_mono:
  assumes "own_ok m x" "length (g_out m) \<le> length (g_out m')" "g_in m' = g_in m" "c_buf m' = c_buf m" "c_tail m' = c_tail m"
  shows "own_ok m' x"
proof (cases x)
  case (SlowCopy gp h k batch)
  have "batch_ok m' k batch" by (rule batch_ok_mono [OF _ _ assms(2), of _ _ "[]"]) (use assms SlowCopy in simp_all)
  then show ?thesis using assms SlowCopy by auto
next
  case (GetHead h k gp)
  have "batch_ok m' k [gp]" by (rule batch_ok_mono [OF _ _ assms(2), of _ _ "[]"]) (use assms GetHead in simp_all)
  then show ?thesis using assms GetHead by auto
qed (use assms in \<open>auto simp: slots_def\<close>)

section \<open>Taking from the ring\<close>

lemma consume_simps [simp]:
  "c_head (consume h b out m) = h" "c_tail (consume h b out m) = c_tail m" "c_buf (consume h b out m) = c_buf m"
  "c_next (consume h b out m) = c_next m" "g_in (consume h b out m) = g_in m" "g_out (consume h b out m) = g_out m @ b"
  "g_taken (consume h b out m) = g_taken m @ out"
  by (simp_all add: consume_def)

lemma consume_minv:
  assumes i: "minv m" and b: "batch_ok m (length (g_out m)) b" and h: "h = c_head m + of_nat (length b)"
  shows "minv (consume h b out m)"
proof -
  let ?H = "length (g_out m)"
  have l: "?H + length b \<le> length (g_in m)" and e: "b = map Some (take (length b) (drop ?H (g_in m)))"
    using b by (auto simp: batch_ok_def)
  have "g_out m @ b = map Some (take ?H (g_in m)) @ map Some (take (length b) (drop ?H (g_in m)))"
    using minvD(7) [OF i] e by (rule arg_cong2)
  also have "\<dots> = map Some (take (?H + length b) (g_in m))" by (simp add: take_add)
  finally have "g_out m @ b = map Some (take (?H + length b) (g_in m))" .
  then show ?thesis
    using minvD(1-6) [OF i] l h unfolding minv_def Let_def consume_simps length_append by simp
qed

lemma held_consume:
  assumes i: "minv m" and b: "batch_ok m (length (g_out m)) b"
  shows "held (consume h b out m) + mset b = held m + mset out"
proof -
  have "b = map Some (take (length b) (live m))" using b by (simp add: batch_ok_def live_def)
  moreover have "live (consume h b out m) = drop (length b) (live m)" by (simp add: live_def add.commute)
  ultimately have "mset (map Some (live (consume h b out m))) + mset b = mset (map Some (live m))"
    by (metis append_take_drop_id map_append mset_append union_commute)
  then show ?thesis by (simp add: held_def ac_simps)
qed

section \<open>Steps keep the invariant\<close>

lemma held_next:
  assumes "c_next m = Some g"
  shows "held (m\<lparr>c_next := None, g_taken := g_taken m @ [Some g]\<rparr>) = held m"
  using assms by (simp add: held_def live_def)

lemma minv_other [simp]:
  "minv (m\<lparr>c_next := n\<rparr>) \<longleftrightarrow> minv m" "minv (m\<lparr>c_next := n, g_taken := gs\<rparr>) \<longleftrightarrow> minv m"
  by (simp_all add: minv_def)

lemma tstep_inv:
  assumes i: "minv m" and t: "th_ok m t" and v: "view_ok m t" and s: "tstep b t m = (t', m')"
  shows "minv m' \<and> th_ok m' t' \<and> length (g_out m) \<le> length (g_out m') \<and> g_in m' = g_in m \<and> c_buf m' = c_buf m \<and>
    c_tail m' = c_tail m \<and> held m' = held m"
proof (cases t)
  case TIdle
  then show ?thesis using s i by (auto simp: minvD(1))
next
  case (TTail h k)
  let ?n = "c_tail m - h"
  have m': "m' = m" using s TTail by (auto simp: Let_def)
  show ?thesis
  proof (cases "?n - ?n div 2 = 0 \<or> 128 < ?n - ?n div 2")
    case True
    then have "th_ok m t'" using s TTail by (auto simp: Let_def split: if_splits)
    then show ?thesis using m' i by simp
  next
    case False
    then have t': "t' = TCopy h k (?n - ?n div 2) []" using s TTail by (auto simp: Let_def)
    have "k + unat (?n - ?n div 2) \<le> length (g_in m)" if "length (g_out m) = k"
    proof -
      have h: "h = of_nat k" using t TTail by simp
      have "?n = of_nat (length (g_in m) - k)"
        unfolding minvD(2) [OF i] h by (rule word_sub_nat) (use minvD(3,4) [OF i] that in simp_all)
      moreover define d where "d = length (g_in m) - k"
      moreover have d: "d \<le> 256" "k + d = length (g_in m)" using minvD(3,4) [OF i] that by (simp_all add: d_def)
      ultimately have "?n - ?n div 2 = of_nat (half d)" using word_half [of d] by simp
      then have "unat (?n - ?n div 2) = half d" using half_bounds(1) [OF d(1)] by (simp add: unat_of_nat)
      then show ?thesis using half_bounds(3) [of d] d(2) by simp
    qed
    then show ?thesis using m' i t' t TTail False by (auto simp: not_less)
  qed
next
  case TNext
  then show ?thesis using s i by (auto split: option.splits)
next
  case (TSteal g)
  then show ?thesis using s i held_next [of m g] by auto
next
  case (TCopy h k n batch)
  note ok = t [unfolded TCopy, simplified]
  show ?thesis
  proof (cases "length batch < unat n")
    case True
    have "batch_ok m k (batch @ [slots m (of_nat k + of_nat (length batch))])"
      by (rule batch_ok_grow [OF i]) (use ok True in auto)
    then show ?thesis using s TCopy True i ok by auto
  next
    case False
    show ?thesis
    proof (cases "c_head m = h")
      case True
      have k: "length (g_out m) = k"
        by (rule same_head) (use ok True v TCopy minvD(1) [OF i] in auto)
      have "unat n \<le> 128" using ok by (simp add: word_le_nat_alt)
      then have l: "n = of_nat (length batch)" using False ok by (simp add: word_unat_eq_iff unat_of_nat)
      have m': "t' = TIdle" "m' = consume (h + n) batch batch m" using s TCopy False True by auto
      have bk: "batch_ok m (length (g_out m)) batch" using ok k by simp
      have "minv m'" unfolding m' by (rule consume_minv [OF i bk]) (simp add: True l)
      moreover have "held m' = held m" using held_consume [OF i bk, of "h + n" batch] by (simp add: m')
      ultimately show ?thesis by (simp add: m')
    next
      case h: False
      then show ?thesis using s TCopy False i by simp
    qed
  qed
qed

lemma publish_minv:
  assumes i: "minv m" and l: "length (g_in m) < length (g_out m) + 256" and g: "slots m (c_tail m) = Some gp"
  shows "minv (m\<lparr>c_tail := c_tail m + 1, g_in := g_in m @ [gp]\<rparr>)"
proof -
  let ?m = "m\<lparr>c_tail := c_tail m + 1, g_in := g_in m @ [gp]\<rparr>" and ?T = "length (g_in m)"
  have sl: "slots ?m u = slots m u" for u by (simp add: slots_def)
  have "slots ?m (of_nat k) = Some ((g_in m @ [gp]) ! k)" if "length (g_out m) \<le> k" "k < Suc ?T" for k
  proof (cases "k = ?T")
    case True
    then show ?thesis using g minvD(2) [OF i] unfolding sl by simp
  next
    case False
    then show ?thesis using that minvD(6) [OF i that(1)] unfolding sl by (simp add: nth_append)
  qed
  moreover have "g_out m = map Some (take (length (g_out m)) (g_in m @ [gp]))"
    using minvD(7) [OF i] minvD(3) [OF i] by simp
  ultimately show ?thesis using minvD(1-5) [OF i] l unfolding minv_def Let_def by simp
qed

lemma write_minv:
  assumes i: "minv m" and l: "length (g_in m) < length (g_out m) + 256"
  shows "minv (m\<lparr>c_buf := (c_buf m)[slot (c_tail m) := g]\<rparr>)"
proof -
  let ?m = "m\<lparr>c_buf := (c_buf m)[slot (c_tail m) := g]\<rparr>" and ?T = "length (g_in m)"
  have "slots ?m (of_nat k) = Some (g_in m ! k)" if k: "length (g_out m) \<le> k" "k < ?T" for k
  proof -
    have "slot (of_nat ?T) \<noteq> slot (of_nat k)"
      using slot_inj [of ?T k 0] k l by simp
    then show ?thesis using minvD(6) [OF i k] by (simp add: slots_write [OF minvD(5) [OF i]] minvD(2) [OF i])
  qed
  then show ?thesis using minvD(1-5,7) [OF i] unfolding minv_def Let_def by simp
qed

lemma ostep_inv:
  assumes i: "minv m" and t: "own_ok m x" and s: "ostep x m = (x', m')"
  shows "minv m' \<and> own_ok m' x' \<and> length (g_out m) \<le> length (g_out m') \<and> (\<exists>ys. g_in m' = g_in m @ ys) \<and>
    held m' + hand x' = held m + hand x"
proof (cases x)
  case Idle
  then show ?thesis using s i by simp
next
  case (PutNext gp)
  then show ?thesis using s i by auto
next
  case (PutCas gp old)
  then show ?thesis using s i by (auto simp: held_def live_def split: if_splits option.splits)
next
  case (PutLoad gp)
  then show ?thesis using s i minvD(1,4) [OF i] by auto
next
  case (PutChk gp h k)
  let ?d = "length (g_in m) - k"
  have d: "c_tail m - h = of_nat ?d" "?d \<le> 256" "k \<le> length (g_in m)"
    using t PutChk minvD(2,3) [OF i] by (simp_all add: word_sub_nat le_diff_conv add.commute del: of_nat_diff)
  show ?thesis
  proof (cases "?d < 256")
    case True
    then have w: "c_tail m - h < 256" using d(1,2) word32_of_nat_less [of ?d] by simp
    let ?m = "m\<lparr>c_buf := (c_buf m)[slot (c_tail m) := Some gp]\<rparr>"
    have e: "x' = PutPub gp" "m' = ?m" using s PutChk w by (simp_all add: Let_def)
    have l: "length (g_in m) < length (g_out m) + 256" using True t PutChk by auto
    have "minv ?m" by (rule write_minv [OF i l])
    moreover have "held ?m = held m" by (simp add: held_def live_def)
    ultimately show ?thesis using l PutChk by (simp add: e slots_write [OF minvD(5) [OF i]])
  next
    case False
    then have w: "c_tail m - h = 256" using d(1,2) by simp
    then have "x' = SlowCopy gp h k []" "m' = m" using s PutChk by (simp_all add: Let_def)
    then show ?thesis using t PutChk i False d(2,3) by simp
  qed
next
  case (PutPub gp)
  then have e: "x' = Idle" "m' = m\<lparr>c_tail := c_tail m + 1, g_in := g_in m @ [gp]\<rparr>" using s by simp_all
  have "minv m'" unfolding e by (rule publish_minv [OF i]) (use t PutPub in simp_all)
  moreover have "live m' = live m @ [gp]" using minvD(3) [OF i] by (simp add: e live_def)
  then have "held m' + hand x' = held m + hand x" using PutPub by (simp add: e held_def)
  ultimately show ?thesis by (simp add: e)
next
  case (SlowCopy gp h k batch)
  note ok = t [unfolded SlowCopy, simplified]
  show ?thesis
  proof (cases "length batch < 128")
    case True
    have "batch_ok m k (batch @ [slots m (of_nat k + of_nat (length batch))])"
      by (rule batch_ok_grow [OF i]) (use ok True in auto)
    then show ?thesis using s SlowCopy True i ok by auto
  next
    case False
    show ?thesis
    proof (cases "c_head m = h")
      case True
      have k: "length (g_out m) = k"
        by (rule same_head) (use ok True minvD(1,3) [OF i] in auto)
      have l: "length batch = 128" using False ok by simp
      have e: "x' = Idle" "m' = consume (h + 128) batch (batch @ [Some gp]) m" using s SlowCopy False True by auto
      have bk: "batch_ok m (length (g_out m)) batch" using ok k by simp
      have "minv m'" unfolding e by (rule consume_minv [OF i bk]) (simp add: True l)
      moreover have "held m' + hand x' = held m + hand x"
        using held_consume [OF i bk, of "h + 128" "batch @ [Some gp]"] SlowCopy by (simp add: e)
      ultimately show ?thesis by (simp add: e)
    next
      case h: False
      then show ?thesis using s SlowCopy False i by auto
    qed
  qed
next
  case GetNext
  then show ?thesis using s i by (auto split: option.splits)
next
  case (GetCas g)
  then show ?thesis using s i held_next [of m g] by (auto split: if_splits)
next
  case GetLoad
  then show ?thesis using s i minvD(1,4) [OF i] by auto
next
  case (GetChk h k)
  note ok = t [unfolded GetChk, simplified]
  show ?thesis
  proof (cases "c_tail m = h")
    case True
    then show ?thesis using s GetChk i by simp
  next
    case False
    then have ne: "length (g_in m) \<noteq> k" using minvD(2) [OF i] ok by auto
    have "k < length (g_in m)" if "length (g_out m) = k" using minvD(3) [OF i] ne that by simp
    then have "batch_ok m k ([] @ [slots m (of_nat k + of_nat (length ([] :: gid option list)))])"
      by (intro batch_ok_grow [OF i batch_ok_Nil [OF i]]) simp
    then have "batch_ok m k [slots m h]" using ok by simp
    moreover have "x' = GetHead h k (slots m h)" "m' = m" using s GetChk False by auto
    ultimately show ?thesis using i ok GetChk by simp
  qed
next
  case (GetHead h k gp)
  note ok = t [unfolded GetHead, simplified]
  show ?thesis
  proof (cases "c_head m = h")
    case True
    have k: "length (g_out m) = k"
      by (rule same_head) (use ok True minvD(1,3) [OF i] in auto)
    have e: "x' = Idle" "m' = consume (h + 1) [gp] [gp] m" using s GetHead True by auto
    have bk: "batch_ok m (length (g_out m)) [gp]" using ok k by simp
    have "minv m'" unfolding e by (rule consume_minv [OF i bk]) (simp add: True)
    moreover have "held m' = held m" using held_consume [OF i bk, of "h + 1" "[gp]"] by (simp add: e)
    ultimately show ?thesis using GetHead by (simp add: e)
  next
    case False
    then show ?thesis using s GetHead i by auto
  qed
next
  case Dead
  then show ?thesis using t by simp
qed

lemma occur_cinv:
  assumes c: "cinv s" and v: "\<forall>i. view_ok (mem s) (th s i)" and e: "enabled e s"
  shows "cinv (occur e s)"
proof (cases e)
  case (EPut g b)
  then show ?thesis using c e by (simp add: cinv_def)
next
  case EGet
  then show ?thesis using c e by (simp add: cinv_def)
next
  case EOwner
  obtain x m where x: "ostep (own s) (mem s) = (x, m)" by fastforce
  have "minv (mem s)" "own_ok (mem s) (own s)" using c by (simp_all add: cinv_def)
  note k = ostep_inv [OF this x]
  then have "th_ok m (th s i)" for i using th_ok_mono [of "mem s" "th s i" m] c by (auto simp: cinv_def)
  then show ?thesis using k c x EOwner by (simp add: cinv_def)
next
  case (EThief j b)
  obtain t m where x: "tstep b (th s j) (mem s) = (t, m)" by fastforce
  have "minv (mem s)" "th_ok (mem s) (th s j)" "view_ok (mem s) (th s j)" using c v by (simp_all add: cinv_def)
  note k = tstep_inv [OF this x]
  have "th_ok m (th s i)" for i using th_ok_mono [of "mem s" "th s i" m "[]"] k c by (auto simp: cinv_def)
  moreover have "own_ok m (own s)" by (rule own_ok_mono [of "mem s"]) (use k c in \<open>simp_all add: cinv_def\<close>)
  ultimately show ?thesis using k c x EThief by (simp add: cinv_def)
qed

lemma conc_reach_cinv: "conc_reach s \<Longrightarrow> cinv s \<and> (\<forall>i. view_ok (mem s) (th s i))"
proof (induction rule: conc_reach.induct)
  case conc_start
  show ?case by (simp add: cinv_def conc_init_def minv_def held_def live_def)
next
  case (conc_step s e)
  then show ?case using occur_cinv by blast
qed

section \<open>What interference cannot break\<close>

text \<open>C16. However the atomic steps of the owner and of any number of thieves interleave, no
  thief being \<open>2 ^ 32\<close> goroutines late between its read of the head and its swap, the goroutines leave the ring in the order in which they were put, each once; every goroutine
  readied is in one place (taken, in the ring, in \<open>runnext\<close>, or in the hands of \<open>runqput\<close>); and
  the throw of \<open>runqputslow\<close> is not reached.\<close>

theorem runq_interference:
  assumes "conc_reach s"
  shows "own s \<noteq> Dead \<and> map Some (g_in (mem s)) = g_out (mem s) @ map Some (live (mem s)) \<and>
    length (live (mem s)) \<le> 256 \<and>
    mset (map Some (readied s)) =
      mset (g_taken (mem s)) + mset (map Some (live (mem s))) + image_mset Some (mopt (c_next (mem s))) + hand (own s)"
proof -
  have c: "minv (mem s)" "own_ok (mem s) (own s)" "mset (map Some (readied s)) = held (mem s) + hand (own s)"
    using conc_reach_cinv [OF assms] by (simp_all add: cinv_def)
  have "own s \<noteq> Dead" using c(2) by auto
  moreover have "map Some (take (length (g_out (mem s))) (g_in (mem s))) @ map Some (live (mem s)) = map Some (g_in (mem s))"
    by (simp add: live_def map_append [symmetric] del: map_append)
  then have "map Some (g_in (mem s)) = g_out (mem s) @ map Some (live (mem s))"
    unfolding minvD(7) [OF c(1), symmetric] by (rule sym)
  ultimately show ?thesis using minvD(4) [OF c(1)] c(3) by (simp add: held_def live_def)
qed

text \<open>One goroutine is put, a thief and the owner both see it, and the thief's swap comes first.\<close>

definition race :: "event list" where
  "race = [EPut 7 False, EOwner, EOwner, EOwner, EThief 0 True, EThief 0 True, EThief 0 True,
     EGet, EOwner, EOwner, EOwner, EThief 0 True, EOwner]"

fun legal :: "event list \<Rightarrow> cstate \<Rightarrow> bool" where
  "legal [] s \<longleftrightarrow> True"
| "legal (e # es) s \<longleftrightarrow>
     enabled e s \<and> (\<forall>i. view_ok (mem (occur e s)) (th (occur e s) i)) \<and> legal es (occur e s)"

lemma legal_reach: "conc_reach s \<Longrightarrow> legal es s \<Longrightarrow> conc_reach (fold occur es s)"
  by (induction es arbitrary: s) (auto intro: conc_step)

lemma view_one: "(\<forall>i. view_ok m (if i = (0 :: nat) then t else TIdle)) \<longleftrightarrow> view_ok m t"
  by auto

lemma race_facts:
  "legal race conc_init" "own (fold occur race conc_init) = GetLoad" "g_out (mem (fold occur race conc_init)) = [Some 7]"
  by (simp_all add: race_def conc_init_def consume_def slots_def slot_def view_one Let_def)

theorem runq_interference_witness:
  "conc_reach (fold occur race conc_init) \<and> own (fold occur race conc_init) = GetLoad \<and>
    map Some (g_in (mem (fold occur race conc_init))) = [Some 7] @ map Some (live (mem (fold occur race conc_init)))"
proof -
  have "conc_reach (fold occur race conc_init)" by (rule legal_reach [OF conc_start race_facts(1)])
  with runq_interference [OF this] race_facts(2,3) show ?thesis by simp
qed

end
