(* ===== verification/Strconv.thy ===== *)
theory Strconv
  imports Utf8
begin

text \<open>
  Conversion of integers to and from text (\<open>strconv/itoa.go\<close>, \<open>strconv/atoi.go\<close>), with
  \<open>TrailingZeros64\<close> of \<open>math/bits\<close>.  Integers are 64-bit words (\<open>int64\<close> read with \<open>sint\<close>), bases and
  bit sizes integers, strings lists of bytes.  The target has 64-bit words.  The array that \<open>formatBits\<close> fills from its end is the list of the bytes
  written so far.
\<close>

section \<open>Digits\<close>

definition byte_of :: "char \<Rightarrow> u8" where
  "byte_of c = of_char c"

definition digits :: bytes where
  "digits = map byte_of ''0123456789abcdefghijklmnopqrstuvwxyz''"

definition smallsString :: bytes where
  "smallsString = map byte_of
     (''00010203040506070809'' @ ''10111213141516171819'' @ ''20212223242526272829'' @
      ''30313233343536373839'' @ ''40414243444546474849'' @ ''50515253545556575859'' @
      ''60616263646566676869'' @ ''70717273747576777879'' @ ''80818283848586878889'' @
      ''90919293949596979899'')"

definition small :: "nat \<Rightarrow> bytes" where
  "small i = (if i < 10 then [digits ! i] else [smallsString ! (i * 2), smallsString ! (i * 2 + 1)])"

section \<open>Trailing zeros\<close>

definition deBruijn64 :: u64 where
  "deBruijn64 = 0x03f79d71b4ca8b09"

definition deBruijn64tab :: "nat list" where
  "deBruijn64tab =
     [0, 1, 56, 2, 57, 49, 28, 3, 61, 58, 42, 50, 38, 29, 17, 4,
      62, 47, 59, 36, 45, 43, 51, 22, 53, 39, 33, 30, 24, 18, 12, 5,
      63, 55, 48, 27, 60, 41, 37, 16, 46, 35, 44, 21, 52, 32, 23, 11,
      54, 26, 40, 15, 34, 20, 31, 10, 25, 14, 19, 9, 13, 8, 7, 6]"

definition TrailingZeros64 :: "u64 \<Rightarrow> nat" where
  "TrailingZeros64 x =
     (if x = 0 then 64 else deBruijn64tab ! unat (drop_bit (64 - 6) ((x AND - x) * deBruijn64)))"

section \<open>Formatting\<close>

definition isPowerOfTwo :: "int \<Rightarrow> bool" where
  "isPowerOfTwo x \<longleftrightarrow> x AND (x - 1) = 0"

text \<open>The branch for 32-bit hosts, which is not taken on the target: nine digits at a time.\<close>

definition host32bit :: bool where
  "host32bit \<longleftrightarrow> drop_bit 32 (NOT 0 :: u64) = 0"

fun fmt_pairs :: "nat \<Rightarrow> u64 \<Rightarrow> bytes \<Rightarrow> u64 \<times> bytes" where
  "fmt_pairs 0 us a = (us, a)"
| "fmt_pairs (Suc j) us a =
     (let is = us mod 100 * 2; us = us div 100
      in fmt_pairs j us (smallsString ! unat is # smallsString ! unat (is + 1) # a))"

function fmt_nine :: "u64 \<Rightarrow> bytes \<Rightarrow> u64 \<times> bytes" where
  "fmt_nine u a =
     (if u \<ge> 1000000000 then
        let q = u div 1000000000; (us, a) = fmt_pairs 4 (u - q * 1000000000) a
        in fmt_nine q (smallsString ! unat (us * 2 + 1) # a)
      else (u, a))"
  by pat_completeness auto
termination
  by (relation "measure (\<lambda>(u, a). unat u)") (auto simp: unat_div word_le_nat_alt intro!: div_less_dividend)

declare fmt_nine.simps [simp del]

text \<open>The loop for base 10: two digits at a time.\<close>

function fmt_decimal :: "u64 \<Rightarrow> bytes \<Rightarrow> bytes" where
  "fmt_decimal us a =
     (if us \<ge> 100 then
        let is = us mod 100 * 2; us = us div 100
        in fmt_decimal us (smallsString ! unat is # smallsString ! unat (is + 1) # a)
      else
        let is = us * 2; a = smallsString ! unat (is + 1) # a
        in if us \<ge> 10 then smallsString ! unat is # a else a)"
  by pat_completeness auto
termination
  by (relation "measure (\<lambda>(us, a). unat us)") (auto simp: unat_div word_le_nat_alt intro!: div_less_dividend)

declare fmt_decimal.simps [simp del]

text \<open>The loops for a power of two and for other bases; a base below 2 would not end.\<close>

partial_function (option) fmt_shift :: "u64 \<Rightarrow> nat \<Rightarrow> u64 \<Rightarrow> u64 \<Rightarrow> bytes \<Rightarrow> bytes option" where
  "fmt_shift b shift m u a =
     (if u \<ge> b then fmt_shift b shift m (drop_bit shift u) (digits ! unat (u AND m) # a)
      else Some (digits ! unat u # a))"

partial_function (option) fmt_divide :: "u64 \<Rightarrow> u64 \<Rightarrow> bytes \<Rightarrow> bytes option" where
  "fmt_divide b u a =
     (if u \<ge> b then let q = u div b in fmt_divide b q (digits ! unat (u - q * b) # a)
      else Some (digits ! unat u # a))"

definition returned :: "'a option \<Rightarrow> 'a outcome" where
  "returned x = (case x of None \<Rightarrow> Spin | Some y \<Rightarrow> Ret y)"

definition formatBits :: "bytes \<Rightarrow> u64 \<Rightarrow> int \<Rightarrow> bool \<Rightarrow> bool \<Rightarrow> (bytes \<times> bytes) outcome" where
  "formatBits dst u base neg appending =
     (if base < 2 \<or> base > 36 then Panic ''strconv: illegal AppendInt/FormatInt base''
      else
        let u = (if neg then - u else u) in
        obind
          (if base = 10 then let (us, a) = (if host32bit then fmt_nine u [] else (u, [])) in Ret (fmt_decimal us a)
           else if isPowerOfTwo base then
             let shift = TrailingZeros64 (of_int base) mod 8; b = of_int base; m = of_int base - 1
             in returned (fmt_shift b shift m u [])
           else returned (fmt_divide (of_int base) u []))
          (\<lambda>a. let a = (if neg then byte_of (CHR ''-'') # a else a)
                in if appending then Ret (dst @ a, []) else Ret ([], a)))"

definition FormatUint :: "u64 \<Rightarrow> int \<Rightarrow> bytes outcome" where
  "FormatUint i base =
     (if i < 100 \<and> base = 10 then Ret (small (unat i))
      else obind (formatBits [] i base False False) (\<lambda>(d, s). Ret s))"

definition FormatInt :: "u64 \<Rightarrow> int \<Rightarrow> bytes outcome" where
  "FormatInt i base =
     (if 0 \<le> sint i \<and> sint i < 100 \<and> base = 10 then Ret (small (unat i))
      else obind (formatBits [] i base (sint i < 0) False) (\<lambda>(d, s). Ret s))"

definition Itoa :: "u64 \<Rightarrow> bytes outcome" where
  "Itoa i = FormatInt i 10"

definition AppendInt :: "bytes \<Rightarrow> u64 \<Rightarrow> int \<Rightarrow> bytes outcome" where
  "AppendInt dst i base =
     (if 0 \<le> sint i \<and> sint i < 100 \<and> base = 10 then Ret (dst @ small (unat i))
      else obind (formatBits dst i base (sint i < 0) True) (\<lambda>(d, s). Ret d))"

definition AppendUint :: "bytes \<Rightarrow> u64 \<Rightarrow> int \<Rightarrow> bytes outcome" where
  "AppendUint dst i base =
     (if i < 100 \<and> base = 10 then Ret (dst @ small (unat i))
      else obind (formatBits dst i base False True) (\<lambda>(d, s). Ret d))"

section \<open>Errors\<close>

text \<open>\<open>ErrBase\<close> and \<open>ErrBitSize\<close> are the errors made by \<open>baseError\<close> and \<open>bitSizeError\<close>.\<close>

datatype num_err = ErrSyntax | ErrRange | ErrBase int | ErrBitSize int

record NumError =
  err_func :: string
  err_num :: bytes
  err_err :: num_err

definition syntaxError :: "string \<Rightarrow> bytes \<Rightarrow> NumError" where
  "syntaxError fn str = \<lparr>err_func = fn, err_num = str, err_err = ErrSyntax\<rparr>"

definition rangeError :: "string \<Rightarrow> bytes \<Rightarrow> NumError" where
  "rangeError fn str = \<lparr>err_func = fn, err_num = str, err_err = ErrRange\<rparr>"

definition baseError :: "string \<Rightarrow> bytes \<Rightarrow> int \<Rightarrow> NumError" where
  "baseError fn str base = \<lparr>err_func = fn, err_num = str, err_err = ErrBase base\<rparr>"

definition bitSizeError :: "string \<Rightarrow> bytes \<Rightarrow> int \<Rightarrow> NumError" where
  "bitSizeError fn str bitSize = \<lparr>err_func = fn, err_num = str, err_err = ErrBitSize bitSize\<rparr>"

section \<open>Parsing\<close>

definition lower :: "u8 \<Rightarrow> u8" where
  "lower c = c OR 0x20"

fun uok_loop :: "bool \<Rightarrow> char \<Rightarrow> bytes \<Rightarrow> bool" where
  "uok_loop hex saw [] \<longleftrightarrow> saw \<noteq> CHR ''_''"
| "uok_loop hex saw (c # cs) \<longleftrightarrow>
     (if byte_of (CHR ''0'') \<le> c \<and> c \<le> byte_of (CHR ''9'') \<or>
         hex \<and> byte_of (CHR ''a'') \<le> lower c \<and> lower c \<le> byte_of (CHR ''f'') then uok_loop hex (CHR ''0'') cs
      else if c = byte_of (CHR ''_'') then
        (if saw \<noteq> CHR ''0'' then False else uok_loop hex (CHR ''_'') cs)
      else if saw = CHR ''_'' then False
      else uok_loop hex (CHR ''!'') cs)"

definition underscoreOK :: "bytes \<Rightarrow> bool" where
  "underscoreOK s =
     (let s = (if length s \<ge> 1 \<and> (s ! 0 = byte_of (CHR ''-'') \<or> s ! 0 = byte_of (CHR ''+'')) then drop 1 s else s);
          prefix = length s \<ge> 2 \<and> s ! 0 = byte_of (CHR ''0'') \<and>
            (lower (s ! 1) = byte_of (CHR ''b'') \<or> lower (s ! 1) = byte_of (CHR ''o'') \<or> lower (s ! 1) = byte_of (CHR ''x''))
      in if prefix then uok_loop (lower (s ! 1) = byte_of (CHR ''x'')) (CHR ''0'') (drop 2 s)
         else uok_loop False (CHR ''^'') s)"

text \<open>The loop of \<open>ParseUint\<close> returns early with a value and an error, or ends with \<open>underscores\<close> and \<open>n\<close>.\<close>

datatype uint_res = Early u64 num_err | Done bool u64

fun uint_loop :: "bool \<Rightarrow> int \<Rightarrow> u64 \<Rightarrow> u64 \<Rightarrow> bytes \<Rightarrow> bool \<Rightarrow> u64 \<Rightarrow> uint_res" where
  "uint_loop base0 base cutoff maxVal [] underscores n = Done underscores n"
| "uint_loop base0 base cutoff maxVal (c # cs) underscores n =
     (if c = byte_of (CHR ''_'') \<and> base0 then uint_loop base0 base cutoff maxVal cs True n
      else
        case (if byte_of (CHR ''0'') \<le> c \<and> c \<le> byte_of (CHR ''9'') then Some (c - byte_of (CHR ''0''))
              else if byte_of (CHR ''a'') \<le> lower c \<and> lower c \<le> byte_of (CHR ''z'')
              then Some (lower c - byte_of (CHR ''a'') + 10) else None)
        of None \<Rightarrow> Early 0 ErrSyntax
         | Some d \<Rightarrow>
             if d \<ge> of_int base then Early 0 ErrSyntax
             else if n \<ge> cutoff then Early maxVal ErrRange
             else
               let n = n * of_int base; n1 = n + ucast d in
               if n1 < n \<or> n1 > maxVal then Early maxVal ErrRange
               else uint_loop base0 base cutoff maxVal cs underscores n1)"

text \<open>The base that the prefix of a literal gives, and the rest.\<close>

definition base_prefix :: "bytes \<Rightarrow> int \<times> bytes" where
  "base_prefix s =
     (if s ! 0 = byte_of (CHR ''0'') then
        if length s \<ge> 3 \<and> lower (s ! 1) = byte_of (CHR ''b'') then (2, drop 2 s)
        else if length s \<ge> 3 \<and> lower (s ! 1) = byte_of (CHR ''o'') then (8, drop 2 s)
        else if length s \<ge> 3 \<and> lower (s ! 1) = byte_of (CHR ''x'') then (16, drop 2 s)
        else (8, drop 1 s)
      else (10, s))"

definition uint_cutoff :: "int \<Rightarrow> u64" where
  "uint_cutoff base =
     (if base = 10 then (- 1) div 10 + 1 else if base = 16 then (- 1) div 16 + 1 else (- 1) div of_int base + 1)"

definition ParseUint :: "bytes \<Rightarrow> int \<Rightarrow> int \<Rightarrow> u64 \<times> NumError option" where
  "ParseUint s base bitSize =
     (if s = [] then (0, Some (syntaxError ''ParseUint'' s))
      else
        let base0 = (base = 0); s0 = s in
        if \<not> (2 \<le> base \<and> base \<le> 36) \<and> base \<noteq> 0 then (0, Some (baseError ''ParseUint'' s0 base))
        else
          let (base, s) = (if 2 \<le> base \<and> base \<le> 36 then (base, s) else base_prefix s) in
          if bitSize \<noteq> 0 \<and> (bitSize < 0 \<or> bitSize > 64) then (0, Some (bitSizeError ''ParseUint'' s0 bitSize))
          else
            let bitSize = (if bitSize = 0 then 64 else bitSize);
                maxVal = push_bit (nat bitSize) 1 - 1
            in case uint_loop base0 base (uint_cutoff base) maxVal s False 0
               of Early n e \<Rightarrow> (n, Some \<lparr>err_func = ''ParseUint'', err_num = s0, err_err = e\<rparr>)
                | Done underscores n \<Rightarrow>
                    if underscores \<and> \<not> underscoreOK s0 then (0, Some (syntaxError ''ParseUint'' s0)) else (n, None))"

definition ParseInt :: "bytes \<Rightarrow> int \<Rightarrow> int \<Rightarrow> u64 \<times> NumError option" where
  "ParseInt s base bitSize =
     (if s = [] then (0, Some (syntaxError ''ParseInt'' s))
      else
        let s0 = s;
            neg = (s ! 0 = byte_of (CHR ''-''));
            s = (if s ! 0 = byte_of (CHR ''+'') \<or> s ! 0 = byte_of (CHR ''-'') then drop 1 s else s);
            (un, err) = ParseUint s base bitSize
        in if err \<noteq> None \<and> err_err (the err) \<noteq> ErrRange
           then (0, Some ((the err)\<lparr>err_func := ''ParseInt'', err_num := s0\<rparr>))
           else
             let bitSize = (if bitSize = 0 then 64 else bitSize);
                 cutoff = push_bit (nat (bitSize - 1)) 1
             in if \<not> neg \<and> un \<ge> cutoff then (cutoff - 1, Some (rangeError ''ParseInt'' s0))
                else if neg \<and> un > cutoff then (- cutoff, Some (rangeError ''ParseInt'' s0))
                else (if neg then - un else un, None))"

fun atoi_loop :: "bytes \<Rightarrow> u64 \<Rightarrow> u64 option" where
  "atoi_loop [] n = Some n"
| "atoi_loop (ch # cs) n =
     (let ch = ch - byte_of (CHR ''0'') in if ch > 9 then None else atoi_loop cs (n * 10 + ucast ch))"

definition Atoi :: "bytes \<Rightarrow> u64 \<times> NumError option" where
  "Atoi s =
     (if 0 < length s \<and> length s < 19 then
        let s0 = s; signed = (s ! 0 = byte_of (CHR ''-'') \<or> s ! 0 = byte_of (CHR ''+''));
            s = (if signed then drop 1 s else s)
        in if signed \<and> length s < 1 then (0, Some (syntaxError ''Atoi'' s0))
           else case atoi_loop s 0 of None \<Rightarrow> (0, Some (syntaxError ''Atoi'' s0))
                | Some n \<Rightarrow> (if s0 ! 0 = byte_of (CHR ''-'') then - n else n, None)
      else
        let (i64, err) = ParseInt s 10 0 in (i64, map_option (\<lambda>e. e\<lparr>err_func := ''Atoi''\<rparr>) err))"

end
