(* ===== verification/Strconv_Spec.thy ===== *)
theory Strconv_Spec
  imports Strconv
begin

text \<open>
  Numerals as text: the digits of a number in a base, and the value of a text read without a bound
  on the numbers.  The functions that format compute the first, and the functions that parse the
  second, with the overflow of 64-bit words and the limits of the bit size accounted for.
\<close>

section \<open>Digits\<close>

definition dig :: "nat \<Rightarrow> u8" where
  "dig d = (if d < 10 then of_nat (48 + d) else of_nat (87 + d))"

lemma digits_eq: "digits = map dig [0..<36]"
  by (simp add: digits_def byte_of_def dig_def upt_rec)

lemma digits_nth: "d < 36 \<Longrightarrow> digits ! d = dig d"
  by (simp add: digits_eq)

lemma nth_pairs:
  "k < n \<Longrightarrow> concat (map (\<lambda>k. [f k, g k]) [0..<n]) ! (k * 2) = f k \<and> concat (map (\<lambda>k. [f k, g k]) [0..<n]) ! (k * 2 + 1) = g k"
proof (induction n)
  case (Suc n)
  have l: "length (concat (map (\<lambda>k. [f k, g k]) [0..<n])) = n * 2" by (induction n) simp_all
  show ?case
  proof (cases "k = n")
    case True
    then show ?thesis using l by (simp add: nth_append)
  next
    case False
    then show ?thesis using l Suc by (simp add: nth_append)
  qed
qed simp

lemma smallsString_eq: "smallsString = concat (map (\<lambda>k. [dig (k div 10), dig (k mod 10)]) [0..<100])"
  by code_simp

lemma smallsString_nth: "k < 100 \<Longrightarrow> smallsString ! (k * 2) = dig (k div 10)" "k < 100 \<Longrightarrow> smallsString ! (k * 2 + 1) = dig (k mod 10)"
  using nth_pairs [of k 100 "\<lambda>k. dig (k div 10)" "\<lambda>k. dig (k mod 10)"] by (simp_all only: smallsString_eq simp_thms)

function numeral_text :: "nat \<Rightarrow> nat \<Rightarrow> bytes" where
  "numeral_text b n = (if b < 2 \<or> n < b then [dig n] else numeral_text b (n div b) @ [dig (n mod b)])"
  by pat_completeness auto
termination by (relation "measure (\<lambda>(b, n). n)") auto

declare numeral_text.simps [simp del]

lemma numeral_text_less: "n < b \<Longrightarrow> numeral_text b n = [dig n]"
  by (simp add: numeral_text.simps)

lemma numeral_text_step: "2 \<le> b \<Longrightarrow> b \<le> n \<Longrightarrow> numeral_text b n = numeral_text b (n div b) @ [dig (n mod b)]"
  by (subst numeral_text.simps) simp

lemma numeral_text_two:
  assumes "10 \<le> n"
  shows "numeral_text 10 n = (if n < 100 then [dig (n div 10)] else numeral_text 10 (n div 100) @ [dig (n div 10 mod 10)]) @ [dig (n mod 10)]"
proof (cases "n < 100")
  case True
  then show ?thesis using assms numeral_text_step [of 10 n] numeral_text_less [of "n div 10" 10] by simp
next
  case False
  then have "numeral_text 10 (n div 10) = numeral_text 10 (n div 10 div 10) @ [dig (n div 10 mod 10)]"
    by (intro numeral_text_step) auto
  then show ?thesis using assms False numeral_text_step [of 10 n] by (simp add: div_mult2_eq [symmetric])
qed

lemma small_text: "k < 100 \<Longrightarrow> small k = numeral_text 10 k"
  using smallsString_nth [of k] numeral_text_two [of k]
  by (auto simp: small_def digits_nth numeral_text_less)

section \<open>Formatting\<close>

lemma fmt_decimal_text: "fmt_decimal us a = numeral_text 10 (unat us) @ a"
proof (induction "unat us" arbitrary: us a rule: less_induct)
  case less
  let ?n = "unat us"
  show ?case
  proof (cases "us \<ge> 100")
    case True
    then have n: "100 \<le> ?n" by (simp add: word_le_nat_alt)
    have i: "unat (us mod 100 * 2) = ?n mod 100 * 2" "unat (us mod 100 * 2 + 1) = ?n mod 100 * 2 + 1" "unat (us div 100) = ?n div 100"
    proof -
      have "?n mod 100 < 100" by simp
      then show "unat (us mod 100 * 2) = ?n mod 100 * 2" "unat (us mod 100 * 2 + 1) = ?n mod 100 * 2 + 1"
        by (simp_all add: unat_word_ariths unat_mod)
      show "unat (us div 100) = ?n div 100" by (simp add: unat_div)
    qed
    have d: "?n mod 100 div 10 = ?n div 10 mod 10" "?n mod 100 mod 10 = ?n mod 10"
      using mod_mult2_eq [of ?n 10 10] by (simp_all add: mod_mod_cancel)
    have IH: "fmt_decimal (us div 100) x = numeral_text 10 (?n div 100) @ x" for x
      using less [of "us div 100" x] n unfolding i(3) by simp
    show ?thesis
      by (subst fmt_decimal.simps)
        (use True n IH i d smallsString_nth [of "?n mod 100"] numeral_text_two [of ?n] in \<open>simp add: Let_def\<close>)
  next
    case False
    then have n: "?n < 100" by (simp add: word_le_nat_alt)
    then have i: "unat (us * 2) = ?n * 2" "unat (us * 2 + 1) = ?n * 2 + 1" by (simp_all add: unat_word_ariths)
    have "us \<ge> 10 \<longleftrightarrow> 10 \<le> ?n" by (simp add: word_le_nat_alt)
    then show ?thesis
      by (subst fmt_decimal.simps)
        (use False n i smallsString_nth [of ?n] numeral_text_two [of ?n] numeral_text_less [of ?n 10] in \<open>auto simp: Let_def\<close>)
  qed
qed

lemma fmt_shift_text:
  assumes k: "0 < k" "k \<le> 5" and b: "b = 2 ^ k" and m: "m = b - 1"
  shows "fmt_shift b k m u a = Some (numeral_text (2 ^ k) (unat u) @ a)"
proof (induction "unat u" arbitrary: u a rule: less_induct)
  case less
  have ub: "unat b = 2 ^ k" 
  proof -
    have "k = 1 \<or> k = 2 \<or> k = 3 \<or> k = 4 \<or> k = 5" using k by auto
    then show ?thesis by (auto simp: b)
  qed
  have p: "2 \<le> (2 :: nat) ^ k" "2 ^ k \<le> (32 :: nat)"
    using k power_increasing [of 1 k "2 :: nat"] power_increasing [of k 5 "2 :: nat"] by simp_all
  have d: "unat (u AND m) = unat u mod 2 ^ k"
  proof -
    have "u AND m = u mod b" unfolding m b by (simp add: take_bit_eq_mask mask_eq_exp_minus_1 flip: take_bit_eq_mod)
    then show ?thesis using ub by (simp add: unat_mod)
  qed
  have q: "unat (drop_bit k u) = unat u div 2 ^ k" using ub by (simp add: drop_bit_eq_div unat_div b)
  show ?case
  proof (cases "u \<ge> b")
    case True
    then have n: "2 ^ k \<le> unat u" using ub by (simp add: word_le_nat_alt)
    have "unat u mod 2 ^ k < 2 ^ k" by simp
    then have "unat u mod 2 ^ k < 36" using p by linarith
    then have "digits ! unat (u AND m) = dig (unat u mod 2 ^ k)" by (simp add: d digits_nth)
    moreover have "unat (drop_bit k u) < unat u" using n p unfolding q by (intro div_less_dividend) linarith+
    from less [OF this] have "fmt_shift b k m (drop_bit k u) (x # a) = Some (numeral_text (2 ^ k) (unat u div 2 ^ k) @ x # a)" for x
      unfolding q .
    ultimately show ?thesis using True n p numeral_text_step [of "2 ^ k" "unat u"] by (simp add: fmt_shift.simps)
  next
    case False
    then have "unat u < 2 ^ k" using ub by (simp add: word_le_nat_alt)
    then show ?thesis using False p by (simp add: fmt_shift.simps digits_nth numeral_text_less)
  qed
qed

lemma fmt_divide_text:
  assumes b: "2 \<le> unat b" "unat b \<le> 36"
  shows "fmt_divide b u a = Some (numeral_text (unat b) (unat u) @ a)"
proof (induction "unat u" arbitrary: u a rule: less_induct)
  case less
  have r: "unat (u - u div b * b) = unat u mod unat b" by (simp add: minus_div_mult_eq_mod unat_mod)
  have q: "unat (u div b) = unat u div unat b" by (simp add: unat_div)
  show ?case
  proof (cases "u \<ge> b")
    case True
    then have n: "unat b \<le> unat u" by (simp add: word_le_nat_alt)
    have "unat u mod unat b < 36" using b mod_less_divisor [of "unat b" "unat u"] by linarith
    then have "digits ! unat (u - u div b * b) = dig (unat u mod unat b)" unfolding r by (rule digits_nth)
    moreover have "unat (u div b) < unat u" using n b unfolding q by (intro div_less_dividend) linarith+
    from less [OF this] have "fmt_divide b (u div b) (x # a) = Some (numeral_text (unat b) (unat u div unat b) @ x # a)" for x
      unfolding q .
    ultimately show ?thesis using True n b numeral_text_step [of "unat b" "unat u"] by (simp add: fmt_divide.simps Let_def)
  next
    case False
    then have "unat u < unat b" by (simp add: word_le_nat_alt)
    then show ?thesis using False b by (simp add: fmt_divide.simps digits_nth numeral_text_less)
  qed
qed

lemma power_base:
  assumes "2 \<le> base" "base \<le> 36" "isPowerOfTwo base"
  shows "\<exists>k. 0 < k \<and> k \<le> 5 \<and> base = 2 ^ k \<and> TrailingZeros64 (of_int base) mod 8 = k"
proof -
  have all: "list_all (\<lambda>x. isPowerOfTwo x \<longrightarrow> x \<in> set [2, 4, 8, 16, 32]) [2..36]" by code_simp
  have "base \<in> set [2..36]" using assms(1,2) by (simp only: set_upto atLeastAtMost_iff)
  with all assms(3) have "base \<in> set [2, 4, 8, 16, 32]" unfolding list_all_iff by blast
  then consider "base = 2" | "base = 4" | "base = 8" | "base = 16" | "base = 32" by auto
  then show ?thesis
  proof cases
    case 1 then show ?thesis by (intro exI [of _ 1]) (simp, code_simp)
  next
    case 2 then show ?thesis by (intro exI [of _ 2]) (simp, code_simp)
  next
    case 3 then show ?thesis by (intro exI [of _ 3]) (simp, code_simp)
  next
    case 4 then show ?thesis by (intro exI [of _ 4]) (simp, code_simp)
  next
    case 5 then show ?thesis by (intro exI [of _ 5]) (simp, code_simp)
  qed
qed

definition minus_sign :: u8 where
  "minus_sign = byte_of (CHR ''-'')"

lemma formatBits_text:
  assumes b: "2 \<le> base" "base \<le> 36"
  shows "formatBits dst u base neg appending =
    (let a = (if neg then [minus_sign] else []) @ numeral_text (nat base) (unat (if neg then - u else u))
     in Ret (if appending then (dst @ a, []) else ([], a)))"
proof -
  let ?u = "if neg then - u else u"
  have u: "unat (of_int base :: u64) = nat base"
  proof -
    obtain n where n: "base = int n" using b by (metis nonneg_int_cases order_trans zero_le_numeral)
    then show ?thesis using b by (simp add: unat_of_nat)
  qed
  have "(if base = 10 then let (us, a) = (if host32bit then fmt_nine ?u [] else (?u, [])) in Ret (fmt_decimal us a)
      else if isPowerOfTwo base then
        let shift = TrailingZeros64 (of_int base) mod 8; b = of_int base; m = of_int base - 1 in returned (fmt_shift b shift m ?u [])
      else returned (fmt_divide (of_int base) ?u [])) = Ret (numeral_text (nat base) (unat ?u))"
  proof (cases "base = 10")
    case True
    have "\<not> host32bit" by (simp add: host32bit_def)
    then show ?thesis using True by (simp add: fmt_decimal_text)
  next
    case False
    show ?thesis
    proof (cases "isPowerOfTwo base")
      case True
      then obtain k where k: "0 < k" "k \<le> 5" "base = 2 ^ k" "TrailingZeros64 (of_int base) mod 8 = k" using power_base b by blast
      have "fmt_shift (of_int base) k (of_int base - 1) ?u [] = Some (numeral_text (2 ^ k) (unat ?u) @ [])"
        by (rule fmt_shift_text) (use k in simp_all)
      moreover have "nat base = 2 ^ k" using k(3) by (simp add: nat_power_eq)
      ultimately show ?thesis using False True k by (simp add: returned_def nat_power_eq)
    next
      case np: False
      have "fmt_divide (of_int base) ?u [] = Some (numeral_text (nat base) (unat ?u) @ [])"
        using fmt_divide_text [of "of_int base" ?u "[]"] b unfolding u by simp
      then show ?thesis using False np by (simp add: returned_def)
    qed
  qed
  then show ?thesis using b unfolding formatBits_def by (simp only: Let_def obind.simps minus_sign_def) simp
qed

text \<open>The text of an integer.\<close>

definition int_text :: "int \<Rightarrow> int \<Rightarrow> bytes" where
  "int_text base i = (if i < 0 then [minus_sign] else []) @ numeral_text (nat base) (nat \<bar>i\<bar>)"

lemma len64_minus: "LENGTH(64) - Suc 0 = 63"
  by simp

lemma sint64: "sint (i :: u64) = (if uint i < 2 ^ 63 then uint i else uint i - 2 ^ 64)"
proof -
  have r: "0 \<le> uint i" "uint i < 2 ^ 64" using uint_lt2p [of i] by simp_all
  have "sint i = take_bit (Suc 63) (uint i) - 2 ^ Suc 63 * of_bool (bit (uint i) 63)"
    unfolding sint_uint by (simp only: signed_take_bit_eq_take_bit_minus len64_minus)
  moreover have "take_bit (Suc 63) (uint i) = uint i" using r by (intro take_bit_int_eq_self) simp_all
  moreover have "bit (uint i) 63 \<longleftrightarrow> \<not> uint i < 2 ^ 63"
  proof -
    have d: "uint i div 2 ^ 63 = (if uint i < 2 ^ 63 then 0 else 1)"
    proof (cases "uint i < 2 ^ 63")
      case False
      have "uint i div 2 ^ 63 = 1" by (rule int_div_pos_eq [of _ _ _ "uint i - 2 ^ 63"]) (use r False in simp_all)
      then show ?thesis using False by simp
    qed (use r in \<open>simp add: div_pos_pos_trivial\<close>)
    show ?thesis unfolding bit_iff_odd d by simp
  qed
  ultimately show ?thesis by (simp only: of_bool_def) simp
qed

lemma unat_abs: "unat (if sint i < 0 then - i else i) = nat \<bar>sint (i :: u64)\<bar>"
proof (cases "uint i < 2 ^ 63")
  case True
  then have "sint i = uint i" by (simp only: sint64 if_True)
  then show ?thesis by simp
next
  case False
  have r: "uint i < 2 ^ 64" using uint_lt2p [of i] by simp
  have s: "sint i = uint i - 2 ^ 64" using False by (simp only: sint64 if_False)
  have "uint (- i) = - uint i mod 2 ^ 64" by (simp add: uint_word_ariths)
  also have "\<dots> = (2 ^ 64 - uint i) mod 2 ^ 64" by (metis diff_0 minus_mod_self1)
  also have "\<dots> = 2 ^ 64 - uint i" using r False by (intro mod_pos_pos_trivial) simp_all
  finally have "uint (- i) = \<bar>sint i\<bar>" using s r by simp
  moreover have "sint i < 0" using s r by simp
  ultimately show ?thesis by (simp only: if_True flip: nat_uint_eq)
qed


lemma FormatUint_text:
  assumes "2 \<le> base" "base \<le> 36"
  shows "FormatUint i base = Ret (int_text base (uint i))" "AppendUint dst i base = Ret (dst @ int_text base (uint i))"
  using formatBits_text [OF assms, of _ i False] small_text [of "unat i"]
  by (auto simp: FormatUint_def AppendUint_def int_text_def Let_def word_less_nat_alt)

lemma FormatInt_text:
  assumes "2 \<le> base" "base \<le> 36"
  shows "FormatInt i base = Ret (int_text base (sint i))" "AppendInt dst i base = Ret (dst @ int_text base (sint i))"
proof -
  have s: "small (unat i) = int_text 10 (sint i)" if "0 \<le> sint i" "sint i < 100"
    using that unat_abs [of i] small_text [of "unat i"] by (simp add: int_text_def)
  have f: "formatBits dst i base (sint i < 0) app =
      Ret (if app then (dst @ int_text base (sint i), []) else ([], int_text base (sint i)))" for dst app
    unfolding formatBits_text [OF assms] unat_abs by (simp add: int_text_def Let_def)
  show "FormatInt i base = Ret (int_text base (sint i))" "AppendInt dst i base = Ret (dst @ int_text base (sint i))"
    unfolding FormatInt_def AppendInt_def f using s by (simp_all add: obind_def)
qed

section \<open>Values\<close>

definition digit_value :: "u8 \<Rightarrow> nat option" where
  "digit_value c =
     (if 48 \<le> unat c \<and> unat c \<le> 57 then Some (unat c - 48)
      else if 97 \<le> unat (lower c) \<and> unat (lower c) \<le> 122 then Some (unat (lower c) - 87) else None)"

text \<open>Reading a text with unbounded numbers: the first digit that is none in the base is a syntax
  error, the first value above \<open>M\<close> is out of range.\<close>

datatype read_res = Value nat | Bad | Big

fun read_digits :: "nat \<Rightarrow> nat \<Rightarrow> bytes \<Rightarrow> nat \<Rightarrow> read_res" where
  "read_digits b M [] n = Value n"
| "read_digits b M (c # cs) n =
     (case digit_value c of None \<Rightarrow> Bad
      | Some d \<Rightarrow> if d \<ge> b then Bad else if n * b + d > M then Big else read_digits b M cs (n * b + d))"

lemma read_digits_append:
  "read_digits b M (xs @ ys) n = (case read_digits b M xs n of Value v \<Rightarrow> read_digits b M ys v | Bad \<Rightarrow> Bad | Big \<Rightarrow> Big)"
  by (induction xs arbitrary: n) (auto split: option.split)

text \<open>On digits only, that is the value of the text, if it is at most \<open>M\<close>.\<close>

definition text_value :: "nat \<Rightarrow> bytes \<Rightarrow> nat \<Rightarrow> nat" where
  "text_value b cs n = foldl (\<lambda>n c. n * b + the (digit_value c)) n cs"

lemma text_value_ge:
  assumes "0 < b" shows "n \<le> text_value b cs n"
proof (induction cs arbitrary: n)
  case (Cons c cs)
  have "n \<le> n * b + the (digit_value c)" using assms by (simp add: trans_le_add1)
  also have "\<dots> \<le> text_value b cs (n * b + the (digit_value c))" by (rule Cons.IH)
  finally show ?case by (simp add: text_value_def)
qed (simp add: text_value_def)

lemma read_digits_value:
  assumes "0 < b"
  shows "\<forall>c\<in>set cs. \<exists>d<b. digit_value c = Some d \<Longrightarrow> n \<le> M \<Longrightarrow>
    read_digits b M cs n = (if text_value b cs n \<le> M then Value (text_value b cs n) else Big)"
proof (induction cs arbitrary: n)
  case (Cons c cs)
  then obtain d where d: "d < b" "digit_value c = Some d" by auto
  have v: "text_value b (c # cs) n = text_value b cs (n * b + d)" using d by (simp add: text_value_def)
  show ?case
  proof (cases "n * b + d > M")
    case True
    then have "text_value b (c # cs) n > M" using text_value_ge [OF assms, of "n * b + d" cs] unfolding v by linarith
    then show ?thesis using d True by simp
  next
    case False
    then show ?thesis using d Cons v by simp
  qed
qed (simp add: text_value_def)

lemma digit_value_dig:
  assumes "d < 36"
  shows "digit_value (dig d) = Some d"
proof -
  have all: "list_all (\<lambda>d. digit_value (dig d) = Some d) [0..<36]" by code_simp
  then show ?thesis using assms by (simp add: list_all_iff del: upt_rec_numeral)
qed

lemma read_numeral:
  assumes b: "2 \<le> b" "b \<le> 36" and n: "n \<le> M"
  shows "read_digits b M (numeral_text b n) 0 = Value n"
  using n
proof (induction n rule: less_induct)
  case (less n)
  show ?case
  proof (cases "n < b")
    case True
    then show ?thesis using b less.prems by (simp add: numeral_text_less digit_value_dig)
  next
    case False
    then have d: "n div b < n" "n div b \<le> M" using b less.prems by (auto intro: order_trans [OF div_le_dividend])
    have m: "n mod b < b" using b by simp
    then have "digit_value (dig (n mod b)) = Some (n mod b)" by (intro digit_value_dig) (use m b in linarith)
    then show ?thesis
      using less.IH [OF d] numeral_text_step [OF b(1), of n] False m less.prems by (simp add: read_digits_append)
  qed
qed

section \<open>Parsing\<close>

lemma digit_code:
  "(if byte_of (CHR ''0'') \<le> c \<and> c \<le> byte_of (CHR ''9'') then Some (c - byte_of (CHR ''0''))
    else if byte_of (CHR ''a'') \<le> lower c \<and> lower c \<le> byte_of (CHR ''z'') then Some (lower c - byte_of (CHR ''a'') + 10) else None)
   = map_option of_nat (digit_value c)"
  "digit_value c = Some d \<Longrightarrow> d < 36"
proof -
  have b: "byte_of (CHR ''0'') = 48" "byte_of (CHR ''9'') = 57" "byte_of (CHR ''a'') = 97" "byte_of (CHR ''z'') = 122"
    by (simp_all add: byte_of_def)
  have "(48 :: u8) \<le> c \<longleftrightarrow> 48 \<le> unat c" "c \<le> 57 \<longleftrightarrow> unat c \<le> 57"
    "(97 :: u8) \<le> lower c \<longleftrightarrow> 97 \<le> unat (lower c)" "lower c \<le> 122 \<longleftrightarrow> unat (lower c) \<le> 122"
    by (simp_all add: word_le_nat_alt)
  moreover have "c - 48 = of_nat (unat c - 48)" if "48 \<le> unat c" using that by (simp add: of_nat_diff)
  moreover have "lower c - 97 + 10 = of_nat (unat (lower c) - 87)" if "97 \<le> unat (lower c)" using that by (simp add: of_nat_diff)
  ultimately show "(if byte_of (CHR ''0'') \<le> c \<and> c \<le> byte_of (CHR ''9'') then Some (c - byte_of (CHR ''0''))
    else if byte_of (CHR ''a'') \<le> lower c \<and> lower c \<le> byte_of (CHR ''z'') then Some (lower c - byte_of (CHR ''a'') + 10) else None)
    = map_option of_nat (digit_value c)"
    unfolding b digit_value_def by auto
  show "digit_value c = Some d \<Longrightarrow> d < 36" by (auto simp: digit_value_def split: if_splits)
qed

lemma len64: "LENGTH(64) = 64"
  by simp

lemma step_bounds:
  assumes b: "2 \<le> b" "b \<le> 36" and d: "d < b" and n: "n < 2 ^ 64" and M: "M < 2 ^ 64"
  shows "of_nat n \<ge> (of_nat ((2 ^ 64 - 1) div b + 1) :: u64) \<longleftrightarrow> 2 ^ 64 - 1 < n * b"
    "n * b \<le> 2 ^ 64 - 1 \<Longrightarrow>
      (of_nat n * of_nat b + of_nat d < (of_nat n * of_nat b :: u64) \<or> of_nat n * of_nat b + of_nat d > (of_nat M :: u64)) \<longleftrightarrow> n * b + d > M"
proof -
  have C: "(2 ^ 64 - 1) div b + 1 < (2 :: nat) ^ 64"
  proof -
    have "(2 ^ 64 - 1) div b \<le> (2 ^ 64 - 1) div (2 :: nat)" using b(1) by (intro div_le_mono2) simp_all
    then show ?thesis by simp
  qed
  have "of_nat n \<ge> (of_nat ((2 ^ 64 - 1) div b + 1) :: u64) \<longleftrightarrow> (2 ^ 64 - 1) div b + 1 \<le> n"
    using C n by (simp add: word_le_nat_alt unat_of_nat del: of_nat_Suc of_nat_add)
  also have "\<dots> \<longleftrightarrow> 2 ^ 64 - 1 < n * b"
    using b by (simp add: div_less_iff_less_mult Suc_le_eq)
  finally show "of_nat n \<ge> (of_nat ((2 ^ 64 - 1) div b + 1) :: u64) \<longleftrightarrow> 2 ^ 64 - 1 < n * b" .
  assume nb: "n * b \<le> 2 ^ 64 - 1"
  have u: "unat (of_nat (n * b) :: u64) = n * b" using nb by (simp add: unat_of_nat del: of_nat_mult)
  have uM: "unat (of_nat M :: u64) = M" using M by (simp add: unat_of_nat)
  have s: "(of_nat n * of_nat b + of_nat d :: u64) = of_nat (n * b + d)" "(of_nat n * of_nat b :: u64) = of_nat (n * b)" by simp_all
  show "(of_nat n * of_nat b + of_nat d < (of_nat n * of_nat b :: u64) \<or> of_nat n * of_nat b + of_nat d > (of_nat M :: u64)) \<longleftrightarrow> n * b + d > M"
  proof (cases "n * b + d < 2 ^ 64")
    case True
    then have "unat (of_nat (n * b + d) :: u64) = n * b + d" by (simp add: unat_of_nat del: of_nat_mult of_nat_add)
    then show ?thesis unfolding s word_less_nat_alt u uM by auto
  next
    case False
    then have "unat (of_nat (n * b + d) :: u64) = n * b + d - 2 ^ 64"
      using nb d b by (simp add: unat_of_nat mod_if del: of_nat_mult of_nat_add)
    then show ?thesis unfolding s word_less_nat_alt u uM using False nb d b M by auto
  qed
qed

lemma uint_cutoff_eq: "2 \<le> b \<Longrightarrow> b \<le> 36 \<Longrightarrow> uint_cutoff (int b) = of_nat ((2 ^ 64 - 1) div b + 1)"
proof -
  assume b: "2 \<le> b" "b \<le> 36"
  have u: "unat (of_nat b :: u64) = b" using b by (simp add: unat_of_nat)
  have "(- 1 :: u64) div of_nat b = of_nat ((2 ^ 64 - 1) div b)"
  proof (rule word_unat_eq_iff [THEN iffD2])
    have "(2 ^ 64 - 1) div b < (2 :: nat) ^ 64" by (rule le_less_trans [OF div_le_dividend]) simp
    then show "unat ((- 1 :: u64) div of_nat b) = unat (of_nat ((2 ^ 64 - 1) div b) :: u64)"
      unfolding unat_div u unat_minus_one_u64 by (simp only: unat_of_nat len64 mod_less)
  qed
  then show ?thesis by (auto simp: uint_cutoff_def)
qed

lemma uint_loop_read:
  assumes b: "2 \<le> b" "b \<le> 36" and M: "M < 2 ^ 64" and n: "n \<le> M"
  shows "uint_loop False (int b) (uint_cutoff (int b)) (of_nat M) cs un (of_nat n) =
    (case read_digits b M cs n of Value v \<Rightarrow> Done un (of_nat v) | Bad \<Rightarrow> Early 0 ErrSyntax | Big \<Rightarrow> Early (of_nat M) ErrRange)"
  using n
proof (induction cs arbitrary: n)
  case (Cons c cs)
  show ?case
  proof (cases "digit_value c")
    case None
    then show ?thesis by (simp add: digit_code(1))
  next
    case (Some d)
    have d36: "d < 36" using digit_code(2) Some by blast
    have db: "(of_nat d :: u8) \<ge> of_int (int b) \<longleftrightarrow> b \<le> d"
      using b d36 by (simp add: word_le_nat_alt unat_of_nat)
    have uc: "ucast (of_nat d :: u8) = (of_nat d :: u64)"
      using of_nat_unat [of "of_nat d :: u8", where 'a = "64 word"] d36 by (simp add: unat_of_nat)
    show ?thesis
    proof (cases "b \<le> d")
      case True
      then show ?thesis using Some db by (simp add: digit_code(1))
    next
      case False
      then have dlt: "d < b" by simp
      have n64: "n < 2 ^ 64" using Cons.prems M by simp
      note sb = step_bounds [OF b dlt n64 M]
      show ?thesis
      proof (cases "2 ^ 64 - 1 < n * b")
        case True
        then have "n * b + d > M" using M by simp
        then show ?thesis using Some db False True sb(1) by (simp add: digit_code(1) uint_cutoff_eq [OF b] del: of_nat_add of_nat_Suc)
      next
        case nb: False
        show ?thesis
        proof (cases "n * b + d > M")
          case True
          then show ?thesis
            using Some db False nb sb uc by (simp add: digit_code(1) uint_cutoff_eq [OF b] Let_def del: of_nat_Suc)
        next
          case m: False
          then have "uint_loop False (int b) (uint_cutoff (int b)) (of_nat M) (c # cs) un (of_nat n) =
              uint_loop False (int b) (uint_cutoff (int b)) (of_nat M) cs un (of_nat (n * b + d))"
            using Some db False nb sb uc by (simp add: digit_code(1) uint_cutoff_eq [OF b] Let_def del: of_nat_Suc)
          then show ?thesis using Cons.IH [of "n * b + d"] m Some False by simp
        qed
      qed
    qed
  qed
qed simp

text \<open>With base 0 the loop skips underscores and notes that it saw one.\<close>

definition underscore :: u8 where
  "underscore = byte_of (CHR ''_'')"

lemma underscore_no_digit: "digit_value underscore = None"
  by code_simp

lemma uint_loop_base0:
  "uint_loop True b c M cs un n =
    (case uint_loop False b c M (filter (\<lambda>c. c \<noteq> underscore) cs) un n of
       Done un' v \<Rightarrow> Done (un' \<or> underscore \<in> set cs) v | Early v e \<Rightarrow> Early v e)"
proof (induction cs arbitrary: un n)
  case (Cons x cs)
  have un: "uint_loop False b c M cs True n = (case uint_loop False b c M cs un n of Done w v \<Rightarrow> Done True v | Early v e \<Rightarrow> Early v e)" for cs n un
    by (induction cs arbitrary: n) (auto simp: Let_def split: option.split)
  show ?case
  proof (cases "x = underscore")
    case True
    then show ?thesis
      using Cons.IH [of True n] un [of "filter (\<lambda>c. c \<noteq> underscore) cs" n un]
      by (auto simp flip: underscore_def split: uint_res.splits)
  next
    case False
    then have m: "underscore \<in> set (x # cs) \<longleftrightarrow> underscore \<in> set cs" by auto
    show ?thesis unfolding m using False Cons.IH by (simp add: Let_def flip: underscore_def split: option.split)
  qed
qed simp

end
