(* ===== verification/Strconv_Props.thy ===== *)
theory Strconv_Props
  imports Strconv_Spec
begin

text \<open>
  What the conversions promise: parsing is exact in every base and bit size, what is formatted
  parses back, and \<open>Atoi\<close> is \<open>ParseInt\<close> in base 10.
\<close>

section \<open>ParseUint and ParseInt\<close>

definition bits_of :: "int \<Rightarrow> nat" where
  "bits_of bitSize = (if bitSize = 0 then 64 else nat bitSize)"

lemma push_bit_one: "(push_bit n 1 :: u64) - 1 = of_nat (2 ^ n - 1)" "(push_bit n 1 :: u64) = of_nat (2 ^ n)"
proof -
  show "(push_bit n 1 :: u64) = of_nat (2 ^ n)" by (simp add: push_bit_eq_mult)
  have "of_nat (2 ^ n - 1) = (of_nat (2 ^ n) - of_nat 1 :: u64)" by (rule of_nat_diff) simp
  then show "(push_bit n 1 :: u64) - 1 = of_nat (2 ^ n - 1)" by (simp add: push_bit_eq_mult)
qed

definition valid_base :: "int \<Rightarrow> bool" where
  "valid_base base \<longleftrightarrow> base = 0 \<or> 2 \<le> base \<and> base \<le> 36"

definition valid_bits :: "int \<Rightarrow> bool" where
  "valid_bits bitSize \<longleftrightarrow> 0 \<le> bitSize \<and> bitSize \<le> 64"

text \<open>Reading a text in a base: base 0 takes the base from the prefix and skips underscores, which must
  be in the places that the syntax of Go allows.\<close>

definition read_text :: "int \<Rightarrow> nat \<Rightarrow> bytes \<Rightarrow> read_res" where
  "read_text base M s =
     (if base \<noteq> 0 then read_digits (nat base) M s 0
      else let (b, t) = base_prefix s in
        case read_digits (nat b) M (filter (\<lambda>c. c \<noteq> underscore) t) 0 of
          Value v \<Rightarrow> if underscore \<in> set t \<and> \<not> underscoreOK s then Bad else Value v
        | r \<Rightarrow> r)"

lemma read_digits_max: "read_digits b M cs n = Value v \<Longrightarrow> n \<le> M \<Longrightarrow> v \<le> M"
  by (induction cs arbitrary: n) (auto split: option.splits if_splits)

lemma read_text_max: "read_text base M s = Value v \<Longrightarrow> v \<le> M"
  using read_digits_max [of _ M _ 0 v] by (auto simp: read_text_def split: if_splits prod.splits read_res.splits)

lemma base_prefix_range: "fst (base_prefix s) \<in> {2, 8, 10, 16}"
  by (simp add: base_prefix_def)

lemma max_bits: "valid_bits bitSize \<Longrightarrow> (2 :: nat) ^ bits_of bitSize - 1 < 2 ^ 64"
proof -
  assume "valid_bits bitSize"
  then have "bits_of bitSize \<le> 64" by (auto simp: bits_of_def valid_bits_def)
  then have "(2 :: nat) ^ bits_of bitSize \<le> 2 ^ 64" by (rule power_increasing) simp
  moreover have "(2 :: nat) ^ bits_of bitSize - 1 < 2 ^ bits_of bitSize" by simp
  ultimately show ?thesis by (rule less_le_trans [rotated])
qed

lemma ParseUint_read:
  assumes b: "valid_base base" and z: "valid_bits bitSize" and s: "s \<noteq> []"
  shows "ParseUint s base bitSize =
    (case read_text base (2 ^ bits_of bitSize - 1) s of
       Value v \<Rightarrow> (of_nat v, None)
     | Bad \<Rightarrow> (0, Some (syntaxError ''ParseUint'' s))
     | Big \<Rightarrow> (of_nat (2 ^ bits_of bitSize - 1), Some (rangeError ''ParseUint'' s)))"
proof -
  let ?M = "2 ^ bits_of bitSize - 1 :: nat"
  note M = max_bits [OF z]
  have k: "nat (if bitSize = 0 then 64 else bitSize) = bits_of bitSize" by (simp add: bits_of_def)
  have z2: "0 \<le> bitSize" "bitSize \<le> 64" using z by (simp_all add: valid_bits_def)
  have loop: "uint_loop False b (uint_cutoff b) (push_bit (bits_of bitSize) 1 - 1) t False 0 =
    (case read_digits (nat b) ?M t 0 of Value v \<Rightarrow> Done False (of_nat v) | Bad \<Rightarrow> Early 0 ErrSyntax | Big \<Rightarrow> Early (of_nat ?M) ErrRange)"
    if "2 \<le> b" "b \<le> 36" for b t
  proof -
    have "int (nat b) = b" "2 \<le> nat b" "nat b \<le> 36" using that by simp_all
    then show ?thesis using uint_loop_read [of "nat b" ?M 0 t False] M unfolding push_bit_one by simp
  qed
  show ?thesis
  proof (cases "base = 0")
    case False
    then show ?thesis
      using b loop [of base s] z2 k s
      by (simp add: valid_base_def ParseUint_def Let_def read_text_def syntaxError_def rangeError_def split: read_res.split)
  next
    case True
    obtain c t where ct: "base_prefix s = (c, t)" by fastforce
    then have c: "2 \<le> c" "c \<le> 36" using base_prefix_range [of s] by auto
    show ?thesis
      using loop [OF c, of "filter (\<lambda>c. c \<noteq> underscore) t"] True z2 k s ct
      by (auto simp: ParseUint_def Let_def read_text_def syntaxError_def rangeError_def uint_loop_base0 split: read_res.split)
  qed
qed

text \<open>A sign and the rest.\<close>

definition has_sign :: "bytes \<Rightarrow> bool" where
  "has_sign s \<longleftrightarrow> s \<noteq> [] \<and> (hd s = minus_sign \<or> hd s = byte_of (CHR ''+''))"

definition is_neg :: "bytes \<Rightarrow> bool" where
  "is_neg s \<longleftrightarrow> s \<noteq> [] \<and> hd s = minus_sign"

definition unsigned_part :: "bytes \<Rightarrow> bytes" where
  "unsigned_part s = (if has_sign s then tl s else s)"

text \<open>The number nearest to what does not fit, with the error; but one bit has no such negative number
  in the code.\<close>

definition out_of_range :: "bytes \<Rightarrow> nat \<Rightarrow> u64 \<times> NumError option" where
  "out_of_range s bits =
     (if is_neg s then of_int (- (2 ^ (bits - 1))) else of_int (2 ^ (bits - 1) - 1), Some (rangeError ''ParseInt'' s))"

definition int_result :: "bytes \<Rightarrow> nat \<Rightarrow> read_res \<Rightarrow> u64 \<times> NumError option" where
  "int_result s bits r =
     (case r of Bad \<Rightarrow> (0, Some (syntaxError ''ParseInt'' s))
      | Big \<Rightarrow> if is_neg s \<and> bits = 1 then (- 1, None) else out_of_range s bits
      | Value v \<Rightarrow>
          if is_neg s then if v \<le> 2 ^ (bits - 1) then (of_int (- int v), None) else out_of_range s bits
          else if v < 2 ^ (bits - 1) then (of_int (int v), None) else out_of_range s bits)"

lemma ParseInt_read:
  assumes b: "valid_base base" and z: "valid_bits bitSize" and ne: "unsigned_part s \<noteq> []"
  shows "ParseInt s base bitSize =
    int_result s (bits_of bitSize) (read_text base (2 ^ bits_of bitSize - 1) (unsigned_part s))"
proof -
  have False: "s \<noteq> []" using ne by (auto simp: unsigned_part_def has_sign_def)
  let ?k = "bits_of bitSize" and ?t = "unsigned_part s"
  define c :: nat where "c = 2 ^ (?k - 1)"
  have k: "1 \<le> ?k" "?k \<le> 64" using z by (auto simp: bits_of_def valid_bits_def)
  have c: "1 \<le> c" "c \<le> 2 ^ 63" "2 ^ ?k = 2 * c"
    using k power_increasing [of "?k - 1" 63 "2 :: nat"] power_Suc [of "2 :: nat" "?k - 1"] by (simp_all add: c_def)
  have c1: "c = 1 \<longleftrightarrow> ?k = 1" using k by (auto simp: c_def)
  have neg: "s ! 0 = byte_of (CHR ''-'') \<longleftrightarrow> is_neg s" using False by (simp add: is_neg_def minus_sign_def hd_conv_nth)
  have t: "(if s ! 0 = byte_of (CHR ''+'') \<or> s ! 0 = byte_of (CHR ''-'') then drop 1 s else s) = ?t"
    using False by (auto simp: unsigned_part_def has_sign_def minus_sign_def hd_conv_nth drop_Suc)
  have cut: "(push_bit (nat ((if bitSize = 0 then 64 else bitSize) - 1)) 1 :: u64) = of_nat c"
  proof -
    have "nat ((if bitSize = 0 then 64 else bitSize) - 1) = ?k - 1" using z by (auto simp: bits_of_def valid_bits_def)
    then show ?thesis by (simp add: push_bit_one(2) c_def)
  qed
  have le: "of_nat v \<ge> (of_nat c :: u64) \<longleftrightarrow> c \<le> v" "(of_nat v :: u64) > of_nat c \<longleftrightarrow> c < v" if "v < 2 ^ 64" for v
    using that c(2) by (simp_all add: word_le_nat_alt word_less_nat_alt unat_of_nat)
  have lim: "of_nat c - (1 :: u64) = of_int (2 ^ (?k - 1) - 1)" "- of_nat c = (of_int (- (2 ^ (?k - 1))) :: u64)"
    by (simp_all add: c_def)
  have run: "ParseInt s base bitSize =
    (if err \<noteq> None \<and> err_err (the err) \<noteq> ErrRange then (0, Some ((the err)\<lparr>err_func := ''ParseInt'', err_num := s\<rparr>))
     else if \<not> is_neg s \<and> un \<ge> of_nat c then (of_nat c - 1, Some (rangeError ''ParseInt'' s))
     else if is_neg s \<and> un > of_nat c then (- of_nat c, Some (rangeError ''ParseInt'' s))
     else (if is_neg s then - un else un, None))" if "ParseUint ?t base bitSize = (un, err)" for un err
    unfolding ParseInt_def Let_def t cut unfolding neg that using False by simp
  note un = ParseUint_read [OF b z ne]
  show ?thesis
  proof (cases "read_text base (2 ^ ?k - 1) ?t")
    case Bad
    then have "ParseUint ?t base bitSize = (0, Some (syntaxError ''ParseUint'' ?t))" using un by simp
    from run [OF this] show ?thesis using Bad by (simp add: syntaxError_def int_result_def)
  next
    case Big
    have v: "2 * c - 1 < (2 :: nat) ^ 64" "c \<le> 2 * c - 1" "c < 2 * c - 1 \<longleftrightarrow> c \<noteq> 1" using c(1,2) by auto
    have "ParseUint ?t base bitSize = (of_nat (2 * c - 1), Some (rangeError ''ParseUint'' ?t))"
      using un Big c(3) by simp
    from run [OF this] have "ParseInt s base bitSize = (if \<not> is_neg s then (of_nat c - 1, Some (rangeError ''ParseInt'' s))
        else if c \<noteq> 1 then (- of_nat c, Some (rangeError ''ParseInt'' s)) else (- of_nat (2 * c - 1), None))"
      unfolding le(1) [OF v(1)] le(2) [OF v(1)] v(3) using v(2) by (simp add: rangeError_def)
    then show ?thesis using Big c1 by (cases "c = 1") (simp_all add: int_result_def out_of_range_def lim)
  next
    case (Value v)
    have v: "v < 2 ^ 64" using read_text_max [OF Value] c by simp
    have "ParseUint ?t base bitSize = (of_nat v, None)" using un Value by simp
    from run [OF this] have "ParseInt s base bitSize =
        (if \<not> is_neg s \<and> c \<le> v then (of_nat c - 1, Some (rangeError ''ParseInt'' s))
         else if is_neg s \<and> c < v then (- of_nat c, Some (rangeError ''ParseInt'' s))
         else (if is_neg s then - of_nat v else of_nat v, None))"
      unfolding le(1) [OF v] le(2) [OF v] by simp
    then show ?thesis using Value by (auto simp: int_result_def out_of_range_def lim c_def)
  qed
qed

text \<open>A text, a base or a bit size that is refused.\<close>

lemma Parse_refused:
  "ParseUint [] base bitSize = (0, Some (syntaxError ''ParseUint'' []))"
  "s \<noteq> [] \<Longrightarrow> \<not> valid_base base \<Longrightarrow> ParseUint s base bitSize = (0, Some (baseError ''ParseUint'' s base))"
  "s \<noteq> [] \<Longrightarrow> valid_base base \<Longrightarrow> \<not> valid_bits bitSize \<Longrightarrow>
    ParseUint s base bitSize = (0, Some (bitSizeError ''ParseUint'' s bitSize))"
  by (auto simp: ParseUint_def valid_base_def valid_bits_def Let_def split: prod.split)

lemma ParseInt_fails:
  assumes "ParseUint (unsigned_part s) base bitSize = (0, Some e)" "err_err e \<noteq> ErrRange" "s \<noteq> []"
  shows "ParseInt s base bitSize = (0, Some (e\<lparr>err_func := ''ParseInt'', err_num := s\<rparr>))"
proof -
  have "(if s ! 0 = byte_of (CHR ''+'') \<or> s ! 0 = byte_of (CHR ''-'') then drop 1 s else s) = unsigned_part s"
    using assms(3) by (auto simp: unsigned_part_def has_sign_def minus_sign_def hd_conv_nth drop_Suc)
  then show ?thesis unfolding ParseInt_def Let_def using assms by simp
qed

lemma ParseInt_refused:
  "unsigned_part s = [] \<Longrightarrow> ParseInt s base bitSize = (0, Some (syntaxError ''ParseInt'' s))"
  "unsigned_part s \<noteq> [] \<Longrightarrow> \<not> valid_base base \<Longrightarrow> ParseInt s base bitSize = (0, Some (baseError ''ParseInt'' s base))"
  "unsigned_part s \<noteq> [] \<Longrightarrow> valid_base base \<Longrightarrow> \<not> valid_bits bitSize \<Longrightarrow>
    ParseInt s base bitSize = (0, Some (bitSizeError ''ParseInt'' s bitSize))"
proof -
  have ne: "s \<noteq> []" if "unsigned_part s \<noteq> []" using that by (auto simp: unsigned_part_def has_sign_def)
  show "ParseInt s base bitSize = (0, Some (syntaxError ''ParseInt'' s))" if "unsigned_part s = []"
  proof (cases "s = []")
    case False
    then show ?thesis using ParseInt_fails [of s base bitSize] Parse_refused(1) that by (simp add: syntaxError_def)
  qed (simp add: ParseInt_def)
  show "ParseInt s base bitSize = (0, Some (baseError ''ParseInt'' s base))" if "unsigned_part s \<noteq> []" "\<not> valid_base base"
    using ParseInt_fails [OF Parse_refused(2) [OF that]] ne [OF that(1)] by (simp add: baseError_def)
  show "ParseInt s base bitSize = (0, Some (bitSizeError ''ParseInt'' s bitSize))"
    if "unsigned_part s \<noteq> []" "valid_base base" "\<not> valid_bits bitSize"
    using ParseInt_fails [OF Parse_refused(3) [OF that]] ne [OF that(1)] by (simp add: bitSizeError_def)
qed

text \<open>The case of a base from 2 to 36.\<close>

lemma ParseUint_at:
  assumes "2 \<le> base" "base \<le> 36" "0 \<le> bitSize" "bitSize \<le> 64"
  shows "ParseUint s base bitSize =
      (if s = [] then (0, Some (syntaxError ''ParseUint'' s))
       else case read_digits (nat base) (2 ^ bits_of bitSize - 1) s 0 of
         Value v \<Rightarrow> (of_nat v, None)
       | Bad \<Rightarrow> (0, Some (syntaxError ''ParseUint'' s))
       | Big \<Rightarrow> (of_nat (2 ^ bits_of bitSize - 1), Some (rangeError ''ParseUint'' s)))"
  using ParseUint_read [of base bitSize s] Parse_refused(1) assms by (simp add: valid_base_def valid_bits_def read_text_def)

lemma ParseInt_at:
  assumes "2 \<le> base" "base \<le> 36" "0 \<le> bitSize" "bitSize \<le> 64"
  shows "ParseInt s base bitSize =
      (if unsigned_part s = [] then (0, Some (syntaxError ''ParseInt'' s))
       else int_result s (bits_of bitSize) (read_digits (nat base) (2 ^ bits_of bitSize - 1) (unsigned_part s) 0))"
  using ParseInt_read [of base bitSize s] ParseInt_refused(1) [of s] assms
  by (simp add: valid_base_def valid_bits_def read_text_def)



section \<open>Round trips\<close>

lemma numeral_text_sign:
  assumes "2 \<le> b" "b \<le> 36"
  shows "numeral_text b n \<noteq> []" "\<not> has_sign (numeral_text b n)"
proof -
  have d: "dig d \<noteq> minus_sign \<and> dig d \<noteq> byte_of (CHR ''+'')" if "d < 36" for d
  proof -
    have "list_all (\<lambda>d. dig d \<noteq> minus_sign \<and> dig d \<noteq> byte_of (CHR ''+'')) [0..<36]" by code_simp
    then show ?thesis using that by (simp add: list_all_iff del: upt_rec_numeral)
  qed
  have "\<exists>d ds. numeral_text b n = dig d # ds \<and> d < 36"
  proof (induction n rule: less_induct)
    case (less n)
    show ?case
    proof (cases "n < b")
      case True
      then show ?thesis using assms by (intro exI [of _ n] exI [of _ "[]"]) (simp add: numeral_text_less)
    next
      case False
      then have "n div b < n" using assms by auto
      from less [OF this] show ?thesis using False assms(1) numeral_text_step [of b n] by auto
    qed
  qed
  then show "numeral_text b n \<noteq> []" "\<not> has_sign (numeral_text b n)" using d by (auto simp: has_sign_def)
qed

lemma int_text_parts:
  assumes "2 \<le> base" "base \<le> 36"
  shows "unsigned_part (int_text base i) = numeral_text (nat base) (nat \<bar>i\<bar>)" "is_neg (int_text base i) \<longleftrightarrow> i < 0"
proof -
  have b: "2 \<le> nat base" "nat base \<le> 36" using assms by auto
  note n = numeral_text_sign [OF b, of "nat \<bar>i\<bar>"]
  show "unsigned_part (int_text base i) = numeral_text (nat base) (nat \<bar>i\<bar>)" "is_neg (int_text base i) \<longleftrightarrow> i < 0"
    using n by (auto simp: int_text_def unsigned_part_def has_sign_def is_neg_def)
qed

lemma sint_range: "- (2 ^ 63) \<le> sint (i :: u64)" "sint i < 2 ^ 63"
  using sint_ge [of i] sint_lt [of i] by simp_all

lemma format_parse:
  assumes "2 \<le> base" "base \<le> 36"
  shows "\<exists>si su. FormatInt i base = Ret si \<and> ParseInt si base 64 = (i, None) \<and> AppendInt dst i base = Ret (dst @ si) \<and>
    FormatUint i base = Ret su \<and> ParseUint su base 64 = (i, None) \<and> AppendUint dst i base = Ret (dst @ su)"
proof -
  let ?b = "nat base"
  have b: "2 \<le> ?b" "?b \<le> 36" using assms by auto
  have k: "bits_of 64 = 64" by (simp add: bits_of_def)
  have "nat \<bar>sint i\<bar> \<le> 2 ^ 64 - 1" using sint_range [of i] by auto
  then have "read_digits ?b (2 ^ 64 - 1) (numeral_text ?b (nat \<bar>sint i\<bar>)) 0 = Value (nat \<bar>sint i\<bar>)" by (rule read_numeral [OF b])
  moreover have "int_result (int_text base (sint i)) 64 (Value (nat \<bar>sint i\<bar>)) = (i, None)"
    using sint_range [of i] int_text_parts(2) [OF assms, of "sint i"]
    by (auto simp: int_result_def nat_le_iff nat_less_iff simp flip: of_int_minus)
  ultimately have "ParseInt (int_text base (sint i)) base 64 = (i, None)"
    using ParseInt_at [OF assms, of 64] numeral_text_sign(1) [OF b] by (simp add: int_text_parts [OF assms] k)
  moreover have "ParseUint (int_text base (uint i)) base 64 = (i, None)"
  proof -
    have t: "int_text base (uint i) = numeral_text ?b (unat i)" by (simp add: int_text_def)
    have "unat i \<le> 2 ^ 64 - 1" using unsigned_less [of i, where 'a = nat] by simp
    then have "read_digits ?b (2 ^ 64 - 1) (numeral_text ?b (unat i)) 0 = Value (unat i)" by (rule read_numeral [OF b])
    then show ?thesis using ParseUint_at [OF assms, of 64] numeral_text_sign(1) [OF b] unfolding t by (simp add: k)
  qed
  ultimately show ?thesis using FormatInt_text [OF assms] FormatUint_text [OF assms] by blast
qed

text \<open>C28. What \<open>FormatInt\<close> and \<open>FormatUint\<close> write in any base from 2 to 36 parses back to the same
  number without an error, for every 64-bit integer, on all three paths of \<open>formatBits\<close>; and the
  \<open>Append\<close> functions append just that text.\<close>

theorem Format_Parse_roundtrip:
  assumes "2 \<le> base" "base \<le> 36"
  shows "\<exists>si su. FormatInt i base = Ret si \<and> ParseInt si base 64 = (i, None) \<and> AppendInt dst i base = Ret (dst @ si) \<and>
    FormatUint i base = Ret su \<and> ParseUint su base 64 = (i, None) \<and> AppendUint dst i base = Ret (dst @ su)"
  by (rule format_parse [OF assms])

theorem Format_Parse_roundtrip_witness:
  "\<exists>si. FormatInt (- 5) 2 = Ret si \<and> ParseInt si 2 64 = (- 5, None)"
  using Format_Parse_roundtrip [of 2 "- 5"] by auto

section \<open>Atoi\<close>

lemma atoi_digit:
  "(if c - byte_of (CHR ''0'') > 9 then None else Some (unat (c - byte_of (CHR ''0'')))) =
    (case digit_value c of None \<Rightarrow> None | Some d \<Rightarrow> if d < 10 then Some d else None)"
proof -
  have z: "byte_of (CHR ''0'') = 48" by (simp add: byte_of_def)
  show ?thesis
  proof (cases "48 \<le> unat c \<and> unat c \<le> 57")
    case True
    then have "unat (c - 48) = unat c - 48" by (simp add: unat_sub word_le_nat_alt)
    then show ?thesis using True by (auto simp: z digit_value_def word_less_nat_alt)
  next
    case False
    have "9 < c - 48"
    proof (cases "48 \<le> unat c")
      case True
      then have "unat (c - 48) = unat c - 48" by (simp add: unat_sub word_le_nat_alt)
      then show ?thesis using True False by (simp add: word_less_nat_alt)
    next
      case lt: False
      have "unat (c - 48) = 256 + unat c - 48" using lt unat_sub_if' [of c 48] by (simp add: unat_sub_if_size word_le_nat_alt)
      then show ?thesis using lt by (simp add: word_less_nat_alt)
    qed
    then show ?thesis using False by (auto simp: z digit_value_def split: option.split)
  qed
qed

lemma atoi_loop_read:
  "n < 10 ^ k \<Longrightarrow> k + length t \<le> 18 \<Longrightarrow>
    (case read_digits 10 (2 ^ 64 - 1) t n of
      Value v \<Rightarrow> atoi_loop t (of_nat n) = Some (of_nat v) \<and> v < 10 ^ 18
    | Bad \<Rightarrow> atoi_loop t (of_nat n) = None | Big \<Rightarrow> False)"
proof (induction t arbitrary: n k)
  case Nil
  have "(10 :: nat) ^ k \<le> 10 ^ 18" using Nil(2) by (intro power_increasing) simp_all
  then show ?case using Nil(1) by simp
next
  case (Cons c t)
  note dc = atoi_digit [of c]
  show ?case
  proof (cases "case digit_value c of None \<Rightarrow> None | Some d \<Rightarrow> if d < 10 then Some d else None")
    case None
    then have "atoi_loop (c # t) (of_nat n) = None" using dc by (simp add: Let_def split: if_splits)
    moreover have "read_digits 10 (2 ^ 64 - 1) (c # t) n = Bad" using None by (auto split: option.splits if_splits)
    ultimately show ?thesis by (simp only: read_res.case)
  next
    case (Some d)
    then have d: "digit_value c = Some d" "d < 10" by (auto split: option.splits if_splits)
    have c: "\<not> c - byte_of (CHR ''0'') > 9" "unat (c - byte_of (CHR ''0'')) = d" using dc Some by (auto split: if_splits)
    then have "ucast (c - byte_of (CHR ''0'')) = (of_nat d :: u64)"
      using of_nat_unat [of "c - byte_of (CHR ''0'')", where 'a = "64 word"] by simp
    then have step: "atoi_loop (c # t) (of_nat n) = atoi_loop t (of_nat (n * 10 + d))" using c(1) by (simp add: Let_def)
    have n: "n * 10 + d < 10 ^ Suc k" using Cons.prems(1) d(2) by simp
    have "(10 :: nat) ^ Suc k \<le> 10 ^ 18" using Cons.prems(2) by (intro power_increasing) simp_all
    then have "n * 10 + d \<le> 2 ^ 64 - 1" using n by simp
    then have rd: "read_digits 10 (2 ^ 64 - 1) (c # t) n = read_digits 10 (2 ^ 64 - 1) t (n * 10 + d)" using d by simp
    have "Suc k + length t \<le> 18" using Cons.prems(2) by simp
    from Cons.IH [OF n this] show ?thesis unfolding rd step .
  qed
qed

text \<open>The fast path of \<open>Atoi\<close>, for fewer than 19 bytes.\<close>

lemma Atoi_fast:
  assumes short: "0 < length s" "length s < 19"
  shows "Atoi s = (fst (ParseInt s 10 0), map_option (\<lambda>e. e\<lparr>err_func := ''Atoi''\<rparr>) (snd (ParseInt s 10 0)))"
proof -
  have ne: "s \<noteq> []" using short by auto
  let ?t = "unsigned_part s"
  have sg: "(s ! 0 = byte_of (CHR ''-'') \<or> s ! 0 = byte_of (CHR ''+'')) \<longleftrightarrow> has_sign s" "s ! 0 = byte_of (CHR ''-'') \<longleftrightarrow> is_neg s"
    using ne by (simp_all add: has_sign_def is_neg_def minus_sign_def hd_conv_nth)
  have t: "(if has_sign s then drop 1 s else s) = ?t" by (simp add: unsigned_part_def drop_Suc)
  have at: "Atoi s = (if has_sign s \<and> length ?t < 1 then (0, Some (syntaxError ''Atoi'' s))
      else case atoi_loop ?t 0 of None \<Rightarrow> (0, Some (syntaxError ''Atoi'' s)) | Some n \<Rightarrow> (if is_neg s then - n else n, None))"
    unfolding Atoi_def Let_def sg(1) t unfolding sg(2) using short by simp
  have p: "ParseInt s 10 0 = (if ?t = [] then (0, Some (syntaxError ''ParseInt'' s))
      else int_result s 64 (read_digits 10 (2 ^ 64 - 1) ?t 0))"
    using ParseInt_at [of 10 0 s] by (simp add: bits_of_def)
  have l: "length ?t \<le> 18" using short by (auto simp: unsigned_part_def)
  have e: "(syntaxError ''ParseInt'' s)\<lparr>err_func := ''Atoi''\<rparr> = syntaxError ''Atoi'' s" by (simp add: syntaxError_def)
  show ?thesis
  proof (cases "?t = []")
    case True
    then have "has_sign s" using ne by (auto simp: unsigned_part_def split: if_splits)
    then show ?thesis using True at p e by simp
  next
    case False
    have r: "case read_digits 10 (2 ^ 64 - 1) ?t 0 of Value v \<Rightarrow> atoi_loop ?t 0 = Some (of_nat v) \<and> v < 10 ^ 18
        | Bad \<Rightarrow> atoi_loop ?t 0 = None | Big \<Rightarrow> False"
      using atoi_loop_read [of 0 0 ?t] l by (simp split: read_res.splits)
    show ?thesis
    proof (cases "read_digits 10 (2 ^ 64 - 1) ?t 0")
      case (Value v)
      then have "atoi_loop ?t 0 = Some (of_nat v)" "v < 10 ^ 18" using r by simp_all
      then show ?thesis using Value False at p by (simp add: int_result_def)
    next
      case Bad
      then have "atoi_loop ?t 0 = None" using r by simp
      then show ?thesis using Bad False at p e by (simp add: int_result_def)
    next
      case Big
      then show ?thesis using r by simp
    qed
  qed
qed

text \<open>C29. \<open>Atoi\<close> is \<open>ParseInt\<close> in base 10 for the size of \<open>int\<close>, as its comment says, but for the name in
  the error: the fast path for fewer than 19 bytes, which does not check for overflow, gives the same
  values and the same errors.  What \<open>Itoa\<close> writes, \<open>Atoi\<close> reads back.\<close>

theorem Atoi_ParseInt:
  "Atoi s = (fst (ParseInt s 10 0), map_option (\<lambda>e. e\<lparr>err_func := ''Atoi''\<rparr>) (snd (ParseInt s 10 0))) \<and>
    (\<exists>si. Itoa i = Ret si \<and> Atoi si = (i, None))"
proof -
  have eq: "Atoi s = (fst (ParseInt s 10 0), map_option (\<lambda>e. e\<lparr>err_func := ''Atoi''\<rparr>) (snd (ParseInt s 10 0)))" for s
    by (cases "0 < length s \<and> length s < 19") (simp_all add: Atoi_fast, auto simp: Atoi_def case_prod_beta)
  obtain si where si: "FormatInt i 10 = Ret si" "ParseInt si 10 64 = (i, None)"
    using format_parse [of 10 i] by auto
  have "ParseInt si 10 0 = ParseInt si 10 64"
    using ParseInt_at [of 10 0 si] ParseInt_at [of 10 64 si] by (simp add: bits_of_def)
  then show ?thesis using eq si by (simp add: Itoa_def)
qed

end
