(* ===== verification/Sema.thy ===== *)
theory Sema
  imports Prelude
begin

text \<open>
  The semaphores that \<open>sync\<close> sleeps on (\<open>runtime/sema.go\<close>: \<open>semacquire1\<close>, \<open>semrelease1\<close>), for one
  address and any number of goroutines, step by step: a step is an atomic access to the count or to
  \<open>nwait\<close>, or the code between taking and releasing the lock of the root after its last such
  access.  The waiters of the address are a list here; the treap that holds the lists of all
  addresses is the subject of \<open>Sema_Treap\<close>.

  Other addresses share the root.  What they add to \<open>nwait\<close> is an argument of the steps that read
  it, any number each time; that they hold the lock for a while delays a step and has no other
  effect.  A step that waits for the lock, or for a wake-up, is \<open>Spin\<close>.
\<close>

section \<open>State\<close>

text \<open>Where a goroutine is in \<open>semacquire1\<close> or \<open>semrelease1\<close>.\<close>

datatype spc =
    Outside                 \<comment> \<open>in neither\<close>
  | AcqTry bool             \<comment> \<open>before the first \<open>cansemacquire\<close>; the argument is \<open>lifo\<close>\<close>
  | AcqLock bool            \<comment> \<open>at the head of the loop\<close>
  | AcqRecheck bool         \<comment> \<open>holds the lock, has incremented \<open>nwait\<close>\<close>
  | AcqQueue bool           \<comment> \<open>holds the lock, found the count 0\<close>
  | Asleep bool             \<comment> \<open>in \<open>goparkunlock\<close>, its sudog queued\<close>
  | Dequeued bool           \<comment> \<open>in \<open>goparkunlock\<close>, its sudog taken off by a releaser\<close>
  | Woken bool bool         \<comment> \<open>returned from \<open>goparkunlock\<close>; whether its ticket is set, and \<open>lifo\<close>\<close>
  | RelAdd bool             \<comment> \<open>before the increment; the argument is \<open>handoff\<close>\<close>
  | RelCheck bool           \<comment> \<open>before the first test of \<open>nwait\<close>\<close>
  | RelDequeue bool         \<comment> \<open>before taking the lock\<close>
  | RelReady bool nat       \<comment> \<open>after the lock, with a waiter to make ready\<close>

record sema =
  cnt :: u32
  nwait :: u32
  root_lock :: "nat option"
  waiters :: "nat list"
  spcs :: "spc list"

abbreviation at :: "nat \<Rightarrow> spc \<Rightarrow> 'a sema_scheme \<Rightarrow> 'a sema_scheme" where
  "at g p s \<equiv> s\<lparr>spcs := (spcs s)[g := p]\<rparr>"

section \<open>Operations\<close>

text \<open>The loop of \<open>cansemacquire\<close> retries only when another goroutine changed the count, so the whole
  is one atomic operation: a decrement unless the count is 0.\<close>

definition cansemacquire :: "'a sema_scheme \<Rightarrow> bool \<times> 'a sema_scheme" where
  "cansemacquire s = (if cnt s = 0 then (False, s) else (True, s\<lparr>cnt := cnt s - 1\<rparr>))"

text \<open>\<open>root.queue\<close> for an address: at the front of its list with \<open>lifo\<close>, at the end without.\<close>

definition sema_queue :: "nat \<Rightarrow> bool \<Rightarrow> nat list \<Rightarrow> nat list" where
  "sema_queue g lifo ws = (if lifo then g # ws else ws @ [g])"

fun semacquire_step :: "nat \<Rightarrow> spc \<Rightarrow> 'a sema_scheme \<Rightarrow> 'a sema_scheme outcome" where
  "semacquire_step g (AcqTry lifo) s =
     (let (ok, s) = cansemacquire s in Ret (at g (if ok then Outside else AcqLock lifo) s))"
| "semacquire_step g (AcqLock lifo) s =
     (if root_lock s \<noteq> None then Spin
      else Ret (at g (AcqRecheck lifo) (s\<lparr>root_lock := Some g, nwait := nwait s + 1\<rparr>)))"
| "semacquire_step g (AcqRecheck lifo) s =
     (let (ok, s) = cansemacquire s
      in if ok then Ret (at g Outside (s\<lparr>nwait := nwait s - 1, root_lock := None\<rparr>))
         else Ret (at g (AcqQueue lifo) s))"
| "semacquire_step g (AcqQueue lifo) s =
     Ret (at g (Asleep lifo) (s\<lparr>waiters := sema_queue g lifo (waiters s), root_lock := None\<rparr>))"
| "semacquire_step g (Woken ticket lifo) s =
     (if ticket then Ret (at g Outside s)
      else let (ok, s) = cansemacquire s in Ret (at g (if ok then Outside else AcqLock lifo) s))"
| "semacquire_step g _ s = Spin"

fun lifo_of :: "spc \<Rightarrow> bool" where
  "lifo_of (Asleep lifo) = lifo"
| "lifo_of (Dequeued lifo) = lifo"
| "lifo_of _ = False"

fun semrelease_step :: "nat \<Rightarrow> nat \<Rightarrow> spc \<Rightarrow> 'a sema_scheme \<Rightarrow> 'a sema_scheme outcome" where
  "semrelease_step g oth (RelAdd handoff) s = Ret (at g (RelCheck handoff) (s\<lparr>cnt := cnt s + 1\<rparr>))"
| "semrelease_step g oth (RelCheck handoff) s =
     Ret (at g (if unat (nwait s) + oth = 0 then Outside else RelDequeue handoff) s)"
| "semrelease_step g oth (RelDequeue handoff) s =
     (if root_lock s \<noteq> None then Spin
      else if unat (nwait s) + oth = 0 then Ret (at g Outside s)
      else case waiters s of
          [] \<Rightarrow> Ret (at g Outside s)
        | w # ws \<Rightarrow>
            Ret (at g (RelReady handoff w)
              (at w (Dequeued (lifo_of (spcs s ! w))) (s\<lparr>waiters := ws, nwait := nwait s - 1\<rparr>))))"
| "semrelease_step g oth (RelReady handoff w) s =
     (let (ticket, s) = (if handoff then cansemacquire s else (False, s))
      in Ret (at g Outside (at w (Woken ticket (lifo_of (spcs s ! w))) s)))"
| "semrelease_step g oth _ s = Spin"

fun is_release :: "spc \<Rightarrow> bool" where
  "is_release (RelAdd h) = True"
| "is_release (RelCheck h) = True"
| "is_release (RelDequeue h) = True"
| "is_release (RelReady h w) = True"
| "is_release _ = False"

definition sema_step :: "nat \<Rightarrow> nat \<Rightarrow> 'a sema_scheme \<Rightarrow> 'a sema_scheme outcome" where
  "sema_step g oth s =
     (if is_release (spcs s ! g) then semrelease_step g oth (spcs s ! g) s
      else semacquire_step g (spcs s ! g) s)"

definition semacquire :: "nat \<Rightarrow> bool \<Rightarrow> 'a sema_scheme \<Rightarrow> 'a sema_scheme" where
  "semacquire g lifo s = at g (AcqTry lifo) s"

definition semrelease :: "nat \<Rightarrow> bool \<Rightarrow> 'a sema_scheme \<Rightarrow> 'a sema_scheme" where
  "semrelease g handoff s = at g (RelAdd handoff) s"

end
