(* ===== verification/Sema_Spec.thy ===== *)
theory Sema_Spec
  imports Sema
begin

text \<open>
  What the semaphores promise, in every interleaving: the count is taken as often as it was given,
  and no goroutine sleeps while the count is positive unless another is on its way to wake it.
\<close>

section \<open>The invariant\<close>

fun is_asleep :: "spc \<Rightarrow> bool" where
  "is_asleep (Asleep l) = True"
| "is_asleep _ = False"

fun is_dequeued :: "spc \<Rightarrow> bool" where
  "is_dequeued (Dequeued l) = True"
| "is_dequeued _ = False"

fun in_lock :: "spc \<Rightarrow> bool" where
  "in_lock (AcqRecheck l) = True"
| "in_lock (AcqQueue l) = True"
| "in_lock _ = False"

fun readies :: "nat \<Rightarrow> spc \<Rightarrow> bool" where
  "readies v (RelReady h w) = (v = w)"
| "readies v _ = False"

text \<open>Those that take the count, or make a waiter try, before they finish.\<close>

fun is_waking :: "spc \<Rightarrow> bool" where
  "is_waking (RelCheck h) = True"
| "is_waking (RelDequeue h) = True"
| "is_waking (RelReady h w) = True"
| "is_waking (Woken t l) = (\<not> t)"
| "is_waking _ = False"

fun is_queueing :: "spc \<Rightarrow> bool" where
  "is_queueing (AcqQueue l) = True"
| "is_queueing _ = False"

definition waiting :: "'a sema_scheme \<Rightarrow> bool" where
  "waiting s \<longleftrightarrow> waiters s \<noteq> [] \<or> 0 < num is_queueing (spcs s)"

definition sema_inv :: "'a sema_scheme \<Rightarrow> bool" where
  "sema_inv s \<longleftrightarrow>
     length (spcs s) < 2 ^ 32 \<and>
     distinct (waiters s) \<and>
     (\<forall>w. w \<in> set (waiters s) \<longleftrightarrow> w < length (spcs s) \<and> is_asleep (spcs s ! w)) \<and>
     (\<forall>g<length (spcs s). in_lock (spcs s ! g) \<longleftrightarrow> root_lock s = Some g) \<and>
     (\<forall>g. root_lock s = Some g \<longrightarrow> g < length (spcs s)) \<and>
     unat (nwait s) = length (waiters s) + of_bool (root_lock s \<noteq> None) \<and>
     (\<forall>g<length (spcs s). \<forall>w. readies w (spcs s ! g) \<longrightarrow> w < length (spcs s) \<and> is_dequeued (spcs s ! w)) \<and>
     (\<forall>w<length (spcs s). is_dequeued (spcs s ! w) \<longrightarrow> num (readies w) (spcs s) = 1) \<and>
     (waiting s \<longrightarrow> unat (cnt s) \<le> num is_waking (spcs s))"

lemma sema_invD:
  assumes "sema_inv s"
  shows "length (spcs s) < 2 ^ 32" "distinct (waiters s)"
    and "w \<in> set (waiters s) \<longleftrightarrow> w < length (spcs s) \<and> is_asleep (spcs s ! w)"
    and "g < length (spcs s) \<Longrightarrow> in_lock (spcs s ! g) \<longleftrightarrow> root_lock s = Some g"
    and "root_lock s = Some g \<Longrightarrow> g < length (spcs s)"
    and "unat (nwait s) = length (waiters s) + of_bool (root_lock s \<noteq> None)"
    and "g < length (spcs s) \<Longrightarrow> readies w (spcs s ! g) \<Longrightarrow> w < length (spcs s) \<and> is_dequeued (spcs s ! w)"
    and "w < length (spcs s) \<Longrightarrow> is_dequeued (spcs s ! w) \<Longrightarrow> num (readies w) (spcs s) = 1"
    and "waiting s \<Longrightarrow> unat (cnt s) \<le> num is_waking (spcs s)"
  using assms unfolding sema_inv_def by blast+

lemma waiters_bound: "sema_inv s \<Longrightarrow> length (waiters s) \<le> num is_asleep (spcs s)"
proof -
  assume i: "sema_inv s"
  have "card (set (waiters s)) \<le> card {w. w < length (spcs s) \<and> is_asleep (spcs s ! w)}"
    using sema_invD(3) [OF i] by (intro card_mono) auto
  then show ?thesis using sema_invD(2) [OF i] by (simp add: distinct_card num_def length_filter_conv_card)
qed


section \<open>The invariant is kept\<close>

text \<open>A step of one goroutine that touches the count at most.\<close>

fun is_local :: "spc \<Rightarrow> bool" where
  "is_local (Asleep l) = False"
| "is_local (Dequeued l) = False"
| "is_local (AcqRecheck l) = False"
| "is_local (AcqQueue l) = False"
| "is_local (RelReady h w) = False"
| "is_local _ = True"

lemma is_localD:
  "is_local p \<Longrightarrow> \<not> is_asleep p \<and> \<not> is_dequeued p \<and> \<not> in_lock p \<and> \<not> readies w p \<and> \<not> is_queueing p"
  by (cases p) auto

lemma num_at:
  "g < length xs \<Longrightarrow> P (xs ! g) = P q \<Longrightarrow> num P (xs[g := q]) = num P xs"
  using num_update [of g xs P q] by simp

lemma inv_local:
  assumes i: "sema_inv s" and g: "g < length (spcs s)" and p: "is_local (spcs s ! g)" and q: "is_local q"
    and c: "waiting s \<Longrightarrow> c \<noteq> 0 \<Longrightarrow> unat c + of_bool (is_waking (spcs s ! g)) \<le> unat (cnt s) + of_bool (is_waking q)"
  shows "sema_inv (at g q (s\<lparr>cnt := c\<rparr>))"
proof -
  note l = is_localD [OF p] is_localD [OF q]
  have r: "num (readies w) ((spcs s)[g := q]) = num (readies w) (spcs s)" for w
    using g l by (intro num_at) auto
  have w: "waiting (at g q (s\<lparr>cnt := c\<rparr>)) \<longleftrightarrow> waiting s"
    using num_at [OF g, of is_queueing q] l by (simp add: waiting_def)
  show ?thesis
    unfolding sema_inv_def
    apply (intro conjI)
    subgoal using sema_invD(1) [OF i] by simp
    subgoal using sema_invD(2) [OF i] by simp
    subgoal using sema_invD(3) [OF i] l by (auto simp: nth_upd)
    subgoal using sema_invD(4) [OF i] l by (auto simp: nth_upd)
    subgoal using sema_invD(5) [OF i] by simp
    subgoal using sema_invD(6) [OF i] by simp
    subgoal using sema_invD(7) [OF i] l by (auto simp: nth_upd)
    subgoal using sema_invD(8) [OF i] l r by (auto simp: nth_upd)
    subgoal using sema_invD(9) [OF i] w c num_update [OF g, of is_waking q] by (cases "c = 0") auto
    done
qed

lemma nwait_bound:
  assumes i: "sema_inv s" and g: "g < length (spcs s)" "\<not> is_asleep (spcs s ! g)"
  shows "length (waiters s) + 1 < 2 ^ 32"
proof -
  have "num is_asleep ((spcs s)[g := Asleep True]) = num is_asleep (spcs s) + 1"
    using num_update [OF g(1), of is_asleep "Asleep True"] g(2) by simp
  then have "num is_asleep (spcs s) + 1 \<le> length (spcs s)"
    using num_le_length [of is_asleep "(spcs s)[g := Asleep True]"] by simp
  then show ?thesis using waiters_bound [OF i] sema_invD(1) [OF i] by linarith
qed

lemma unat_Suc: "unat (x :: u32) + 1 < 2 ^ 32 \<Longrightarrow> unat (x + 1) = unat x + 1"
  by (simp add: unat_word_ariths)

lemma unat_pred: "x \<noteq> (0 :: u32) \<Longrightarrow> unat (x - 1) = unat x - 1"
  by (simp add: unat_minus_one)

lemma unat_pos: "x \<noteq> (0 :: u32) \<longleftrightarrow> 0 < unat x"
  by (simp add: unat_gt_0)

lemma readies_at:
  assumes i: "sema_inv s" and g: "\<not> is_dequeued (spcs s ! g)" "\<And>w. \<not> readies w q"
  shows "\<forall>v<length (spcs s). \<forall>w. readies w ((spcs s)[g := q] ! v) \<longrightarrow>
    w < length (spcs s) \<and> is_dequeued ((spcs s)[g := q] ! w)"
proof (intro allI impI)
  fix v w assume v: "v < length (spcs s)" "readies w ((spcs s)[g := q] ! v)"
  then have "readies w (spcs s ! v)" using g(2) by (simp add: nth_upd split: if_splits)
  from sema_invD(7) [OF i v(1) this] g(1)
  show "w < length (spcs s) \<and> is_dequeued ((spcs s)[g := q] ! w)" by (cases "g = w") auto
qed

lemma inv_lock:
  assumes i: "sema_inv s" and g: "g < length (spcs s)" and p: "spcs s ! g = AcqLock l" and n: "root_lock s = None"
  shows "sema_inv (at g (AcqRecheck l) (s\<lparr>root_lock := Some g, nwait := nwait s + 1\<rparr>))"
proof -
  have b: "unat (nwait s) + 1 < 2 ^ 32"
    using nwait_bound [OF i g] p n sema_invD(6) [OF i] by simp
  have r: "num (readies w) ((spcs s)[g := AcqRecheck l]) = num (readies w) (spcs s)" for w
    using g p by (intro num_at) auto
  have w: "num is_waking ((spcs s)[g := AcqRecheck l]) = num is_waking (spcs s)"
    "num is_queueing ((spcs s)[g := AcqRecheck l]) = num is_queueing (spcs s)"
    using g p by (auto intro!: num_at)
  show ?thesis
    unfolding sema_inv_def
    apply (intro conjI)
    subgoal using sema_invD(1) [OF i] by simp
    subgoal using sema_invD(2) [OF i] by simp
    subgoal using sema_invD(3) [OF i] p by (auto simp: nth_upd)
    subgoal using sema_invD(4) [OF i] p n by (auto simp: nth_upd)
    subgoal using g by simp
    subgoal using sema_invD(6) [OF i] n unat_Suc [OF b] by simp
    subgoal using readies_at [OF i, of g "AcqRecheck l"] p by simp
    subgoal using sema_invD(8) [OF i] p r by (auto simp: nth_upd)
    subgoal using sema_invD(9) [OF i] w by (auto simp: waiting_def)
    done
qed

lemma inv_recheck_ok:
  assumes i: "sema_inv s" and g: "g < length (spcs s)" and p: "spcs s ! g = AcqRecheck l" and n: "cnt s \<noteq> 0"
  shows "sema_inv (at g Outside (s\<lparr>cnt := cnt s - 1, nwait := nwait s - 1, root_lock := None\<rparr>))"
proof -
  have k: "root_lock s = Some g" using sema_invD(4) [OF i g] p by simp
  have nz: "nwait s \<noteq> 0" using sema_invD(6) [OF i] k by (auto simp: unat_pos)
  have r: "num (readies w) ((spcs s)[g := Outside]) = num (readies w) (spcs s)" for w
    using g p by (intro num_at) auto
  have w: "num is_waking ((spcs s)[g := Outside]) = num is_waking (spcs s)"
    "num is_queueing ((spcs s)[g := Outside]) = num is_queueing (spcs s)"
    using g p by (auto intro!: num_at)
  show ?thesis
    unfolding sema_inv_def
    apply (intro conjI)
    subgoal using sema_invD(1) [OF i] by simp
    subgoal using sema_invD(2) [OF i] by simp
    subgoal using sema_invD(3) [OF i] p by (auto simp: nth_upd)
    subgoal using sema_invD(4) [OF i] p k by (auto simp: nth_upd)
    subgoal by simp
    subgoal using sema_invD(6) [OF i] k unat_pred [OF nz] by simp
    subgoal using readies_at [OF i, of g "Outside"] p by simp
    subgoal using sema_invD(8) [OF i] p r by (auto simp: nth_upd)
    subgoal using sema_invD(9) [OF i] w unat_pred [OF n] by (auto simp: waiting_def)
    done
qed

lemma inv_recheck_fail:
  assumes i: "sema_inv s" and g: "g < length (spcs s)" and p: "spcs s ! g = AcqRecheck l" and n: "cnt s = 0"
  shows "sema_inv (at g (AcqQueue l) s)"
proof -
  have r: "num (readies w) ((spcs s)[g := AcqQueue l]) = num (readies w) (spcs s)" for w
    using g p by (intro num_at) auto
  show ?thesis
    unfolding sema_inv_def
    apply (intro conjI)
    subgoal using sema_invD(1) [OF i] by simp
    subgoal using sema_invD(2) [OF i] by simp
    subgoal using sema_invD(3) [OF i] p by (auto simp: nth_upd)
    subgoal using sema_invD(4) [OF i] sema_invD(4) [OF i g] p by (auto simp: nth_upd)
    subgoal using sema_invD(5) [OF i] by simp
    subgoal using sema_invD(6) [OF i] by simp
    subgoal using readies_at [OF i, of g "AcqQueue l"] p by simp
    subgoal using sema_invD(8) [OF i] p r by (auto simp: nth_upd)
    subgoal using n by simp
    done
qed

lemma inv_queue:
  assumes i: "sema_inv s" and g: "g < length (spcs s)" and p: "spcs s ! g = AcqQueue l"
  shows "sema_inv (at g (Asleep l) (s\<lparr>waiters := sema_queue g l (waiters s), root_lock := None\<rparr>))"
proof -
  have k: "root_lock s = Some g" using sema_invD(4) [OF i g] p by simp
  have gw: "g \<notin> set (waiters s)" using sema_invD(3) [OF i] p by auto
  have wt: "waiting s" unfolding waiting_def num_pos using g p by auto
  have r: "num (readies w) ((spcs s)[g := Asleep l]) = num (readies w) (spcs s)" for w
    using g p by (intro num_at) auto
  have w: "num is_waking ((spcs s)[g := Asleep l]) = num is_waking (spcs s)"
    using g p by (auto intro!: num_at)
  show ?thesis
    unfolding sema_inv_def
    apply (intro conjI)
    subgoal using sema_invD(1) [OF i] by simp
    subgoal using sema_invD(2) [OF i] gw by (simp add: sema_queue_def)
    subgoal using sema_invD(3) [OF i] p g by (auto simp: nth_upd sema_queue_def)
    subgoal using sema_invD(4) [OF i] p k by (auto simp: nth_upd)
    subgoal by simp
    subgoal using sema_invD(6) [OF i] k by (simp add: sema_queue_def)
    subgoal using readies_at [OF i, of g "Asleep l"] p by simp
    subgoal using sema_invD(8) [OF i] p r by (auto simp: nth_upd)
    subgoal using sema_invD(9) [OF i wt] w by simp
    done
qed

lemma inv_dequeue:
  assumes i: "sema_inv s" and g: "g < length (spcs s)" and p: "spcs s ! g = RelDequeue h"
    and n: "root_lock s = None" and ws: "waiters s = w # ws"
  shows "sema_inv (at g (RelReady h w) (at w (Dequeued l) (s\<lparr>waiters := ws, nwait := nwait s - 1\<rparr>)))"
proof -
  have w: "w < length (spcs s)" "is_asleep (spcs s ! w)" using sema_invD(3) [OF i, of w] ws by auto
  then have gw: "g \<noteq> w" using p by auto
  have nz: "nwait s \<noteq> 0" using sema_invD(6) [OF i] ws by (auto simp: unat_pos)
  let ?xs = "(spcs s)[w := Dequeued l]" let ?ys = "?xs[g := RelReady h w]"
  have no: "num (readies w) (spcs s) = 0"
    using num_pos [of "readies w" "spcs s"] sema_invD(7) [OF i, of _ w] w(2) by (cases "spcs s ! w") auto
  have r: "num (readies v) ?ys = num (readies v) (spcs s) + of_bool (v = w)" for v
    using num_update [of g ?xs "readies v" "RelReady h w"] num_at [OF w(1), of "readies v" "Dequeued l"] g gw p w(2)
    by (cases "spcs s ! w") auto
  have a: "num is_waking ?ys = num is_waking (spcs s)" "num is_queueing ?ys = num is_queueing (spcs s)"
    using num_at [of g ?xs is_waking "RelReady h w"] num_at [OF w(1), of is_waking "Dequeued l"]
      num_at [of g ?xs is_queueing "RelReady h w"] num_at [OF w(1), of is_queueing "Dequeued l"] g gw p w(2)
    by (cases "spcs s ! w"; simp)+
  have lk: "\<not> in_lock (spcs s ! v)" if "v < length (spcs s)" for v
    using sema_invD(4) [OF i that] n by simp
  have wt: "v \<in> set ws \<longleftrightarrow> v < length (spcs s) \<and> is_asleep (?ys ! v)" for v
    using sema_invD(3) [OF i, of v] sema_invD(2) [OF i] p g w ws
    by (cases "v = g"; cases "v = w") (auto simp: nth_upd)
  have rd: "v < length (spcs s) \<and> is_dequeued (?ys ! v)" if u: "u < length (spcs s)" "readies v (?ys ! u)" for u v
  proof (cases "u = g")
    case True
    then show ?thesis using u w(1) g gw by (auto simp: nth_upd)
  next
    case False
    then have "readies v (spcs s ! u)" using u by (auto simp: nth_upd split: if_splits)
    from sema_invD(7) [OF i u(1) this] show ?thesis using p w(1) by (auto simp: nth_upd)
  qed
  show ?thesis
    unfolding sema_inv_def
    apply (intro conjI)
    subgoal using sema_invD(1) [OF i] by simp
    subgoal using sema_invD(2) [OF i] ws by simp
    subgoal using wt by simp
    subgoal using n lk by (auto simp: nth_upd)
    subgoal using n by simp
    subgoal using sema_invD(6) [OF i] ws n unat_pred [OF nz] by simp
    subgoal using rd by simp
    subgoal using sema_invD(8) [OF i] r no w g gw by (auto simp: nth_upd)
    subgoal using sema_invD(9) [OF i] a ws by (auto simp: waiting_def)
    done
qed


lemma inv_ready:
  assumes i: "sema_inv s" and g: "g < length (spcs s)" and p: "spcs s ! g = RelReady h w"
    and c: "unat c + of_bool t \<le> unat (cnt s)"
  shows "sema_inv (at g Outside (at w (Woken t l) (s\<lparr>cnt := c\<rparr>)))"
proof -
  have w: "w < length (spcs s)" "is_dequeued (spcs s ! w)" using sema_invD(7) [OF i g, of w] p by auto
  then have gw: "g \<noteq> w" using p by auto
  let ?xs = "(spcs s)[w := Woken t l]" let ?ys = "?xs[g := Outside]"
  have one: "num (readies w) (spcs s) = 1" by (rule sema_invD(8) [OF i w])
  have r: "num (readies v) ?ys + of_bool (v = w) = num (readies v) (spcs s)" for v
    using num_update [of g ?xs "readies v" Outside] num_at [OF w(1), of "readies v" "Woken t l"] g gw p w(2)
    by (cases "spcs s ! w") auto
  have a: "num is_waking ?ys + of_bool t = num is_waking (spcs s)" "num is_queueing ?ys = num is_queueing (spcs s)"
    using num_update [of g ?xs is_waking Outside] num_update [OF w(1), of is_waking "Woken t l"]
      num_at [of g ?xs is_queueing Outside] num_at [OF w(1), of is_queueing "Woken t l"] g gw p w(2)
    by (cases "spcs s ! w"; cases t; simp)+
  have no: "\<not> readies w (?ys ! u)" if "u < length (spcs s)" for u
    using num_pos [of "readies w" ?ys] r [of w] one that by auto
  have rd: "v < length (spcs s) \<and> is_dequeued (?ys ! v)" if u: "u < length (spcs s)" "readies v (?ys ! u)" for u v
  proof -
    have vw: "v \<noteq> w" using no [OF u(1)] u(2) by auto
    have "readies v (spcs s ! u)" using u vw by (auto simp: nth_upd split: if_splits)
    from sema_invD(7) [OF i u(1) this] show ?thesis using p vw by (auto simp: nth_upd)
  qed
  have dq: "num (readies v) ?ys = 1" if "v < length (spcs s)" "is_dequeued (?ys ! v)" for v
  proof -
    have "v \<noteq> w" "is_dequeued (spcs s ! v)" using that w(1) gw by (auto simp: nth_upd split: if_splits)
    then show ?thesis using sema_invD(8) [OF i that(1)] r [of v] by simp
  qed
  have wt: "v \<in> set (waiters s) \<longleftrightarrow> v < length (spcs s) \<and> is_asleep (?ys ! v)" for v
    using sema_invD(3) [OF i, of v] p g w
    by (cases "v = g"; cases "v = w"; cases "spcs s ! w") (auto simp: nth_upd)
  have lk: "in_lock (?ys ! v) \<longleftrightarrow> root_lock s = Some v" if "v < length (spcs s)" for v
    using sema_invD(4) [OF i that] p w that
    by (cases "v = g"; cases "v = w"; cases "spcs s ! w") (auto simp: nth_upd)
  show ?thesis
    unfolding sema_inv_def
    apply (intro conjI)
    subgoal using sema_invD(1) [OF i] by simp
    subgoal using sema_invD(2) [OF i] by simp
    subgoal using wt by simp
    subgoal using lk by simp
    subgoal using sema_invD(5) [OF i] by simp
    subgoal using sema_invD(6) [OF i] by simp
    subgoal using rd by simp
    subgoal using dq by simp
    subgoal using sema_invD(9) [OF i] a c by (auto simp: waiting_def)
    done
qed

lemma cnt_same: "s\<lparr>cnt := cnt s\<rparr> = s"
  by simp

lemmas inv_local_same = inv_local [of s g q "cnt s" for s g q, unfolded cnt_same]

lemma inv_ready_same:
  "sema_inv s \<Longrightarrow> g < length (spcs s) \<Longrightarrow> spcs s ! g = RelReady h w \<Longrightarrow>
   sema_inv (at g Outside (at w (Woken False l) s))"
  using inv_ready [of s g h w "cnt s" False l] by simp

lemma cansemacquire_cases:
  obtains "cnt s = 0" "cansemacquire s = (False, s)"
  | "cnt s \<noteq> 0" "cansemacquire s = (True, s\<lparr>cnt := cnt s - 1\<rparr>)"
  by (cases "cnt s = 0") (auto simp: cansemacquire_def)

lemma unat_Suc_le: "unat (x + 1 :: u32) \<le> unat x + 1"
  by (cases "unat x + 1 < 2 ^ 32") (auto simp: unat_word_ariths)

lemma try_inv:
  assumes i: "sema_inv s" and g: "g < length (spcs s)" and p: "spcs s ! g = AcqTry l \<or> spcs s ! g = Woken False l"
    and e: "cansemacquire s = (ok, s2)"
  shows "sema_inv (at g (if ok then Outside else AcqLock l) s2)"
proof (cases rule: cansemacquire_cases [of s])
  case 1
  have "sema_inv (at g (AcqLock l) s)"
    using p 1 by (intro inv_local_same [OF i g]) auto
  then show ?thesis using e 1 by auto
next
  case 2
  have "sema_inv (at g Outside (s\<lparr>cnt := cnt s - 1\<rparr>))"
    using p 2 sema_invD(9) [OF i] by (intro inv_local [OF i g]) (auto simp: unat_pred unat_pos)
  then show ?thesis using e 2 by auto
qed

theorem sema_step_inv:
  assumes i: "sema_inv s" and g: "g < length (spcs s)" and st: "sema_step g oth s = Ret s'"
  shows "sema_inv s'"
proof (cases "spcs s ! g")
  case (AcqTry l)
  then show ?thesis using st try_inv [OF i g] by (auto simp: sema_step_def split: prod.splits)
next
  case (Woken t l)
  show ?thesis
  proof (cases t)
    case True
    then show ?thesis using st Woken inv_local_same [OF i g, of Outside] by (auto simp: sema_step_def)
  next
    case False
    then show ?thesis using st Woken try_inv [OF i g] by (auto simp: sema_step_def split: prod.splits)
  qed
next
  case (AcqLock l)
  then show ?thesis using st inv_lock [OF i g] by (auto simp: sema_step_def split: if_splits)
next
  case (AcqRecheck l)
  show ?thesis
  proof (cases rule: cansemacquire_cases [of s])
    case 1
    then show ?thesis using st AcqRecheck inv_recheck_fail [OF i g] by (auto simp: sema_step_def)
  next
    case 2
    then show ?thesis using st AcqRecheck inv_recheck_ok [OF i g] by (auto simp: sema_step_def)
  qed
next
  case (AcqQueue l)
  then show ?thesis using st inv_queue [OF i g] by (auto simp: sema_step_def)
next
  case (RelAdd h)
  have "sema_inv (at g (RelCheck h) (s\<lparr>cnt := cnt s + 1\<rparr>))"
    using RelAdd unat_Suc_le [of "cnt s"] by (intro inv_local [OF i g]) auto
  then show ?thesis using st RelAdd by (auto simp: sema_step_def)
next
  case (RelCheck h)
  show ?thesis
  proof (cases "unat (nwait s) + oth = 0")
    case True
    have "sema_inv (at g Outside s)"
    proof (rule inv_local_same [OF i g])
      have "waiters s = []" "root_lock s = None" using True sema_invD(6) [OF i] by auto
      then have "\<not> waiting s"
        using sema_invD(4) [OF i] unfolding waiting_def num_pos by (metis in_lock.simps(2) is_queueing.elims(2) option.distinct(1))
      then show "waiting s \<Longrightarrow> unat (cnt s) + of_bool (is_waking (spcs s ! g)) \<le> unat (cnt s) + of_bool (is_waking Outside)" by simp
    qed (simp_all add: RelCheck)
    then show ?thesis using st RelCheck True by (auto simp: sema_step_def)
  next
    case False
    then show ?thesis using st RelCheck inv_local_same [OF i g, of "RelDequeue h"] by (auto simp: sema_step_def)
  qed
next
  case (RelDequeue h)
  then have n: "root_lock s = None" using st by (auto simp: sema_step_def split: if_splits)
  show ?thesis
  proof (cases "waiters s")
    case Nil
    have "sema_inv (at g Outside s)"
    proof (rule inv_local_same [OF i g])
      have "\<not> waiting s"
        using sema_invD(4) [OF i] n Nil unfolding waiting_def num_pos by (metis in_lock.simps(2) is_queueing.elims(2) option.distinct(1))
      then show "waiting s \<Longrightarrow> unat (cnt s) + of_bool (is_waking (spcs s ! g)) \<le> unat (cnt s) + of_bool (is_waking Outside)" by simp
    qed (simp_all add: RelDequeue)
    then show ?thesis using st RelDequeue Nil by (auto simp: sema_step_def split: if_splits)
  next
    case (Cons w ws)
    then have "unat (nwait s) + oth \<noteq> 0" using sema_invD(6) [OF i] by simp
    then show ?thesis using st RelDequeue Cons inv_dequeue [OF i g RelDequeue n Cons] n by (auto simp: sema_step_def)
  qed
next
  case (RelReady h w)
  define l where "l = lifo_of (spcs s ! w)"
  have same: "sema_inv (at g Outside (at w (Woken False l) s))" by (rule inv_ready_same [OF i g RelReady])
  show ?thesis
  proof (cases "h \<and> cnt s \<noteq> 0")
    case True
    then have "sema_inv (at g Outside (at w (Woken True l) (s\<lparr>cnt := cnt s - 1\<rparr>)))"
      by (intro inv_ready [OF i g RelReady]) (auto simp: unat_pred unat_pos)
    then show ?thesis using st RelReady True by (auto simp: sema_step_def cansemacquire_def l_def)
  next
    case False
    then show ?thesis using st RelReady same by (cases h) (auto simp: sema_step_def cansemacquire_def l_def)
  qed
qed (use st in \<open>auto simp: sema_step_def\<close>)

lemma semacquire_inv:
  "sema_inv s \<Longrightarrow> g < length (spcs s) \<Longrightarrow> spcs s ! g = Outside \<Longrightarrow> sema_inv (semacquire g l s)"
  unfolding semacquire_def by (rule inv_local_same) auto

lemma semrelease_inv:
  "sema_inv s \<Longrightarrow> g < length (spcs s) \<Longrightarrow> spcs s ! g = Outside \<Longrightarrow> sema_inv (semrelease g h s)"
  unfolding semrelease_def by (rule inv_local_same) auto

definition sema_init :: "u32 \<Rightarrow> nat \<Rightarrow> sema" where
  "sema_init c n = \<lparr>cnt = c, nwait = 0, root_lock = None, waiters = [], spcs = replicate n Outside\<rparr>"

lemma sema_init_inv: "n < 2 ^ 32 \<Longrightarrow> sema_inv (sema_init c n)"
  by (simp add: sema_inv_def sema_init_def waiting_def num_replicate)

section \<open>What is given and taken\<close>

fun has_ticket :: "spc \<Rightarrow> bool" where
  "has_ticket (Woken t l) = t"
| "has_ticket _ = False"

fun adds :: "spc \<Rightarrow> bool" where
  "adds (RelAdd h) = True"
| "adds _ = False"

text \<open>The count, and the tickets handed to goroutines that have not returned yet.\<close>

definition tokens :: "'a sema_scheme \<Rightarrow> nat" where
  "tokens s = unat (cnt s) + num has_ticket (spcs s)"

text \<open>Whether a step of a goroutine is the return of its \<open>semacquire1\<close>.\<close>

definition returns :: "nat \<Rightarrow> 'a sema_scheme \<Rightarrow> 'a sema_scheme \<Rightarrow> bool" where
  "returns g s s' \<longleftrightarrow> \<not> is_release (spcs s ! g) \<and> spcs s' ! g = Outside"

lemma sema_step_tokens:
  assumes i: "sema_inv s" and g: "g < length (spcs s)" and st: "sema_step g oth s = Ret s'"
    and b: "adds (spcs s ! g) \<Longrightarrow> unat (cnt s) + 1 < 2 ^ 32"
  shows "tokens s' + of_bool (returns g s s') = tokens s + of_bool (adds (spcs s ! g))"
proof -
  note u = num_update [OF g, of has_ticket]
  have c: "cnt s \<noteq> 0 \<Longrightarrow> unat (cnt s) = unat (cnt s - 1) + 1" by (simp add: unat_pred unat_pos)
  show ?thesis
  proof (cases "spcs s ! g")
    case (RelReady h w)
    then have w: "w < length (spcs s)" "is_dequeued (spcs s ! w)" using sema_invD(7) [OF i g, of w] by auto
    then have gw: "g \<noteq> w" using RelReady by auto
    have n: "num has_ticket ((spcs s)[w := Woken t l, g := Outside]) = num has_ticket (spcs s) + of_bool t" for t l
      using num_update [OF w(1), of has_ticket "Woken t l"] num_at [of g "(spcs s)[w := Woken t l]" has_ticket Outside]
        g gw RelReady w(2) by (cases "spcs s ! w") auto
    show ?thesis using st RelReady n c gw
      by (cases h; cases "cnt s = 0") (auto simp: sema_step_def cansemacquire_def tokens_def returns_def)
  next
    case (RelDequeue h)
    show ?thesis
    proof (cases "waiters s")
      case Nil
      then show ?thesis using st RelDequeue g u [of Outside]
        by (auto simp: sema_step_def tokens_def returns_def split: if_splits)
    next
      case (Cons w ws)
      then have w: "w < length (spcs s)" "is_asleep (spcs s ! w)" using sema_invD(3) [OF i, of w] by auto
      then have gw: "g \<noteq> w" using RelDequeue by auto
      have n: "num has_ticket ((spcs s)[w := Dequeued l, g := RelReady h w]) = num has_ticket (spcs s)" for l
        using num_at [OF w(1), of has_ticket "Dequeued l"] num_at [of g "(spcs s)[w := Dequeued l]" has_ticket "RelReady h w"]
          g gw RelDequeue w(2) by (cases "spcs s ! w") auto
      show ?thesis using st RelDequeue Cons n gw g u [of Outside]
        by (auto simp: sema_step_def tokens_def returns_def split: if_splits)
    qed
  next
    case (RelAdd h)
    then show ?thesis using st g b u [of "RelCheck h"] unat_Suc [of "cnt s"]
      by (auto simp: sema_step_def tokens_def returns_def)
  next
    case (RelCheck h)
    then show ?thesis using st g u [of "RelDequeue h"] u [of Outside]
      by (auto simp: sema_step_def tokens_def returns_def)
  next
    case (AcqTry l)
    then show ?thesis using st g c u [of Outside] u [of "AcqLock l"]
      by (cases "cnt s = 0") (auto simp: sema_step_def cansemacquire_def tokens_def returns_def)
  next
    case (AcqLock l)
    then show ?thesis using st g u [of "AcqRecheck l"]
      by (auto simp: sema_step_def tokens_def returns_def split: if_splits)
  next
    case (AcqRecheck l)
    then show ?thesis using st g c u [of Outside] u [of "AcqQueue l"]
      by (cases "cnt s = 0") (auto simp: sema_step_def cansemacquire_def tokens_def returns_def)
  next
    case (AcqQueue l)
    then show ?thesis using st g u [of "Asleep l"] by (auto simp: sema_step_def tokens_def returns_def)
  next
    case (Woken t l)
    then show ?thesis using st g c u [of Outside] u [of "AcqLock l"]
      by (cases t; cases "cnt s = 0") (auto simp: sema_step_def cansemacquire_def tokens_def returns_def)
  qed (use st in \<open>auto simp: sema_step_def\<close>)
qed


lemma sema_step_length: "sema_step g oth s = Ret s' \<Longrightarrow> length (spcs s') = length (spcs s)"
  by (cases "spcs s ! g")
    (auto simp: sema_step_def cansemacquire_def Let_def split: if_splits list.splits)

section \<open>Progress\<close>

fun is_active :: "spc \<Rightarrow> bool" where
  "is_active Outside = False"
| "is_active (Asleep l) = False"
| "is_active (Dequeued l) = False"
| "is_active _ = True"

definition can_step :: "nat \<Rightarrow> 'a sema_scheme \<Rightarrow> bool" where
  "can_step g s \<longleftrightarrow> is_ret (sema_step g 0 s)"

lemma can_step_any: "can_step g s \<Longrightarrow> \<exists>s'. sema_step g oth s = Ret s'"
  unfolding can_step_def
  by (cases "spcs s ! g") (auto simp: sema_step_def Let_def split: if_splits list.splits prod.splits)

lemma active_can_step: "is_active (spcs s ! g) \<Longrightarrow> root_lock s = None \<or> in_lock (spcs s ! g) \<Longrightarrow> can_step g s"
  unfolding can_step_def
  by (cases "spcs s ! g") (auto simp: sema_step_def Let_def split: list.splits prod.splits)

lemma active_progress:
  assumes i: "sema_inv s" and g: "g < length (spcs s)" "is_active (spcs s ! g)"
  shows "\<exists>v<length (spcs s). is_active (spcs s ! v) \<and> can_step v s"
proof (cases "root_lock s")
  case None
  then show ?thesis using active_can_step [OF g(2)] g by auto
next
  case (Some v)
  then have v: "v < length (spcs s)" using sema_invD(5) [OF i] by auto
  have "in_lock (spcs s ! v)" using sema_invD(4) [OF i v] Some by simp
  moreover from this have "is_active (spcs s ! v)" by (cases "spcs s ! v") auto
  ultimately show ?thesis using v active_can_step by blast
qed

lemma sema_progress:
  assumes i: "sema_inv s" and g: "g < length (spcs s)" "spcs s ! g \<noteq> Outside"
    and a: "is_asleep (spcs s ! g) \<Longrightarrow> cnt s \<noteq> 0"
  shows "\<exists>v<length (spcs s). is_active (spcs s ! v) \<and> can_step v s"
proof -
  have wk: "is_waking p \<Longrightarrow> is_active p" for p by (cases p) auto
  have rd: "readies w p \<Longrightarrow> is_active p" for p w by (cases p) auto
  consider "is_asleep (spcs s ! g)" | "is_dequeued (spcs s ! g)" | "is_active (spcs s ! g)"
    using g(2) by (cases "spcs s ! g") auto
  then show ?thesis
  proof cases
    case 1
    then have "waiting s" using sema_invD(3) [OF i, of g] g(1) by (auto simp: waiting_def)
    then have "0 < num is_waking (spcs s)" using sema_invD(9) [OF i] a [OF 1] by (auto simp: unat_pos)
    then show ?thesis using active_progress [OF i] wk unfolding num_pos by blast
  next
    case 2
    then have "0 < num (readies g) (spcs s)" using sema_invD(8) [OF i g(1)] by simp
    then show ?thesis using active_progress [OF i] rd unfolding num_pos by blast
  next
    case 3
    then show ?thesis using active_progress [OF i g(1)] by blast
  qed
qed

section \<open>All interleavings\<close>

text \<open>The numbers count the calls of \<open>semrelease1\<close> that have incremented the count, and the calls of
  \<open>semacquire1\<close> that have returned.\<close>

inductive sema_reach :: "u32 \<Rightarrow> nat \<Rightarrow> sema \<Rightarrow> nat \<Rightarrow> nat \<Rightarrow> bool" for c n where
  start: "sema_reach c n (sema_init c n) 0 0"
| acquire: "sema_reach c n s r a \<Longrightarrow> g < n \<Longrightarrow> spcs s ! g = Outside \<Longrightarrow> sema_reach c n (semacquire g lifo s) r a"
| release: "sema_reach c n s r a \<Longrightarrow> g < n \<Longrightarrow> spcs s ! g = Outside \<Longrightarrow> sema_reach c n (semrelease g handoff s) r a"
| step: "sema_reach c n s r a \<Longrightarrow> g < n \<Longrightarrow> sema_step g oth s = Ret s' \<Longrightarrow>
    sema_reach c n s' (r + of_bool (adds (spcs s ! g))) (a + of_bool (returns g s s'))"

lemma sema_reach_inv:
  "sema_reach c n s r a \<Longrightarrow> n < 2 ^ 32 \<Longrightarrow> sema_inv s \<and> length (spcs s) = n"
proof (induction rule: sema_reach.induct)
  case start
  then show ?case using sema_init_inv [of n c] by (simp add: sema_init_def)
next
  case (acquire s r a g lifo)
  then show ?case using semacquire_inv by (auto simp: semacquire_def)
next
  case (release s r a g handoff)
  then show ?case using semrelease_inv by (auto simp: semrelease_def)
next
  case (step s r a g oth s')
  then show ?case using sema_step_inv sema_step_length by blast
qed

lemma sema_reach_tokens:
  "sema_reach c n s r a \<Longrightarrow> n < 2 ^ 32 \<Longrightarrow> unat c + r < 2 ^ 32 \<Longrightarrow> tokens s + a = unat c + r"
proof (induction rule: sema_reach.induct)
  case start
  then show ?case by (simp add: sema_init_def tokens_def num_replicate)
next
  case (acquire s r a g lifo)
  then show ?case using num_at [of g "spcs s" has_ticket "AcqTry lifo"] sema_reach_inv [OF acquire(1)]
    by (simp add: semacquire_def tokens_def)
next
  case (release s r a g handoff)
  then show ?case using num_at [of g "spcs s" has_ticket "RelAdd handoff"] sema_reach_inv [OF release(1)]
    by (simp add: semrelease_def tokens_def)
next
  case (step s r a g oth s')
  then have i: "sema_inv s" "length (spcs s) = n" using sema_reach_inv by blast+
  have e: "tokens s + a = unat c + r" using step by simp
  have "tokens s' + of_bool (returns g s s') = tokens s + of_bool (adds (spcs s ! g))"
  proof (rule sema_step_tokens [OF i(1) _ step(3)])
    show "g < length (spcs s)" using step(2) i(2) by simp
    show "adds (spcs s ! g) \<Longrightarrow> unat (cnt s) + 1 < 2 ^ 32" using step.prems e by (simp add: tokens_def)
  qed
  then show ?case using e by simp
qed

text \<open>C9. In every interleaving of calls on one semaphore by fewer than 2^32 goroutines, what was
  taken from the count never exceeds what was given: the count and the tickets handed out make up the
  difference exactly, as long as the count does not overflow.  And no wake-up is lost: when a
  goroutine is still inside a call, then some goroutine inside a call can take a step, unless all of
  them sleep on a count of 0.\<close>

theorem semaphore_correct:
  assumes "sema_reach c n s given taken" "n < 2 ^ 32"
  shows "(unat c + given < 2 ^ 32 \<longrightarrow> unat (cnt s) + num has_ticket (spcs s) + taken = unat c + given) \<and>
    (g < n \<and> spcs s ! g \<noteq> Outside \<longrightarrow>
       (\<exists>v<n. \<exists>s'. spcs s ! v \<noteq> Outside \<and> sema_step v oth s = Ret s') \<or>
       cnt s = 0 \<and> (\<forall>v<n. spcs s ! v = Outside \<or> is_asleep (spcs s ! v)))"
proof -
  have i: "sema_inv s" "length (spcs s) = n" using sema_reach_inv [OF assms] by auto
  have ac: "is_active p \<Longrightarrow> p \<noteq> Outside" for p by auto
  have "\<exists>v<n. \<exists>s'. spcs s ! v \<noteq> Outside \<and> sema_step v oth s = Ret s'"
    if "g < n" "spcs s ! g \<noteq> Outside" "is_asleep (spcs s ! g) \<Longrightarrow> cnt s \<noteq> 0" for g
    using sema_progress [OF i(1), of g] that can_step_any ac unfolding i(2) by blast
  then show ?thesis using sema_reach_tokens [OF assms] unfolding tokens_def by blast
qed

text \<open>Runs given by the goroutines that step.\<close>

fun sema_run :: "nat list \<Rightarrow> sema \<times> nat \<times> nat \<Rightarrow> (sema \<times> nat \<times> nat) outcome" where
  "sema_run [] x = Ret x"
| "sema_run (g # gs) (s, r, a) =
     obind (sema_step g 0 s)
       (\<lambda>s'. sema_run gs (s', r + of_bool (adds (spcs s ! g)), a + of_bool (returns g s s')))"

lemma sema_run_reach:
  "sema_reach c n s r a \<Longrightarrow> \<forall>g\<in>set gs. g < n \<Longrightarrow> sema_run gs (s, r, a) = Ret (s', r', a') \<Longrightarrow>
   sema_reach c n s' r' a'"
  by (induction gs "(s, r, a)" arbitrary: s r a rule: sema_run.induct)
    (auto simp: obind_eq_Ret intro: sema_reach.step)

text \<open>Goroutine 0 sleeps; goroutine 1 gives and hands over; goroutine 0 has yet to return.\<close>

definition asleep_then :: sema where
  "asleep_then = \<lparr>cnt = 0, nwait = 1, root_lock = None, waiters = [0], spcs = [Asleep False, Outside]\<rparr>"

definition handed_over :: sema where
  "handed_over = \<lparr>cnt = 0, nwait = 0, root_lock = None, waiters = [], spcs = [Woken True False, Outside]\<rparr>"

lemma handed_over_reach: "sema_reach 0 2 handed_over 1 0"
proof -
  have a: "sema_reach 0 2 (semacquire 0 False (sema_init 0 2)) 0 0"
    by (rule sema_reach.acquire [OF sema_reach.start]) (simp_all add: sema_init_def)
  have "sema_run [0, 0, 0, 0] (semacquire 0 False (sema_init 0 2), 0, 0) = Ret (asleep_then, 0, 0)" by code_simp
  from sema_run_reach [OF a _ this] have "sema_reach 0 2 asleep_then 0 0" by simp
  from sema_reach.release [OF this, of 1 True]
  have r: "sema_reach 0 2 (semrelease 1 True asleep_then) 0 0" by (simp add: asleep_then_def)
  have "sema_run [1, 1, 1, 1] (semrelease 1 True asleep_then, 0, 0) = Ret (handed_over, 1, 0)" by code_simp
  from sema_run_reach [OF r _ this] show ?thesis by simp
qed

lemma all_less_two: "(\<forall>v<2. P v) \<longleftrightarrow> P 0 \<and> P (Suc 0)"
  by (metis One_nat_def less_2_cases_iff)

theorem semaphore_correct_witness:
  "unat (cnt handed_over) + num has_ticket (spcs handed_over) + 0 = 1 \<and>
   (\<exists>v<2. \<exists>s'. spcs handed_over ! v \<noteq> Outside \<and> sema_step v 0 handed_over = Ret s')"
  using semaphore_correct [OF handed_over_reach, of 0 0] 
  by (auto simp: handed_over_def all_less_two)

end
