(* ===== verification/Mutex.thy ===== *)
theory Mutex
  imports Sema_Spec
begin

text \<open>
  \<open>sync.Mutex\<close> (\<open>sync/mutex.go\<close>) with any number of goroutines, each step one atomic access to the
  state word of the mutex with the local code around it, or a step of the semaphore below.  The
  state is the 32-bit word of the code.  Whether a goroutine may spin depends on the scheduler,
  and the time on the clock: both are arguments of a step, and any value is possible.

  The record extends that of the semaphore; \<open>held\<close> counts the calls of \<open>Lock\<close> that have returned and
  whose \<open>Unlock\<close> has not been called, and is not read by the code.
\<close>

section \<open>State\<close>

abbreviation (input) mutexLocked :: u32 where "mutexLocked \<equiv> 1"
abbreviation (input) mutexWoken :: u32 where "mutexWoken \<equiv> 2"
abbreviation (input) mutexStarving :: u32 where "mutexStarving \<equiv> 4"
abbreviation (input) mutexWaiterShift :: nat where "mutexWaiterShift \<equiv> 3"
abbreviation (input) starvationThresholdNs :: int where "starvationThresholdNs \<equiv> 1000000"

datatype mpc =
    NotIn            \<comment> \<open>in no call, or on the way out of \<open>Unlock\<close>\<close>
  | LockFast         \<comment> \<open>before the compare-and-swap of \<open>Lock\<close>\<close>
  | LoadOld          \<comment> \<open>\<open>lockSlow\<close>, before \<open>old = m.state\<close>\<close>
  | LockLoop         \<comment> \<open>\<open>lockSlow\<close>, at the head of the loop\<close>
  | SpinLoad         \<comment> \<open>\<open>lockSlow\<close>, spinning\<close>
  | Acquired         \<comment> \<open>\<open>lockSlow\<close>, in or after \<open>runtime_SemacquireMutex\<close>\<close>
  | AddDelta u32     \<comment> \<open>\<open>lockSlow\<close>, before the addition that takes the mutex over\<close>
  | UnlockFast       \<comment> \<open>before the addition of \<open>Unlock\<close>\<close>
  | UnlockLoop u32   \<comment> \<open>\<open>unlockSlow\<close>, at the head of the loop, with \<open>old\<close>\<close>
  | UnlockLoad       \<comment> \<open>\<open>unlockSlow\<close>, before \<open>old = m.state\<close>\<close>

record mthread =
  pc :: mpc
  old_state :: u32
  starving :: bool
  awoke :: bool
  iter :: nat
  waitStart :: int

record msys = sema +
  state :: u32
  ts :: "mthread list"
  held :: nat

abbreviation thread :: "nat \<Rightarrow> mthread \<Rightarrow> 'a msys_scheme \<Rightarrow> 'a msys_scheme" where
  "thread g t s \<equiv> s\<lparr>ts := (ts s)[g := t]\<rparr>"

section \<open>lockSlow\<close>

text \<open>The new state a goroutine tries to install, from the old one it read.\<close>

definition lock_new :: "u32 \<Rightarrow> bool \<Rightarrow> bool \<Rightarrow> u32 outcome" where
  "lock_new old starv awok =
     (let new = old;
          new = (if old AND mutexStarving = 0 then new OR mutexLocked else new);
          new = (if old AND (mutexLocked OR mutexStarving) \<noteq> 0 then new + push_bit mutexWaiterShift 1 else new);
          new = (if starv \<and> old AND mutexLocked \<noteq> 0 then new OR mutexStarving else new)
      in if awok then
           if new AND mutexWoken = 0 then Throw ''sync: inconsistent mutex state''
           else Ret (new AND NOT mutexWoken)
         else Ret new)"

definition active_spin :: nat where
  "active_spin = 4"

text \<open>One iteration of the loop, up to the next access to the state of the mutex.  The arguments are
  what \<open>runtime_canSpin\<close> finds besides the number of iterations, and the time.\<close>

definition lock_loop :: "nat \<Rightarrow> bool \<Rightarrow> int \<Rightarrow> 'a msys_scheme \<Rightarrow> 'a msys_scheme outcome" where
  "lock_loop g spins now s =
     (let t = ts s ! g; ov = old_state t
      in if ov AND (mutexLocked OR mutexStarving) = mutexLocked \<and> iter t < active_spin \<and> spins then
           if \<not> awoke t \<and> ov AND mutexWoken = 0 \<and> signed_drop_bit mutexWaiterShift ov \<noteq> 0 \<and> state s = ov then
             Ret (thread g (t\<lparr>pc := SpinLoad, awoke := True\<rparr>) (s\<lparr>state := ov OR mutexWoken\<rparr>))
           else Ret (thread g (t\<lparr>pc := SpinLoad\<rparr>) s)
         else obind (lock_new ov (starving t) (awoke t)) (\<lambda>new.
           if state s = ov then
             if ov AND (mutexLocked OR mutexStarving) = 0 then
               Ret (thread g (t\<lparr>pc := NotIn\<rparr>) (s\<lparr>state := new, held := held s + 1\<rparr>))
             else
               let queueLifo = waitStart t \<noteq> 0;
                   t = (if waitStart t = 0 then t\<lparr>waitStart := now\<rparr> else t)
               in Ret (thread g (t\<lparr>pc := Acquired\<rparr>) (semacquire g queueLifo (s\<lparr>state := new\<rparr>)))
           else Ret (thread g (t\<lparr>pc := LoadOld\<rparr>) s)))"

text \<open>After the semaphore: the goroutine competes again, or was handed the mutex.\<close>

definition lock_acquired :: "nat \<Rightarrow> int \<Rightarrow> 'a msys_scheme \<Rightarrow> 'a msys_scheme outcome" where
  "lock_acquired g now s =
     (let t = ts s ! g;
          t = t\<lparr>starving := starving t \<or> starvationThresholdNs < now - waitStart t, old_state := state s\<rparr>;
          ov = old_state t
      in if ov AND mutexStarving \<noteq> 0 then
           if ov AND (mutexLocked OR mutexWoken) \<noteq> 0 \<or> signed_drop_bit mutexWaiterShift ov = 0
           then Throw ''sync: inconsistent mutex state''
           else
             let delta = mutexLocked - push_bit mutexWaiterShift 1;
                 delta = (if \<not> starving t \<or> signed_drop_bit mutexWaiterShift ov = 1 then delta - mutexStarving else delta)
             in Ret (thread g (t\<lparr>pc := AddDelta delta\<rparr>) s)
         else Ret (thread g (t\<lparr>pc := LockLoop, awoke := True, iter := 0\<rparr>) s))"

section \<open>unlockSlow\<close>

definition unlock_fast :: "nat \<Rightarrow> 'a msys_scheme \<Rightarrow> 'a msys_scheme outcome" where
  "unlock_fast g s =
     (let t = ts s ! g; new = state s + (- mutexLocked); s = s\<lparr>state := new\<rparr>
      in if new = 0 then Ret (thread g (t\<lparr>pc := NotIn\<rparr>) s)
         else if (new + mutexLocked) AND mutexLocked = 0 then Throw ''sync: unlock of unlocked mutex''
         else if new AND mutexStarving = 0 then Ret (thread g (t\<lparr>pc := UnlockLoop new\<rparr>) s)
         else Ret (thread g (t\<lparr>pc := NotIn\<rparr>) (semrelease g True s)))"

definition unlock_loop :: "nat \<Rightarrow> u32 \<Rightarrow> 'a msys_scheme \<Rightarrow> 'a msys_scheme outcome" where
  "unlock_loop g ov s =
     (let t = ts s ! g
      in if signed_drop_bit mutexWaiterShift ov = 0 \<or> ov AND (mutexLocked OR mutexWoken OR mutexStarving) \<noteq> 0
         then Ret (thread g (t\<lparr>pc := NotIn\<rparr>) s)
         else
           let new = (ov - push_bit mutexWaiterShift 1) OR mutexWoken
           in if state s = ov then Ret (thread g (t\<lparr>pc := NotIn\<rparr>) (semrelease g False (s\<lparr>state := new\<rparr>)))
              else Ret (thread g (t\<lparr>pc := UnlockLoad\<rparr>) s))"

section \<open>A step of a goroutine\<close>

definition mutex_step :: "nat \<Rightarrow> bool \<Rightarrow> int \<Rightarrow> nat \<Rightarrow> 'a msys_scheme \<Rightarrow> 'a msys_scheme outcome" where
  "mutex_step g spins now oth s =
     (if spcs s ! g \<noteq> Outside then sema_step g oth s
      else
        let t = ts s ! g
        in case pc t of
            NotIn \<Rightarrow> Spin
          | LockFast \<Rightarrow>
              if state s = 0 then Ret (thread g (t\<lparr>pc := NotIn\<rparr>) (s\<lparr>state := mutexLocked, held := held s + 1\<rparr>))
              else Ret (thread g (t\<lparr>pc := LoadOld, starving := False, awoke := False, iter := 0, waitStart := 0\<rparr>) s)
          | LoadOld \<Rightarrow> Ret (thread g (t\<lparr>pc := LockLoop, old_state := state s\<rparr>) s)
          | LockLoop \<Rightarrow> lock_loop g spins now s
          | SpinLoad \<Rightarrow> Ret (thread g (t\<lparr>pc := LockLoop, iter := iter t + 1, old_state := state s\<rparr>) s)
          | Acquired \<Rightarrow> lock_acquired g now s
          | AddDelta delta \<Rightarrow>
              Ret (thread g (t\<lparr>pc := NotIn\<rparr>) (s\<lparr>state := state s + delta, held := held s + 1\<rparr>))
          | UnlockFast \<Rightarrow> unlock_fast g s
          | UnlockLoop ov \<Rightarrow> unlock_loop g ov s
          | UnlockLoad \<Rightarrow> Ret (thread g (t\<lparr>pc := UnlockLoop (state s)\<rparr>) s))"

text \<open>A goroutine in no call may call \<open>Lock\<close>; when the mutex is held, any of them may call
  \<open>Unlock\<close>, since a locked mutex is not tied to a goroutine.\<close>

definition idle :: "nat \<Rightarrow> 'a msys_scheme \<Rightarrow> bool" where
  "idle g s \<longleftrightarrow> spcs s ! g = Outside \<and> pc (ts s ! g) = NotIn"

definition call_lock :: "nat \<Rightarrow> 'a msys_scheme \<Rightarrow> 'a msys_scheme" where
  "call_lock g s = thread g ((ts s ! g)\<lparr>pc := LockFast\<rparr>) s"

definition call_unlock :: "nat \<Rightarrow> 'a msys_scheme \<Rightarrow> 'a msys_scheme" where
  "call_unlock g s = thread g ((ts s ! g)\<lparr>pc := UnlockFast\<rparr>) (s\<lparr>held := held s - 1\<rparr>)"

definition thread_init :: mthread where
  "thread_init = \<lparr>pc = NotIn, old_state = 0, starving = False, awoke = False, iter = 0, waitStart = 0\<rparr>"

definition mutex_init :: "nat \<Rightarrow> msys" where
  "mutex_init n = \<lparr>cnt = 0, nwait = 0, root_lock = None, waiters = [], spcs = replicate n Outside,
     state = 0, ts = replicate n thread_init, held = 0\<rparr>"

inductive mutex_reach :: "nat \<Rightarrow> msys \<Rightarrow> bool" for n where
  start: "mutex_reach n (mutex_init n)"
| lock: "mutex_reach n s \<Longrightarrow> g < n \<Longrightarrow> idle g s \<Longrightarrow> mutex_reach n (call_lock g s)"
| unlock: "mutex_reach n s \<Longrightarrow> g < n \<Longrightarrow> idle g s \<Longrightarrow> 0 < held s \<Longrightarrow> mutex_reach n (call_unlock g s)"
| step: "mutex_reach n s \<Longrightarrow> g < n \<Longrightarrow> mutex_step g spins now oth s = Ret s' \<Longrightarrow> mutex_reach n s'"

end
