(* ===== verification/Mutex_Spec.thy ===== *)
theory Mutex_Spec
  imports Mutex
begin

text \<open>
  What \<open>sync.Mutex\<close> promises, in every interleaving of any number of goroutines: at most one of
  them holds it, the checks of the code never throw, and the mutex is never left free while all
  who wait for it sleep.
\<close>

section \<open>The state word\<close>

text \<open>The three flags and the number of waiters that a state stands for.\<close>

definition enc :: "bool \<Rightarrow> bool \<Rightarrow> bool \<Rightarrow> nat \<Rightarrow> u32" where
  "enc l w v n = of_nat (of_bool l + 2 * of_bool w + 4 * of_bool v + 8 * n)"

lemma bit_of_nat_u32: "bit (of_nat k :: u32) i \<longleftrightarrow> i < 32 \<and> bit k i"
  by (transfer fixing: k i) (auto simp: bit_of_nat_iff possible_bit_def bit_take_bit_iff)

lemma bit_low_high:
  assumes "m < (8 :: nat)" "3 \<le> i"
  shows "bit (m + 8 * n) i = bit n (i - 3)"
proof -
  obtain j where j: "i = 3 + j" using assms(2) le_Suc_ex by blast
  have p: "(2 :: nat) ^ i = 8 * 2 ^ j" by (simp add: j power_add)
  have "(m + 8 * n) div 2 ^ i = (m + 8 * n) div 8 div 2 ^ j" unfolding p by (rule div_mult2_eq)
  also have "(m + 8 * n) div 8 = n" using assms(1) by simp
  finally show ?thesis by (simp add: bit_iff_odd j)
qed

lemma bit_enc:
  "bit (enc l w v n) i \<longleftrightarrow> i = 0 \<and> l \<or> i = 1 \<and> w \<or> i = 2 \<and> v \<or> 3 \<le> i \<and> i < 32 \<and> bit n (i - 3)"
proof -
  define m :: nat where "m = of_bool l + 2 * of_bool w + 4 * of_bool v"
  have m: "m < 8" by (simp add: m_def of_bool_def)
  have b: "bit (enc l w v n) i \<longleftrightarrow> i < 32 \<and> bit (m + 8 * n) i"
    unfolding enc_def m_def by (rule bit_of_nat_u32)
  consider "i = 0" | "i = 1" | "i = 2" | "3 \<le> i" by linarith
  then show ?thesis
  proof cases
    case 4
    then show ?thesis using b bit_low_high [OF m 4] by auto
  qed (unfold b, cases l; cases w; cases v; simp add: bit_iff_odd m_def; presburger)+
qed

lemma unat_enc: "n < 2 ^ 28 \<Longrightarrow> unat (enc l w v n) = of_bool l + 2 * of_bool w + 4 * of_bool v + 8 * n"
  unfolding enc_def by (intro of_nat_inverse) auto

lemma enc_inj:
  assumes "n < 2 ^ 28" "n' < 2 ^ 28"
  shows "enc l w v n = enc l' w' v' n' \<longleftrightarrow> l = l' \<and> w = w' \<and> v = v' \<and> n = n'"
proof
  assume "enc l w v n = enc l' w' v' n'"
  then have "unat (enc l w v n) = unat (enc l' w' v' n')" by simp
  then show "l = l' \<and> w = w' \<and> v = v' \<and> n = n'"
    unfolding unat_enc [OF assms(1)] unat_enc [OF assms(2)]
    by (cases l; cases w; cases v; cases l'; cases w'; cases v') (simp; presburger)+
qed simp

lemma enc_consts:
  "(0 :: u32) = enc False False False 0" "(1 :: u32) = enc True False False 0"
  "(2 :: u32) = enc False True False 0" "(4 :: u32) = enc False False True 0"
  "(5 :: u32) = enc True False True 0" "(3 :: u32) = enc True True False 0" "(7 :: u32) = enc True True True 0"
  by (simp_all add: enc_def)

lemma enc_and: "enc l w v n AND enc l' w' v' 0 = enc (l \<and> l') (w \<and> w') (v \<and> v') 0"
  by (rule bit_word_eqI) (auto simp: bit_enc bit_and_iff)

lemma enc_or: "enc l w v n OR enc l' w' v' 0 = enc (l \<or> l') (w \<or> w') (v \<or> v') n"
  by (rule bit_word_eqI) (auto simp: bit_enc bit_or_iff)

lemma enc_and_not: "enc l w v n AND NOT (enc l' w' v' 0) = enc (l \<and> \<not> l') (w \<and> \<not> w') (v \<and> \<not> v') n"
  by (rule bit_word_eqI) (auto simp: bit_enc bit_and_iff bit_not_iff)

lemma enc_add_waiter: "enc l w v n + 8 = enc l w v (Suc n)"
  by (simp add: enc_def)

lemma enc_sub_waiter: "0 < n \<Longrightarrow> enc l w v n - 8 = enc l w v (n - 1)"
  using enc_add_waiter [of l w v "n - 1"] by (metis Suc_pred' add_diff_cancel_right')

lemma enc_unlock: "enc True w v n + - 1 = enc False w v n"
  by (simp add: enc_def)

lemma enc_lock: "enc False w v n + 1 = enc True w v n"
  by (simp add: enc_def)

lemma enc_starve: "enc l w True n - 4 = enc l w False n"
  by (simp add: enc_def)

lemma sdrop_enc: "n < 2 ^ 28 \<Longrightarrow> signed_drop_bit 3 (enc l w v n) = of_nat n"
proof (rule bit_word_eqI)
  fix i assume n: "n < 2 ^ 28" and i: "i < LENGTH(32)"
  have big: "\<not> bit n j" if "28 \<le> j" for j
    using n that by (metis bit_take_bit_iff not_le take_bit_nat_eq_self_iff)
  show "bit (signed_drop_bit 3 (enc l w v n)) i = bit (of_nat n :: u32) i"
    using i big by (auto simp: bit_signed_drop_bit_iff bit_enc bit_of_nat_u32)
qed

lemma sdrop_enc_eq:
  "n < 2 ^ 28 \<Longrightarrow> signed_drop_bit 3 (enc l w v n) = 0 \<longleftrightarrow> n = 0"
  "n < 2 ^ 28 \<Longrightarrow> signed_drop_bit 3 (enc l w v n) = 1 \<longleftrightarrow> n = 1"
  using word_of_nat_eq_0_iff [of n, where 'a = 32]
  by (auto simp: sdrop_enc dest: of_nat_inverse)


section \<open>The invariant\<close>

fun is_acq :: "spc \<Rightarrow> bool" where
  "is_acq Outside = False"
| "is_acq p = (\<not> is_release p)"

text \<open>Goroutines at \<open>m.state\<close> in \<open>lockSlow\<close>; of them, those on whose behalf \<open>mutexWoken\<close> is set.\<close>

definition competing :: "mthread \<Rightarrow> bool" where
  "competing t \<longleftrightarrow> pc t \<in> {LoadOld, LockLoop, SpinLoad}"

definition woken :: "mthread \<Rightarrow> bool" where
  "woken t \<longleftrightarrow> competing t \<and> awoke t"

fun taking_over :: "mpc \<Rightarrow> bool" where
  "taking_over (AddDelta d) = True"
| "taking_over _ = False"

text \<open>Goroutines that the state counts as waiters, or that an \<open>Unlock\<close> took off that count.\<close>

definition in_wait :: "mthread \<Rightarrow> bool" where
  "in_wait t \<longleftrightarrow> pc t = Acquired \<or> taking_over (pc t)"

text \<open>Goroutines that own the permit of the semaphore: about to give it, given it by a ticket, or back
  from the semaphore with it.\<close>

definition has_permit :: "mthread \<times> spc \<Rightarrow> bool" where
  "has_permit = (\<lambda>(t, p). adds p \<or> has_ticket p \<or> pc t = Acquired \<and> p = Outside \<or> taking_over (pc t))"

definition permits :: "'a msys_scheme \<Rightarrow> nat" where
  "permits s = unat (cnt s) + num has_permit (zip (ts s) (spcs s))"

text \<open>Goroutines in \<open>unlockSlow\<close> that will look at the state again or have seen waiters.\<close>

fun retrying :: "mpc \<Rightarrow> bool" where
  "retrying UnlockLoad = True"
| "retrying (UnlockLoop ov) = (signed_drop_bit 3 ov \<noteq> 0 \<and> ov AND 7 = 0)"
| "retrying _ = False"

definition thread_ok :: "mthread \<Rightarrow> spc \<Rightarrow> bool" where
  "thread_ok t p \<longleftrightarrow>
     (is_acq p \<longrightarrow> pc t = Acquired) \<and> (is_release p \<longrightarrow> pc t = NotIn) \<and>
     (competing t \<and> starving t \<longrightarrow> awoke t) \<and>
     (pc t = LockLoop \<and> awoke t \<longrightarrow> old_state t AND 2 \<noteq> 0) \<and>
     (\<forall>d. pc t = AddDelta d \<longrightarrow> d = 1 - 8 \<or> d = 1 - 8 - 4)"

text \<open>In normal mode \<open>mutexWoken\<close> stands for the one permit or the one goroutine it woke, and the waiters
  are the count in the state and the one who has the permit; in starvation mode a permit exists
  while the mutex is not locked, and the waiters are all in the count.\<close>

definition balance :: "bool \<Rightarrow> bool \<Rightarrow> bool \<Rightarrow> nat \<Rightarrow> 'a msys_scheme \<Rightarrow> bool" where
  "balance l w v k s \<longleftrightarrow>
     held s + num (\<lambda>t. pc t = UnlockFast) (ts s) = of_bool l \<and>
     (if v then \<not> w \<and> num woken (ts s) = 0 \<and> permits s = of_bool (\<not> l) \<and> num in_wait (ts s) = k
      else permits s + num woken (ts s) = of_bool w \<and> num in_wait (ts s) = k + permits s \<and>
        num (\<lambda>t. taking_over (pc t)) (ts s) = 0) \<and>
     (\<not> l \<and> \<not> w \<and> \<not> v \<and> 0 < k \<longrightarrow> 0 < num (\<lambda>t. retrying (pc t)) (ts s))"

definition mutex_inv :: "'a msys_scheme \<Rightarrow> bool" where
  "mutex_inv s \<longleftrightarrow>
     sema_inv s \<and> length (spcs s) < 2 ^ 28 \<and> list_all2 thread_ok (ts s) (spcs s) \<and>
     (\<exists>l w v k. state s = enc l w v k \<and> balance l w v k s)"

lemma permits_split:
  "list_all2 thread_ok xs ps \<Longrightarrow>
   num has_permit (zip xs ps) + num is_acq ps =
     num adds ps + num has_ticket ps + num (\<lambda>t. pc t = Acquired) xs + num (\<lambda>t. taking_over (pc t)) xs"
proof (induction xs ps rule: list_all2_induct)
  case (Cons x xs p ps)
  have "of_bool (has_permit (x, p)) + of_bool (is_acq p) =
    of_bool (adds p) + of_bool (has_ticket p) + of_bool (pc x = Acquired) + (of_bool (taking_over (pc x)) :: nat)"
    using Cons(1) by (cases p; cases "pc x") (auto simp: thread_ok_def has_permit_def)
  then show ?case using Cons(3) by (simp add: num_def of_bool_def split: if_splits)
qed (simp add: num_def)

lemma waiters_count:
  assumes "mutex_inv s" "state s = enc l w v k" "balance l w v k s"
  shows "k < 2 ^ 28"
  using assms num_le_length [of in_wait "ts s"] list_all2_lengthD [of thread_ok "ts s" "spcs s"]
  by (auto simp: mutex_inv_def balance_def split: if_splits)

section \<open>Steps of the semaphore\<close>

text \<open>A step of one goroutine moves others only from asleep to woken.\<close>

lemma sema_step_others:
  assumes i: "sema_inv s" and g: "g < length (spcs s)" and st: "sema_step g oth s = Ret s'"
    and P: "\<And>l. P (Dequeued l) = P (Asleep False)" "\<And>l. P (Asleep l) = P (Asleep False)"
      "\<And>t l. P (Woken t l) = P (Asleep False)"
  shows "num P (spcs s') + of_bool (P (spcs s ! g)) = num P (spcs s) + of_bool (P (spcs s' ! g))"
    and "v \<noteq> g \<Longrightarrow> P (spcs s' ! v) = P (spcs s ! v)"
proof -
  have sl: "num P (spcs s') + of_bool (P (spcs s ! g)) = num P (spcs s) + of_bool (P (spcs s' ! g))"
    "v \<noteq> g \<Longrightarrow> P (spcs s' ! v) = P (spcs s ! v)" if "spcs s' = (spcs s)[g := q]" for q
    using num_update [OF g, of P q] g that by (auto simp: nth_upd)
  have two: "num P (spcs s') + of_bool (P (spcs s ! g)) = num P (spcs s) + of_bool (P (spcs s' ! g))"
    "v \<noteq> g \<Longrightarrow> P (spcs s' ! v) = P (spcs s ! v)"
    if e: "spcs s' = (spcs s)[w := p, g := q]" and w: "w < length (spcs s)" "P (spcs s ! w) = P p" "w \<noteq> g" for w p q
    using num_update [of g "(spcs s)[w := p]" P q] num_at [OF w(1,2)] g w e by (auto simp: nth_upd)
  show "num P (spcs s') + of_bool (P (spcs s ! g)) = num P (spcs s) + of_bool (P (spcs s' ! g))"
    and "v \<noteq> g \<Longrightarrow> P (spcs s' ! v) = P (spcs s ! v)"
  proof -
    consider q where "spcs s' = (spcs s)[g := q]"
      | w p q where "spcs s' = (spcs s)[w := p, g := q]" "w < length (spcs s)" "P (spcs s ! w) = P p" "w \<noteq> g"
    proof (cases "spcs s ! g")
      case (RelDequeue h)
      show ?thesis
      proof (cases "waiters s")
        case Nil
        then show ?thesis using st RelDequeue that(1) by (auto simp: sema_step_def split: if_splits)
      next
        case (Cons w ws)
        then have w: "w < length (spcs s)" "is_asleep (spcs s ! w)" using sema_invD(3) [OF i, of w] by auto
        have "P (spcs s ! w) = P (Dequeued l)" "w \<noteq> g" for l
          using w RelDequeue P(1,2) by (cases "spcs s ! w"; auto)+
        then show ?thesis using st RelDequeue Cons that w(1) by (auto simp: sema_step_def split: if_splits)
      qed
    next
      case (RelReady h w)
      then have w: "w < length (spcs s)" "is_dequeued (spcs s ! w)" using sema_invD(7) [OF i g, of w] by auto
      have "P (spcs s ! w) = P (Woken t l)" "w \<noteq> g" for t l
        using w RelReady P by (cases "spcs s ! w"; auto)+
      then show ?thesis using st RelReady that(2) w(1)
        by (cases h; cases "cnt s = 0") (auto simp: sema_step_def cansemacquire_def)
    qed (use st that(1) in \<open>auto simp: sema_step_def cansemacquire_def split: if_splits\<close>)
    then show "num P (spcs s') + of_bool (P (spcs s ! g)) = num P (spcs s) + of_bool (P (spcs s' ! g))"
      and "v \<noteq> g \<Longrightarrow> P (spcs s' ! v) = P (spcs s ! v)"
      using sl two by (cases, blast, blast)+
  qed
qed

lemma sema_step_self:
  "sema_step g oth s = Ret s' \<Longrightarrow> g < length (spcs s) \<Longrightarrow> sema_inv s \<Longrightarrow>
     (is_acq (spcs s' ! g) \<longleftrightarrow> is_acq (spcs s ! g) \<and> \<not> returns g s s') \<and> (returns g s s' \<longrightarrow> is_acq (spcs s ! g)) \<and>
     (is_release (spcs s' ! g) \<longrightarrow> is_release (spcs s ! g)) \<and> \<not> adds (spcs s' ! g)"
  by (cases "spcs s ! g")
    (auto simp: sema_step_def cansemacquire_def returns_def nth_upd split: if_splits list.splits)


lemma sema_step_frame:
  "sema_step g oth s = Ret s' \<Longrightarrow> state s' = state s \<and> ts s' = ts s \<and> held s' = held s"
  by (cases "spcs s ! g")
    (auto simp: sema_step_def cansemacquire_def split: if_splits list.splits)

lemma mutex_invD:
  assumes "mutex_inv s"
  shows "sema_inv s" "length (spcs s) < 2 ^ 28" "length (ts s) = length (spcs s)"
    and "g < length (spcs s) \<Longrightarrow> thread_ok (ts s ! g) (spcs s ! g)"
  using assms by (auto simp: mutex_inv_def list_all2_conv_all_nth)

lemma thread_ok_phase:
  "thread_ok t p \<Longrightarrow> (is_acq q \<Longrightarrow> is_acq p) \<Longrightarrow> (is_release q \<Longrightarrow> is_release p) \<Longrightarrow> thread_ok t q"
  by (auto simp: thread_ok_def)

lemma balance_same:
  "held s' = held s \<Longrightarrow> ts s' = ts s \<Longrightarrow> permits s' = permits s \<Longrightarrow> balance l w v k s' = balance l w v k s"
  by (simp add: balance_def)

lemma sema_step_mutex_inv:
  assumes m: "mutex_inv s" and g: "g < length (spcs s)" and st: "sema_step g oth s = Ret s'"
    and c: "adds (spcs s ! g) \<Longrightarrow> unat (cnt s) + 1 < 2 ^ 32"
  shows "mutex_inv s'" "permits s' = permits s"
proof -
  note i = mutex_invD(1) [OF m]
  have i': "sema_inv s'" by (rule sema_step_inv [OF i g st])
  have l: "length (spcs s') = length (spcs s)" by (rule sema_step_length [OF st])
  note fr = sema_step_frame [OF st]
  note self = sema_step_self [OF st g i]
  have ph: "(is_acq (spcs s' ! v) \<longrightarrow> is_acq (spcs s ! v)) \<and> (is_release (spcs s' ! v) \<longrightarrow> is_release (spcs s ! v))" for v
    using self sema_step_others(2) [OF i g st, of is_acq v] sema_step_others(2) [OF i g st, of is_release v]
    by (cases "v = g") auto
  have ok: "list_all2 thread_ok (ts s) (spcs s)" using m by (simp add: mutex_inv_def)
  then have ok': "list_all2 thread_ok (ts s') (spcs s')"
    using ph thread_ok_phase fr l unfolding list_all2_conv_all_nth by metis
  have a: "num is_acq (spcs s') + of_bool (returns g s s') = num is_acq (spcs s)"
    using sema_step_others(1) [OF i g st, of is_acq] self by (auto split: if_splits)
  have d: "num adds (spcs s') + of_bool (adds (spcs s ! g)) = num adds (spcs s)"
    using sema_step_others(1) [OF i g st, of adds] self by auto
  show p: "permits s' = permits s"
    using permits_split [OF ok] permits_split [OF ok'] a d sema_step_tokens [OF i g st c] fr
    unfolding permits_def tokens_def by simp
  show "mutex_inv s'"
    using m i' ok' l fr balance_same [of s' s] p unfolding mutex_inv_def by metis
qed

section \<open>Steps at the state word\<close>

text \<open>The counts after one goroutine moved, in terms of what it counted for before and after.\<close>

lemma zip_at: "zip (xs[g := x]) (ps[g := p]) = (zip xs ps)[g := (x, p)]"
  by (rule zip_update)

lemma own_counts:
  assumes m: "mutex_inv s" and g: "g < length (spcs s)"
  defines "t \<equiv> ts s ! g" and "p \<equiv> spcs s ! g"
  assumes e: "ts s' = (ts s)[g := t']" "spcs s' = (spcs s)[g := p']" "cnt s' = cnt s"
  shows "permits s' + of_bool (has_permit (t, p)) = permits s + of_bool (has_permit (t', p'))"
    and "num P (ts s') + of_bool (P t) = num P (ts s) + of_bool (P t')"
proof -
  have gl: "g < length (ts s)" using mutex_invD(3) [OF m] g by simp
  then have gz: "g < length (zip (ts s) (spcs s))" using g by simp
  have z: "zip (ts s) (spcs s) ! g = (t, p)" using g gl by (simp add: t_def p_def)
  show "permits s' + of_bool (has_permit (t, p)) = permits s + of_bool (has_permit (t', p'))"
    using num_update [OF gz, of has_permit "(t', p')"] z unfolding permits_def e zip_at by simp
  show "num P (ts s') + of_bool (P t) = num P (ts s) + of_bool (P t')"
    using num_update [OF gl, of P t'] e by (simp add: t_def)
qed

lemma own_ok:
  assumes "mutex_inv s" "ts s' = (ts s)[g := t']" "spcs s' = (spcs s)[g := p']" "thread_ok t' p'"
  shows "list_all2 thread_ok (ts s') (spcs s')"
  using assms by (auto simp: mutex_inv_def intro: list_all2_update_cong)

lemma mutex_invE:
  assumes "mutex_inv s"
  obtains l w v k where "state s = enc l w v k" "balance l w v k s" "k < 2 ^ 28"
  using assms waiters_count [OF assms] by (auto simp: mutex_inv_def)

lemma mutex_invI:
  assumes "mutex_inv s" "ts s' = (ts s)[g := t']" "spcs s' = (spcs s)[g := p']" "thread_ok t' p'"
    and "sema_inv s'" "state s' = enc l w v k" "balance l w v k s'"
  shows "mutex_inv s'"
  using assms own_ok [OF assms(1-4)] mutex_invD(2) [OF assms(1)] unfolding mutex_inv_def by auto

text \<open>What a goroutine counts for in the balance.\<close>

definition role :: "mthread \<Rightarrow> spc \<Rightarrow> bool list" where
  "role t p = [pc t = UnlockFast, woken t, in_wait t, taking_over (pc t), retrying (pc t), has_permit (t, p)]"

lemma same_role:
  assumes m: "mutex_inv s" and g: "g < length (spcs s)"
    and e: "ts s' = (ts s)[g := t']" "spcs s' = (spcs s)[g := p']" "cnt s' = cnt s" "held s' = held s"
    and r: "role t' p' = role (ts s ! g) (spcs s ! g)"
  shows "balance l w v k s' = balance l w v k s"
  using own_counts(1) [OF m g e(1-3)] own_counts(2) [OF m g e(1-3), of "\<lambda>t. pc t = UnlockFast"]
    own_counts(2) [OF m g e(1-3), of woken] own_counts(2) [OF m g e(1-3), of in_wait]
    own_counts(2) [OF m g e(1-3), of "\<lambda>t. taking_over (pc t)"]
    own_counts(2) [OF m g e(1-3), of "\<lambda>t. retrying (pc t)"] r e(4)
  unfolding role_def balance_def by simp

lemma local_move:
  assumes m: "mutex_inv s" and g: "g < length (spcs s)" and p: "spcs s ! g = Outside"
    and r: "role t' Outside = role (ts s ! g) Outside" and ok: "thread_ok t' Outside"
  shows "mutex_inv (thread g t' s)"
proof -
  obtain l w v k where b: "state s = enc l w v k" "balance l w v k s" "k < 2 ^ 28"
    by (rule mutex_invE [OF m])
  have e: "ts (thread g t' s) = (ts s)[g := t']" "spcs (thread g t' s) = (spcs s)[g := Outside]"
    using list_update_id [of "spcs s" g] p by simp_all
  have "balance l w v k (thread g t' s) = balance l w v k s"
    by (rule same_role [OF m g e]) (use r p in simp_all)
  moreover have "sema_inv (thread g t' s)" using mutex_invD(1) [OF m] by (simp add: sema_inv_def waiting_def)
  ultimately show ?thesis using b by (intro mutex_invI [OF m e ok]) auto
qed

text \<open>While a goroutine competes on behalf of \<open>mutexWoken\<close>, the flag is set.\<close>

lemma woken_flag:
  assumes m: "mutex_inv s" and g: "g < length (spcs s)" and wk: "woken (ts s ! g)"
  shows "state s AND 2 \<noteq> 0"
proof -
  obtain l w v k where b: "state s = enc l w v k" "balance l w v k s" "k < 2 ^ 28"
    by (rule mutex_invE [OF m])
  have "0 < num woken (ts s)" unfolding num_pos using g wk mutex_invD(3) [OF m] by auto
  then have "w" using b(2) by (cases w) (auto simp: balance_def split: if_splits)
  then show ?thesis unfolding b(1) enc_consts enc_and by (simp add: enc_inj)
qed

text \<open>The equations of \<open>own_counts\<close> for everything the balance counts.\<close>

lemma own_balance:
  assumes m: "mutex_inv s" and g: "g < length (spcs s)"
    and e: "ts s' = (ts s)[g := t']" "spcs s' = (spcs s)[g := p']" "cnt s' = cnt s"
  defines "t \<equiv> ts s ! g" and "p \<equiv> spcs s ! g"
  shows "permits s' + of_bool (has_permit (t, p)) = permits s + of_bool (has_permit (t', p')) \<and>
    num (\<lambda>t. pc t = UnlockFast) (ts s') + of_bool (pc t = UnlockFast) =
      num (\<lambda>t. pc t = UnlockFast) (ts s) + of_bool (pc t' = UnlockFast) \<and>
    num woken (ts s') + of_bool (woken t) = num woken (ts s) + of_bool (woken t') \<and>
    num in_wait (ts s') + of_bool (in_wait t) = num in_wait (ts s) + of_bool (in_wait t') \<and>
    num (\<lambda>t. taking_over (pc t)) (ts s') + of_bool (taking_over (pc t)) =
      num (\<lambda>t. taking_over (pc t)) (ts s) + of_bool (taking_over (pc t')) \<and>
    num (\<lambda>t. retrying (pc t)) (ts s') + of_bool (retrying (pc t)) =
      num (\<lambda>t. retrying (pc t)) (ts s) + of_bool (retrying (pc t'))"
  using own_counts [OF m g e] unfolding t_def p_def by blast

lemmas role_defs = has_permit_def woken_def competing_def in_wait_def

lemma call_lock_inv:
  assumes "mutex_inv s" "g < length (spcs s)" "idle g s"
  shows "mutex_inv (call_lock g s)"
  unfolding call_lock_def using assms mutex_invD(4) [OF assms(1,2)]
  by (intro local_move) (auto simp: idle_def role_def role_defs thread_ok_def)

lemma lock_fast_fail:
  assumes "mutex_inv s" "g < length (spcs s)" "spcs s ! g = Outside" "pc (ts s ! g) = LockFast"
  shows "mutex_inv (thread g ((ts s ! g)\<lparr>pc := LoadOld, starving := False, awoke := False, iter := 0, waitStart := 0\<rparr>) s)"
  using assms by (intro local_move) (auto simp: role_def role_defs thread_ok_def)

lemma load_old_inv:
  assumes m: "mutex_inv s" and g: "g < length (spcs s)" "spcs s ! g = Outside"
    and p: "pc (ts s ! g) = LoadOld \<or> pc (ts s ! g) = SpinLoad"
  shows "mutex_inv (thread g ((ts s ! g)\<lparr>pc := LockLoop, iter := i, old_state := state s\<rparr>) s)"
proof -
  have "awoke (ts s ! g) \<Longrightarrow> state s AND 2 \<noteq> 0"
    using woken_flag [OF m g(1)] p by (auto simp: role_defs)
  then show ?thesis using m g p mutex_invD(4) [OF m g(1)]
    by (intro local_move) (auto simp: role_def role_defs thread_ok_def)
qed

lemma lock_fast_ok:
  assumes m: "mutex_inv s" and g: "g < length (spcs s)" "spcs s ! g = Outside" and p: "pc (ts s ! g) = LockFast"
    and z: "state s = 0"
  shows "mutex_inv (thread g ((ts s ! g)\<lparr>pc := NotIn\<rparr>) (s\<lparr>state := 1, held := held s + 1\<rparr>))"
    (is "mutex_inv ?s")
proof -
  obtain l w v k where b: "state s = enc l w v k" "balance l w v k s" "k < 2 ^ 28"
    by (rule mutex_invE [OF m])
  have z: "\<not> l" "\<not> w" "\<not> v" "k = 0" using z b(1,3) unfolding enc_consts by (auto simp: enc_inj)
  have e: "ts ?s = (ts s)[g := (ts s ! g)\<lparr>pc := NotIn\<rparr>]" "spcs ?s = (spcs s)[g := Outside]" "cnt ?s = cnt s"
    using list_update_id [of "spcs s" g] g(2) by simp_all
  have "balance True False False 0 ?s"
    using b(2) own_balance [OF m g(1) e] p g(2) z unfolding balance_def by (simp add: role_defs)
  moreover have "sema_inv ?s" using mutex_invD(1) [OF m] by (simp add: sema_inv_def waiting_def)
  ultimately show ?thesis using mutex_invD(4) [OF m g(1)] g(2)
    by (intro mutex_invI [OF m e(1,2)]) (auto simp: enc_consts thread_ok_def role_defs)
qed


lemma sema_inv_frame [simp]:
  "sema_inv (s\<lparr>state := x\<rparr>) = sema_inv s" "sema_inv (s\<lparr>held := h\<rparr>) = sema_inv s" "sema_inv (s\<lparr>ts := y\<rparr>) = sema_inv s"
  by (simp_all add: sema_inv_def waiting_def)

lemma and_seven: "k < 2 ^ 28 \<Longrightarrow> enc l w v k AND 7 = 0 \<longleftrightarrow> \<not> l \<and> \<not> w \<and> \<not> v"
  unfolding enc_consts enc_and by (simp add: enc_inj)

lemma retrying_enc: "k < 2 ^ 28 \<Longrightarrow> retrying (UnlockLoop (enc l w v k)) \<longleftrightarrow> \<not> l \<and> \<not> w \<and> \<not> v \<and> 0 < k"
  by (auto simp: and_seven sdrop_enc_eq)

text \<open>\<open>Unlock\<close>.\<close>

lemma call_unlock_inv:
  assumes m: "mutex_inv s" and g: "g < length (spcs s)" and i: "idle g s" and h: "0 < held s"
  shows "mutex_inv (call_unlock g s)"
proof -
  obtain l w v k where b: "state s = enc l w v k" "balance l w v k s" "k < 2 ^ 28"
    by (rule mutex_invE [OF m])
  let ?t = "(ts s ! g)\<lparr>pc := UnlockFast\<rparr>"
  have e: "ts (call_unlock g s) = (ts s)[g := ?t]" "spcs (call_unlock g s) = (spcs s)[g := Outside]" "cnt (call_unlock g s) = cnt s"
    using i list_update_id [of "spcs s" g] by (simp_all add: idle_def call_unlock_def)
  have "balance l w v k (call_unlock g s)"
    using b(2) own_balance [OF m g e] i h unfolding balance_def
    by (cases l) (simp_all add: role_defs idle_def call_unlock_def)
  then show ?thesis using mutex_invD(4) [OF m g] mutex_invD(1) [OF m] i b
    by (intro mutex_invI [OF m e(1,2)]) (auto simp: call_unlock_def thread_ok_def role_defs idle_def)
qed

lemma unlock_fast_state:
  assumes m: "mutex_inv s" and g: "g < length (spcs s)" and p: "pc (ts s ! g) = UnlockFast"
  obtains w v k where "state s = enc True w v k" "balance True w v k s" "k < 2 ^ 28"
proof -
  obtain l w v k where b: "state s = enc l w v k" "balance l w v k s" "k < 2 ^ 28"
    by (rule mutex_invE [OF m])
  have "0 < num (\<lambda>t. pc t = UnlockFast) (ts s)" unfolding num_pos using g p mutex_invD(3) [OF m] by auto
  then have l using b(2) by (cases l) (auto simp: balance_def)
  then show ?thesis using b that by simp
qed

lemma unlock_fast_inv:
  assumes m: "mutex_inv s" and g: "g < length (spcs s)" "spcs s ! g = Outside" and p: "pc (ts s ! g) = UnlockFast"
  shows "\<exists>s'. unlock_fast g s = Ret s' \<and> mutex_inv s'"
proof -
  obtain w v k where b: "state s = enc True w v k" "balance True w v k s" "k < 2 ^ 28"
    by (rule unlock_fast_state [OF m g(1) p])
  let ?t = "ts s ! g" and ?new = "enc False w v k"
  have new: "state s + - 1 = ?new" unfolding b(1) by (rule enc_unlock)
  have chk: "(?new + 1) AND 1 \<noteq> 0" by (subst enc_lock, unfold enc_consts enc_and) (simp add: enc_inj)
  have sv: "?new AND 4 = 0 \<longleftrightarrow> \<not> v" unfolding enc_consts enc_and by (simp add: enc_inj)
  have ok: "pc ?t = NotIn \<or> pc ?t = UnlockFast \<Longrightarrow> thread_ok (?t\<lparr>pc := x\<rparr>) Outside"
    if "x = NotIn \<or> x = UnlockLoop ?new" for x
    using that by (auto simp: thread_ok_def role_defs)
  consider "?new = 0" | "?new \<noteq> 0" "\<not> v" | "?new \<noteq> 0" v by blast
  then show ?thesis
  proof cases
    case 1
    let ?s = "thread g (?t\<lparr>pc := NotIn\<rparr>) (s\<lparr>state := ?new\<rparr>)"
    have z: "\<not> w" "\<not> v" "k = 0" using 1 b(3) unfolding enc_consts by (auto simp: enc_inj)
    have e: "ts ?s = (ts s)[g := ?t\<lparr>pc := NotIn\<rparr>]" "spcs ?s = (spcs s)[g := Outside]" "cnt ?s = cnt s"
      using list_update_id [of "spcs s" g] g(2) by simp_all
    have "balance False w v k ?s"
      using b(2) own_balance [OF m g(1) e] p g(2) z unfolding balance_def by (simp add: role_defs)
    then have "mutex_inv ?s" using mutex_invD(1) [OF m] ok p
      by (intro mutex_invI [OF m e(1,2)]) auto
    then show ?thesis using 1 new by (simp add: unlock_fast_def Let_def)
  next
    case 2
    let ?s = "thread g (?t\<lparr>pc := UnlockLoop ?new\<rparr>) (s\<lparr>state := ?new\<rparr>)"
    have e: "ts ?s = (ts s)[g := ?t\<lparr>pc := UnlockLoop ?new\<rparr>]" "spcs ?s = (spcs s)[g := Outside]" "cnt ?s = cnt s"
      using list_update_id [of "spcs s" g] g(2) by simp_all
    have "balance False w v k ?s"
      using b(2) own_balance [OF m g(1) e] p g(2) 2 retrying_enc [OF b(3), of False w v] unfolding balance_def
      by (cases "\<not> w \<and> 0 < k") (auto simp: role_defs)
    then have "mutex_inv ?s" using mutex_invD(1) [OF m] ok p
      by (intro mutex_invI [OF m e(1,2)]) auto
    then show ?thesis using 2 new chk sv by (simp add: unlock_fast_def Let_def)
  next
    case 3
    let ?s = "thread g (?t\<lparr>pc := NotIn\<rparr>) (semrelease g True (s\<lparr>state := ?new\<rparr>))"
    have e: "ts ?s = (ts s)[g := ?t\<lparr>pc := NotIn\<rparr>]" "spcs ?s = (spcs s)[g := RelAdd True]" "cnt ?s = cnt s"
      by (simp_all add: semrelease_def)
    have "balance False w v k ?s"
      using b(2) own_balance [OF m g(1) e] p g(2) 3 unfolding balance_def by (simp add: role_defs semrelease_def)
    moreover have "sema_inv ?s" using mutex_invD(1) [OF m] g by (simp add: semrelease_inv)
    ultimately have "mutex_inv ?s"
      by (intro mutex_invI [OF m e(1,2)]) (auto simp: semrelease_def thread_ok_def role_defs)
    then show ?thesis using 3 new chk sv by (simp add: unlock_fast_def Let_def)
  qed
qed

lemma unlock_load_inv:
  assumes m: "mutex_inv s" and g: "g < length (spcs s)" "spcs s ! g = Outside" and p: "pc (ts s ! g) = UnlockLoad"
  shows "mutex_inv (thread g ((ts s ! g)\<lparr>pc := UnlockLoop (state s)\<rparr>) s)" (is "mutex_inv ?s")
proof -
  obtain l w v k where b: "state s = enc l w v k" "balance l w v k s" "k < 2 ^ 28"
    by (rule mutex_invE [OF m])
  have r: "retrying (UnlockLoop (state s)) \<longleftrightarrow> \<not> l \<and> \<not> w \<and> \<not> v \<and> 0 < k"
    unfolding b(1) by (rule retrying_enc [OF b(3)])
  have e: "ts ?s = (ts s)[g := (ts s ! g)\<lparr>pc := UnlockLoop (state s)\<rparr>]" "spcs ?s = (spcs s)[g := Outside]" "cnt ?s = cnt s"
    using list_update_id [of "spcs s" g] g(2) by simp_all
  have "balance l w v k ?s"
    using b(2) own_balance [OF m g(1) e] p g(2) r unfolding balance_def
    by (cases l; cases w; cases v; cases "k = 0") (simp_all add: role_defs del: retrying.simps(2))
  then show ?thesis using mutex_invD(1) [OF m] b
    by (intro mutex_invI [OF m e(1,2)]) (auto simp: thread_ok_def role_defs)
qed

lemma unlock_loop_inv:
  assumes m: "mutex_inv s" and g: "g < length (spcs s)" "spcs s ! g = Outside" and p: "pc (ts s ! g) = UnlockLoop ov"
  shows "\<exists>s'. unlock_loop g ov s = Ret s' \<and> mutex_inv s'"
proof -
  let ?t = "ts s ! g"
  have seven: "(1 OR 2 OR 4 :: u32) = 7" by simp
  consider "\<not> retrying (UnlockLoop ov)" | "retrying (UnlockLoop ov)" "state s \<noteq> ov" | "retrying (UnlockLoop ov)" "state s = ov"
    by blast
  then show ?thesis
  proof cases
    case 1
    then have "mutex_inv (thread g (?t\<lparr>pc := NotIn\<rparr>) s)"
      using p by (intro local_move [OF m g]) (auto simp: role_def role_defs thread_ok_def)
    then show ?thesis using 1 by (auto simp: unlock_loop_def Let_def)
  next
    case 2
    then have "mutex_inv (thread g (?t\<lparr>pc := UnlockLoad\<rparr>) s)"
      using p by (intro local_move [OF m g]) (auto simp: role_def role_defs thread_ok_def)
    then show ?thesis using 2 by (auto simp: unlock_loop_def Let_def)
  next
    case 3
    obtain l w v k where b: "state s = enc l w v k" "balance l w v k s" "k < 2 ^ 28"
      by (rule mutex_invE [OF m])
    have z: "\<not> l" "\<not> w" "\<not> v" "0 < k" using 3 retrying_enc [OF b(3), of l w v] b(1) by auto
    have k1: "0 < k" "k - 1 < 2 ^ 28" using z b(3) by auto
    have ov: "ov = enc False False False k" using 3 b(1) z by simp
    have "ov - 8 = enc False False False (k - 1)" unfolding ov by (rule enc_sub_waiter [OF k1(1)])
    then have new: "(ov - 8) OR 2 = enc False True False (k - 1)" by (simp only: enc_consts enc_or) simp
    let ?s = "thread g (?t\<lparr>pc := NotIn\<rparr>) (semrelease g False (s\<lparr>state := (ov - 8) OR 2\<rparr>))"
    have e: "ts ?s = (ts s)[g := ?t\<lparr>pc := NotIn\<rparr>]" "spcs ?s = (spcs s)[g := RelAdd False]" "cnt ?s = cnt s"
      by (simp_all add: semrelease_def)
    have "balance False True False (k - 1) ?s"
      using b(2) own_balance [OF m g(1) e] p g(2) z unfolding balance_def
      by (simp add: role_defs semrelease_def)
    moreover have "sema_inv ?s" using mutex_invD(1) [OF m] g by (simp add: semrelease_inv)
    ultimately have "mutex_inv ?s" using new
      by (intro mutex_invI [OF m e(1,2)]) (auto simp: semrelease_def thread_ok_def role_defs)
    then show ?thesis using 3 by (auto simp: unlock_loop_def Let_def)
  qed
qed

text \<open>\<open>Lock\<close> after the semaphore.\<close>

lemma lock_acquired_inv:
  assumes m: "mutex_inv s" and g: "g < length (spcs s)" "spcs s ! g = Outside" and p: "pc (ts s ! g) = Acquired"
  shows "\<exists>s'. lock_acquired g now s = Ret s' \<and> mutex_inv s'"
proof -
  obtain l w v k where b: "state s = enc l w v k" "balance l w v k s" "k < 2 ^ 28"
    by (rule mutex_invE [OF m])
  define t where "t = (ts s ! g)\<lparr>starving := starving (ts s ! g) \<or> 1000000 < now - waitStart (ts s ! g), old_state := state s\<rparr>"
  have gl: "g < length (ts s)" using mutex_invD(3) [OF m] g by simp
  have "0 < num has_permit (zip (ts s) (spcs s))"
    unfolding num_pos using g gl p by (auto simp: has_permit_def intro!: exI [of _ g])
  then have pm: "0 < permits s" by (simp add: permits_def)
  have wt: "0 < num in_wait (ts s)" unfolding num_pos using gl p by (auto simp: in_wait_def)
  have sv: "state s AND 4 = 0 \<longleftrightarrow> \<not> v" unfolding b(1) enc_consts enc_and using b(3) by (simp add: enc_inj)
  show ?thesis
  proof (cases v)
    case True
    then have z: "\<not> l" "\<not> w" "0 < k" using b(2) pm wt by (auto simp: balance_def)
    have three: "(1 OR 2 :: u32) = 3" by simp
    have chk: "state s AND (1 OR 2) = 0" unfolding three b(1) unfolding enc_consts enc_and using z by simp
    have sd: "signed_drop_bit 3 (state s) \<noteq> 0" using z b(3) unfolding b(1) by (simp only: sdrop_enc_eq)
    define d :: u32 where
      "d = (if \<not> starving t \<or> signed_drop_bit 3 (state s) = 1 then 1 - push_bit 3 1 - 4 else 1 - push_bit 3 1)"
    let ?t = "t\<lparr>pc := AddDelta d\<rparr>" and ?s = "thread g (t\<lparr>pc := AddDelta d\<rparr>) s"
    have e: "ts ?s = (ts s)[g := ?t]" "spcs ?s = (spcs s)[g := Outside]" "cnt ?s = cnt s"
      using list_update_id [of "spcs s" g] g(2) by simp_all
    have "balance l w v k ?s"
      using b(2) own_balance [OF m g(1) e] p g(2) z True unfolding balance_def by (simp add: role_defs t_def)
    then have "mutex_inv ?s" using mutex_invD(1) [OF m] b
      by (intro mutex_invI [OF m e(1,2)]) (auto simp: thread_ok_def role_defs d_def)
    moreover have "lock_acquired g now s = Ret ?s"
      using True sv chk sd by (simp add: lock_acquired_def Let_def d_def t_def)
    ultimately show ?thesis by blast
  next
    case False
    then have z: w "permits s = 1" "num woken (ts s) = 0" "num in_wait (ts s) = k + 1" "num (\<lambda>t. taking_over (pc t)) (ts s) = 0"
      using b(2) pm by (cases w; simp add: balance_def)+
    let ?t = "t\<lparr>pc := LockLoop, awoke := True, iter := 0\<rparr>" and ?s = "thread g (t\<lparr>pc := LockLoop, awoke := True, iter := 0\<rparr>) s"
    have e: "ts ?s = (ts s)[g := ?t]" "spcs ?s = (spcs s)[g := Outside]" "cnt ?s = cnt s"
      using list_update_id [of "spcs s" g] g(2) by simp_all
    have "balance l w v k ?s"
      using b(2) own_balance [OF m g(1) e] p g(2) z False unfolding balance_def by (simp add: role_defs t_def)
    moreover have "state s AND 2 \<noteq> 0" unfolding b(1) enc_consts enc_and using z b(3) by (simp add: enc_inj)
    ultimately have "mutex_inv ?s" using mutex_invD(1) [OF m] b
      by (intro mutex_invI [OF m e(1,2)]) (auto simp: thread_ok_def role_defs t_def)
    moreover have "lock_acquired g now s = Ret ?s"
      using False sv by (simp add: lock_acquired_def Let_def t_def)
    ultimately show ?thesis by blast
  qed
qed

lemma add_delta_inv:
  assumes m: "mutex_inv s" and g: "g < length (spcs s)" "spcs s ! g = Outside" and p: "pc (ts s ! g) = AddDelta d"
  shows "mutex_inv (thread g ((ts s ! g)\<lparr>pc := NotIn\<rparr>) (s\<lparr>state := state s + d, held := held s + 1\<rparr>))"
    (is "mutex_inv ?s")
proof -
  obtain l w v k where b: "state s = enc l w v k" "balance l w v k s" "k < 2 ^ 28"
    by (rule mutex_invE [OF m])
  have gl: "g < length (ts s)" using mutex_invD(3) [OF m] g by simp
  have "0 < num (\<lambda>t. taking_over (pc t)) (ts s)" unfolding num_pos using gl p by auto
  then have v: v using b(2) by (auto simp: balance_def split: if_splits)
  have "0 < num has_permit (zip (ts s) (spcs s))"
    unfolding num_pos using g gl p by (auto simp: has_permit_def intro!: exI [of _ g])
  then have pm: "0 < permits s" by (simp add: permits_def)
  have "0 < num in_wait (ts s)" unfolding num_pos using gl p by (auto simp: in_wait_def)
  then have z: "\<not> l" "\<not> w" "0 < k" "permits s = 1" using b(2) pm v by (auto simp: balance_def split: if_splits)
  have e: "ts ?s = (ts s)[g := (ts s ! g)\<lparr>pc := NotIn\<rparr>]" "spcs ?s = (spcs s)[g := Outside]" "cnt ?s = cnt s"
    using list_update_id [of "spcs s" g] g(2) by simp_all
  have one: "enc False False True k + (1 - 8) = enc True False True (k - 1)"
    using enc_sub_waiter [OF z(3), of True False True] enc_lock [of False True k]
    by (metis add_diff_eq)
  have "d = 1 - 8 \<or> d = 1 - 8 - 4" using mutex_invD(4) [OF m g(1)] p by (auto simp: thread_ok_def)
  then have st: "\<exists>v'. state s + d = enc True False v' (k - 1)"
  proof
    assume "d = 1 - 8"
    then have "state s + d = enc True False True (k - 1)" using one z v unfolding b(1) by simp
    then show ?thesis by blast
  next
    assume "d = 1 - 8 - 4"
    then have "state s + d = enc False False True k + (1 - 8) - 4" using z v unfolding b(1) by simp
    then have "state s + d = enc True False False (k - 1)" unfolding one enc_starve by simp
    then show ?thesis by blast
  qed
  then obtain v' where st: "state s + d = enc True False v' (k - 1)" by blast
  have nw: "num (\<lambda>t. taking_over (pc t)) (ts s) \<le> 1"
  proof -
    have "num (\<lambda>x. taking_over (pc (fst x))) (zip (ts s) (spcs s)) \<le> num has_permit (zip (ts s) (spcs s))"
      by (rule num_mono) (auto simp: has_permit_def)
    then show ?thesis
      using z(4) num_zip_fst [OF mutex_invD(3) [OF m], of "\<lambda>t. taking_over (pc t)"] by (simp add: permits_def)
  qed
  have "balance True False v' (k - 1) ?s"
    using b(2) own_balance [OF m g(1) e] p g(2) z v nw unfolding balance_def
    by (auto simp: role_defs)
  then show ?thesis using mutex_invD(1) [OF m] st mutex_invD(4) [OF m g(1)] g(2)
    by (intro mutex_invI [OF m e(1,2)]) (auto simp: thread_ok_def role_defs)
qed


text \<open>The loop of \<open>lockSlow\<close>.\<close>

lemma low_consts: "(1 OR 4 :: u32) = 5" "push_bit 3 (1 :: u32) = 8"
  by simp_all

lemma flag_tests:
  "enc l w v k AND 1 = 0 \<longleftrightarrow> \<not> l" "enc l w v k AND 2 = 0 \<longleftrightarrow> \<not> w" "enc l w v k AND 4 = 0 \<longleftrightarrow> \<not> v"
  "enc l w v k AND 5 = 0 \<longleftrightarrow> \<not> l \<and> \<not> v" "enc l w v k AND 5 = 1 \<longleftrightarrow> l \<and> \<not> v"
  unfolding enc_consts enc_and by (simp_all add: enc_inj)

lemma flag_updates:
  "enc l w v k OR 1 = enc True w v k" "enc l w v k OR 2 = enc l True v k" "enc l w v k OR 4 = enc l w True k"
  "enc l w v k AND NOT 2 = enc l False v k"
  unfolding enc_consts enc_or enc_and_not by simp_all

lemma clear_woken: "enc l w v k AND - 3 = enc l False v k"
  using flag_updates(4) [of l w v k] by simp

lemma lock_new_enc:
  assumes "aw \<Longrightarrow> w"
  shows "lock_new (enc l w v k) st aw =
    Ret (enc (l \<or> \<not> v) (w \<and> \<not> aw) (v \<or> st \<and> l) (if l \<or> v then Suc k else k))"
  unfolding lock_new_def Let_def low_consts flag_tests flag_updates enc_add_waiter
  using assms by (cases l; cases v; cases st; cases aw) (simp_all add: flag_tests flag_updates enc_add_waiter clear_woken)

lemma enc_exists: "\<exists>l w v k. x = enc l w v k"
proof -
  have "x = enc (bit x 0) (bit x 1) (bit x 2) (unat (drop_bit 3 x))"
  proof (rule bit_word_eqI)
    fix i assume "i < LENGTH(32)"
    then show "bit x i \<longleftrightarrow> bit (enc (bit x 0) (bit x 1) (bit x 2) (unat (drop_bit 3 x))) i"
    proof (cases "3 \<le> i")
      case True
      then show ?thesis using \<open>i < LENGTH(32)\<close> by (auto simp: bit_enc bit_unsigned_iff bit_drop_bit_eq)
    next
      case False
      then have "i = 0 \<or> i = 1 \<or> i = 2" by auto
      then show ?thesis by (auto simp: bit_enc)
    qed
  qed
  then show ?thesis by blast
qed

lemma lock_new_ret:
  assumes "aw \<Longrightarrow> ov AND 2 \<noteq> 0"
  shows "\<exists>new. lock_new ov st aw = Ret new"
proof -
  obtain l w v k where "ov = enc l w v k" using enc_exists by blast
  then show ?thesis using assms lock_new_enc [of aw w l v k st] by (auto simp: flag_tests)
qed

lemma spin_cas_inv:
  assumes m: "mutex_inv s" and g: "g < length (spcs s)" "spcs s ! g = Outside" and p: "pc (ts s ! g) = LockLoop"
    and c: "\<not> awoke (ts s ! g)" "state s AND 2 = 0" "state s AND 5 = 1"
  shows "mutex_inv (thread g ((ts s ! g)\<lparr>pc := SpinLoad, awoke := True\<rparr>) (s\<lparr>state := state s OR 2\<rparr>))" (is "mutex_inv ?s")
proof -
  obtain l w v k where b: "state s = enc l w v k" "balance l w v k s" "k < 2 ^ 28"
    by (rule mutex_invE [OF m])
  have z: "l" "\<not> w" "\<not> v" using c(2,3) unfolding b(1) flag_tests by auto
  have e: "ts ?s = (ts s)[g := (ts s ! g)\<lparr>pc := SpinLoad, awoke := True\<rparr>]" "spcs ?s = (spcs s)[g := Outside]" "cnt ?s = cnt s"
    using list_update_id [of "spcs s" g] g(2) by simp_all
  have "balance l True v k ?s"
    using b(2) own_balance [OF m g(1) e] p g(2) z c(1) unfolding balance_def by (simp add: role_defs)
  then show ?thesis using mutex_invD(1) [OF m] b
    by (intro mutex_invI [OF m e(1,2)]) (auto simp: thread_ok_def role_defs flag_updates)
qed

lemma lock_cas_ok:
  assumes m: "mutex_inv s" and g: "g < length (spcs s)" "spcs s ! g = Outside" and p: "pc (ts s ! g) = LockLoop"
    and o: "old_state (ts s ! g) = state s" and n: "lock_new (state s) (starving (ts s ! g)) (awoke (ts s ! g)) = Ret new"
    and c: "state s AND 5 = 0"
  shows "mutex_inv (thread g ((ts s ! g)\<lparr>pc := NotIn\<rparr>) (s\<lparr>state := new, held := held s + 1\<rparr>))" (is "mutex_inv ?s")
proof -
  obtain l w v k where b: "state s = enc l w v k" "balance l w v k s" "k < 2 ^ 28"
    by (rule mutex_invE [OF m])
  have z: "\<not> l" "\<not> v" using c unfolding b(1) flag_tests by auto
  have aw: "awoke (ts s ! g) \<Longrightarrow> w"
    using mutex_invD(4) [OF m g(1)] p o b(1) by (auto simp: thread_ok_def flag_tests)
  have new: "new = enc True (w \<and> \<not> awoke (ts s ! g)) False k"
    using n lock_new_enc [OF aw, of _ l v k "starving (ts s ! g)"] z unfolding b(1) by simp
  have e: "ts ?s = (ts s)[g := (ts s ! g)\<lparr>pc := NotIn\<rparr>]" "spcs ?s = (spcs s)[g := Outside]" "cnt ?s = cnt s"
    using list_update_id [of "spcs s" g] g(2) by simp_all
  have "balance True (w \<and> \<not> awoke (ts s ! g)) False k ?s"
    using b(2) own_balance [OF m g(1) e] p g(2) z aw unfolding balance_def
    by (cases "awoke (ts s ! g)") (auto simp: role_defs)
  then show ?thesis using mutex_invD(1) [OF m] new
    by (intro mutex_invI [OF m e(1,2)]) (auto simp: thread_ok_def role_defs)
qed

lemma lock_cas_wait:
  assumes m: "mutex_inv s" and g: "g < length (spcs s)" "spcs s ! g = Outside" and p: "pc (ts s ! g) = LockLoop"
    and o: "old_state (ts s ! g) = state s" and n: "lock_new (state s) (starving (ts s ! g)) (awoke (ts s ! g)) = Ret new"
    and c: "state s AND 5 \<noteq> 0"
    and t: "pc t = Acquired"
  shows "mutex_inv (thread g t (semacquire g lifo (s\<lparr>state := new\<rparr>)))" (is "mutex_inv ?s")
proof -
  obtain l w v k where b: "state s = enc l w v k" "balance l w v k s" "k < 2 ^ 28"
    by (rule mutex_invE [OF m])
  let ?aw = "awoke (ts s ! g)" and ?st = "starving (ts s ! g)"
  have z: "l \<or> v" using c unfolding b(1) flag_tests by auto
  have aw: "?aw \<Longrightarrow> w" and sa: "?st \<Longrightarrow> ?aw"
    using mutex_invD(4) [OF m g(1)] p o b(1) by (auto simp: thread_ok_def flag_tests competing_def)
  have wk: "woken (ts s ! g) \<longleftrightarrow> ?aw" using p by (simp add: role_defs)
  have pos: "?aw \<Longrightarrow> 0 < num woken (ts s)"
    unfolding num_pos using g mutex_invD(3) [OF m] wk by auto
  have av: "?aw \<Longrightarrow> \<not> v" using pos b(2) by (auto simp: balance_def)
  have new: "new = enc (l \<or> \<not> v) (w \<and> \<not> ?aw) (v \<or> ?st \<and> l) (Suc k)"
    using n lock_new_enc [OF aw, of _ l v k ?st] z unfolding b(1) by simp
  have l: "(l \<or> \<not> v) = l" using z by auto
  have e: "ts ?s = (ts s)[g := t]" "spcs ?s = (spcs s)[g := AcqTry lifo]" "cnt ?s = cnt s"
    by (simp_all add: semacquire_def)
  note ob = own_balance [OF m g(1) e]
  have "balance l (w \<and> \<not> ?aw) (v \<or> ?st \<and> l) (Suc k) ?s"
  proof (cases v)
    case True
    then show ?thesis using b(2) ob p g(2) t av unfolding balance_def
      by (auto simp: role_defs semacquire_def)
  next
    case False
    then have "l" using z by simp
    then show ?thesis using b(2) ob p g(2) t False aw sa pos unfolding balance_def
      by (cases ?aw; cases ?st) (auto simp: role_defs semacquire_def)
  qed
  then have "balance (l \<or> \<not> v) (w \<and> \<not> ?aw) (v \<or> ?st \<and> l) (Suc k) ?s" unfolding l .
  moreover have "sema_inv ?s" using mutex_invD(1) [OF m] g by (simp add: semacquire_inv)
  ultimately show ?thesis using t new
    by (intro mutex_invI [OF m e(1,2)]) (auto simp: semacquire_def thread_ok_def role_defs)
qed

lemma lock_loop_inv:
  assumes m: "mutex_inv s" and g: "g < length (spcs s)" "spcs s ! g = Outside" and p: "pc (ts s ! g) = LockLoop"
  shows "\<exists>s'. lock_loop g spins now s = Ret s' \<and> mutex_inv s'"
proof -
  let ?t = "ts s ! g"
  have spin: "mutex_inv (thread g (?t\<lparr>pc := SpinLoad\<rparr>) s)" and load: "mutex_inv (thread g (?t\<lparr>pc := LoadOld\<rparr>) s)"
    using p mutex_invD(4) [OF m g(1)]
    by (intro local_move [OF m g]; auto simp: role_def role_defs thread_ok_def)+
  have "\<exists>new. lock_new (old_state ?t) (starving ?t) (awoke ?t) = Ret new"
    using mutex_invD(4) [OF m g(1)] p by (intro lock_new_ret) (auto simp: thread_ok_def)
  then obtain new where new: "lock_new (old_state ?t) (starving ?t) (awoke ?t) = Ret new" ..
  show ?thesis
    using spin load new spin_cas_inv [OF m g p] lock_cas_ok [OF m g p] lock_cas_wait [OF m g p]
    by (auto simp: lock_loop_def Let_def low_consts)
qed


section \<open>All interleavings\<close>

lemma permits_le_one: "mutex_inv s \<Longrightarrow> permits s \<le> 1"
  by (erule mutex_invE) (auto simp: balance_def of_bool_def split: if_splits)

lemma sema_step_outcome: "sema_step g oth s = Spin \<or> (\<exists>s'. sema_step g oth s = Ret s')"
  by (cases "spcs s ! g") (auto simp: sema_step_def Let_def split: prod.splits list.splits)

lemma mutex_step_length:
  "mutex_step g spins now oth s = Ret s' \<Longrightarrow> length (spcs s') = length (spcs s)"
  unfolding mutex_step_def
  by (auto simp: sema_step_length obind_eq_Ret lock_loop_def lock_acquired_def unlock_fast_def unlock_loop_def
      semacquire_def semrelease_def Let_def split: if_splits mpc.splits)

lemma own_step_inv:
  assumes m: "mutex_inv s" and g: "g < length (spcs s)" "spcs s ! g = Outside" and p: "pc (ts s ! g) \<noteq> NotIn"
  shows "\<exists>s'. mutex_step g spins now oth s = Ret s' \<and> mutex_inv s'"
proof (cases "pc (ts s ! g)")
  case LockFast
  then show ?thesis using g lock_fast_fail [OF m g] lock_fast_ok [OF m g]
    by (auto simp: mutex_step_def Let_def)
next
  case LoadOld
  have "(ts s ! g)\<lparr>pc := LockLoop, iter := iter (ts s ! g), old_state := x\<rparr> = (ts s ! g)\<lparr>pc := LockLoop, old_state := x\<rparr>" for x
    by simp
  then show ?thesis using g load_old_inv [OF m g, of "iter (ts s ! g)"] LoadOld
    by (simp add: mutex_step_def Let_def)
next
  case SpinLoad
  then show ?thesis using g load_old_inv [OF m g, of "iter (ts s ! g) + 1"] by (simp add: mutex_step_def Let_def)
next
  case LockLoop
  then show ?thesis using g lock_loop_inv [OF m g] by (simp add: mutex_step_def Let_def)
next
  case Acquired
  then show ?thesis using g lock_acquired_inv [OF m g] by (simp add: mutex_step_def Let_def)
next
  case (AddDelta d)
  then show ?thesis using g add_delta_inv [OF m g] by (simp add: mutex_step_def Let_def)
next
  case UnlockFast
  then show ?thesis using g unlock_fast_inv [OF m g] by (simp add: mutex_step_def Let_def)
next
  case (UnlockLoop ov)
  then show ?thesis using g unlock_loop_inv [OF m g] by (simp add: mutex_step_def Let_def)
next
  case UnlockLoad
  then show ?thesis using g unlock_load_inv [OF m g] by (simp add: mutex_step_def Let_def)
qed (use p in simp)

lemma mutex_step_ok:
  assumes m: "mutex_inv s" and g: "g < length (spcs s)"
  shows "mutex_step g spins now oth s = Spin \<or> (\<exists>s'. mutex_step g spins now oth s = Ret s' \<and> mutex_inv s')"
proof -
  have b: "unat (cnt s) + 1 < 2 ^ 32" using permits_le_one [OF m] by (simp add: permits_def)
  consider "spcs s ! g \<noteq> Outside" | "spcs s ! g = Outside" "pc (ts s ! g) = NotIn" | "spcs s ! g = Outside" "pc (ts s ! g) \<noteq> NotIn"
    by blast
  then show ?thesis
  proof cases
    case 1
    then show ?thesis using sema_step_outcome [of g oth s] sema_step_mutex_inv(1) [OF m g _ b]
      by (auto simp: mutex_step_def)
  next
    case 2
    then show ?thesis by (simp add: mutex_step_def Let_def)
  next
    case 3
    then show ?thesis using own_step_inv [OF m g] by blast
  qed
qed

lemma mutex_init_inv: "n < 2 ^ 28 \<Longrightarrow> mutex_inv (mutex_init n)"
proof -
  assume n: "n < 2 ^ 28"
  have "balance False False False 0 (mutex_init n)"
    by (simp add: balance_def mutex_init_def permits_def zip_replicate num_replicate role_defs thread_init_def)
  moreover have "sema_inv (mutex_init n)"
    using n by (simp add: sema_inv_def mutex_init_def waiting_def num_replicate)
  moreover have "list_all2 thread_ok (ts (mutex_init n)) (spcs (mutex_init n))"
    by (simp add: list_all2_conv_all_nth mutex_init_def thread_ok_def role_defs thread_init_def)
  moreover have "state (mutex_init n) = enc False False False 0" by (simp add: mutex_init_def enc_def)
  ultimately show ?thesis using n unfolding mutex_inv_def by (auto simp: mutex_init_def)
qed

lemma mutex_reach_inv:
  "mutex_reach n s \<Longrightarrow> n < 2 ^ 28 \<Longrightarrow> mutex_inv s \<and> length (spcs s) = n"
proof (induction rule: mutex_reach.induct)
  case start
  then show ?case using mutex_init_inv by (simp add: mutex_init_def)
next
  case (lock s g)
  then show ?case using call_lock_inv [of s g] by (simp add: call_lock_def)
next
  case (unlock s g)
  then show ?case using call_unlock_inv [of s g] by (simp add: call_unlock_def)
next
  case (step s g spins now oth s')
  then have i: "mutex_inv s" "g < length (spcs s)" by auto
  then have "mutex_inv s'" using mutex_step_ok [OF i, of spins now oth] step(3) by auto
  moreover have "length (spcs s') = length (spcs s)" by (rule mutex_step_length [OF step(3)])
  ultimately show ?case using step by simp
qed

text \<open>C7. Mutual exclusion: in every interleaving of fewer than 2^28 goroutines that lock the mutex, and
  unlock it only when it is held, at most one of them holds it at a time, its state says so exactly
  when it does (or is about to unlock), and no step throws: neither the checks for an inconsistent
  state, nor the one for unlocking an unlocked mutex.\<close>

theorem mutex_exclusion:
  assumes "mutex_reach n s" "n < 2 ^ 28" "g < n"
  shows "held s \<le> 1 \<and> (state s AND mutexLocked \<noteq> 0 \<longleftrightarrow> held s = 1 \<or> (\<exists>v<n. pc (ts s ! v) = UnlockFast)) \<and>
    (\<forall>msg. mutex_step g spins now oth s \<noteq> Throw msg)"
proof -
  have m: "mutex_inv s" "length (spcs s) = n" using mutex_reach_inv [OF assms(1,2)] by auto
  then have l: "length (ts s) = n" using mutex_invD(3) by auto
  obtain l w v k where b: "state s = enc l w v k" "balance l w v k s" "k < 2 ^ 28"
    by (rule mutex_invE [OF m(1)])
  have h: "held s + num (\<lambda>t. pc t = UnlockFast) (ts s) = of_bool l" using b(2) by (simp add: balance_def)
  have "0 < num (\<lambda>t. pc t = UnlockFast) (ts s) \<longleftrightarrow> (\<exists>v<n. pc (ts s ! v) = UnlockFast)"
    unfolding num_pos l ..
  then have "l \<longleftrightarrow> held s = 1 \<or> (\<exists>v<n. pc (ts s ! v) = UnlockFast)"
    using h by (cases l; cases "held s"; auto)
  moreover have "held s \<le> 1" using h by (cases l) auto
  moreover have "mutex_step g spins now oth s \<noteq> Throw msg" for msg
    using mutex_step_ok [OF m(1), of g spins now oth] assms(3) m(2) by auto
  ultimately show ?thesis unfolding b(1) flag_tests by blast
qed

text \<open>A thread that has no step of its own is outside of every call, or asleep on the semaphore.\<close>

lemma stuck_thread:
  assumes m: "mutex_inv s" and stuck: "\<And>u. u < length (spcs s) \<Longrightarrow> \<not> idle u s \<Longrightarrow> \<exists>spins now oth. \<forall>s'. mutex_step u spins now oth s \<noteq> Ret s'"
    and v: "v < length (spcs s)"
  shows "pc (ts s ! v) = NotIn \<and> spcs s ! v = Outside \<or> pc (ts s ! v) = Acquired \<and> is_asleep (spcs s ! v) \<and> cnt s = 0"
proof (cases "spcs s ! v = Outside")
  case True
  have "pc (ts s ! v) = NotIn"
  proof (rule ccontr)
    assume "pc (ts s ! v) \<noteq> NotIn"
    then have n: "\<not> idle v s" "\<And>spins now oth. \<exists>s'. mutex_step v spins now oth s = Ret s' \<and> mutex_inv s'"
      using own_step_inv [OF m v True] by (simp_all add: idle_def)
    from stuck [OF v n(1)] n(2) show False by metis
  qed
  then show ?thesis using True by blast
next
  case False
  have noact: "\<not> (is_active (spcs s ! u) \<and> can_step u s)" if u: "u < length (spcs s)" for u
  proof
    assume a: "is_active (spcs s ! u) \<and> can_step u s"
    then have n: "spcs s ! u \<noteq> Outside" by auto
    then have "\<not> idle u s" by (simp add: idle_def)
    then obtain spins now oth where "\<forall>s'. mutex_step u spins now oth s \<noteq> Ret s'" using stuck [OF u] by blast
    then show False using a n can_step_any [of u s oth] by (auto simp: mutex_step_def)
  qed
  then have a: "is_asleep (spcs s ! v) \<and> cnt s = 0" using sema_progress [OF mutex_invD(1) [OF m] v] False by blast
  then have "is_acq (spcs s ! v)" by (cases "spcs s ! v") auto
  then show ?thesis using a mutex_invD(4) [OF m v] by (simp add: thread_ok_def)
qed

text \<open>C8. No wake-up is lost: in every interleaving, when some goroutine is inside \<open>Lock\<close> or \<open>Unlock\<close> and
  nobody holds the mutex, some goroutine inside a call can take a step, whatever the scheduler and
  the clock say.  So the goroutines never all sleep in front of a free mutex.\<close>

theorem mutex_progress:
  assumes "mutex_reach n s" "n < 2 ^ 28" "g < n" "\<not> idle g s" "held s = 0"
  shows "\<exists>v<n. \<not> idle v s \<and> (\<forall>spins now oth. \<exists>s'. mutex_step v spins now oth s = Ret s')"
proof (rule ccontr)
  assume stuck: "\<not> ?thesis"
  have m: "mutex_inv s" "length (spcs s) = n" using mutex_reach_inv [OF assms(1,2)] by auto
  then have l: "length (ts s) = n" using mutex_invD(3) by auto
  have thr: "pc (ts s ! v) = NotIn \<and> spcs s ! v = Outside \<or> pc (ts s ! v) = Acquired \<and> is_asleep (spcs s ! v) \<and> cnt s = 0"
    if "v < n" for v
    using stuck that m(2) by (intro stuck_thread [OF m(1)]) auto
  have pcs: "pc (ts s ! v) = NotIn \<or> pc (ts s ! v) = Acquired" if "v < n" for v
    using thr [OF that] by blast
  have z: "num (\<lambda>t. pc t = UnlockFast) (ts s) = 0" "num woken (ts s) = 0" "num (\<lambda>t. retrying (pc t)) (ts s) = 0"
    using pcs num_pos [of "\<lambda>t. pc t = UnlockFast" "ts s"] num_pos [of woken "ts s"]
      num_pos [of "\<lambda>t. retrying (pc t)" "ts s"] l by (fastforce simp: role_defs)+
  have g: "pc (ts s ! g) = Acquired" "cnt s = 0" using assms(4) thr [OF assms(3)] by (auto simp: idle_def)
  have "\<not> has_permit (ts s ! v, spcs s ! v)" if "v < n" for v
    using thr [OF that] by (cases "spcs s ! v") (auto simp: has_permit_def)
  then have "num has_permit (zip (ts s) (spcs s)) = 0"
    using num_pos [of has_permit "zip (ts s) (spcs s)"] l m(2) by auto
  then have pm: "permits s = 0" using g(2) by (simp add: permits_def)
  have wt: "0 < num in_wait (ts s)" unfolding num_pos using g(1) assms(3) l by (auto simp: in_wait_def)
  obtain lk w v k where b: "state s = enc lk w v k" "balance lk w v k s" "k < 2 ^ 28"
    by (rule mutex_invE [OF m(1)])
  show False using b(2) z pm wt assms(5) by (cases lk; cases w; cases v) (simp_all add: balance_def)
qed

text \<open>Concrete runs, without spinning and at time 1.\<close>

datatype mutex_event = CallLock nat | CallUnlock nat | Go nat

fun mutex_run :: "mutex_event list \<Rightarrow> msys \<Rightarrow> msys outcome" where
  "mutex_run [] s = Ret s"
| "mutex_run (CallLock g # es) s = (if idle g s then mutex_run es (call_lock g s) else Spin)"
| "mutex_run (CallUnlock g # es) s = (if idle g s \<and> 0 < held s then mutex_run es (call_unlock g s) else Spin)"
| "mutex_run (Go g # es) s = obind (mutex_step g False 1 0 s) (mutex_run es)"

fun event_of :: "mutex_event \<Rightarrow> nat" where
  "event_of (CallLock g) = g"
| "event_of (CallUnlock g) = g"
| "event_of (Go g) = g"

lemma mutex_run_reach:
  "mutex_run es s = Ret s' \<Longrightarrow> mutex_reach n s \<Longrightarrow> \<forall>e\<in>set es. event_of e < n \<Longrightarrow> mutex_reach n s'"
  by (induction es s rule: mutex_run.induct)
    (auto simp: obind_eq_Ret intro: mutex_reach.intros split: if_splits)

text \<open>Goroutine 0 locks, goroutine 1 waits for it, goroutine 0 has cleared the lock bit and will wake 1.\<close>

definition contended_run :: "mutex_event list" where
  "contended_run = [CallLock 0, Go 0, CallLock 1, Go 1, Go 1, Go 1, Go 1, Go 1, Go 1, Go 1, CallUnlock 0, Go 0]"

definition contended :: msys where
  "contended = \<lparr>cnt = 0, nwait = 1, root_lock = None, waiters = [1], spcs = [Outside, Asleep False],
     state = 8,
     ts = [thread_init\<lparr>pc := UnlockLoop 8\<rparr>, thread_init\<lparr>pc := Acquired, old_state := 1, waitStart := 1\<rparr>],
     held = 0\<rparr>"

lemma contended_reach: "mutex_reach 2 contended"
proof -
  have "mutex_run contended_run (mutex_init 2) = Ret contended" by code_simp
  from mutex_run_reach [OF this mutex_reach.start] show ?thesis by (simp add: contended_run_def)
qed

theorem mutex_exclusion_witness:
  "held contended \<le> 1 \<and> mutex_step 0 False 1 0 contended \<noteq> Throw ''sync: inconsistent mutex state''"
  using mutex_exclusion [OF contended_reach, of 0 False 1 0] by simp

theorem mutex_progress_witness:
  "\<exists>v<2. \<not> idle v contended \<and> (\<forall>spins now oth. \<exists>s'. mutex_step v spins now oth contended = Ret s')"
  using mutex_progress [OF contended_reach, of 1] by (simp add: contended_def idle_def)

end
