(* ===== verification/Rwmutex.thy ===== *)
theory Rwmutex
  imports Prelude
begin

text \<open>
  \<open>sync.RWMutex\<close> (\<open>sync/rwmutex.go\<close>) with any number of goroutines, each step one atomic operation on
  its fields with the local code around it.  The two counters are the 32-bit words of the code.

  The semaphores and the mutex \<open>w\<close> are used through what \<open>Sema_Spec\<close> and \<open>Mutex_Spec\<close> show: a
  semaphore is a count, and acquiring it waits for the count to be positive and decrements it; a
  mutex is locked or not, and locking it waits for it not to be.  A step that waits is \<open>Spin\<close>.

  \<open>rheld\<close> and \<open>wheld\<close> count the read and the write locks that goroutines hold, and are not read by the
  code: a lock is held from the return of \<open>RLock\<close> or \<open>Lock\<close> to the call of \<open>RUnlock\<close> or \<open>Unlock\<close>,
  perhaps by another goroutine.  The race detector is off.
\<close>

section \<open>State\<close>

abbreviation (input) rwmutexMaxReaders :: u32 where "rwmutexMaxReaders \<equiv> 2 ^ 30"

datatype rwpc =
    Free              \<comment> \<open>in no call\<close>
  | RLockAdd          \<comment> \<open>\<open>RLock\<close>, before the increment\<close>
  | RLockSem          \<comment> \<open>\<open>RLock\<close>, waiting for a writer\<close>
  | RUnlockAdd        \<comment> \<open>\<open>RUnlock\<close>, before the decrement\<close>
  | RUnlockDepart     \<comment> \<open>\<open>rUnlockSlow\<close>, before the decrement of \<open>readerWait\<close>\<close>
  | RUnlockPost       \<comment> \<open>\<open>rUnlockSlow\<close>, about to wake the writer\<close>
  | LockW             \<comment> \<open>\<open>Lock\<close>, at \<open>rw.w.Lock()\<close>\<close>
  | LockAnnounce      \<comment> \<open>\<open>Lock\<close>, before the subtraction\<close>
  | LockDepart u32    \<comment> \<open>\<open>Lock\<close>, before the addition to \<open>readerWait\<close>, with \<open>r\<close>\<close>
  | LockSem           \<comment> \<open>\<open>Lock\<close>, waiting for readers\<close>
  | UnlockAdd         \<comment> \<open>\<open>Unlock\<close>, before the addition\<close>
  | UnlockPost nat nat \<comment> \<open>\<open>Unlock\<close>, in the loop, with \<open>i\<close> and \<open>r\<close>\<close>
  | UnlockW           \<comment> \<open>\<open>Unlock\<close>, at \<open>rw.w.Unlock()\<close>\<close>

record rwsys =
  w_locked :: bool
  writerSem :: nat
  readerSem :: nat
  readerCount :: u32
  readerWait :: u32
  rpcs :: "rwpc list"
  rheld :: nat
  wheld :: nat

abbreviation goto :: "nat \<Rightarrow> rwpc \<Rightarrow> rwsys \<Rightarrow> rwsys" where
  "goto g p s \<equiv> s\<lparr>rpcs := (rpcs s)[g := p]\<rparr>"

section \<open>The operations\<close>

fun RLock_step :: "nat \<Rightarrow> rwpc \<Rightarrow> rwsys \<Rightarrow> rwsys outcome" where
  "RLock_step g RLockAdd s =
     (let c = readerCount s + 1; s = s\<lparr>readerCount := c\<rparr>
      in if sint c < 0 then Ret (goto g RLockSem s) else Ret (goto g Free (s\<lparr>rheld := rheld s + 1\<rparr>)))"
| "RLock_step g RLockSem s =
     (if readerSem s = 0 then Spin
      else Ret (goto g Free (s\<lparr>readerSem := readerSem s - 1, rheld := rheld s + 1\<rparr>)))"
| "RLock_step g _ s = Spin"

fun RUnlock_step :: "nat \<Rightarrow> rwpc \<Rightarrow> rwsys \<Rightarrow> rwsys outcome" where
  "RUnlock_step g RUnlockAdd s =
     (let r = readerCount s + (- 1); s = s\<lparr>readerCount := r\<rparr>
      in if sint r < 0 then
           if r + 1 = 0 \<or> r + 1 = - rwmutexMaxReaders then Throw ''sync: RUnlock of unlocked RWMutex''
           else Ret (goto g RUnlockDepart s)
         else Ret (goto g Free s))"
| "RUnlock_step g RUnlockDepart s =
     (let c = readerWait s + (- 1); s = s\<lparr>readerWait := c\<rparr>
      in if c = 0 then Ret (goto g RUnlockPost s) else Ret (goto g Free s))"
| "RUnlock_step g RUnlockPost s = Ret (goto g Free (s\<lparr>writerSem := writerSem s + 1\<rparr>))"
| "RUnlock_step g _ s = Spin"

fun Lock_step :: "nat \<Rightarrow> rwpc \<Rightarrow> rwsys \<Rightarrow> rwsys outcome" where
  "Lock_step g LockW s = (if w_locked s then Spin else Ret (goto g LockAnnounce (s\<lparr>w_locked := True\<rparr>)))"
| "Lock_step g LockAnnounce s =
     (let c = readerCount s + (- rwmutexMaxReaders); r = c + rwmutexMaxReaders; s = s\<lparr>readerCount := c\<rparr>
      in if r \<noteq> 0 then Ret (goto g (LockDepart r) s) else Ret (goto g Free (s\<lparr>wheld := wheld s + 1\<rparr>)))"
| "Lock_step g (LockDepart r) s =
     (let c = readerWait s + r; s = s\<lparr>readerWait := c\<rparr>
      in if c \<noteq> 0 then Ret (goto g LockSem s) else Ret (goto g Free (s\<lparr>wheld := wheld s + 1\<rparr>)))"
| "Lock_step g LockSem s =
     (if writerSem s = 0 then Spin
      else Ret (goto g Free (s\<lparr>writerSem := writerSem s - 1, wheld := wheld s + 1\<rparr>)))"
| "Lock_step g _ s = Spin"

fun Unlock_step :: "nat \<Rightarrow> rwpc \<Rightarrow> rwsys \<Rightarrow> rwsys outcome" where
  "Unlock_step g UnlockAdd s =
     (let r = readerCount s + rwmutexMaxReaders; s = s\<lparr>readerCount := r\<rparr>
      in if sint rwmutexMaxReaders \<le> sint r then Throw ''sync: Unlock of unlocked RWMutex''
         else Ret (goto g (UnlockPost 0 (nat (sint r))) s))"
| "Unlock_step g (UnlockPost i r) s =
     (if i < r then Ret (goto g (UnlockPost (i + 1) r) (s\<lparr>readerSem := readerSem s + 1\<rparr>))
      else Ret (goto g UnlockW s))"
| "Unlock_step g UnlockW s = Ret (goto g Free (s\<lparr>w_locked := False\<rparr>))"
| "Unlock_step g _ s = Spin"

definition rw_step :: "nat \<Rightarrow> rwsys \<Rightarrow> rwsys outcome" where
  "rw_step g s =
     (let p = rpcs s ! g
      in case p of
          Free \<Rightarrow> Spin
        | RLockAdd \<Rightarrow> RLock_step g p s
        | RLockSem \<Rightarrow> RLock_step g p s
        | RUnlockAdd \<Rightarrow> RUnlock_step g p s
        | RUnlockDepart \<Rightarrow> RUnlock_step g p s
        | RUnlockPost \<Rightarrow> RUnlock_step g p s
        | LockW \<Rightarrow> Lock_step g p s
        | LockAnnounce \<Rightarrow> Lock_step g p s
        | LockDepart r \<Rightarrow> Lock_step g p s
        | LockSem \<Rightarrow> Lock_step g p s
        | UnlockAdd \<Rightarrow> Unlock_step g p s
        | UnlockPost i r \<Rightarrow> Unlock_step g p s
        | UnlockW \<Rightarrow> Unlock_step g p s)"

section \<open>All interleavings\<close>

definition rw_init :: "nat \<Rightarrow> rwsys" where
  "rw_init n = \<lparr>w_locked = False, writerSem = 0, readerSem = 0, readerCount = 0, readerWait = 0,
     rpcs = replicate n Free, rheld = 0, wheld = 0\<rparr>"

text \<open>The read locks held, and the calls about to take, waiting for, or about to give one up.\<close>

definition is_reader :: "rwpc \<Rightarrow> bool" where
  "is_reader p \<longleftrightarrow> p \<in> {RLockAdd, RLockSem, RUnlockAdd}"

definition readers :: "rwsys \<Rightarrow> nat" where
  "readers s = rheld s + num is_reader (rpcs s)"

text \<open>A goroutine in no call may call \<open>RLock\<close>, as long as there are fewer than \<open>rwmutexMaxReaders\<close>
  readers, or \<open>Lock\<close>; and it may unlock what is held.\<close>

inductive rw_reach :: "nat \<Rightarrow> rwsys \<Rightarrow> bool" for n where
  start: "rw_reach n (rw_init n)"
| rlock: "rw_reach n s \<Longrightarrow> g < n \<Longrightarrow> rpcs s ! g = Free \<Longrightarrow> readers s + 1 < 2 ^ 30 \<Longrightarrow>
    rw_reach n (goto g RLockAdd s)"
| runlock: "rw_reach n s \<Longrightarrow> g < n \<Longrightarrow> rpcs s ! g = Free \<Longrightarrow> 0 < rheld s \<Longrightarrow>
    rw_reach n (goto g RUnlockAdd (s\<lparr>rheld := rheld s - 1\<rparr>))"
| lock: "rw_reach n s \<Longrightarrow> g < n \<Longrightarrow> rpcs s ! g = Free \<Longrightarrow> rw_reach n (goto g LockW s)"
| unlock: "rw_reach n s \<Longrightarrow> g < n \<Longrightarrow> rpcs s ! g = Free \<Longrightarrow> 0 < wheld s \<Longrightarrow>
    rw_reach n (goto g UnlockAdd (s\<lparr>wheld := wheld s - 1\<rparr>))"
| step: "rw_reach n s \<Longrightarrow> g < n \<Longrightarrow> rw_step g s = Ret s' \<Longrightarrow> rw_reach n s'"

end
