(* ===== verification/Rwmutex_Spec.thy ===== *)
theory Rwmutex_Spec
  imports Rwmutex
begin

text \<open>
  What \<open>sync.RWMutex\<close> promises, in every interleaving: writers exclude each other and all readers,
  no check throws, and nobody is left asleep when the lock could be taken.
\<close>

section \<open>The invariant\<close>

text \<open>How far the goroutine is that has locked \<open>w\<close>.\<close>

datatype phase = NoWriter | Announcing | Departing nat | Waiting | Holding | Posting nat nat | Leaving

fun writer_pc :: "rwpc \<Rightarrow> bool" where
  "writer_pc LockAnnounce = True"
| "writer_pc (LockDepart r) = True"
| "writer_pc LockSem = True"
| "writer_pc UnlockAdd = True"
| "writer_pc (UnlockPost i r) = True"
| "writer_pc UnlockW = True"
| "writer_pc _ = False"

fun in_phase :: "phase \<Rightarrow> rwpc \<Rightarrow> bool" where
  "in_phase NoWriter p = False"
| "in_phase Announcing p = (p = LockAnnounce)"
| "in_phase (Departing r) p = (p = LockDepart (of_nat r))"
| "in_phase Waiting p = (p = LockSem)"
| "in_phase Holding p = (p = UnlockAdd)"
| "in_phase (Posting i r) p = (p = UnlockPost i r)"
| "in_phase Leaving p = (p = UnlockW)"

definition owner :: "phase \<Rightarrow> rwsys \<Rightarrow> bool" where
  "owner ph s \<longleftrightarrow>
     w_locked s = (ph \<noteq> NoWriter) \<and>
     num writer_pc (rpcs s) + wheld s = of_bool (ph \<noteq> NoWriter) \<and>
     num (in_phase ph) (rpcs s) + (if ph = Holding then wheld s else 0) = of_bool (ph \<noteq> NoWriter)"

abbreviation at_pc :: "rwpc \<Rightarrow> rwsys \<Rightarrow> nat" where
  "at_pc p s \<equiv> num (\<lambda>q. q = p) (rpcs s)"

text \<open>The readers that a writer which has announced itself waits for: those with the lock, those a
  previous writer let in, and those about to say that they left.\<close>

definition departing :: "rwsys \<Rightarrow> nat" where
  "departing s = rheld s + at_pc RUnlockAdd s + readerSem s + at_pc RUnlockDepart s"

definition entered :: "rwsys \<Rightarrow> nat" where
  "entered s = rheld s + at_pc RUnlockAdd s + at_pc RLockSem s"

definition announced :: "phase \<Rightarrow> bool" where
  "announced ph \<longleftrightarrow> (case ph of Departing r \<Rightarrow> True | Waiting \<Rightarrow> True | Holding \<Rightarrow> True | _ \<Rightarrow> False)"

definition quiet :: "rwsys \<Rightarrow> bool" where
  "quiet s \<longleftrightarrow> writerSem s = 0 \<and> at_pc RUnlockPost s = 0"

fun phase_ok :: "phase \<Rightarrow> rwsys \<Rightarrow> bool" where
  "phase_ok (Departing r) s \<longleftrightarrow>
     r < 2 ^ 30 \<and> departing s \<le> r \<and> readerWait s = of_nat (departing s) - of_nat r \<and> quiet s \<and>
     readerSem s \<le> at_pc RLockSem s"
| "phase_ok Waiting s \<longleftrightarrow>
     readerWait s = of_nat (departing s) \<and>
     writerSem s + at_pc RUnlockPost s = of_bool (departing s = 0) \<and> readerSem s \<le> at_pc RLockSem s"
| "phase_ok Holding s \<longleftrightarrow> departing s = 0 \<and> readerWait s = 0 \<and> quiet s"
| "phase_ok (Posting i r) s \<longleftrightarrow>
     i \<le> r \<and> at_pc RLockSem s = readerSem s + (r - i) \<and> at_pc RUnlockDepart s = 0 \<and> readerWait s = 0 \<and> quiet s"
| "phase_ok _ s \<longleftrightarrow>
     at_pc RLockSem s = readerSem s \<and> at_pc RUnlockDepart s = 0 \<and> readerWait s = 0 \<and> quiet s"

definition rw_inv :: "phase \<Rightarrow> rwsys \<Rightarrow> bool" where
  "rw_inv ph s \<longleftrightarrow>
     length (rpcs s) < 2 ^ 30 \<and> readers s < 2 ^ 30 \<and> owner ph s \<and> phase_ok ph s \<and>
     readerCount s = of_nat (entered s) - (if announced ph then 2 ^ 30 else 0)"

lemma writer_in_phase:
  assumes "owner ph s" "g < length (rpcs s)" "writer_pc (rpcs s ! g)"
  shows "in_phase ph (rpcs s ! g)"
proof (rule ccontr)
  assume n: "\<not> ?thesis"
  have sub: "in_phase ph p \<Longrightarrow> writer_pc p" for p by (cases ph) auto
  have "num writer_pc xs = num (in_phase ph) xs + num (\<lambda>p. writer_pc p \<and> \<not> in_phase ph p) xs" for xs
    using sub by (induction xs) (auto simp: num_def)
  moreover have "0 < num (\<lambda>p. writer_pc p \<and> \<not> in_phase ph p) (rpcs s)"
    unfolding num_pos using assms(2,3) n by auto
  ultimately show False using assms(1) by (auto simp: owner_def split: if_splits)
qed

text \<open>The counts after one goroutine moved.\<close>

lemma goto_counts:
  assumes "g < length (rpcs s)"
  shows "num P ((rpcs s)[g := p]) + of_bool (P (rpcs s ! g)) = num P (rpcs s) + of_bool (P p)"
  using num_update [OF assms] by simp

lemma entered_le: "entered s + at_pc RLockAdd s = readers s"
proof -
  have "num is_reader xs = num (\<lambda>q. q = RLockAdd) xs + num (\<lambda>q. q = RLockSem) xs + num (\<lambda>q. q = RUnlockAdd) xs" for xs
    by (induction xs) (auto simp: num_def is_reader_def)
  then show ?thesis by (simp add: entered_def readers_def)
qed

lemma sint_count:
  assumes "k < 2 ^ 30"
  shows "sint (of_nat k :: u32) = int k" "sint (of_nat k - 2 ^ 30 :: u32) = int k - 2 ^ 30"
proof -
  have "of_nat k = (word_of_int (int k) :: u32)" by simp
  then show "sint (of_nat k :: u32) = int k" using assms by (simp only: int_word_sint) simp
  have "of_nat k - 2 ^ 30 = (word_of_int (int k - 2 ^ 30) :: u32)" by simp
  then show "sint (of_nat k - 2 ^ 30 :: u32) = int k - 2 ^ 30" using assms by (simp only: int_word_sint) simp
qed


section \<open>Readers\<close>

lemma rw_invD:
  assumes "rw_inv ph s"
  shows "length (rpcs s) < 2 ^ 30" "readers s < 2 ^ 30" "owner ph s" "phase_ok ph s"
    and "readerCount s = of_nat (entered s) - (if announced ph then 2 ^ 30 else 0)"
    and "entered s < 2 ^ 30"
  using assms entered_le [of s] by (simp_all add: rw_inv_def)

text \<open>The counts after one goroutine moved.\<close>

lemma moved:
  assumes "g < length (rpcs s)" "rpcs s' = (rpcs s)[g := p]"
  shows "at_pc RLockSem s' + of_bool (rpcs s ! g = RLockSem) = at_pc RLockSem s + of_bool (p = RLockSem) \<and>
    at_pc RUnlockAdd s' + of_bool (rpcs s ! g = RUnlockAdd) = at_pc RUnlockAdd s + of_bool (p = RUnlockAdd) \<and>
    at_pc RUnlockDepart s' + of_bool (rpcs s ! g = RUnlockDepart) = at_pc RUnlockDepart s + of_bool (p = RUnlockDepart) \<and>
    at_pc RUnlockPost s' + of_bool (rpcs s ! g = RUnlockPost) = at_pc RUnlockPost s + of_bool (p = RUnlockPost) \<and>
    readers s' + rheld s + of_bool (is_reader (rpcs s ! g)) = readers s + rheld s' + of_bool (is_reader p)"
  using num_update [OF assms(1), of "\<lambda>x. x = RLockSem" p] num_update [OF assms(1), of "\<lambda>x. x = RUnlockAdd" p]
    num_update [OF assms(1), of "\<lambda>x. x = RUnlockDepart" p] num_update [OF assms(1), of "\<lambda>x. x = RUnlockPost" p]
    num_update [OF assms(1), of is_reader p] assms(2) by (simp add: readers_def)

text \<open>A goroutine that is no writer, before and after, does not change who owns \<open>w\<close>.\<close>

lemma owner_same:
  assumes "owner ph s" "g < length (rpcs s)" "\<not> writer_pc (rpcs s ! g)" "\<not> writer_pc p"
    and "w_locked s' = w_locked s" "wheld s' = wheld s" "rpcs s' = (rpcs s)[g := p]"
  shows "owner ph s'"
proof -
  have "\<not> in_phase ph (rpcs s ! g)" "\<not> in_phase ph p" using assms(3,4) by (cases ph; auto)+
  then have "num (in_phase ph) (rpcs s') = num (in_phase ph) (rpcs s)" "num writer_pc (rpcs s') = num writer_pc (rpcs s)"
    using num_update [OF assms(2), of "in_phase ph" p] num_update [OF assms(2), of writer_pc p] assms(3,4,7) by simp_all
  then show ?thesis using assms(1) unfolding owner_def assms(5,6) by metis
qed

lemma reader_move:
  assumes "rw_inv ph s" "g < length (rpcs s)" "\<not> writer_pc (rpcs s ! g)" "\<not> writer_pc p"
    and "w_locked s' = w_locked s" "wheld s' = wheld s" "rpcs s' = (rpcs s)[g := p]"
    and "readers s' < 2 ^ 30" "phase_ok ph s'"
    and "readerCount s' = of_nat (entered s') - (if announced ph then 2 ^ 30 else 0)"
  shows "rw_inv ph s'"
  using assms rw_invD(1) [OF assms(1)] owner_same [OF rw_invD(3) [OF assms(1)] assms(2-7)] by (simp add: rw_inv_def)

lemmas reader_defs = departing_def quiet_def announced_def entered_def is_reader_def

lemma call_rlock_inv:
  assumes i: "rw_inv ph s" and g: "g < length (rpcs s)" "rpcs s ! g = Free" and b: "readers s + 1 < 2 ^ 30"
  shows "rw_inv ph (goto g RLockAdd s)" (is "rw_inv ph ?s")
proof -
  note n = moved [OF g(1), of ?s RLockAdd, simplified g, simplified]
  then have "phase_ok ph ?s" using rw_invD(4) [OF i] by (cases ph) (simp_all add: reader_defs)
  then show ?thesis using n rw_invD [OF i] b g by (intro reader_move [OF i g(1)]) (simp_all add: reader_defs)
qed

lemma call_runlock_inv:
  assumes i: "rw_inv ph s" and g: "g < length (rpcs s)" "rpcs s ! g = Free" and h: "0 < rheld s"
  shows "rw_inv ph (goto g RUnlockAdd (s\<lparr>rheld := rheld s - 1\<rparr>))" (is "rw_inv ph ?s")
proof -
  note n = moved [OF g(1), of ?s RUnlockAdd, simplified g, simplified]
  then have "phase_ok ph ?s" using rw_invD(4) [OF i] h by (cases ph) (simp_all add: reader_defs)
  then show ?thesis using n rw_invD [OF i] h g by (intro reader_move [OF i g(1)]) (simp_all add: reader_defs)
qed

lemma rw_call_lock_inv:
  assumes i: "rw_inv ph s" and g: "g < length (rpcs s)" "rpcs s ! g = Free"
  shows "rw_inv ph (goto g LockW s)" (is "rw_inv ph ?s")
proof -
  note n = moved [OF g(1), of ?s LockW, simplified g, simplified]
  then have "phase_ok ph ?s" using rw_invD(4) [OF i] by (cases ph) (simp_all add: reader_defs)
  then show ?thesis using n rw_invD [OF i] g by (intro reader_move [OF i g(1)]) (simp_all add: reader_defs)
qed

lemma rlock_add_inv:
  assumes i: "rw_inv ph s" and g: "g < length (rpcs s)" "rpcs s ! g = RLockAdd"
  shows "\<exists>s'. rw_step g s = Ret s' \<and> rw_inv ph s'"
proof -
  have e: "entered s + 1 < 2 ^ 30"
  proof -
    have "0 < at_pc RLockAdd s" unfolding num_pos using g by auto
    then show ?thesis using entered_le [of s] rw_invD(2) [OF i] by linarith
  qed
  have c: "readerCount s + 1 = of_nat (entered s + 1) - (if announced ph then 2 ^ 30 else 0)"
    using rw_invD(5) [OF i] by simp
  have sg: "sint (readerCount s + 1) < 0 \<longleftrightarrow> announced ph"
    unfolding c using sint_count [OF e] e by auto
  show ?thesis
  proof (cases "announced ph")
    case True
    let ?s = "goto g RLockSem (s\<lparr>readerCount := readerCount s + 1\<rparr>)"
    note n = moved [OF g(1), of ?s RLockSem, simplified g, simplified]
    then have "phase_ok ph ?s" using rw_invD(4) [OF i] True by (cases ph) (simp_all add: reader_defs)
    then have "rw_inv ph ?s" using n rw_invD [OF i] c g by (intro reader_move [OF i g(1)]) (simp_all add: reader_defs)
    then show ?thesis using g True sg by (simp add: rw_step_def Let_def)
  next
    case False
    let ?s = "goto g Free (s\<lparr>readerCount := readerCount s + 1, rheld := rheld s + 1\<rparr>)"
    note n = moved [OF g(1), of ?s Free, simplified g, simplified]
    then have "phase_ok ph ?s" using rw_invD(4) [OF i] False by (cases ph) (simp_all add: reader_defs)
    then have "rw_inv ph ?s" using n rw_invD [OF i] c g by (intro reader_move [OF i g(1)]) (simp_all add: reader_defs)
    then show ?thesis using g False sg by (simp add: rw_step_def Let_def)
  qed
qed

lemma rlock_sem_inv:
  assumes i: "rw_inv ph s" and g: "g < length (rpcs s)" "rpcs s ! g = RLockSem" and z: "readerSem s \<noteq> 0"
  shows "\<exists>s'. rw_step g s = Ret s' \<and> rw_inv ph s'"
proof -
  let ?s = "goto g Free (s\<lparr>readerSem := readerSem s - 1, rheld := rheld s + 1\<rparr>)"
  note n = moved [OF g(1), of ?s Free, simplified g, simplified]
  have d: "departing ?s = departing s" using n z by (simp add: departing_def)
  have "phase_ok ph ?s"
  proof (cases ph)
    case Holding
    then show ?thesis using rw_invD(4) [OF i] z by (simp add: departing_def)
  qed (use n rw_invD(4) [OF i] z d in \<open>auto simp: quiet_def\<close>)
  moreover have "entered ?s = entered s" using n z by (auto simp: entered_def)
  ultimately have "rw_inv ph ?s"
    using n rw_invD(2,5) [OF i] g by (intro reader_move [OF i g(1)]) (simp_all add: is_reader_def)
  then show ?thesis using g z by (simp add: rw_step_def)
qed

lemma runlock_add_inv:
  assumes i: "rw_inv ph s" and g: "g < length (rpcs s)" "rpcs s ! g = RUnlockAdd"
  shows "\<exists>s'. rw_step g s = Ret s' \<and> rw_inv ph s'"
proof -
  have u: "0 < at_pc RUnlockAdd s" unfolding num_pos using g by auto
  then have e: "0 < entered s" "entered s - 1 < 2 ^ 30" using rw_invD(6) [OF i] by (auto simp: entered_def)
  have c: "readerCount s + - 1 = of_nat (entered s - 1) - (if announced ph then 2 ^ 30 else 0)"
    using rw_invD(5) [OF i] e(1) by (simp add: of_nat_diff)
  have sg: "sint (readerCount s + - 1) < 0 \<longleftrightarrow> announced ph"
    unfolding c using sint_count [OF e(2)] e by auto
  show ?thesis
  proof (cases "announced ph")
    case True
    let ?s = "goto g RUnlockDepart (s\<lparr>readerCount := readerCount s + - 1\<rparr>)"
    note n = moved [OF g(1), of ?s RUnlockDepart, simplified g, simplified]
    have d: "departing ?s = departing s" using n u by (simp add: departing_def)
    have "phase_ok ph ?s"
    proof (cases ph)
      case Holding
      then show ?thesis using rw_invD(4) [OF i] u by (simp add: departing_def)
    qed (use n rw_invD(4) [OF i] True d in \<open>auto simp: quiet_def announced_def\<close>)
    moreover have "entered ?s = entered s - 1" using n by (auto simp: entered_def)
    ultimately have inv: "rw_inv ph ?s"
      using n rw_invD(2) [OF i] c g by (intro reader_move [OF i g(1)]) (simp_all add: is_reader_def)
    have "sint (readerCount s) = int (entered s) - 2 ^ 30"
      using rw_invD(5) [OF i] True sint_count(2) [OF rw_invD(6) [OF i]] by simp
    moreover have "sint (0 :: u32) = 0" "sint (- (2 ^ 30) :: u32) = - (2 ^ 30)"
      using sint_count [of 0] by simp_all
    ultimately have "readerCount s \<noteq> 0" "readerCount s \<noteq> - (2 ^ 30)" using e(1) rw_invD(6) [OF i] by auto
    then show ?thesis using g True sg inv by (simp add: rw_step_def Let_def)
  next
    case False
    let ?s = "goto g Free (s\<lparr>readerCount := readerCount s + - 1\<rparr>)"
    note n = moved [OF g(1), of ?s Free, simplified g, simplified]
    have "phase_ok ph ?s" using n rw_invD(4) [OF i] False by (cases ph) (simp_all add: reader_defs)
    moreover have "entered ?s = entered s - 1" using n by (auto simp: entered_def)
    ultimately have "rw_inv ph ?s"
      using n rw_invD(2) [OF i] c g by (intro reader_move [OF i g(1)]) (simp_all add: is_reader_def)
    then show ?thesis using g False sg by (simp add: rw_step_def Let_def)
  qed
qed


lemma small_zero: "k < 2 ^ 32 \<Longrightarrow> (of_nat k :: u32) = 0 \<longleftrightarrow> k = 0"
  by (auto simp: word_of_nat_eq_0_iff dest: dvd_imp_le)

lemma small_diff_zero:
  assumes "a \<le> b" "b < 2 ^ 32"
  shows "(of_nat a - of_nat b :: u32) = 0 \<longleftrightarrow> a = b"
proof -
  have "(of_nat b - of_nat a :: u32) = of_nat (b - a)" using assms(1) by (simp add: of_nat_diff)
  then have "(of_nat b - of_nat a :: u32) = 0 \<longleftrightarrow> b - a = 0" using small_zero [of "b - a"] assms(2) by simp
  then show ?thesis using assms(1) by auto
qed

lemma departing_bound:
  assumes "rw_inv ph s" "readerSem s \<le> at_pc RLockSem s"
  shows "departing s < 2 ^ 31"
proof -
  have "departing s \<le> entered s + at_pc RUnlockDepart s" using assms(2) by (simp add: departing_def entered_def)
  then show ?thesis
    using rw_invD(1,6) [OF assms(1)] num_le_length [of "\<lambda>q. q = RUnlockDepart" "rpcs s"] by simp
qed

lemma runlock_depart_inv:
  assumes i: "rw_inv ph s" and g: "g < length (rpcs s)" "rpcs s ! g = RUnlockDepart"
  shows "\<exists>s'. rw_step g s = Ret s' \<and> rw_inv ph s'"
proof -
  have dp: "0 < at_pc RUnlockDepart s" unfolding num_pos using g by auto
  then have d: "0 < departing s" by (simp add: departing_def)
  let ?c = "readerWait s + - 1"
  let ?s = "\<lambda>p. goto g p (s\<lparr>readerWait := ?c\<rparr>)"
  have move: "rw_inv ph (?s p)" if "p = Free \<or> p = RUnlockPost" "phase_ok ph (?s p)" for p
  proof -
    note n = moved [OF g(1), of "?s p" p, simplified g, simplified]
    have "entered (?s p) = entered s" using n that(1) by (auto simp: entered_def)
    then show ?thesis using that n g rw_invD(2,5) [OF i]
      by (intro reader_move [OF i g(1)]) (auto simp: is_reader_def)
  qed
  have dd: "departing (?s p) = departing s - 1" if "p = Free \<or> p = RUnlockPost" for p
    using that moved [OF g(1), of "?s p" p, simplified g, simplified] by (auto simp: departing_def)
  have c1: "(of_nat (departing s) :: u32) - 1 = of_nat (departing s - 1)" using d by (simp add: of_nat_diff)
  show ?thesis
  proof (cases ph)
    case (Departing r)
    then have ok: "r < 2 ^ 30" "departing s \<le> r" "readerWait s = of_nat (departing s) - of_nat r" "quiet s"
      "readerSem s \<le> at_pc RLockSem s" using rw_invD(4) [OF i] by simp_all
    have c: "?c = of_nat (departing s - 1) - of_nat r" using ok(3) c1 by (simp add: algebra_simps)
    have "(of_nat (departing s - 1) - of_nat r :: u32) = 0 \<longleftrightarrow> departing s - 1 = r"
      using ok(1,2) by (intro small_diff_zero) auto
    then have nz: "?c \<noteq> 0" unfolding c using ok(2) d by auto
    have "phase_ok ph (?s Free)"
      using ok dd [of Free] c moved [OF g(1), of "?s Free" Free, simplified g, simplified] Departing
      by (auto simp: quiet_def)
    then show ?thesis using move [of Free] nz g by (simp add: rw_step_def Let_def)
  next
    case Waiting
    then have ok: "readerWait s = of_nat (departing s)" "writerSem s + at_pc RUnlockPost s = 0" "readerSem s \<le> at_pc RLockSem s"
      using rw_invD(4) [OF i] d by simp_all
    have c: "?c = of_nat (departing s - 1)" using ok(1) c1 by simp
    have z: "?c = 0 \<longleftrightarrow> departing s = 1"
      unfolding c using small_zero [of "departing s - 1"] departing_bound [OF i ok(3)] d by auto
    define p where "p = (if ?c = 0 then RUnlockPost else Free)"
    have p: "p = Free \<or> p = RUnlockPost" by (simp add: p_def)
    have "phase_ok ph (?s p)"
      using ok dd [OF p] c z d moved [OF g(1), of "?s p" p, simplified g, simplified] Waiting
      by (auto simp: p_def)
    then have "rw_inv ph (?s p)" by (rule move [OF p])
    then show ?thesis using g by (auto simp: rw_step_def Let_def p_def)
  next
    case Holding
    then show ?thesis using rw_invD(4) [OF i] d by simp
  qed (use rw_invD(4) [OF i] dp in simp_all)
qed

lemma runlock_post_inv:
  assumes i: "rw_inv ph s" and g: "g < length (rpcs s)" "rpcs s ! g = RUnlockPost"
  shows "\<exists>s'. rw_step g s = Ret s' \<and> rw_inv ph s'"
proof -
  have pp: "0 < at_pc RUnlockPost s" unfolding num_pos using g by auto
  then have ph: "ph = Waiting" using rw_invD(4) [OF i] by (cases ph) (auto simp: quiet_def)
  let ?s = "goto g Free (s\<lparr>writerSem := writerSem s + 1\<rparr>)"
  note n = moved [OF g(1), of ?s Free, simplified g, simplified]
  have "departing ?s = departing s" "entered ?s = entered s" using n by (auto simp: departing_def entered_def)
  then have "rw_inv ph ?s" using n rw_invD(2,4,5) [OF i] g ph
    by (intro reader_move [OF i g(1)]) (auto simp: is_reader_def)
  then show ?thesis using g by (simp add: rw_step_def)
qed

section \<open>Writers\<close>

lemma in_phase_writer: "in_phase ph p \<Longrightarrow> writer_pc p"
  by (cases ph) auto

text \<open>When a goroutine has \<open>w\<close>, no other is at a program point of a writer.\<close>

lemma owner_move:
  assumes o: "owner ph s" and g: "g < length (rpcs s)" "writer_pc (rpcs s ! g)"
    and e: "rpcs s' = (rpcs s)[g := p]"
    and l: "w_locked s' = (ph' \<noteq> NoWriter)"
    and h: "(if writer_pc p then in_phase ph' p \<and> wheld s' = 0 else wheld s' = of_bool (ph' = Holding) \<and> (ph' = Holding \<or> ph' = NoWriter))"
  shows "owner ph' s'"
proof -
  have ne: "ph \<noteq> NoWriter" using writer_in_phase [OF o g] by auto
  have pos: "0 < num writer_pc (rpcs s)" unfolding num_pos using g by auto
  then have one: "num writer_pc (rpcs s) = 1" using o ne by (simp add: owner_def)
  have w: "num writer_pc (rpcs s') = of_bool (writer_pc p)"
    using num_update [OF g(1), of writer_pc p] g one e by simp
  have "num (in_phase ph') (rpcs s') = of_bool (in_phase ph' p)"
  proof -
    have "num (in_phase ph') ((rpcs s)[g := Free]) \<le> num writer_pc ((rpcs s)[g := Free])"
      by (rule num_mono) (rule in_phase_writer)
    also have "\<dots> = 0" using num_update [OF g(1), of writer_pc Free] g one by simp
    finally have "num (in_phase ph') ((rpcs s)[g := Free]) = 0" by simp
    then show ?thesis
      using num_update [of g "(rpcs s)[g := Free]" "in_phase ph'" p] g e by (cases ph'; simp)
  qed
  then show ?thesis using w l h by (auto simp: owner_def in_phase_writer split: if_splits)
qed


text \<open>The writers' own steps change the counts of no reader.\<close>

lemma writer_counts:
  assumes "g < length (rpcs s)" "writer_pc (rpcs s ! g) \<or> rpcs s ! g = LockW \<or> rpcs s ! g = Free"
    and "rpcs s' = (rpcs s)[g := p]" "writer_pc p \<or> p = Free" "rheld s' = rheld s"
  shows "at_pc RLockSem s' = at_pc RLockSem s" "at_pc RUnlockAdd s' = at_pc RUnlockAdd s"
    and "at_pc RUnlockDepart s' = at_pc RUnlockDepart s" "at_pc RUnlockPost s' = at_pc RUnlockPost s"
    and "readers s' = readers s" "entered s' = entered s"
proof -
  have n: "P (rpcs s ! g) = P p \<Longrightarrow> num P (rpcs s') = num P (rpcs s)" for P
    using num_update [OF assms(1), of P p] assms(3) by simp
  show sem: "at_pc RLockSem s' = at_pc RLockSem s" and add: "at_pc RUnlockAdd s' = at_pc RUnlockAdd s"
    and "at_pc RUnlockDepart s' = at_pc RUnlockDepart s" "at_pc RUnlockPost s' = at_pc RUnlockPost s"
    using assms(2,4) by (intro n; auto)+
  show "readers s' = readers s"
  proof -
    have "\<not> is_reader (rpcs s ! g)" using assms(2) by (cases "rpcs s ! g") (auto simp: is_reader_def)
    moreover have "\<not> is_reader p" using assms(4) by (cases p) (auto simp: is_reader_def)
    ultimately show ?thesis using n [of is_reader] assms(5) by (simp add: readers_def)
  qed
  show "entered s' = entered s" using sem add assms(5) by (simp add: entered_def)
qed

lemma writer_move:
  assumes i: "rw_inv ph s" and g: "g < length (rpcs s)" "writer_pc (rpcs s ! g)"
    and e: "rpcs s' = (rpcs s)[g := p]" "writer_pc p \<or> p = Free" "rheld s' = rheld s" "w_locked s' = (ph' \<noteq> NoWriter)"
    and h: "(if writer_pc p then in_phase ph' p \<and> wheld s' = 0 else wheld s' = of_bool (ph' = Holding) \<and> (ph' = Holding \<or> ph' = NoWriter))"
    and ok: "phase_ok ph' s'" and c: "readerCount s' = of_nat (entered s) - (if announced ph' then 2 ^ 30 else 0)"
  shows "rw_inv ph' s'"
  using writer_counts(5,6) [OF g(1) _ e(1-3)] g rw_invD(1,2) [OF i] ok c e(1) owner_move [OF rw_invD(3) [OF i] g e(1,4) h]
  by (simp add: rw_inv_def)

lemma owner_wheld:
  assumes "owner ph s" "g < length (rpcs s)" "writer_pc (rpcs s ! g)"
  shows "wheld s = 0" "w_locked s"
proof -
  have "ph \<noteq> NoWriter" using writer_in_phase [OF assms] by auto
  moreover have "0 < num writer_pc (rpcs s)" unfolding num_pos using assms by auto
  ultimately show "wheld s = 0" "w_locked s" using assms(1) by (auto simp: owner_def)
qed

lemma lock_w_inv:
  assumes i: "rw_inv ph s" and g: "g < length (rpcs s)" "rpcs s ! g = LockW" and u: "\<not> w_locked s"
  shows "\<exists>s' ph'. rw_step g s = Ret s' \<and> rw_inv ph' s'"
proof -
  let ?s = "goto g LockAnnounce (s\<lparr>w_locked := True\<rparr>)"
  have ph: "ph = NoWriter" using rw_invD(3) [OF i] u by (auto simp: owner_def)
  note n = writer_counts [OF g(1), of ?s LockAnnounce, simplified g, simplified]
  have z: "num writer_pc (rpcs s) = 0" "wheld s = 0" using rw_invD(3) [OF i] ph by (simp_all add: owner_def)
  have "num (in_phase Announcing) (rpcs s) \<le> num writer_pc (rpcs s)" by (rule num_mono) auto
  then have "owner Announcing ?s"
    using z num_update [OF g(1), of writer_pc LockAnnounce] num_update [OF g(1), of "in_phase Announcing" LockAnnounce] g
    by (simp add: owner_def)
  then have "rw_inv Announcing ?s"
    using n rw_invD(1,2,4,5) [OF i] ph by (simp add: rw_inv_def announced_def quiet_def)
  then show ?thesis using g u by (auto simp: rw_step_def)
qed

lemma lock_announce_inv:
  assumes i: "rw_inv ph s" and g: "g < length (rpcs s)" "rpcs s ! g = LockAnnounce"
  shows "\<exists>s' ph'. rw_step g s = Ret s' \<and> rw_inv ph' s'"
proof -
  have wp: "writer_pc (rpcs s ! g)" using g by simp
  have ph: "ph = Announcing" using writer_in_phase [OF rw_invD(3) [OF i] g(1) wp] g by (cases ph) auto
  note w = owner_wheld [OF rw_invD(3) [OF i] g(1) wp]
  note ok = rw_invD(4) [OF i, unfolded ph, simplified]
  have rc: "readerCount s = of_nat (entered s)" using rw_invD(5) [OF i] ph by (simp add: announced_def)
  have ez: "(of_nat (entered s) :: u32) = 0 \<longleftrightarrow> entered s = 0" using rw_invD(6) [OF i] by (intro small_zero) simp
  have dep: "departing s = entered s" using ok by (simp add: departing_def entered_def)
  show ?thesis
  proof (cases "entered s = 0")
    case True
    let ?s = "goto g Free (s\<lparr>readerCount := readerCount s + - (2 ^ 30), wheld := wheld s + 1\<rparr>)"
    note n = writer_counts [OF g(1), of ?s Free, simplified g, simplified]
    have "phase_ok Holding ?s" using ok n dep True by (simp add: departing_def quiet_def)
    then have "rw_inv Holding ?s"
      using w rc by (auto intro!: writer_move [OF i g(1) wp] simp: announced_def)
    then show ?thesis using g True rc ez by (auto simp: rw_step_def Let_def)
  next
    case False
    let ?p = "LockDepart (of_nat (entered s))"
    let ?s = "goto g ?p (s\<lparr>readerCount := readerCount s + - (2 ^ 30)\<rparr>)"
    note n = writer_counts [OF g(1), of ?s ?p, simplified g, simplified]
    have "departing ?s = entered s" using n dep by (simp add: departing_def)
    then have "phase_ok (Departing (entered s)) ?s" using ok n rw_invD(6) [OF i] by (simp add: quiet_def)
    then have "rw_inv (Departing (entered s)) ?s"
      using w rc by (auto intro!: writer_move [OF i g(1) wp] simp: announced_def)
    then show ?thesis using g False rc ez by (auto simp: rw_step_def Let_def)
  qed
qed

lemma lock_depart_inv:
  assumes i: "rw_inv ph s" and g: "g < length (rpcs s)" "rpcs s ! g = LockDepart rw"
  shows "\<exists>s' ph'. rw_step g s = Ret s' \<and> rw_inv ph' s'"
proof -
  have wp: "writer_pc (rpcs s ! g)" using g by simp
  obtain r where ph: "ph = Departing r" and r: "rw = of_nat r"
    using writer_in_phase [OF rw_invD(3) [OF i] g(1) wp] g by (cases ph) auto
  note w = owner_wheld [OF rw_invD(3) [OF i] g(1) wp]
  note ok = rw_invD(4) [OF i, unfolded ph, simplified]
  have rc: "readerCount s = of_nat (entered s) - 2 ^ 30" using rw_invD(5) [OF i] ph by (simp add: announced_def)
  have c: "readerWait s + rw = of_nat (departing s)" using ok r by simp
  have z: "(of_nat (departing s) :: u32) = 0 \<longleftrightarrow> departing s = 0" using ok by (intro small_zero) simp
  show ?thesis
  proof (cases "departing s = 0")
    case True
    let ?s = "goto g Free (s\<lparr>readerWait := readerWait s + rw, wheld := wheld s + 1\<rparr>)"
    note n = writer_counts [OF g(1), of ?s Free, simplified g, simplified]
    have "phase_ok Holding ?s" using ok n c True by (auto simp: departing_def quiet_def)
    then have "rw_inv Holding ?s"
      using w rc by (auto intro!: writer_move [OF i g(1) wp] simp: announced_def)
    then show ?thesis using g True c by (auto simp: rw_step_def Let_def)
  next
    case False
    let ?s = "goto g LockSem (s\<lparr>readerWait := readerWait s + rw\<rparr>)"
    note n = writer_counts [OF g(1), of ?s LockSem, simplified g, simplified]
    have "departing ?s = departing s" using n by (simp add: departing_def)
    then have "phase_ok Waiting ?s" using ok n c False by (simp add: quiet_def)
    then have "rw_inv Waiting ?s"
      using w rc by (auto intro!: writer_move [OF i g(1) wp] simp: announced_def)
    then show ?thesis using g False c z by (auto simp: rw_step_def Let_def)
  qed
qed

lemma lock_sem_inv:
  assumes i: "rw_inv ph s" and g: "g < length (rpcs s)" "rpcs s ! g = LockSem" and t: "writerSem s \<noteq> 0"
  shows "\<exists>s' ph'. rw_step g s = Ret s' \<and> rw_inv ph' s'"
proof -
  have wp: "writer_pc (rpcs s ! g)" using g by simp
  have ph: "ph = Waiting" using writer_in_phase [OF rw_invD(3) [OF i] g(1) wp] g by (cases ph) auto
  note w = owner_wheld [OF rw_invD(3) [OF i] g(1) wp]
  note ok = rw_invD(4) [OF i, unfolded ph, simplified]
  have z: "departing s = 0" "writerSem s = 1" "at_pc RUnlockPost s = 0" using ok t by (cases "departing s = 0"; simp)+
  let ?s = "goto g Free (s\<lparr>writerSem := writerSem s - 1, wheld := wheld s + 1\<rparr>)"
  note n = writer_counts [OF g(1), of ?s Free, simplified g, simplified]
  have "readerWait s = 0" using ok z(1) by simp
  moreover have "departing ?s = departing s" using n by (simp add: departing_def)
  ultimately have "phase_ok Holding ?s" using n z by (simp add: quiet_def)
  moreover have rc: "readerCount s = of_nat (entered s) - 2 ^ 30" using rw_invD(5) [OF i] ph by (simp add: announced_def)
  ultimately have "rw_inv Holding ?s"
    using w by (auto intro!: writer_move [OF i g(1) wp] simp: announced_def)
  then show ?thesis using g t by (auto simp: rw_step_def)
qed

lemma rw_call_unlock_inv:
  assumes i: "rw_inv ph s" and g: "g < length (rpcs s)" "rpcs s ! g = Free" and h: "0 < wheld s"
  shows "rw_inv ph (goto g UnlockAdd (s\<lparr>wheld := wheld s - 1\<rparr>))" (is "rw_inv ph ?s")
proof -
  note n = writer_counts [OF g(1), of ?s UnlockAdd, simplified g, simplified]
  have o: "owner ph s" by (rule rw_invD(3) [OF i])
  have z: "num writer_pc (rpcs s) = 0" "wheld s = 1" "ph \<noteq> NoWriter"
    using o h by (auto simp: owner_def split: if_splits)
  have "num (in_phase ph) (rpcs s) \<le> num writer_pc (rpcs s)" by (rule num_mono) (rule in_phase_writer)
  then have ph: "ph = Holding" using o z by (auto simp: owner_def split: if_splits)
  then have "owner Holding ?s"
    using o z num_update [OF g(1), of writer_pc UnlockAdd] num_update [OF g(1), of "in_phase Holding" UnlockAdd] g
    by (simp add: owner_def)
  moreover have "phase_ok Holding ?s" using rw_invD(4) [OF i] ph n by (auto simp: departing_def quiet_def)
  ultimately show ?thesis using n rw_invD(1,2,5) [OF i] ph by (simp add: rw_inv_def)
qed

lemma unlock_add_inv:
  assumes i: "rw_inv ph s" and g: "g < length (rpcs s)" "rpcs s ! g = UnlockAdd"
  shows "\<exists>s' ph'. rw_step g s = Ret s' \<and> rw_inv ph' s'"
proof -
  have wp: "writer_pc (rpcs s ! g)" using g by simp
  have ph: "ph = Holding" using writer_in_phase [OF rw_invD(3) [OF i] g(1) wp] g by (cases ph) auto
  note w = owner_wheld [OF rw_invD(3) [OF i] g(1) wp]
  note ok = rw_invD(4) [OF i, unfolded ph, simplified]
  have rc: "readerCount s + 2 ^ 30 = of_nat (entered s)" using rw_invD(5) [OF i] ph by (simp add: announced_def)
  have sg: "sint (readerCount s + 2 ^ 30) = int (entered s)" unfolding rc by (rule sint_count) (rule rw_invD(6) [OF i])
  have big: "sint (2 ^ 30 :: u32) = 2 ^ 30" by simp
  let ?p = "UnlockPost 0 (entered s)"
  let ?s = "goto g ?p (s\<lparr>readerCount := readerCount s + 2 ^ 30\<rparr>)"
  note n = writer_counts [OF g(1), of ?s ?p, simplified g, simplified]
  have "phase_ok (Posting 0 (entered s)) ?s"
    using ok n by (auto simp: departing_def quiet_def entered_def)
  then have "rw_inv (Posting 0 (entered s)) ?s"
    using w rc by (auto intro!: writer_move [OF i g(1) wp] simp: announced_def)
  moreover have "rw_step g s = Ret ?s"
    using g sg big rw_invD(6) [OF i] by (simp add: rw_step_def Let_def)
  ultimately show ?thesis by blast
qed

lemma unlock_post_inv:
  assumes i: "rw_inv ph s" and g: "g < length (rpcs s)" "rpcs s ! g = UnlockPost k r"
  shows "\<exists>s' ph'. rw_step g s = Ret s' \<and> rw_inv ph' s'"
proof -
  have wp: "writer_pc (rpcs s ! g)" using g by simp
  have ph: "ph = Posting k r" using writer_in_phase [OF rw_invD(3) [OF i] g(1) wp] g by (cases ph) auto
  note w = owner_wheld [OF rw_invD(3) [OF i] g(1) wp]
  note ok = rw_invD(4) [OF i, unfolded ph, simplified]
  have rc: "readerCount s = of_nat (entered s)" using rw_invD(5) [OF i] ph by (simp add: announced_def)
  show ?thesis
  proof (cases "k < r")
    case True
    let ?p = "UnlockPost (k + 1) r"
    let ?s = "goto g ?p (s\<lparr>readerSem := readerSem s + 1\<rparr>)"
    note n = writer_counts [OF g(1), of ?s ?p, simplified g, simplified]
    have "phase_ok (Posting (k + 1) r) ?s" using ok n True by (auto simp: quiet_def)
    then have "rw_inv (Posting (k + 1) r) ?s"
      using w rc by (auto intro!: writer_move [OF i g(1) wp] simp: announced_def)
    then show ?thesis using g True by (auto simp: rw_step_def)
  next
    case False
    let ?s = "goto g UnlockW s"
    note n = writer_counts [OF g(1), of ?s UnlockW, simplified g, simplified]
    have "phase_ok Leaving ?s" using ok n False by (auto simp: quiet_def)
    then have "rw_inv Leaving ?s"
      using w rc by (auto intro!: writer_move [OF i g(1) wp] simp: announced_def)
    then show ?thesis using g False by (auto simp: rw_step_def)
  qed
qed

lemma unlock_w_inv:
  assumes i: "rw_inv ph s" and g: "g < length (rpcs s)" "rpcs s ! g = UnlockW"
  shows "\<exists>s' ph'. rw_step g s = Ret s' \<and> rw_inv ph' s'"
proof -
  have wp: "writer_pc (rpcs s ! g)" using g by simp
  have ph: "ph = Leaving" using writer_in_phase [OF rw_invD(3) [OF i] g(1) wp] g by (cases ph) auto
  note w = owner_wheld [OF rw_invD(3) [OF i] g(1) wp]
  note ok = rw_invD(4) [OF i, unfolded ph, simplified]
  have rc: "readerCount s = of_nat (entered s)" using rw_invD(5) [OF i] ph by (simp add: announced_def)
  let ?s = "goto g Free (s\<lparr>w_locked := False\<rparr>)"
  note n = writer_counts [OF g(1), of ?s Free, simplified g, simplified]
  have "phase_ok NoWriter ?s" using ok n by (auto simp: quiet_def)
  then have "rw_inv NoWriter ?s"
    using w rc by (auto intro!: writer_move [OF i g(1) wp] simp: announced_def)
  then show ?thesis using g by (auto simp: rw_step_def)
qed


section \<open>All interleavings\<close>

definition blocked :: "nat \<Rightarrow> rwsys \<Rightarrow> bool" where
  "blocked g s \<longleftrightarrow> rpcs s ! g = Free \<or> rpcs s ! g = RLockSem \<and> readerSem s = 0 \<or>
     rpcs s ! g = LockW \<and> w_locked s \<or> rpcs s ! g = LockSem \<and> writerSem s = 0"

lemma rw_step_ok:
  assumes i: "rw_inv ph s" and g: "g < length (rpcs s)" and b: "\<not> blocked g s"
  shows "\<exists>s' ph'. rw_step g s = Ret s' \<and> rw_inv ph' s'"
  using b rlock_add_inv [OF i g] rlock_sem_inv [OF i g] runlock_add_inv [OF i g] runlock_depart_inv [OF i g]
    runlock_post_inv [OF i g] lock_w_inv [OF i g] lock_announce_inv [OF i g] lock_depart_inv [OF i g]
    lock_sem_inv [OF i g] unlock_add_inv [OF i g] unlock_post_inv [OF i g] unlock_w_inv [OF i g]
  by (cases "rpcs s ! g") (unfold blocked_def, blast+)

lemma rw_step_blocked: "blocked g s \<Longrightarrow> rw_step g s = Spin"
  by (auto simp: blocked_def rw_step_def)

lemma rw_step_length: "rw_step g s = Ret s' \<Longrightarrow> length (rpcs s') = length (rpcs s)"
  by (cases "rpcs s ! g") (auto simp: rw_step_def Let_def split: if_splits)

lemma rw_init_inv: "n < 2 ^ 30 \<Longrightarrow> rw_inv NoWriter (rw_init n)"
  by (simp add: rw_inv_def rw_init_def readers_def owner_def num_replicate is_reader_def quiet_def entered_def
      announced_def)

lemma rw_reach_inv:
  "rw_reach n s \<Longrightarrow> n < 2 ^ 30 \<Longrightarrow> (\<exists>ph. rw_inv ph s) \<and> length (rpcs s) = n"
proof (induction rule: rw_reach.induct)
  case start
  then show ?case using rw_init_inv by (auto simp: rw_init_def)
next
  case (rlock s g)
  then obtain ph where "rw_inv ph s" by blast
  from call_rlock_inv [OF this _ rlock(3,4)] rlock show ?case by auto
next
  case (runlock s g)
  then obtain ph where "rw_inv ph s" by blast
  from call_runlock_inv [OF this _ runlock(3,4)] runlock show ?case by auto
next
  case (lock s g)
  then obtain ph where "rw_inv ph s" by blast
  from rw_call_lock_inv [OF this _ lock(3)] lock show ?case by auto
next
  case (unlock s g)
  then obtain ph where "rw_inv ph s" by blast
  from rw_call_unlock_inv [OF this _ unlock(3,4)] unlock show ?case by auto
next
  case (step s g s')
  then obtain ph where i: "rw_inv ph s" "g < length (rpcs s)" by auto
  have "\<not> blocked g s" using rw_step_blocked [of g s] step(3) by auto
  from rw_step_ok [OF i this] step rw_step_length [OF step(3)] show ?case by auto
qed

text \<open>C10. In every interleaving of fewer than 2^30 goroutines, with fewer than \<open>rwmutexMaxReaders\<close> readers
  at a time: at most one writer holds the lock, no reader holds it while a writer does, and no check
  of the code throws.\<close>

theorem rwmutex_exclusion:
  assumes "rw_reach n s" "n < 2 ^ 30" "g < n"
  shows "wheld s \<le> 1 \<and> (wheld s = 0 \<or> rheld s = 0) \<and> (\<forall>msg. rw_step g s \<noteq> Throw msg)"
proof -
  obtain ph where i: "rw_inv ph s" and l: "length (rpcs s) = n" using rw_reach_inv [OF assms(1,2)] by blast
  have o: "owner ph s" by (rule rw_invD(3) [OF i])
  have "wheld s \<le> 1" using o by (auto simp: owner_def of_bool_def split: if_splits)
  moreover have "rheld s = 0" if h: "wheld s \<noteq> 0"
  proof -
    have "num (in_phase ph) (rpcs s) \<le> num writer_pc (rpcs s)" by (rule num_mono) (rule in_phase_writer)
    then have "ph = Holding" using o h by (auto simp: owner_def of_bool_def split: if_splits)
    then show ?thesis using rw_invD(4) [OF i] by (simp add: departing_def)
  qed
  moreover have "rw_step g s \<noteq> Throw msg" for msg
    using rw_step_ok [OF i, of g] rw_step_blocked [of g s] assms(3) l by (cases "blocked g s") auto
  ultimately show ?thesis by (cases "wheld s = 0") auto
qed

text \<open>When everybody is blocked, nobody is in a step that cannot block, and readers wait for a token.\<close>

lemma blocked_counts:
  assumes bl: "\<And>v. v < length (rpcs s) \<Longrightarrow> blocked v s"
  shows "p \<in> {RUnlockAdd, RUnlockDepart, RUnlockPost} \<Longrightarrow> at_pc p s = 0" "at_pc RLockSem s = 0 \<or> readerSem s = 0"
proof -
  have none: "at_pc p s = 0" if "\<And>v. v < length (rpcs s) \<Longrightarrow> rpcs s ! v \<noteq> p" for p
    using that num_pos [of "\<lambda>q. q = p" "rpcs s"] by blast
  show "at_pc p s = 0" if "p \<in> {RUnlockAdd, RUnlockDepart, RUnlockPost}"
  proof (rule none)
    show "rpcs s ! v \<noteq> p" if "v < length (rpcs s)" for v
      using bl [OF that] \<open>p \<in> _\<close> by (auto simp: blocked_def)
  qed
  show "at_pc RLockSem s = 0 \<or> readerSem s = 0"
  proof (cases "readerSem s = 0")
    case False
    then have "rpcs s ! v \<noteq> RLockSem" if "v < length (rpcs s)" for v
      using bl [OF that] by (auto simp: blocked_def)
    then show ?thesis using none by blast
  qed simp
qed

text \<open>C11. No wake-up is lost: in every interleaving, when some goroutine is inside a call and nobody holds
  the lock for reading or writing, some goroutine inside a call can take a step.\<close>

theorem rwmutex_progress:
  assumes "rw_reach n s" "n < 2 ^ 30" "g < n" "rpcs s ! g \<noteq> Free" "rheld s = 0" "wheld s = 0"
  shows "\<exists>v<n. \<exists>s'. rpcs s ! v \<noteq> Free \<and> rw_step v s = Ret s'"
proof (rule ccontr)
  assume stuck: "\<not> ?thesis"
  obtain ph where i: "rw_inv ph s" and l: "length (rpcs s) = n" using rw_reach_inv [OF assms(1,2)] by blast
  have bl: "blocked v s" if "v < n" for v
    using rw_step_ok [OF i, of v] stuck that l by (auto simp: blocked_def)
  note none = blocked_counts(1) [of s, unfolded l, OF bl] and rd = blocked_counts(2) [of s, unfolded l, OF bl]
  have some: "v < n \<Longrightarrow> rpcs s ! v = p \<Longrightarrow> 0 < at_pc p s" for v p unfolding num_pos l by auto
  have wr: "v < n \<Longrightarrow> writer_pc (rpcs s ! v) \<Longrightarrow> rpcs s ! v = LockSem \<and> writerSem s = 0" for v
    using bl [of v] by (auto simp: blocked_def)
  show False
  proof (cases "w_locked s")
    case True
    then have ne: "ph \<noteq> NoWriter" using rw_invD(3) [OF i] by (simp add: owner_def)
    then have "0 < num writer_pc (rpcs s)" using rw_invD(3) [OF i] assms(6) by (simp add: owner_def)
    then obtain v where v: "v < n" "writer_pc (rpcs s ! v)" unfolding num_pos l by blast
    then have ph: "ph = Waiting"
      using wr [OF v] writer_in_phase [OF rw_invD(3) [OF i], of v] l by (cases ph) auto
    have le: "readerSem s \<le> at_pc RLockSem s" using rw_invD(4) [OF i] ph by simp
    then have "departing s = 0" using rd none assms(5) by (auto simp: departing_def)
    then show False using rw_invD(4) [OF i] ph wr [OF v] none by simp
  next
    case False
    then have ph: "ph = NoWriter" using rw_invD(3) [OF i] by (auto simp: owner_def)
    then have "at_pc RLockSem s = readerSem s" using rw_invD(4) [OF i] by simp
    then have "at_pc RLockSem s = 0" using rd by simp
    then have "rpcs s ! g \<noteq> RLockSem" using some [OF assms(3), of RLockSem] by auto
    moreover have "rpcs s ! g \<noteq> LockSem"
      using writer_in_phase [OF rw_invD(3) [OF i], of g] assms(3) l ph by auto
    ultimately show False using bl [OF assms(3)] assms(4) False by (auto simp: blocked_def)
  qed
qed

text \<open>A writer waits for a reader; another reader came after it; the first reader is about to leave.\<close>

datatype rw_event = CallRLock nat | CallRUnlock nat | CallLock nat | CallUnlock nat | Go nat

fun rw_act :: "rw_event \<Rightarrow> rwsys \<Rightarrow> rwsys outcome" where
  "rw_act (CallRLock g) s = (if rpcs s ! g = Free \<and> readers s + 1 < 2 ^ 30 then Ret (goto g RLockAdd s) else Spin)"
| "rw_act (CallRUnlock g) s =
     (if rpcs s ! g = Free \<and> 0 < rheld s then Ret (goto g RUnlockAdd (s\<lparr>rheld := rheld s - 1\<rparr>)) else Spin)"
| "rw_act (CallLock g) s = (if rpcs s ! g = Free then Ret (goto g LockW s) else Spin)"
| "rw_act (CallUnlock g) s =
     (if rpcs s ! g = Free \<and> 0 < wheld s then Ret (goto g UnlockAdd (s\<lparr>wheld := wheld s - 1\<rparr>)) else Spin)"
| "rw_act (Go g) s = rw_step g s"

fun rw_run :: "rw_event list \<Rightarrow> rwsys \<Rightarrow> rwsys outcome" where
  "rw_run [] s = Ret s"
| "rw_run (e # es) s = obind (rw_act e s) (rw_run es)"

fun rw_who :: "rw_event \<Rightarrow> nat" where
  "rw_who (CallRLock g) = g"
| "rw_who (CallRUnlock g) = g"
| "rw_who (CallLock g) = g"
| "rw_who (CallUnlock g) = g"
| "rw_who (Go g) = g"

lemma rw_act_reach:
  assumes "rw_act e s = Ret s'" "rw_reach n s" "rw_who e < n"
  shows "rw_reach n s'"
proof (cases e)
  case (CallRLock g)
  then show ?thesis using assms rw_reach.rlock [of n s g] by (simp split: if_splits)
next
  case (CallRUnlock g)
  then show ?thesis using assms rw_reach.runlock [of n s g] by (simp split: if_splits)
next
  case (CallLock g)
  then show ?thesis using assms rw_reach.lock [of n s g] by (simp split: if_splits)
next
  case (CallUnlock g)
  then show ?thesis using assms rw_reach.unlock [of n s g] by (simp split: if_splits)
next
  case (Go g)
  then show ?thesis using assms rw_reach.step [of n s g s'] by simp
qed

lemma rw_run_reach:
  "rw_run es s = Ret s' \<Longrightarrow> rw_reach n s \<Longrightarrow> \<forall>e\<in>set es. rw_who e < n \<Longrightarrow> rw_reach n s'"
  by (induction es arbitrary: s) (auto simp: obind_eq_Ret intro: rw_act_reach)

definition rw_queue :: rwsys where
  "rw_queue = \<lparr>w_locked = True, writerSem = 0, readerSem = 0, readerCount = 1 - 2 ^ 30, readerWait = 1,
     rpcs = [RUnlockDepart, LockSem, RLockSem], rheld = 0, wheld = 0\<rparr>"

definition rw_queue_run :: "rw_event list" where
  "rw_queue_run = [CallRLock 0, Go 0, CallLock 1, Go 1, Go 1, Go 1, CallRLock 2, Go 2, CallRUnlock 0, Go 0]"

lemma rw_queue_reach: "rw_reach 3 rw_queue"
proof -
  have init: "rpcs (rw_init 3) = [Free, Free, Free]" by (simp add: rw_init_def numeral_3_eq_3)
  have "rw_init 3 = \<lparr>w_locked = False, writerSem = 0, readerSem = 0, readerCount = 0, readerWait = 0,
     rpcs = [Free, Free, Free], rheld = 0, wheld = 0\<rparr>" using init by (simp add: rw_init_def)
  then have "rw_run rw_queue_run (rw_init 3) = Ret rw_queue"
    by (simp add: rw_queue_run_def rw_queue_def rw_step_def readers_def num_def is_reader_def Let_def)
  from rw_run_reach [OF this rw_reach.start] show ?thesis by (simp add: rw_queue_run_def)
qed

theorem rwmutex_exclusion_witness:
  "wheld rw_queue \<le> 1 \<and> rw_step 0 rw_queue \<noteq> Throw ''sync: RUnlock of unlocked RWMutex''"
  using rwmutex_exclusion [OF rw_queue_reach, of 0] by simp

theorem rwmutex_progress_witness: "\<exists>v<3. \<exists>s'. rpcs rw_queue ! v \<noteq> Free \<and> rw_step v rw_queue = Ret s'"
  by (rule rwmutex_progress [OF rw_queue_reach, of 1]) (simp_all add: rw_queue_def)

end
