(* ===== verification/Gomap.thy ===== *)
theory Gomap
  imports Chan
begin

text \<open>
  The maps of the language (\<open>runtime/map.go\<close>): an array of \<open>2 ^ B\<close> buckets, each a chain of blocks of
  eight cells, that grows by moving one or two old buckets at every assignment and deletion.

  The hash function and the equality of keys come from the compiler: they are fields of the map's
  type.  A block is the list of its eight cells, and a bucket the list of its blocks, from the main one
  along the overflow pointers.  That the area of a bucket array reserves blocks for later overflows
  (\<open>nextOverflow\<close>) and the lists that keep overflow blocks alive for the garbage collector are left out,
  and so are iterators, so the two iterator flags are never set.  A nil map is \<open>None\<close>.  Keys and elements
  are stored in the cells, as for types that are not larger than 128 bytes.  The target has 64-bit words.
\<close>

section \<open>State\<close>

record ('k, 'v) maptype =
  hasher :: "'k \<Rightarrow> u32 \<Rightarrow> u64"
  key_equal :: "'k \<Rightarrow> 'k \<Rightarrow> bool"
  needkeyupdate :: bool
  key_ptrs :: bool      \<comment> \<open>\<open>t.key.ptrdata != 0\<close>\<close>
  bucket_ptrs :: bool   \<comment> \<open>\<open>t.bucket.ptrdata != 0\<close>\<close>
  bucket_size :: u64
  zero_key :: 'k
  zero_elem :: 'v

record ('k, 'v) cell =
  tophash :: u8
  ckey :: 'k
  celem :: 'v

type_synonym ('k, 'v) bmap = "('k, 'v) cell list"
type_synonym ('k, 'v) chain = "('k, 'v) bmap list"

record ('k, 'v) hmap =
  hcount :: int
  hash_writing :: bool
  same_size :: bool
  hB :: nat
  noverflow :: u16
  hash0 :: u32
  buckets :: "('k, 'v) chain list"                \<comment> \<open>empty for nil\<close>
  oldbuckets :: "('k, 'v) chain list option"
  nevacuate :: nat
  rands :: "nat \<Rightarrow> u32"                           \<comment> \<open>what \<open>fastrand\<close> is going to return\<close>

abbreviation (input) bucketCnt :: nat where "bucketCnt \<equiv> 8"
abbreviation (input) emptyRest :: u8 where "emptyRest \<equiv> 0"
abbreviation (input) emptyOne :: u8 where "emptyOne \<equiv> 1"
abbreviation (input) evacuatedX :: u8 where "evacuatedX \<equiv> 2"
abbreviation (input) evacuatedEmpty :: u8 where "evacuatedEmpty \<equiv> 4"
abbreviation (input) minTopHash :: u8 where "minTopHash \<equiv> 5"

definition isEmpty :: "u8 \<Rightarrow> bool" where
  "isEmpty x \<longleftrightarrow> x \<le> emptyOne"

definition bucketShift :: "nat \<Rightarrow> u64" where
  "bucketShift b = push_bit (b mod 64) 1"

definition bucketMask :: "nat \<Rightarrow> u64" where
  "bucketMask b = bucketShift b - 1"

definition top_of :: "u64 \<Rightarrow> u8" where
  "top_of hash = (let tp = ucast (drop_bit (64 - 8) hash) in if tp < minTopHash then tp + minTopHash else tp)"

definition evacuated :: "('k, 'v) chain \<Rightarrow> bool" where
  "evacuated b = (let h = tophash (hd (hd b)) in emptyOne < h \<and> h < minTopHash)"

definition fastrand :: "('k, 'v) hmap \<Rightarrow> u32 \<times> ('k, 'v) hmap" where
  "fastrand h = (rands h 0, h\<lparr>rands := \<lambda>n. rands h (Suc n)\<rparr>)"

definition incrnoverflow :: "('k, 'v) hmap \<Rightarrow> ('k, 'v) hmap" where
  "incrnoverflow h =
     (if hB h < 16 then h\<lparr>noverflow := noverflow h + 1\<rparr>
      else
        let mask = push_bit (hB h - 15) 1 - 1; (r, h) = fastrand h
        in if r AND mask = 0 then h\<lparr>noverflow := noverflow h + 1\<rparr> else h)"

definition empty_bmap :: "('k, 'v) maptype \<Rightarrow> ('k, 'v) bmap" where
  "empty_bmap t = replicate bucketCnt \<lparr>tophash = emptyRest, ckey = zero_key t, celem = zero_elem t\<rparr>"

text \<open>A block is added to the end of a bucket, the only place where the code adds one.\<close>

definition newoverflow :: "('k, 'v) maptype \<Rightarrow> nat \<Rightarrow> ('k, 'v) hmap \<Rightarrow> ('k, 'v) hmap" where
  "newoverflow t n h = incrnoverflow (h\<lparr>buckets := (buckets h)[n := buckets h ! n @ [empty_bmap t]]\<rparr>)"

definition set_cell :: "nat \<Rightarrow> nat \<Rightarrow> nat \<Rightarrow> ('k, 'v) cell \<Rightarrow> ('k, 'v) hmap \<Rightarrow> ('k, 'v) hmap" where
  "set_cell n b i c h = h\<lparr>buckets := (buckets h)[n := (buckets h ! n)[b := (buckets h ! n ! b)[i := c]]]\<rparr>"

section \<open>Growing\<close>

definition overLoadFactor :: "int \<Rightarrow> nat \<Rightarrow> bool" where
  "overLoadFactor c b \<longleftrightarrow> int bucketCnt < c \<and> 13 * (bucketShift b div 2) < word_of_int c"

definition tooManyOverflowBuckets :: "u16 \<Rightarrow> nat \<Rightarrow> bool" where
  "tooManyOverflowBuckets nov b = (let b = (if 15 < b then 15 else b) in push_bit b 1 \<le> nov)"

definition growing :: "('k, 'v) hmap \<Rightarrow> bool" where
  "growing h \<longleftrightarrow> oldbuckets h \<noteq> None"

definition noldbuckets :: "('k, 'v) hmap \<Rightarrow> u64" where
  "noldbuckets h = bucketShift (if same_size h then hB h else hB h - 1)"

definition oldbucketmask :: "('k, 'v) hmap \<Rightarrow> u64" where
  "oldbucketmask h = noldbuckets h - 1"

definition makeBucketArray :: "('k, 'v) maptype \<Rightarrow> nat \<Rightarrow> ('k, 'v) chain list" where
  "makeBucketArray t b = replicate (unat (bucketShift b)) [empty_bmap t]"

definition hashGrow :: "('k, 'v) maptype \<Rightarrow> ('k, 'v) hmap \<Rightarrow> ('k, 'v) hmap" where
  "hashGrow t h =
     (let (bigger, h) = (if overLoadFactor (hcount h + 1) (hB h) then (1, h) else (0, h\<lparr>same_size := True\<rparr>));
          old = buckets h;
          new = makeBucketArray t (hB h + bigger)
      in h\<lparr>hB := hB h + bigger, oldbuckets := Some old, buckets := new, nevacuate := 0, noverflow := 0\<rparr>)"

text \<open>Where \<open>evacuate\<close> puts cells: a bucket of the new array, and the index in its last block.\<close>

record evacDst =
  dst_b :: nat
  dst_i :: nat

definition evac_put ::
  "('k, 'v) maptype \<Rightarrow> ('k, 'v) cell \<Rightarrow> evacDst \<Rightarrow> ('k, 'v) hmap \<Rightarrow> evacDst \<times> ('k, 'v) hmap" where
  "evac_put t c d h =
     (let (d, h) = (if dst_i d = bucketCnt then (d\<lparr>dst_i := 0\<rparr>, newoverflow t (dst_b d) h) else (d, h))
      in (d\<lparr>dst_i := dst_i d + 1\<rparr>,
          set_cell (dst_b d) (length (buckets h ! dst_b d) - 1) (dst_i d mod bucketCnt) c h))"

text \<open>The cells of one block of an old bucket, left to right.\<close>

fun evac_cells ::
  "('k, 'v) maptype \<Rightarrow> u64 \<Rightarrow> ('k, 'v) bmap \<Rightarrow> evacDst \<Rightarrow> evacDst \<Rightarrow> ('k, 'v) hmap \<Rightarrow>
    (('k, 'v) bmap \<times> evacDst \<times> evacDst \<times> ('k, 'v) hmap) outcome" where
  "evac_cells t newbit [] x y h = Ret ([], x, y, h)"
| "evac_cells t newbit (c # cs) x y h =
     (let tp = tophash c
      in if isEmpty tp then
           obind (evac_cells t newbit cs x y h) (\<lambda>(cs, x, y, h). Ret (c\<lparr>tophash := evacuatedEmpty\<rparr> # cs, x, y, h))
         else if tp < minTopHash then Throw ''bad map state''
         else
           let useY = \<not> same_size h \<and> hasher t (ckey c) (hash0 h) AND newbit \<noteq> 0;
               c' = c\<lparr>tophash := evacuatedX + of_bool useY\<rparr>;
               (x, y, h) = (if useY then let (y, h) = evac_put t c y h in (x, y, h)
                            else let (x, h) = evac_put t c x h in (x, y, h))
           in obind (evac_cells t newbit cs x y h) (\<lambda>(cs, x, y, h). Ret (c' # cs, x, y, h)))"

fun evac_chain ::
  "('k, 'v) maptype \<Rightarrow> u64 \<Rightarrow> ('k, 'v) chain \<Rightarrow> evacDst \<Rightarrow> evacDst \<Rightarrow> ('k, 'v) hmap \<Rightarrow>
    (('k, 'v) chain \<times> evacDst \<times> evacDst \<times> ('k, 'v) hmap) outcome" where
  "evac_chain t newbit [] x y h = Ret ([], x, y, h)"
| "evac_chain t newbit (b # bs) x y h =
     obind (evac_cells t newbit b x y h) (\<lambda>(b, x, y, h).
       obind (evac_chain t newbit bs x y h) (\<lambda>(bs, x, y, h). Ret (b # bs, x, y, h)))"

text \<open>The loop of \<open>advanceEvacuationMark\<close>, which runs while \<open>n != stop\<close>: it starts at or below \<open>stop\<close>.\<close>

definition bucketEvacuated :: "('k, 'v) chain list \<Rightarrow> nat \<Rightarrow> bool" where
  "bucketEvacuated old n = evacuated (old ! n)"

function advance_loop :: "('k, 'v) chain list \<Rightarrow> nat \<Rightarrow> nat \<Rightarrow> nat" where
  "advance_loop old stop n = (if n < stop \<and> bucketEvacuated old n then advance_loop old stop (n + 1) else n)"
  by pat_completeness auto
termination by (relation "measure (\<lambda>(old, stop, n). stop - n)") auto

declare advance_loop.simps [simp del]

definition advanceEvacuationMark :: "nat \<Rightarrow> ('k, 'v) hmap \<Rightarrow> ('k, 'v) hmap" where
  "advanceEvacuationMark newbit h =
     (let n = nevacuate h + 1;
          stop = (if newbit < n + 1024 then newbit else n + 1024);
          n = advance_loop (the (oldbuckets h)) stop n;
          h = h\<lparr>nevacuate := n\<rparr>
      in if n = newbit then h\<lparr>oldbuckets := None, same_size := False\<rparr> else h)"

text \<open>The old overflow blocks are unlinked when a bucket has pointers.\<close>

definition evac_clear :: "('k, 'v) maptype \<Rightarrow> ('k, 'v) chain \<Rightarrow> ('k, 'v) chain" where
  "evac_clear t b =
     (if bucket_ptrs t then [map (\<lambda>c. c\<lparr>ckey := zero_key t, celem := zero_elem t\<rparr>) (hd b)] else b)"

definition evacuate :: "('k, 'v) maptype \<Rightarrow> nat \<Rightarrow> ('k, 'v) hmap \<Rightarrow> ('k, 'v) hmap outcome" where
  "evacuate t oldbucket h =
     (let newbit = noldbuckets h; b = the (oldbuckets h) ! oldbucket
      in obind
           (if \<not> evacuated b then
              let x = \<lparr>dst_b = oldbucket, dst_i = 0\<rparr>;
                  y = \<lparr>dst_b = oldbucket + unat newbit, dst_i = 0\<rparr>
              in obind (evac_chain t newbit b x y h) (\<lambda>(b, x, y, h).
                   Ret (h\<lparr>oldbuckets := Some ((the (oldbuckets h))[oldbucket := evac_clear t b])\<rparr>))
            else Ret h)
           (\<lambda>h. Ret (if oldbucket = nevacuate h then advanceEvacuationMark (unat newbit) h else h)))"

definition growWork :: "('k, 'v) maptype \<Rightarrow> u64 \<Rightarrow> ('k, 'v) hmap \<Rightarrow> ('k, 'v) hmap outcome" where
  "growWork t bucket h =
     obind (evacuate t (unat (bucket AND oldbucketmask h)) h) (\<lambda>h.
       if growing h then evacuate t (nevacuate h) h else Ret h)"

section \<open>Access\<close>

datatype ('k, 'v) scan = Found 'k 'v | StopRest | NextBlock

fun scan_cells :: "('k, 'v) maptype \<Rightarrow> 'k \<Rightarrow> u8 \<Rightarrow> ('k, 'v) bmap \<Rightarrow> ('k, 'v) scan" where
  "scan_cells t k tp [] = NextBlock"
| "scan_cells t k tp (c # cs) =
     (if tophash c \<noteq> tp then if tophash c = emptyRest then StopRest else scan_cells t k tp cs
      else if key_equal t k (ckey c) then Found (ckey c) (celem c) else scan_cells t k tp cs)"

fun scan_chain :: "('k, 'v) maptype \<Rightarrow> 'k \<Rightarrow> u8 \<Rightarrow> ('k, 'v) chain \<Rightarrow> ('k \<times> 'v) option" where
  "scan_chain t k tp [] = None"
| "scan_chain t k tp (b # bs) =
     (case scan_cells t k tp b of Found k' v \<Rightarrow> Some (k', v) | StopRest \<Rightarrow> None | NextBlock \<Rightarrow> scan_chain t k tp bs)"

text \<open>What \<open>mapaccess1\<close>, \<open>mapaccess2\<close> and \<open>mapaccessK\<close> have in common.\<close>

definition map_find :: "('k, 'v) maptype \<Rightarrow> ('k, 'v) hmap \<Rightarrow> 'k \<Rightarrow> ('k \<times> 'v) option" where
  "map_find t h key =
     (let hash = hasher t key (hash0 h);
          m = bucketMask (hB h);
          b = buckets h ! unat (hash AND m);
          b = (case oldbuckets h of None \<Rightarrow> b
               | Some c \<Rightarrow>
                   let m = (if same_size h then m else drop_bit 1 m); oldb = c ! unat (hash AND m)
                   in if evacuated oldb then b else oldb)
      in scan_chain t key (top_of hash) b)"

definition mapaccess1 :: "('k, 'v) maptype \<Rightarrow> ('k, 'v) hmap option \<Rightarrow> 'k \<Rightarrow> 'v outcome" where
  "mapaccess1 t h key =
     (case h of None \<Rightarrow> Ret (zero_elem t)
      | Some h \<Rightarrow>
          if hcount h = 0 then Ret (zero_elem t)
          else if hash_writing h then Throw ''concurrent map read and map write''
          else Ret (case map_find t h key of None \<Rightarrow> zero_elem t | Some (k, e) \<Rightarrow> e))"

definition mapaccess2 :: "('k, 'v) maptype \<Rightarrow> ('k, 'v) hmap option \<Rightarrow> 'k \<Rightarrow> ('v \<times> bool) outcome" where
  "mapaccess2 t h key =
     (case h of None \<Rightarrow> Ret (zero_elem t, False)
      | Some h \<Rightarrow>
          if hcount h = 0 then Ret (zero_elem t, False)
          else if hash_writing h then Throw ''concurrent map read and map write''
          else Ret (case map_find t h key of None \<Rightarrow> (zero_elem t, False) | Some (k, e) \<Rightarrow> (e, True)))"

definition mapaccessK :: "('k, 'v) maptype \<Rightarrow> ('k, 'v) hmap option \<Rightarrow> 'k \<Rightarrow> ('k \<times> 'v) option" where
  "mapaccessK t h key =
     (case h of None \<Rightarrow> None | Some h \<Rightarrow> if hcount h = 0 then None else map_find t h key)"

definition maplen :: "('k, 'v) hmap option \<Rightarrow> int" where
  "maplen h = (case h of None \<Rightarrow> 0 | Some h \<Rightarrow> hcount h)"

section \<open>Assignment\<close>

datatype slot = Hit nat nat | Rest "(nat \<times> nat) option" | More "(nat \<times> nat) option"

text \<open>The search of \<open>mapassign\<close>: the block and the index of the key, or the first empty cell it saw.\<close>

fun slot_cells ::
  "('k, 'v) maptype \<Rightarrow> 'k \<Rightarrow> u8 \<Rightarrow> nat \<Rightarrow> nat \<Rightarrow> (nat \<times> nat) option \<Rightarrow> ('k, 'v) bmap \<Rightarrow> slot" where
  "slot_cells t k tp b i ins [] = More ins"
| "slot_cells t k tp b i ins (c # cs) =
     (if tophash c \<noteq> tp then
        let ins = (if isEmpty (tophash c) \<and> ins = None then Some (b, i) else ins)
        in if tophash c = emptyRest then Rest ins else slot_cells t k tp b (i + 1) ins cs
      else if \<not> key_equal t k (ckey c) then slot_cells t k tp b (i + 1) ins cs
      else Hit b i)"

fun slot_chain :: "('k, 'v) maptype \<Rightarrow> 'k \<Rightarrow> u8 \<Rightarrow> nat \<Rightarrow> (nat \<times> nat) option \<Rightarrow> ('k, 'v) chain \<Rightarrow> slot" where
  "slot_chain t k tp b ins [] = Rest ins"
| "slot_chain t k tp b ins (bm # bms) =
     (case slot_cells t k tp b 0 ins bm of
        More ins \<Rightarrow> slot_chain t k tp (b + 1) ins bms
      | r \<Rightarrow> r)"

text \<open>The code from \<open>again\<close> to \<open>done\<close>, with the store of the element that the compiler puts after the
  call.  \<open>goto again\<close> is a recursive call; the fuel bounds how often it is taken.\<close>

fun assign_again ::
  "nat \<Rightarrow> ('k, 'v) maptype \<Rightarrow> u64 \<Rightarrow> 'k \<Rightarrow> 'v \<Rightarrow> ('k, 'v) hmap \<Rightarrow> ('k, 'v) hmap outcome" where
  "assign_again 0 t hash key v h = Spin"
| "assign_again (Suc fuel) t hash key v h =
     (let bucket = hash AND bucketMask (hB h); n = unat bucket; tp = top_of hash
      in obind (if growing h then growWork t bucket h else Ret h) (\<lambda>h.
           case slot_chain t key tp 0 None (buckets h ! n) of
             Hit b i \<Rightarrow>
               let c = buckets h ! n ! b ! i;
                   c = (if needkeyupdate t then c\<lparr>ckey := key\<rparr> else c)
               in Ret (set_cell n b i (c\<lparr>celem := v\<rparr>) h)
           | More ins \<Rightarrow> Spin
           | Rest ins \<Rightarrow>
               if \<not> growing h \<and> (overLoadFactor (hcount h + 1) (hB h) \<or> tooManyOverflowBuckets (noverflow h) (hB h))
               then assign_again fuel t hash key v (hashGrow t h)
               else
                 let ((b, i), h) =
                       (case ins of Some p \<Rightarrow> (p, h) | None \<Rightarrow> ((length (buckets h ! n), 0), newoverflow t n h));
                     h = set_cell n b i \<lparr>tophash = tp, ckey = key, celem = v\<rparr> h
                 in Ret (h\<lparr>hcount := hcount h + 1\<rparr>)))"

definition again_fuel :: nat where
  "again_fuel = 5"

definition mapassign ::
  "('k, 'v) maptype \<Rightarrow> ('k, 'v) hmap option \<Rightarrow> 'k \<Rightarrow> 'v \<Rightarrow> ('k, 'v) hmap outcome" where
  "mapassign t h key v =
     (case h of None \<Rightarrow> Panic ''assignment to entry in nil map''
      | Some h \<Rightarrow>
          if hash_writing h then Throw ''concurrent map writes''
          else
            let hash = hasher t key (hash0 h);
                h = h\<lparr>hash_writing := True\<rparr>;
                h = (if buckets h = [] then h\<lparr>buckets := [[empty_bmap t]]\<rparr> else h)
            in obind (assign_again again_fuel t hash key v h) (\<lambda>h.
                 if \<not> hash_writing h then Throw ''concurrent map writes'' else Ret (h\<lparr>hash_writing := False\<rparr>)))"

section \<open>Deletion\<close>

fun find_cells :: "('k, 'v) maptype \<Rightarrow> 'k \<Rightarrow> u8 \<Rightarrow> nat \<Rightarrow> nat \<Rightarrow> ('k, 'v) bmap \<Rightarrow> slot" where
  "find_cells t k tp b i [] = More None"
| "find_cells t k tp b i (c # cs) =
     (if tophash c \<noteq> tp then if tophash c = emptyRest then Rest None else find_cells t k tp b (i + 1) cs
      else if \<not> key_equal t k (ckey c) then find_cells t k tp b (i + 1) cs
      else Hit b i)"

fun find_chain :: "('k, 'v) maptype \<Rightarrow> 'k \<Rightarrow> u8 \<Rightarrow> nat \<Rightarrow> ('k, 'v) chain \<Rightarrow> (nat \<times> nat) option" where
  "find_chain t k tp b [] = None"
| "find_chain t k tp b (bm # bms) =
     (case find_cells t k tp b 0 bm of
        More _ \<Rightarrow> find_chain t k tp (b + 1) bms
      | Rest _ \<Rightarrow> None
      | Hit b i \<Rightarrow> Some (b, i))"

definition chain_top :: "('k, 'v) chain \<Rightarrow> nat \<Rightarrow> nat \<Rightarrow> u8" where
  "chain_top ch b i = tophash (ch ! b ! i)"

definition set_top :: "('k, 'v) chain \<Rightarrow> nat \<Rightarrow> nat \<Rightarrow> u8 \<Rightarrow> ('k, 'v) chain" where
  "set_top ch b i x = ch[b := (ch ! b)[i := (ch ! b ! i)\<lparr>tophash := x\<rparr>]]"

text \<open>The loop that turns a tail of \<open>emptyOne\<close> cells into \<open>emptyRest\<close>, going backwards.\<close>

function rest_loop :: "('k, 'v) chain \<Rightarrow> nat \<Rightarrow> nat \<Rightarrow> ('k, 'v) chain" where
  "rest_loop ch b i =
     (let ch = set_top ch b i emptyRest
      in if i = 0 \<and> b = 0 then ch
         else
           let (b, i) = (if i = 0 then (b - 1, bucketCnt - 1) else (b, i - 1))
           in if chain_top ch b i \<noteq> emptyOne then ch else rest_loop ch b i)"
  by pat_completeness auto
termination by (relation "measures [\<lambda>(ch, b, i). b, \<lambda>(ch, b, i). i]") (auto split: if_splits)

declare rest_loop.simps [simp del]

text \<open>The test whether the cell is followed by \<open>emptyRest\<close> only.\<close>

definition is_last :: "('k, 'v) chain \<Rightarrow> nat \<Rightarrow> nat \<Rightarrow> bool" where
  "is_last ch b i =
     (if i = bucketCnt - 1 then \<not> (b + 1 < length ch \<and> chain_top ch (b + 1) 0 \<noteq> emptyRest)
      else chain_top ch b (i + 1) = emptyRest)"

definition delete_cell :: "('k, 'v) maptype \<Rightarrow> ('k, 'v) chain \<Rightarrow> nat \<Rightarrow> nat \<Rightarrow> ('k, 'v) chain" where
  "delete_cell t ch b i =
     (let c = ch ! b ! i;
          c = (if key_ptrs t then c\<lparr>ckey := zero_key t\<rparr> else c);
          c = c\<lparr>celem := zero_elem t, tophash := emptyOne\<rparr>;
          ch = ch[b := (ch ! b)[i := c]]
      in if is_last ch b i then rest_loop ch b i else ch)"

definition mapdelete :: "('k, 'v) maptype \<Rightarrow> ('k, 'v) hmap option \<Rightarrow> 'k \<Rightarrow> ('k, 'v) hmap option outcome" where
  "mapdelete t h key =
     (case h of None \<Rightarrow> Ret None
      | Some h \<Rightarrow>
          if hcount h = 0 then Ret (Some h)
          else if hash_writing h then Throw ''concurrent map writes''
          else
            let hash = hasher t key (hash0 h);
                h = h\<lparr>hash_writing := True\<rparr>;
                bucket = hash AND bucketMask (hB h); n = unat bucket
            in obind (if growing h then growWork t bucket h else Ret h) (\<lambda>h.
                 let h = (case find_chain t key (top_of hash) 0 (buckets h ! n) of
                            None \<Rightarrow> h
                          | Some (b, i) \<Rightarrow>
                              h\<lparr>buckets := (buckets h)[n := delete_cell t (buckets h ! n) b i], hcount := hcount h - 1\<rparr>)
                 in if \<not> hash_writing h then Throw ''concurrent map writes''
                    else Ret (Some (h\<lparr>hash_writing := False\<rparr>))))"

section \<open>Clearing and making maps\<close>

definition mapclear :: "('k, 'v) maptype \<Rightarrow> ('k, 'v) hmap option \<Rightarrow> ('k, 'v) hmap option outcome" where
  "mapclear t h =
     (case h of None \<Rightarrow> Ret None
      | Some h \<Rightarrow>
          if hcount h = 0 then Ret (Some h)
          else if hash_writing h then Throw ''concurrent map writes''
          else Ret (Some (h\<lparr>same_size := False, oldbuckets := None, nevacuate := 0, noverflow := 0, hcount := 0,
                 buckets := makeBucketArray t (hB h)\<rparr>)))"

definition new_hmap :: "(nat \<Rightarrow> u32) \<Rightarrow> ('k, 'v) hmap" where
  "new_hmap rs =
     (let h = \<lparr>hcount = 0, hash_writing = False, same_size = False, hB = 0, noverflow = 0, hash0 = 0, buckets = [],
          oldbuckets = None, nevacuate = 0, rands = rs\<rparr>;
          (r, h) = fastrand h
      in h\<lparr>hash0 := r\<rparr>)"

definition makemap_small :: "(nat \<Rightarrow> u32) \<Rightarrow> ('k, 'v) hmap" where
  "makemap_small rs = new_hmap rs"

text \<open>The loop of \<open>makemap\<close> that finds \<open>B\<close>; 64 iterations are more than it takes.\<close>

fun find_B :: "nat \<Rightarrow> int \<Rightarrow> nat \<Rightarrow> nat" where
  "find_B 0 hint b = b"
| "find_B (Suc fuel) hint b = (if overLoadFactor hint b then find_B fuel hint (b + 1) else b)"

definition makemap :: "('k, 'v) maptype \<Rightarrow> u64 \<Rightarrow> (nat \<Rightarrow> u32) \<Rightarrow> ('k, 'v) hmap" where
  "makemap t hint rs =
     (let (mem, overflow) = MulUintptr hint (bucket_size t);
          hint = (if overflow \<or> maxAlloc < mem then 0 else sint hint);
          h = new_hmap rs;
          b = find_B 64 hint 0;
          h = h\<lparr>hB := b\<rparr>
      in if b \<noteq> 0 then h\<lparr>buckets := makeBucketArray t b\<rparr> else h)"

end
