(* ===== verification/Gomap_Spec.thy ===== *)
theory Gomap_Spec
  imports Gomap
begin

text \<open>
  What a bucket stands for: the multiset of the keys and elements of its live cells.  The search and
  update routines of the code walk blocks and cells; here they become operations on the flat list of
  cells, and then on the multiset.
\<close>

section \<open>Contents\<close>

definition live :: "('k, 'v) cell \<Rightarrow> bool" where
  "live c \<longleftrightarrow> minTopHash \<le> tophash c"

definition kv :: "('k, 'v) cell \<Rightarrow> 'k \<times> 'v" where
  "kv c = (ckey c, celem c)"

definition kvs :: "('k, 'v) cell list \<Rightarrow> ('k \<times> 'v) multiset" where
  "kvs cs = mset (map kv (filter live cs))"

definition matches :: "('k, 'v) maptype \<Rightarrow> 'k \<Rightarrow> ('k \<times> 'v) multiset \<Rightarrow> ('k \<times> 'v) multiset" where
  "matches t k M = filter_mset (\<lambda>x. key_equal t k (fst x)) M"

text \<open>What the code relies on: equality is an equivalence (so no key is a NaN) and respects the hash, and
  a block has room for its eight top hashes.\<close>

definition maptype_ok :: "('k, 'v) maptype \<Rightarrow> bool" where
  "maptype_ok t \<longleftrightarrow>
     (\<forall>k. key_equal t k k) \<and> (\<forall>k k'. key_equal t k k' \<longrightarrow> key_equal t k' k) \<and>
     (\<forall>a b c. key_equal t a b \<longrightarrow> key_equal t b c \<longrightarrow> key_equal t a c) \<and>
     (\<forall>k k' s. key_equal t k k' \<longrightarrow> hasher t k s = hasher t k' s) \<and>
     8 \<le> unat (bucket_size t)"

lemma maptype_okD:
  assumes "maptype_ok t"
  shows "key_equal t k k" "key_equal t a b \<Longrightarrow> key_equal t b a"
    and "key_equal t a b \<Longrightarrow> key_equal t b c \<Longrightarrow> key_equal t a c" "key_equal t a b \<Longrightarrow> hasher t a s = hasher t b s"
proof -
  note m = assms [unfolded maptype_ok_def]
  show "key_equal t k k" using m by blast
  show "key_equal t a b \<Longrightarrow> key_equal t b a" using m by blast
  show "key_equal t a b \<Longrightarrow> key_equal t b c \<Longrightarrow> key_equal t a c" using m by blast
  show "key_equal t a b \<Longrightarrow> hasher t a s = hasher t b s" using m by blast
qed

lemma kvs_simps [simp]:
  "kvs [] = {#}" "kvs (c # cs) = (if live c then add_mset (kv c) (kvs cs) else kvs cs)" "kvs (xs @ ys) = kvs xs + kvs ys"
  by (simp_all add: kvs_def)

lemma matches_simps [simp]:
  "matches t k {#} = {#}" "matches t k (M + N) = matches t k M + matches t k N"
  "matches t k (add_mset x M) = (if key_equal t k (fst x) then add_mset x (matches t k M) else matches t k M)"
  by (simp_all add: matches_def)

lemma kvs_dead: "\<forall>c\<in>set cs. \<not> live c \<Longrightarrow> kvs cs = {#}"
  by (induction cs) auto

lemma kvs_update:
  assumes "p < length cs"
  shows "kvs (cs[p := x]) + (if live (cs ! p) then {#kv (cs ! p)#} else {#}) =
    kvs cs + (if live x then {#kv x#} else {#})"
proof -
  have "kvs cs = kvs (take p cs @ cs ! p # drop (Suc p) cs)" using id_take_nth_drop [OF assms] by simp
  moreover have "kvs (cs[p := x]) = kvs (take p cs @ x # drop (Suc p) cs)"
    using assms by (simp add: upd_conv_take_nth_drop)
  ultimately show ?thesis by simp
qed

section \<open>Top hashes\<close>

lemma live_top: "tophash c = top_of h \<Longrightarrow> live c"
proof -
  have "x + 5 \<ge> 5" if "x < (5 :: u8)" for x
    using that by (simp add: word_le_nat_alt word_less_nat_alt unat_word_ariths)
  moreover assume "tophash c = top_of h"
  ultimately show ?thesis by (auto simp: live_def top_of_def Let_def not_less)
qed

lemma isEmpty_alt: "isEmpty x \<longleftrightarrow> x = 0 \<or> x = 1"
proof -
  have "x \<le> 1 \<longleftrightarrow> unat x \<le> 1" by (simp add: word_le_nat_alt)
  also have "\<dots> \<longleftrightarrow> unat x = 0 \<or> unat x = 1" by auto
  also have "\<dots> \<longleftrightarrow> x = 0 \<or> x = 1" by (auto simp: word_unat_eq_iff)
  finally show ?thesis by (simp add: isEmpty_def)
qed

lemma not_live_empty: "isEmpty (tophash c) \<Longrightarrow> \<not> live c"
  by (auto simp: isEmpty_alt live_def word_le_nat_alt)

lemma top_of_not_empty: "\<not> isEmpty (top_of h)"
  using not_live_empty [of "\<lparr>tophash = top_of h, ckey = undefined, celem = undefined\<rparr>"]
    live_top [of "\<lparr>tophash = top_of h, ckey = undefined, celem = undefined\<rparr>"] by auto

section \<open>Well-formed lists of cells\<close>

definition rest_ok :: "('k, 'v) cell list \<Rightarrow> bool" where
  "rest_ok = sorted_wrt (\<lambda>c d. tophash c = emptyRest \<longrightarrow> tophash d = emptyRest)"

text \<open>\<open>m\<close> is the mask of the array and \<open>n\<close> the number of the bucket.\<close>

definition cell_ok :: "('k, 'v) maptype \<Rightarrow> u32 \<Rightarrow> u64 \<Rightarrow> nat \<Rightarrow> ('k, 'v) cell \<Rightarrow> bool" where
  "cell_ok t s m n c \<longleftrightarrow> isEmpty (tophash c) \<or>
     tophash c = top_of (hasher t (ckey c) s) \<and> unat (hasher t (ckey c) s AND m) = n"

definition cells_ok :: "('k, 'v) maptype \<Rightarrow> u32 \<Rightarrow> u64 \<Rightarrow> nat \<Rightarrow> ('k, 'v) cell list \<Rightarrow> bool" where
  "cells_ok t s m n cs \<longleftrightarrow> rest_ok cs \<and> (\<forall>c\<in>set cs. cell_ok t s m n c)"

definition blocks :: "('k, 'v) chain \<Rightarrow> bool" where
  "blocks ch \<longleftrightarrow> ch \<noteq> [] \<and> (\<forall>b\<in>set ch. length b = bucketCnt)"

lemma cells_ok_Cons:
  "cells_ok t s m n (c # cs) \<longleftrightarrow>
     cell_ok t s m n c \<and> (tophash c = emptyRest \<longrightarrow> (\<forall>d\<in>set cs. tophash d = emptyRest)) \<and> cells_ok t s m n cs"
  by (auto simp: cells_ok_def rest_ok_def)

lemma cells_rest_dead: "\<forall>d\<in>set cs. tophash d = emptyRest \<Longrightarrow> kvs cs = {#}"
  by (intro kvs_dead) (auto simp: live_def)

lemma cell_live_iff: "cell_ok t s m n c \<Longrightarrow> live c \<longleftrightarrow> \<not> isEmpty (tophash c)"
  by (auto simp: cell_ok_def top_of_not_empty dest: not_live_empty live_top)

lemma cell_match:
  assumes "maptype_ok t" "cell_ok t s m n c" "live c" "key_equal t k (ckey c)"
  shows "tophash c = top_of (hasher t k s)"
  using assms maptype_okD(4) [OF assms(1,4)] cell_live_iff [OF assms(2)] by (auto simp: cell_ok_def)

section \<open>Chains as flat lists\<close>

text \<open>Cell \<open>i\<close> of block \<open>b\<close> is cell \<open>8 * b + i\<close> of the flat list.\<close>

lemma blocks_len: "\<forall>b\<in>set ch. length b = 8 \<Longrightarrow> length (concat ch) = 8 * length ch"
  by (induction ch) auto

lemma flat_nth:
  "\<forall>b\<in>set ch. length b = 8 \<Longrightarrow> b < length ch \<Longrightarrow> i < 8 \<Longrightarrow> concat ch ! (8 * b + i) = ch ! b ! i"
  by (induction ch arbitrary: b) (auto simp: nth_append nth_Cons split: nat.splits)

lemma flat_upd:
  "\<forall>b\<in>set ch. length b = 8 \<Longrightarrow> b < length ch \<Longrightarrow> i < 8 \<Longrightarrow>
    concat (ch[b := (ch ! b)[i := c]]) = (concat ch)[8 * b + i := c]"
  by (induction ch arbitrary: b) (auto simp: list_update_append nth_Cons split: nat.splits)

lemma blocks_upd: "blocks ch \<Longrightarrow> b < length ch \<Longrightarrow> blocks (ch[b := (ch ! b)[i := c]])"
  by (auto simp: blocks_def dest!: set_update_subset_insert [THEN subsetD])

lemma blocks_flat:
  assumes "blocks ch" "b < length ch" "i < 8"
  shows "concat ch ! (8 * b + i) = ch ! b ! i" "8 * b + i < length (concat ch)"
    "concat (ch[b := (ch ! b)[i := c]]) = (concat ch)[8 * b + i := c]"
  using assms flat_nth flat_upd blocks_len [of ch] by (fastforce simp: blocks_def)+

lemma flat_pos:
  assumes "blocks ch" "p < length (concat ch)"
  obtains b i where "p = 8 * b + i" "b < length ch" "i < 8" "b = p div 8" "i = p mod 8"
proof
  show "p div 8 < length ch" using assms blocks_len [of ch] by (auto simp: blocks_def less_mult_imp_div_less)
qed auto

lemma set_top_flat:
  assumes "blocks ch" "b < length ch" "i < 8"
  shows "concat (set_top ch b i x) = (concat ch)[8 * b + i := (concat ch ! (8 * b + i))\<lparr>tophash := x\<rparr>]"
    "blocks (set_top ch b i x)" "length (set_top ch b i x) = length ch"
  using assms by (simp_all add: set_top_def blocks_flat blocks_upd)

section \<open>Searching\<close>

lemma top_nz: "top_of h \<noteq> 0"
  using top_of_not_empty [of h] by (auto simp: isEmpty_alt)

lemma scan_append:
  "scan_cells t k tp (xs @ ys) = (case scan_cells t k tp xs of NextBlock \<Rightarrow> scan_cells t k tp ys | r \<Rightarrow> r)"
  by (induction xs) auto

lemma scan_chain_flat:
  "scan_chain t k tp ch = (case scan_cells t k tp (concat ch) of Found k' v \<Rightarrow> Some (k', v) | _ \<Rightarrow> None)"
  by (induction ch) (auto simp: scan_append split: scan.splits)

lemma cells_skip:
  assumes "maptype_ok t" "cell_ok t s m n c"
    and "\<not> (tophash c = top_of (hasher t k s) \<and> key_equal t k (ckey c))"
  shows "matches t k (kvs (c # cs)) = matches t k (kvs cs)"
  using cell_match [OF assms(1,2), of k] assms(3) by (auto simp: kv_def)

lemma cells_hit:
  assumes "tophash c = top_of h" "key_equal t k (ckey c)"
  shows "matches t k (kvs (c # cs)) = add_mset (kv c) (matches t k (kvs cs))"
  using assms live_top [of c h] by (auto simp: kv_def)

lemma scan_cells_spec:
  assumes "maptype_ok t" "cells_ok t s m n cs"
  shows "(matches t k (kvs cs) = {#} \<longrightarrow> scan_cells t k (top_of (hasher t k s)) cs \<in> {StopRest, NextBlock}) \<and>
    (\<forall>x. matches t k (kvs cs) = {#x#} \<longrightarrow> scan_cells t k (top_of (hasher t k s)) cs = Found (fst x) (snd x))"
  using assms(2)
proof (induction cs)
  case (Cons c cs)
  note ok = Cons.prems [unfolded cells_ok_Cons]
  show ?case
  proof (cases "tophash c = top_of (hasher t k s) \<and> key_equal t k (ckey c)")
    case True
    then show ?thesis using cells_hit [of c "hasher t k s" t k cs] by (auto simp: kv_def)
  next
    case False
    note skip = cells_skip [OF assms(1) conjunct1 [OF ok] False]
    show ?thesis
    proof (cases "tophash c = 0")
      case True
      then have "kvs cs = {#}" using ok cells_rest_dead by blast
      then show ?thesis using True top_nz [of "hasher t k s"] False skip by auto
    next
      case nz: False
      then have "scan_cells t k (top_of (hasher t k s)) (c # cs) = scan_cells t k (top_of (hasher t k s)) cs"
        using False by auto
      then show ?thesis using Cons.IH ok skip by simp
    qed
  qed
qed simp

lemma scan_chain_spec:
  assumes "maptype_ok t" "cells_ok t s m n (concat ch)"
    and "matches t k (kvs (concat ch)) = (case r of None \<Rightarrow> {#} | Some x \<Rightarrow> {#x#})"
  shows "scan_chain t k (top_of (hasher t k s)) ch = r"
  using scan_cells_spec [OF assms(1,2), of k] assms(3) by (cases r) (auto simp: scan_chain_flat)

text \<open>The search of \<open>mapassign\<close> on a flat list.\<close>

datatype fslot = FHit nat | FRest "nat option" | FMore "nat option"

fun slot_flat :: "('k, 'v) maptype \<Rightarrow> 'k \<Rightarrow> u8 \<Rightarrow> nat \<Rightarrow> nat option \<Rightarrow> ('k, 'v) cell list \<Rightarrow> fslot" where
  "slot_flat t k tp p ins [] = FMore ins"
| "slot_flat t k tp p ins (c # cs) =
     (if tophash c \<noteq> tp then
        let ins = (if isEmpty (tophash c) \<and> ins = None then Some p else ins)
        in if tophash c = emptyRest then FRest ins else slot_flat t k tp (p + 1) ins cs
      else if \<not> key_equal t k (ckey c) then slot_flat t k tp (p + 1) ins cs
      else FHit p)"

fun to_slot :: "fslot \<Rightarrow> slot" where
  "to_slot (FHit p) = Hit (p div 8) (p mod 8)"
| "to_slot (FRest ins) = Rest (map_option (\<lambda>p. (p div 8, p mod 8)) ins)"
| "to_slot (FMore ins) = More (map_option (\<lambda>p. (p div 8, p mod 8)) ins)"

lemma slot_cells_flat:
  "i + length cs = 8 \<Longrightarrow>
    slot_cells t k tp b i (map_option (\<lambda>p. (p div 8, p mod 8)) ins) cs = to_slot (slot_flat t k tp (8 * b + i) ins cs)"
proof (induction cs arbitrary: i ins)
  case (Cons c cs)
  have i: "i < 8" "Suc i + length cs = 8" using Cons.prems by auto
  have "map_option (\<lambda>p. (p div 8, p mod 8)) (Some (8 * b + i)) = Some (b, i)" using i by simp
  then show ?case
    using Cons.IH [OF i(2), of ins] Cons.IH [OF i(2), of "Some (8 * b + i)"] i by (auto simp: Let_def)
qed simp

lemma slot_flat_append:
  "slot_flat t k tp p ins (xs @ ys) =
    (case slot_flat t k tp p ins xs of FMore ins \<Rightarrow> slot_flat t k tp (p + length xs) ins ys | r \<Rightarrow> r)"
  by (induction xs arbitrary: p ins) (auto simp: Let_def split: fslot.split)

lemma slot_chain_flat_from:
  "\<forall>b\<in>set ch. length b = 8 \<Longrightarrow>
    slot_chain t k tp b (map_option (\<lambda>p. (p div 8, p mod 8)) ins) ch =
      (case to_slot (slot_flat t k tp (8 * b) ins (concat ch)) of More ins \<Rightarrow> Rest ins | r \<Rightarrow> r)"
proof (induction ch arbitrary: b ins)
  case (Cons bm bms)
  have "slot_cells t k tp b 0 (map_option (\<lambda>p. (p div 8, p mod 8)) ins) bm = to_slot (slot_flat t k tp (8 * b) ins bm)"
    using Cons.prems slot_cells_flat [of 0 bm] by simp
  moreover have "slot_chain t k tp (Suc b) (map_option (\<lambda>p. (p div 8, p mod 8)) ins') bms =
      (case to_slot (slot_flat t k tp (8 * b + 8) ins' (concat bms)) of More ins \<Rightarrow> Rest ins | r \<Rightarrow> r)" for ins'
    using Cons.IH [of "Suc b" ins'] Cons.prems by (simp add: algebra_simps)
  ultimately show ?case using Cons.prems
    by (cases "slot_flat t k tp (8 * b) ins bm") (auto simp: slot_flat_append)
qed simp

lemma slot_chain_flat:
  assumes "blocks ch"
  shows "slot_chain t k tp 0 None ch =
    (case slot_flat t k tp 0 None (concat ch) of
       FHit p \<Rightarrow> Hit (p div 8) (p mod 8)
     | FRest ins \<Rightarrow> Rest (map_option (\<lambda>p. (p div 8, p mod 8)) ins)
     | FMore ins \<Rightarrow> Rest (map_option (\<lambda>p. (p div 8, p mod 8)) ins))"
  using slot_chain_flat_from [of ch t k tp 0 None] assms by (auto simp: blocks_def split: fslot.splits)

text \<open>What the search finds: the position of the key, or that it is absent and the first empty cell.\<close>

definition first_empty :: "('k, 'v) cell list \<Rightarrow> nat option \<Rightarrow> bool" where
  "first_empty cs ins \<longleftrightarrow>
     (case ins of
        None \<Rightarrow> \<forall>c\<in>set cs. \<not> isEmpty (tophash c)
      | Some p \<Rightarrow> p < length cs \<and> isEmpty (tophash (cs ! p)) \<and> (\<forall>j<p. \<not> isEmpty (tophash (cs ! j))))"

definition slot_ok :: "('k, 'v) maptype \<Rightarrow> 'k \<Rightarrow> u8 \<Rightarrow> ('k, 'v) cell list \<Rightarrow> fslot \<Rightarrow> bool" where
  "slot_ok t k tp cs r \<longleftrightarrow>
     (case r of
        FHit p \<Rightarrow> p < length cs \<and> tophash (cs ! p) = tp \<and> key_equal t k (ckey (cs ! p))
      | FRest ins \<Rightarrow> matches t k (kvs cs) = {#} \<and> first_empty cs ins
      | FMore ins \<Rightarrow> matches t k (kvs cs) = {#} \<and> first_empty cs ins)"

text \<open>The cells the loop has passed: no match, and the first empty one noted.\<close>

lemma first_empty_snoc:
  assumes "first_empty cs ins" "\<not> isEmpty (tophash c) \<or> ins \<noteq> None"
  shows "first_empty (cs @ c # ds) ins \<or> ins = None" "first_empty (cs @ [c]) ins"
  using assms by (auto simp: first_empty_def nth_append split: option.splits)

lemma first_empty_here:
  assumes "first_empty cs None" "isEmpty (tophash c)"
  shows "first_empty (cs @ c # ds) (Some (length cs))"
  using assms by (auto simp: first_empty_def nth_append)

lemma first_empty_more: "first_empty cs (Some p) \<Longrightarrow> first_empty (cs @ ds) (Some p)"
  by (auto simp: first_empty_def nth_append)

lemma slot_flat_from:
  assumes "maptype_ok t" "cells_ok t s m n cs" "first_empty pre ins" "matches t k (kvs pre) = {#}"
  shows "slot_ok t k (top_of (hasher t k s)) (pre @ cs) (slot_flat t k (top_of (hasher t k s)) (length pre) ins cs)"
  using assms(2-4)
proof (induction cs arbitrary: pre ins)
  case (Cons c cs)
  let ?tp = "top_of (hasher t k s)"
  note ok = Cons.prems(1) [unfolded cells_ok_Cons]
  show ?case
  proof (cases "tophash c = ?tp \<and> key_equal t k (ckey c)")
    case True
    then show ?thesis by (simp add: slot_ok_def)
  next
    case False
    note skip = cells_skip [OF assms(1) conjunct1 [OF ok] False]
    define ins' where "ins' = (if isEmpty (tophash c) \<and> ins = None then Some (length pre) else ins)"
    have fe: "first_empty (pre @ [c]) ins'"
      using Cons.prems(2) first_empty_here [of pre c "[]"] first_empty_snoc(2) [of pre ins c] by (auto simp: ins'_def)
    have mt: "matches t k (kvs (pre @ [c])) = {#}" using Cons.prems(3) skip [of "[]"] by simp
    show ?thesis
    proof (cases "tophash c = 0")
      case True
      then have "kvs cs = {#}" using ok cells_rest_dead by blast
      moreover have "ins' \<noteq> None" using True by (auto simp: ins'_def isEmpty_alt)
      ultimately have "slot_ok t k ?tp ((pre @ [c]) @ cs) (FRest ins')"
        using fe mt first_empty_more [of "pre @ [c]" _ cs] by (auto simp: slot_ok_def)
      then show ?thesis using True top_nz [of "hasher t k s"] by (simp add: ins'_def)
    next
      case nz: False
      then have "slot_flat t k ?tp (length pre) ins (c # cs) = slot_flat t k ?tp (Suc (length pre)) ins' cs"
        using False top_of_not_empty [of "hasher t k s"] by (auto simp: ins'_def)
      then show ?thesis using Cons.IH [OF _ fe mt] ok by simp
    qed
  qed
qed (simp add: slot_ok_def)

lemma slot_flat_spec:
  assumes "maptype_ok t" "cells_ok t s m n cs"
  shows "slot_ok t k (top_of (hasher t k s)) cs (slot_flat t k (top_of (hasher t k s)) 0 None cs)"
  using slot_flat_from [OF assms, of "[]" None k] by (simp add: first_empty_def)

section \<open>Changing a chain\<close>

lemma rest_ok_nth:
  "rest_ok cs \<longleftrightarrow> (\<forall>i j. i < j \<longrightarrow> j < length cs \<longrightarrow> tophash (cs ! i) = 0 \<longrightarrow> tophash (cs ! j) = 0)"
  by (auto simp: rest_ok_def sorted_wrt_iff_nth_less)

lemma cells_ok_upd:
  assumes "cells_ok t s m n cs" "p < length cs" "cell_ok t s m n c"
    and "tophash c \<noteq> 0" "\<forall>j<p. tophash (cs ! j) \<noteq> 0"
  shows "cells_ok t s m n (cs[p := c])"
  using assms set_update_subset_insert [of cs p c] by (auto simp: cells_ok_def rest_ok_nth nth_list_update)

lemma cells_ok_upd_rest:
  assumes "cells_ok t s m n cs" "p < length cs" "tophash c = 0" "\<forall>j. p < j \<longrightarrow> j < length cs \<longrightarrow> tophash (cs ! j) = 0"
  shows "cells_ok t s m n (cs[p := c])"
  using assms set_update_subset_insert [of cs p c]
  by (auto simp: cells_ok_def rest_ok_nth nth_list_update cell_ok_def isEmpty_alt)

lemma cells_ok_before:
  assumes "cells_ok t s m n cs" "p < length cs" "tophash (cs ! p) \<noteq> 0" "j < p"
  shows "tophash (cs ! j) \<noteq> 0"
  using assms by (auto simp: cells_ok_def rest_ok_nth)

lemma cells_ok_app:
  assumes "cells_ok t s m n cs" "\<forall>c\<in>set cs. \<not> isEmpty (tophash c)" "cells_ok t s m n ds"
  shows "cells_ok t s m n (cs @ ds)"
  using assms by (auto simp: cells_ok_def rest_ok_def sorted_wrt_append isEmpty_alt)

lemma kvs_put:
  assumes "p < length cs" "\<not> live (cs ! p)" "live x"
  shows "kvs (cs[p := x]) = add_mset (kv x) (kvs cs)"
  using kvs_update [OF assms(1), of x] assms(2,3) by auto

lemma kvs_del:
  assumes "p < length cs" "\<not> live x"
  shows "kvs cs = (if live (cs ! p) then add_mset (kv (cs ! p)) (kvs (cs[p := x])) else kvs (cs[p := x]))"
  using kvs_update [OF assms(1), of x] assms(2) by auto

section \<open>Deleting\<close>

lemma find_slot_cells:
  "find_cells t k tp b i cs =
    (case slot_cells t k tp b i ins cs of Hit b i \<Rightarrow> Hit b i | Rest _ \<Rightarrow> Rest None | More _ \<Rightarrow> More None)"
  by (induction cs arbitrary: i ins) (auto simp: Let_def)

lemma find_slot_chain:
  "find_chain t k tp b ch = (case slot_chain t k tp b ins ch of Hit b i \<Rightarrow> Some (b, i) | _ \<Rightarrow> None)"
proof (induction ch arbitrary: b ins)
  case (Cons bm bms)
  show ?case
    by (cases "slot_cells t k tp b 0 ins bm")
      (simp_all add: find_slot_cells [of t k tp b 0 bm ins] Cons.IH [of "Suc b"] del: split_paired_Ex)
qed simp

lemma rest_loop_flat:
  assumes "blocks ch" "b < length ch" "i < 8" "cells_ok t s m n (concat ch)"
    and "isEmpty (tophash (ch ! b ! i))" "\<forall>j. 8 * b + i < j \<longrightarrow> j < length (concat ch) \<longrightarrow> tophash (concat ch ! j) = 0"
  shows "blocks (rest_loop ch b i) \<and> cells_ok t s m n (concat (rest_loop ch b i)) \<and>
    kvs (concat (rest_loop ch b i)) = kvs (concat ch) \<and> length (rest_loop ch b i) = length ch"
  using assms
proof (induction ch b i rule: rest_loop.induct)
  case (1 ch b i)
  let ?ch = "set_top ch b i 0" and ?p = "8 * b + i"
  note pos = "1.prems"(1-3)
  note flat = blocks_flat(1,2) [OF pos]
  have ch: "blocks ?ch" "length ?ch = length ch"
    and eq: "concat ?ch = (concat ch)[?p := (concat ch ! ?p)\<lparr>tophash := 0\<rparr>]"
    using set_top_flat [OF pos] by simp_all
  have dead: "\<not> live (concat ch ! ?p)" "\<not> live ((concat ch ! ?p)\<lparr>tophash := 0\<rparr>)"
    using not_live_empty [of "concat ch ! ?p"] not_live_empty [of "(concat ch ! ?p)\<lparr>tophash := 0\<rparr>"] "1.prems"(5) flat(1)
    by (simp_all add: isEmpty_alt)
  have kvs: "kvs (concat ?ch) = kvs (concat ch)"
    unfolding eq using kvs_update [OF flat(2)] dead by simp
  have cells: "cells_ok t s m n (concat ?ch)"
    unfolding eq using cells_ok_upd_rest [OF "1.prems"(4) flat(2)] "1.prems"(6) by simp
  show ?case
  proof (cases "i = 0 \<and> b = 0")
    case True
    then show ?thesis using ch kvs cells by (simp add: rest_loop.simps [of ch 0 0] Let_def)
  next
    case False
    obtain b' i' where p': "(b', i') = (if i = 0 then (b - 1, 7) else (b, i - 1))" by (metis surj_pair)
    have in': "b' < length ?ch" "i' < 8" "8 * b' + i' + 1 = ?p" using p' False pos ch by (auto split: if_splits)
    have eq': "rest_loop ch b i = (if chain_top ?ch b' i' \<noteq> 1 then ?ch else rest_loop ?ch b' i')"
      using False p' by (auto simp: rest_loop.simps [of ch b i] Let_def split: if_splits)
    show ?thesis
    proof (cases "chain_top ?ch b' i' = 1")
      case False
      then show ?thesis using eq' ch kvs cells by simp
    next
      case True
      have "\<forall>j. 8 * b' + i' < j \<longrightarrow> j < length (concat ?ch) \<longrightarrow> tophash (concat ?ch ! j) = 0"
        using "1.prems"(6) in'(3) by (auto simp: eq nth_list_update)
      moreover have "isEmpty (tophash (?ch ! b' ! i'))" using True by (simp add: chain_top_def isEmpty_alt)
      ultimately have "blocks (rest_loop ?ch b' i') \<and> cells_ok t s m n (concat (rest_loop ?ch b' i')) \<and>
          kvs (concat (rest_loop ?ch b' i')) = kvs (concat ?ch) \<and> length (rest_loop ?ch b' i') = length ?ch"
        using "1.IH" [OF refl False _ _ _ ch(1) in'(1,2) cells] p' True by auto
      then show ?thesis using eq' True kvs ch by simp
    qed
  qed
qed

lemma is_last_flat:
  assumes "blocks ch" "b < length ch" "i < 8" "rest_ok (concat ch)" "is_last ch b i" "8 * b + i < j" "j < length (concat ch)"
  shows "tophash (concat ch ! j) = 0"
proof -
  have len: "length (concat ch) = 8 * length ch" using assms(1) blocks_len by (auto simp: blocks_def)
  have after: "tophash (concat ch ! (8 * b + i + 1)) = 0"
  proof (cases "i = 7")
    case True
    then have "b + 1 < length ch" using assms(6,7) len by simp
    then show ?thesis using assms(5) True blocks_flat(1) [OF assms(1), of "b + 1" 0]
      by (simp add: is_last_def chain_top_def algebra_simps)
  next
    case False
    then show ?thesis using assms(3,5) blocks_flat(1) [OF assms(1,2), of "i + 1"]
      by (simp add: is_last_def chain_top_def)
  qed
  show ?thesis
  proof (cases "j = 8 * b + i + 1")
    case False
    then show ?thesis
      using after assms(6,7) assms(4) [unfolded rest_ok_nth, rule_format, of "8 * b + i + 1" j] by simp
  qed (use after in simp)
qed

lemma delete_cell_flat:
  assumes "blocks ch" "b < length ch" "i < 8" "cells_ok t s m n (concat ch)" "live (ch ! b ! i)"
  shows "blocks (delete_cell t ch b i) \<and> cells_ok t s m n (concat (delete_cell t ch b i)) \<and>
    kvs (concat ch) = add_mset (kv (ch ! b ! i)) (kvs (concat (delete_cell t ch b i))) \<and>
    length (delete_cell t ch b i) = length ch"
proof -
  obtain c where c: "tophash c = 1" and eq: "delete_cell t ch b i =
      (let ch = ch[b := (ch ! b)[i := c]] in if is_last ch b i then rest_loop ch b i else ch)"
    by (rule that [of "(if key_ptrs t then (ch ! b ! i)\<lparr>ckey := zero_key t\<rparr> else ch ! b ! i)
        \<lparr>celem := zero_elem t, tophash := 1\<rparr>"]) (simp_all add: delete_cell_def Let_def)
  let ?ch = "ch[b := (ch ! b)[i := c]]" and ?p = "8 * b + i"
  note flat = blocks_flat [OF assms(1-3)]
  have dead: "\<not> live c" "isEmpty (tophash c)" using c not_live_empty [of c] by (simp_all add: isEmpty_alt)
  have "tophash (concat ch ! ?p) \<noteq> 0" using assms(5) not_live_empty flat(1) by (auto simp: isEmpty_alt)
  then have cells: "cells_ok t s m n (concat ?ch)"
    using cells_ok_upd [OF assms(4) flat(2), of c] cells_ok_before [OF assms(4) flat(2)] c dead
    by (auto simp: flat(3) cell_ok_def)
  have kvs: "kvs (concat ch) = add_mset (kv (ch ! b ! i)) (kvs (concat ?ch))"
    using kvs_del [OF flat(2) dead(1)] assms(5) by (simp add: flat)
  have bl: "blocks ?ch" using blocks_upd [OF assms(1,2)] .
  show ?thesis
  proof (cases "is_last ?ch b i")
    case True
    have "isEmpty (tophash (?ch ! b ! i))" using assms(1-3) dead by (auto simp: blocks_def)
    then show ?thesis using rest_loop_flat [OF bl _ assms(3) cells] True kvs bl assms(2,3)
        is_last_flat [OF bl _ assms(3) _ True] cells by (simp add: eq cells_ok_def)
  qed (use cells kvs bl in \<open>simp add: eq\<close>)
qed

end
