(* ===== verification/Gomap_Grow.thy ===== *)
theory Gomap_Grow
  imports Gomap_Spec
begin

text \<open>
  Growing a map: moving the cells of an old bucket to one or two new ones keeps the contents of the map
  and puts every key where a search of the new array looks for it.
\<close>

section \<open>Numbers of buckets\<close>

definition idx :: "nat \<Rightarrow> u64 \<Rightarrow> nat" where
  "idx b x = unat (x AND bucketMask b)"

lemma bucketShift_exp: "b < 64 \<Longrightarrow> bucketShift b = 2 ^ b"
  by (simp add: bucketShift_def push_bit_eq_mult)

lemma bucketMask_mask: "b < 64 \<Longrightarrow> bucketMask b = mask b"
  by (simp add: bucketMask_def bucketShift_exp mask_eq_exp_minus_1)

lemma unat_bucketShift: "b < 64 \<Longrightarrow> unat (bucketShift b) = 2 ^ b"
proof -
  assume b: "b < 64"
  have "unat (of_nat (2 ^ b) :: u64) = 2 ^ b" 
    using b power_strict_increasing [of b 64 "2 :: nat"] by (subst unat_of_nat) simp
  then show ?thesis using b by (simp add: bucketShift_exp)
qed

lemma idx_take_bit: "b < 64 \<Longrightarrow> idx b x = take_bit b (unat x)"
  by (simp add: idx_def bucketMask_mask flip: take_bit_eq_mask unsigned_take_bit_eq)

lemma idx_less: "b < 64 \<Longrightarrow> idx b x < 2 ^ b"
  by (simp add: idx_take_bit)

lemma idx_double:
  assumes "b + 1 < 64"
  shows "idx (b + 1) x = idx b x + (if x AND bucketShift b \<noteq> 0 then 2 ^ b else 0)"
proof -
  have "x AND bucketShift b \<noteq> 0 \<longleftrightarrow> bit x b"
    using assms by (simp add: bucketShift_exp bit_iff_and_push_bit_not_eq_0 push_bit_eq_mult)
  also have "\<dots> \<longleftrightarrow> bit (unat x) b" using assms by (simp add: bit_unsigned_iff)
  finally show ?thesis using assms by (auto simp: idx_take_bit take_bit_Suc_from_most)
qed

lemma idx_mask: "b \<le> B \<Longrightarrow> B < 64 \<Longrightarrow> unat ((x AND bucketMask B) AND bucketMask b) = idx b x"
  by (simp add: idx_def bucketMask_mask min_absorb1 flip: take_bit_eq_mask)

section \<open>Overflow blocks\<close>

definition zero_cell :: "('k, 'v) maptype \<Rightarrow> ('k, 'v) cell" where
  "zero_cell t = \<lparr>tophash = emptyRest, ckey = zero_key t, celem = zero_elem t\<rparr>"

lemma empty_bmap_alt: "empty_bmap t = replicate 8 (zero_cell t)"
  by (simp add: empty_bmap_def zero_cell_def)

lemma zero_cell_dead: "tophash (zero_cell t) = 0" "\<not> live (zero_cell t)" "isEmpty (tophash (zero_cell t))"
  by (simp_all add: zero_cell_def live_def isEmpty_def)

definition ovf :: "('k, 'v) chain list \<Rightarrow> nat" where
  "ovf chs = sum_list (map (\<lambda>ch. length ch - 1) chs)"

lemma ovf_update: "n < length chs \<Longrightarrow> ovf (chs[n := ch]) + (length (chs ! n) - 1) = ovf chs + (length ch - 1)"
proof (induction chs arbitrary: n)
  case (Cons c chs)
  then show ?case by (cases n) (auto simp: ovf_def)
qed simp

text \<open>Operations that change nothing but new buckets and what counts them.\<close>

definition only_new :: "('k, 'v) hmap \<Rightarrow> ('k, 'v) hmap \<Rightarrow> bool" where
  "only_new h h' \<longleftrightarrow> hcount h' = hcount h \<and> hash_writing h' = hash_writing h \<and> same_size h' = same_size h \<and>
     hB h' = hB h \<and> hash0 h' = hash0 h \<and> oldbuckets h' = oldbuckets h \<and> nevacuate h' = nevacuate h \<and>
     length (buckets h') = length (buckets h)"

lemma only_new_trans: "only_new h h' \<Longrightarrow> only_new h' h'' \<Longrightarrow> only_new h h''"
  by (simp add: only_new_def)

lemma incrnoverflow_only:
  "only_new h (incrnoverflow h)" "buckets (incrnoverflow h) = buckets h"
  "unat (noverflow (incrnoverflow h)) \<le> Suc (unat (noverflow h))"
proof -
  have "unat (x + 1) \<le> Suc (unat x)" for x :: u16 by (simp add: unat_word_ariths)
  then show "only_new h (incrnoverflow h)" "buckets (incrnoverflow h) = buckets h"
    "unat (noverflow (incrnoverflow h)) \<le> Suc (unat (noverflow h))"
    by (auto simp: incrnoverflow_def only_new_def fastrand_def Let_def)
qed

lemma newoverflow_only:
  "only_new h (newoverflow t n h)" "buckets (newoverflow t n h) = (buckets h)[n := buckets h ! n @ [empty_bmap t]]"
  "unat (noverflow (newoverflow t n h)) \<le> Suc (unat (noverflow h))"
proof -
  let ?h = "h\<lparr>buckets := (buckets h)[n := buckets h ! n @ [empty_bmap t]]\<rparr>"
  have "only_new h ?h" by (simp add: only_new_def)
  then show "only_new h (newoverflow t n h)" unfolding newoverflow_def
    by (rule only_new_trans) (rule incrnoverflow_only)
  show "buckets (newoverflow t n h) = (buckets h)[n := buckets h ! n @ [empty_bmap t]]"
    "unat (noverflow (newoverflow t n h)) \<le> Suc (unat (noverflow h))"
    using incrnoverflow_only(2,3) [of ?h] by (simp_all add: newoverflow_def)
qed

lemmas [frame_simps] = newoverflow_only(1,2)

lemma set_cell_only [frame_simps]:
  "only_new h (set_cell n b i c h)" "noverflow (set_cell n b i c h) = noverflow h"
  "buckets (set_cell n b i c h) = (buckets h)[n := (buckets h ! n)[b := (buckets h ! n ! b)[i := c]]]"
  by (simp_all add: set_cell_def only_new_def)

section \<open>The bucket that evacuation fills\<close>

text \<open>The cells \<open>L\<close> have been put into a chain, \<open>i\<close> of them into its last block.\<close>

definition dest :: "('k, 'v) maptype \<Rightarrow> ('k, 'v) cell list \<Rightarrow> ('k, 'v) chain \<Rightarrow> nat \<Rightarrow> bool" where
  "dest t L ch i \<longleftrightarrow> blocks ch \<and> (\<forall>c\<in>set L. live c) \<and> i \<le> 8 \<and> length L + 8 = 8 * length ch + i \<and>
     concat ch = L @ replicate (8 - i) (zero_cell t)"

lemma dest_start: "dest t [] [empty_bmap t] 0"
  by (simp add: dest_def blocks_def empty_bmap_alt)

lemma dest_grow:
  assumes "dest t L ch 8"
  shows "dest t L (ch @ [empty_bmap t]) 0"
  using assms by (auto simp: dest_def blocks_def empty_bmap_alt)

lemma dest_put:
  assumes "dest t L ch i" "i < 8" "live c" "b = length ch - 1"
  shows "dest t (L @ [c]) (ch[b := (ch ! b)[i := c]]) (i + 1)"
proof -
  have d: "blocks ch" "concat ch = L @ replicate (8 - i) (zero_cell t)" "length L + 8 = 8 * length ch + i"
    using assms(1) by (auto simp: dest_def)
  have "length ch = Suc b" using d(1) assms(4) by (cases ch) (auto simp: blocks_def)
  then have b: "b < length ch" "8 * b + i = length L" using d(3) by auto
  have r: "replicate (8 - i) (zero_cell t) = zero_cell t # replicate (8 - (i + 1)) (zero_cell t)"
    using assms(2) by (metis Suc_diff_Suc Suc_eq_plus1 replicate_Suc)
  have "concat (ch[b := (ch ! b)[i := c]]) = (concat ch)[length L := c]"
    using blocks_flat(3) [OF d(1) b(1) assms(2)] b(2) by simp
  also have "\<dots> = (L @ [c]) @ replicate (8 - (i + 1)) (zero_cell t)" using d(2) r by simp
  finally show ?thesis
    using assms blocks_upd [OF d(1) b(1)] d(3) by (auto simp: dest_def)
qed

lemma evac_put_dest:
  assumes "evac_put t c d h = (d', h')" "dst_b d < length (buckets h)" "dest t L (buckets h ! dst_b d) (dst_i d)"
    and "live c" "unat (noverflow h) \<le> ovf (buckets h)"
  shows "dst_b d' = dst_b d \<and> only_new h h' \<and> dest t (L @ [c]) (buckets h' ! dst_b d) (dst_i d') \<and>
    (\<forall>j. j \<noteq> dst_b d \<longrightarrow> buckets h' ! j = buckets h ! j) \<and> unat (noverflow h') \<le> ovf (buckets h')"
proof -
  let ?n = "dst_b d"
  define d1 h1 where "d1 = (if dst_i d = 8 then d\<lparr>dst_i := 0\<rparr> else d)"
    and "h1 = (if dst_i d = 8 then newoverflow t ?n h else h)"
  have ne: "buckets h ! ?n \<noteq> []" using assms(3) by (auto simp: dest_def blocks_def)
  have d1: "dst_b d1 = ?n" "dst_i d1 < 8" "dest t L (buckets h1 ! ?n) (dst_i d1)" "only_new h h1"
    "\<forall>j. j \<noteq> ?n \<longrightarrow> buckets h1 ! j = buckets h ! j"
    using assms(2,3) dest_grow [of t L "buckets h ! ?n"]
    by (auto simp: d1_def h1_def frame_simps) (auto simp: dest_def only_new_def)
  have o1: "unat (noverflow h1) \<le> ovf (buckets h1)"
    using assms(5) newoverflow_only(3) [of t ?n h] ovf_update [OF assms(2), of "buckets h ! ?n @ [empty_bmap t]"] ne
    by (cases "length (buckets h ! ?n)") (auto simp: h1_def frame_simps)
  let ?b = "length (buckets h1 ! ?n) - 1"
  have "dst_i d1 mod 8 = dst_i d1" using d1(2) by simp
  then have eq: "d' = d1\<lparr>dst_i := dst_i d1 + 1\<rparr>" "h' = set_cell ?n ?b (dst_i d1) c h1"
    using assms(1) by (auto simp: evac_put_def d1_def h1_def Let_def split: if_splits)
  have n1: "?n < length (buckets h1)" using assms(2) d1(4) by (simp add: only_new_def)
  have bl: "length ((buckets h1 ! ?n)[?b := (buckets h1 ! ?n ! ?b)[dst_i d1 := c]]) = length (buckets h1 ! ?n)" by simp
  have "unat (noverflow h') \<le> ovf (buckets h')"
    using o1 ovf_update [OF n1, of "(buckets h1 ! ?n)[?b := (buckets h1 ! ?n ! ?b)[dst_i d1 := c]]"]
    by (simp add: eq frame_simps)
  moreover have "only_new h h'" unfolding eq by (rule only_new_trans [OF d1(4) set_cell_only(1)])
  ultimately show ?thesis
    using d1 n1 dest_put [OF d1(3,2) assms(4) refl] by (simp add: eq frame_simps)
qed

section \<open>Moving a bucket\<close>

definition goes_y :: "('k, 'v) maptype \<Rightarrow> u64 \<Rightarrow> ('k, 'v) hmap \<Rightarrow> ('k, 'v) cell \<Rightarrow> bool" where
  "goes_y t newbit h c \<longleftrightarrow> \<not> same_size h \<and> hasher t (ckey c) (hash0 h) AND newbit \<noteq> 0"

text \<open>While old bucket \<open>n\<close> is moved: \<open>L\<close> and \<open>K\<close> are in the new buckets \<open>n\<close> and \<open>n + m\<close>.\<close>

definition moving ::
  "('k, 'v) maptype \<Rightarrow> ('k, 'v) hmap \<Rightarrow> nat \<Rightarrow> nat \<Rightarrow> ('k, 'v) cell list \<Rightarrow> ('k, 'v) cell list \<Rightarrow>
    evacDst \<Rightarrow> evacDst \<Rightarrow> ('k, 'v) hmap \<Rightarrow> bool" where
  "moving t h0 n m L K x y h \<longleftrightarrow>
     only_new h0 h \<and> unat (noverflow h) \<le> ovf (buckets h) \<and>
     (\<forall>j. j \<noteq> n \<longrightarrow> j \<noteq> n + m \<longrightarrow> buckets h ! j = buckets h0 ! j) \<and>
     dst_b x = n \<and> n < length (buckets h) \<and> dest t L (buckets h ! n) (dst_i x) \<and>
     (if same_size h0 then K = []
      else dst_b y = n + m \<and> n + m < length (buckets h) \<and> dest t K (buckets h ! (n + m)) (dst_i y))"

lemma moving_x:
  assumes "moving t h0 n m L K x y h" "live c" "evac_put t c x h = (x', h')" "0 < m"
  shows "moving t h0 n m (L @ [c]) K x' y h'"
proof -
  have d: "dst_b x = n" "n < length (buckets h)" "dest t L (buckets h ! n) (dst_i x)" "only_new h0 h"
    "unat (noverflow h) \<le> ovf (buckets h)" using assms(1) by (auto simp: moving_def)
  note put = evac_put_dest [OF assms(3), unfolded d(1), OF d(2,3) assms(2) d(5)]
  then have "only_new h0 h'" using only_new_trans [OF d(4)] by blast
  then show ?thesis using put assms(1,4) by (auto simp: moving_def only_new_def)
qed

lemma moving_y:
  assumes "moving t h0 n m L K x y h" "live c" "evac_put t c y h = (y', h')" "0 < m" "\<not> same_size h0"
  shows "moving t h0 n m L (K @ [c]) x y' h'"
proof -
  have d: "dst_b y = n + m" "n + m < length (buckets h)" "dest t K (buckets h ! (n + m)) (dst_i y)" "only_new h0 h"
    "unat (noverflow h) \<le> ovf (buckets h)" using assms(1,5) by (auto simp: moving_def)
  note put = evac_put_dest [OF assms(3), unfolded d(1), OF d(2,3) assms(2) d(5)]
  then have "only_new h0 h'" using only_new_trans [OF d(4)] by blast
  then show ?thesis using put assms(1,4,5) by (auto simp: moving_def only_new_def)
qed

definition moved_cells :: "('k, 'v) cell list \<Rightarrow> bool" where
  "moved_cells cs \<longleftrightarrow> (\<forall>c\<in>set cs. 2 \<le> tophash c \<and> tophash c \<le> 4)"

lemma evac_cells_spec:
  assumes "moving t h0 n m L K x y h" "0 < m" "\<forall>c\<in>set cs. isEmpty (tophash c) \<or> live c"
  shows "\<exists>cs' x' y' h'. evac_cells t newbit cs x y h = Ret (cs', x', y', h') \<and>
    length cs' = length cs \<and> moved_cells cs' \<and>
    moving t h0 n m (L @ filter (\<lambda>c. live c \<and> \<not> goes_y t newbit h0 c) cs)
      (K @ filter (\<lambda>c. live c \<and> goes_y t newbit h0 c) cs) x' y' h'"
  using assms(1,3)
proof (induction cs arbitrary: L K x y h)
  case (Cons c cs)
  have rest: "\<forall>c\<in>set cs. isEmpty (tophash c) \<or> live c" using Cons.prems(2) by simp
  show ?case
  proof (cases "isEmpty (tophash c)")
    case True
    with Cons.IH [OF Cons.prems(1) rest] not_live_empty [OF True] show ?thesis
      by (auto simp: moved_cells_def word_le_nat_alt)
  next
    case False
    then have l: "live c" "\<not> tophash c < 5" using Cons.prems(2) by (auto simp: live_def)
    have same: "same_size h = same_size h0" "hash0 h = hash0 h0" using Cons.prems(1) by (auto simp: moving_def only_new_def)
    show ?thesis
    proof (cases "goes_y t newbit h0 c")
      case True
      obtain y1 h1 where p: "evac_put t c y h = (y1, h1)" by fastforce
      have "moving t h0 n m L (K @ [c]) x y1 h1"
        using moving_y [OF Cons.prems(1) l(1) p assms(2)] True by (simp add: goes_y_def)
      from Cons.IH [OF this rest] show ?thesis
        using False l True p by (auto simp: goes_y_def same Let_def moved_cells_def word_le_nat_alt)
    next
      case False': False
      obtain x1 h1 where p: "evac_put t c x h = (x1, h1)" by fastforce
      have "moving t h0 n m (L @ [c]) K x1 y h1"
        using moving_x [OF Cons.prems(1) l(1) p assms(2)] .
      from Cons.IH [OF this rest] show ?thesis
        using False l False' p by (auto simp: goes_y_def same Let_def moved_cells_def word_le_nat_alt)
    qed
  qed
qed (simp add: moved_cells_def)

lemma evac_chain_spec:
  assumes "moving t h0 n m L K x y h" "0 < m" "\<forall>c\<in>set (concat ch). isEmpty (tophash c) \<or> live c"
  shows "\<exists>ch' x' y' h'. evac_chain t newbit ch x y h = Ret (ch', x', y', h') \<and>
    map length ch' = map length ch \<and> moved_cells (concat ch') \<and>
    moving t h0 n m (L @ filter (\<lambda>c. live c \<and> \<not> goes_y t newbit h0 c) (concat ch))
      (K @ filter (\<lambda>c. live c \<and> goes_y t newbit h0 c) (concat ch)) x' y' h'"
  using assms(1,3)
proof (induction ch arbitrary: L K x y h)
  case (Cons b ch)
  have b: "\<forall>c\<in>set b. isEmpty (tophash c) \<or> live c" and rest: "\<forall>c\<in>set (concat ch). isEmpty (tophash c) \<or> live c"
    using Cons.prems(2) by auto
  obtain b' x1 y1 h1 where 1: "evac_cells t newbit b x y h = Ret (b', x1, y1, h1)" "length b' = length b" "moved_cells b'"
    "moving t h0 n m (L @ filter (\<lambda>c. live c \<and> \<not> goes_y t newbit h0 c) b)
      (K @ filter (\<lambda>c. live c \<and> goes_y t newbit h0 c) b) x1 y1 h1"
    using evac_cells_spec [OF Cons.prems(1) assms(2) b] by blast
  from Cons.IH [OF 1(4) rest] show ?case using 1(1-3) by (auto simp: moved_cells_def)
qed (simp add: moved_cells_def)

section \<open>The invariant\<close>

definition oldB :: "('k, 'v) hmap \<Rightarrow> nat" where
  "oldB h = (if same_size h then hB h else hB h - 1)"

definition chain_ok :: "('k, 'v) maptype \<Rightarrow> u32 \<Rightarrow> nat \<Rightarrow> nat \<Rightarrow> ('k, 'v) chain \<Rightarrow> bool" where
  "chain_ok t s b n ch \<longleftrightarrow> blocks ch \<and> cells_ok t s (bucketMask b) n (concat ch)"

definition evac_done :: "('k, 'v) chain \<Rightarrow> bool" where
  "evac_done ch \<longleftrightarrow> ch \<noteq> [] \<and> hd ch \<noteq> [] \<and> moved_cells (concat ch)"

text \<open>An old bucket has been moved, or it is intact and the new buckets of its keys are fresh.\<close>

definition old_ok :: "('k, 'v) maptype \<Rightarrow> ('k, 'v) hmap \<Rightarrow> ('k, 'v) chain list \<Rightarrow> nat \<Rightarrow> bool" where
  "old_ok t h old j \<longleftrightarrow>
     evac_done (old ! j) \<or>
     chain_ok t (hash0 h) (oldB h) j (old ! j) \<and> buckets h ! j = [empty_bmap t] \<and>
       (\<not> same_size h \<longrightarrow> buckets h ! (j + 2 ^ oldB h) = [empty_bmap t])"

definition hm_inv :: "('k, 'v) maptype \<Rightarrow> ('k, 'v) hmap \<Rightarrow> bool" where
  "hm_inv t h \<longleftrightarrow>
     hB h \<le> 48 \<and> length (buckets h) = 2 ^ hB h \<and> unat (noverflow h) \<le> ovf (buckets h) \<and>
     (\<forall>n<2 ^ hB h. chain_ok t (hash0 h) (hB h) n (buckets h ! n)) \<and>
     (case oldbuckets h of
        None \<Rightarrow> \<not> same_size h
      | Some old \<Rightarrow>
          (same_size h \<or> 0 < hB h) \<and> length old = 2 ^ oldB h \<and> nevacuate h < 2 ^ oldB h \<and>
          (\<forall>j<nevacuate h. evac_done (old ! j)) \<and> (\<forall>j<2 ^ oldB h. old_ok t h old j))"

definition kvss :: "('k, 'v) chain list \<Rightarrow> ('k \<times> 'v) multiset" where
  "kvss chs = kvs (concat (concat chs))"

definition contents :: "('k, 'v) hmap \<Rightarrow> ('k \<times> 'v) multiset" where
  "contents h = kvss (buckets h) + (case oldbuckets h of None \<Rightarrow> {#} | Some old \<Rightarrow> kvss old)"

text \<open>No chain is longer than its cells need.\<close>

definition dense :: "('k, 'v) hmap \<Rightarrow> bool" where
  "dense h \<longleftrightarrow> (\<forall>ch\<in>set (buckets h). 8 * (length ch - 1) \<le> size (kvs (concat ch)))"

lemma kvss_simps: "kvss [] = {#}" "kvss (ch # chs) = kvs (concat ch) + kvss chs"
  by (simp_all add: kvss_def)

lemma kvss_update:
  "n < length chs \<Longrightarrow> kvss (chs[n := ch]) + kvs (concat (chs ! n)) = kvss chs + kvs (concat ch)"
proof (induction chs arbitrary: n)
  case (Cons c chs)
  then show ?case by (cases n) (auto simp: kvss_simps ac_simps)
qed simp

lemma kvss_empty: "\<forall>ch\<in>set chs. kvs (concat ch) = {#} \<Longrightarrow> kvss chs = {#}"
  by (induction chs) (auto simp: kvss_simps)

lemma kvs_replicate_zero: "kvs (replicate n (zero_cell t)) = {#}"
  by (rule kvs_dead) (simp add: zero_cell_dead)

lemma moved_dead: "moved_cells cs \<Longrightarrow> kvs cs = {#}"
  by (rule kvs_dead) (auto simp: moved_cells_def live_def word_le_nat_alt)

lemma pristine_ok: "chain_ok t s b n [empty_bmap t]" "kvs (concat [empty_bmap t]) = {#}"
  by (auto simp: chain_ok_def blocks_def cells_ok_def rest_ok_nth cell_ok_def empty_bmap_alt zero_cell_dead
      kvs_replicate_zero isEmpty_alt)

lemma evacuated_done: "evac_done ch \<Longrightarrow> evacuated ch"
proof -
  assume d: "evac_done ch"
  then have "hd (hd ch) \<in> set (concat ch)" by (cases ch; cases "hd ch") (auto simp: evac_done_def)
  then have "2 \<le> tophash (hd (hd ch)) \<and> tophash (hd (hd ch)) \<le> 4"
    using d unfolding evac_done_def moved_cells_def by blast
  then show ?thesis by (auto simp: evacuated_def Let_def word_le_nat_alt word_less_nat_alt)
qed

lemma evacuated_not_ok: "chain_ok t s b n ch \<Longrightarrow> \<not> evacuated ch"
proof -
  assume ok: "chain_ok t s b n ch"
  then have "hd (hd ch) \<in> set (concat ch)" by (cases ch; cases "hd ch") (auto simp: chain_ok_def blocks_def)
  then have "isEmpty (tophash (hd (hd ch))) \<or> live (hd (hd ch))"
    using ok cell_live_iff unfolding chain_ok_def cells_ok_def by blast
  then show ?thesis by (auto simp: evacuated_def Let_def isEmpty_def live_def)
qed

lemma evacuated_iff: "old_ok t h old j \<Longrightarrow> evacuated (old ! j) \<longleftrightarrow> evac_done (old ! j)"
  unfolding old_ok_def using evacuated_done evacuated_not_ok by blast

lemma noldbuckets_alt: "noldbuckets h = bucketShift (oldB h)"
  by (simp add: noldbuckets_def oldB_def)

lemma evac_clear_done:
  assumes "moved_cells (concat ch)" "ch \<noteq> []" "hd ch \<noteq> []"
  shows "evac_done (evac_clear t ch)"
  using assms by (cases ch) (auto simp: evac_clear_def evac_done_def moved_cells_def)

text \<open>What a filled bucket holds.\<close>

lemma dest_ok:
  assumes "dest t L ch i" "\<forall>c\<in>set L. cell_ok t s (bucketMask b) n c"
  shows "chain_ok t s b n ch" "kvs (concat ch) = mset (map kv L)" "8 * (length ch - 1) \<le> size (kvs (concat ch))"
proof -
  have d: "blocks ch" "concat ch = L @ replicate (8 - i) (zero_cell t)" "\<forall>c\<in>set L. live c" "length L + 8 = 8 * length ch + i"
    using assms(1) by (auto simp: dest_def)
  have "\<forall>c\<in>set L. tophash c \<noteq> 0" using d(3) by (auto simp: live_def)
  then have "rest_ok (concat ch)"
    unfolding d(2) by (auto simp: rest_ok_nth nth_append zero_cell_dead split: if_splits)
  then show "chain_ok t s b n ch"
    using d(1,2) assms(2) by (auto simp: chain_ok_def cells_ok_def cell_ok_def zero_cell_dead isEmpty_alt)
  have "filter live L = L" using d(3) by (simp add: filter_id_conv)
  then show kvs: "kvs (concat ch) = mset (map kv L)"
    by (simp add: d(2) kvs_replicate_zero) (simp add: kvs_def)
  show "8 * (length ch - 1) \<le> size (kvs (concat ch))" unfolding kvs using d(4) by simp
qed

section \<open>Moving a bucket keeps the invariant\<close>

lemma cell_ok_moves:
  assumes "cell_ok t s (bucketMask b) j c" "live c" "b + 1 < 64"
  shows "cell_ok t s (bucketMask (b + 1)) (j + (if hasher t (ckey c) s AND bucketShift b \<noteq> 0 then 2 ^ b else 0)) c"
  using assms cell_live_iff [OF assms(1)] idx_double [OF assms(3), of "hasher t (ckey c) s"]
  by (auto simp: cell_ok_def idx_def)

text \<open>The state in which the cells of old bucket \<open>j\<close> have been copied.\<close>

definition copied :: "('k, 'v) maptype \<Rightarrow> ('k, 'v) hmap \<Rightarrow> ('k, 'v) chain list \<Rightarrow> nat \<Rightarrow> ('k, 'v) hmap \<Rightarrow> bool" where
  "copied t h old j h' \<longleftrightarrow>
     (let c = filter live (concat (old ! j)); g = goes_y t (bucketShift (oldB h)) h in
      \<exists>x y. moving t h j (2 ^ oldB h) (filter (\<lambda>c. \<not> g c) c) (filter g c) x y h')"

lemma oldB_facts:
  assumes "hm_inv t h" "oldbuckets h = Some old"
  shows "hB h < 64" "oldB h < 64" "oldB h \<le> hB h" "length (buckets h) = 2 ^ hB h" "length old = 2 ^ oldB h"
    "\<not> same_size h \<Longrightarrow> hB h = oldB h + 1" "same_size h \<Longrightarrow> hB h = oldB h"
  using assms by (auto simp: hm_inv_def oldB_def)

lemma old_index:
  assumes "hm_inv t h" "oldbuckets h = Some old" "j < 2 ^ oldB h"
  shows "j < length (buckets h)" "\<not> same_size h \<Longrightarrow> j + 2 ^ oldB h < length (buckets h)"
proof -
  have "(2 :: nat) ^ oldB h \<le> 2 ^ hB h" using oldB_facts(3) [OF assms(1,2)] by simp
  then show "j < length (buckets h)" unfolding oldB_facts(4) [OF assms(1,2)] by (rule less_le_trans [OF assms(3)])
  show "j + 2 ^ oldB h < length (buckets h)" if "\<not> same_size h"
    using oldB_facts(4,6) [OF assms(1,2)] that assms(3) by simp
qed

lemma evac_chain_copies:
  assumes inv: "hm_inv t h" "oldbuckets h = Some old" and j: "j < 2 ^ oldB h" "\<not> evac_done (old ! j)"
  shows "\<exists>ch' x' y' h'. evac_chain t (noldbuckets h) (old ! j) \<lparr>dst_b = j, dst_i = 0\<rparr>
      \<lparr>dst_b = j + unat (noldbuckets h), dst_i = 0\<rparr> h = Ret (ch', x', y', h') \<and>
    evac_done (evac_clear t ch') \<and> copied t h old j h'"
proof -
  let ?m = "2 ^ oldB h :: nat"
  have old: "chain_ok t (hash0 h) (oldB h) j (old ! j)" "buckets h ! j = [empty_bmap t]"
    "\<not> same_size h \<Longrightarrow> buckets h ! (j + ?m) = [empty_bmap t]"
    using inv j by (auto simp: hm_inv_def old_ok_def)
  have m: "unat (noldbuckets h) = ?m" using oldB_facts(2) [OF inv] by (simp add: noldbuckets_alt unat_bucketShift)
  have mv: "moving t h j ?m [] [] \<lparr>dst_b = j, dst_i = 0\<rparr> \<lparr>dst_b = j + ?m, dst_i = 0\<rparr> h"
    using inv(1) old(2,3) old_index [OF inv j(1)] dest_start by (auto simp: moving_def only_new_def hm_inv_def)
  have cells: "\<forall>c\<in>set (concat (old ! j)). isEmpty (tophash c) \<or> live c"
    using old(1) cell_live_iff unfolding chain_ok_def cells_ok_def by blast
  obtain ch' x' y' h' where e: "evac_chain t (noldbuckets h) (old ! j) \<lparr>dst_b = j, dst_i = 0\<rparr>
      \<lparr>dst_b = j + ?m, dst_i = 0\<rparr> h = Ret (ch', x', y', h')" "map length ch' = map length (old ! j)"
      "moved_cells (concat ch')" "moving t h j ?m
        ([] @ filter (\<lambda>c. live c \<and> \<not> goes_y t (noldbuckets h) h c) (concat (old ! j)))
        ([] @ filter (\<lambda>c. live c \<and> goes_y t (noldbuckets h) h c) (concat (old ! j))) x' y' h'"
    using evac_chain_spec [OF mv _ cells, of "noldbuckets h"] by auto
  have "ch' \<noteq> [] \<and> hd ch' \<noteq> []" using e(2) old(1) by (cases ch'; cases "old ! j") (auto simp: chain_ok_def blocks_def)
  then have "evac_done (evac_clear t ch')" using evac_clear_done [OF e(3)] by blast
  moreover have "copied t h old j h'"
    using e(4) by (auto simp: copied_def Let_def noldbuckets_alt conj_commute)
  ultimately show ?thesis using e(1) m by auto
qed

lemma copied_chains:
  assumes inv: "hm_inv t h" "oldbuckets h = Some old" and j: "j < 2 ^ oldB h" "\<not> evac_done (old ! j)"
    and c: "copied t h old j h'"
  shows "chain_ok t (hash0 h) (hB h) j (buckets h' ! j)" "8 * (length (buckets h' ! j) - 1) \<le> size (kvs (concat (buckets h' ! j)))"
    and "\<not> same_size h \<Longrightarrow> chain_ok t (hash0 h) (hB h) (j + 2 ^ oldB h) (buckets h' ! (j + 2 ^ oldB h))"
    and "\<not> same_size h \<Longrightarrow> 8 * (length (buckets h' ! (j + 2 ^ oldB h)) - 1) \<le> size (kvs (concat (buckets h' ! (j + 2 ^ oldB h))))"
    and "kvs (concat (old ! j)) = kvs (concat (buckets h' ! j)) +
      (if same_size h then {#} else kvs (concat (buckets h' ! (j + 2 ^ oldB h))))"
proof -
  let ?m = "2 ^ oldB h :: nat" and ?g = "goes_y t (bucketShift (oldB h)) h" and ?c = "filter live (concat (old ! j))"
  have old: "chain_ok t (hash0 h) (oldB h) j (old ! j)" using inv j by (auto simp: hm_inv_def old_ok_def)
  obtain x y where mv: "moving t h j ?m (filter (\<lambda>c. \<not> ?g c) ?c) (filter ?g ?c) x y h'"
    using c by (auto simp: copied_def Let_def)
  have dx: "dest t (filter (\<lambda>c. \<not> ?g c) ?c) (buckets h' ! j) (dst_i x)"
    and dy: "\<not> same_size h \<Longrightarrow> dest t (filter ?g ?c) (buckets h' ! (j + ?m)) (dst_i y)"
    and ss: "same_size h \<Longrightarrow> filter ?g ?c = []"
    using mv by (auto simp: moving_def)
  have in_old: "cell_ok t (hash0 h) (bucketMask (oldB h)) j c" if "c \<in> set ?c" for c
    using that old by (auto simp: chain_ok_def cells_ok_def)
  have okx: "\<forall>c\<in>set (filter (\<lambda>c. \<not> ?g c) ?c). cell_ok t (hash0 h) (bucketMask (hB h)) j c"
    using in_old cell_ok_moves [of t "hash0 h" "oldB h" j] oldB_facts [OF inv]
    by (cases "same_size h") (fastforce simp: goes_y_def)+
  have oky: "\<forall>c\<in>set (filter ?g ?c). cell_ok t (hash0 h) (bucketMask (hB h)) (j + ?m) c" if "\<not> same_size h"
    using in_old cell_ok_moves [of t "hash0 h" "oldB h" j] oldB_facts [OF inv] that by (fastforce simp: goes_y_def)
  show "chain_ok t (hash0 h) (hB h) j (buckets h' ! j)" "8 * (length (buckets h' ! j) - 1) \<le> size (kvs (concat (buckets h' ! j)))"
    using dest_ok [OF dx okx] by simp_all
  show "chain_ok t (hash0 h) (hB h) (j + ?m) (buckets h' ! (j + ?m))"
    "8 * (length (buckets h' ! (j + ?m)) - 1) \<le> size (kvs (concat (buckets h' ! (j + ?m))))" if "\<not> same_size h"
    using dest_ok [OF dy [OF that] oky [OF that]] by simp_all
  have part: "mset (map kv (filter P xs)) + mset (map kv (filter (\<lambda>c. \<not> P c) xs)) = mset (map kv xs)"
    for P and xs :: "('a, 'b) cell list" by (induction xs) auto
  have ky: "(if same_size h then {#} else kvs (concat (buckets h' ! (j + ?m)))) = mset (map kv (filter ?g ?c))"
    using ss dest_ok(2) [OF dy oky] by (cases "same_size h") (simp_all del: filter_filter)
  show "kvs (concat (old ! j)) = kvs (concat (buckets h' ! j)) +
      (if same_size h then {#} else kvs (concat (buckets h' ! (j + ?m))))"
    unfolding ky dest_ok(2) [OF dx okx] using part [of ?g ?c] by (simp add: kvs_def add.commute)
qed

lemma copied_frame:
  assumes inv: "hm_inv t h" "oldbuckets h = Some old" and j: "j < 2 ^ oldB h" and c: "copied t h old j h'"
  shows "only_new h h'" "unat (noverflow h') \<le> ovf (buckets h')"
    "i < length (buckets h) \<Longrightarrow> i \<noteq> j \<Longrightarrow> (\<not> same_size h \<Longrightarrow> i \<noteq> j + 2 ^ oldB h) \<Longrightarrow> buckets h' ! i = buckets h ! i"
    "buckets h' = (if same_size h then (buckets h)[j := buckets h' ! j]
      else (buckets h)[j := buckets h' ! j, j + 2 ^ oldB h := buckets h' ! (j + 2 ^ oldB h)])"
proof -
  show only: "only_new h h'" and "unat (noverflow h') \<le> ovf (buckets h')"
    using c by (auto simp: copied_def Let_def moving_def)
  have len: "length (buckets h') = length (buckets h)" using only by (simp add: only_new_def)
  have ss: "same_size h \<Longrightarrow> length (buckets h) = 2 ^ oldB h" using oldB_facts(4,7) [OF inv] by simp
  show same: "buckets h' ! i = buckets h ! i"
    if "i < length (buckets h)" "i \<noteq> j" "\<not> same_size h \<Longrightarrow> i \<noteq> j + 2 ^ oldB h" for i
  proof -
    have "i \<noteq> j + 2 ^ oldB h" using that ss by (cases "same_size h") auto
    then show ?thesis using c that(2) by (auto simp: copied_def Let_def moving_def)
  qed
  show "buckets h' = (if same_size h then (buckets h)[j := buckets h' ! j]
      else (buckets h)[j := buckets h' ! j, j + 2 ^ oldB h := buckets h' ! (j + 2 ^ oldB h)])"
    by (rule nth_equalityI) (use len same in \<open>auto simp: nth_upd\<close>)
qed

lemma copied_kvss:
  assumes inv: "hm_inv t h" "oldbuckets h = Some old" and j: "j < 2 ^ oldB h" "\<not> evac_done (old ! j)"
    and c: "copied t h old j h'"
  shows "kvss (buckets h') = kvss (buckets h) + kvs (concat (old ! j))"
proof -
  note idx = old_index [OF inv j(1)] and eq = copied_frame(4) [OF inv j(1) c]
  have old: "buckets h ! j = [empty_bmap t]" "\<not> same_size h \<Longrightarrow> buckets h ! (j + 2 ^ oldB h) = [empty_bmap t]"
    using inv j by (auto simp: hm_inv_def old_ok_def)
  note 1 = kvss_update [OF idx(1), of "buckets h' ! j", unfolded old(1) pristine_ok(2), simplified]
  show ?thesis
  proof (cases "same_size h")
    case True
    then show ?thesis using 1 copied_chains(5) [OF inv j c] by (subst eq) simp
  next
    case False
    let ?k = "j + 2 ^ oldB h" and ?bs = "(buckets h)[j := buckets h' ! j]"
    have "?k < length ?bs" using idx(2) [OF False] by simp
    moreover have "?bs ! ?k = [empty_bmap t]" using old(2) [OF False] by simp
    ultimately have "kvss (?bs[?k := buckets h' ! ?k]) = kvss ?bs + kvs (concat (buckets h' ! ?k))"
      using kvss_update [of ?k ?bs "buckets h' ! ?k"] pristine_ok(2) [of t] by simp
    then show ?thesis using 1 False copied_chains(5) [OF inv j c] by (subst eq) simp
  qed
qed

text \<open>The old bucket is replaced by what is left of it.\<close>

lemma moved_inv:
  assumes inv: "hm_inv t h" "oldbuckets h = Some old" and j: "j < 2 ^ oldB h" "\<not> evac_done (old ! j)"
    and c: "copied t h old j h'" and d: "evac_done ch"
  defines "h2 \<equiv> h'\<lparr>oldbuckets := Some (old[j := ch])\<rparr>"
  shows "hm_inv t h2" "contents h2 = contents h" "dense h \<Longrightarrow> dense h2"
proof -
  note fr = copied_frame [OF inv j(1) c] and ch = copied_chains [OF inv j c] and facts = oldB_facts [OF inv]
  have f: "hB h' = hB h" "same_size h' = same_size h" "hash0 h' = hash0 h" "nevacuate h' = nevacuate h"
    "length (buckets h') = length (buckets h)" using fr(1) by (auto simp: only_new_def)
  have oB: "oldB h2 = oldB h" by (simp add: oldB_def h2_def f)
  have jl: "j < length old" using j(1) facts(5) by simp
  have H: "\<forall>n<2 ^ hB h. chain_ok t (hash0 h) (hB h) n (buckets h ! n)" "\<forall>i<2 ^ oldB h. old_ok t h old i"
    "\<forall>i<nevacuate h. evac_done (old ! i)" "nevacuate h < 2 ^ oldB h" "same_size h \<or> 0 < hB h" "hB h \<le> 48"
    using inv by (auto simp: hm_inv_def)
  have new: "chain_ok t (hash0 h) (hB h) n (buckets h' ! n)" if n: "n < 2 ^ hB h" for n
  proof (cases "n = j \<or> \<not> same_size h \<and> n = j + 2 ^ oldB h")
    case True
    then show ?thesis using ch(1,3) by auto
  next
    case False
    then show ?thesis using fr(3) [of n] n H(1) facts(4) by auto
  qed
  have olds: "old_ok t h2 (old[j := ch]) i" if i: "i < 2 ^ oldB h" for i
  proof (cases "i = j")
    case True
    then show ?thesis using d jl by (simp add: old_ok_def)
  next
    case False
    have "buckets h' ! i = buckets h ! i" using fr(3) [OF old_index(1) [OF inv i] False] i by simp
    moreover have "buckets h' ! (i + 2 ^ oldB h) = buckets h ! (i + 2 ^ oldB h)" if "\<not> same_size h"
      using fr(3) [OF old_index(2) [OF inv i that]] False j(1) i by simp
    ultimately show ?thesis using H(2) [rule_format, OF i] False by (auto simp: old_ok_def oB) (auto simp: h2_def f)
  qed
  show "hm_inv t h2"
    unfolding hm_inv_def oB using new olds fr(2) facts H d jl by (auto simp: h2_def f nth_list_update)
  have "kvss (old[j := ch]) + kvs (concat (old ! j)) = kvss old"
    using kvss_update [OF jl, of ch] moved_dead [of "concat ch"] d by (simp add: evac_done_def)
  then show "contents h2 = contents h"
    using copied_kvss [OF inv j c] inv(2) by (simp add: contents_def h2_def ac_simps)
  show "dense h2" if den: "dense h"
  proof -
    have "8 * (length (buckets h' ! n) - 1) \<le> size (kvs (concat (buckets h' ! n)))" if n: "n < length (buckets h)" for n
    proof (cases "n = j \<or> \<not> same_size h \<and> n = j + 2 ^ oldB h")
      case True
      then show ?thesis using ch(2,4) by auto
    next
      case False
      then have "buckets h' ! n = buckets h ! n" using fr(3) [OF n] by auto
      then show ?thesis using den n by (auto simp: dense_def)
    qed
    then show ?thesis by (auto simp: dense_def h2_def in_set_conv_nth f(5))
  qed
qed

section \<open>Evacuation\<close>

definition same_map :: "('k, 'v) hmap \<Rightarrow> ('k, 'v) hmap \<Rightarrow> bool" where
  "same_map h h' \<longleftrightarrow> hB h' = hB h \<and> hash0 h' = hash0 h \<and> hcount h' = hcount h \<and>
     hash_writing h' = hash_writing h \<and> contents h' = contents h"

lemma same_map_trans: "same_map h h' \<Longrightarrow> same_map h' h'' \<Longrightarrow> same_map h h''"
  by (simp add: same_map_def)

lemma advance_loop_spec:
  "n \<le> stop \<Longrightarrow> n \<le> advance_loop old stop n \<and> advance_loop old stop n \<le> stop \<and>
    (\<forall>i. n \<le> i \<longrightarrow> i < advance_loop old stop n \<longrightarrow> evacuated (old ! i))"
proof (induction old stop n rule: advance_loop.induct)
  case (1 old stop n)
  show ?case
  proof (cases "n < stop \<and> bucketEvacuated old n")
    case True
    then have "advance_loop old stop n = advance_loop old stop (n + 1)" by (subst advance_loop.simps) simp
    moreover have "evacuated (old ! i)" if "n \<le> i" "i < advance_loop old stop (n + 1)" for i
      using that True 1 by (cases "i = n") (auto simp: bucketEvacuated_def)
    ultimately show ?thesis using 1 True by auto
  next
    case False
    then have "advance_loop old stop n = n" using advance_loop.simps [of old stop n] by auto
    then show ?thesis using "1.prems" by simp
  qed
qed

lemma advance_spec:
  assumes inv: "hm_inv t h" "oldbuckets h = Some old" and d: "evac_done (old ! nevacuate h)"
    and h': "h' = advanceEvacuationMark (2 ^ oldB h) h"
  shows "hm_inv t h' \<and> same_map h h' \<and> buckets h' = buckets h \<and>
    (case oldbuckets h' of None \<Rightarrow> \<forall>i<2 ^ oldB h. evac_done (old ! i)
     | Some old' \<Rightarrow> old' = old \<and> same_size h' = same_size h \<and> nevacuate h < nevacuate h')"
proof -
  let ?m = "2 ^ oldB h :: nat"
  define stop n where "stop = (if ?m < nevacuate h + 1 + 1024 then ?m else nevacuate h + 1 + 1024)"
    and "n = advance_loop old stop (nevacuate h + 1)"
  have H: "nevacuate h < ?m" "\<forall>i<nevacuate h. evac_done (old ! i)" "\<forall>i<?m. old_ok t h old i" "length old = ?m"
    using inv by (auto simp: hm_inv_def)
  have "nevacuate h + 1 \<le> stop" "stop \<le> ?m" using H(1) by (auto simp: stop_def)
  with advance_loop_spec [of "nevacuate h + 1" stop old]
  have n: "nevacuate h + 1 \<le> n" "n \<le> ?m" "\<And>i. nevacuate h + 1 \<le> i \<Longrightarrow> i < n \<Longrightarrow> evacuated (old ! i)"
    by (auto simp: n_def)
  have done_n: "evac_done (old ! i)" if "i < n" for i
  proof -
    consider "i < nevacuate h" | "i = nevacuate h" | "nevacuate h + 1 \<le> i" by linarith
    then show ?thesis using H(2,3) d n that evacuated_iff [of t h old i] by cases auto
  qed
  have eq: "h' = (if n = ?m then h\<lparr>nevacuate := n, oldbuckets := None, same_size := False\<rparr> else h\<lparr>nevacuate := n\<rparr>)"
    unfolding h' advanceEvacuationMark_def Let_def inv(2) option.sel n_def stop_def by (simp add: Let_def)
  show ?thesis
  proof (cases "n = ?m")
    case True
    then have all: "\<forall>i<?m. evac_done (old ! i)" using done_n by blast
    then have "kvss old = {#}"
      using H(4) by (intro kvss_empty) (auto simp: in_set_conv_nth evac_done_def moved_dead)
    then show ?thesis using eq True all inv by (simp add: hm_inv_def same_map_def contents_def)
  next
    case False
    then have "n < ?m" using n(2) by simp
    moreover have "old_ok t (h\<lparr>nevacuate := n\<rparr>) old i = old_ok t h old i" for i by (simp add: old_ok_def oldB_def)
    moreover have "oldB (h\<lparr>nevacuate := n\<rparr>) = oldB h" by (simp add: oldB_def)
    ultimately show ?thesis using eq False done_n inv n(1) by (simp add: hm_inv_def same_map_def contents_def)
  qed
qed

lemma evacuate_spec:
  assumes inv: "hm_inv t h" "oldbuckets h = Some old" and j: "j < 2 ^ oldB h"
  shows "\<exists>h'. evacuate t j h = Ret h' \<and> hm_inv t h' \<and> same_map h h' \<and> (dense h \<longrightarrow> dense h') \<and>
    (case oldbuckets h' of None \<Rightarrow> \<forall>i<2 ^ oldB h. i \<noteq> j \<longrightarrow> evac_done (old ! i)
     | Some old' \<Rightarrow> same_size h' = same_size h \<and> evac_done (old' ! j) \<and> (\<forall>i. i \<noteq> j \<longrightarrow> old' ! i = old ! i) \<and>
         nevacuate h + of_bool (j = nevacuate h) \<le> nevacuate h')"
proof -
  let ?m = "2 ^ oldB h :: nat"
  have m: "unat (noldbuckets h) = ?m" using oldB_facts(2) [OF inv] by (simp add: noldbuckets_alt unat_bucketShift)
  have ev: "evacuated (old ! j) = evac_done (old ! j)" using inv j by (intro evacuated_iff) (auto simp: hm_inv_def)
  obtain h1 old1 where 1: "hm_inv t h1" "oldbuckets h1 = Some old1" "same_map h h1" "dense h \<Longrightarrow> dense h1"
      "nevacuate h1 = nevacuate h" "same_size h1 = same_size h" "evac_done (old1 ! j)" "\<forall>i. i \<noteq> j \<longrightarrow> old1 ! i = old ! i"
    and eq: "evacuate t j h = Ret (if j = nevacuate h1 then advanceEvacuationMark ?m h1 else h1)"
  proof (cases "evac_done (old ! j)")
    case True
    then show ?thesis using that [of h old] inv ev m by (simp add: evacuate_def Let_def same_map_def)
  next
    case False
    from evac_chain_copies [OF inv j False] obtain ch' x' y' h' where e:
      "evac_chain t (noldbuckets h) (old ! j) \<lparr>dst_b = j, dst_i = 0\<rparr> \<lparr>dst_b = j + unat (noldbuckets h), dst_i = 0\<rparr> h
        = Ret (ch', x', y', h')" "evac_done (evac_clear t ch')" "copied t h old j h'" by blast
    let ?h1 = "h'\<lparr>oldbuckets := Some (old[j := evac_clear t ch'])\<rparr>"
    have only: "only_new h h'" using copied_frame [OF inv j e(3)] by blast
    note mv = moved_inv [OF inv j False e(3,2)]
    have jl: "j < length old" using j oldB_facts(5) [OF inv] by simp
    have "evacuate t j h = Ret (if j = nevacuate ?h1 then advanceEvacuationMark ?m ?h1 else ?h1)"
      using e(1) False ev inv(2) m only by (simp add: evacuate_def Let_def only_new_def)
    moreover have "same_map h ?h1" using mv(2) only by (simp add: same_map_def only_new_def)
    ultimately show ?thesis
      using that [of ?h1 "old[j := evac_clear t ch']"] mv(1,3) only e(2) jl by (simp add: only_new_def)
  qed
  have oB: "oldB h1 = oldB h" using 1(3,6) by (simp add: oldB_def same_map_def)
  show ?thesis
  proof (cases "j = nevacuate h1")
    case True
    let ?h2 = "advanceEvacuationMark ?m h1"
    have a: "hm_inv t ?h2 \<and> same_map h1 ?h2 \<and> buckets ?h2 = buckets h1 \<and>
        (case oldbuckets ?h2 of None \<Rightarrow> \<forall>i<2 ^ oldB h. evac_done (old1 ! i)
         | Some old' \<Rightarrow> old' = old1 \<and> same_size ?h2 = same_size h1 \<and> nevacuate h1 < nevacuate ?h2)"
      using advance_spec [OF 1(1,2) _ refl] 1(7) True unfolding oB by simp
    then have "same_map h ?h2" "dense h \<Longrightarrow> dense ?h2" using 1(3,4) same_map_trans by (auto simp: dense_def)
    then show ?thesis using a eq True 1(5-8) by (auto split: option.splits)
  next
    case False
    then show ?thesis using eq 1 by auto
  qed
qed

text \<open>The old bucket of a hash has been moved.\<close>

definition home_free :: "('k, 'v) hmap \<Rightarrow> u64 \<Rightarrow> bool" where
  "home_free h x \<longleftrightarrow> (case oldbuckets h of None \<Rightarrow> True | Some old \<Rightarrow> evac_done (old ! idx (oldB h) x))"

lemma growWork_spec:
  assumes inv: "hm_inv t h" "oldbuckets h = Some old"
  shows "\<exists>h'. growWork t (x AND bucketMask (hB h)) h = Ret h' \<and> hm_inv t h' \<and> same_map h h' \<and>
    (dense h \<longrightarrow> dense h') \<and> home_free h' x \<and>
    (2 \<le> oldB h \<longrightarrow> (\<forall>i<2 ^ oldB h. \<not> evac_done (old ! i)) \<longrightarrow> growing h') \<and>
    (growing h' \<longrightarrow> oldB h' = oldB h \<and> nevacuate h < nevacuate h')"
proof -
  let ?m = "2 ^ oldB h :: nat" and ?j = "idx (oldB h) x"
  note facts = oldB_facts [OF inv]
  have j: "unat ((x AND bucketMask (hB h)) AND oldbucketmask h) = ?j" "?j < ?m"
    using facts idx_mask [of "oldB h" "hB h" x] idx_less
    by (simp_all add: oldbucketmask_def noldbuckets_alt bucketMask_def)
  have two: "\<exists>i<?m. i \<noteq> a \<and> i \<noteq> b" if "2 \<le> oldB h" for a b
  proof -
    have "(2 :: nat) ^ 2 \<le> ?m" using that power_increasing [of 2 "oldB h" "2 :: nat"] by simp
    moreover have "\<exists>i<4. i \<noteq> a \<and> i \<noteq> b" by presburger
    ultimately show ?thesis by (auto intro: less_le_trans)
  qed
  obtain h1 where 1: "evacuate t ?j h = Ret h1" "hm_inv t h1" "same_map h h1" "dense h \<longrightarrow> dense h1"
    "case oldbuckets h1 of None \<Rightarrow> \<forall>i<?m. i \<noteq> ?j \<longrightarrow> evac_done (old ! i)
     | Some old' \<Rightarrow> same_size h1 = same_size h \<and> evac_done (old' ! ?j) \<and> (\<forall>i. i \<noteq> ?j \<longrightarrow> old' ! i = old ! i) \<and>
         nevacuate h + of_bool (?j = nevacuate h) \<le> nevacuate h1"
    using evacuate_spec [OF inv j(2)] by blast
  show ?thesis
  proof (cases "oldbuckets h1")
    case None
    then have "growWork t (x AND bucketMask (hB h)) h = Ret h1" using 1(1) j(1) by (simp add: growWork_def growing_def)
    moreover have "\<not> (2 \<le> oldB h \<and> (\<forall>i<?m. \<not> evac_done (old ! i)))" using None 1(5) two [of ?j ?j] by auto
    ultimately show ?thesis using 1(2-4) None by (auto simp: home_free_def growing_def)
  next
    case (Some old1)
    have oB: "oldB h1 = oldB h" using 1(3,5) Some by (simp add: oldB_def same_map_def)
    have n: "nevacuate h1 < 2 ^ oldB h1" using 1(2) Some by (auto simp: hm_inv_def)
    obtain h2 where 2: "evacuate t (nevacuate h1) h1 = Ret h2" "hm_inv t h2" "same_map h1 h2" "dense h1 \<longrightarrow> dense h2"
      "case oldbuckets h2 of None \<Rightarrow> \<forall>i<?m. i \<noteq> nevacuate h1 \<longrightarrow> evac_done (old1 ! i)
       | Some old' \<Rightarrow> same_size h2 = same_size h1 \<and> evac_done (old' ! nevacuate h1) \<and>
           (\<forall>i. i \<noteq> nevacuate h1 \<longrightarrow> old' ! i = old1 ! i) \<and> nevacuate h1 + of_bool (nevacuate h1 = nevacuate h1) \<le> nevacuate h2"
      using evacuate_spec [OF 1(2) Some n, unfolded oB] by blast
    have "growWork t (x AND bucketMask (hB h)) h = Ret h2" using 1(1) 2(1) j(1) Some by (simp add: growWork_def growing_def)
    moreover have "same_map h h2" using same_map_trans [OF 1(3) 2(3)] .
    moreover have "home_free h2 x"
      using 2(3,5) 1(5) Some oB by (cases "?j = nevacuate h1") (auto simp: home_free_def oldB_def same_map_def split: option.splits)
    moreover have "growing h2" if g: "2 \<le> oldB h" "\<forall>i<?m. \<not> evac_done (old ! i)"
    proof (rule ccontr)
      assume "\<not> growing h2"
      then have "\<forall>i<?m. i \<noteq> nevacuate h1 \<longrightarrow> i \<noteq> ?j \<longrightarrow> evac_done (old ! i)"
        using 2(5) 1(5) Some by (auto simp: growing_def)
      then show False using g two [of "nevacuate h1" ?j] by blast
    qed
    moreover have "growing h2 \<longrightarrow> oldB h2 = oldB h \<and> nevacuate h < nevacuate h2"
      using 2(3,5) 1(5) Some oB by (auto simp: growing_def oldB_def same_map_def)
    ultimately show ?thesis using 1(4) 2(2,4) by blast
  qed
qed

section \<open>Starting to grow\<close>

lemma makeBucketArray_ok:
  assumes "b < 64"
  shows "length (makeBucketArray t b) = 2 ^ b" "n < 2 ^ b \<Longrightarrow> makeBucketArray t b ! n = [empty_bmap t]"
    "kvss (makeBucketArray t b) = {#}"
proof -
  show "length (makeBucketArray t b) = 2 ^ b" "n < 2 ^ b \<Longrightarrow> makeBucketArray t b ! n = [empty_bmap t]"
    using assms by (simp_all add: makeBucketArray_def unat_bucketShift)
  show "kvss (makeBucketArray t b) = {#}"
    using pristine_ok(2) by (intro kvss_empty) (auto simp: makeBucketArray_def)
qed

lemma fresh_array:
  assumes "hB h \<le> 48" "buckets h = makeBucketArray t (hB h)" "noverflow h = 0" "oldbuckets h = None" "\<not> same_size h"
  shows "hm_inv t h" "contents h = {#}"
  using assms pristine_ok(1) by (auto simp: hm_inv_def contents_def makeBucketArray_ok)

lemma hashGrow_spec:
  assumes inv: "hm_inv t h" "\<not> growing h" and B: "overLoadFactor (hcount h + 1) (hB h) \<Longrightarrow> hB h < 48"
  defines "h' \<equiv> hashGrow t h"
  shows "hm_inv t h'" "contents h' = contents h" "dense h'" "oldbuckets h' = Some (buckets h)" "oldB h' = hB h"
    "\<forall>i<2 ^ hB h. \<not> evac_done (buckets h ! i)"
    "hash0 h' = hash0 h" "hcount h' = hcount h" "hash_writing h' = hash_writing h"
    "hB h' = (if overLoadFactor (hcount h + 1) (hB h) then hB h + 1 else hB h)"
proof -
  define big where "big = overLoadFactor (hcount h + 1) (hB h)"
  define B where "B = (if big then hB h + 1 else hB h)"
  have H: "oldbuckets h = None" "\<not> same_size h" "hB h \<le> 48" "length (buckets h) = 2 ^ hB h"
    "\<forall>n<2 ^ hB h. chain_ok t (hash0 h) (hB h) n (buckets h ! n)"
    using inv by (auto simp: hm_inv_def growing_def)
  have eq: "h' = h\<lparr>same_size := \<not> big, hB := B, oldbuckets := Some (buckets h),
      buckets := makeBucketArray t B, nevacuate := 0, noverflow := 0\<rparr>"
    using H(2) by (auto simp: h'_def hashGrow_def big_def B_def Let_def)
  have B: "B \<le> 48" "B < 64" using B H(3) by (auto simp: B_def big_def)
  show oB: "oldB h' = hB h" by (auto simp: eq oldB_def B_def)
  have new: "length (buckets h') = 2 ^ B" "\<And>n. n < 2 ^ B \<Longrightarrow> buckets h' ! n = [empty_bmap t]"
    "kvss (buckets h') = {#}" using makeBucketArray_ok [OF B(2)] by (simp_all add: eq)
  have old: "old_ok t h' (buckets h) j" if "j < 2 ^ hB h" for j
  proof -
    have "j < 2 ^ B" "\<not> same_size h' \<Longrightarrow> j + 2 ^ hB h < 2 ^ B" using that by (auto simp: eq B_def)
    then show ?thesis using new(2) H(5) that unfolding old_ok_def oB by (simp add: eq)
  qed
  have c0: "chain_ok t (hash0 h) (hB h') n (buckets h' ! n)" if "n < 2 ^ hB h'" for n
    using new(2) [of n] that pristine_ok(1) by (simp add: eq)
  show "hm_inv t h'" unfolding hm_inv_def oB using old B new(1) H(4) c0 by (auto simp: eq B_def)
  show "contents h' = contents h" using new(3) H(1) by (simp add: contents_def) (simp add: eq)
  show "dense h'" using new(1,2) by (auto simp: dense_def in_set_conv_nth)
  show "oldbuckets h' = Some (buckets h)" "hash0 h' = hash0 h" "hcount h' = hcount h" "hash_writing h' = hash_writing h"
    "hB h' = (if overLoadFactor (hcount h + 1) (hB h) then hB h + 1 else hB h)"
    by (simp_all add: eq big_def B_def)
  show "\<forall>i<2 ^ hB h. \<not> evac_done (buckets h ! i)" using H(5) evacuated_not_ok evacuated_done by blast
qed

end
