(* ===== verification/Gomap_System.thy ===== *)
theory Gomap_System
  imports Gomap_Grow
begin

text \<open>
  What maps promise: an abstract map from keys to the stored key and element, and the proof that every
  program of assignments, deletions, lookups and clears returns what the abstract map returns, whatever
  the hash function and in whatever phase of growing it finds the map.
\<close>

section \<open>The abstract map\<close>

type_synonym ('k, 'v) amap = "'k \<Rightarrow> ('k \<times> 'v) option"

definition rep :: "('k, 'v) maptype \<Rightarrow> ('k \<times> 'v) multiset \<Rightarrow> ('k, 'v) amap \<Rightarrow> bool" where
  "rep t M m \<longleftrightarrow> (\<forall>k. matches t k M = (case m k of None \<Rightarrow> {#} | Some x \<Rightarrow> {#x#}))"

definition abs_assign :: "('k, 'v) maptype \<Rightarrow> ('k, 'v) amap \<Rightarrow> 'k \<Rightarrow> 'v \<Rightarrow> ('k, 'v) amap" where
  "abs_assign t m key v =
     (let k1 = (case m key of None \<Rightarrow> key | Some (k0, _) \<Rightarrow> if needkeyupdate t then key else k0)
      in (\<lambda>k. if key_equal t key k then Some (k1, v) else m k))"

definition abs_delete :: "('k, 'v) maptype \<Rightarrow> ('k, 'v) amap \<Rightarrow> 'k \<Rightarrow> ('k, 'v) amap" where
  "abs_delete t m key = (\<lambda>k. if key_equal t key k then None else m k)"

lemma matches_cong:
  assumes "maptype_ok t" "key_equal t k k'"
  shows "matches t k M = matches t k' M"
proof -
  have "key_equal t k x \<longleftrightarrow> key_equal t k' x" for x
    using maptype_okD(2,3) [OF assms(1)] assms(2) by metis
  then show ?thesis by (simp add: matches_def)
qed

lemma rep_empty: "rep t {#} (\<lambda>_. None)"
  by (simp add: rep_def)

lemma rep_in: "rep t M m \<Longrightarrow> m k = Some x \<Longrightarrow> x \<in># M \<and> key_equal t k (fst x)"
proof -
  assume "rep t M m" "m k = Some x"
  then have "x \<in># matches t k M" by (auto simp: rep_def)
  then show ?thesis by (simp add: matches_def)
qed

lemma repD: "rep t M m \<Longrightarrow> matches t k M = (case m k of None \<Rightarrow> {#} | Some x \<Rightarrow> {#x#})"
  by (simp add: rep_def)

lemma rep_change:
  assumes "maptype_ok t" "rep t M m" "m key = Some x" "add_mset x M' = add_mset (k1, v) M" "key_equal t key k1"
  shows "rep t M' (\<lambda>k. if key_equal t key k then Some (k1, v) else m k)"
  unfolding rep_def
proof
  fix k
  have x: "key_equal t key (fst x)" using rep_in [OF assms(2,3)] by simp
  show "matches t k M' = (case if key_equal t key k then Some (k1, v) else m k of None \<Rightarrow> {#} | Some x \<Rightarrow> {#x#})"
  proof (cases "key_equal t key k")
    case True
    have "matches t key (add_mset x M') = matches t key (add_mset (k1, v) M)" using assms(4) by simp
    then have "matches t key M' = {#(k1, v)#}" using x assms(2,3,5) by (simp add: rep_def)
    then show ?thesis using True matches_cong [OF assms(1) True] by simp
  next
    case False
    have "\<not> key_equal t k (fst x)" "\<not> key_equal t k k1"
      using False x assms(5) maptype_okD(2,3) [OF assms(1)] by metis+
    moreover have "matches t k (add_mset x M') = matches t k (add_mset (k1, v) M)" using assms(4) by simp
    ultimately show ?thesis using False assms(2) by (simp add: rep_def)
  qed
qed

lemma rep_add:
  assumes "maptype_ok t" "rep t M m" "m key = None"
  shows "rep t (add_mset (key, v) M) (\<lambda>k. if key_equal t key k then Some (key, v) else m k)"
  unfolding rep_def
proof
  fix k
  show "matches t k (add_mset (key, v) M) =
      (case if key_equal t key k then Some (key, v) else m k of None \<Rightarrow> {#} | Some x \<Rightarrow> {#x#})"
  proof (cases "key_equal t key k")
    case True
    then have "matches t k M = {#}" using matches_cong [OF assms(1) True] repD [OF assms(2), of key] assms(3) by simp
    then show ?thesis using True maptype_okD(2) [OF assms(1) True] by simp
  next
    case False
    then have "\<not> key_equal t k key" using maptype_okD(2) [OF assms(1)] by blast
    then show ?thesis using False assms(2) by (simp add: rep_def)
  qed
qed

lemma rep_del:
  assumes "maptype_ok t" "rep t (add_mset x M) m" "m key = Some x"
  shows "rep t M (abs_delete t m key)"
  unfolding rep_def
proof
  fix k
  have x: "key_equal t key (fst x)" using rep_in [OF assms(2,3)] by simp
  show "matches t k M = (case abs_delete t m key k of None \<Rightarrow> {#} | Some x \<Rightarrow> {#x#})"
  proof (cases "key_equal t key k")
    case True
    have "matches t key (add_mset x M) = {#x#}" using assms(2,3) by (simp add: rep_def)
    then have "matches t key M = {#}" using x by simp
    then show ?thesis using True matches_cong [OF assms(1) True] by (simp add: abs_delete_def)
  next
    case False
    then have "\<not> key_equal t k (fst x)" using x maptype_okD(2,3) [OF assms(1)] by metis
    then show ?thesis using False repD [OF assms(2), of k] by (simp add: abs_delete_def)
  qed
qed

text \<open>The number of entries.\<close>

lemma rep_card:
  assumes "maptype_ok t" "rep t M m"
  shows "size M = card (Map.ran m)"
proof -
  have c: "Multiset.count M x = 1 \<and> x \<in> Map.ran m" if "x \<in># M" for x
  proof -
    have in': "x \<in># matches t (fst x) M" using that maptype_okD(1) [OF assms(1)] by (simp add: matches_def)
    then obtain y where y: "m (fst x) = Some y" "matches t (fst x) M = {#y#}"
      using assms(2) by (auto simp: rep_def split: option.splits)
    then have "y = x" using in' by simp
    have "Multiset.count (matches t (fst x) M) x = Multiset.count M x"
      using maptype_okD(1) [OF assms(1)] by (simp add: matches_def)
    then show ?thesis using y \<open>y = x\<close> by (auto simp: Map.ran_def)
  qed
  have "set_mset M = Map.ran m" using c rep_in [OF assms(2)] by (auto simp: Map.ran_def)
  moreover have "size M = (\<Sum>x\<in>set_mset M. 1)"
    unfolding size_multiset_overloaded_eq using c by (intro sum.cong) auto
  ultimately show ?thesis by simp
qed

section \<open>Where a key is\<close>

lemma matches_elsewhere:
  assumes "maptype_ok t" "chain_ok t s b n ch" "idx b (hasher t k s) \<noteq> n"
  shows "matches t k (kvs (concat ch)) = {#}"
proof -
  have "\<not> key_equal t k (ckey c)" if c: "c \<in> set (concat ch)" "live c" for c
  proof
    assume "key_equal t k (ckey c)"
    then have "hasher t (ckey c) s = hasher t k s" using maptype_okD(4) [OF assms(1)] by simp
    moreover have "cell_ok t s (bucketMask b) n c" using assms(2) c(1) by (auto simp: chain_ok_def cells_ok_def)
    ultimately have "idx b (hasher t k s) = n" using cell_live_iff [of t s "bucketMask b" n c] c(2) by (auto simp: cell_ok_def idx_def)
    then show False using assms(3) by simp
  qed
  then show ?thesis by (auto simp: matches_def kvs_def kv_def simp flip: set_mset_eq_empty_iff)
qed

lemma done_dead: "evac_done ch \<Longrightarrow> kvs (concat ch) = {#}"
  by (simp add: evac_done_def moved_dead)

lemma matches_kvss_none: "(\<And>ch. ch \<in> set chs \<Longrightarrow> matches t k (kvs (concat ch)) = {#}) \<Longrightarrow> matches t k (kvss chs) = {#}"
  by (induction chs) (auto simp: kvss_simps)

lemma matches_kvss:
  assumes "n < length chs" "\<And>i. i < length chs \<Longrightarrow> i \<noteq> n \<Longrightarrow> matches t k (kvs (concat (chs ! i))) = {#}"
  shows "matches t k (kvss chs) = matches t k (kvs (concat (chs ! n)))"
proof -
  have "matches t k (kvss (chs[n := []])) = {#}"
    using assms by (intro matches_kvss_none) (auto simp: in_set_conv_nth nth_upd)
  moreover have "kvss chs = kvss (chs[n := []]) + kvs (concat (chs ! n))" using kvss_update [OF assms(1), of "[]"] by simp
  ultimately show ?thesis by simp
qed

definition home :: "('k, 'v) maptype \<Rightarrow> ('k, 'v) hmap \<Rightarrow> 'k \<Rightarrow> ('k, 'v) chain" where
  "home t h k =
     (let x = hasher t k (hash0 h); b = buckets h ! idx (hB h) x
      in case oldbuckets h of None \<Rightarrow> b
         | Some old \<Rightarrow> if evac_done (old ! idx (oldB h) x) then b else old ! idx (oldB h) x)"

lemma idx_old:
  assumes "hm_inv t h" "oldbuckets h = Some old"
  shows "idx (hB h) x = idx (oldB h) x \<or> \<not> same_size h \<and> idx (hB h) x = idx (oldB h) x + 2 ^ oldB h"
    "idx (oldB h) x < 2 ^ oldB h"
  using oldB_facts [OF assms] idx_double [of "oldB h" x] idx_less [of "oldB h" x] by (cases "same_size h", auto)

lemma home_matches:
  assumes t: "maptype_ok t" and inv: "hm_inv t h"
  shows "matches t k (contents h) = matches t k (kvs (concat (home t h k)))"
    "\<exists>b n. chain_ok t (hash0 h) b n (home t h k)"
proof -
  let ?x = "hasher t k (hash0 h)"
  let ?n = "idx (hB h) ?x" and ?j = "idx (oldB h) ?x"
  have H: "hB h < 64" "length (buckets h) = 2 ^ hB h" "\<forall>n<2 ^ hB h. chain_ok t (hash0 h) (hB h) n (buckets h ! n)"
    using inv by (auto simp: hm_inv_def)
  have n: "?n < length (buckets h)" using idx_less [OF H(1)] H(2) by simp
  have new: "matches t k (kvss (buckets h)) = matches t k (kvs (concat (buckets h ! ?n)))"
    using matches_elsewhere [OF t] H(2,3) by (intro matches_kvss [OF n]) metis
  have okn: "chain_ok t (hash0 h) (hB h) ?n (buckets h ! ?n)" using H n by simp
  have "matches t k (contents h) = matches t k (kvs (concat (home t h k))) \<and>
    (\<exists>b n. chain_ok t (hash0 h) b n (home t h k))"
  proof (cases "oldbuckets h")
    case None
    then show ?thesis using new okn by (auto simp: contents_def home_def)
  next
    case (Some old)
    note i = idx_old [OF inv Some, of ?x]
    have old: "length old = 2 ^ oldB h" "\<forall>j<2 ^ oldB h. old_ok t h old j" using inv Some by (auto simp: hm_inv_def)
    have others: "matches t k (kvs (concat (old ! j))) = {#}" if "j < length old" "j \<noteq> ?j" for j
      using old(2) [rule_format, of j] that old(1) matches_elsewhere [OF t, of "hash0 h" "oldB h" j "old ! j" k] done_dead [of "old ! j"]
      by (auto simp: old_ok_def)
    have jl: "?j < length old" using i(2) old(1) by simp
    note olds = matches_kvss [OF jl others]
    show ?thesis
    proof (cases "evac_done (old ! ?j)")
      case True
      then have "matches t k (kvss old) = {#}" using olds by (simp add: done_dead)
      then show ?thesis using new okn Some True by (auto simp: contents_def home_def)
    next
      case False
      then have ok: "old_ok t h old ?j" "chain_ok t (hash0 h) (oldB h) ?j (old ! ?j)"
        using old(2) i(2) by (auto simp: old_ok_def)
      then have "buckets h ! ?n = [empty_bmap t]" using i(1) False by (auto simp: old_ok_def)
      then have "matches t k (kvss (buckets h)) = {#}" using new pristine_ok(2) [of t] by simp
      then show ?thesis using olds ok(2) Some False by (auto simp: contents_def home_def)
    qed
  qed
  then show "matches t k (contents h) = matches t k (kvs (concat (home t h k)))"
    "\<exists>b n. chain_ok t (hash0 h) b n (home t h k)" by auto
qed

lemma drop_mask: "b < 63 \<Longrightarrow> drop_bit 1 (mask (Suc b) :: u64) = mask b"
  by (rule bit_eqI) (auto simp: bit_simps)

lemma map_find_home:
  assumes "hm_inv t h"
  shows "map_find t h k = scan_chain t k (top_of (hasher t k (hash0 h))) (home t h k)"
proof -
  let ?x = "hasher t k (hash0 h)"
  show ?thesis
  proof (cases "oldbuckets h")
    case None
    then show ?thesis by (simp add: map_find_def home_def idx_def Let_def)
  next
    case (Some old)
    note facts = oldB_facts [OF assms Some]
    have "drop_bit 1 (bucketMask (hB h)) = bucketMask (oldB h)" if "\<not> same_size h"
      using facts that drop_mask [of "oldB h"] by (simp add: bucketMask_mask)
    then have m: "(if same_size h then bucketMask (hB h) else drop_bit 1 (bucketMask (hB h))) = bucketMask (oldB h)"
      using facts by auto
    have "old_ok t h old (idx (oldB h) ?x)" using assms Some idx_old(2) [OF assms Some] by (auto simp: hm_inv_def)
    then have "evacuated (old ! idx (oldB h) ?x) = evac_done (old ! idx (oldB h) ?x)" by (rule evacuated_iff)
    then show ?thesis using Some m by (simp add: map_find_def home_def idx_def Let_def)
  qed
qed

lemma map_find_spec:
  assumes "maptype_ok t" "hm_inv t h" "rep t (contents h) m"
  shows "map_find t h k = m k"
proof -
  obtain b n where "chain_ok t (hash0 h) b n (home t h k)" using home_matches(2) [OF assms(1,2)] by blast
  then have "cells_ok t (hash0 h) (bucketMask b) n (concat (home t h k))" by (simp add: chain_ok_def)
  then show ?thesis
    unfolding map_find_home [OF assms(2)]
    using scan_chain_spec [OF assms(1), of "hash0 h" "bucketMask b" n "home t h k" k "m k"]
      home_matches(1) [OF assms(1,2), of k] repD [OF assms(3), of k] by simp
qed

section \<open>Changing the bucket of a key\<close>

lemma put_home:
  assumes inv: "hm_inv t h" and free: "home_free h x" and only: "only_new h h'"
    and bs: "buckets h' = (buckets h)[idx (hB h) x := ch']" "unat (noverflow h') \<le> ovf (buckets h')"
    and ch': "chain_ok t (hash0 h) (hB h) (idx (hB h) x) ch'"
  shows "hm_inv t h'" "contents h' + kvs (concat (buckets h ! idx (hB h) x)) = contents h + kvs (concat ch')"
proof -
  let ?n = "idx (hB h) x"
  have f: "hB h' = hB h" "same_size h' = same_size h" "hash0 h' = hash0 h" "oldbuckets h' = oldbuckets h"
    "nevacuate h' = nevacuate h" using only by (auto simp: only_new_def)
  have H: "hB h < 64" "hB h \<le> 48" "length (buckets h) = 2 ^ hB h"
    "\<forall>n<2 ^ hB h. chain_ok t (hash0 h) (hB h) n (buckets h ! n)"
    using inv by (auto simp: hm_inv_def)
  have n: "?n < length (buckets h)" using idx_less [OF H(1)] H(3) by simp
  have oB: "oldB h' = oldB h" by (simp add: oldB_def f)
  have olds: "old_ok t h' old j" if o': "oldbuckets h = Some old" and j: "j < 2 ^ oldB h" for old j
  proof -
    have ok: "old_ok t h old j" using inv o' j by (auto simp: hm_inv_def)
    show ?thesis
    proof (cases "j = idx (oldB h) x")
      case True
      then show ?thesis using free o' by (simp add: home_free_def old_ok_def)
    next
      case False
      then have "?n \<noteq> j" "\<not> same_size h \<Longrightarrow> ?n \<noteq> j + 2 ^ oldB h"
        using idx_old [OF inv o', of x] j by auto
      then show ?thesis using ok by (auto simp: old_ok_def oB f bs(1))
    qed
  qed
  show "hm_inv t h'"
    unfolding hm_inv_def oB using inv H(2-4) bs n ch' olds
    by (auto simp: f nth_list_update hm_inv_def split: option.splits)
  show "contents h' + kvs (concat (buckets h ! ?n)) = contents h + kvs (concat ch')"
    using kvss_update [OF n, of ch'] by (simp add: contents_def f bs(1) ac_simps)
qed

section \<open>Assignment\<close>

text \<open>What an assignment does once the map need not grow, and when it must grow first.\<close>

definition assign_put :: "('k, 'v) maptype \<Rightarrow> nat \<Rightarrow> u8 \<Rightarrow> 'k \<Rightarrow> 'v \<Rightarrow> ('k, 'v) hmap \<Rightarrow> ('k, 'v) hmap" where
  "assign_put t n tp key v h =
     (case slot_chain t key tp 0 None (buckets h ! n) of
        Hit b i \<Rightarrow>
          let c = buckets h ! n ! b ! i; c = (if needkeyupdate t then c\<lparr>ckey := key\<rparr> else c)
          in set_cell n b i (c\<lparr>celem := v\<rparr>) h
      | More ins \<Rightarrow> h
      | Rest ins \<Rightarrow>
          let ((b, i), h) =
                (case ins of Some p \<Rightarrow> (p, h) | None \<Rightarrow> ((length (buckets h ! n), 0), newoverflow t n h));
              h = set_cell n b i \<lparr>tophash = tp, ckey = key, celem = v\<rparr> h
          in h\<lparr>hcount := hcount h + 1\<rparr>)"

definition needs_grow :: "('k, 'v) maptype \<Rightarrow> nat \<Rightarrow> u8 \<Rightarrow> 'k \<Rightarrow> ('k, 'v) hmap \<Rightarrow> bool" where
  "needs_grow t n tp key h \<longleftrightarrow>
     (case slot_chain t key tp 0 None (buckets h ! n) of Rest _ \<Rightarrow> True | _ \<Rightarrow> False) \<and>
     \<not> growing h \<and> (overLoadFactor (hcount h + 1) (hB h) \<or> tooManyOverflowBuckets (noverflow h) (hB h))"

lemma assign_again_step:
  assumes "(if growing h then growWork t (hash AND bucketMask (hB h)) h else Ret h) = Ret h1"
    and "blocks (buckets h1 ! idx (hB h) hash)"
  shows "assign_again (Suc fuel) t hash key v h =
    (if needs_grow t (idx (hB h) hash) (top_of hash) key h1 then assign_again fuel t hash key v (hashGrow t h1)
     else Ret (assign_put t (idx (hB h) hash) (top_of hash) key v h1))"
  using assms(1) slot_chain_flat [OF assms(2), of t key "top_of hash"]
  by (auto simp: needs_grow_def assign_put_def Let_def idx_def split: slot.splits fslot.splits prod.splits)

lemma hm_inv_fields [simp]:
  "hm_inv t (h\<lparr>hcount := c\<rparr>) = hm_inv t h" "contents (h\<lparr>hcount := c\<rparr>) = contents h"
  "hm_inv t (h\<lparr>hash_writing := w\<rparr>) = hm_inv t h" "contents (h\<lparr>hash_writing := w\<rparr>) = contents h"
  by (simp_all add: hm_inv_def contents_def old_ok_def oldB_def split: option.split)

lemma kvs_in: "c \<in> set cs \<Longrightarrow> live c \<Longrightarrow> kv c \<in># kvs cs"
  by (auto simp: kvs_def)

lemma multiset_exchange:
  assumes "A + K = B + L" "L + x = K + y" shows "A + x = B + (y :: 'a multiset)"
proof -
  have "(A + x) + K = (A + K) + x" by (simp add: ac_simps)
  also have "\<dots> = B + (L + x)" by (simp add: assms(1) ac_simps)
  also have "\<dots> = (B + y) + K" by (simp add: assms(2) ac_simps)
  finally show ?thesis by simp
qed

text \<open>The map and the phase of growing after a change in the bucket of a key.\<close>

definition put_ok ::
  "('k, 'v) maptype \<Rightarrow> ('k, 'v) hmap \<Rightarrow> ('k, 'v) amap \<Rightarrow> int \<Rightarrow> ('k, 'v) hmap \<Rightarrow> bool" where
  "put_ok t h m n h' \<longleftrightarrow> hm_inv t h' \<and> rep t (contents h') m \<and> hcount h' = int (size (contents h')) \<and>
     hash0 h' = hash0 h \<and> hash_writing h' = hash_writing h \<and> hcount h' = hcount h + n"

lemma home_chain:
  assumes "hm_inv t h" "home_free h (hasher t k (hash0 h))"
  shows "home t h k = buckets h ! idx (hB h) (hasher t k (hash0 h))"
    "chain_ok t (hash0 h) (hB h) (idx (hB h) (hasher t k (hash0 h))) (home t h k)"
proof -
  show eq: "home t h k = buckets h ! idx (hB h) (hasher t k (hash0 h))"
    using assms(2) by (auto simp: home_def home_free_def Let_def split: option.splits)
  have "idx (hB h) (hasher t k (hash0 h)) < 2 ^ hB h" using assms(1) idx_less by (simp add: hm_inv_def)
  then show "chain_ok t (hash0 h) (hB h) (idx (hB h) (hasher t k (hash0 h))) (home t h k)"
    unfolding eq using assms(1) by (simp add: hm_inv_def)
qed

lemma ovf_same_length:
  "n < length chs \<Longrightarrow> length ch = length (chs ! n) \<Longrightarrow> ovf (chs[n := ch]) = ovf chs"
  using ovf_update [of n chs ch] by simp

text \<open>A cell of a chain is replaced, the first empty cell is filled, or a block is added.\<close>

lemma chain_replace:
  assumes ok: "chain_ok t s B n ch" and b: "b < length ch" "i < 8"
    and c: "live (ch ! b ! i)" "live c" "cell_ok t s (bucketMask B) n c"
  shows "chain_ok t s B n (ch[b := (ch ! b)[i := c]])"
    "kvs (concat (ch[b := (ch ! b)[i := c]])) + {#kv (ch ! b ! i)#} = kvs (concat ch) + {#kv c#}"
proof -
  have bl: "blocks ch" and cells: "cells_ok t s (bucketMask B) n (concat ch)" using ok by (auto simp: chain_ok_def)
  note flat = blocks_flat [OF bl b]
  have nz: "tophash c \<noteq> 0" "tophash (concat ch ! (8 * b + i)) \<noteq> 0" using c(1,2) flat(1) by (auto simp: live_def)
  show "chain_ok t s B n (ch[b := (ch ! b)[i := c]])"
    using cells_ok_upd [OF cells flat(2) c(3) nz(1)] cells_ok_before [OF cells flat(2) nz(2)] blocks_upd [OF bl b(1)]
    by (simp add: chain_ok_def flat(3))
  show "kvs (concat (ch[b := (ch ! b)[i := c]])) + {#kv (ch ! b ! i)#} = kvs (concat ch) + {#kv c#}"
    using kvs_update [OF flat(2), of c] c(1,2) flat(1) by (simp add: flat(3))
qed

lemma chain_fill:
  assumes ok: "chain_ok t s B n ch" and b: "b < length ch" "i < 8" and fe: "first_empty (concat ch) (Some (8 * b + i))"
    and c: "live c" "cell_ok t s (bucketMask B) n c"
  shows "chain_ok t s B n (ch[b := (ch ! b)[i := c]])"
    "kvs (concat (ch[b := (ch ! b)[i := c]])) = add_mset (kv c) (kvs (concat ch))"
proof -
  have bl: "blocks ch" and cells: "cells_ok t s (bucketMask B) n (concat ch)" using ok by (auto simp: chain_ok_def)
  note flat = blocks_flat [OF bl b]
  have e: "isEmpty (tophash (concat ch ! (8 * b + i)))" "\<forall>j<8 * b + i. tophash (concat ch ! j) \<noteq> 0"
    using fe by (auto simp: first_empty_def isEmpty_alt)
  have "tophash c \<noteq> 0" using c(1) by (auto simp: live_def)
  then show "chain_ok t s B n (ch[b := (ch ! b)[i := c]])"
    using cells_ok_upd [OF cells flat(2) c(2) _ e(2)] blocks_upd [OF bl b(1)] by (simp add: chain_ok_def flat(3))
  show "kvs (concat (ch[b := (ch ! b)[i := c]])) = add_mset (kv c) (kvs (concat ch))"
    using kvs_put [OF flat(2) not_live_empty [OF e(1)] c(1)] by (simp add: flat(3))
qed

lemma chain_extend:
  assumes ok: "chain_ok t s B n ch" and fe: "first_empty (concat ch) None"
    and c: "live c" "cell_ok t s (bucketMask B) n c"
  defines "ch2 \<equiv> ch @ [(empty_bmap t)[0 := c]]"
  shows "chain_ok t s B n ch2" "kvs (concat ch2) = add_mset (kv c) (kvs (concat ch))" "length ch2 = Suc (length ch)"
proof -
  have bl: "blocks ch" and cells: "cells_ok t s (bucketMask B) n (concat ch)" using ok by (auto simp: chain_ok_def)
  have all: "\<forall>c\<in>set (concat ch). \<not> isEmpty (tophash c)" using fe by (simp add: first_empty_def)
  have "tophash c \<noteq> 0" using c(1) by (auto simp: live_def)
  then have "cells_ok t s (bucketMask B) n ((empty_bmap t)[0 := c])"
    using pristine_ok(1) [of t s B n] c(2) by (intro cells_ok_upd) (auto simp: chain_ok_def empty_bmap_alt)
  then show "chain_ok t s B n ch2"
    using cells_ok_app [OF cells all] bl by (auto simp: ch2_def chain_ok_def blocks_def empty_bmap_alt)
  have "kvs ((empty_bmap t)[0 := c]) = {#kv c#}"
    using kvs_put [of 0 "empty_bmap t" c] c(1) zero_cell_dead(2) [of t] pristine_ok(2) [of t] by (simp add: empty_bmap_alt)
  then show "kvs (concat ch2) = add_mset (kv c) (kvs (concat ch))" "length ch2 = Suc (length ch)" by (simp_all add: ch2_def)
qed

lemma assign_hit:
  assumes t: "maptype_ok t" and inv: "hm_inv t h" and x: "x = hasher t key (hash0 h)" and free: "home_free h x"
    and rep: "rep t (contents h) m" and cnt: "hcount h = int (size (contents h))" and n: "n = idx (hB h) x"
    and p: "slot_flat t key (top_of x) 0 None (concat (buckets h ! n)) = FHit p"
  shows "put_ok t h (abs_assign t m key v) 0 (assign_put t n (top_of x) key v h)" "m key \<noteq> None"
proof -
  let ?ch = "buckets h ! n"
  have ok: "chain_ok t (hash0 h) (hB h) n ?ch" "home t h key = ?ch" using home_chain [OF inv] free x n by auto
  then have bl: "blocks ?ch" and cells: "cells_ok t (hash0 h) (bucketMask (hB h)) n (concat ?ch)"
    by (auto simp: chain_ok_def)
  have "slot_ok t key (top_of x) (concat ?ch) (FHit p)" using slot_flat_spec [OF t cells, of key] p x by simp
  then have hit: "p < length (concat ?ch)" "tophash (concat ?ch ! p) = top_of x" "key_equal t key (ckey (concat ?ch ! p))"
    by (auto simp: slot_ok_def)
  obtain b i where bi: "p = 8 * b + i" "b < length ?ch" "i < 8" "b = p div 8" "i = p mod 8" using flat_pos [OF bl hit(1)] .
  define c c2 where "c = ?ch ! b ! i" and "c2 = (if needkeyupdate t then c\<lparr>ckey := key\<rparr> else c)\<lparr>celem := v\<rparr>"
  let ?h = "set_cell n b i c2 h"
  have c: "concat ?ch ! p = c" using blocks_flat(1) [OF bl bi(2,3)] bi(1) by (simp add: c_def)
  have top: "tophash c2 = top_of x" "key_equal t key (ckey c2)" "celem c2 = v"
    using hit(2,3) c maptype_okD(1) [OF t] by (auto simp: c2_def)
  then have live: "live c" "live c2" using hit(2) c live_top by auto
  have eq: "assign_put t n (top_of x) key v h = ?h"
    using slot_chain_flat [OF bl, of t key "top_of x"] p bi(4,5) by (simp add: assign_put_def c2_def c_def Let_def)
  have "cell_ok t (hash0 h) (bucketMask (hB h)) n c2"
    using top maptype_okD(4) [OF t top(2), of "hash0 h"] x n by (simp add: cell_ok_def idx_def)
  note new = chain_replace [OF ok(1) bi(2,3) live(1) [unfolded c_def] live(2) this]
  have nl: "n < length (buckets h)" using n inv idx_less by (simp add: hm_inv_def)
  have ov: "unat (noverflow ?h) \<le> ovf (buckets ?h)"
    using inv ovf_same_length [OF nl, of "?ch[b := (?ch ! b)[i := c2]]"] by (simp add: frame_simps hm_inv_def)
  note put = put_home [OF inv free set_cell_only(1), unfolded n [symmetric], OF set_cell_only(3) ov new(1)]
  have M: "add_mset (kv c) (contents ?h) = add_mset (ckey c2, v) (contents h)"
    using multiset_exchange [OF put(2), of "{#kv c#}" "{#kv c2#}"] new(2) top(3) by (simp add: kv_def c_def)
  have "kv c \<in># matches t key (contents h)"
    using home_matches(1) [OF t inv, of key] ok(2) hit(3) c kvs_in [OF nth_mem [OF hit(1)]] live(1)
    by (simp add: matches_def kv_def)
  then have mk: "m key = Some (kv c)" using repD [OF rep, of key] by (auto split: option.splits)
  then show "m key \<noteq> None" by simp
  have "abs_assign t m key v = (\<lambda>k. if key_equal t key k then Some (ckey c2, v) else m k)"
    using mk by (auto simp: abs_assign_def kv_def c2_def)
  then have "rep t (contents ?h) (abs_assign t m key v)" using rep_change [OF t rep mk M top(2)] by simp
  moreover have "size (contents ?h) = size (contents h)" using arg_cong [OF M, of size] by simp
  ultimately show "put_ok t h (abs_assign t m key v) 0 (assign_put t n (top_of x) key v h)"
    using put(1) cnt set_cell_only(1) [of h n b i c2] by (simp add: put_ok_def eq only_new_def)
qed

text \<open>A new key, wherever its cell is.\<close>

lemma add_key:
  assumes t: "maptype_ok t" and inv: "hm_inv t h" and free: "home_free h x"
    and rep: "rep t (contents h) m" and cnt: "hcount h = int (size (contents h))" and n: "n = idx (hB h) x"
    and mk: "m key = None" and c: "kv c = (key, v)"
    and h': "only_new h h'" "buckets h' = (buckets h)[n := ch2]" "unat (noverflow h') \<le> ovf (buckets h')"
    and ch2: "chain_ok t (hash0 h) (hB h) n ch2" "kvs (concat ch2) = add_mset (kv c) (kvs (concat (buckets h ! n)))"
  shows "put_ok t h (abs_assign t m key v) 1 (h'\<lparr>hcount := hcount h + 1\<rparr>)"
proof -
  note put = put_home [OF inv free h'(1), unfolded n [symmetric], OF h'(2,3) ch2(1)]
  have M: "contents h' = add_mset (key, v) (contents h)"
    using multiset_exchange [OF put(2), of "{#}" "{#kv c#}"] ch2(2) c by simp
  have "abs_assign t m key v = (\<lambda>k. if key_equal t key k then Some (key, v) else m k)"
    using mk by (simp add: abs_assign_def)
  then have "rep t (contents h') (abs_assign t m key v)" using rep_add [OF t rep mk] M by simp
  then show ?thesis using put(1) cnt M h'(1) by (simp add: put_ok_def only_new_def)
qed

lemma assign_new:
  assumes t: "maptype_ok t" and inv: "hm_inv t h" and x: "x = hasher t key (hash0 h)" and free: "home_free h x"
    and rep: "rep t (contents h) m" and cnt: "hcount h = int (size (contents h))" and n: "n = idx (hB h) x"
    and r: "slot_flat t key (top_of x) 0 None (concat (buckets h ! n)) \<in> {FRest ins, FMore ins}"
  shows "put_ok t h (abs_assign t m key v) 1 (assign_put t n (top_of x) key v h)" "m key = None"
proof -
  let ?ch = "buckets h ! n"
  define c where "c = \<lparr>tophash = top_of x, ckey = key, celem = v\<rparr>"
  have ok: "chain_ok t (hash0 h) (hB h) n ?ch" "home t h key = ?ch" using home_chain [OF inv] free x n by auto
  then have bl: "blocks ?ch" and cells: "cells_ok t (hash0 h) (bucketMask (hB h)) n (concat ?ch)"
    by (auto simp: chain_ok_def)
  have nl: "n < length (buckets h)" using n inv idx_less by (simp add: hm_inv_def)
  have s: "matches t key (kvs (concat ?ch)) = {#}" "first_empty (concat ?ch) ins"
    using slot_flat_spec [OF t cells, of key] r x by (auto simp: slot_ok_def)
  have live: "live c" "kv c = (key, v)" using live_top [of c x] by (simp_all add: c_def kv_def)
  have cok: "cell_ok t (hash0 h) (bucketMask (hB h)) n c" using x n by (simp add: cell_ok_def idx_def c_def)
  show mk: "m key = None"
    using home_matches(1) [OF t inv, of key] ok(2) s(1) repD [OF rep, of key] by (auto split: option.splits)
  note add = add_key [OF t inv free rep cnt n mk live(2)]
  have slot: "slot_chain t key (top_of x) 0 None ?ch = Rest (map_option (\<lambda>p. (p div 8, p mod 8)) ins)"
    using slot_chain_flat [OF bl, of t key "top_of x"] r by auto
  show "put_ok t h (abs_assign t m key v) 1 (assign_put t n (top_of x) key v h)"
  proof (cases ins)
    case (Some p)
    then have "p < length (concat ?ch)" using s(2) by (simp add: first_empty_def)
    from flat_pos [OF bl this]
    obtain b i where bi: "p = 8 * b + i" "b < length ?ch" "i < 8" "b = p div 8" "i = p mod 8" .
    let ?ch2 = "?ch[b := (?ch ! b)[i := c]]" and ?h = "set_cell n b i c h"
    note new = chain_fill [OF ok(1) bi(2,3) s(2) [unfolded Some bi(1)] live(1) cok]
    have "unat (noverflow ?h) \<le> ovf (buckets ?h)"
      using inv ovf_same_length [OF nl, of ?ch2] by (simp add: frame_simps hm_inv_def)
    moreover have "assign_put t n (top_of x) key v h = ?h\<lparr>hcount := hcount h + 1\<rparr>"
      using slot Some bi(4,5) by (simp add: assign_put_def c_def set_cell_def)
    ultimately show ?thesis using add [OF set_cell_only(1,3) _ new] by simp
  next
    case None
    let ?ch2 = "?ch @ [(empty_bmap t)[0 := c]]" and ?h = "set_cell n (length ?ch) 0 c (newoverflow t n h)"
    note new = chain_extend [OF ok(1) s(2) [unfolded None] live(1) cok]
    have bs: "buckets ?h = (buckets h)[n := ?ch2]" using nl by (simp add: frame_simps)
    have only: "only_new h ?h" by (rule only_new_trans [OF newoverflow_only(1) set_cell_only(1)])
    have "ovf (buckets ?h) = Suc (ovf (buckets h))"
      using ovf_update [OF nl, of ?ch2] bl new(3) unfolding bs by (cases "length ?ch") (auto simp: blocks_def)
    moreover have "unat (noverflow ?h) \<le> Suc (unat (noverflow h))" unfolding set_cell_only(2) by (rule newoverflow_only(3))
    ultimately have "unat (noverflow ?h) \<le> ovf (buckets ?h)" using inv by (simp add: hm_inv_def)
    moreover have "assign_put t n (top_of x) key v h = ?h\<lparr>hcount := hcount h + 1\<rparr>"
      using slot None only by (simp add: assign_put_def c_def only_new_def)
    ultimately show ?thesis using add [OF only bs _ new(1,2)] by simp
  qed
qed

declare assign_again.simps [simp del]

lemma assign_put_ok:
  assumes "maptype_ok t" "hm_inv t h" "home_free h (hasher t key (hash0 h))" "rep t (contents h) m"
    and "hcount h = int (size (contents h))"
  shows "put_ok t h (abs_assign t m key v) (if m key = None then 1 else 0)
    (assign_put t (idx (hB h) (hasher t key (hash0 h))) (top_of (hasher t key (hash0 h))) key v h)"
proof (cases "slot_flat t key (top_of (hasher t key (hash0 h))) 0 None (concat (buckets h ! idx (hB h) (hasher t key (hash0 h))))")
  case (FHit p)
  then show ?thesis using assign_hit [OF assms(1,2) refl assms(3-5) refl FHit] by (cases "m key") auto
next
  case (FRest ins)
  then show ?thesis using assign_new [OF assms(1,2) refl assms(3-5) refl, of ins] by simp
next
  case (FMore ins)
  then show ?thesis using assign_new [OF assms(1,2) refl assms(3-5) refl, of ins] by simp
qed

section \<open>The loop of an assignment ends\<close>

lemma overLoad_alt:
  assumes "0 \<le> c" "c \<le> 2 ^ 48" "b \<le> 48"
  shows "overLoadFactor c b \<longleftrightarrow> 8 < c \<and> 13 * (2 ^ b div 2) < nat c"
proof -
  have "(2 :: nat) ^ b \<le> 2 ^ 48" using assms(3) by (rule power_increasing) simp
  then have "unat (13 * (bucketShift b div 2)) = 13 * (2 ^ b div 2)"
    using assms(3) by (simp add: unat_word_ariths unat_div_distrib unat_bucketShift)
  moreover have "unat (word_of_int c :: u64) = nat c"
    using assms(1,2) by (simp add: unsigned_of_int take_bit_int_eq_self)
  ultimately show ?thesis by (simp add: overLoadFactor_def word_less_nat_alt)
qed

lemma overLoad_room:
  assumes "0 \<le> c" "c \<le> 2 ^ 48" "b \<le> 48" "overLoadFactor c b"
  shows "b < 48"
proof (rule ccontr)
  assume "\<not> b < 48"
  then have "b = 48" using assms(3) by simp
  moreover have "nat c \<le> 2 ^ 48" using assms(2) by (simp add: nat_le_iff)
  ultimately show False using assms by (simp add: overLoad_alt)
qed

text \<open>When no old bucket is left and no chain is longer than needed, a map of one or two buckets that
  is not overloaded has room.\<close>

lemma ovf_dense:
  assumes "dense h"
  shows "8 * ovf (buckets h) \<le> size (kvss (buckets h))"
proof -
  have "\<forall>ch\<in>set chs. 8 * (length ch - 1) \<le> size (kvs (concat ch)) \<Longrightarrow> 8 * ovf chs \<le> size (kvss chs)"
    for chs :: "('a, 'b) chain list"
    by (induction chs) (auto simp: ovf_def kvss_simps)
  then show ?thesis using assms by (simp add: dense_def)
qed

lemma dense_room:
  assumes "hm_inv t h" "\<not> growing h" "dense h" "hB h \<le> 1" "hcount h = int (size (contents h))"
    and "hcount h + 1 \<le> 2 ^ 48" "\<not> overLoadFactor (hcount h + 1) (hB h)"
  shows "\<not> tooManyOverflowBuckets (noverflow h) (hB h)"
proof -
  have c: "hcount h + 1 \<le> (if hB h = 0 then 8 else 13)"
    using assms(4-7) by (auto simp: overLoad_alt le_Suc_eq split: if_splits)
  have "8 * unat (noverflow h) \<le> size (contents h)"
    using ovf_dense [OF assms(3)] assms(1,2) by (simp add: hm_inv_def contents_def growing_def)
  moreover have "size (contents h) < (if hB h = 0 then 8 else 13)" using c assms(5) by (auto split: if_splits)
  ultimately have "8 * unat (noverflow h) < (if hB h = 0 then 8 else 13)" by linarith
  then show ?thesis using assms(4) by (auto simp: tooManyOverflowBuckets_def word_le_nat_alt le_Suc_eq split: if_splits)
qed

lemma grow_step:
  assumes "hm_inv t h"
  shows "\<exists>h1. (if growing h then growWork t (x AND bucketMask (hB h)) h else Ret h) = Ret h1 \<and> hm_inv t h1 \<and>
    same_map h h1 \<and> home_free h1 x \<and> (dense h \<longrightarrow> dense h1) \<and>
    (\<forall>old. oldbuckets h = Some old \<longrightarrow> 2 \<le> oldB h \<longrightarrow> (\<forall>i<2 ^ oldB h. \<not> evac_done (old ! i)) \<longrightarrow> growing h1)"
proof (cases "oldbuckets h")
  case None
  then show ?thesis using assms by (simp add: growing_def same_map_def home_free_def)
next
  case (Some old)
  then show ?thesis using growWork_spec [OF assms Some, of x] by (auto simp: growing_def)
qed

lemma not_grow_returns:
  assumes t: "maptype_ok t" and inv: "hm_inv t h" "rep t (contents h) m" "hcount h = int (size (contents h))"
    and x: "x = hasher t key (hash0 h)"
    and h1: "(if growing h then growWork t (x AND bucketMask (hB h)) h else Ret h) = Ret h1" "hm_inv t h1" "same_map h h1"
      "home_free h1 x"
    and n: "\<not> needs_grow t (idx (hB h) x) (top_of x) key h1"
  shows "\<exists>h'. assign_again (Suc fuel) t x key v h = Ret h' \<and>
    put_ok t h (abs_assign t m key v) (if m key = None then 1 else 0) h'"
proof -
  have s: "hB h1 = hB h" "hash0 h1 = hash0 h" "contents h1 = contents h" "hcount h1 = hcount h"
    "hash_writing h1 = hash_writing h" using h1(3) by (auto simp: same_map_def)
  have "put_ok t h1 (abs_assign t m key v) (if m key = None then 1 else 0)
      (assign_put t (idx (hB h) x) (top_of x) key v h1)"
    using assign_put_ok [OF t h1(2), of key m v] inv(2,3) h1(4) by (simp add: s x)
  moreover have "blocks (buckets h1 ! idx (hB h) x)"
    using home_chain [OF h1(2), of key] h1(4) by (simp add: s x chain_ok_def)
  ultimately show ?thesis using assign_again_step [OF h1(1)] n by (auto simp: put_ok_def s)
qed

lemma again_returns:
  assumes t: "maptype_ok t"
  shows "\<lbrakk> hm_inv t h; rep t (contents h) m; hcount h = int (size (contents h)); hcount h + 1 \<le> 2 ^ 48;
      x = hasher t key (hash0 h); 2 \<le> fuel; 4 \<le> fuel + hB h \<rbrakk> \<Longrightarrow>
    \<exists>h'. assign_again fuel t x key v h = Ret h' \<and>
      put_ok t h (abs_assign t m key v) (if m key = None then 1 else 0) h'"
proof (induction fuel arbitrary: h)
  case (Suc fuel)
  note prems = Suc.prems
  let ?goal = "\<exists>h'. assign_again (Suc fuel) t x key v h = Ret h' \<and>
    put_ok t h (abs_assign t m key v) (if m key = None then 1 else 0) h'"
  obtain h1 where h1: "(if growing h then growWork t (x AND bucketMask (hB h)) h else Ret h) = Ret h1"
    "hm_inv t h1" "same_map h h1" "home_free h1 x" using grow_step [OF prems(1), of x] by blast
  have s: "hB h1 = hB h" "hash0 h1 = hash0 h" "contents h1 = contents h" "hcount h1 = hcount h"
    "hash_writing h1 = hash_writing h" using h1(3) by (auto simp: same_map_def)
  show ?case
  proof (cases "needs_grow t (idx (hB h) x) (top_of x) key h1")
    case False
    then show ?thesis using not_grow_returns [OF t prems(1-3,5) h1] by blast
  next
    case True
    let ?h2 = "hashGrow t h1" and ?over = "overLoadFactor (hcount h1 + 1) (hB h1)"
    have ng: "\<not> growing h1" using True by (simp add: needs_grow_def)
    have room: "?over \<Longrightarrow> hB h1 < 48"
      using overLoad_room [of "hcount h1 + 1" "hB h1"] prems(3,4) h1(2) by (simp add: s hm_inv_def)
    note g = hashGrow_spec [OF h1(2) ng room]
    have B2: "hB ?h2 = (if ?over then hB h + 1 else hB h)" using g(10) by (simp add: s)
    have "blocks (buckets h1 ! idx (hB h) x)"
      using home_chain [OF h1(2), of key] h1(4) prems(5) by (simp add: s chain_ok_def)
    then have eq: "assign_again (Suc fuel) t x key v h = assign_again fuel t x key v ?h2"
      using assign_again_step [OF h1(1)] True by simp
    have h2: "rep t (contents ?h2) m" "hcount ?h2 = int (size (contents ?h2))" "hcount ?h2 + 1 \<le> 2 ^ 48"
      "x = hasher t key (hash0 ?h2)" using prems g by (simp_all add: s)
    have again: ?goal if "\<exists>h'. assign_again fuel t x key v ?h2 = Ret h' \<and>
        put_ok t ?h2 (abs_assign t m key v) (if m key = None then 1 else 0) h'"
      using that g(7-9) unfolding eq by (auto simp: put_ok_def s)
    obtain h3 where h3: "(if growing ?h2 then growWork t (x AND bucketMask (hB ?h2)) ?h2 else Ret ?h2) = Ret h3"
      "hm_inv t h3" "same_map ?h2 h3" "home_free h3 x" "dense ?h2 \<longrightarrow> dense h3" "2 \<le> hB h \<longrightarrow> growing h3"
      using grow_step [OF g(1), of x] g(4-6) by (auto simp: s)
    obtain f where f: "fuel = Suc f" using prems(6) by (cases fuel) auto
    have stop: ?goal if "\<not> needs_grow t (idx (hB ?h2) x) (top_of x) key h3"
      using not_grow_returns [OF t g(1) h2(1,2,4) h3(1-4) that, of f v] f by (intro again) simp
    show ?thesis
    proof (cases "growing h3")
      case True
      then show ?thesis by (intro stop) (simp add: needs_grow_def)
    next
      case n3: False
      then have B: "hB h \<le> 1" using h3(6) by auto
      show ?thesis
      proof (cases ?over)
        case True
        then have "2 \<le> fuel \<and> 4 \<le> fuel + hB ?h2" using prems(7) B B2 by auto
        then show ?thesis using Suc.IH [OF g(1) h2] by (intro again) simp
      next
        case False
        have s3: "hB h3 = hB h" "hcount h3 = hcount h" "contents h3 = contents h"
          using h3(3) B2 False g(2,8) by (simp_all add: same_map_def s)
        have "\<not> tooManyOverflowBuckets (noverflow h3) (hB h3)"
          using dense_room [OF h3(2) n3] h3(5) g(3) B prems(3,4) False by (simp add: s3 s)
        then show ?thesis using False by (intro stop) (simp add: needs_grow_def s3 s)
      qed
    qed
  qed
qed simp

section \<open>Lookup, assignment and deletion\<close>

definition map_ok :: "('k, 'v) maptype \<Rightarrow> ('k, 'v) hmap \<Rightarrow> ('k, 'v) amap \<Rightarrow> bool" where
  "map_ok t h m \<longleftrightarrow> hm_inv t h \<and> rep t (contents h) m \<and> hcount h = int (size (contents h))"

text \<open>A map without buckets, which are allocated at the first assignment.\<close>

definition lazy_map :: "('k, 'v) hmap \<Rightarrow> bool" where
  "lazy_map h \<longleftrightarrow> buckets h = [] \<and> hB h = 0 \<and> oldbuckets h = None \<and> \<not> same_size h \<and> noverflow h = 0 \<and> hcount h = 0"

definition map_state :: "('k, 'v) maptype \<Rightarrow> ('k, 'v) hmap \<Rightarrow> ('k, 'v) amap \<Rightarrow> bool" where
  "map_state t h m \<longleftrightarrow> \<not> hash_writing h \<and> (map_ok t h m \<or> lazy_map h \<and> m = (\<lambda>_. None))"

lemma map_state_count:
  assumes "maptype_ok t" "map_state t h m"
  shows "hcount h = int (card (Map.ran m))" "hcount h = 0 \<longleftrightarrow> m = (\<lambda>_. None)"
proof -
  have "hcount h = int (card (Map.ran m)) \<and> (hcount h = 0 \<longleftrightarrow> m = (\<lambda>_. None))"
  proof (cases "map_ok t h m")
    case True
    then have r: "rep t (contents h) m" "hcount h = int (size (contents h))" by (simp_all add: map_ok_def)
    have "m k = None" if "contents h = {#}" for k
      using repD [OF r(1), of k] that by (auto split: option.splits)
    then have "m = (\<lambda>_. None)" if "contents h = {#}" using that by blast
    moreover have "contents h = {#}" if "m = (\<lambda>_. None)"
      using rep_card [OF assms(1) r(1)] that by simp
    ultimately show ?thesis using r(2) rep_card [OF assms(1) r(1)] by auto
  next
    case False
    then show ?thesis using assms(2) by (simp add: map_state_def lazy_map_def)
  qed
  then show "hcount h = int (card (Map.ran m))" "hcount h = 0 \<longleftrightarrow> m = (\<lambda>_. None)" by auto
qed

lemma lookup_spec:
  assumes "maptype_ok t" "map_state t h m"
  shows "mapaccess1 t (Some h) k = Ret (case m k of None \<Rightarrow> zero_elem t | Some (_, v) \<Rightarrow> v)"
    "mapaccess2 t (Some h) k = Ret (case m k of None \<Rightarrow> (zero_elem t, False) | Some (_, v) \<Rightarrow> (v, True))"
    "mapaccessK t (Some h) k = m k"
proof -
  note c = map_state_count(2) [OF assms]
  have w: "\<not> hash_writing h" using assms(2) by (simp add: map_state_def)
  have find: "map_find t h k = m k" if "hcount h \<noteq> 0"
    using map_find_spec [OF assms(1)] assms(2) that by (auto simp: map_state_def map_ok_def lazy_map_def)
  show "mapaccess1 t (Some h) k = Ret (case m k of None \<Rightarrow> zero_elem t | Some (_, v) \<Rightarrow> v)"
    "mapaccess2 t (Some h) k = Ret (case m k of None \<Rightarrow> (zero_elem t, False) | Some (_, v) \<Rightarrow> (v, True))"
    "mapaccessK t (Some h) k = m k"
    using c w find by (auto simp: mapaccess1_def mapaccess2_def mapaccessK_def)
qed

lemma mapassign_spec:
  assumes t: "maptype_ok t" and s: "map_state t h m" and c: "hcount h + 1 \<le> 2 ^ 48"
  shows "\<exists>h'. mapassign t (Some h) key v = Ret (h' :: ('k, 'v) hmap) \<and> map_state t h' (abs_assign t m key v) \<and>
    hcount h' \<le> hcount h + 1"
proof -
  let ?h = "if buckets h = [] then h\<lparr>hash_writing := True, buckets := [[empty_bmap t]]\<rparr> else h\<lparr>hash_writing := True\<rparr>"
  have h: "hash_writing ?h" "hash0 ?h = hash0 h" "hcount ?h = hcount h" by simp_all
  have w: "\<not> hash_writing h" using s by (simp add: map_state_def)
  have ok: "map_ok t ?h m"
  proof (cases "map_ok t h m")
    case True
    then have "buckets h \<noteq> []" by (auto simp: map_ok_def hm_inv_def)
    then show ?thesis using True by (simp add: map_ok_def)
  next
    case False
    then have l: "lazy_map h" "m = (\<lambda>_. None)" using s by (auto simp: map_state_def)
    then have "buckets ?h = makeBucketArray t (hB ?h)"
      by (simp add: lazy_map_def makeBucketArray_def bucketShift_def)
    then have "hm_inv t ?h" "contents ?h = {#}" using l(1) fresh_array [of ?h t] by (simp_all add: lazy_map_def)
    then show ?thesis using l by (simp add: map_ok_def rep_empty lazy_map_def)
  qed
  then obtain h' where h': "assign_again again_fuel t (hasher t key (hash0 ?h)) key v ?h = Ret h'"
    "put_ok t ?h (abs_assign t m key v) (if m key = None then 1 else 0) h'"
    using again_returns [OF t _ _ _ _ refl, of ?h m again_fuel key v] c unfolding map_ok_def h again_fuel_def by auto
  have "mapassign t (Some h) key v = Ret (h'\<lparr>hash_writing := False\<rparr>)"
    using h' h(1,2) w by (auto simp: mapassign_def Let_def put_ok_def split: if_splits)
  moreover have "map_state t (h'\<lparr>hash_writing := False\<rparr>) (abs_assign t m key v)"
    using h'(2) by (simp add: map_state_def map_ok_def put_ok_def)
  moreover have "hcount h' \<le> hcount h + 1"
    using h'(2) h(3) by (cases "m key = None") (simp_all add: put_ok_def)
  ultimately show ?thesis by simp
qed

lemma delete_found:
  assumes t: "maptype_ok t" and inv: "hm_inv t h" and x: "x = hasher t key (hash0 h)" and free: "home_free h x"
    and rep: "rep t (contents h) m" and cnt: "hcount h = int (size (contents h))" and n: "n = idx (hB h) x"
    and f: "find_chain t key (top_of x) 0 (buckets h ! n) = Some (b, i)"
  shows "put_ok t h (abs_delete t m key) (- 1)
    (h\<lparr>buckets := (buckets h)[n := delete_cell t (buckets h ! n) b i], hcount := hcount h - 1\<rparr>)"
proof -
  let ?ch = "buckets h ! n" and ?ch2 = "delete_cell t (buckets h ! n) b i"
  have ok: "chain_ok t (hash0 h) (hB h) n ?ch" "home t h key = ?ch" using home_chain [OF inv] free x n by auto
  then have bl: "blocks ?ch" and cells: "cells_ok t (hash0 h) (bucketMask (hB h)) n (concat ?ch)"
    by (auto simp: chain_ok_def)
  obtain p where p: "slot_flat t key (top_of x) 0 None (concat ?ch) = FHit p" "b = p div 8" "i = p mod 8"
    using f slot_chain_flat [OF bl, of t key "top_of x"] find_slot_chain [of t key "top_of x" 0 ?ch None]
    by (auto split: fslot.splits)
  have "slot_ok t key (top_of x) (concat ?ch) (FHit p)" using slot_flat_spec [OF t cells, of key] p(1) x by simp
  then have hit: "p < length (concat ?ch)" "tophash (concat ?ch ! p) = top_of x" "key_equal t key (ckey (concat ?ch ! p))"
    by (auto simp: slot_ok_def)
  from flat_pos [OF bl hit(1)] p(2,3) have bi: "p = 8 * b + i" "b < length ?ch" "i < 8" by auto
  define c where "c = ?ch ! b ! i"
  have c: "concat ?ch ! p = c" using blocks_flat(1) [OF bl bi(2,3)] bi(1) by (simp add: c_def)
  then have live: "live c" using hit(2) live_top by auto
  note del = delete_cell_flat [OF bl bi(2,3) cells live [unfolded c_def]]
  let ?h = "h\<lparr>buckets := (buckets h)[n := ?ch2]\<rparr>"
  have nl: "n < length (buckets h)" using n inv idx_less by (simp add: hm_inv_def)
  have "only_new h ?h" "buckets ?h = (buckets h)[n := ?ch2]" by (simp_all add: only_new_def)
  moreover have "unat (noverflow ?h) \<le> ovf (buckets ?h)"
    using inv ovf_same_length [OF nl] del by (simp add: hm_inv_def)
  moreover have "chain_ok t (hash0 h) (hB h) n ?ch2" using del by (simp add: chain_ok_def)
  ultimately have put: "hm_inv t ?h" "contents ?h + kvs (concat ?ch) = contents h + kvs (concat ?ch2)"
    using put_home [OF inv free, of ?h ?ch2] n by simp_all
  have M: "contents h = add_mset (kv c) (contents ?h)"
    using multiset_exchange [OF put(2), of "{#kv c#}" "{#}"] del by (simp add: c_def)
  have "kv c \<in># matches t key (contents h)"
    using home_matches(1) [OF t inv, of key] ok(2) hit(3) c kvs_in [OF nth_mem [OF hit(1)]] live
    by (simp add: matches_def kv_def)
  then have mk: "m key = Some (kv c)" using repD [OF rep, of key] by (auto split: option.splits)
  have "rep t (contents ?h) (abs_delete t m key)" using rep_del [OF t rep [unfolded M] mk] .
  then show ?thesis using put(1) cnt M by (simp add: put_ok_def)
qed

lemma delete_missing:
  assumes t: "maptype_ok t" and inv: "hm_inv t h" and x: "x = hasher t key (hash0 h)" and free: "home_free h x"
    and rep: "rep t (contents h) m" and n: "n = idx (hB h) x"
    and f: "find_chain t key (top_of x) 0 (buckets h ! n) = None"
  shows "abs_delete t m key = m"
proof -
  let ?ch = "buckets h ! n"
  have ok: "chain_ok t (hash0 h) (hB h) n ?ch" "home t h key = ?ch" using home_chain [OF inv] free x n by auto
  then have bl: "blocks ?ch" and cells: "cells_ok t (hash0 h) (bucketMask (hB h)) n (concat ?ch)"
    by (auto simp: chain_ok_def)
  have "matches t key (kvs (concat ?ch)) = {#}"
    using f slot_chain_flat [OF bl, of t key "top_of x"] find_slot_chain [of t key "top_of x" 0 ?ch None]
      slot_flat_spec [OF t cells, of key] x by (auto simp: slot_ok_def split: fslot.splits)
  then have e: "matches t key (contents h) = {#}" using home_matches(1) [OF t inv, of key] ok(2) by simp
  have "m k = None" if "key_equal t key k" for k
    using e matches_cong [OF t that] repD [OF rep, of k] by (auto split: option.splits)
  then show ?thesis by (auto simp: abs_delete_def)
qed

lemma mapdelete_spec:
  assumes t: "maptype_ok t" and s: "map_state t h m"
  shows "\<exists>h'. mapdelete t (Some h) key = Ret (Some h') \<and> map_state t h' (abs_delete t m key) \<and> hcount h' \<le> hcount h"
proof (cases "hcount h = 0")
  case True
  then have "abs_delete t m key = m" using map_state_count(2) [OF t s] by (auto simp: abs_delete_def)
  then show ?thesis using True s by (simp add: mapdelete_def)
next
  case False
  let ?h = "h\<lparr>hash_writing := True\<rparr>" and ?x = "hasher t key (hash0 h)"
  have ok: "hm_inv t ?h" "rep t (contents ?h) m" "hcount h = int (size (contents h))" and w: "\<not> hash_writing h"
    using s False by (auto simp: map_state_def map_ok_def lazy_map_def)
  obtain h1 where h1: "(if growing ?h then growWork t (?x AND bucketMask (hB ?h)) ?h else Ret ?h) = Ret h1"
    "hm_inv t h1" "same_map ?h h1" "home_free h1 ?x" using grow_step [OF ok(1), of ?x] by blast
  have f: "hB h1 = hB h" "hash0 h1 = hash0 h" "hcount h1 = hcount h" "hash_writing h1" "contents h1 = contents h"
    using h1(3) by (auto simp: same_map_def)
  have cnt: "hcount h1 = int (size (contents h1))" "rep t (contents h1) m" using ok by (simp_all add: f)
  let ?n = "idx (hB h) ?x"
  have eq: "mapdelete t (Some h) key =
      (let h = (case find_chain t key (top_of ?x) 0 (buckets h1 ! ?n) of
                  None \<Rightarrow> h1
                | Some (b, i) \<Rightarrow>
                    h1\<lparr>buckets := (buckets h1)[?n := delete_cell t (buckets h1 ! ?n) b i], hcount := hcount h1 - 1\<rparr>)
       in if \<not> hash_writing h then Throw ''concurrent map writes'' else Ret (Some (h\<lparr>hash_writing := False\<rparr>)))"
    using False w h1(1) by (auto simp: mapdelete_def Let_def idx_def split: if_splits option.split)
  show ?thesis
  proof (cases "find_chain t key (top_of ?x) 0 (buckets h1 ! ?n)")
    case None
    then have "abs_delete t m key = m"
      using delete_missing [OF t h1(2) _ h1(4) cnt(2), of key ?n] by (simp add: f)
    moreover have "mapdelete t (Some h) key = Ret (Some (h1\<lparr>hash_writing := False\<rparr>))" using eq None f(4) by simp
    ultimately show ?thesis using h1(2) cnt f(3) by (auto simp: map_state_def map_ok_def)
  next
    case (Some bi)
    obtain b i where bi: "bi = (b, i)" by fastforce
    let ?h2 = "h1\<lparr>buckets := (buckets h1)[?n := delete_cell t (buckets h1 ! ?n) b i], hcount := hcount h1 - 1\<rparr>"
    have p: "put_ok t h1 (abs_delete t m key) (- 1) ?h2"
      using delete_found [OF t h1(2) _ h1(4) cnt(2,1), of key ?n b i] Some bi by (simp add: f)
    have "mapdelete t (Some h) key = Ret (Some (?h2\<lparr>hash_writing := False\<rparr>))" using eq Some f(4) by (simp add: bi)
    moreover have "map_state t (?h2\<lparr>hash_writing := False\<rparr>) (abs_delete t m key)"
      using p unfolding put_ok_def map_state_def map_ok_def hm_inv_fields by simp
    ultimately show ?thesis using f(3) by (intro exI [of _ "?h2\<lparr>hash_writing := False\<rparr>"]) simp
  qed
qed

section \<open>New and cleared maps\<close>

lemma mapclear_spec:
  assumes t: "maptype_ok t" and s: "map_state t h m"
  shows "\<exists>h'. mapclear t (Some h) = Ret (Some h') \<and> map_state t h' (\<lambda>_. None) \<and> hcount h' \<le> hcount h"
proof (cases "hcount h = 0")
  case True
  then show ?thesis using map_state_count(2) [OF t s] s by (simp add: mapclear_def)
next
  case False
  let ?h = "h\<lparr>same_size := False, oldbuckets := None, nevacuate := 0, noverflow := 0, hcount := 0,
    buckets := makeBucketArray t (hB h)\<rparr>"
  have inv: "hm_inv t h" "\<not> hash_writing h" "0 \<le> hcount h"
    using s False by (auto simp: map_state_def map_ok_def lazy_map_def)
  then have "hm_inv t ?h" "contents ?h = {#}" using fresh_array [of ?h t] by (simp_all add: hm_inv_def)
  then have "map_state t ?h (\<lambda>_. None)" using inv(2) by (simp add: map_state_def map_ok_def rep_empty)
  then show ?thesis using False inv(2,3) by (simp add: mapclear_def)
qed

lemma find_B_bound: "b \<le> 46 \<Longrightarrow> hint \<le> 2 ^ 45 \<Longrightarrow> find_B fuel hint b \<le> 46"
proof (induction fuel hint b rule: find_B.induct)
  case (2 fuel hint b)
  have "b < 46" if o: "overLoadFactor hint b"
  proof (rule ccontr)
    assume "\<not> b < 46"
    then have b: "b = 46" using "2.prems" by simp
    have h: "0 \<le> hint" using o by (simp add: overLoadFactor_def)
    have "nat hint \<le> 2 ^ 45" using "2.prems"(2) by (simp add: nat_le_iff)
    then show False using overLoad_alt [OF h, of 46] "2.prems"(2) o b by simp
  qed
  then show ?case using 2 by (cases "overLoadFactor hint b") auto
qed simp

lemma makemap_spec:
  fixes t :: "('k, 'v) maptype"
  assumes t: "maptype_ok t"
  shows "map_state t (makemap t hint rs) (\<lambda>_. None)" "hcount (makemap t hint rs) = 0"
    "map_state t (makemap_small rs) (\<lambda>_. None)" "hcount (makemap_small rs :: ('k, 'v) hmap) = 0"
proof -
  let ?m = "MulUintptr hint (bucket_size t)"
  define n where "n = (if snd ?m \<or> maxAlloc < fst ?m then 0 else sint hint)"
  have "n \<le> 2 ^ 45"
  proof (cases "snd ?m \<or> maxAlloc < fst ?m")
    case False
    then have s: "unat hint * unat (bucket_size t) < 2 ^ 64" by (simp add: MulUintptr_overflow_iff)
    then have "unat (fst ?m) = unat hint * unat (bucket_size t)"
      by (simp add: MulUintptr_product unat_mult_lem [THEN iffD1])
    moreover have "unat (fst ?m) \<le> 2 ^ 48"
      using False by (simp add: word_less_nat_alt maxAlloc_def push_bit_eq_mult)
    moreover have "unat hint * 8 \<le> unat hint * unat (bucket_size t)"
      using t by (intro mult_le_mono2) (simp add: maptype_ok_def)
    ultimately have "unat hint * 8 \<le> 2 ^ 48" by linarith
    then have "unat hint \<le> 2 ^ 45" by simp
    then have "int (unat hint) \<le> int (2 ^ 45)" by (simp only: of_nat_le_iff)
    then have "uint hint \<le> 2 ^ 45" by simp
    moreover have "signed_take_bit 63 (uint hint) = uint hint"
      using calculation uint_lt2p [of hint] by (intro signed_take_bit_int_eq_self) (simp_all add: order_trans [OF _ uint_ge_0])
    ultimately have "sint hint \<le> 2 ^ 45" by (simp add: sint_uint)
    then show ?thesis using False by (simp add: n_def)
  qed (simp add: n_def)
  then have b: "find_B 64 n 0 \<le> 46" by (intro find_B_bound) simp_all
  have eq: "makemap t hint rs =
      (let h = (new_hmap rs)\<lparr>hB := find_B 64 n 0\<rparr>
       in if find_B 64 n 0 \<noteq> 0 then h\<lparr>buckets := makeBucketArray t (find_B 64 n 0)\<rparr> else h)"
    by (simp add: makemap_def n_def Let_def split: prod.splits)
  have new: "lazy_map (new_hmap rs :: ('k, 'v) hmap)" "\<not> hash_writing (new_hmap rs :: ('k, 'v) hmap)"
    by (simp_all add: new_hmap_def lazy_map_def fastrand_def)
  show "map_state t (makemap_small rs) (\<lambda>_. None)" "hcount (makemap_small rs :: ('k, 'v) hmap) = 0"
    using new by (simp_all add: makemap_small_def map_state_def lazy_map_def)
  show "hcount (makemap t hint rs) = 0" using new by (simp add: eq Let_def lazy_map_def)
  show "map_state t (makemap t hint rs) (\<lambda>_. None)"
  proof (cases "find_B 64 n 0 = 0")
    case True
    then show ?thesis using new unfolding eq by (simp add: map_state_def lazy_map_def)
  next
    case False
    let ?h = "(new_hmap rs)\<lparr>hB := find_B 64 n 0, buckets := makeBucketArray t (find_B 64 n 0)\<rparr>"
    have "hm_inv t ?h" "contents ?h = {#}" using fresh_array [of ?h t] b new by (simp_all add: lazy_map_def)
    then show ?thesis using False new unfolding eq by (simp add: map_state_def map_ok_def rep_empty lazy_map_def)
  qed
qed

end
