(* ===== verification/Gomap_Props.thy ===== *)
theory Gomap_Props
  imports Gomap_System
begin

text \<open>
  The properties of maps: programs of operations on a map refine the same programs on the abstract map,
  and growing goes on with every assignment and deletion without changing what is looked up.
\<close>

section \<open>Programs\<close>

datatype ('k, 'v) mapop = Assign 'k 'v | Delete 'k | Lookup 'k | Len | Clear

datatype ('k, 'v) mapres = NoRes | LookupRes 'v "'v \<times> bool" "('k \<times> 'v) option" | LenRes int

definition map_op ::
  "('k, 'v) maptype \<Rightarrow> ('k, 'v) hmap option \<Rightarrow> ('k, 'v) mapop \<Rightarrow> (('k, 'v) mapres \<times> ('k, 'v) hmap option) outcome" where
  "map_op t h op =
     (case op of
        Assign k v \<Rightarrow> obind (mapassign t h k v) (\<lambda>h. Ret (NoRes, Some h))
      | Delete k \<Rightarrow> obind (mapdelete t h k) (\<lambda>h. Ret (NoRes, h))
      | Lookup k \<Rightarrow>
          obind (mapaccess1 t h k) (\<lambda>v. obind (mapaccess2 t h k) (\<lambda>v2. Ret (LookupRes v v2 (mapaccessK t h k), h)))
      | Len \<Rightarrow> Ret (LenRes (maplen h), h)
      | Clear \<Rightarrow> obind (mapclear t h) (\<lambda>h. Ret (NoRes, h)))"

fun map_run ::
  "('k, 'v) maptype \<Rightarrow> ('k, 'v) hmap option \<Rightarrow> ('k, 'v) mapop list \<Rightarrow> ('k, 'v) mapres list outcome" where
  "map_run t h [] = Ret []"
| "map_run t h (op # ops) = obind (map_op t h op) (\<lambda>(r, h). obind (map_run t h ops) (\<lambda>rs. Ret (r # rs)))"

text \<open>The same on the abstract map; \<open>None\<close> is the nil map.\<close>

definition abs_op ::
  "('k, 'v) maptype \<Rightarrow> ('k, 'v) amap option \<Rightarrow> ('k, 'v) mapop \<Rightarrow> (('k, 'v) mapres \<times> ('k, 'v) amap option) outcome" where
  "abs_op t m op =
     (let get = (\<lambda>k. case m of None \<Rightarrow> None | Some m \<Rightarrow> m k)
      in case op of
           Assign k v \<Rightarrow>
             (case m of None \<Rightarrow> Panic ''assignment to entry in nil map'' | Some m \<Rightarrow> Ret (NoRes, Some (abs_assign t m k v)))
         | Delete k \<Rightarrow> Ret (NoRes, map_option (\<lambda>m. abs_delete t m k) m)
         | Lookup k \<Rightarrow>
             Ret (case get k of
                    None \<Rightarrow> LookupRes (zero_elem t) (zero_elem t, False) None
                  | Some (k', v) \<Rightarrow> LookupRes v (v, True) (Some (k', v)), m)
         | Len \<Rightarrow> Ret (LenRes (int (card (Map.ran get))), m)
         | Clear \<Rightarrow> Ret (NoRes, map_option (\<lambda>_ _. None) m))"

fun abs_run ::
  "('k, 'v) maptype \<Rightarrow> ('k, 'v) amap option \<Rightarrow> ('k, 'v) mapop list \<Rightarrow> ('k, 'v) mapres list outcome" where
  "abs_run t m [] = Ret []"
| "abs_run t m (op # ops) = obind (abs_op t m op) (\<lambda>(r, m). obind (abs_run t m ops) (\<lambda>rs. Ret (r # rs)))"

lemma nil_op:
  "(\<exists>r. map_op t None op = Ret (r, None) \<and> abs_op t None op = Ret (r, None)) \<or>
   (\<exists>s. map_op t None op = Panic s \<and> abs_op t None op = Panic s)"
  by (cases op) (auto simp: map_op_def abs_op_def mapassign_def mapdelete_def mapaccess1_def mapaccess2_def
      mapaccessK_def mapclear_def maplen_def)

lemma some_op:
  assumes t: "maptype_ok t" and s: "map_state t h m" and c: "hcount h + 1 \<le> 2 ^ 48"
  shows "\<exists>r h' m'. map_op t (Some h) op = Ret (r, Some h') \<and> abs_op t (Some m) op = Ret (r, Some m') \<and>
    map_state t h' m' \<and> hcount h' \<le> hcount h + 1"
proof (cases op)
  case (Assign k v)
  then show ?thesis using mapassign_spec [OF t s c, of k v] by (auto simp: map_op_def abs_op_def)
next
  case (Delete k)
  then show ?thesis using mapdelete_spec [OF t s, of k] by (auto simp: map_op_def abs_op_def)
next
  case (Lookup k)
  then show ?thesis using s by (auto simp: map_op_def abs_op_def lookup_spec [OF t s] split: option.splits)
next
  case Len
  then show ?thesis using s by (simp add: map_op_def abs_op_def maplen_def map_state_count(1) [OF t s])
next
  case Clear
  then show ?thesis using mapclear_spec [OF t s] by (auto simp: map_op_def abs_op_def)
qed

lemma nil_run: "map_run t None ops = abs_run t None ops"
proof (induction ops)
  case (Cons op ops)
  then show ?case using nil_op [of t op] by auto
qed simp

lemma some_run:
  assumes t: "maptype_ok t"
  shows "map_state t h m \<Longrightarrow> hcount h + int (length ops) \<le> 2 ^ 48 \<Longrightarrow> map_run t (Some h) ops = abs_run t (Some m) ops"
proof (induction ops arbitrary: h m)
  case (Cons op ops)
  then obtain r h' m' where
    "map_op t (Some h) op = Ret (r, Some h')" "abs_op t (Some m) op = Ret (r, Some m')" "map_state t h' m'" "hcount h' \<le> hcount h + 1"
    using some_op [OF t Cons.prems(1), of op] by auto
  then show ?case using Cons.IH [of h' m'] Cons.prems(2) by simp
qed simp

text \<open>C12. Maps are maps: every program of assignments, deletions, lookups, length requests and clears,
  from the nil map, from \<open>makemap\<close> with any size hint or from \<open>makemap_small\<close>, gives the results of the
  abstract map -- the only panic is the assignment to the nil map, nothing is thrown and the loop of the
  assignment ends -- for every hash function, however its values collide, every sequence of random numbers
  and every phase of growing a program leads to.\<close>

theorem map_programs_refine:
  assumes "maptype_ok t" "int (length ops) \<le> 2 ^ 48"
  shows "map_run t None ops = abs_run t None ops \<and>
    map_run t (Some (makemap t hint rs)) ops = abs_run t (Some (\<lambda>_. None)) ops \<and>
    map_run t (Some (makemap_small rs)) ops = abs_run t (Some (\<lambda>_. None)) ops"
  using assms(2) nil_run some_run [OF assms(1) makemap_spec(1) [OF assms(1)]] some_run [OF assms(1) makemap_spec(3) [OF assms(1)]]
  by (simp_all add: makemap_spec(2,4) [OF assms(1)])

text \<open>Keys that all have the same hash.\<close>

definition demo_maptype :: "(nat, nat) maptype" where
  "demo_maptype = \<lparr>hasher = (\<lambda>k s. 0x5A), key_equal = (=), needkeyupdate = False, key_ptrs = False,
     bucket_ptrs = False, bucket_size = 144, zero_key = 0, zero_elem = 0\<rparr>"

lemma demo_maptype_ok: "maptype_ok demo_maptype"
  by (simp add: maptype_ok_def demo_maptype_def)

theorem map_programs_refine_witness:
  "map_run demo_maptype (Some (makemap_small (\<lambda>_. 7))) [Assign 1 10, Assign 2 20, Delete 1, Lookup 1, Lookup 2] =
    Ret [NoRes, NoRes, NoRes, LookupRes 0 (0, False) None, LookupRes 20 (20, True) (Some (2, 20))]"
  using map_programs_refine [OF demo_maptype_ok, of "[Assign 1 10, Assign 2 20, Delete 1, Lookup 1, Lookup 2]" _ "\<lambda>_. 7"]
  by (simp add: abs_op_def abs_assign_def abs_delete_def) (simp add: demo_maptype_def)

section \<open>Well-formed maps\<close>

text \<open>Every cell lies in the bucket of its hash and carries its top hash, nothing follows an
  \<open>emptyRest\<close> cell, no key is in two cells, an old bucket has been moved or its new buckets are fresh,
  and the count is the number of live cells.\<close>

definition map_wf :: "('k, 'v) maptype \<Rightarrow> ('k, 'v) hmap \<Rightarrow> bool" where
  "map_wf t h \<longleftrightarrow> \<not> hash_writing h \<and>
     (lazy_map h \<or> hm_inv t h \<and> hcount h = int (size (contents h)) \<and> (\<forall>k. size (matches t k (contents h)) \<le> 1))"

lemma size_le_1:
  assumes "size M \<le> 1" shows "\<exists>x. M = (case x of None \<Rightarrow> {#} | Some x \<Rightarrow> {#x#})"
proof (cases "M = {#}")
  case False
  then have "size M = 1" using assms by (cases M) auto
  then obtain a where "M = {#a#}" by (metis size_1_singleton_mset)
  then show ?thesis by (intro exI [of _ "Some a"]) simp
qed (auto intro: exI [of _ None])

lemma map_wf_state: "map_wf t h \<longleftrightarrow> (\<exists>m. map_state t h m)"
proof
  assume wf: "map_wf t h"
  show "\<exists>m. map_state t h m"
  proof (cases "lazy_map h")
    case True
    then show ?thesis using wf by (auto simp: map_wf_def map_state_def)
  next
    case False
    then have "size (matches t k (contents h)) \<le> 1" for k using wf by (simp add: map_wf_def)
    then have "\<exists>x. matches t k (contents h) = (case x of None \<Rightarrow> {#} | Some x \<Rightarrow> {#x#})" for k
      by (intro size_le_1)
    then obtain m where "rep t (contents h) m" unfolding rep_def by metis
    then show ?thesis using wf False by (auto simp: map_wf_def map_state_def map_ok_def)
  qed
next
  assume "\<exists>m. map_state t h m"
  then obtain m where s: "map_state t h m" by blast
  have "size (matches t k (contents h)) \<le> 1" if "rep t (contents h) m" for k
    using repD [OF that, of k] by (auto split: option.splits)
  then show "map_wf t h" using s by (auto simp: map_wf_def map_state_def map_ok_def)
qed

text \<open>C13. Well-formedness is a type of maps: new maps have it, and assignment, deletion and clearing
  return and keep it.\<close>

theorem map_ops_wf:
  assumes "maptype_ok t" "map_wf t h" "hcount h < 2 ^ 48"
  shows "map_wf t (makemap t hint rs) \<and> map_wf t (makemap_small rs) \<and>
    (\<exists>h1. mapassign t (Some h) k v = Ret h1 \<and> map_wf t h1) \<and>
    (\<exists>h2. mapdelete t (Some h) k = Ret (Some h2) \<and> map_wf t h2) \<and>
    (\<exists>h3. mapclear t (Some h) = Ret (Some h3) \<and> map_wf t h3)"
proof -
  obtain m where s: "map_state t h m" using assms(2) map_wf_state by blast
  show ?thesis
    using mapassign_spec [OF assms(1) s, of k v] mapdelete_spec [OF assms(1) s, of k] mapclear_spec [OF assms(1) s]
      makemap_spec(1,3) [OF assms(1)] assms(3) unfolding map_wf_state by fastforce
qed

theorem map_ops_wf_witness:
  "\<exists>h1. mapassign demo_maptype (Some (makemap_small (\<lambda>_. 7))) 3 4 = Ret h1 \<and> map_wf demo_maptype h1"
proof -
  have "map_wf demo_maptype (makemap_small (\<lambda>_. 7))" "hcount (makemap_small (\<lambda>_. 7) :: (nat, nat) hmap) < 2 ^ 48"
    unfolding map_wf_state using makemap_spec(3) [OF demo_maptype_ok] by (blast, simp add: makemap_spec(4) [OF demo_maptype_ok])
  then show ?thesis using map_ops_wf [OF demo_maptype_ok] by blast
qed

section \<open>Growing goes on\<close>

definition buckets_left :: "('k, 'v) hmap \<Rightarrow> nat" where
  "buckets_left h = (if growing h then unat (noldbuckets h) - nevacuate h else 0)"

text \<open>C14. What an assignment or a deletion does first while a map grows: it returns, finds every key
  where it was found before, keeps the map well formed, and leaves fewer old buckets to move, so that
  growing ends after at most as many assignments and deletions as there were buckets.\<close>

theorem growWork_progress:
  assumes "maptype_ok t" "hm_inv t h" "rep t (contents h) m" "growing h"
  shows "\<exists>h'. growWork t (hasher t k (hash0 h) AND bucketMask (hB h)) h = Ret h' \<and> hm_inv t h' \<and>
    (\<forall>k'. map_find t h' k' = map_find t h k') \<and> hcount h' = hcount h \<and> buckets_left h' < buckets_left h"
proof -
  obtain old where old: "oldbuckets h = Some old" using assms(4) by (auto simp: growing_def)
  obtain h' where h': "growWork t (hasher t k (hash0 h) AND bucketMask (hB h)) h = Ret h'" "hm_inv t h'" "same_map h h'"
    "growing h' \<longrightarrow> oldB h' = oldB h \<and> nevacuate h < nevacuate h'"
    using growWork_spec [OF assms(2) old, of "hasher t k (hash0 h)"] by blast
  have r: "rep t (contents h') m" "hcount h' = hcount h" using h'(3) assms(3) by (simp_all add: same_map_def)
  have "map_find t h' k' = map_find t h k'" for k'
    using map_find_spec [OF assms(1,2,3)] map_find_spec [OF assms(1) h'(2) r(1)] by simp
  moreover have "nevacuate h < unat (noldbuckets h)"
    using assms(2) old oldB_facts(2) [OF assms(2) old] by (simp add: hm_inv_def noldbuckets_alt unat_bucketShift)
  then have "buckets_left h' < buckets_left h"
    using h'(4) assms(4) by (auto simp: buckets_left_def noldbuckets_alt)
  ultimately show ?thesis using h'(1,2) r(2) by blast
qed

text \<open>An empty map of four buckets that begins to grow to the same size.\<close>

definition demo_growing :: "(nat, nat) hmap" where
  "demo_growing = hashGrow demo_maptype
     ((new_hmap (\<lambda>_. 7))\<lparr>hB := 2, buckets := makeBucketArray demo_maptype 2\<rparr>)"

lemma demo_growing_ok: "hm_inv demo_maptype demo_growing \<and> contents demo_growing = {#} \<and> growing demo_growing"
proof -
  let ?h = "(new_hmap (\<lambda>_. 7))\<lparr>hB := 2, buckets := makeBucketArray demo_maptype 2\<rparr>"
  have h: "hm_inv demo_maptype ?h" "contents ?h = {#}" "\<not> growing ?h"
    using fresh_array [of ?h demo_maptype] by (simp_all add: new_hmap_def fastrand_def growing_def)
  show ?thesis using hashGrow_spec(1,2,4) [OF h(1,3)] h(2) by (simp add: demo_growing_def growing_def)
qed

theorem growWork_progress_witness:
  "\<exists>h'. growWork demo_maptype (hasher demo_maptype 1 (hash0 demo_growing) AND bucketMask (hB demo_growing)) demo_growing
      = Ret h' \<and> buckets_left h' < buckets_left demo_growing"
  using growWork_progress [OF demo_maptype_ok, of demo_growing "\<lambda>_. None" 1] demo_growing_ok rep_empty by auto

end
