(* ===== verification/Sort_Stable.thy ===== *)
theory Sort_Stable
  imports Sort_Spec
begin

text \<open>
  The stable sort of package \<open>sort\<close>: it sorts, and the elements that the order does not tell apart keep
  the order they had.
\<close>

section \<open>Stability\<close>

definition eqv :: "('a \<Rightarrow> 'a \<Rightarrow> bool) \<Rightarrow> 'a \<Rightarrow> 'a \<Rightarrow> bool" where
  "eqv lt x y \<longleftrightarrow> \<not> lt x y \<and> \<not> lt y x"

text \<open>The elements equivalent to \<open>x\<close> are the same in both lists, in the same order.\<close>

definition stab :: "('a \<Rightarrow> 'a \<Rightarrow> bool) \<Rightarrow> 'a list \<Rightarrow> 'a list \<Rightarrow> bool" where
  "stab lt xs ys \<longleftrightarrow> (\<forall>x. filter (eqv lt x) ys = filter (eqv lt x) xs)"

lemma stab_refl [simp, intro]: "stab lt xs xs"
  by (simp add: stab_def)

lemma stab_trans: "stab lt xs ys \<Longrightarrow> stab lt ys zs \<Longrightarrow> stab lt xs zs"
  by (simp add: stab_def)

lemma stab_app: "stab lt xs xs' \<Longrightarrow> stab lt ys ys' \<Longrightarrow> stab lt (xs @ ys) (xs' @ ys')"
  by (simp add: stab_def)

lemma stab_swap:
  assumes "strict_weak lt" "\<And>a b. a \<in> set A \<Longrightarrow> b \<in> set B \<Longrightarrow> lt b a"
  shows "stab lt (A @ B) (B @ A)"
proof -
  have "filter (eqv lt x) A = [] \<or> filter (eqv lt x) B = []" for x
  proof (rule ccontr)
    assume "\<not> ?thesis"
    then obtain a b where "a \<in> set A" "b \<in> set B" "eqv lt x a" "eqv lt x b" by (auto simp: filter_empty_conv)
    then have "\<not> lt b x" "\<not> lt x a" "lt b a" using assms(2) by (auto simp: eqv_def)
    then show False using assms(1) unfolding strict_weak_def by blast
  qed
  then have "filter (eqv lt x) (B @ A) = filter (eqv lt x) (A @ B)" for x
    by (metis append_Nil append_Nil2 filter_append)
  then show ?thesis by (simp add: stab_def)
qed

lemma stab_mset:
  assumes "strict_weak lt" "stab lt xs ys"
  shows "mset ys = mset xs"
proof (rule multiset_eqI)
  fix z
  have z: "eqv lt z z" using assms(1) unfolding eqv_def strict_weak_def by blast
  have "count (mset zs) z = count (mset (filter (eqv lt z) zs)) z" for zs :: "'a list" using z by simp
  then show "count (mset ys) z = count (mset xs) z" using assms(2) by (metis stab_def)
qed

lemma stab_set: "strict_weak lt \<Longrightarrow> stab lt xs ys \<Longrightarrow> set ys = set xs"
  using stab_mset mset_eq_setD by blast

lemma stab_length: "strict_weak lt \<Longrightarrow> stab lt xs ys \<Longrightarrow> length ys = length xs"
  using stab_mset mset_eq_length by blast

section \<open>Binary search in a range\<close>

lemma search_range:
  "i \<le> j \<Longrightarrow> i \<le> search_loop f i j \<and> search_loop f i j \<le> j \<and>
    (search_loop f i j = i \<or> \<not> f (search_loop f i j - 1)) \<and> (search_loop f i j = j \<or> f (search_loop f i j))"
proof (induction "j - i" arbitrary: i j rule: less_induct)
  case less
  let ?h = "(i + j) div 2"
  show ?case
  proof (cases "i < j")
    case True
    then have h: "i \<le> ?h" "?h < j" by auto
    show ?thesis
    proof (cases "f ?h")
      case fh: True
      then have "search_loop f i j = search_loop f i ?h" using True by (subst search_loop.simps) simp
      moreover have "?h - i < j - i" using h by linarith
      ultimately show ?thesis using less.hyps [of ?h i] h fh by auto
    next
      case False
      then have "search_loop f i j = search_loop f (?h + 1) j" using True by (subst search_loop.simps) simp
      moreover have "j - (?h + 1) < j - i" using h by linarith
      ultimately show ?thesis using less.hyps [of j "?h + 1"] h False by auto
    qed
  next
    case False
    then have "search_loop f i j = i" by (subst search_loop.simps) simp
    then show ?thesis using less.prems False by auto
  qed
qed

section \<open>Moving blocks\<close>

lemma swap_comm: "swap xs i j = swap xs j i"
  by (cases "i = j") (simp_all add: swap_def list_update_swap)

lemma swap_app: "swap (X @ x # Y @ y # Z) (length X) (Suc (length X + length Y)) = X @ y # Y @ x # Z"
  by (simp add: swap_def nth_append list_update_append)

context sort_interface
begin

lemma swapRange_spec:
  "elems s = P @ A @ Q @ B @ R \<Longrightarrow> length A = n \<Longrightarrow> length B = n \<Longrightarrow> a = length P \<Longrightarrow> b = length P + n + length Q \<Longrightarrow>
    elems (swapRange data s a b n) = P @ B @ Q @ A @ R"
proof (induction n arbitrary: A B Q R b)
  case (Suc n)
  obtain A' x where A: "A = A' @ [x]" "length A' = n" using Suc.prems(2) by (cases A rule: rev_cases) auto
  obtain B' y where B: "B = B' @ [y]" "length B' = n" using Suc.prems(3) by (cases B rule: rev_cases) auto
  let ?s = "swapRange data s a b n"
  have "elems ?s = P @ B' @ (x # Q) @ A' @ (y # R)"
    using Suc.prems A B by (intro Suc.IH) auto
  then have e: "elems ?s = (P @ B') @ x # (Q @ A') @ y # R" by simp
  have i: "a + n = length (P @ B')" "b + n = Suc (length (P @ B') + length (Q @ A'))" using Suc.prems A B by auto
  have "elems (Swap data ?s (a + n) (b + n)) = swap (elems ?s) (a + n) (b + n)" by (rule swp) (simp_all add: e i)
  also have "\<dots> = (P @ B') @ y # (Q @ A') @ x # R" unfolding e i by (rule swap_app)
  finally show ?case by (simp add: swapRange_def A B)
qed (simp add: swapRange_def)

lemma rotate_loop_spec:
  "elems s = P @ A @ B @ R \<Longrightarrow> m = length P + length A \<Longrightarrow> A \<noteq> [] \<Longrightarrow> B \<noteq> [] \<Longrightarrow>
    \<exists>s'. rotate_loop data m s (length A) (length B) = Ret s' \<and> elems s' = P @ B @ A @ R"
proof (induction "length A + length B" arbitrary: s P A B R rule: less_induct)
  case less
  let ?i = "length A" and ?j = "length B"
  consider "?i = ?j" | "?j < ?i" | "?i < ?j" by linarith
  then show ?case
  proof cases
    case 1
    then have "elems (swapRange data s (m - ?i) m ?i) = P @ B @ [] @ A @ R"
      using less.prems by (intro swapRange_spec) auto
    then show ?thesis using 1 by (subst rotate_loop.simps) simp
  next
    case 2
    define A1 A2 where "A1 = take ?j A" and "A2 = drop ?j A"
    have A: "A = A1 @ A2" "length A1 = ?j" "length A2 = ?i - ?j" "A2 \<noteq> []" "A1 \<noteq> []"
      using 2 less.prems(4) by (auto simp: A1_def A2_def)
    let ?s = "swapRange data s (m - ?i) m ?j"
    have "elems ?s = P @ B @ A2 @ A1 @ R"
      using less.prems A(1,2) by (intro swapRange_spec) simp_all
    then have e: "elems ?s = (P @ B) @ A2 @ A1 @ R" by simp
    have m: "m = length (P @ B) + length A2" using less.prems(2) A(3) 2 by simp
    have l: "length A2 + length A1 < ?i + ?j" using A 2 less.prems(4) by simp
    from less.hyps [OF l e m A(4,5)]
    obtain s' where "rotate_loop data m ?s (length A2) (length A1) = Ret s'" "elems s' = (P @ B) @ A1 @ A2 @ R" by blast
    moreover have "rotate_loop data m s ?i ?j = rotate_loop data m ?s (?i - ?j) ?j"
      using 2 less.prems(3,4) rotate_loop.simps [of data m s ?i ?j] by simp
    ultimately show ?thesis using A(1-3) by (metis append_assoc)
  next
    case 3
    define B1 B2 where "B1 = take (?j - ?i) B" and "B2 = drop (?j - ?i) B"
    have B: "B = B1 @ B2" "length B1 = ?j - ?i" "length B2 = ?i" "B1 \<noteq> []" "B2 \<noteq> []"
      using 3 less.prems(3) length_greater_0_conv [of A] by (auto simp: B1_def B2_def simp del: length_greater_0_conv)
    let ?s = "swapRange data s (m - ?i) (m + ?j - ?i) ?i"
    have "elems ?s = P @ B2 @ B1 @ A @ R"
      using less.prems B(1,3) by (intro swapRange_spec) simp_all
    then have e: "elems ?s = P @ B2 @ B1 @ (A @ R)" by simp
    have m: "m = length P + length B2" using less.prems(2) B(3) by simp
    have l: "length B2 + length B1 < ?i + ?j" using B 3 less.prems(3) by simp
    from less.hyps [OF l e m B(5,4)]
    obtain s' where "rotate_loop data m ?s (length B2) (length B1) = Ret s'" "elems s' = P @ B1 @ B2 @ A @ R" by auto
    moreover have "rotate_loop data m s ?i ?j = rotate_loop data m ?s ?i (?j - ?i)"
      using 3 less.prems(3,4) rotate_loop.simps [of data m s ?i ?j] by simp
    ultimately show ?thesis using B(1-3) by (metis append_assoc)
  qed
qed

lemma rotate_spec:
  assumes "elems s = P @ A @ B @ R" "A \<noteq> []" "B \<noteq> []" "a = length P" "m = a + length A" "b = m + length B"
  shows "\<exists>s'. rotate data s a m b = Ret s' \<and> elems s' = P @ B @ A @ R"
  using rotate_loop_spec [OF assms(1) _ assms(2,3), of m] assms(4-6) by (simp add: rotate_def)

text \<open>One element moved to the right and to the left.\<close>

lemma move_right:
  "elems s = P @ x # V @ R \<Longrightarrow> a = length P \<Longrightarrow>
    elems (fold (\<lambda>k s. Swap data s k (k + 1)) [a..<a + length V] s) = P @ V @ x # R"
proof (induction V arbitrary: R rule: rev_induct)
  case (snoc v V)
  let ?s = "fold (\<lambda>k s. Swap data s k (k + 1)) [a..<a + length V] s"
  have e: "elems ?s = (P @ V) @ x # [] @ v # R" using snoc.IH [of "v # R"] snoc.prems by simp
  have "elems (Swap data ?s (a + length V) (a + length V + 1)) = swap (elems ?s) (a + length V) (a + length V + 1)"
    by (rule swp; unfold e) (simp_all add: snoc.prems)
  also have "\<dots> = (P @ V) @ v # [] @ x # R" unfolding e using swap_app [of "P @ V" x "[]" v R] snoc.prems by simp
  finally show ?case by simp
qed simp

lemma move_left:
  "elems s = P @ U @ x # R \<Longrightarrow> i = length P \<Longrightarrow> m = i + length U \<Longrightarrow>
    elems (fold (\<lambda>k s. Swap data s k (k - 1)) (rev [i + 1..<m + 1]) s) = P @ x # U @ R"
proof (induction U arbitrary: s R m rule: rev_induct)
  case (snoc u U)
  let ?s = "Swap data s m (m - 1)"
  have e: "elems s = (P @ U) @ u # [] @ x # R" using snoc.prems by simp
  have "elems ?s = swap (elems s) m (m - 1)" by (rule swp) (simp_all add: e snoc.prems)
  also have "\<dots> = swap (elems s) (m - 1) m" by (rule swap_comm)
  also have "\<dots> = (P @ U) @ x # [] @ u # R" unfolding e using swap_app [of "P @ U" u "[]" x R] snoc.prems by simp
  finally have "elems ?s = P @ U @ x # (u # R)" by simp
  then have "elems (fold (\<lambda>k s. Swap data s k (k - 1)) (rev [i + 1..<(m - 1) + 1]) ?s) = P @ x # U @ u # R"
    using snoc.prems by (intro snoc.IH) auto
  moreover have "rev [i + 1..<m + 1] = m # rev [i + 1..<(m - 1) + 1]" using snoc.prems(2,3) by simp
  ultimately show ?case by simp
qed simp

end

section \<open>Merging\<close>

lemma in_take: "x \<in> set (take n xs) \<Longrightarrow> \<exists>k<n. k < length xs \<and> x = xs ! k"
  by (fastforce simp: in_set_conv_nth)

lemma in_drop:
  assumes "x \<in> set (drop n xs)" shows "\<exists>k\<ge>n. k < length xs \<and> x = xs ! k"
proof -
  obtain i where "i < length xs - n" "x = drop n xs ! i" using assms by (auto simp: in_set_conv_nth)
  then show ?thesis by (intro exI [of _ "n + i"]) auto
qed

context sort_order
begin

abbreviation (input) le :: "'a \<Rightarrow> 'a \<Rightarrow> bool" where "le x y \<equiv> \<not> lt y x"

lemma sorted_nth_le: "sorted_wrt le xs \<Longrightarrow> i \<le> j \<Longrightarrow> j < length xs \<Longrightarrow> le (xs ! i) (xs ! j)"
  by (cases "i = j") (auto simp: sorted_wrt_iff_nth_less)

text \<open>Insertion of the first element.\<close>

lemma merge_first:
  assumes s: "elems s = P @ x # V @ R" and a: "a = length P" and b: "b = a + 1 + length V" and V: "sorted_wrt le V"
  shows "\<exists>W. elems (fold (\<lambda>k s. Swap data s k (k + 1)) [a..<lowest_not_less data s a (a + 1) b - 1] s) = P @ W @ R \<and>
    sorted_wrt le W \<and> stab lt (x # V) W"
proof -
  define i where "i = lowest_not_less data s a (a + 1) b"
  have less: "Less data s h a \<longleftrightarrow> lt (V ! (h - a - 1)) x" if "a < h" "h < b" for h
    using that s a b by (subst less_lt) (auto simp: nth_append nth_Cons')
  have i: "a + 1 \<le> i" "i \<le> b" "i = a + 1 \<or> Less data s (i - 1) a" "i = b \<or> \<not> Less data s i a"
    using search_range [of "a + 1" b "\<lambda>h. \<not> Less data s h a"] b by (auto simp: i_def lowest_not_less_def)
  define n where "n = i - a - 1"
  let ?V1 = "take n V" and ?V2 = "drop n V"
  have n: "n \<le> length V" "[a..<i - 1] = [a..<a + length ?V1]" using i b by (auto simp: n_def)
  have lt1: "lt v x" if "v \<in> set ?V1" for v
  proof -
    from in_take [OF that] obtain k where k: "k < n" "v = V ! k" by blast
    then have "lt (V ! (n - 1)) x" using i(3) less [of "i - 1"] i(1,2) by (auto simp: n_def diff_diff_eq)
    moreover have "le (V ! k) (V ! (n - 1))" using k n(1) by (intro sorted_nth_le [OF V]) auto
    ultimately show ?thesis using le_lt_trans k(2) by blast
  qed
  have le2: "le x v" if "v \<in> set ?V2" for v
  proof -
    from in_drop [OF that] obtain k where k: "n \<le> k" "k < length V" "v = V ! k" by blast
    then have "\<not> lt (V ! n) x" using i(4) less [of i] i(1,2) b by (auto simp: n_def)
    moreover have "le (V ! n) (V ! k)" using k by (intro sorted_nth_le [OF V]) auto
    ultimately show ?thesis using negtrans k(3) by blast
  qed
  have "elems s = P @ x # ?V1 @ (?V2 @ R)" using s by (simp flip: append_assoc)
  then have "elems (fold (\<lambda>k s. Swap data s k (k + 1)) [a..<i - 1] s) = P @ (?V1 @ [x] @ ?V2) @ R"
    unfolding n(2) using move_right a by fastforce
  moreover have "sorted_wrt le (?V1 @ [x] @ ?V2)"
  proof -
    have "le u v" if "u \<in> set ?V1" "v \<in> set ?V2" for u v
      using le2 [OF that(2)] asym [OF lt1 [OF that(1)]] negtrans by blast
    moreover have "sorted_wrt le ?V1" "sorted_wrt le ?V2"
      using V sorted_wrt_append [of le ?V1 ?V2] by auto
    ultimately show ?thesis using lt1 le2 asym by (auto simp: sorted_wrt_append)
  qed
  moreover have "stab lt (x # V) (?V1 @ [x] @ ?V2)"
    using stab_app [OF stab_swap [OF swo, of "[x]" ?V1] stab_refl [of lt ?V2]] lt1 by simp
  ultimately show ?thesis unfolding i_def by blast
qed

text \<open>Insertion of the last element.\<close>

lemma merge_last:
  assumes s: "elems s = P @ U @ x # R" and a: "a = length P" and m: "m = a + length U" and U: "sorted_wrt le U"
  shows "\<exists>W. elems (fold (\<lambda>k s. Swap data s k (k - 1)) (rev [lowest_greater data s a m + 1..<m + 1]) s) = P @ W @ R \<and>
    sorted_wrt le W \<and> stab lt (U @ [x]) W"
proof -
  define i where "i = lowest_greater data s a m"
  have less: "Less data s m h \<longleftrightarrow> lt x (U ! (h - a))" if "a \<le> h" "h < m" for h
    using that s a m by (subst less_lt) (auto simp: nth_append)
  have i: "a \<le> i" "i \<le> m" "i = a \<or> \<not> Less data s m (i - 1)" "i = m \<or> Less data s m i"
    using search_range [of a m "\<lambda>h. Less data s m h"] m by (auto simp: i_def lowest_greater_def)
  define n where "n = i - a"
  let ?U1 = "take n U" and ?U2 = "drop n U"
  have n: "n \<le> length U" "i = length (P @ ?U1)" "m = i + length ?U2" using i m a by (auto simp: n_def)
  have le1: "le u x" if "u \<in> set ?U1" for u
  proof -
    from in_take [OF that] obtain k where k: "k < n" "u = U ! k" by blast
    then have "\<not> lt x (U ! (n - 1))" using i(3) less [of "i - 1"] i(1,2) by (auto simp: n_def diff_diff_eq add.commute)
    moreover have "le (U ! k) (U ! (n - 1))" using k n(1) by (intro sorted_nth_le [OF U]) auto
    ultimately show ?thesis using negtrans k(2) by blast
  qed
  have lt2: "lt x u" if "u \<in> set ?U2" for u
  proof -
    from in_drop [OF that] obtain k where k: "n \<le> k" "k < length U" "u = U ! k" by blast
    then have "lt x (U ! n)" using i(4) less [of i] i(1,2) m by (auto simp: n_def)
    moreover have "le (U ! n) (U ! k)" using k by (intro sorted_nth_le [OF U]) auto
    ultimately show ?thesis using lt_le_trans k(3) by blast
  qed
  have "elems s = (P @ ?U1) @ ?U2 @ x # R" using s by (metis append_assoc append_take_drop_id)
  from move_left [OF this n(2,3)]
  have "elems (fold (\<lambda>k s. Swap data s k (k - 1)) (rev [i + 1..<m + 1]) s) = P @ (?U1 @ [x] @ ?U2) @ R" by simp
  moreover have "sorted_wrt le (?U1 @ [x] @ ?U2)"
  proof -
    have "le u v" if "u \<in> set ?U1" "v \<in> set ?U2" for u v
      using le1 [OF that(1)] asym [OF lt2 [OF that(2)]] negtrans by blast
    moreover have "sorted_wrt le ?U1" "sorted_wrt le ?U2"
      using U sorted_wrt_append [of le ?U1 ?U2] by auto
    ultimately show ?thesis using le1 lt2 asym by (auto simp: sorted_wrt_append)
  qed
  moreover have st: "stab lt (?U1 @ (?U2 @ [x])) (?U1 @ [x] @ ?U2)"
    using stab_app [OF stab_refl [of lt ?U1] stab_swap [OF swo, of ?U2 "[x]"]] lt2 by auto
  have "U @ [x] = ?U1 @ (?U2 @ [x])" by (metis append_assoc append_take_drop_id)
  with st have "stab lt (U @ [x]) (?U1 @ [x] @ ?U2)" by (simp only:)
  ultimately show ?thesis unfolding i_def by blast
qed

end

context sort_order
begin

lemma nth_middle_part: "length X \<le> i \<Longrightarrow> i < length X + length Y \<Longrightarrow> (X @ Y @ Z) ! i = Y ! (i - length X)"
  by (auto simp: nth_append)

text \<open>Where \<open>symMerge\<close> cuts the two ranges.\<close>

lemma sym_start_spec:
  assumes s: "elems s = P @ U @ V @ R" and a: "a = length P" and m: "m = a + length U" and b: "b = m + length V"
    and U: "sorted_wrt le U" "2 \<le> length U" and V: "sorted_wrt le V" "2 \<le> length V"
    and mid: "mid = (a + b) div 2" and n: "n = mid + m" and r: "(lo, r) = (if m > mid then (n - b, mid) else (a, m))"
    and st: "st = sym_start data s (n - 1) lo r" and e: "e = n - st"
  shows "a \<le> st" "st \<le> m" "m \<le> e" "e \<le> b" "st \<le> mid" "mid \<le> e" "e - m = mid - st"
    "\<And>u v. u \<in> set (take (st - a) U) \<Longrightarrow> v \<in> set (drop (e - m) V) \<Longrightarrow> le u v"
    "\<And>u v. u \<in> set (drop (st - a) U) \<Longrightarrow> v \<in> set (take (e - m) V) \<Longrightarrow> lt v u"
proof -
  have lo: "lo \<le> r" "a \<le> lo" "r \<le> m" "r \<le> mid" "m \<le> n - r" "n - lo \<le> b" "a < mid" "mid < b"
    and lim: "lo = a \<or> n - lo = b" "r = m \<or> n - r = m"
    using r mid n m b U(2) V(2) by (auto split: if_splits)
  have sr: "lo \<le> st" "st \<le> r" "st = lo \<or> \<not> Less data s (n - 1 - (st - 1)) (st - 1)" "st = r \<or> Less data s (n - 1 - st) st"
    using search_range [OF lo(1), of "\<lambda>c. Less data s (n - 1 - c) c"] by (auto simp: st sym_start_def)
  have less: "Less data s (n - 1 - c) c \<longleftrightarrow> lt (V ! (n - 1 - c - m)) (U ! (c - a))" if c: "lo \<le> c" "c < r" for c
  proof -
    have "m \<le> n - 1 - c" "n - 1 - c < b" "a \<le> c" "c < m" using c lo by linarith+
    moreover have "elems s ! d = V ! (d - m)" if "m \<le> d" "d < b" for d
      using nth_middle_part [of "P @ U" d V R] that s a m b by simp
    moreover have "elems s ! d = U ! (d - a)" if "a \<le> d" "d < m" for d
      using nth_middle_part [of P d U "V @ R"] that s a m by simp
    moreover have "length (elems s) \<ge> b" using s a m b by simp
    ultimately show ?thesis using lo by (subst less_lt) auto
  qed
  show ord: "a \<le> st" "st \<le> m" "m \<le> e" "e \<le> b" "st \<le> mid" "mid \<le> e" "e - m = mid - st"
    using sr(1,2) lo n e by linarith+
  show "le u v" if u: "u \<in> set (take (st - a) U)" and v: "v \<in> set (drop (e - m) V)" for u v
  proof -
    from in_take [OF u] obtain k where k: "k < st - a" "k < length U" "u = U ! k" by blast
    from in_drop [OF v] obtain l where l: "e - m \<le> l" "l < length V" "v = V ! l" by blast
    have "st \<noteq> lo" using lim(1) k(1) l(1,2) e b ord(3) by auto
    then have "\<not> lt (V ! (e - m)) (U ! (st - 1 - a))"
      using sr less [of "st - 1"] e k(1) by (auto simp: Suc_diff_Suc)
    moreover have "le (U ! k) (U ! (st - 1 - a))" using k(1) ord(2) m by (intro sorted_nth_le [OF U(1)]) auto
    moreover have "le (V ! (e - m)) (V ! l)" using l by (intro sorted_nth_le [OF V(1)]) auto
    ultimately show ?thesis using negtrans k(3) l(3) by metis
  qed
  show "lt v u" if u: "u \<in> set (drop (st - a) U)" and v: "v \<in> set (take (e - m) V)" for u v
  proof -
    from in_drop [OF u] obtain k where k: "st - a \<le> k" "k < length U" "u = U ! k" by blast
    from in_take [OF v] obtain l where l: "l < e - m" "l < length V" "v = V ! l" by blast
    have "st \<noteq> r" using lim(2) k(1,2) l(1) e m ord(1) by auto
    then have "lt (V ! (e - 1 - m)) (U ! (st - a))"
      using sr less [of st] e by auto
    moreover have "le (U ! (st - a)) (U ! k)" using k by (intro sorted_nth_le [OF U(1)]) auto
    moreover have "le (V ! l) (V ! (e - 1 - m))" using l ord(4) b by (intro sorted_nth_le [OF V(1)]) auto
    ultimately show ?thesis using lt_le_trans le_lt_trans k(3) l(3) by metis
  qed
qed

end

text \<open>The step of \<open>symMerge\<close> on two ranges of two or more elements.\<close>

lemma symMerge_cut:
  assumes "2 \<le> m - a" "2 \<le> b - m" and mid: "mid = (a + b) div 2" and n: "n = mid + m"
    and r: "(lo, r) = (if m > mid then (n - b, mid) else (a, m))"
    and st: "st = sym_start data s (n - 1) lo r" and e: "e = n - st"
  shows "symMerge data s a m b =
    obind (if st < m \<and> m < e then rotate data s st m e else Ret s) (\<lambda>s.
      obind (if a < st \<and> st < mid then symMerge data s a st mid else Ret s) (\<lambda>s.
        if mid < e \<and> e < b then symMerge data s mid e b else Ret s))"
proof -
  have "m - a \<noteq> 1" "b - m \<noteq> 1" using assms(1,2) by linarith+
  moreover have "(if m > mid then (n - b, mid) else (a, m)) = (lo, r)" using r by simp
  ultimately show ?thesis
    unfolding symMerge.simps [of data s a m b] Let_def mid [symmetric] n [symmetric] by (simp only: if_False prod.case st [symmetric] e [symmetric])
qed

text \<open>A computation that sorts the part of the data between a prefix and a suffix, stably.\<close>

definition sorted_part :: "('a \<Rightarrow> 'a \<Rightarrow> bool) \<Rightarrow> ('s \<Rightarrow> 'a list) \<Rightarrow> 's outcome \<Rightarrow> 'a list \<Rightarrow> 'a list \<Rightarrow> 'a list \<Rightarrow> bool" where
  "sorted_part lt elems c P X R \<longleftrightarrow>
     (\<exists>s' W. c = Ret s' \<and> elems s' = P @ W @ R \<and> sorted_wrt (\<lambda>x y. \<not> lt y x) W \<and> stab lt X W)"

context sort_order
begin

text \<open>Merging a range in two sorted parts, or leaving it when one of them is empty.\<close>

abbreviation (input) merges :: "'s outcome \<Rightarrow> 'a list \<Rightarrow> 'a list \<Rightarrow> 'a list \<Rightarrow> bool" where
  "merges \<equiv> sorted_part lt elems"

lemmas merges_def = sorted_part_def [of lt elems]

lemma merges_if:
  assumes "elems s = P @ U @ V @ R" "sorted_wrt le U" "sorted_wrt le V" "q \<longleftrightarrow> U \<noteq> [] \<and> V \<noteq> []"
    and "q \<Longrightarrow> merges c P (U @ V) R"
  shows "merges (if q then c else Ret s) P (U @ V) R"
proof (cases q)
  case False
  then have "sorted_wrt le (U @ V)" using assms(2-4) by auto
  then show ?thesis using False assms(1) by (auto simp: merges_def)
qed (use assms(5) in simp)

text \<open>The two inner ranges exchanged, when neither is empty.\<close>

lemma rotate_if:
  assumes s: "elems s = P @ A @ B @ R" and i: "st = length P" "m = st + length A" "e = m + length B"
  shows "\<exists>s'. (if st < m \<and> m < e then rotate data s st m e else Ret s) = Ret s' \<and> elems s' = P @ B @ A @ R"
proof (cases "st < m \<and> m < e")
  case True
  then have "A \<noteq> []" "B \<noteq> []" unfolding i(2,3) by auto
  from rotate_spec [OF s this i] show ?thesis using True by simp
next
  case False
  then have "A = [] \<or> B = []" unfolding i(2,3) by auto
  then show ?thesis using s False by auto
qed

text \<open>Two merges, of ranges with everything in the first at most everything in the second.\<close>

lemma merges_both:
  assumes c: "merges c1 P (U1 @ V1) (U2 @ V2 @ R)"
    and d: "\<And>s2 W. elems s2 = P @ W @ U2 @ V2 @ R \<Longrightarrow> length W = length (U1 @ V1) \<Longrightarrow> merges (c2 s2) (P @ W) (U2 @ V2) R"
    and U: "sorted_wrt le (U1 @ U2)" and V: "sorted_wrt le (V1 @ V2)"
    and l: "\<And>u v. u \<in> set U1 \<Longrightarrow> v \<in> set V2 \<Longrightarrow> le u v" "\<And>u v. u \<in> set U2 \<Longrightarrow> v \<in> set V1 \<Longrightarrow> lt v u"
  shows "merges (obind c1 c2) P ((U1 @ U2) @ (V1 @ V2)) R"
proof -
  obtain s2 W1 where s2: "c1 = Ret s2" "elems s2 = P @ W1 @ (U2 @ V2 @ R)" "sorted_wrt le W1" "stab lt (U1 @ V1) W1"
    using c unfolding merges_def by blast
  obtain s3 W2 where s3: "c2 s2 = Ret s3" "elems s3 = (P @ W1) @ W2 @ R" "sorted_wrt le W2" "stab lt (U2 @ V2) W2"
    using d [OF s2(2) stab_length [OF swo s2(4)]] unfolding merges_def by blast
  have "le x y" if "x \<in> set (U1 @ V1)" "y \<in> set (U2 @ V2)" for x y
    using that U V l(1) [of x y] asym [OF l(2) [of y x]] unfolding sorted_wrt_append set_append by blast
  then have "sorted_wrt le (W1 @ W2)"
    using s2(3) s3(3) stab_set [OF swo s2(4)] stab_set [OF swo s3(4)] by (auto simp: sorted_wrt_append)
  moreover have "stab lt (U1 @ (U2 @ V1) @ V2) (U1 @ (V1 @ U2) @ V2)"
    using l(2) by (intro stab_app stab_refl stab_swap [OF swo])
  then have "stab lt ((U1 @ U2) @ (V1 @ V2)) (W1 @ W2)"
    using stab_trans [OF _ stab_app [OF s2(4) s3(4)]] by simp
  ultimately show ?thesis using s2(1) s3(1,2) unfolding merges_def by auto
qed

text \<open>The step of \<open>symMerge\<close> when the two calls it makes do their work.\<close>

lemma symMerge_step:
  assumes H: "elems s = P @ U @ V @ R" "a = length P" "m = a + length U" "b = m + length V"
      "sorted_wrt le U" "sorted_wrt le V" "2 \<le> length U" "2 \<le> length V"
    and IH: "\<And>s P U V R a' m' b'. b' - a' < b - a \<Longrightarrow> elems s = P @ U @ V @ R \<Longrightarrow> a' = length P \<Longrightarrow> m' = a' + length U \<Longrightarrow>
      b' = m' + length V \<Longrightarrow> sorted_wrt le U \<Longrightarrow> sorted_wrt le V \<Longrightarrow> U \<noteq> [] \<Longrightarrow> V \<noteq> [] \<Longrightarrow>
      merges (symMerge data s a' m' b') P (U @ V) R"
  shows "merges (symMerge data s a m b) P (U @ V) R"
proof -
  define mid n where "mid = (a + b) div 2" and "n = mid + m"
  obtain lo r where r: "(lo, r) = (if m > mid then (n - b, mid) else (a, m))" by (metis surj_pair)
  define st e where "st = sym_start data s (n - 1) lo r" and "e = n - st"
  note c = sym_start_spec [OF H(1-5,7,6,8) mid_def n_def r st_def e_def]
  define U1 U2 V1 V2 where "U1 = take (st - a) U" and "U2 = drop (st - a) U" and "V1 = take (e - m) V" and "V2 = drop (e - m) V"
  note UV = this
  have eq: "U = U1 @ U2" "V = V1 @ V2" by (simp_all add: UV)
  have mid: "a < mid" "mid < b" using H(3,4,7,8) by (auto simp: mid_def)
  have d: "mid - a < b - a" "b - mid < b - a" using mid by linarith+
  have len: "length U1 = st - a" "length V1 = mid - st" "length U2 = m - st" "length U2 = e - mid" "length V2 = b - e"
    using c(1-7) H(3,4) by (simp_all add: UV min_absorb2)
  have srt: "sorted_wrt le U1" "sorted_wrt le U2" "sorted_wrt le V1" "sorted_wrt le V2"
    using H(5,6) unfolding eq sorted_wrt_append by blast+
  have s0: "elems s = (P @ U1) @ U2 @ V1 @ (V2 @ R)" using H(1) by (simp add: eq)
  have i0: "st = length (P @ U1)" "m = st + length U2" "e = m + length V1"
    unfolding length_append using len(1-3) c(1-3,7) H(2) by linarith+
  obtain s1 where s1: "(if st < m \<and> m < e then rotate data s st m e else Ret s) = Ret s1"
    "elems s1 = (P @ U1) @ V1 @ U2 @ (V2 @ R)"
    using rotate_if [OF s0 i0] by blast
  let ?c1 = "if a < st \<and> st < mid then symMerge data s1 a st mid else Ret s1"
    and ?c2 = "\<lambda>s. if mid < e \<and> e < b then symMerge data s mid e b else Ret s"
  have m1: "merges ?c1 P (U1 @ V1) (U2 @ V2 @ R)"
  proof (rule merges_if [OF _ srt(1,3)])
    show "elems s1 = P @ U1 @ V1 @ (U2 @ V2 @ R)" using s1(2) by simp
    show "a < st \<and> st < mid \<longleftrightarrow> U1 \<noteq> [] \<and> V1 \<noteq> []" using len(1,2) by (metis length_greater_0_conv zero_less_diff)
    assume "a < st \<and> st < mid"
    then show "merges (symMerge data s1 a st mid) P (U1 @ V1) (U2 @ V2 @ R)"
      using d(1) s1(2) H(2) srt(1,3) len c(1) by (intro IH) (simp_all flip: length_greater_0_conv)
  qed
  have m2: "merges (?c2 s2) (P @ W) (U2 @ V2) R" if "elems s2 = P @ W @ U2 @ V2 @ R" "length W = length (U1 @ V1)" for s2 W
  proof (rule merges_if [OF _ srt(2,4)])
    show "elems s2 = (P @ W) @ U2 @ V2 @ R" using that(1) by simp
    show "mid < e \<and> e < b \<longleftrightarrow> U2 \<noteq> [] \<and> V2 \<noteq> []" using len(4,5) by (metis length_greater_0_conv zero_less_diff)
    have W: "length W = mid - a" using that(2) len(1,2) c(1,5) by simp
    assume "mid < e \<and> e < b"
    then show "merges (symMerge data s2 mid e b) (P @ W) (U2 @ V2) R"
      using d(2) that(1) H(2) srt(2,4) len(4,5) W by (intro IH) (simp_all flip: length_greater_0_conv)
  qed
  have "merges (obind ?c1 ?c2) P ((U1 @ U2) @ (V1 @ V2)) R"
  proof (rule merges_both [OF m1])
    show "sorted_wrt le (U1 @ U2)" "sorted_wrt le (V1 @ V2)" using H(5,6) by (simp_all only: eq)
    show "le u v" if "u \<in> set U1" "v \<in> set V2" for u v using c(8) [folded UV] that by blast
    show "lt v u" if "u \<in> set U2" "v \<in> set V1" for u v using c(9) [folded UV] that by blast
  qed (rule m2)
  then show ?thesis
    using symMerge_cut [OF _ _ mid_def n_def r st_def e_def] H(3,4,7,8) s1(1) eq by simp
qed

lemma symMerge_spec:
  "elems s = P @ U @ V @ R \<Longrightarrow> a = length P \<Longrightarrow> m = a + length U \<Longrightarrow> b = m + length V \<Longrightarrow>
    sorted_wrt le U \<Longrightarrow> sorted_wrt le V \<Longrightarrow> U \<noteq> [] \<Longrightarrow> V \<noteq> [] \<Longrightarrow> merges (symMerge data s a m b) P (U @ V) R"
proof (induction "b - a" arbitrary: s P U V R a m b rule: less_induct)
  case less
  note H = less.prems
  consider (first) "length U = 1" | (last) "length U \<noteq> 1" "length V = 1" | (cut) "2 \<le> length U" "2 \<le> length V"
    using H(7,8) by (cases U; cases V) (auto simp: Suc_le_eq)
  then show ?case
  proof cases
    case first
    then obtain x where U: "U = [x]" by (cases U) auto
    then have eq: "symMerge data s a m b = Ret (fold (\<lambda>k s. Swap data s k (k + 1)) [a..<lowest_not_less data s a (a + 1) b - 1] s)"
      using H(3) by (subst symMerge.simps) (simp add: Let_def)
    have "elems s = P @ x # V @ R" "b = a + 1 + length V" using H(1,3,4) U by simp_all
    from merge_first [OF this(1) H(2) this(2) H(6)] show ?thesis unfolding merges_def eq using U by auto
  next
    case last
    then obtain x where V: "V = [x]" by (cases V) auto
    then have eq: "symMerge data s a m b =
        Ret (fold (\<lambda>k s. Swap data s k (k - 1)) (rev [lowest_greater data s a m + 1..<m + 1]) s)"
      using H(3,4) last(1) by (subst symMerge.simps) (simp add: Let_def)
    have "elems s = P @ U @ x # R" using H(1) V by simp
    from merge_last [OF this H(2,3,5)] show ?thesis unfolding merges_def eq using V by auto
  next
    case cut
    show ?thesis by (rule symMerge_step [OF H(1-6) cut less.hyps]) assumption+
  qed
qed

end

section \<open>Ranges of the data\<close>

lemma sorted_seg_part:
  assumes "a = length P" "b = a + length W"
  shows "sorted_seg lt a b (P @ W @ R) \<longleftrightarrow> sorted_wrt (\<lambda>x y. \<not> lt y x) W"
proof
  assume s: "sorted_seg lt a b (P @ W @ R)"
  have "\<not> lt (W ! j) (W ! i)" if "i < j" "j < length W" for i j
    using s [unfolded sorted_seg_def, rule_format, of "a + i" "a + j"] that assms by (simp add: nth_append)
  then show "sorted_wrt (\<lambda>x y. \<not> lt y x) W" by (simp add: sorted_wrt_iff_nth_less)
next
  assume "sorted_wrt (\<lambda>x y. \<not> lt y x) W"
  then have "\<not> lt (W ! (j - a)) (W ! (i - a))" if "a \<le> i" "i < j" "j < b" for i j
    using that assms by (simp add: sorted_wrt_iff_nth_less)
  then show "sorted_seg lt a b (P @ W @ R)"
    unfolding sorted_seg_def using assms by (auto simp: nth_append)
qed

lemma stab_adjacent:
  assumes "strict_weak lt" "Suc j < length xs" "lt (xs ! Suc j) (xs ! j)"
  shows "stab lt xs (swap xs (Suc j) j)"
proof -
  define X Y where "X = take j xs" and "Y = drop (Suc (Suc j)) xs"
  have xs: "xs = X @ [xs ! j] @ [xs ! Suc j] @ Y" and j: "length X = j"
    using assms(2) by (simp_all add: X_def Y_def Cons_nth_drop_Suc)
  have "swap xs (Suc j) j = X @ [xs ! Suc j] @ [xs ! j] @ Y"
    using swap_app [of X "xs ! j" "[]" "xs ! Suc j" Y] xs j by (simp add: swap_comm [of xs "Suc j"])
  moreover have ab: "stab lt ([xs ! j] @ [xs ! Suc j]) ([xs ! Suc j] @ [xs ! j])"
    by (rule stab_swap [OF assms(1)]) (simp add: assms(3))
  then have "stab lt (X @ ([xs ! j] @ [xs ! Suc j]) @ Y) (X @ ([xs ! Suc j] @ [xs ! j]) @ Y)"
    by (intro stab_app [OF stab_refl stab_app [OF ab stab_refl]])
  ultimately show ?thesis using xs by simp
qed

text \<open>A range is rearranged and equivalent elements keep their order.\<close>

definition stable_in :: "('a \<Rightarrow> 'a \<Rightarrow> bool) \<Rightarrow> nat \<Rightarrow> nat \<Rightarrow> 'a list \<Rightarrow> 'a list \<Rightarrow> bool" where
  "stable_in lt a b xs ys \<longleftrightarrow> seg_perm a b xs ys \<and> stab lt xs ys"

context sort_order
begin

lemma symMerge_seg:
  assumes "a < m" "m < b" "b \<le> length (elems s)" "sorted_seg lt a m (elems s)" "sorted_seg lt m b (elems s)"
  shows "\<exists>s'. symMerge data s a m b = Ret s' \<and> stable_in lt a b (elems s) (elems s') \<and> sorted_seg lt a b (elems s')"
proof -
  define P U V R where "P = take a (elems s)" and "U = take (m - a) (drop a (elems s))"
    and "V = take (b - m) (drop m (elems s))" and "R = drop b (elems s)"
  have "drop m (elems s) = V @ R"
    using append_take_drop_id [of "b - m" "drop m (elems s)"] assms(2) by (simp add: V_def R_def)
  moreover have "drop a (elems s) = U @ drop m (elems s)"
    using append_take_drop_id [of "m - a" "drop a (elems s)"] assms(1) by (simp add: U_def)
  ultimately have s: "elems s = P @ U @ V @ R" by (metis P_def append_take_drop_id)
  have l: "a = length P" "m = a + length U" "b = m + length V" using assms(1-3) by (simp_all add: P_def U_def V_def)
  have "sorted_wrt le U" using assms(4) sorted_seg_part [OF l(1,2), of lt "V @ R"] s by simp
  moreover have "sorted_wrt le V"
    using assms(5) sorted_seg_part [of m "P @ U" b V lt R] s l by simp
  moreover have "U \<noteq> []" "V \<noteq> []" using assms(1,2) l by auto
  ultimately obtain s' W where w: "symMerge data s a m b = Ret s'" "elems s' = P @ W @ R" "sorted_wrt le W" "stab lt (U @ V) W"
    using symMerge_spec [OF s l] unfolding merges_def by blast
  have lW: "b = a + length W" using stab_length [OF swo w(4)] l by simp
  have st: "stab lt (elems s) (elems s')"
    using stab_app [OF stab_refl [of lt P] stab_app [OF w(4) stab_refl [of lt R]]] s w(2) by simp
  have "elems s' ! i = elems s ! i" if "i < a \<or> b \<le> i" for i
    using that unfolding s w(2) using l lW by (auto simp: nth_append add.assoc)
  then have "seg_perm a b (elems s) (elems s')"
    using stab_mset [OF swo st] stab_length [OF swo st] by (simp add: seg_perm_def)
  moreover have "sorted_seg lt a b (elems s')" using sorted_seg_part [OF l(1) lW] w(2,3) by simp
  ultimately show ?thesis using w(1) st by (auto simp: stable_in_def)
qed

lemma insertion_inner_stab: "j < length (elems s) \<Longrightarrow> stab lt (elems s) (elems (insertion_inner data s a j))"
proof (induction j arbitrary: s)
  case (Suc j)
  show ?case
  proof (cases "Suc j > a \<and> Less data s (Suc j) j")
    case True
    let ?s = "Swap data s (Suc j) j"
    have e: "elems ?s = swap (elems s) (Suc j) j" using Suc.prems by (simp add: swp)
    have "stab lt (elems s) (elems ?s)"
      unfolding e using True Suc.prems by (intro stab_adjacent [OF swo]) (auto simp: less_lt)
    moreover have "stab lt (elems ?s) (elems (insertion_inner data ?s a j))"
      using Suc.prems by (intro Suc.IH) (simp add: e)
    moreover have "insertion_inner data s a (Suc j) = insertion_inner data ?s a j"
      using True by (subst insertion_inner.simps) simp
    ultimately show ?thesis using stab_trans by metis
  qed (subst insertion_inner.simps, auto)
qed (subst insertion_inner.simps, simp)

lemma insertion_outer_stab: "b \<le> length (elems s) \<Longrightarrow> stab lt (elems s) (elems (insertion_outer data s a b i))"
proof (induction "b - i" arbitrary: s i rule: less_induct)
  case less
  show ?case
  proof (cases "i < b")
    case True
    let ?s = "insertion_inner data s a i"
    have st: "stab lt (elems s) (elems ?s)" using True less.prems by (intro insertion_inner_stab) simp
    have "stab lt (elems ?s) (elems (insertion_outer data ?s a b (i + 1)))"
      using True less.prems stab_length [OF swo st] by (intro less.hyps) auto
    with st True show ?thesis by (subst insertion_outer.simps) (auto intro: stab_trans)
  qed (subst insertion_outer.simps, simp)
qed

lemma insertionSort_seg:
  assumes "b \<le> length (elems s)"
  shows "stable_in lt a b (elems s) (elems (insertionSort data s a b)) \<and> sorted_seg lt a b (elems (insertionSort data s a b))"
  using insertionSort_perm [OF assms] insertionSort_sorted [OF assms] insertion_outer_stab [OF assms]
  by (simp add: stable_in_def insertionSort_def)

end

section \<open>The loops over blocks\<close>

text \<open>The blocks of size \<open>k\<close> that start in \<open>[lo, hi)\<close> are sorted; the last one may be shorter.\<close>

definition blocks :: "('a \<Rightarrow> 'a \<Rightarrow> bool) \<Rightarrow> nat \<Rightarrow> nat \<Rightarrow> nat \<Rightarrow> 'a list \<Rightarrow> bool" where
  "blocks lt k lo hi xs \<longleftrightarrow> (\<forall>c. k dvd c \<longrightarrow> lo \<le> c \<longrightarrow> c < hi \<longrightarrow> sorted_seg lt c (min (c + k) (length xs)) xs)"

lemma block_end: "k dvd c \<Longrightarrow> k dvd a \<Longrightarrow> c < a \<Longrightarrow> c + k \<le> (a::nat)"
  using dvd_imp_le [of k "a - c"] by fastforce

lemma block_start: "k dvd c \<Longrightarrow> k dvd a \<Longrightarrow> c < a + k \<Longrightarrow> c \<le> (a::nat)"
  using block_end [of k a c] by force

lemma stable_in_length: "stable_in lt a b xs ys \<Longrightarrow> length ys = length xs"
  unfolding stable_in_def using seg_perm_length by blast

lemma stable_in_stab: "stable_in lt a b xs ys \<Longrightarrow> stab lt xs ys"
  by (simp add: stable_in_def)

lemma sorted_seg_outside:
  "stable_in lt a b xs ys \<Longrightarrow> sorted_seg lt c d xs \<Longrightarrow> d \<le> length xs \<Longrightarrow> d \<le> a \<or> b \<le> c \<Longrightarrow> sorted_seg lt c d ys"
  by (rule sorted_seg_cong [of c d xs]) (auto simp: stable_in_def seg_perm_def)

text \<open>What lies before and after a rearranged range stays sorted, and the range becomes a block.\<close>

lemma blocks_extend:
  assumes "blocks lt k 0 a xs" "k dvd a" "stable_in lt a b xs ys" "sorted_seg lt a b ys" "b = min (a + k) (length xs)"
  shows "blocks lt k 0 (a + k) ys"
  unfolding blocks_def
proof (intro allI impI)
  fix c assume c: "k dvd c" "c < a + k"
  note l = stable_in_length [OF assms(3)]
  show "sorted_seg lt c (min (c + k) (length ys)) ys"
  proof (cases "c < a")
    case True
    then have "sorted_seg lt c (min (c + k) (length xs)) xs" using assms(1) c by (simp add: blocks_def)
    moreover have "c + k \<le> a" using block_end c(1) assms(2) True by blast
    ultimately show ?thesis using l by (auto intro!: sorted_seg_outside [OF assms(3)])
  next
    case False
    then have "c = a" using block_start c assms(2) by (metis le_antisym not_less)
    then show ?thesis using assms(4,5) l by simp
  qed
qed

lemma blocks_after:
  "blocks lt k a h xs \<Longrightarrow> stable_in lt a b xs ys \<Longrightarrow> a \<le> b \<Longrightarrow> blocks lt k b h ys"
  unfolding blocks_def
proof (intro allI impI)
  fix c
  assume *: "\<forall>c. k dvd c \<longrightarrow> a \<le> c \<longrightarrow> c < h \<longrightarrow> sorted_seg lt c (min (c + k) (length xs)) xs"
    "stable_in lt a b xs ys" "a \<le> b" "k dvd c" "b \<le> c" "c < h"
  then have "sorted_seg lt c (min (c + k) (length xs)) xs" by simp
  then show "sorted_seg lt c (min (c + k) (length ys)) ys"
    unfolding stable_in_length [OF *(2)] using *(5) by (intro sorted_seg_outside [OF *(2)]) simp_all
qed

lemma blocks_hi: "blocks lt k 0 b xs \<Longrightarrow> a \<le> b \<Longrightarrow> blocks lt k 0 a xs"
  by (simp add: blocks_def)

context sort_order
begin

lemma stable_blocks_spec:
  "blocks lt 20 0 a (elems s) \<Longrightarrow> 20 dvd a \<Longrightarrow> n = length (elems s) \<Longrightarrow>
    stab lt (elems s) (elems (stable_blocks data n s a)) \<and> blocks lt 20 0 n (elems (stable_blocks data n s a))"
proof (induction "n - a" arbitrary: s a rule: less_induct)
  case less
  let ?b = "min (a + 20) n" and ?s = "insertionSort data s a (min (a + 20) n)"
  have i: "stable_in lt a ?b (elems s) (elems ?s)" "sorted_seg lt a ?b (elems ?s)"
    using insertionSort_seg [of ?b s a] less.prems(3) by auto
  then have b: "blocks lt 20 0 (a + 20) (elems ?s)"
    using less.prems by (intro blocks_extend [OF less.prems(1)]) auto
  show ?case
  proof (cases "a + 20 \<le> n")
    case True
    then have "stab lt (elems ?s) (elems (stable_blocks data n ?s (a + 20))) \<and> blocks lt 20 0 n (elems (stable_blocks data n ?s (a + 20)))"
      using b less.prems stable_in_length [OF i(1)] by (intro less.hyps) auto
    moreover have "stable_blocks data n s a = stable_blocks data n ?s (a + 20)"
      using True by (subst stable_blocks.simps) (simp add: min_absorb1)
    ultimately show ?thesis using stable_in_stab [OF i(1)] stab_trans by metis
  next
    case False
    then have "stable_blocks data n s a = ?s" by (subst stable_blocks.simps) (simp add: min_absorb2)
    then show ?thesis using stable_in_stab [OF i(1)] blocks_hi [OF b] False by auto
  qed
qed

text \<open>Two blocks at the start of a range become one of twice the size.\<close>

lemma merge_blocks:
  assumes k: "0 < k" "2 * k dvd a" and b: "blocks lt (2 * k) 0 a (elems s)" "blocks lt k a n (elems s)"
    and n: "n = length (elems s)" "a + k < n" and e: "e = min (a + 2 * k) n"
  shows "\<exists>s'. symMerge data s a (a + k) e = Ret s' \<and> stable_in lt a e (elems s) (elems s') \<and>
    blocks lt (2 * k) 0 (a + 2 * k) (elems s') \<and> blocks lt k e n (elems s')"
proof -
  have d: "k dvd a" "k dvd a + k" using k(2) dvd_mult_right by (auto intro: dvd_add)
  have "sorted_seg lt a (a + k) (elems s)" "sorted_seg lt (a + k) e (elems s)"
    using b(2) [unfolded blocks_def, rule_format, OF d(1)] b(2) [unfolded blocks_def, rule_format, OF d(2)] n e
    by (simp_all add: min_def mult_2 add.assoc split: if_splits)
  then obtain s' where s': "symMerge data s a (a + k) e = Ret s'" "stable_in lt a e (elems s) (elems s')"
    "sorted_seg lt a e (elems s')"
    using symMerge_seg [of a "a + k" e s] k(1) n e by auto
  have "blocks lt (2 * k) 0 (a + 2 * k) (elems s')" using blocks_extend [OF b(1) k(2) s'(2,3)] e n(1) by simp
  moreover have "blocks lt k e n (elems s')" using blocks_after [OF b(2) s'(2)] e n by simp
  ultimately show ?thesis using s'(1,2) by blast
qed

lemma merge_pass_spec:
  "blocks lt (2 * k) 0 a (elems s) \<Longrightarrow> blocks lt k a n (elems s) \<Longrightarrow> 2 * k dvd a \<Longrightarrow> 0 < k \<Longrightarrow> n = length (elems s) \<Longrightarrow>
    \<exists>s'. merge_pass data n k s a = Ret s' \<and> stab lt (elems s) (elems s') \<and> blocks lt (2 * k) 0 n (elems s')"
proof (induction "n - a" arbitrary: s a rule: less_induct)
  case less
  show ?case
  proof (cases "a + k < n")
    case False
    have "blocks lt (2 * k) 0 n (elems s)"
      unfolding blocks_def
    proof (intro allI impI)
      fix c assume c: "2 * k dvd c" "c < n"
      show "sorted_seg lt c (min (c + 2 * k) (length (elems s))) (elems s)"
      proof (cases "c < a")
        case True
        then show ?thesis using less.prems(1) c(1) by (simp add: blocks_def)
      next
        case ge: False
        then have "c = a" using block_start [OF c(1) less.prems(3)] c(2) False by simp
        moreover have "sorted_seg lt a (min (a + k) n) (elems s)"
          using less.prems(2,3,5) c ge \<open>c = a\<close> dvd_mult_right by (auto simp: blocks_def)
        ultimately show ?thesis using False less.prems(5) by (simp add: min_absorb2)
      qed
    qed
    then show ?thesis using False less.prems(4) by (subst merge_pass.simps) auto
  next
    case True
    define e where "e = min (a + 2 * k) n"
    obtain s' where s': "symMerge data s a (a + k) e = Ret s'" "stable_in lt a e (elems s) (elems s')"
      "blocks lt (2 * k) 0 (a + 2 * k) (elems s')" "blocks lt k e n (elems s')"
      using merge_blocks [OF less.prems(4,3,1,2,5) True e_def] by blast
    show ?thesis
    proof (cases "a + 2 * k \<le> n")
      case le: True
      then have e: "e = a + 2 * k" by (simp add: e_def)
      have "\<exists>s''. merge_pass data n k s' (a + 2 * k) = Ret s'' \<and> stab lt (elems s') (elems s'') \<and> blocks lt (2 * k) 0 n (elems s'')"
        using s'(3,4) less.prems(3-5) stable_in_length [OF s'(2)] True e by (intro less.hyps) auto
      then show ?thesis
        using s'(1) stable_in_stab [OF s'(2)] le less.prems(4) e by (subst merge_pass.simps) (auto intro: stab_trans)
    next
      case False
      then have "e = n" by (simp add: e_def)
      then show ?thesis
        using s'(1) stable_in_stab [OF s'(2)] blocks_hi [OF s'(3)] True False less.prems(4) by (subst merge_pass.simps) auto
    qed
  qed
qed

end

context sort_order
begin

lemma stable_loop_spec:
  "blocks lt k 0 n (elems s) \<Longrightarrow> 0 < k \<Longrightarrow> n = length (elems s) \<Longrightarrow>
    \<exists>s'. stable_loop data n k s = Ret s' \<and> stab lt (elems s) (elems s') \<and> sorted_seg lt 0 n (elems s')"
proof (induction "n - k" arbitrary: s k rule: less_induct)
  case less
  show ?case
  proof (cases "k < n")
    case True
    have "blocks lt (2 * k) 0 0 (elems s)" by (simp add: blocks_def)
    from merge_pass_spec [OF this less.prems(1) _ less.prems(2,3)]
    obtain s1 where s1: "merge_pass data n k s 0 = Ret s1" "stab lt (elems s) (elems s1)" "blocks lt (2 * k) 0 n (elems s1)"
      by auto
    have "\<exists>s'. stable_loop data n (2 * k) s1 = Ret s' \<and> stab lt (elems s1) (elems s') \<and> sorted_seg lt 0 n (elems s')"
      using s1(2,3) less.prems stab_length [OF swo s1(2)] True by (intro less.hyps) auto
    then show ?thesis using s1(1,2) True less.prems(2) by (subst stable_loop.simps) (auto intro: stab_trans)
  next
    case False
    have "sorted_seg lt 0 n (elems s)"
      using less.prems(1) [unfolded blocks_def, rule_format, of 0] less.prems(3) False
      by (cases "n = 0") (auto simp: min_absorb2 sorted_seg_def)
    then show ?thesis using False less.prems(2) by (subst stable_loop.simps) auto
  qed
qed

text \<open>\<open>Stable\<close> returns, sorts, and keeps the order of equivalent elements.\<close>

lemma stable_spec:
  assumes "n = length (elems s)"
  shows "\<exists>s'. stable data s n = Ret s' \<and> sorted_wrt le (elems s') \<and> stab lt (elems s) (elems s')"
proof -
  let ?s = "stable_blocks data n s 0"
  have "blocks lt 20 0 0 (elems s)" by (simp add: blocks_def)
  then have b: "stab lt (elems s) (elems ?s)" "blocks lt 20 0 n (elems ?s)"
    using stable_blocks_spec [of 0 s n] assms by simp_all
  obtain s' where "stable_loop data n 20 ?s = Ret s'" "stab lt (elems ?s) (elems s')" "sorted_seg lt 0 n (elems s')"
    using stable_loop_spec [OF b(2)] stab_length [OF swo b(1)] assms by auto
  then show ?thesis
    using stab_trans [OF b(1)] stab_length [OF swo, of "elems ?s" "elems s'"] stab_length [OF swo b(1)] assms
    by (auto simp: stable_def sorted_wrt_seg)
qed

end

section \<open>The property\<close>

text \<open>C37. \<open>sort.SliceStable\<close> returns for every slice and every function that compares elements by a
  strict weak order: its result is sorted, has the elements of the slice, and the elements that the order
  does not tell apart from any one element are the same sequence in both.  The loops over blocks of 20,
  the rotations and the recursion of \<open>symMerge\<close> all end.\<close>

theorem SliceStable_sorts:
  assumes "\<And>p i j. f p i j = lt (p ! i) (p ! j)" and "strict_weak lt"
  shows "\<exists>y. SliceStable x f = Ret y \<and> mset y = mset x \<and> sorted_wrt (\<lambda>u v. \<not> lt v u) y \<and>
    (\<forall>u. filter (\<lambda>v. \<not> lt u v \<and> \<not> lt v u) y = filter (\<lambda>v. \<not> lt u v \<and> \<not> lt v u) x)"
proof -
  obtain y where y: "SliceStable x f = Ret y" "sorted_wrt (\<lambda>u v. \<not> lt v u) y" "stab lt x y"
    using sort_order.stable_spec [OF slice_order [OF assms] refl, of x] by (auto simp: SliceStable_def)
  have "eqv lt = (\<lambda>u v. \<not> lt u v \<and> \<not> lt v u)" by (intro ext) (simp add: eqv_def)
  then show ?thesis using y stab_mset [OF assms(2) y(3)] by (auto simp: stab_def)
qed

theorem SliceStable_sorts_witness:
  "\<exists>y. SliceStable [13, 21, 3, 11 :: nat] (\<lambda>p i j. p ! i mod 10 < p ! j mod 10) = Ret y \<and>
    sorted_wrt (\<lambda>u v. u mod 10 \<le> v mod 10) y \<and> filter (\<lambda>v. v mod 10 = 3) y = [13, 3]"
proof -
  let ?f = "\<lambda>p i j. p ! i mod 10 < p ! j mod (10 :: nat)"
  have "strict_weak (\<lambda>u v. u mod 10 < (v mod 10 :: nat))" by (auto simp: strict_weak_def)
  from SliceStable_sorts [of ?f, OF refl this, of "[13, 21, 3, 11]"]
  obtain y where y: "SliceStable [13, 21, 3, 11] ?f = Ret y" "sorted_wrt (\<lambda>u v. u mod 10 \<le> v mod 10) y"
    "\<And>u. filter (\<lambda>v. \<not> u mod 10 < v mod 10 \<and> \<not> v mod 10 < u mod 10) y =
      filter (\<lambda>v. \<not> u mod 10 < v mod 10 \<and> \<not> v mod 10 < u mod 10) [13, 21, 3, 11]"
    by (auto simp: not_less)
  have "(\<lambda>v. \<not> 3 mod 10 < v mod 10 \<and> \<not> v mod 10 < 3 mod (10 :: nat)) = (\<lambda>v. v mod 10 = 3)" by (intro ext) auto
  then have "filter (\<lambda>v. v mod 10 = 3) y = [13, 3]" using y(3) [of 3] by simp
  with y(1,2) show ?thesis by blast
qed

end
