(* ===== verification/Spec2Isabelle.thy ===== *)
theory Spec2Isabelle
  imports Chan_System Go_Heap Timer_Late Utf8_Props Go_List_Props Runq_System Runq_Conc Strconv_Props Mutex_Spec Rwmutex_Spec Gomap_Props Sort_Stable
begin

text \<open>
  The concurrency core of the Go 1.15 runtime and core algorithms of its standard library, for a target
  with 64-bit words.  File names are relative to \<open>src/src\<close>.

  \<^bold>\<open>The program.\<close>  Goroutines communicate over channels and sleep on semaphores, which carry the
  mutexes of package \<open>sync\<close>; a goroutine that is made ready goes to a run queue of the scheduler, from where
  it runs again; each P of the scheduler also keeps a heap of timers and runs those that are due.  Maps are
  the hash tables behind the map types of the language.  The library packages are called by all of these
  and by user code: \<open>container/heap\<close> and \<open>container/list\<close> on data structures of their client, \<open>sort\<close> on
  any type with three methods, \<open>strconv\<close> and \<open>unicode/utf8\<close> on text.

  \<^bold>\<open>Theories.\<close>  A theory named after a component holds its state and operations, translated from the
  code; the theory with \<open>_Spec\<close> holds what the state stands for, the invariant, and what each operation does
  to it; the theory with \<open>_System\<close>, \<open>_Conc\<close> or \<open>_Props\<close> puts operations together into programs or
  interleavings, and holds the properties.

  \<^item> \<^bold>\<open>Prelude\<close>: the results of Go code besides returning -- a panic, a throw of the runtime, a loop that
    does not end -- as the type \<open>outcome\<close> with its sequential composition \<open>obind\<close>; machine words; lists.
  \<^item> \<^bold>\<open>Waitq\<close>, \<^bold>\<open>Chan\<close> (\<open>runtime/chan.go\<close>, \<open>runtime/select.go\<close>, \<open>runtime/internal/math\<close>): queues
    of \<open>sudog\<close>s as doubly linked lists in a store, and \<open>makechan\<close>, \<open>chansend\<close>, \<open>chanrecv\<close>, \<open>closechan\<close>
    with the code that runs when a parked goroutine is woken.  \<^bold>\<open>Chan_Spec\<close>: a circular buffer stands for
    a list, a linked queue for the list of its waiters; each operation refines an operation on these.
    \<^bold>\<open>Chan_System\<close>: any number of goroutines on one channel as a step relation; values arrive in order,
    none is lost or doubled, nobody waits while he could proceed, no wake-up makes the runtime throw.
  \<^item> \<^bold>\<open>Sema\<close> (\<open>runtime/sema.go\<close>), \<^bold>\<open>Mutex\<close> (\<open>sync/mutex.go\<close>), \<^bold>\<open>Rwmutex\<close> (\<open>sync/rwmutex.go\<close>):
    the control state of every goroutine is a program counter with its local variables, and a step is one
    atomic access to a shared word.  \<^bold>\<open>Sema_Spec\<close>, \<^bold>\<open>Mutex_Spec\<close>, \<^bold>\<open>Rwmutex_Spec\<close>: exclusion, and that
    no wake-up is lost, in every interleaving.  \<open>Mutex\<close> runs on the steps of \<open>Sema\<close>; \<open>Rwmutex\<close> on the
    contracts that the two theories below it prove.
  \<^item> \<^bold>\<open>Runq\<close> (\<open>runtime/proc.go\<close>, \<open>runtime/runtime2.go\<close>): the queue of runnable goroutines of a P, a ring
    of 256 with 32-bit indices that wrap, the global queue, batches and stealing, the list of idle Ps.
    \<^bold>\<open>Runq_Spec\<close>: rings and linked queues stand for sequences.  \<^bold>\<open>Runq_System\<close>: programs of queue operations
    refine programs on sequences.  \<^bold>\<open>Runq_Conc\<close>: one ring with its owner and any number of thieves, each
    atomic access a step.
  \<^item> \<^bold>\<open>Timer\<close> (\<open>runtime/time.go\<close>, \<open>checkTimers\<close> of \<open>runtime/proc.go\<close>): the status word of a timer, the
    4-ary heap of each P, its counters, and every operation that holds the lock of the timers.
    \<^bold>\<open>Timer_Spec\<close>, \<^bold>\<open>Timer_Ops\<close>: the invariant that ties heaps, statuses and counters together, and the map
    from timers to deadlines that operations update.  \<^bold>\<open>Timer_System\<close>: sequences of operations and the loop
    that runs timers.  \<^bold>\<open>Timer_Late\<close>: the reachable states in which \<open>adjusttimers\<close> skips a timer, which
    the code then runs late, and other behaviours at odds with the comments.
  \<^item> \<^bold>\<open>Gomap\<close> (\<open>runtime/map.go\<close>): hash maps with chains of buckets that grow by moving one or two old
    buckets at each write.  \<^bold>\<open>Gomap_Spec\<close>: a chain of blocks as a flat list of cells and as the multiset of
    its entries.  \<^bold>\<open>Gomap_Grow\<close>: the invariant of a map that grows, and that moving a bucket keeps its
    contents.  \<^bold>\<open>Gomap_System\<close>: each operation on the abstract map.  \<^bold>\<open>Gomap_Props\<close>: programs.
  \<^item> \<^bold>\<open>Heap_Order\<close>: array heaps with any number of children, shared by \<open>Timer\<close>, \<open>Go_Heap\<close> and \<open>Sort_Spec\<close>.
    \<^bold>\<open>Go_Heap\<close> (\<open>container/heap\<close>): the operations over an interface of five methods, proved once for every
    implementation, and interpreted on the implementation of the package's example.
  \<^item> \<^bold>\<open>Go_Sort\<close> (\<open>sort\<close>): the operations over \<open>Interface\<close>.  \<^bold>\<open>Sort_Spec\<close>: sorting and searching proved
    for every implementation that compares and swaps elements of a sequence, interpreted on \<open>sort.Slice\<close> and
    the slices of integers and strings.  \<^bold>\<open>Sort_Stable\<close>: the stable sort, by rotations and symmetric
    merges in place, sorts and keeps equal elements in order.
  \<^item> \<^bold>\<open>Go_List\<close> (\<open>container/list\<close>): rings of nodes in a store.  \<^bold>\<open>Go_List_Spec\<close>, \<^bold>\<open>Go_List_Props\<close>: lists stand
    for sequences, and programs over any number of lists refine programs over sequences.  \<open>Init\<close> clears a list
    but leaves its elements with their owner; the invariant names these elements, and a legal program does
    not give one back to the list that it was dropped from.
  \<^item> \<^bold>\<open>Utf8\<close> (\<open>unicode/utf8\<close>, \<open>runtime/utf8.go\<close>): decoding, encoding, counting and validating.
    \<^bold>\<open>Utf8_Spec\<close>: UTF-8 as a code on numbers, and that the functions implement it.  \<^bold>\<open>Utf8_Props\<close>: whole texts.
  \<^item> \<^bold>\<open>Strconv\<close> (\<open>strconv/itoa.go\<close>, \<open>strconv/atoi.go\<close>): integers to text and back.  \<^bold>\<open>Strconv_Spec\<close>: numerals
    as text, without a bound, and reading a text from the left, with the prefixes and underscores of base 0.
    \<^bold>\<open>Strconv_Props\<close>: what parsing returns for every text, base and bit size, and that it reads back what is
    formatted.

  \<^bold>\<open>Conventions.\<close>  A definition has the name of the function it models, or says in a comment which part of
  which function it is; a loop of the code is a recursive function.  Words that the code counts modulo
  \<open>2 ^ w\<close> are \<open>w word\<close>s; the Go \<open>int\<close>s that count elements in memory are unbounded.  A pointer structure is
  a store with explicit links where the code relinks it (\<open>Waitq\<close>, \<open>Runq\<close>, \<open>Go_List\<close>), and a list where it
  only appends to it (the blocks of a bucket in \<open>Gomap\<close>).

  \<^bold>\<open>Bounds and fuel.\<close>  The semaphores count the waiters and tickets of fewer than \<open>2 ^ 32\<close> goroutines, the mutex
  has 29 bits for its waiters and is used by fewer than \<open>2 ^ 28\<close> goroutines, and \<open>RWMutex\<close> allows \<open>2 ^ 30\<close>
  readers.  In \<open>Runq_Conc\<close> a thief that read the head of the ring swaps before the head has gone round all
  \<open>2 ^ 32\<close> values.  A map gets at most \<open>2 ^ 48\<close> assignments, more than there is memory for.  The fuel of
  \<open>mapassign\<close> is 5 rounds of its loop: a map that grows from one bucket grows to four at most before it has
  old buckets to move left, which ends the loop.  The 64 rounds of \<open>find_B\<close> are more than the 46 that the
  allocation limit admits.  Loops without an obvious measure (\<open>waitq.dequeue\<close>, the loops over linked queues)
  are partial functions, and that they return is proved under the invariant.

  \<^bold>\<open>Simplified.\<close>  Tests that only an overflow of an \<open>int\<close> index could make true are not in the model, whose
  indices are unbounded: the conversion to \<open>uint\<close> in the midpoint of \<open>sort.Search\<close>, and \<open>j1 < 0\<close> in \<open>down\<close> of
  \<open>container/heap\<close>.  The counters of timers are unbounded integers, not \<open>uint32\<close>s.  \<open>formatBits\<close> writes to a
  list, not to an array of 65 bytes.  \<open>sort.Slice\<close> does not panic, since its argument is a slice by its type,
  and the indices that \<open>sort\<close> and \<open>container/heap\<close> give to their client are not checked by it.
  The hash of a map is total: the panic for a key that cannot be hashed, also on an empty or nil map, is left
  out.  \<open>evac_put\<close> moves an entry to the end of the chain of its new bucket, where \<open>evacDst\<close> keeps a pointer to
  the block to fill; in the reachable maps this chain is empty when its bucket is moved, so the two agree.

  \<^bold>\<open>Not modelled.\<close>  The race detector, memory sanitizer, block profiling and debugging output.  Weak memory:
  atomic accesses are sequentially consistent.  Of the runtime: memory allocation and garbage collection,
  whose data structures are laid out over raw memory; stacks, panics and \<open>defer\<close>, signals and system calls,
  which are mostly assembly and operating system interface; the part of the scheduler that chooses what an M
  does next, which acts by switching stacks; \<open>select\<close> over several channels, of which only the race for
  \<open>selectDone\<close> is modelled; the tree in which \<open>sema.go\<close> finds the list of an address, and \<open>notifyList\<close>; the
  iterators of maps.  Of \<open>sort\<close> the slices of floats; of \<open>strconv\<close> floats and quoting.  The
  compiler, linker and other commands, the network stack, cryptography, and the vendored and generated
  code are outside of this development.
\<close>

end
